(* ===== verification/JsNumber.thy ===== *)
theory JsNumber
  imports Prelude
begin

text \<open>
  Numbers of JavaScript as far as the configuration uses them: \<open>Number.parseInt(text, 10)\<close>, whose digits are rounded to
  a double, and \<open>String(value)\<close> of a double that is a natural number, which is its shortest decimal form, with an exponent
  from \<open>10^21\<close> on. A double is the number it denotes.
\<close>

subsection \<open>Doubles\<close>

fun bit_length :: "nat \<Rightarrow> nat" where
  "bit_length n = (if n = 0 then 0 else Suc (bit_length (n div 2)))"

declare bit_length.simps [simp del]

text \<open>The nearest multiple of \<open>2^k\<close>, the even one on a tie, where \<open>k\<close> is the number of bits beyond 53.\<close>

definition round_double :: "nat \<Rightarrow> nat" where
  "round_double n =
     (let k = bit_length n - 53; q = n div 2 ^ k; r = n mod 2 ^ k
      in (if 2 * r > 2 ^ k \<or> 2 * r = 2 ^ k \<and> odd q then q + 1 else q) * 2 ^ k)"

definition is_double :: "nat \<Rightarrow> bool" where
  "is_double n \<longleftrightarrow> round_double n = n"

subsection \<open>Parsing\<close>

text \<open>Leading white space, a sign, the longest run of digits: the integer the text begins with.\<close>

definition parse_int :: "string \<Rightarrow> int option" where
  "parse_int s =
     (let t = trim_start s;
          neg = starts_with ''-'' t;
          u = (if neg \<or> starts_with ''+'' t then tl t else t);
          ds = takeWhile is_digit u
      in if ds = [] then None
         else Some (if neg then - int (read_nat ds) else int (read_nat ds)))"

text \<open>\<open>Number.parseInt\<close>: that integer as a double. \<open>None\<close> is \<open>NaN\<close> or an infinity, neither of them an integer.\<close>

definition parseInt :: "string \<Rightarrow> int option" where
  "parseInt s =
     (case parse_int s of None \<Rightarrow> None
      | Some i \<Rightarrow> let m = round_double (nat \<bar>i\<bar>)
                  in if m \<ge> 2 ^ 1024 then None else Some (if i < 0 then - int m else int m))"

subsection \<open>Rendering\<close>

text \<open>The decimals of \<open>k\<close> significant digits on either side of \<open>x\<close>; of those that are read back as \<open>x\<close>, the nearer
  one, the one with the even last digit on a tie.\<close>

definition decimal_of :: "nat \<Rightarrow> nat \<Rightarrow> nat option" where
  "decimal_of x k =
     (let m = 10 ^ (length (show_nat x) - k); s = x div m; lo = s * m; hi = (s + 1) * m
      in if round_double lo = x \<and> (round_double hi \<noteq> x \<or> x - lo < hi - x \<or> x - lo = hi - x \<and> even s) then Some lo
         else if round_double hi = x then Some hi else None)"

fun first_decimal :: "nat \<Rightarrow> nat list \<Rightarrow> nat" where
  "first_decimal x [] = x"
| "first_decimal x (k # ks) = (case decimal_of x k of Some c \<Rightarrow> c | None \<Rightarrow> first_decimal x ks)"

definition shortest_decimal :: "nat \<Rightarrow> nat" where
  "shortest_decimal x = first_decimal x [1 ..< length (show_nat x) + 1]"

definition js_String :: "nat \<Rightarrow> string" where
  "js_String x =
     (let ds = show_nat (shortest_decimal x); n = length ds
      in if n \<le> 21 then ds
         else let digits = rev (dropWhile (\<lambda>c. c = CHR ''0'') (rev ds))
              in hd digits # (if tl digits = [] then [] else CHR ''.'' # tl digits) @ ''e+'' @ show_nat (n - 1))"

subsection \<open>Rounding\<close>

lemma bit_length_upper: "n < 2 ^ bit_length n"
proof (induction n rule: bit_length.induct)
  case (1 n)
  show ?case
  proof (cases "n = 0")
    case False
    with 1 have "n div 2 < 2 ^ bit_length (n div 2)" by simp
    with False show ?thesis by (subst bit_length.simps) simp
  qed (simp add: bit_length.simps)
qed

lemma bit_length_le: "n < 2 ^ m \<Longrightarrow> bit_length n \<le> m"
proof (induction n arbitrary: m rule: bit_length.induct)
  case (1 n)
  show ?case
  proof (cases "n = 0")
    case False
    with 1(2) obtain m' where m: "m = Suc m'" by (cases m) auto
    with 1(2) have "n div 2 < 2 ^ m'" by (simp add: less_mult_imp_div_less)
    with 1(1) False m show ?thesis by (subst bit_length.simps) simp
  qed (simp add: bit_length.simps)
qed

lemma double_of_scaled:
  assumes "q \<le> 2 ^ 53"
  shows "is_double (q * 2 ^ k)"
proof -
  have "\<exists>j q'. q * 2 ^ k = q' * 2 ^ j \<and> q' < 2 ^ 53"
  proof (cases "q = 2 ^ 53")
    case True
    have "(2 :: nat) ^ 53 * 2 ^ k = 2 ^ 52 * 2 ^ Suc k" by (simp flip: power_add)
    then have "q * 2 ^ k = 2 ^ 52 * 2 ^ Suc k" unfolding True .
    moreover have "(2 :: nat) ^ 52 < 2 ^ 53" by (rule power_strict_increasing) simp_all
    ultimately show ?thesis by blast
  qed (use assms in \<open>auto simp: le_less\<close>)
  then obtain j q' where n: "q * 2 ^ k = q' * 2 ^ j" "q' < 2 ^ 53" by blast
  let ?n = "q * 2 ^ k"
  have "q' * 2 ^ j < 2 ^ 53 * 2 ^ j" using n(2) by simp
  then have "?n < 2 ^ (53 + j)" unfolding n(1) power_add .
  then have "bit_length ?n \<le> 53 + j" by (rule bit_length_le)
  then have "2 ^ (bit_length ?n - 53) dvd ?n" unfolding n(1) by (intro dvd_mult le_imp_power_dvd) simp
  then have "?n mod 2 ^ (bit_length ?n - 53) = 0" "?n div 2 ^ (bit_length ?n - 53) * 2 ^ (bit_length ?n - 53) = ?n" by simp_all
  then show ?thesis by (simp add: is_double_def round_double_def Let_def)
qed

lemma round_is_double: "is_double (round_double n)"
proof -
  let ?k = "bit_length n - 53"
  have "n < 2 ^ (53 + ?k)" using bit_length_upper [of n] by (rule less_le_trans) simp
  then have "n div 2 ^ ?k < 2 ^ 53" by (simp add: less_mult_imp_div_less power_add)
  then show ?thesis unfolding round_double_def Let_def by (intro double_of_scaled) auto
qed

lemma small_is_double: "n \<le> 2 ^ 53 \<Longrightarrow> is_double n"
  using double_of_scaled [of n 0] by simp

lemma round_small [simp]: "n \<le> 2 ^ 53 \<Longrightarrow> round_double n = n"
  using small_is_double [of n] by (simp add: is_double_def)

subsection \<open>Digits\<close>

lemma is_digit_not_ws: "is_digit c \<Longrightarrow> \<not> js_ws c"
  by (auto simp: is_digit_def js_ws_def Let_def)

lemma digits_not_sign:
  assumes "list_all is_digit ds" "ds \<noteq> []"
  shows "\<not> starts_with ''-'' (ds @ us)" "\<not> starts_with ''+'' (ds @ us)"
proof -
  obtain c cs where c: "ds = c # cs" using assms(2) by (cases ds) auto
  then have "is_digit c" using assms by simp
  then have "c \<noteq> CHR ''-''" "c \<noteq> CHR ''+''" by (auto simp: is_digit_def)
  then show "\<not> starts_with ''-'' (ds @ us)" "\<not> starts_with ''+'' (ds @ us)" by (simp_all add: c starts_with_def)
qed

text \<open>Digits up to a character that is none.\<close>

lemma parse_digits:
  assumes "list_all is_digit ds" "ds \<noteq> []" "us = [] \<or> \<not> is_digit (hd us)"
  shows "parse_int (ds @ us) = Some (int (read_nat ds))"
proof -
  obtain c cs where c: "ds = c # cs" "is_digit c" using assms(1,2) by (cases ds) auto
  have "trim_start (ds @ us) = ds @ us" using c is_digit_not_ws by (simp add: trim_start_def)
  moreover have "takeWhile is_digit us = []" using assms(3) by (cases us) auto
  then have "takeWhile is_digit (ds @ us) = ds" using assms(1) by (simp add: list_all_iff takeWhile_append)
  ultimately show ?thesis
    unfolding parse_int_def Let_def by (simp only: digits_not_sign [OF assms(1,2)] assms(2) if_False simp_thms)
qed

lemma show_nat_all_digits: "list_all is_digit (show_nat n)"
  using is_digit_show_nat by (simp add: list_all_iff)

lemma show_nat_head_not_sign:
  "\<not> starts_with ''-'' (show_nat n)" "\<not> starts_with ''+'' (show_nat n)"
  using digits_not_sign [OF show_nat_all_digits show_nat_nonempty, of n "[]"] by simp_all

lemma parse_int_show_nat: "parse_int (show_nat n) = Some (int n)"
  using parse_digits [OF show_nat_all_digits [of n] show_nat_nonempty, of "[]"] by (simp add: read_show_nat)

lemma show_nat_length: "n < 10 ^ length (show_nat n)" "0 < n \<Longrightarrow> 10 ^ (length (show_nat n) - 1) \<le> n"
proof (induction n rule: show_nat.induct)
  case (1 n)
  case 1
  show ?case
  proof (cases "n < 10")
    case False
    with "1.IH"(1) have "n div 10 < 10 ^ length (show_nat (n div 10))" by simp
    with False show ?thesis by (subst show_nat.simps) simp
  qed (simp add: show_nat.simps)
next
  case (1 n)
  case 2
  show ?case
  proof (cases "n < 10")
    case False
    with "1.IH"(2) have "10 ^ (length (show_nat (n div 10)) - 1) \<le> n div 10" by simp
    moreover obtain l where "length (show_nat (n div 10)) = Suc l" by (cases "show_nat (n div 10)") auto
    ultimately show ?thesis using False by (subst show_nat.simps) simp
  qed (use 2 in \<open>simp add: show_nat.simps\<close>)
qed

lemma show_nat_length_le: "n < 10 ^ k \<Longrightarrow> 0 < k \<Longrightarrow> length (show_nat n) \<le> k"
proof (cases "n = 0")
  case False
  assume "n < 10 ^ k" "0 < k"
  with False show_nat_length(2) [of n] have "(10 :: nat) ^ (length (show_nat n) - 1) < 10 ^ k" by linarith
  then have "length (show_nat n) - 1 < k" by (simp add: power_strict_increasing_iff)
  then show ?thesis by simp
qed (simp add: show_nat.simps)

subsection \<open>Reading back\<close>

lemma decimal_of_rounds: "decimal_of x k = Some c \<Longrightarrow> round_double c = x"
  by (auto simp: decimal_of_def Let_def split: if_splits)

lemma decimal_of_range:
  assumes "decimal_of x k = Some c" "1 \<le> k" "0 < x"
  shows "10 ^ (length (show_nat x) - 1) \<le> c" "c \<le> 10 ^ length (show_nat x)"
proof -
  let ?l = "length (show_nat x)" and ?m = "10 ^ (length (show_nat x) - k) :: nat"
  have c: "x div ?m * ?m \<le> c" "c \<le> (x div ?m + 1) * ?m" using assms(1) by (auto simp: decimal_of_def Let_def split: if_splits)
  have low: "?m dvd 10 ^ (?l - 1)" and high: "?m dvd 10 ^ ?l" using assms(2) by (simp_all add: le_imp_power_dvd)
  have "(10 :: nat) ^ (?l - 1) div ?m \<le> x div ?m" using show_nat_length(2) [OF assms(3)] by (rule div_le_mono)
  then have "10 ^ (?l - 1) div ?m * ?m \<le> x div ?m * ?m" by simp
  with c(1) low show "10 ^ (?l - 1) \<le> c" by simp
  have "x div ?m < 10 ^ ?l div ?m"
    using show_nat_length(1) [of x] high by (auto elim!: dvdE simp: less_mult_imp_div_less mult.commute)
  then have "(x div ?m + 1) * ?m \<le> 10 ^ ?l div ?m * ?m" by (intro mult_le_mono1) simp
  with c(2) high show "c \<le> 10 ^ ?l" by simp
qed

lemma first_decimal_cases: "first_decimal x ks = x \<or> (\<exists>k \<in> set ks. decimal_of x k = Some (first_decimal x ks))"
  by (induction ks) (auto split: option.splits)

lemma shortest_decimal_rounds:
  assumes "is_double x" "0 < x"
  shows "round_double (shortest_decimal x) = x" "10 ^ (length (show_nat x) - 1) \<le> shortest_decimal x"
    "shortest_decimal x \<le> 10 ^ length (show_nat x)"
proof -
  have "shortest_decimal x = x \<or> (\<exists>k \<in> set [1 ..< length (show_nat x) + 1]. decimal_of x k = Some (shortest_decimal x))"
    unfolding shortest_decimal_def by (rule first_decimal_cases)
  then have "round_double (shortest_decimal x) = x \<and> 10 ^ (length (show_nat x) - 1) \<le> shortest_decimal x \<and>
    shortest_decimal x \<le> 10 ^ length (show_nat x)"
  proof (elim disjE bexE)
    assume "shortest_decimal x = x"
    then show ?thesis using assms show_nat_length [of x] by (simp add: is_double_def)
  next
    fix k assume k: "k \<in> set [1 ..< length (show_nat x) + 1]" "decimal_of x k = Some (shortest_decimal x)"
    then have "1 \<le> k" unfolding set_upt by simp
    with k(2) show ?thesis using decimal_of_rounds [OF k(2)] decimal_of_range [OF k(2) _ assms(2)] by simp
  qed
  then show "round_double (shortest_decimal x) = x" "10 ^ (length (show_nat x) - 1) \<le> shortest_decimal x"
    "shortest_decimal x \<le> 10 ^ length (show_nat x)" by simp_all
qed

lemma exact_power: "is_double (10 ^ 21)"
proof -
  have "(10 :: nat) ^ 21 = 5 ^ 21 * 2 ^ 21" by simp
  moreover have "(5 :: nat) ^ 21 \<le> 2 ^ 53" by simp
  ultimately show ?thesis using double_of_scaled by metis
qed

text \<open>Below \<open>10^21\<close> a rendered double is read back.\<close>

lemma parseInt_String:
  assumes "is_double x" "0 < x" "x < 10 ^ 21"
  shows "parseInt (js_String x) = Some (int x)"
proof -
  let ?c = "shortest_decimal x"
  note s = shortest_decimal_rounds [OF assms(1,2)]
  have "length (show_nat x) \<le> 21" by (rule show_nat_length_le [OF assms(3)]) simp
  then have "(10 :: nat) ^ length (show_nat x) \<le> 10 ^ 21" by (intro power_increasing) simp_all
  with s(3) have "?c \<le> 10 ^ 21" by linarith
  moreover have "?c \<noteq> 10 ^ 21" using s(1) assms(3) exact_power by (auto simp: is_double_def)
  ultimately have "length (show_nat ?c) \<le> 21" by (intro show_nat_length_le) simp_all
  then have "js_String x = show_nat ?c" by (simp add: js_String_def Let_def)
  moreover have "(10 :: nat) ^ 21 < 2 ^ 1024"
  proof -
    have "(10 :: nat) ^ 21 < 2 ^ 70" by simp
    also have "(2 :: nat) ^ 70 \<le> 2 ^ 1024" by (rule power_increasing) simp_all
    finally show ?thesis .
  qed
  then have "\<not> 2 ^ 1024 \<le> x" using assms(3) by linarith
  ultimately show ?thesis using s(1) by (simp add: parseInt_def parse_int_show_nat Let_def)
qed

text \<open>From there on the text has an exponent, and only its first digit is read.\<close>

lemma parseInt_exponent:
  assumes "is_double x" "10 ^ 21 \<le> x"
  shows "\<exists>d < 10. parseInt (js_String x) = Some (int d)"
proof -
  let ?ds = "show_nat (shortest_decimal x)"
  let ?digits = "rev (dropWhile (\<lambda>c. c = CHR ''0'') (rev ?ds))"
  have x: "0 < x" using assms(2) by (rule less_le_trans [rotated]) simp
  note s = shortest_decimal_rounds [OF assms(1) x]
  have "\<not> length (show_nat x) \<le> 21"
  proof
    assume "length (show_nat x) \<le> 21"
    then have "(10 :: nat) ^ length (show_nat x) \<le> 10 ^ 21" by (intro power_increasing) simp_all
    with show_nat_length(1) [of x] assms(2) show False by linarith
  qed
  then have "(10 :: nat) ^ 21 \<le> 10 ^ (length (show_nat x) - 1)" by (intro power_increasing) simp_all
  with s(2) have c: "10 ^ 21 \<le> shortest_decimal x" by linarith
  have long: "\<not> length ?ds \<le> 21"
  proof
    assume "length ?ds \<le> 21"
    then have "(10 :: nat) ^ length ?ds \<le> 10 ^ 21" by (intro power_increasing) simp_all
    with show_nat_length(1) [of "shortest_decimal x"] c show False by linarith
  qed
  have digits: "?digits \<noteq> []"
  proof
    assume "?digits = []"
    then have zeros: "\<forall>c \<in> set ?ds. c = CHR ''0''" by (simp add: dropWhile_eq_Nil_conv)
    have "foldl (\<lambda>a c. 10 * a + (of_char c - 48)) 0 ds = (0 :: nat)" if "\<forall>c \<in> set ds. c = CHR ''0''" for ds
      using that by (induction ds) auto
    then have "read_nat ?ds = 0" using zeros by (simp add: read_nat_def)
    with c show False by (simp add: read_show_nat)
  qed
  have "set ?digits \<subseteq> set ?ds" by (auto dest: set_dropWhileD)
  moreover have "hd ?digits \<in> set ?digits" by (rule hd_in_set [OF digits])
  ultimately have d: "is_digit (hd ?digits)" using show_nat_all_digits by (auto simp: list_all_iff)
  let ?rest = "(if tl ?digits = [] then [] else CHR ''.'' # tl ?digits) @ ''e+'' @ show_nat (length ?ds - 1)"
  have shown: "js_String x = [hd ?digits] @ ?rest" using long by (simp add: js_String_def Let_def)
  have "?rest = [] \<or> \<not> is_digit (hd ?rest)" by (simp add: is_digit_def)
  with d have p: "parse_int (js_String x) = Some (int (read_nat [hd ?digits]))"
    unfolding shown by (intro parse_digits) simp_all
  have "read_nat [hd ?digits] < 10" using d by (auto simp: read_nat_def is_digit_def Let_def)
  moreover from this have "round_double (read_nat [hd ?digits]) = read_nat [hd ?digits]" by (intro round_small) simp
  moreover have "(10 :: nat) < 2 ^ 1024"
  proof -
    have "(10 :: nat) < 2 ^ 4" by simp
    also have "(2 :: nat) ^ 4 \<le> 2 ^ 1024" by (rule power_increasing) simp_all
    finally show ?thesis .
  qed
  ultimately show ?thesis by (intro exI [of _ "read_nat [hd ?digits]"]) (simp add: parseInt_def p Let_def)
qed

end
