(* ===== verification/SharedNamespace.thy ===== *)
theory SharedNamespace
  imports JsNumber
begin

text \<open>
  The two-name model of the shared partition: \<open>server/security/shared-namespace.ts\<close>
  resolves the canonical, physical and legacy names from the raw environment,
  \<open>server/tools/shared-namespace.ts\<close> projects an already validated name set back to raw
  values, and \<open>server/config/env-groups.ts\<close> derives the validated set a second time.
  The environment variables are the fields of \<open>shared_env\<close>; \<open>None\<close> is an unset
  variable; the one number among them is the double of \<open>JsNumber\<close>.
\<close>

subsection \<open>Parsing of raw values\<close>

definition js_lower :: "char \<Rightarrow> char" where
  "js_lower c = (let n = (of_char c :: nat)
     in if (65 \<le> n \<and> n \<le> 90) \<or> (192 \<le> n \<and> n \<le> 222 \<and> n \<noteq> 215) then char_of (n + 32) else c)"

fun firstNonEmpty :: "string option list \<Rightarrow> string \<Rightarrow> string" where
  "firstNonEmpty [] d = d"
| "firstNonEmpty (c # cs) d =
     (case c of None \<Rightarrow> firstNonEmpty cs d
      | Some raw \<Rightarrow> if trim raw \<noteq> [] then trim raw else firstNonEmpty cs d)"

definition true_spellings :: "string list" where
  "true_spellings = [''1'', ''true'', ''yes'', ''on'']"

definition asBoolean :: "string option \<Rightarrow> bool \<Rightarrow> bool" where
  "asBoolean raw d =
     (case raw of None \<Rightarrow> d
      | Some r \<Rightarrow> if trim r = [] then d else map js_lower (trim r) \<in> set true_spellings)"

definition asPositiveInteger :: "string option \<Rightarrow> nat \<Rightarrow> nat" where
  "asPositiveInteger raw d =
     (case raw of None \<Rightarrow> d
      | Some r \<Rightarrow> if r = [] then d
          else (case parseInt r of None \<Rightarrow> d | Some n \<Rightarrow> if n > 0 then nat n else d))"

subsection \<open>The resolver of the security tier\<close>

record shared_env =
  sharedNamespaceCanonical :: "string option"
  sharedNamespacePhysical :: "string option"
  openbrainSharedNamespace :: "string option"
  sharedNamespaceLegacy :: "string option"
  openbrainLegacySharedNamespace :: "string option"
  legacySharedFallback :: "string option"
  sharedFallbackMinResults :: "string option"
  allowLegacySharedWritesRaw :: "string option"

record shared_names =
  canonicalSharedNamespace :: string
  physicalSharedNamespace :: string
  sharedNamespace :: string
  legacySharedNamespace :: string
  legacyFallbackEnabled :: bool
  fallbackMinResults :: nat
  allowLegacySharedWrites :: bool

definition DEFAULT_SHARED_NAMESPACE :: string where
  "DEFAULT_SHARED_NAMESPACE = ''shared-kb''"

definition sharedNamespaceConfig :: "shared_env \<Rightarrow> shared_names" where
  "sharedNamespaceConfig env =
     (let canonical = firstNonEmpty [sharedNamespaceCanonical env, openbrainSharedNamespace env]
                        DEFAULT_SHARED_NAMESPACE;
          physical = firstNonEmpty [sharedNamespacePhysical env, openbrainSharedNamespace env]
                        canonical
      in \<lparr>canonicalSharedNamespace = canonical,
          physicalSharedNamespace = physical,
          sharedNamespace = physical,
          legacySharedNamespace =
            firstNonEmpty [sharedNamespaceLegacy env, openbrainLegacySharedNamespace env] '''',
          legacyFallbackEnabled = asBoolean (legacySharedFallback env) False,
          fallbackMinResults = asPositiveInteger (sharedFallbackMinResults env) 5,
          allowLegacySharedWrites = asBoolean (allowLegacySharedWritesRaw env) False\<rparr>)"

definition isSharedNamespace :: "string \<Rightarrow> shared_env \<Rightarrow> bool" where
  "isSharedNamespace ns env =
     (let config = sharedNamespaceConfig env
      in ns = canonicalSharedNamespace config \<or> ns = physicalSharedNamespace config)"

definition isLegacySharedNamespace :: "string \<Rightarrow> shared_env \<Rightarrow> bool" where
  "isLegacySharedNamespace ns env =
     (let legacy = legacySharedNamespace (sharedNamespaceConfig env)
      in legacy \<noteq> '''' \<and> ns = legacy)"

definition canonicalNamespace :: "string \<Rightarrow> shared_env \<Rightarrow> string" where
  "canonicalNamespace ns env =
     (let config = sharedNamespaceConfig env
      in if legacySharedNamespace config \<noteq> '''' \<and> ns = legacySharedNamespace config
         then canonicalSharedNamespace config
         else if ns = physicalSharedNamespace config then canonicalSharedNamespace config
         else ns)"

definition physicalNamespace :: "string \<Rightarrow> shared_env \<Rightarrow> string" where
  "physicalNamespace ns env =
     (let config = sharedNamespaceConfig env
      in if ns = canonicalSharedNamespace config then physicalSharedNamespace config else ns)"

subsection \<open>The call form over a validated name set\<close>

definition asEnv :: "shared_names \<Rightarrow> shared_env" where
  "asEnv names =
     \<lparr>sharedNamespaceCanonical = Some (canonicalSharedNamespace names),
      sharedNamespacePhysical = Some (physicalSharedNamespace names),
      openbrainSharedNamespace = None,
      sharedNamespaceLegacy = Some (legacySharedNamespace names),
      openbrainLegacySharedNamespace = None,
      legacySharedFallback = Some (if legacyFallbackEnabled names then ''1'' else ''0''),
      sharedFallbackMinResults = Some (js_String (fallbackMinResults names)),
      allowLegacySharedWritesRaw = Some (if allowLegacySharedWrites names then ''1'' else ''0'')\<rparr>"

definition requireNames :: "shared_names option \<Rightarrow> string \<Rightarrow> shared_names result" where
  "requireNames names caller =
     (case names of Some n \<Rightarrow> Inr n
      | None \<Rightarrow> Inl (caller @ '': shared-namespace names are missing. The composition root must '' @
                    ''supply sharedNamespaceNames from the validated ServerConfig.''))"

definition sharedNamespaceConfigFor :: "shared_names option \<Rightarrow> shared_names result" where
  "sharedNamespaceConfigFor names = requireNames names ''sharedNamespaceConfig''"

definition physicalNamespaceFor :: "string \<Rightarrow> shared_names option \<Rightarrow> string result" where
  "physicalNamespaceFor ns names =
     (case requireNames names ''physicalNamespace'' of
        Inl e \<Rightarrow> Inl e | Inr n \<Rightarrow> Inr (physicalNamespace ns (asEnv n)))"

definition canonicalNamespaceFor :: "string \<Rightarrow> shared_names option \<Rightarrow> string result" where
  "canonicalNamespaceFor ns names =
     (case requireNames names ''canonicalNamespace'' of
        Inl e \<Rightarrow> Inl e | Inr n \<Rightarrow> Inr (canonicalNamespace ns (asEnv n)))"

subsection \<open>The second derivation, in the configuration tier\<close>

text \<open>The zod preprocessors of the eight variables, then \<open>sharedNamespaceGroup\<close>.\<close>

definition blankAsAbsent :: "string option \<Rightarrow> string option" where
  "blankAsAbsent v =
     (case v of None \<Rightarrow> None | Some s \<Rightarrow> if trim s = '''' then None else Some (trim s))"

definition permissiveBoolean :: "string option \<Rightarrow> bool" where
  "permissiveBoolean v =
     (case v of None \<Rightarrow> False
      | Some s \<Rightarrow> if trim s = '''' then False else map js_lower (trim s) \<in> set true_spellings)"

definition fallbackInteger :: "nat \<Rightarrow> nat \<Rightarrow> string option \<Rightarrow> nat" where
  "fallbackInteger minimum fallback v =
     (case v of None \<Rightarrow> fallback
      | Some s \<Rightarrow> if trim s = '''' then fallback
          else (case parseInt s of None \<Rightarrow> fallback
                | Some n \<Rightarrow> if n \<ge> int minimum then nat n else fallback))"

definition or_default :: "string option \<Rightarrow> string \<Rightarrow> string" where
  "or_default v d = (case v of Some s \<Rightarrow> if s = '''' then d else s | None \<Rightarrow> d)"

definition nullish :: "'a option \<Rightarrow> 'a \<Rightarrow> 'a" where
  "nullish v d = (case v of Some s \<Rightarrow> s | None \<Rightarrow> d)"

definition sharedNamespaceGroup :: "shared_env \<Rightarrow> shared_names" where
  "sharedNamespaceGroup env =
     (let resolvedCanonical =
            or_default (map_option trim (sharedNamespaceCanonical env))
              (or_default (blankAsAbsent (openbrainSharedNamespace env)) ''shared-kb'');
          physical = nullish (blankAsAbsent (sharedNamespacePhysical env)) resolvedCanonical
      in \<lparr>canonicalSharedNamespace = resolvedCanonical,
          physicalSharedNamespace = physical,
          sharedNamespace = physical,
          legacySharedNamespace =
            nullish (blankAsAbsent (sharedNamespaceLegacy env))
              (nullish (blankAsAbsent (openbrainLegacySharedNamespace env)) ''''),
          legacyFallbackEnabled = permissiveBoolean (legacySharedFallback env),
          fallbackMinResults = fallbackInteger 1 5 (sharedFallbackMinResults env),
          allowLegacySharedWrites = permissiveBoolean (allowLegacySharedWritesRaw env)\<rparr>)"

subsection \<open>Resolved names are trimmed and non-empty\<close>

lemma trim_DEFAULT [simp]: "trim DEFAULT_SHARED_NAMESPACE = DEFAULT_SHARED_NAMESPACE"
  by (simp add: trim_def trim_start_def js_ws_def DEFAULT_SHARED_NAMESPACE_def)

lemma trim_firstNonEmpty: "trim d = d \<Longrightarrow> trim (firstNonEmpty cs d) = firstNonEmpty cs d"
  by (induction cs) (auto split: option.splits)

lemma firstNonEmpty_nonempty: "d \<noteq> [] \<Longrightarrow> firstNonEmpty cs d \<noteq> []"
  by (induction cs) (auto split: option.splits)

lemma firstNonEmpty_self: "trim s = s \<Longrightarrow> firstNonEmpty [Some s, None] d = (if s = [] then d else s)"
  by simp

definition names_ok :: "shared_names \<Rightarrow> bool" where
  "names_ok n = (trim (canonicalSharedNamespace n) = canonicalSharedNamespace n \<and>
     canonicalSharedNamespace n \<noteq> [] \<and>
     trim (physicalSharedNamespace n) = physicalSharedNamespace n \<and>
     physicalSharedNamespace n \<noteq> [] \<and>
     sharedNamespace n = physicalSharedNamespace n \<and>
     trim (legacySharedNamespace n) = legacySharedNamespace n \<and>
     0 < fallbackMinResults n \<and> is_double (fallbackMinResults n))"

lemma DEFAULT_nonempty [simp]: "DEFAULT_SHARED_NAMESPACE \<noteq> []"
  by (simp add: DEFAULT_SHARED_NAMESPACE_def)

lemma trim_Nil [simp]: "trim [] = []"
  by (simp add: trim_def trim_start_def)

lemma asPositiveInteger_pos: "0 < d \<Longrightarrow> 0 < asPositiveInteger raw d"
  by (auto simp: asPositiveInteger_def split: option.splits)

lemma asPositiveInteger_double:
  assumes "is_double d"
  shows "is_double (asPositiveInteger raw d)"
proof -
  have "is_double (nat n)" if "parseInt s = Some n" "0 < n" for s n
    using that round_is_double by (auto simp: parseInt_def Let_def split: option.splits if_splits)
  with assms show ?thesis by (auto simp: asPositiveInteger_def split: option.splits)
qed

lemma names_ok_config: "names_ok (sharedNamespaceConfig env)"
  unfolding names_ok_def sharedNamespaceConfig_def Let_def
  by (simp add: trim_firstNonEmpty firstNonEmpty_nonempty asPositiveInteger_pos asPositiveInteger_double small_is_double
        del: firstNonEmpty.simps)

lemma asBoolean_flag: "asBoolean (Some (if b then ''1'' else ''0'')) False = b"
  by (simp add: asBoolean_def trim_def trim_start_def js_ws_def true_spellings_def js_lower_def)

text \<open>The projection back to raw values keeps all of a validated set but the count, which is rendered and parsed.\<close>

definition reread_count :: "nat \<Rightarrow> nat" where
  "reread_count m = asPositiveInteger (Some (js_String m)) 5"

lemma reread_small:
  assumes "is_double m" "0 < m" "m < 10 ^ 21"
  shows "reread_count m = m"
proof -
  have "js_String m \<noteq> []" by (auto simp: js_String_def Let_def)
  then show ?thesis using parseInt_String [OF assms] assms(2) by (simp add: reread_count_def asPositiveInteger_def)
qed

lemma reread_large:
  assumes "is_double m" "10 ^ 21 \<le> m"
  shows "reread_count m < 10"
  using parseInt_exponent [OF assms] by (auto simp: reread_count_def asPositiveInteger_def)

lemma sharedNamespaceConfig_asEnv:
  assumes "names_ok n"
  shows "sharedNamespaceConfig (asEnv n) = n\<lparr>fallbackMinResults := reread_count (fallbackMinResults n)\<rparr>"
  using assms
  by (cases n) (auto simp: sharedNamespaceConfig_def asEnv_def Let_def names_ok_def asBoolean_flag reread_count_def)

lemma names_ok_asEnv: "names_ok (sharedNamespaceConfig (asEnv n))"
  by (rule names_ok_config)

subsection \<open>Agreement of the two derivations\<close>

definition is_set :: "string option \<Rightarrow> bool" where
  "is_set v = (\<exists>s. v = Some s \<and> trim s \<noteq> [])"

lemma blankAsAbsent_simps:
  "blankAsAbsent v = (if is_set v then Some (trim (the v)) else None)"
  by (auto simp: blankAsAbsent_def is_set_def split: option.splits)

lemma firstNonEmpty2:
  "firstNonEmpty [a, b] d =
     (if is_set a then trim (the a) else if is_set b then trim (the b) else d)"
  by (auto simp: is_set_def split: option.splits)

lemma or_default_trim: "or_default (map_option trim v) d = (if is_set v then trim (the v) else d)"
  by (auto simp: or_default_def is_set_def split: option.splits)

lemma or_default_blank: "or_default (blankAsAbsent v) d = (if is_set v then trim (the v) else d)"
  by (auto simp: or_default_def is_set_def blankAsAbsent_def split: option.splits)

lemma nullish_blank: "nullish (blankAsAbsent v) d = (if is_set v then trim (the v) else d)"
  by (simp add: blankAsAbsent_simps nullish_def)

lemmas derivation_simps = firstNonEmpty2 or_default_trim or_default_blank nullish_blank

lemma permissiveBoolean_eq: "permissiveBoolean v = asBoolean v False"
  by (auto simp: permissiveBoolean_def asBoolean_def split: option.splits)

lemma trim_Nil_parseInt: "trim s = [] \<Longrightarrow> parseInt s = None"
proof -
  assume "trim s = []"
  then have "trim_start s = []" by (simp add: trim_eq_Nil_iff trim_start_def)
  then show ?thesis by (simp add: parseInt_def parse_int_def starts_with_def)
qed

lemma fallbackInteger_eq: "fallbackInteger (Suc 0) d v = asPositiveInteger v d"
proof -
  have "parseInt [] = None" by (simp add: trim_Nil_parseInt)
  then show ?thesis
    by (auto simp: fallbackInteger_def asPositiveInteger_def trim_Nil_parseInt split: option.splits)
qed

lemma group_canonical:
  "canonicalSharedNamespace (sharedNamespaceGroup env) =
     canonicalSharedNamespace (sharedNamespaceConfig env)"
  by (simp add: sharedNamespaceGroup_def sharedNamespaceConfig_def Let_def derivation_simps
      DEFAULT_SHARED_NAMESPACE_def del: firstNonEmpty.simps)

lemma group_other_fields:
  "legacySharedNamespace (sharedNamespaceGroup env) = legacySharedNamespace (sharedNamespaceConfig env)"
  "legacyFallbackEnabled (sharedNamespaceGroup env) = legacyFallbackEnabled (sharedNamespaceConfig env)"
  "fallbackMinResults (sharedNamespaceGroup env) = fallbackMinResults (sharedNamespaceConfig env)"
  "allowLegacySharedWrites (sharedNamespaceGroup env) = allowLegacySharedWrites (sharedNamespaceConfig env)"
  by (simp_all add: sharedNamespaceGroup_def sharedNamespaceConfig_def Let_def derivation_simps
      permissiveBoolean_eq fallbackInteger_eq
      del: firstNonEmpty.simps)

lemma physical_derivations:
  "physicalSharedNamespace (sharedNamespaceConfig env) =
     (if is_set (sharedNamespacePhysical env) then trim (the (sharedNamespacePhysical env))
      else if is_set (openbrainSharedNamespace env) then trim (the (openbrainSharedNamespace env))
      else canonicalSharedNamespace (sharedNamespaceConfig env))"
  "physicalSharedNamespace (sharedNamespaceGroup env) =
     (if is_set (sharedNamespacePhysical env) then trim (the (sharedNamespacePhysical env))
      else canonicalSharedNamespace (sharedNamespaceConfig env))"
  unfolding group_canonical [symmetric]
  by (simp_all add: sharedNamespaceGroup_def sharedNamespaceConfig_def Let_def derivation_simps
      DEFAULT_SHARED_NAMESPACE_def
      del: firstNonEmpty.simps)

lemma names_ok_group: "names_ok (sharedNamespaceGroup env)"
proof -
  have "names_ok (sharedNamespaceConfig env)" by (rule names_ok_config)
  moreover have "trim (physicalSharedNamespace (sharedNamespaceGroup env)) =
      physicalSharedNamespace (sharedNamespaceGroup env) \<and>
      physicalSharedNamespace (sharedNamespaceGroup env) \<noteq> []"
    using names_ok_config [of env] unfolding physical_derivations(2)
    by (auto simp: is_set_def names_ok_def)
  moreover have "sharedNamespace (sharedNamespaceGroup env) =
      physicalSharedNamespace (sharedNamespaceGroup env)"
    by (simp add: sharedNamespaceGroup_def Let_def)
  ultimately show ?thesis
    by (simp add: names_ok_def group_canonical group_other_fields)
qed


lemma derivations_agree_iff':
  "sharedNamespaceGroup env = sharedNamespaceConfig env \<longleftrightarrow>
     \<not> (is_set (sharedNamespaceCanonical env) \<and> \<not> is_set (sharedNamespacePhysical env) \<and>
        is_set (openbrainSharedNamespace env) \<and>
        trim (the (sharedNamespaceCanonical env)) \<noteq> trim (the (openbrainSharedNamespace env)))"
  (is "_ \<longleftrightarrow> \<not> ?apart")
proof -
  have canonical: "canonicalSharedNamespace (sharedNamespaceConfig env) =
      (if is_set (sharedNamespaceCanonical env) then trim (the (sharedNamespaceCanonical env))
       else if is_set (openbrainSharedNamespace env) then trim (the (openbrainSharedNamespace env))
       else DEFAULT_SHARED_NAMESPACE)"
    by (simp add: sharedNamespaceConfig_def Let_def derivation_simps del: firstNonEmpty.simps)
  have "sharedNamespaceGroup env = sharedNamespaceConfig env \<longleftrightarrow>
      physicalSharedNamespace (sharedNamespaceGroup env) =
      physicalSharedNamespace (sharedNamespaceConfig env)"
    using names_ok_group [of env] names_ok_config [of env]
    by (auto intro!: shared_names.equality simp: group_canonical group_other_fields names_ok_def)
  then show ?thesis by (auto simp: physical_derivations canonical)
qed

text \<open>When the two derivations of the shared names agree. They give the same set for every
  environment but one kind: a canonical name set apart from \<open>OPENBRAIN_SHARED_NAMESPACE\<close>
  while \<open>SHARED_NAMESPACE_PHYSICAL\<close> is unset. There the write policy (resolver) protects
  the \<open>OPENBRAIN_SHARED_NAMESPACE\<close> partition and the read scope (group) the canonical one.\<close>

theorem derivations_agree_iff:
  "sharedNamespaceGroup env = sharedNamespaceConfig env \<longleftrightarrow>
     \<not> (is_set (sharedNamespaceCanonical env) \<and> \<not> is_set (sharedNamespacePhysical env) \<and>
        is_set (openbrainSharedNamespace env) \<and>
        trim (the (sharedNamespaceCanonical env)) \<noteq> trim (the (openbrainSharedNamespace env)))"
  by (rule derivations_agree_iff')

end
