(* ===== verification/AccessControl.thy ===== *)
theory AccessControl
  imports SharedNamespace
begin

text \<open>
  Who a request is and what it may touch: the role table of \<open>server/auth/permissions.ts\<close>,
  bearer-token resolution (\<open>server/auth/tokens.ts\<close>), the HTTP boundary that turns headers
  into an identity (\<open>server/auth/middleware.ts\<close>), and the two namespace policies, the one
  over \<open>AuthIdentity\<close> (\<open>server/auth/namespace-policy.ts\<close>) and the one over \<open>AuthInfo\<close>
  (\<open>server/security/namespace-policy.ts\<close>).
\<close>

subsection \<open>Roles, tables, permissions\<close>

datatype role = Admin | Agent | Discord | ObAdmin | Promoter | Readonly
datatype permission = Read | Write | Delete
datatype resource_table = Thoughts | Decisions | Relationships | Projects | Sessions

fun role_name :: "role \<Rightarrow> string" where
  "role_name Admin = ''admin''"
| "role_name Agent = ''agent''"
| "role_name Discord = ''discord''"
| "role_name ObAdmin = ''ob-admin''"
| "role_name Promoter = ''promoter''"
| "role_name Readonly = ''readonly''"

definition RWD :: "permission set" where "RWD = {Read, Write, Delete}"
definition RW :: "permission set" where "RW = {Read, Write}"
definition RO :: "permission set" where "RO = {Read}"
definition WO :: "permission set" where "WO = {Write}"
definition NONE :: "permission set" where "NONE = {}"

fun PERMISSIONS :: "role \<Rightarrow> resource_table \<Rightarrow> permission set" where
  "PERMISSIONS Admin t = RWD"
| "PERMISSIONS ObAdmin t = RWD"
| "PERMISSIONS Promoter t = (case t of Projects \<Rightarrow> RO | _ \<Rightarrow> RWD)"
| "PERMISSIONS Agent t = (case t of Projects \<Rightarrow> RO | _ \<Rightarrow> RW)"
| "PERMISSIONS Discord t = (case t of Thoughts \<Rightarrow> WO | _ \<Rightarrow> NONE)"
| "PERMISSIONS Readonly t = RO"

definition canRead :: "role \<Rightarrow> resource_table \<Rightarrow> bool" where
  "canRead r t = (Read \<in> PERMISSIONS r t)"

definition canWrite :: "role \<Rightarrow> resource_table \<Rightarrow> bool" where
  "canWrite r t = (Write \<in> PERMISSIONS r t)"

definition canDelete :: "role \<Rightarrow> resource_table \<Rightarrow> bool" where
  "canDelete r t = (Delete \<in> PERMISSIONS r t)"

lemmas permission_sets = RWD_def RW_def RO_def WO_def NONE_def canRead_def canWrite_def canDelete_def

subsection \<open>Identities\<close>

datatype namespace_source = FromToken | FromDelegation

record auth_identity =
  role_of :: role
  clientId :: string
  tokenClientId :: string
  namespaceSource :: namespace_source

record request_auth_info = auth_identity +
  agentId :: "string option"

text \<open>The legacy \<open>AuthInfo\<close>; \<open>None\<close> is an absent optional field. The type names the first
  two sources; \<open>InfoDelegated\<close> is the spelling of the server side, which reaches code typed
  over \<open>AuthInfo\<close> where a request is cast to it (\<open>getAuth\<close> below).\<close>

datatype info_source = InfoToken | InfoHeader | InfoDelegated

record auth_info =
  info_role :: role
  info_clientId :: string
  info_tokenClientId :: "string option"
  info_agentId :: "string option"
  info_namespaceSource :: "info_source option"

definition authIdentityFor :: "auth_info \<Rightarrow> auth_identity" where
  "authIdentityFor auth =
     \<lparr>role_of = info_role auth,
      clientId = info_clientId auth,
      tokenClientId = nullish (info_tokenClientId auth) (info_clientId auth),
      namespaceSource =
        (if info_namespaceSource auth = Some InfoToken then FromToken else FromDelegation)\<rparr>"

subsection \<open>Bearer tokens\<close>

record auth_token_config =
  token :: string
  token_role :: role
  token_clientId :: string

text \<open>\<open>Buffer.from\<close> encodes as UTF-8: code units below 128 are one byte, the others of the
  model two.\<close>

definition utf8 :: "string \<Rightarrow> nat list" where
  "utf8 s = concat (map (\<lambda>c. let n = of_char c
     in if n < 128 then [n] else [192 + n div 64, 128 + n mod 64]) s)"

definition sameToken :: "string \<Rightarrow> string \<Rightarrow> bool" where
  "sameToken candidate configured =
     (let left = utf8 candidate; right = utf8 configured
      in if length left \<noteq> length right then False else left = right)"

definition resolveBearerToken :: "string \<Rightarrow> auth_token_config list \<Rightarrow> auth_identity option" where
  "resolveBearerToken bearerToken configuredTokens =
     (case find (\<lambda>entry. sameToken bearerToken (token entry)) configuredTokens of
        None \<Rightarrow> None
      | Some m \<Rightarrow> Some \<lparr>role_of = token_role m, clientId = token_clientId m,
          tokenClientId = token_clientId m, namespaceSource = FromToken\<rparr>)"

subsection \<open>The HTTP boundary\<close>

datatype header_value = HeaderAbsent | HeaderText string | HeaderList "string list"

definition non_empty :: "string \<Rightarrow> string option" where
  "non_empty s = (if s = '''' then None else Some s)"

fun headerValue :: "header_value \<Rightarrow> string option" where
  "headerValue (HeaderList []) = None"
| "headerValue (HeaderList (v # vs)) = non_empty (trim v)"
| "headerValue HeaderAbsent = None"
| "headerValue (HeaderText v) = non_empty (trim v)"

definition is_alnum :: "char \<Rightarrow> bool" where
  "is_alnum c = (let n = (of_char c :: nat)
     in (48 \<le> n \<and> n \<le> 57) \<or> (65 \<le> n \<and> n \<le> 90) \<or> (97 \<le> n \<and> n \<le> 122))"

definition id_tail_char :: "char \<Rightarrow> bool" where
  "id_tail_char c = (is_alnum c \<or> c \<in> set ''._-'')"

definition DELEGATED_ID_RE :: "string \<Rightarrow> bool" where
  "DELEGATED_ID_RE s =
     (case s of [] \<Rightarrow> False
      | c # cs \<Rightarrow> is_alnum c \<and> list_all id_tail_char cs \<and> length cs \<le> 127)"

record auth_refusal =
  status :: nat
  err :: string

definition BEARER :: string where "BEARER = ''Bearer ''"

lemma length_BEARER [simp]: "length BEARER = 7"
  by (simp add: BEARER_def)

definition authenticateBearerHeader ::
  "string option \<Rightarrow> auth_token_config list \<Rightarrow> auth_refusal + auth_identity" where
  "authenticateBearerHeader header configuredTokens =
     (case header of
        None \<Rightarrow> Inl \<lparr>status = 401, err = ''Missing Bearer token''\<rparr>
      | Some h \<Rightarrow>
          if \<not> starts_with BEARER h then Inl \<lparr>status = 401, err = ''Missing Bearer token''\<rparr>
          else (case resolveBearerToken (drop (length BEARER) h) configuredTokens of
                  None \<Rightarrow> Inl \<lparr>status = 401, err = ''Invalid token''\<rparr>
                | Some identity \<Rightarrow> Inr identity))"

definition mayDelegate :: "role \<Rightarrow> bool" where
  "mayDelegate r = (r = Admin \<or> r = ObAdmin)"

definition checkDelegatedNamespace :: "string option \<Rightarrow> role \<Rightarrow> auth_refusal option" where
  "checkDelegatedNamespace ns r =
     (case ns of None \<Rightarrow> None
      | Some n \<Rightarrow>
          if \<not> mayDelegate r
          then Some \<lparr>status = 403, err = ''Role not permitted to delegate namespace''\<rparr>
          else if \<not> DELEGATED_ID_RE n
          then Some \<lparr>status = 400, err = ''Invalid X-Namespace header''\<rparr>
          else None)"

definition checkDelegatedAgentId :: "string option \<Rightarrow> auth_refusal option" where
  "checkDelegatedAgentId agent =
     (case agent of None \<Rightarrow> None
      | Some a \<Rightarrow> if \<not> DELEGATED_ID_RE a
          then Some \<lparr>status = 400, err = ''Invalid X-Agent-Id header''\<rparr> else None)"

definition recordedAgentId :: "string option \<Rightarrow> role \<Rightarrow> string option" where
  "recordedAgentId agent r =
     (case agent of None \<Rightarrow> None
      | Some a \<Rightarrow> Some (if mayDelegate r then a else ''unverified:'' @ a))"

definition buildRequestAuthInfo ::
  "auth_identity \<Rightarrow> string option \<Rightarrow> string option \<Rightarrow> request_auth_info" where
  "buildRequestAuthInfo identity ns claimed =
     \<lparr>role_of = role_of identity,
      clientId = nullish ns (clientId identity),
      tokenClientId = clientId identity,
      namespaceSource = (if ns \<noteq> None then FromDelegation else FromToken),
      agentId = recordedAgentId claimed (role_of identity)\<rparr>"

record request_headers =
  authorization :: "string option"
  x_namespace :: header_value
  x_agent_id :: header_value

text \<open>\<open>Inl\<close> is the refusal sent to the client, \<open>Inr\<close> the identity \<open>next()\<close> runs with.\<close>

definition authMiddleware ::
  "auth_token_config list \<Rightarrow> request_headers \<Rightarrow> auth_refusal + request_auth_info" where
  "authMiddleware configuredTokens req =
     (case authenticateBearerHeader (authorization req) configuredTokens of
        Inl refusal \<Rightarrow> Inl refusal
      | Inr identity \<Rightarrow>
          let ns = headerValue (x_namespace req);
              agent = headerValue (x_agent_id req);
              refusal = (case checkDelegatedNamespace ns (role_of identity) of
                           Some r \<Rightarrow> Some r | None \<Rightarrow> checkDelegatedAgentId agent)
          in case refusal of Some r \<Rightarrow> Inl r
             | None \<Rightarrow> Inr (buildRequestAuthInfo identity ns agent))"

subsection \<open>The policy over \<open>AuthIdentity\<close>\<close>

datatype namespace_operation = OpRead | OpWrite | OpDelete

text \<open>A bound query parameter: the model needs texts and text arrays.\<close>

datatype sql_param = PText string | PTexts "string list"

record namespace_predicate =
  clause :: string
  bound_values :: "string list list"

definition GLOBAL_ROLES :: "role list" where
  "GLOBAL_ROLES = [Admin, ObAdmin]"

definition LEGACY_SHARED :: string where "LEGACY_SHARED = ''collab''"
definition SHARED :: string where "SHARED = ''shared-kb''"

definition isGlobal :: "('a) auth_identity_scheme \<Rightarrow> bool" where
  "isGlobal i = (role_of i \<in> set GLOBAL_ROLES \<and> namespaceSource i = FromToken)"

definition readNamespaces :: "('a) auth_identity_scheme \<Rightarrow> string list option" where
  "readNamespaces i =
     (if isGlobal i \<or> role_of i = Promoter then None else Some [clientId i, SHARED])"

definition mutationNamespaces :: "('a) auth_identity_scheme \<Rightarrow> string list option" where
  "mutationNamespaces i =
     (if isGlobal i \<or> role_of i = Promoter then None else Some [clientId i])"

definition namespacePredicate ::
  "('a) auth_identity_scheme \<Rightarrow> namespace_operation \<Rightarrow> nat \<Rightarrow> namespace_predicate" where
  "namespacePredicate i operation startParameter =
     (case (if operation = OpRead then readNamespaces i else mutationNamespaces i) of
        None \<Rightarrow> \<lparr>clause = '''', bound_values = []\<rparr>
      | Some ns \<Rightarrow> \<lparr>clause = '' AND namespace = ANY($'' @ show_nat startParameter @ ''::text[])'',
                   bound_values = [ns]\<rparr>)"

definition canTargetNamespace ::
  "('a) auth_identity_scheme \<Rightarrow> namespace_operation \<Rightarrow> string \<Rightarrow> bool" where
  "canTargetNamespace i operation requested =
     (if requested = ''all'' then isGlobal i \<and> operation = OpRead
      else if requested = LEGACY_SHARED then False
      else if operation = OpRead then
        (case readNamespaces i of None \<Rightarrow> True | Some ns \<Rightarrow> requested \<in> set ns)
      else if requested = SHARED then role_of i = Promoter
      else if role_of i = Promoter then True
      else if isGlobal i then requested \<noteq> SHARED
      else requested = clientId i)"

definition delegateNamespace :: "auth_identity \<Rightarrow> string \<Rightarrow> auth_identity option" where
  "delegateNamespace i requested =
     (if role_of i \<notin> set GLOBAL_ROLES then None
      else if requested = ''all'' \<or> requested = LEGACY_SHARED then None
      else Some (i\<lparr>clientId := requested, namespaceSource := FromDelegation\<rparr>))"

text \<open>What the emitted predicate lets a statement touch: an empty clause constrains nothing,
  otherwise the row's namespace is one of the bound values.\<close>

definition predicate_admits :: "namespace_predicate \<Rightarrow> string \<Rightarrow> bool" where
  "predicate_admits p row_namespace =
     (clause p = '''' \<or> (\<exists>ns \<in> set (bound_values p). row_namespace \<in> set ns))"

subsection \<open>The policy over \<open>AuthInfo\<close>\<close>

definition shouldRejectLegacySharedWrite :: "auth_info \<Rightarrow> string \<Rightarrow> shared_env \<Rightarrow> bool" where
  "shouldRejectLegacySharedWrite auth targetNamespace env =
     (let config = sharedNamespaceConfig env
      in if allowLegacySharedWrites config then False
         else if legacySharedNamespace config = '''' then False
         else if targetNamespace \<noteq> legacySharedNamespace config then False
         else info_role auth \<noteq> Admin \<and> info_role auth \<noteq> ObAdmin)"

definition PROMOTER_CLIENT_IDS :: "string list" where
  "PROMOTER_CLIENT_IDS = [''openbrain-promoter'', ''hermes-promoter'']"

definition FROZEN_NAMESPACES :: "string list" where
  "FROZEN_NAMESPACES = [''collab'']"

definition isFrozenNamespaceWrite :: "shared_env \<Rightarrow> string \<Rightarrow> bool" where
  "isFrozenNamespaceWrite env targetNamespace =
     (if targetNamespace \<notin> set FROZEN_NAMESPACES then False
      else let config = sharedNamespaceConfig env
           in if allowLegacySharedWrites config \<and> legacySharedNamespace config = targetNamespace
              then False else True)"

definition isPromoterIdentity :: "auth_info \<Rightarrow> bool" where
  "isPromoterIdentity auth =
     (if info_role auth = Promoter then True
      else (info_role auth = Admin \<or> info_role auth = ObAdmin) \<and>
           nullish (info_tokenClientId auth) (info_clientId auth) \<in> set PROMOTER_CLIENT_IDS)"

record namespace_check =
  allowed :: bool
  reason :: "string option"

definition deny :: "string \<Rightarrow> namespace_check" where
  "deny why = \<lparr>allowed = False, reason = Some why\<rparr>"

definition namespaceWriteRejection ::
  "shared_env \<Rightarrow> auth_info \<Rightarrow> string \<Rightarrow> string \<Rightarrow> namespace_check option" where
  "namespaceWriteRejection env auth target physicalTarget =
     (let config = sharedNamespaceConfig env
      in if shouldRejectLegacySharedWrite auth target env then
           Some (deny (''legacy shared namespace '' @ [CHR 0x27] @ target @ [CHR 0x27] @
             '' is read-only for normal clients; use '' @ [CHR 0x27] @
             canonicalSharedNamespace config @ [CHR 0x27]))
         else if isFrozenNamespaceWrite env target \<or> isFrozenNamespaceWrite env physicalTarget then
           Some (deny (''namespace '' @ [CHR 0x27] @ target @ [CHR 0x27] @
             '' is a frozen snapshot (retired legacy namespace) and rejects all writes''))
         else if info_namespaceSource auth = Some InfoHeader \<and> physicalTarget \<noteq> info_clientId auth then
           Some (deny (''X-Namespace header requires writes to namespace '' @ [CHR 0x27] @
             info_clientId auth @ [CHR 0x27]))
         else if physicalTarget = physicalSharedNamespace config \<and> \<not> isPromoterIdentity auth then
           Some (deny (sharedNamespace config @
             '' writes require the openbrain-promoter or hermes-promoter service identity''))
         else None)"

definition canWriteNamespace :: "shared_env \<Rightarrow> auth_info \<Rightarrow> string \<Rightarrow> namespace_check" where
  "canWriteNamespace env auth target =
     (let physicalTarget = physicalNamespace target env
      in case namespaceWriteRejection env auth target physicalTarget of
           Some rejection \<Rightarrow> rejection
         | None \<Rightarrow>
             if info_role auth = Admin \<or> info_role auth = ObAdmin \<or> info_role auth = Promoter then
               \<lparr>allowed = True, reason = None\<rparr>
             else if info_role auth = Readonly then deny ''readonly role cannot write''
             else if physicalTarget = info_clientId auth then \<lparr>allowed = True, reason = None\<rparr>
             else if info_role auth = Discord then
               deny (''discord role can only write to own namespace ('' @ info_clientId auth @ '')'')
             else deny (role_name (info_role auth) @ '' role cannot write to namespace '' @
               [CHR 0x27] @ target @ [CHR 0x27]))"

definition writableNamespaces :: "auth_info \<Rightarrow> string list option" where
  "writableNamespaces auth =
     (if info_namespaceSource auth = Some InfoHeader then Some [info_clientId auth]
      else if info_role auth = Admin \<or> info_role auth = ObAdmin \<or> info_role auth = Promoter then None
      else Some [info_clientId auth])"

text \<open>The parameter array is pushed to in place: the model returns the new array.\<close>

definition appendWriteNamespacePredicate ::
  "shared_env \<Rightarrow> auth_info \<Rightarrow> sql_param list \<Rightarrow> string \<Rightarrow> string \<times> sql_param list" where
  "appendWriteNamespacePredicate env auth params column =
     (case writableNamespaces auth of
        None \<Rightarrow>
          (let frozen = filter (isFrozenNamespaceWrite env) FROZEN_NAMESPACES;
               excluded = (if (info_role auth = Admin \<or> info_role auth = ObAdmin) \<and>
                              \<not> isPromoterIdentity auth
                           then frozen @ [sharedNamespace (sharedNamespaceConfig env)] else frozen)
           in if length excluded > 0
              then ('' AND '' @ column @ '' <> ALL($'' @ show_nat (length params + 1) @ ''::text[])'',
                    params @ [PTexts excluded])
              else ('''', params))
      | Some ns \<Rightarrow>
          ('' AND '' @ column @ '' = ANY($'' @ show_nat (length params + 1) @ ''::text[])'',
           params @ [PTexts ns]))"

subsection \<open>The REST call form\<close>

text \<open>\<open>getAuth\<close> reads the middleware's identity back as an \<open>AuthInfo\<close> without a mapping:
  the fields keep their values, the namespace source its server-side spelling.\<close>

definition getAuth :: "request_auth_info option \<Rightarrow> auth_info option" where
  "getAuth auth = map_option (\<lambda>a.
     \<lparr>info_role = role_of a, info_clientId = clientId a, info_tokenClientId = Some (tokenClientId a),
      info_agentId = agentId a,
      info_namespaceSource =
        Some (if namespaceSource a = FromToken then InfoToken else InfoDelegated)\<rparr>) auth"

definition nsError :: "string option \<Rightarrow> string" where
  "nsError why = ''Permission denied: '' @ nullish why ''namespace access denied''"

text \<open>\<open>Inl\<close> is the body of the 403 the writer has already sent.\<close>

definition resolveWriteNamespace ::
  "shared_env \<Rightarrow> auth_info option \<Rightarrow> string option \<Rightarrow> string result" where
  "resolveWriteNamespace env auth requested =
     (case auth of
        None \<Rightarrow> Inl ''Permission denied''
      | Some a \<Rightarrow>
          (let ns = nullish requested (info_clientId a);
               check = canWriteNamespace env a ns
           in if \<not> allowed check then Inl (nsError (reason check)) else Inr ns))"

subsection \<open>Tokens\<close>

text \<open>The encoding is injective, so comparing encodings is comparing tokens.\<close>

lemma utf8_Cons: "utf8 (c # s) = (let n = of_char c
     in if n < 128 then [n] else [192 + n div 64, 128 + n mod 64]) @ utf8 s"
  by (simp add: utf8_def)

lemma utf8_Nil [simp]: "utf8 [] = []"
  by (simp add: utf8_def)

lemma utf8_inj: "utf8 s = utf8 t \<Longrightarrow> s = t"
proof (induction s arbitrary: t)
  case Nil
  then show ?case by (cases t) (auto simp: utf8_Cons Let_def split: if_splits)
next
  case (Cons c s)
  then obtain d u where t: "t = d # u"
    by (cases t) (auto simp: utf8_Cons Let_def split: if_splits)
  let ?m = "of_char c :: nat" and ?n = "of_char d :: nat"
  have eq: "(if ?m < 128 then [?m] else [192 + ?m div 64, 128 + ?m mod 64]) @ utf8 s =
        (if ?n < 128 then [?n] else [192 + ?n div 64, 128 + ?n mod 64]) @ utf8 u"
    using Cons.prems by (simp add: t utf8_Cons Let_def)
  have "?m = ?n \<and> utf8 s = utf8 u"
  proof (cases "?m < 128")
    case True
    with eq show ?thesis by (auto split: if_splits)
  next
    case False
    with eq have n: "\<not> ?n < 128" by (auto split: if_splits)
    with False eq have "?m div 64 = ?n div 64" "?m mod 64 = ?n mod 64" "utf8 s = utf8 u"
      by simp_all
    then show ?thesis by (metis div_mult_mod_eq)
  qed
  with Cons.IH t show ?case by (metis of_char_eq_iff)
qed

lemma sameToken_iff [simp]: "sameToken a b = (a = b)"
  using utf8_inj by (auto simp: sameToken_def Let_def)

lemma resolveBearerToken_Some:
  "resolveBearerToken t cfg = Some i \<Longrightarrow>
     \<exists>e \<in> set cfg. token e = t \<and>
       i = \<lparr>role_of = token_role e, clientId = token_clientId e,
            tokenClientId = token_clientId e, namespaceSource = FromToken\<rparr>"
  by (auto simp: resolveBearerToken_def find_Some_iff split: option.splits intro: nth_mem)

lemma resolveBearerToken_None:
  "resolveBearerToken t cfg = None \<longleftrightarrow> t \<notin> token ` set cfg"
proof -
  have "resolveBearerToken t cfg = None \<longleftrightarrow> find (\<lambda>e. t = token e) cfg = None"
    by (simp add: resolveBearerToken_def split: option.split)
  then show ?thesis by (auto simp: find_None_iff)
qed

lemma authenticate_Inr:
  assumes "authenticateBearerHeader h cfg = Inr i"
  shows "\<exists>e \<in> set cfg. h = Some (BEARER @ token e) \<and>
       i = \<lparr>role_of = token_role e, clientId = token_clientId e,
            tokenClientId = token_clientId e, namespaceSource = FromToken\<rparr>"
proof -
  from assms obtain s where s: "h = Some s" "starts_with BEARER s"
      "resolveBearerToken (drop (length BEARER) s) cfg = Some i"
    by (auto simp: authenticateBearerHeader_def split: option.splits if_splits)
  then have "s = BEARER @ drop (length BEARER) s"
    unfolding starts_with_def by (metis append_take_drop_id)
  with s resolveBearerToken_Some [OF s(3)] show ?thesis by force
qed

lemma headerValue_nonempty: "headerValue v = Some s \<Longrightarrow> s \<noteq> [] \<and> trim s = s"
  by (cases v rule: headerValue.cases) (auto simp: non_empty_def split: if_splits)

lemma delegated_id_no_colon: "DELEGATED_ID_RE s \<Longrightarrow> CHR '':'' \<notin> set s"
  by (cases s) (auto simp: DELEGATED_ID_RE_def is_alnum_def id_tail_char_def list_all_iff Let_def)

lemma authMiddleware_Inr:
  assumes "authMiddleware cfg req = Inr auth"
  shows "\<exists>e \<in> set cfg. authorization req = Some (BEARER @ token e) \<and>
    auth = buildRequestAuthInfo \<lparr>role_of = token_role e, clientId = token_clientId e,
             tokenClientId = token_clientId e, namespaceSource = FromToken\<rparr>
             (headerValue (x_namespace req)) (headerValue (x_agent_id req)) \<and>
    checkDelegatedNamespace (headerValue (x_namespace req)) (token_role e) = None \<and>
    checkDelegatedAgentId (headerValue (x_agent_id req)) = None"
proof -
  from assms obtain i where i: "authenticateBearerHeader (authorization req) cfg = Inr i"
    "auth = buildRequestAuthInfo i (headerValue (x_namespace req)) (headerValue (x_agent_id req))"
    "checkDelegatedNamespace (headerValue (x_namespace req)) (role_of i) = None"
    "checkDelegatedAgentId (headerValue (x_agent_id req)) = None"
    by (auto simp: authMiddleware_def Let_def split: sum.splits option.splits)
  from authenticate_Inr [OF i(1)] obtain e where e: "e \<in> set cfg"
    "authorization req = Some (BEARER @ token e)"
    "i = \<lparr>role_of = token_role e, clientId = token_clientId e,
          tokenClientId = token_clientId e, namespaceSource = FromToken\<rparr>" by blast
  with i show ?thesis by (intro bexI [of _ e]) simp_all
qed

lemma middleware_delegation_role:
  assumes "authMiddleware cfg req = Inr auth" "namespaceSource auth = FromDelegation"
  shows "role_of auth = Admin \<or> role_of auth = ObAdmin"
  using authMiddleware_Inr [OF assms(1)] assms(2)
  by (auto simp: buildRequestAuthInfo_def checkDelegatedNamespace_def mayDelegate_def
      split: option.splits if_splits)

text \<open>C1: the HTTP boundary. A request gets past the middleware only with the token of a
  configured entry: its role and token identity are that entry's; it acts under another
  namespace only for \<open>admin\<close>/\<open>ob-admin\<close>, with a shape-checked name and marked as
  delegated; and an agent id claimed by any other role is recorded with a prefix no
  shape-checked id contains, so it can never pass for an honoured id.\<close>

theorem middleware_identity_is_the_token_entry:
  assumes "authMiddleware cfg req = Inr auth"
  shows "\<exists>e \<in> set cfg. authorization req = Some (BEARER @ token e) \<and>
      role_of auth = token_role e \<and> tokenClientId auth = token_clientId e \<and>
      (namespaceSource auth = FromToken \<longrightarrow> clientId auth = token_clientId e) \<and>
      (namespaceSource auth = FromDelegation \<longrightarrow>
         mayDelegate (token_role e) \<and> DELEGATED_ID_RE (clientId auth) \<and>
         headerValue (x_namespace req) = Some (clientId auth)) \<and>
      (\<forall>a. agentId auth = Some a \<longrightarrow>
         (if mayDelegate (token_role e) then DELEGATED_ID_RE a
          else starts_with ''unverified:'' a \<and> \<not> DELEGATED_ID_RE a))"
proof -
  from authMiddleware_Inr [OF assms] obtain e where e: "e \<in> set cfg"
    "authorization req = Some (BEARER @ token e)"
    "auth = buildRequestAuthInfo \<lparr>role_of = token_role e, clientId = token_clientId e,
             tokenClientId = token_clientId e, namespaceSource = FromToken\<rparr>
             (headerValue (x_namespace req)) (headerValue (x_agent_id req))"
    "checkDelegatedNamespace (headerValue (x_namespace req)) (token_role e) = None"
    "checkDelegatedAgentId (headerValue (x_agent_id req)) = None" by blast
  have agent: "if mayDelegate (token_role e) then DELEGATED_ID_RE a
          else starts_with ''unverified:'' a \<and> \<not> DELEGATED_ID_RE a"
    if "agentId auth = Some a" for a
    using that e(3,5) delegated_id_no_colon [of a]
    by (auto simp: buildRequestAuthInfo_def recordedAgentId_def checkDelegatedAgentId_def
        starts_with_def split: option.splits if_splits)
  show ?thesis
    by (rule bexI [OF _ e(1)])
      (use e agent in \<open>auto simp: buildRequestAuthInfo_def checkDelegatedNamespace_def nullish_def
        split: option.splits if_splits\<close>)
qed

definition demo_tokens :: "auth_token_config list" where
  "demo_tokens = [\<lparr>token = ''s1'', token_role = Agent, token_clientId = ''bilby''\<rparr>,
                  \<lparr>token = ''s2'', token_role = Admin, token_clientId = ''root''\<rparr>]"

lemma middleware_identity_witness:
  "\<exists>e \<in> set demo_tokens. Some ''Bearer s2'' = Some (''Bearer '' @ token e) \<and> Admin = token_role e"
  using middleware_identity_is_the_token_entry [of demo_tokens
      "\<lparr>authorization = Some ''Bearer s2'', x_namespace = HeaderText '' lab '',
        x_agent_id = HeaderAbsent\<rparr>"
      "\<lparr>role_of = Admin, clientId = ''lab'', tokenClientId = ''root'',
        namespaceSource = FromDelegation, agentId = None\<rparr>"]
  by (simp add: authMiddleware_def authenticateBearerHeader_def demo_tokens_def BEARER_def starts_with_def
      resolveBearerToken_def checkDelegatedNamespace_def mayDelegate_def DELEGATED_ID_RE_def
      is_alnum_def id_tail_char_def checkDelegatedAgentId_def non_empty_def trim_def trim_start_def
      js_ws_def buildRequestAuthInfo_def recordedAgentId_def nullish_def)

text \<open>The refusals, in the order the middleware checks them.\<close>

theorem middleware_refusal_ladder:
  "authMiddleware cfg req =
     (case authorization req of
        None \<Rightarrow> Inl \<lparr>status = 401, err = ''Missing Bearer token''\<rparr>
      | Some h \<Rightarrow>
          if \<not> starts_with BEARER h then Inl \<lparr>status = 401, err = ''Missing Bearer token''\<rparr>
          else if drop 7 h \<notin> token ` set cfg then Inl \<lparr>status = 401, err = ''Invalid token''\<rparr>
          else let e = the (find (\<lambda>e. token e = drop 7 h) cfg);
                   ns = headerValue (x_namespace req);
                   agent = headerValue (x_agent_id req)
               in if ns \<noteq> None \<and> \<not> mayDelegate (token_role e)
                    then Inl \<lparr>status = 403, err = ''Role not permitted to delegate namespace''\<rparr>
                  else if ns \<noteq> None \<and> \<not> DELEGATED_ID_RE (the ns)
                    then Inl \<lparr>status = 400, err = ''Invalid X-Namespace header''\<rparr>
                  else if agent \<noteq> None \<and> \<not> DELEGATED_ID_RE (the agent)
                    then Inl \<lparr>status = 400, err = ''Invalid X-Agent-Id header''\<rparr>
                  else Inr \<lparr>role_of = token_role e,
                            clientId = (case ns of Some n \<Rightarrow> n | None \<Rightarrow> token_clientId e),
                            tokenClientId = token_clientId e,
                            namespaceSource = (if ns = None then FromToken else FromDelegation),
                            agentId = map_option (\<lambda>a. if mayDelegate (token_role e) then a
                                                      else ''unverified:'' @ a) agent\<rparr>)"
proof (cases "authorization req")
  case None
  then show ?thesis by (simp add: authMiddleware_def authenticateBearerHeader_def)
next
  case (Some h)
  show ?thesis
  proof (cases "starts_with BEARER h \<and> drop 7 h \<in> token ` set cfg")
    case False
    then have "starts_with BEARER h \<Longrightarrow> resolveBearerToken (drop 7 h) cfg = None"
      by (simp add: resolveBearerToken_None)
    with Some False show ?thesis
      by (simp add: authMiddleware_def authenticateBearerHeader_def)
  next
    case True
    then obtain e where e: "find (\<lambda>e. token e = drop 7 h) cfg = Some e"
      by (fastforce simp: find_None_iff simp flip: not_None_eq)
    then have "find (\<lambda>e. drop 7 h = token e) cfg = Some e"
      by (simp add: eq_commute)
    then have "resolveBearerToken (drop 7 h) cfg =
      Some \<lparr>role_of = token_role e, clientId = token_clientId e,
            tokenClientId = token_clientId e, namespaceSource = FromToken\<rparr>"
      by (simp add: resolveBearerToken_def)
    with True Some e show ?thesis
      by (auto simp: authMiddleware_def authenticateBearerHeader_def Let_def
          checkDelegatedNamespace_def checkDelegatedAgentId_def buildRequestAuthInfo_def
          recordedAgentId_def nullish_def split: option.splits)
  qed
qed

subsection \<open>The two spellings of the policy over \<open>AuthIdentity\<close> agree\<close>

text \<open>By name and by row id the same policy. Apart from the keyword \<open>all\<close> and the frozen
  legacy name, a request may target a namespace by name exactly when the predicate emitted for
  ID-based statements admits that namespace's rows, with one exception: a write or delete of the
  shared namespace by name is the promoter's alone, while the predicate of a global
  administrator constrains nothing.\<close>

theorem target_by_name_iff_by_id:
  assumes "ns \<noteq> ''all''" "ns \<noteq> LEGACY_SHARED"
  shows "canTargetNamespace i op ns \<longleftrightarrow>
    predicate_admits (namespacePredicate i op k) ns \<and>
    (op \<noteq> OpRead \<and> ns = SHARED \<longrightarrow> role_of i = Promoter)"
  using assms
  by (auto simp: canTargetNamespace_def predicate_admits_def namespacePredicate_def
      readNamespaces_def mutationNamespaces_def isGlobal_def GLOBAL_ROLES_def split: option.splits)

definition demo_agent :: auth_identity where
  "demo_agent = \<lparr>role_of = Agent, clientId = ''bilby'', tokenClientId = ''bilby'',
     namespaceSource = FromToken\<rparr>"

lemma target_by_name_witness:
  "canTargetNamespace demo_agent OpWrite ''bilby'' \<and> \<not> canTargetNamespace demo_agent OpWrite ''lab''"
  using target_by_name_iff_by_id [of "''bilby''" demo_agent OpWrite 1]
    target_by_name_iff_by_id [of "''lab''" demo_agent OpWrite 1]
  by (simp add: LEGACY_SHARED_def SHARED_def predicate_admits_def namespacePredicate_def
      mutationNamespaces_def isGlobal_def GLOBAL_ROLES_def demo_agent_def)

text \<open>Delegation confines. Whatever the token's role, a delegated identity reads only the
  namespace it acts for and the shared one, and mutates only the namespace it acts for.\<close>

theorem delegated_identity_is_confined:
  assumes "delegateNamespace i ns = Some d"
  shows "clientId d = ns \<and> tokenClientId d = tokenClientId i \<and> role_of d = role_of i \<and>
    (\<forall>row. predicate_admits (namespacePredicate d OpRead k) row \<longleftrightarrow> row = ns \<or> row = SHARED) \<and>
    (\<forall>row. predicate_admits (namespacePredicate d OpWrite k) row \<longleftrightarrow> row = ns) \<and>
    (\<forall>op target. canTargetNamespace d op target \<longrightarrow> target = ns \<or> (op = OpRead \<and> target = SHARED)) \<and>
    \<not> canTargetNamespace d op ''all''"
  using assms
  by (auto simp: delegateNamespace_def predicate_admits_def namespacePredicate_def GLOBAL_ROLES_def
      readNamespaces_def mutationNamespaces_def isGlobal_def canTargetNamespace_def split: if_splits)

lemma delegated_identity_witness:
  "\<not> canTargetNamespace (\<lparr>role_of = Admin, clientId = ''lab'', tokenClientId = ''root'',
       namespaceSource = FromDelegation\<rparr> :: auth_identity) OpRead ''all''"
  using delegated_identity_is_confined [of "\<lparr>role_of = Admin, clientId = ''root'',
      tokenClientId = ''root'', namespaceSource = FromToken\<rparr>" "''lab''" _ 1 OpRead]
  by (simp add: delegateNamespace_def GLOBAL_ROLES_def LEGACY_SHARED_def)

subsection \<open>The write policy over \<open>AuthInfo\<close>\<close>

text \<open>How a statement with the appended clause treats a row: no clause constrains nothing,
  \<open>= ANY\<close> is membership of the pushed array and \<open><> ALL\<close> its complement.\<close>

definition write_predicate_admits :: "shared_env \<Rightarrow> auth_info \<Rightarrow> string \<Rightarrow> bool" where
  "write_predicate_admits env auth row =
     (case appendWriteNamespacePredicate env auth [] ''namespace'' of
        (sql, params) \<Rightarrow>
          if sql = '''' then True
          else if starts_with '' AND namespace = ANY('' sql
          then (\<exists>ns. PTexts ns \<in> set params \<and> row \<in> set ns)
          else (\<forall>ns. PTexts ns \<in> set params \<longrightarrow> row \<notin> set ns))"

lemma write_predicate_admits_iff:
  "write_predicate_admits env auth row \<longleftrightarrow>
     (case writableNamespaces auth of
        Some ns \<Rightarrow> row \<in> set ns
      | None \<Rightarrow> \<not> isFrozenNamespaceWrite env row \<and>
          ((info_role auth = Admin \<or> info_role auth = ObAdmin) \<and> \<not> isPromoterIdentity auth \<longrightarrow>
             row \<noteq> physicalSharedNamespace (sharedNamespaceConfig env)))"
proof (cases "writableNamespaces auth")
  case None
  have shared: "sharedNamespace (sharedNamespaceConfig env) =
      physicalSharedNamespace (sharedNamespaceConfig env)"
    using names_ok_config [of env] by (simp add: names_ok_def)
  have frozen: "isFrozenNamespaceWrite env row \<longleftrightarrow>
      row \<in> set (filter (isFrozenNamespaceWrite env) FROZEN_NAMESPACES)"
    by (auto simp: isFrozenNamespaceWrite_def)
  show ?thesis
    unfolding frozen
    by (auto simp: None write_predicate_admits_def appendWriteNamespacePredicate_def Let_def
        starts_with_def shared FROZEN_NAMESPACES_def)
next
  case (Some ns)
  then show ?thesis
    by (auto simp: write_predicate_admits_def appendWriteNamespacePredicate_def Let_def starts_with_def)
qed

lemma canWriteNamespace_allowed:
  "allowed (canWriteNamespace env auth ns) \<longleftrightarrow>
     (let p = physicalNamespace ns env
      in \<not> shouldRejectLegacySharedWrite auth ns env \<and>
         \<not> isFrozenNamespaceWrite env ns \<and> \<not> isFrozenNamespaceWrite env p \<and>
         (p = physicalSharedNamespace (sharedNamespaceConfig env) \<longrightarrow> isPromoterIdentity auth) \<and>
         info_role auth \<noteq> Readonly \<and>
         (info_namespaceSource auth = Some InfoHeader \<or> info_role auth \<notin> {Admin, ObAdmin, Promoter} \<longrightarrow>
            p = info_clientId auth))"
  by (cases "info_role auth")
    (auto simp: canWriteNamespace_def namespaceWriteRejection_def deny_def Let_def)

text \<open>C5: writing by name against writing by row id. For a physical namespace, the gate on a
  requested namespace is the clause appended to ID-based statements plus exactly the four
  checks that clause does not make: the configured legacy namespace, the frozen snapshot of a
  scoped caller, the shared namespace of a non-promoter and the readonly role. So the clause
  never refuses a row whose namespace the gate would let the caller write.\<close>

theorem write_gate_iff_write_clause:
  assumes "physicalNamespace ns env = ns"
  shows "allowed (canWriteNamespace env auth ns) \<longleftrightarrow>
    write_predicate_admits env auth ns \<and>
    \<not> shouldRejectLegacySharedWrite auth ns env \<and> \<not> isFrozenNamespaceWrite env ns \<and>
    (ns = physicalSharedNamespace (sharedNamespaceConfig env) \<longrightarrow> isPromoterIdentity auth) \<and>
    info_role auth \<noteq> Readonly"
  using assms
  by (cases "info_role auth")
    (auto simp: canWriteNamespace_allowed write_predicate_admits_iff writableNamespaces_def Let_def)

definition empty_env :: shared_env where
  "empty_env = \<lparr>sharedNamespaceCanonical = None, sharedNamespacePhysical = None,
     openbrainSharedNamespace = None, sharedNamespaceLegacy = None,
     openbrainLegacySharedNamespace = None, legacySharedFallback = None,
     sharedFallbackMinResults = None, allowLegacySharedWritesRaw = None\<rparr>"

lemma config_empty_env:
  "sharedNamespaceConfig empty_env = \<lparr>canonicalSharedNamespace = ''shared-kb'',
     physicalSharedNamespace = ''shared-kb'', sharedNamespace = ''shared-kb'',
     legacySharedNamespace = '''', legacyFallbackEnabled = False, fallbackMinResults = 5,
     allowLegacySharedWrites = False\<rparr>"
  by (simp add: sharedNamespaceConfig_def empty_env_def DEFAULT_SHARED_NAMESPACE_def asBoolean_def
      asPositiveInteger_def Let_def)

definition demo_admin_info :: auth_info where
  "demo_admin_info = \<lparr>info_role = Admin, info_clientId = ''root'', info_tokenClientId = None,
     info_agentId = None, info_namespaceSource = Some InfoToken\<rparr>"

lemma write_gate_witness:
  "\<not> allowed (canWriteNamespace empty_env demo_admin_info ''shared-kb'') \<and>
   allowed (canWriteNamespace empty_env demo_admin_info ''lab'')"
  using write_gate_iff_write_clause [of "''shared-kb''" empty_env demo_admin_info]
    write_gate_iff_write_clause [of "''lab''" empty_env demo_admin_info]
  by (simp add: physicalNamespace_def config_empty_env demo_admin_info_def isPromoterIdentity_def
      PROMOTER_CLIENT_IDS_def nullish_def write_predicate_admits_iff writableNamespaces_def
      shouldRejectLegacySharedWrite_def isFrozenNamespaceWrite_def FROZEN_NAMESPACES_def)

text \<open>Who may write the shared partition, and where a confined caller may write. Under
  every name of the shared partition only a promoter identity is let through; the retired
  namespace takes no write outside its migration window; a caller confined by the
  \<open>X-Namespace\<close> header, or of a role below administrator, writes its own physical namespace
  only; and every refusal carries the reason the 403 body is made of.\<close>

theorem write_gate_confines:
  assumes "canWriteNamespace env auth ns = c"
  shows "(if allowed c then
       (canonicalNamespace ns env = canonicalSharedNamespace (sharedNamespaceConfig env) \<and>
        \<not> isLegacySharedNamespace ns env \<longrightarrow> isPromoterIdentity auth) \<and>
       \<not> isFrozenNamespaceWrite env ns \<and>
       (info_namespaceSource auth = Some InfoHeader \<or> info_role auth \<in> {Agent, Discord} \<longrightarrow>
          physicalNamespace ns env = info_clientId auth) \<and>
       info_role auth \<noteq> Readonly
     else reason c \<noteq> None)"
proof (cases "allowed c")
  case True
  with assms show ?thesis
    by (auto simp: canWriteNamespace_allowed Let_def canonicalNamespace_def physicalNamespace_def
        isLegacySharedNamespace_def split: if_splits)
next
  case False
  have "reason c \<noteq> None"
    using False assms
    by (auto simp: canWriteNamespace_def namespaceWriteRejection_def deny_def Let_def
        split: if_splits option.splits)
  with False show ?thesis by simp
qed

lemma write_gate_confines_witness:
  "reason (canWriteNamespace empty_env demo_admin_info ''collab'') \<noteq> None"
proof -
  have "\<not> allowed (canWriteNamespace empty_env demo_admin_info ''collab'')"
    by (simp add: canWriteNamespace_allowed Let_def isFrozenNamespaceWrite_def FROZEN_NAMESPACES_def
        config_empty_env)
  with write_gate_confines [of empty_env demo_admin_info "''collab''", OF refl]
  show ?thesis by simp
qed

text \<open>The REST handlers lose the confinement of a delegated request. The middleware marks
  an administrator acting under \<open>X-Namespace: lab\<close> as delegated, and its identity may
  only mutate \<open>lab\<close>; but the handlers read it back as an \<open>AuthInfo\<close>, whose write policy
  confines the spelling \<open>header\<close> only, so the request is let through to every namespace that
  is neither shared, frozen nor legacy. The mapped identity of the same request is refused.\<close>

theorem rest_write_ignores_delegation:
  assumes "authMiddleware cfg req = Inr auth" "namespaceSource auth = FromDelegation"
    and "ns \<noteq> clientId auth" "physicalNamespace ns env = ns"
    and "ns \<noteq> physicalSharedNamespace (sharedNamespaceConfig env)"
    and "\<not> isFrozenNamespaceWrite env ns"
  shows "resolveWriteNamespace env (getAuth (Some auth)) (Some ns) = Inr ns \<and>
    \<not> canTargetNamespace auth OpWrite ns \<and>
    \<not> allowed (canWriteNamespace env
        ((the (getAuth (Some auth)))\<lparr>info_namespaceSource := Some InfoHeader\<rparr>) ns)"
proof -
  have role: "role_of auth = Admin \<or> role_of auth = ObAdmin"
    using middleware_delegation_role [OF assms(1,2)] .
  have "resolveWriteNamespace env (getAuth (Some auth)) (Some ns) = Inr ns"
    using assms role
    by (auto simp: resolveWriteNamespace_def getAuth_def canWriteNamespace_allowed Let_def nullish_def
        shouldRejectLegacySharedWrite_def)
  moreover have "\<not> canTargetNamespace auth OpWrite ns"
    using assms role by (auto simp: canTargetNamespace_def isGlobal_def)
  moreover have "\<not> allowed (canWriteNamespace env
      ((the (getAuth (Some auth)))\<lparr>info_namespaceSource := Some InfoHeader\<rparr>) ns)"
    using assms by (auto simp: getAuth_def canWriteNamespace_allowed Let_def)
  ultimately show ?thesis by blast
qed

lemma rest_write_witness:
  "resolveWriteNamespace empty_env (getAuth (Some \<lparr>role_of = Admin, clientId = ''lab'',
     tokenClientId = ''root'', namespaceSource = FromDelegation, agentId = None\<rparr>))
     (Some ''payroll'') = Inr ''payroll''"
  using rest_write_ignores_delegation [of demo_tokens
      "\<lparr>authorization = Some ''Bearer s2'', x_namespace = HeaderText '' lab '',
        x_agent_id = HeaderAbsent\<rparr>"
      "\<lparr>role_of = Admin, clientId = ''lab'', tokenClientId = ''root'',
        namespaceSource = FromDelegation, agentId = None\<rparr>" "''payroll''" empty_env]
  by (simp add: authMiddleware_def authenticateBearerHeader_def demo_tokens_def BEARER_def starts_with_def
      resolveBearerToken_def checkDelegatedNamespace_def mayDelegate_def DELEGATED_ID_RE_def
      is_alnum_def id_tail_char_def checkDelegatedAgentId_def non_empty_def trim_def trim_start_def
      js_ws_def buildRequestAuthInfo_def recordedAgentId_def nullish_def physicalNamespace_def
      config_empty_env isFrozenNamespaceWrite_def FROZEN_NAMESPACES_def)

end
