(* ===== verification/ReadScope.thy ===== *)
theory ReadScope
  imports AccessControl
begin

text \<open>
  Which namespaces a read reaches: \<open>server/domain/read-scope.ts\<close> over \<open>AuthIdentity\<close> and
  its call form over \<open>AuthInfo\<close> in \<open>server/domain/read-policy.ts\<close>. The shared names
  are the validated set of the configuration; without one the helpers throw, which is \<open>Inl\<close>.
\<close>

subsection \<open>Read scope\<close>

datatype namespace_filter = FilterOne string | FilterMany "string list"

definition isGlobalReader :: "('a) auth_identity_scheme \<Rightarrow> bool" where
  "isGlobalReader i =
     (if namespaceSource i = FromDelegation then False
      else role_of i \<in> set GLOBAL_ROLES \<or> role_of i = Promoter)"

definition readableNamespaces ::
  "('a) auth_identity_scheme \<Rightarrow> bool \<Rightarrow> shared_names option \<Rightarrow> string list option result" where
  "readableNamespaces i includeLegacySharedFallback names =
     (case sharedNamespaceConfigFor names of
        Inl e \<Rightarrow> Inl e
      | Inr config \<Rightarrow>
          (let shared = [physicalSharedNamespace config] @
                 (if includeLegacySharedFallback \<and> legacySharedNamespace config \<noteq> ''''
                  then [legacySharedNamespace config] else [])
           in if namespaceSource i = FromDelegation then Inr (Some (clientId i # shared))
              else if isGlobalReader i then Inr None
              else Inr (Some (clientId i # shared))))"

definition canReadNamespace ::
  "('a) auth_identity_scheme \<Rightarrow> string \<Rightarrow> shared_names option \<Rightarrow> bool result" where
  "canReadNamespace i ns names =
     (case sharedNamespaceConfigFor names of
        Inl e \<Rightarrow> Inl e
      | Inr config \<Rightarrow>
          if ns = ''all'' then
            Inr (namespaceSource i \<noteq> FromDelegation \<and> role_of i \<in> set GLOBAL_ROLES)
          else if legacySharedNamespace config \<noteq> '''' \<and> ns = legacySharedNamespace config \<and>
                  role_of i \<notin> set GLOBAL_ROLES then Inr False
          else (case readableNamespaces i False names of
                  Inl e \<Rightarrow> Inl e
                | Inr None \<Rightarrow> Inr True
                | Inr (Some ns') \<Rightarrow>
                    (case physicalNamespaceFor ns names of
                       Inl e \<Rightarrow> Inl e | Inr p \<Rightarrow> Inr (p \<in> set ns'))))"

definition namespaceFilterFor ::
  "('a) auth_identity_scheme \<Rightarrow> string option \<Rightarrow> bool \<Rightarrow> shared_names option \<Rightarrow>
     namespace_filter option result" where
  "namespaceFilterFor i ns includeLegacy names =
     (if ns = Some ''all'' \<and> namespaceSource i \<noteq> FromDelegation \<and> role_of i \<in> set GLOBAL_ROLES
      then Inr None
      else case ns of
        Some n \<Rightarrow> (case physicalNamespaceFor n names of
            Inl e \<Rightarrow> Inl e | Inr p \<Rightarrow> Inr (Some (FilterOne p)))
      | None \<Rightarrow> (case readableNamespaces i includeLegacy names of
            Inl e \<Rightarrow> Inl e | Inr r \<Rightarrow> Inr (map_option FilterMany r)))"

definition appendReadNamespacePredicate ::
  "('a) auth_identity_scheme \<Rightarrow> sql_param list \<Rightarrow> string \<Rightarrow> bool \<Rightarrow> shared_names option \<Rightarrow>
     (string \<times> sql_param list) result" where
  "appendReadNamespacePredicate i params column includeLegacy names =
     (case readableNamespaces i includeLegacy names of
        Inl e \<Rightarrow> Inl e
      | Inr None \<Rightarrow> Inr ('''', params)
      | Inr (Some ns) \<Rightarrow>
          Inr ('' AND '' @ column @ '' = ANY($'' @ show_nat (length params + 1) @ ''::text[])'',
               params @ [PTexts ns]))"

subsection \<open>The call form over \<open>AuthInfo\<close>\<close>

definition readableNamespacesInfo :: "shared_env \<Rightarrow> auth_info \<Rightarrow> bool \<Rightarrow> string list option result" where
  "readableNamespacesInfo env auth includeLegacy =
     readableNamespaces (authIdentityFor auth) includeLegacy (Some (sharedNamespaceConfig env))"

definition canReadNamespaceInfo :: "shared_env \<Rightarrow> auth_info \<Rightarrow> string \<Rightarrow> bool result" where
  "canReadNamespaceInfo env auth ns =
     canReadNamespace (authIdentityFor auth) ns (Some (sharedNamespaceConfig env))"

definition namespaceFilterForInfo ::
  "shared_env \<Rightarrow> auth_info \<Rightarrow> string option \<Rightarrow> bool \<Rightarrow> namespace_filter option result" where
  "namespaceFilterForInfo env auth ns includeLegacy =
     namespaceFilterFor (authIdentityFor auth) ns includeLegacy (Some (sharedNamespaceConfig env))"

definition appendReadNamespacePredicateInfo ::
  "shared_env \<Rightarrow> auth_info \<Rightarrow> sql_param list \<Rightarrow> string \<Rightarrow> bool \<Rightarrow> (string \<times> sql_param list) result" where
  "appendReadNamespacePredicateInfo env auth params column includeLegacy =
     appendReadNamespacePredicate (authIdentityFor auth) params column includeLegacy
       (Some (sharedNamespaceConfig env))"

subsection \<open>Gate, then bind\<close>

text \<open>
  The contract every read arm follows: \<open>permits\<close> is asked about the requested namespace, then
  the physical name is bound. \<open>reach\<close> is what the identity reads when it names nothing,
  \<open>None\<close> for everything.
\<close>

locale namespace_gate =
  fixes permits :: "'i \<Rightarrow> string \<Rightarrow> bool"
    and reach :: "'i \<Rightarrow> string list option"
    and physical :: "string \<Rightarrow> string"
  assumes permits_reach: "permits i ns \<Longrightarrow> ns \<noteq> ''all'' \<Longrightarrow> reach i = Some ss \<Longrightarrow> physical ns \<in> set ss"
    and permits_all: "permits i ''all'' \<Longrightarrow> reach i = None"
begin

definition in_reach :: "'i \<Rightarrow> string \<Rightarrow> bool" where
  "in_reach i row = (case reach i of None \<Rightarrow> True | Some ss \<Rightarrow> row \<in> set ss)"

definition bound_rows :: "'i \<Rightarrow> string option \<Rightarrow> string \<Rightarrow> bool" where
  "bound_rows i ns row =
     (case ns of None \<Rightarrow> in_reach i row | Some n \<Rightarrow> n = ''all'' \<or> row = physical n)"

lemma gated_read_stays_in_reach:
  "(\<forall>n. ns = Some n \<longrightarrow> permits i n) \<Longrightarrow> bound_rows i ns row \<Longrightarrow> in_reach i row"
  by (cases "ns = Some ''all''")
    (auto simp: bound_rows_def in_reach_def permits_all dest: permits_reach split: option.splits)

lemma scoped_never_all: "reach i = Some ss \<Longrightarrow> \<not> permits i ''all''"
  using permits_all by fastforce

end

interpretation id_gate: namespace_gate
  "\<lambda>i. canTargetNamespace (i :: auth_identity) OpRead" "readNamespaces" "\<lambda>ns. ns"
  by unfold_locales
    (auto simp: canTargetNamespace_def readNamespaces_def split: if_splits)

lemma canReadNamespace_Some:
  "names_ok n \<Longrightarrow> canReadNamespace i ns (Some n) = Inr (
     if ns = ''all'' then namespaceSource i \<noteq> FromDelegation \<and> role_of i \<in> set GLOBAL_ROLES
     else (ns = legacySharedNamespace n \<longrightarrow> legacySharedNamespace n = [] \<or> role_of i \<in> set GLOBAL_ROLES) \<and>
       (isGlobalReader i \<or>
        (if ns = canonicalSharedNamespace n then physicalSharedNamespace n else ns) \<in>
          {clientId i, physicalSharedNamespace n}))"
  by (auto simp: canReadNamespace_def sharedNamespaceConfigFor_def requireNames_def
      readableNamespaces_def physicalNamespaceFor_def physicalNamespace_def
      sharedNamespaceConfig_asEnv isGlobalReader_def)

text \<open>The scope of a validated name set, as the interpretation needs it.\<close>

definition reach_of :: "shared_names \<Rightarrow> auth_identity \<Rightarrow> string list option" where
  "reach_of n i = (case readableNamespaces i False (Some n) of Inr r \<Rightarrow> r | Inl _ \<Rightarrow> Some [])"

definition permits_of :: "shared_names \<Rightarrow> auth_identity \<Rightarrow> string \<Rightarrow> bool" where
  "permits_of n i ns = (canReadNamespace i ns (Some n) = Inr True)"

definition physical_of :: "shared_names \<Rightarrow> string \<Rightarrow> string" where
  "physical_of n ns = (if ns = canonicalSharedNamespace n then physicalSharedNamespace n else ns)"

lemma reach_of_eq:
  "reach_of n i = (if isGlobalReader i then None else Some [clientId i, physicalSharedNamespace n])"
  by (simp add: reach_of_def readableNamespaces_def sharedNamespaceConfigFor_def requireNames_def
      isGlobalReader_def)

interpretation scope_gate: namespace_gate
  "permits_of (sharedNamespaceGroup env)" "reach_of (sharedNamespaceGroup env)"
  "physical_of (sharedNamespaceGroup env)"
  by unfold_locales
    (auto simp: permits_of_def reach_of_eq physical_of_def canReadNamespace_Some names_ok_group
      isGlobalReader_def split: if_splits)

text \<open>Rows a search arm's bound value selects.\<close>

fun filter_admits :: "namespace_filter option \<Rightarrow> string \<Rightarrow> bool" where
  "filter_admits None row = True"
| "filter_admits (Some (FilterOne ns)) row = (row = ns)"
| "filter_admits (Some (FilterMany ns)) row = (row \<in> set ns)"

lemma namespaceFilterFor_bound:
  assumes "namespaceFilterFor i ns False (Some (sharedNamespaceGroup env)) = Inr f"
    and "ns = Some ''all'' \<longrightarrow> permits_of (sharedNamespaceGroup env) i ''all''"
    and "filter_admits f row"
  shows "scope_gate.bound_rows env i ns row"
proof (cases ns)
  case None
  with assms show ?thesis
    by (auto simp: namespaceFilterFor_def scope_gate.bound_rows_def scope_gate.in_reach_def reach_of_def
        split: option.splits sum.splits)
next
  case (Some n)
  with assms show ?thesis
    by (auto simp: namespaceFilterFor_def scope_gate.bound_rows_def physical_of_def
        physicalNamespaceFor_def requireNames_def physicalNamespace_def sharedNamespaceConfig_asEnv
        names_ok_group split: if_splits)
qed

text \<open>C2: read isolation. A read whose requested namespace passed the gate binds a value that
  selects rows of the identity's own namespace and the shared one only, unless the identity is
  an undelegated \<open>admin\<close>, \<open>ob-admin\<close> or \<open>promoter\<close>; the wildcard is never a way out.\<close>

theorem gated_read_is_isolated:
  fixes i :: auth_identity
  assumes "\<forall>n. ns = Some n \<longrightarrow> canReadNamespace i n (Some (sharedNamespaceGroup env)) = Inr True"
    and "namespaceFilterFor i ns False (Some (sharedNamespaceGroup env)) = Inr f"
    and "filter_admits f row"
  shows "row \<in> {clientId i, physicalSharedNamespace (sharedNamespaceGroup env)} \<or>
    (namespaceSource i = FromToken \<and> role_of i \<in> {Admin, ObAdmin, Promoter})"
proof -
  have p: "\<forall>n. ns = Some n \<longrightarrow> permits_of (sharedNamespaceGroup env) i n"
    using assms(1) by (simp add: permits_of_def)
  then have "scope_gate.bound_rows env i ns row"
    using namespaceFilterFor_bound [OF assms(2) _ assms(3)] by simp
  then have "scope_gate.in_reach env i row"
    by (rule scope_gate.gated_read_stays_in_reach [OF p])
  then show ?thesis
    by (auto simp: scope_gate.in_reach_def reach_of_eq isGlobalReader_def GLOBAL_ROLES_def
        split: if_splits) (metis namespace_source.exhaust)+
qed

lemma group_empty_env:
  "sharedNamespaceGroup empty_env = sharedNamespaceConfig empty_env"
  unfolding derivations_agree_iff' by (simp add: empty_env_def is_set_def)

lemma gated_read_witness:
  "canReadNamespace demo_agent ''bilby'' (Some (sharedNamespaceGroup empty_env)) = Inr True \<and>
   ''lab'' \<notin> {clientId demo_agent, physicalSharedNamespace (sharedNamespaceGroup empty_env)} \<and>
   ''bilby'' \<in> {clientId demo_agent, physicalSharedNamespace (sharedNamespaceGroup empty_env)}"
  using gated_read_is_isolated [of "Some ''bilby''" demo_agent empty_env "Some (FilterOne ''bilby'')"
      "''bilby''"]
  by (simp add: canReadNamespace_Some names_ok_group group_empty_env config_empty_env demo_agent_def
      isGlobalReader_def GLOBAL_ROLES_def namespaceFilterFor_def physicalNamespaceFor_def
      requireNames_def physicalNamespace_def sharedNamespaceConfig_asEnv
      names_ok_group [of empty_env, unfolded group_empty_env config_empty_env])

text \<open>One implementation, two call forms. Over every environment on which the two name
  derivations agree, and for every request identity, a read asked in the \<open>AuthInfo\<close> form
  gives the verdict, the bound filter and the SQL of the \<open>AuthIdentity\<close> form on the mapped
  identity; and the mapping sends the header spelling to the delegated one, so a confined
  legacy caller is never a global reader.\<close>

theorem read_call_forms_agree:
  assumes "sharedNamespaceGroup env = sharedNamespaceConfig env"
  shows "canReadNamespaceInfo env auth ns =
      canReadNamespace (authIdentityFor auth) ns (Some (sharedNamespaceGroup env)) \<and>
    namespaceFilterForInfo env auth req legacy =
      namespaceFilterFor (authIdentityFor auth) req legacy (Some (sharedNamespaceGroup env)) \<and>
    appendReadNamespacePredicateInfo env auth params col legacy =
      appendReadNamespacePredicate (authIdentityFor auth) params col legacy
        (Some (sharedNamespaceGroup env)) \<and>
    (info_namespaceSource auth = Some InfoHeader \<longrightarrow>
       \<not> isGlobalReader (authIdentityFor auth) \<and>
       canReadNamespaceInfo env auth ''all'' = Inr False \<and>
       readableNamespacesInfo env auth False =
         Inr (Some [info_clientId auth, physicalSharedNamespace (sharedNamespaceConfig env)]))"
  using assms
  by (simp add: canReadNamespaceInfo_def namespaceFilterForInfo_def appendReadNamespacePredicateInfo_def
      readableNamespacesInfo_def authIdentityFor_def isGlobalReader_def canReadNamespace_def
      readableNamespaces_def sharedNamespaceConfigFor_def requireNames_def)

lemma read_call_forms_witness:
  "canReadNamespaceInfo empty_env (demo_admin_info\<lparr>info_namespaceSource := Some InfoHeader\<rparr>) ''all''
     = Inr False"
  using read_call_forms_agree [OF group_empty_env,
      of "demo_admin_info\<lparr>info_namespaceSource := Some InfoHeader\<rparr>" "''all''" None False "[]" "[]"]
  by (metis (no_types, lifting) auth_info.select_convs(5) auth_info.surjective
      auth_info.update_convs(5))

end
