(* ===== verification/Json.thy ===== *)
theory Json
  imports Prelude
begin

text \<open>
  JSON values and \<open>JSON.stringify\<close> without indentation, on the values the server
  serializes: what the stores measure their metadata with, what the scope key is, and what the
  context pack counts against its budget. A number carries its JavaScript rendering, an object
  its members in insertion order; \<open>undefined\<close> members are left out by whoever builds the
  object. Strings hold code units below 256, so no surrogate is ever escaped.
\<close>

datatype json = JNull | JBool bool | JNum string | JStr string | JArr "json list"
  | JObj "(string \<times> json) list"

type_synonym json_object = "(string \<times> json) list"

definition hex_digit :: "nat \<Rightarrow> char" where
  "hex_digit d = char_of (if d < 10 then 48 + d else 87 + d)"

definition esc :: "char \<Rightarrow> string" where
  "esc c = (let n = (of_char c :: nat) in
     if n = 34 then [CHR 0x5C, CHR 0x22]
     else if n = 92 then [CHR 0x5C, CHR 0x5C]
     else if n = 8 then [CHR 0x5C, CHR ''b'']
     else if n = 9 then [CHR 0x5C, CHR ''t'']
     else if n = 10 then [CHR 0x5C, CHR ''n'']
     else if n = 12 then [CHR 0x5C, CHR ''f'']
     else if n = 13 then [CHR 0x5C, CHR ''r'']
     else if n < 32 then [CHR 0x5C, CHR ''u'', CHR ''0'', CHR ''0'', hex_digit (n div 16),
                          hex_digit (n mod 16)]
     else [c])"

text \<open>Code equations that compare bits and characters instead of numbers.\<close>

lemma of_char_less_128: "(of_char c :: nat) < 128 \<longleftrightarrow> \<not> digit7 c"
  by (cases c) (auto simp: of_char_Char split: bool.splits)
lemma of_char_less_32: "(of_char c :: nat) < 32 \<longleftrightarrow> \<not> digit7 c \<and> \<not> digit6 c \<and> \<not> digit5 c"
  by (cases c) (auto simp: of_char_Char split: bool.splits)

lemma esc_code [code]: "esc c =
    (if c = CHR 0x22 then [CHR 0x5C, CHR 0x22]
     else if c = CHR 0x5C then [CHR 0x5C, CHR 0x5C]
     else if digit7 c \<or> digit6 c \<or> digit5 c then [c]
     else if c = CHR 8 then [CHR 0x5C, CHR ''b'']
     else if c = CHR 9 then [CHR 0x5C, CHR ''t'']
     else if c = CHR 10 then [CHR 0x5C, CHR ''n'']
     else if c = CHR 12 then [CHR 0x5C, CHR ''f'']
     else if c = CHR 13 then [CHR 0x5C, CHR ''r'']
     else [CHR 0x5C, CHR ''u'', CHR ''0'', CHR ''0'', hex_digit (of_char c div 16),
                          hex_digit (of_char c mod 16)])"
proof -
  have n: "(of_char (CHR 0x22) :: nat) = 34" "(of_char (CHR 0x5C) :: nat) = 92" "(of_char (CHR 8) :: nat) = 8"
    "(of_char (CHR 9) :: nat) = 9" "(of_char (CHR 10) :: nat) = 10" "(of_char (CHR 12) :: nat) = 12"
    "(of_char (CHR 13) :: nat) = 13"
    by simp_all
  have lit: "c = CHR 0x22 \<longleftrightarrow> (of_char c :: nat) = 34" "c = CHR 0x5C \<longleftrightarrow> (of_char c :: nat) = 92"
    "c = CHR 8 \<longleftrightarrow> (of_char c :: nat) = 8" "c = CHR 9 \<longleftrightarrow> (of_char c :: nat) = 9"
    "c = CHR 10 \<longleftrightarrow> (of_char c :: nat) = 10" "c = CHR 12 \<longleftrightarrow> (of_char c :: nat) = 12"
    "c = CHR 13 \<longleftrightarrow> (of_char c :: nat) = 13"
    unfolding n [symmetric] of_char_eq_iff by simp_all
  show ?thesis unfolding lit using of_char_less_32 [of c] by (auto simp: esc_def Let_def)
qed

definition quote :: "string \<Rightarrow> string" where
  "quote s = [CHR 0x22] @ concat (map esc s) @ [CHR 0x22]"

fun stringify :: "json \<Rightarrow> string" where
  "stringify JNull = ''null''"
| "stringify (JBool b) = (if b then ''true'' else ''false'')"
| "stringify (JNum n) = n"
| "stringify (JStr s) = quote s"
| "stringify (JArr xs) = ''['' @ join '','' (map stringify xs) @ '']''"
| "stringify (JObj kvs) =
     ''{'' @ join '','' (map (\<lambda>p. quote (fst p) @ '':'' @ stringify (snd p)) kvs) @ ''}''"

definition json_length :: "json \<Rightarrow> nat" where
  "json_length j = length (stringify j)"

text \<open>A member read and a spread override: the key keeps its place, a new key goes last.\<close>

definition get_member :: "string \<Rightarrow> json_object \<Rightarrow> json option" where
  "get_member k obj = map_of obj k"

definition set_member :: "string \<Rightarrow> json \<Rightarrow> json_object \<Rightarrow> json_object" where
  "set_member k v obj = AList.update k v obj"

definition jnat :: "nat \<Rightarrow> json" where
  "jnat n = JNum (show_nat n)"

definition jopt :: "string option \<Rightarrow> json" where
  "jopt v = (case v of None \<Rightarrow> JNull | Some s \<Rightarrow> JStr s)"

subsection \<open>A quoted string can be read back\<close>

lemma esc_not_quote: "esc c \<noteq> [] \<and> hd (esc c) \<noteq> CHR 0x22"
  by (auto simp: esc_def Let_def)

text \<open>A reader for one escape: it recovers the character and the rest of the input.\<close>

definition unhex :: "char \<Rightarrow> nat" where
  "unhex c = (let n = of_char c in if n < 58 then n - 48 else n - 87)"

definition unesc :: "string \<Rightarrow> char \<times> string" where
  "unesc s =
     (if hd s \<noteq> CHR 0x5C then (hd s, tl s)
      else let x = (of_char (s ! 1) :: nat); r = drop 2 s in
        if x = 117 then (char_of (16 * unhex (s ! 4) + unhex (s ! 5)), drop 6 s)
        else (if x = 98 then char_of (8 :: nat) else if x = 116 then char_of (9 :: nat)
              else if x = 110 then char_of (10 :: nat) else if x = 102 then char_of (12 :: nat)
              else if x = 114 then char_of (13 :: nat) else s ! 1, r))"

lemma unhex_hex_digit: "d < 16 \<Longrightarrow> unhex (hex_digit d) = d"
  by (simp add: unhex_def hex_digit_def Let_def)

lemma char_of_eq: "(of_char c :: nat) = n \<Longrightarrow> char_of n = c"
  by auto

lemma char_of_lits: "char_of (34 :: nat) = CHR 0x22" "char_of (92 :: nat) = CHR 0x5C"
  by code_simp+

lemma unesc_esc: "unesc (esc c @ r) = (c, r)"
proof -
  let ?n = "of_char c :: nat"
  consider (q) "?n = 34" | (b) "?n = 92" | (8) "?n = 8" | (9) "?n = 9" | (10) "?n = 10"
    | (12) "?n = 12" | (13) "?n = 13"
    | (ctl) "?n < 32" "?n \<notin> {34, 92, 8, 9, 10, 12, 13}"
    | (plain) "\<not> ?n < 32" "?n \<notin> {34, 92, 8, 9, 10, 12, 13}"
    by blast
  then show ?thesis
  proof cases
    case q
    with char_of_eq [OF q] show ?thesis by (simp add: esc_def unesc_def Let_def char_of_lits)
  next
    case b
    with char_of_eq [OF b] show ?thesis by (simp add: esc_def unesc_def Let_def char_of_lits)
  next
    case ctl
    then have "esc c = [CHR 0x5C, CHR ''u'', CHR ''0'', CHR ''0'', hex_digit (?n div 16),
        hex_digit (?n mod 16)]"
      by (simp add: esc_def Let_def)
    with ctl show ?thesis by (simp add: unesc_def unhex_hex_digit)
  next
    case plain
    then have "esc c = [c]" by (simp add: esc_def Let_def)
    moreover have "c \<noteq> CHR 0x5C" using plain by auto
    ultimately show ?thesis by (simp add: unesc_def)
  qed (simp_all add: esc_def unesc_def Let_def char_of_eq)
qed

lemma esc_prefix_free: "esc c @ r = esc d @ r' \<Longrightarrow> c = d \<and> r = r'"
  by (metis prod.inject unesc_esc)

lemma esc_hd: "hd (esc c @ r) \<noteq> CHR 0x22" "esc c @ r \<noteq> []"
  using esc_not_quote [of c] by (cases "esc c"; simp)+

lemma escaped_prefix_free:
  "concat (map esc s) @ CHR 0x22 # r = concat (map esc t) @ CHR 0x22 # r' \<Longrightarrow> s = t \<and> r = r'"
proof (induction s arbitrary: t)
  case Nil
  then show ?case
    using esc_hd(1) by (cases t) (auto, metis list.sel(1) append_assoc)
next
  case (Cons c s)
  show ?case
  proof (cases t)
    case Nil
    with Cons.prems have "esc c @ (concat (map esc s) @ CHR 0x22 # r) = CHR 0x22 # r'" by simp
    then show ?thesis using esc_hd(1) by (metis list.sel(1))
  next
    case (Cons d u)
    with Cons.prems have "esc c @ (concat (map esc s) @ CHR 0x22 # r) =
        esc d @ (concat (map esc u) @ CHR 0x22 # r')" by simp
    then have "c = d" "concat (map esc s) @ CHR 0x22 # r = concat (map esc u) @ CHR 0x22 # r'"
      using esc_prefix_free by blast+
    with Cons.IH Cons show ?thesis by blast
  qed
qed

lemma quote_prefix_free: "quote s @ r = quote t @ r' \<Longrightarrow> s = t \<and> r = r'"
  using escaped_prefix_free [of s r t r'] by (simp add: quote_def)

lemma quote_inj: "quote s = quote t \<longleftrightarrow> s = t"
  using quote_prefix_free [of s "[]" t "[]"] by auto

lemma jopt_prefix_free:
  "stringify (jopt a) @ r = stringify (jopt b) @ r' \<Longrightarrow> a = b \<and> r = r'"
  by (cases a; cases b) (auto simp: jopt_def quote_def dest: escaped_prefix_free)

text \<open>So an array of strings and nulls of known length renders injectively.\<close>

lemma stringify_options_inj:
  "length xs = length ys \<Longrightarrow> stringify (JArr (map jopt xs)) = stringify (JArr (map jopt ys)) \<Longrightarrow> xs = ys"
proof -
  assume len: "length xs = length ys"
    and eq: "stringify (JArr (map jopt xs)) = stringify (JArr (map jopt ys))"
  have "join '','' (map (\<lambda>v. stringify (jopt v)) xs) @ r = join '','' (map (\<lambda>v. stringify (jopt v)) ys) @ r'
      \<Longrightarrow> xs = ys" for r r'
    using len
  proof (induction xs ys arbitrary: r r' rule: list_induct2)
    case Nil
    then show ?case by simp
  next
    case (Cons x xs y ys)
    show ?case
    proof (cases xs)
      case Nil
      with Cons show ?thesis using jopt_prefix_free [of x _ y] by auto
    next
      case xs: (Cons x' xs')
      then obtain y' ys' where ys: "ys = y' # ys'" using Cons.hyps by (cases ys) auto
      have "x = y \<and> '','' @ join '','' (map (\<lambda>v. stringify (jopt v)) xs) @ r =
          '','' @ join '','' (map (\<lambda>v. stringify (jopt v)) ys) @ r'"
        using Cons.prems by (intro jopt_prefix_free) (simp add: xs ys)
      then show ?thesis using Cons.IH [of r r'] by auto
    qed
  qed
  from this [of "'']''" "'']''"] eq show ?thesis by (simp add: comp_def)
qed

end
