(* ===== verification/Sessions.thy ===== *)
theory Sessions
  imports Json "HOL-Library.Sublist"
begin

text \<open>
  What the two realtime stores share: the seven-coordinate scope and its key
  (\<open>server/realtime/working-set.ts\<close>), the map from keys to sessions, and the way both
  stores shed load, always from the least recently updated session
  (\<open>server/realtime/recovery-wal-store-parts.ts\<close>). Times are epoch milliseconds; the ISO
  strings of the code are their renderings. Counts and budgets are natural numbers.
\<close>

subsection \<open>Scopes\<close>

text \<open>One record for the caller's scope and the normalized one: an absent or null
  \<open>thread_id\<close> is \<open>None\<close>.\<close>

record scope =
  namespace :: string
  agent :: string
  platform :: string
  server_id :: string
  channel_id :: string
  thread_id :: "string option"
  session_key :: string

datatype scope_field = F_namespace | F_agent | F_platform | F_server_id | F_channel_id
  | F_thread_id | F_session_key

definition requireScopePart :: "string \<Rightarrow> string \<Rightarrow> string result" where
  "requireScopePart value field =
     (let trimmed = trim value
      in if length trimmed = 0
         then Inl (''working set scope requires non-empty '' @ field) else Inr trimmed)"

definition normalizeWorkingSetScope :: "scope \<Rightarrow> scope result" where
  "normalizeWorkingSetScope s =
     res_bind (requireScopePart (namespace s) ''namespace'') (\<lambda>n.
     res_bind (requireScopePart (agent s) ''agent'') (\<lambda>a.
     res_bind (requireScopePart (platform s) ''platform'') (\<lambda>p.
     res_bind (requireScopePart (server_id s) ''server_id'') (\<lambda>sid.
     res_bind (requireScopePart (channel_id s) ''channel_id'') (\<lambda>c.
     res_bind (case thread_id s of None \<Rightarrow> Inr None
               | Some t \<Rightarrow> res_bind (requireScopePart t ''thread_id'') (\<lambda>t'. Inr (Some t'))) (\<lambda>t.
     res_bind (requireScopePart (session_key s) ''session_key'') (\<lambda>k.
       Inr \<lparr>namespace = n, agent = a, platform = p, server_id = sid, channel_id = c,
            thread_id = t, session_key = k\<rparr>)))))))"

text \<open>\<open>key_text\<close> is the rendering of a normalized scope; stored scopes are normalized, so the
  stores' own calls of the key never throw.\<close>

definition key_text :: "scope \<Rightarrow> string" where
  "key_text s = stringify (JArr (map jopt [Some (namespace s), Some (agent s), Some (platform s),
     Some (server_id s), Some (channel_id s), thread_id s, Some (session_key s)]))"

definition workingSetScopeKey :: "scope \<Rightarrow> string result" where
  "workingSetScopeKey s = res_bind (normalizeWorkingSetScope s) (\<lambda>n. Inr (key_text n))"

text \<open>\<open>sha256\<close> gives the hexadecimal digest.\<close>

definition workingSetScopeHash :: "(string \<Rightarrow> string) \<Rightarrow> scope \<Rightarrow> string" where
  "workingSetScopeHash sha256 s = slice 0 16 (sha256 (key_text s))"

fun field_of :: "scope \<Rightarrow> scope_field \<Rightarrow> string option" where
  "field_of s F_namespace = Some (namespace s)"
| "field_of s F_agent = Some (agent s)"
| "field_of s F_platform = Some (platform s)"
| "field_of s F_server_id = Some (server_id s)"
| "field_of s F_channel_id = Some (channel_id s)"
| "field_of s F_thread_id = thread_id s"
| "field_of s F_session_key = Some (session_key s)"

definition compareWorkingSetScope :: "scope \<Rightarrow> scope \<Rightarrow> scope_field list" where
  "compareWorkingSetScope a b =
     filter (\<lambda>f. field_of a f \<noteq> field_of b f)
       [F_namespace, F_agent, F_platform, F_server_id, F_channel_id, F_thread_id, F_session_key]"

definition normalized :: "scope \<Rightarrow> bool" where
  "normalized s = (normalizeWorkingSetScope s = Inr s)"

lemma key_text_inj: "key_text a = key_text b \<longleftrightarrow> a = b"
proof
  assume "key_text a = key_text b"
  then have "[Some (namespace a), Some (agent a), Some (platform a), Some (server_id a),
      Some (channel_id a), thread_id a, Some (session_key a)] =
     [Some (namespace b), Some (agent b), Some (platform b), Some (server_id b),
      Some (channel_id b), thread_id b, Some (session_key b)]"
    unfolding key_text_def by (rule stringify_options_inj [rotated]) simp
  then show "a = b" by simp
qed simp

lemma requireScopePart_Inr: "requireScopePart v f = Inr t \<longleftrightarrow> t = trim v \<and> t \<noteq> []"
  by (auto simp: requireScopePart_def Let_def)

lemma normalize_normalized: "normalizeWorkingSetScope s = Inr n \<Longrightarrow> normalized n"
  by (auto simp: normalized_def normalizeWorkingSetScope_def res_bind_Inr requireScopePart_Inr
      split: option.splits)

lemma compare_Nil_iff: "compareWorkingSetScope a b = [] \<longleftrightarrow> a = b"
  by (auto simp: compareWorkingSetScope_def)

subsection \<open>Sessions\<close>

record 'i session =
  scope_of :: scope
  items :: "'i list"
  updated_at_ms :: int

type_synonym 'i sessions = "(string, 'i session) jsmap"

record session_budget =
  ttl_ms :: int
  max_sessions :: nat
  max_items_per_session :: nat
  max_global_items :: nat
  max_metadata_chars :: nat

text \<open>The session with the smallest \<open>updated_at_ms\<close>, the first one in map order on a tie.\<close>

definition older :: "'i session option \<Rightarrow> 'i session \<Rightarrow> 'i session option" where
  "older oldest s = (case oldest of None \<Rightarrow> Some s
     | Some o1 \<Rightarrow> if updated_at_ms s < updated_at_ms o1 then Some s else Some o1)"

definition oldestSession :: "'i sessions \<Rightarrow> 'i session option" where
  "oldestSession m = foldl older None (map snd m)"

definition globalItemCount :: "'i sessions \<Rightarrow> nat" where
  "globalItemCount m = foldl (\<lambda>count s. count + length (items s)) 0 (map snd m)"

definition deleteIfEmpty :: "'i sessions \<Rightarrow> 'i session \<Rightarrow> 'i sessions" where
  "deleteIfEmpty m s = (if length (items s) = 0 then AList.delete (key_text (scope_of s)) m else m)"

text \<open>\<open>oldest.items.shift()\<close> on the session object in the map, then the deletion of an
  emptied session: the new map and the item removed.\<close>

definition shift_oldest :: "'i sessions \<Rightarrow> 'i session \<Rightarrow> 'i sessions" where
  "shift_oldest m s =
     (let s' = s\<lparr>items := tl (items s)\<rparr>
      in deleteIfEmpty (AList.update (key_text (scope_of s)) s' m) s')"

text \<open>
  The two \<open>while\<close> loops, with what they removed in order. On a map the stores never hold, one with a
  session under another key, a turn may remove nothing, so the loops carry a fuel: the number of items and
  sessions, one of which goes at each turn on a well-formed map. The lemmas below show that there the loop
  ends by its own condition and that more fuel changes nothing.
\<close>

fun shed_items :: "nat \<Rightarrow> nat \<Rightarrow> 'i sessions \<Rightarrow> 'i sessions \<times> (scope \<times> 'i option) list" where
  "shed_items 0 limit m = (m, [])"
| "shed_items (Suc fuel) limit m =
     (if globalItemCount m > limit then
        (case oldestSession m of None \<Rightarrow> (m, [])
         | Some s \<Rightarrow>
             (let (m', removed) = shed_items fuel limit (shift_oldest m s)
              in (m', (scope_of s, if items s = [] then None else Some (hd (items s))) # removed)))
      else (m, []))"

fun shed_sessions :: "nat \<Rightarrow> nat \<Rightarrow> 'i sessions \<Rightarrow> 'i sessions \<times> 'i session list" where
  "shed_sessions 0 limit m = (m, [])"
| "shed_sessions (Suc fuel) limit m =
     (if length m > limit then
        (case oldestSession m of None \<Rightarrow> (m, [])
         | Some s \<Rightarrow>
             (let (m', removed) = shed_sessions fuel limit (AList.delete (key_text (scope_of s)) m)
              in (m', s # removed)))
      else (m, []))"

definition shed_fuel :: "'i sessions \<Rightarrow> nat" where
  "shed_fuel m = globalItemCount m + length m"

text \<open>Overflow of one session: the removed head and what stays.\<close>

definition overflow_of :: "nat \<Rightarrow> 'i list \<Rightarrow> nat" where
  "overflow_of limit xs = length xs - limit"

subsection \<open>Well-formed maps\<close>

definition items_at :: "'i sessions \<Rightarrow> string \<Rightarrow> 'i list" where
  "items_at m k = (case map_of m k of None \<Rightarrow> [] | Some s \<Rightarrow> items s)"

definition wf_sessions :: "'i sessions \<Rightarrow> bool" where
  "wf_sessions m = (distinct (map fst m) \<and>
     (\<forall>(k, s) \<in> set m. k = key_text (scope_of s) \<and> normalized (scope_of s) \<and> items s \<noteq> []))"

lemma wf_sessions_nonempty: "wf_sessions m \<Longrightarrow> (k, s) \<in> set m \<Longrightarrow> items s \<noteq> []"
  by (auto simp: wf_sessions_def)

lemma wf_sessions_key: "wf_sessions m \<Longrightarrow> (k, s) \<in> set m \<Longrightarrow> k = key_text (scope_of s)"
  by (auto simp: wf_sessions_def)

lemma globalItemCount_eq: "globalItemCount m = (\<Sum>s\<leftarrow>map snd m. length (items s))"
proof -
  have "foldl (\<lambda>count s. count + length (items s)) n xs = n + (\<Sum>s\<leftarrow>xs. length (items s))"
    for n and xs :: "'a session list"
    by (induction xs arbitrary: n) auto
  then show ?thesis by (simp add: globalItemCount_def)
qed

lemma older_Some: "older (Some s) x = Some (if updated_at_ms x < updated_at_ms s then x else s)"
  by (simp add: older_def)

lemma older_None: "older None x = Some x"
  by (simp add: older_def)

lemma foldl_older:
  "foldl older (Some s) xs = Some r \<Longrightarrow>
     r \<in> insert s (set xs) \<and> (\<forall>x \<in> insert s (set xs). updated_at_ms r \<le> updated_at_ms x)"
proof (induction xs arbitrary: s)
  case Nil
  then show ?case by simp
next
  case (Cons x xs)
  then have "foldl older (Some (if updated_at_ms x < updated_at_ms s then x else s)) xs = Some r"
    by (simp add: older_Some)
  from Cons.IH [OF this] show ?case by (auto split: if_splits)
qed

lemma foldl_older_Some: "\<exists>r. foldl older (Some s) xs = Some r"
proof (induction xs arbitrary: s)
  case (Cons x xs)
  then show ?case by (simp add: older_Some older_None)
qed simp

lemma oldestSession_Some:
  "oldestSession m = Some r \<Longrightarrow> r \<in> snd ` set m \<and> (\<forall>x \<in> snd ` set m. updated_at_ms r \<le> updated_at_ms x)"
proof (cases m)
  case (Cons p ps)
  assume "oldestSession m = Some r"
  then have "foldl older (Some (snd p)) (map snd ps) = Some r"
    by (simp add: oldestSession_def older_Some older_None Cons)
  from foldl_older [OF this] show ?thesis by (auto simp: Cons)
qed (simp add: oldestSession_def)

lemma oldestSession_None: "oldestSession m = None \<longleftrightarrow> m = []"
proof (cases m)
  case (Cons p ps)
  then show ?thesis
    using foldl_older_Some [of "snd p" "map snd ps"] by (auto simp: oldestSession_def older_Some older_None)
qed (simp add: oldestSession_def)

text \<open>On a tie the earlier session is the oldest: the last session is chosen only when it is
  strictly older than every other.\<close>

lemma foldl_older_last:
  "foldl older (Some s) (xs @ [l]) = Some r \<Longrightarrow> updated_at_ms s \<le> updated_at_ms l \<Longrightarrow>
     r \<in> insert s (set xs)"
  using foldl_older_Some [of s xs] foldl_older [of s xs]
  by (force simp: older_Some older_None split: if_splits)

lemma oldestSession_not_last:
  assumes "oldestSession (m @ [(k, l)]) = Some r" "m \<noteq> []"
    and "\<forall>s \<in> snd ` set m. updated_at_ms s \<le> updated_at_ms l"
  shows "r \<in> snd ` set m"
proof (cases m)
  case (Cons p ps)
  then have "foldl older (Some (snd p)) (map snd ps @ [l]) = Some r"
    using assms(1) by (simp add: oldestSession_def older_Some older_None)
  from foldl_older_last [OF this] assms(3) show ?thesis by (auto simp: Cons)
qed (use assms in simp)

subsection \<open>Updates and deletions, counted\<close>

lemma globalItemCount_Nil [simp]: "globalItemCount [] = 0"
  by (simp add: globalItemCount_eq)

lemma globalItemCount_Cons [simp]:
  "globalItemCount ((k, s) # m) = length (items s) + globalItemCount m"
  by (simp add: globalItemCount_eq)

lemma count_update:
  "map_of m k = Some s \<Longrightarrow>
     globalItemCount (AList.update k s' m) + length (items s) = globalItemCount m + length (items s')"
  by (induction m) (auto split: if_splits)

lemma count_update_new:
  "map_of m k = None \<Longrightarrow> globalItemCount (AList.update k s' m) = globalItemCount m + length (items s')"
  by (induction m) (auto split: if_splits)

lemma delete_none: "map_of m k = None \<Longrightarrow> AList.delete k m = m"
  by (induction m) (auto split: if_splits)

lemma count_delete:
  "distinct (map fst m) \<Longrightarrow> map_of m k = Some s \<Longrightarrow>
     globalItemCount (AList.delete k m) + length (items s) = globalItemCount m"
  by (induction m) (auto simp: delete_none map_of_eq_None_iff split: if_splits)

lemma count_delete_le: "globalItemCount (AList.delete k m) \<le> globalItemCount m"
  by (induction m) auto

lemma length_update:
  "length (AList.update k s m) = (if map_of m k = None then Suc (length m) else length m)"
  by (induction m) auto

lemma length_delete:
  "distinct (map fst m) \<Longrightarrow> map_of m k = Some s \<Longrightarrow> Suc (length (AList.delete k m)) = length m"
  by (induction m) (auto simp: delete_none map_of_eq_None_iff split: if_splits)

lemma length_delete_le: "length (AList.delete k m) \<le> length m"
  by (induction m) auto

lemma wf_distinct: "wf_sessions m \<Longrightarrow> distinct (map fst m)"
  by (simp add: wf_sessions_def)

lemma wf_map_of: "wf_sessions m \<Longrightarrow> s \<in> snd ` set m \<Longrightarrow> map_of m (key_text (scope_of s)) = Some s"
  by (auto simp: wf_sessions_def)

lemma wf_map_ofD:
  "wf_sessions m \<Longrightarrow> map_of m k = Some s \<Longrightarrow>
     s \<in> snd ` set m \<and> k = key_text (scope_of s) \<and> normalized (scope_of s) \<and> items s \<noteq> []"
  by (force simp: wf_sessions_def dest: map_of_SomeD)

lemma set_delete: "set (AList.delete k m) \<subseteq> set m"
  by (induction m) auto

lemma wf_delete: "wf_sessions m \<Longrightarrow> wf_sessions (AList.delete k m)"
  using set_delete [of k m] by (auto simp: wf_sessions_def map_fst_delete)

lemma set_update: "set (AList.update k s m) \<subseteq> insert (k, s) (set m)"
  by (induction m) auto

lemma wf_update:
  assumes "wf_sessions m" "items s \<noteq> []" "normalized (scope_of s)" "k = key_text (scope_of s)"
  shows "wf_sessions (AList.update k s m)"
  using assms set_update [of k s m] unfolding wf_sessions_def
  by (auto intro: distinct_update)

lemma items_at_update: "items_at (AList.update k s m) k' = (if k' = k then items s else items_at m k')"
  by (simp add: items_at_def update_conv')

lemma items_at_delete: "items_at (AList.delete k m) k' = (if k' = k then [] else items_at m k')"
  by (simp add: items_at_def delete_conv')

lemma items_at_length: "length (items_at m k) \<le> globalItemCount m"
proof (cases "map_of m k")
  case (Some s)
  then have "s \<in> set (map snd m)" by (force dest: map_of_SomeD)
  then have "length (items s) \<le> (\<Sum>s\<leftarrow>map snd m. length (items s))" by (rule sum_list_member_le)
  with Some show ?thesis by (simp add: items_at_def globalItemCount_eq)
qed (simp add: items_at_def)

subsection \<open>One turn of each loop\<close>

lemma update_delete_same: "AList.delete k (AList.update k s m) = AList.delete k m"
  by (induction m) auto

lemma shift_oldest_eq:
  "shift_oldest m s =
     (if tl (items s) = [] then AList.delete (key_text (scope_of s)) m
      else AList.update (key_text (scope_of s)) (s\<lparr>items := tl (items s)\<rparr>) m)"
  by (simp add: shift_oldest_def deleteIfEmpty_def Let_def update_delete_same)

lemma shift_wf:
  assumes "wf_sessions m" "s \<in> snd ` set m"
  shows "wf_sessions (shift_oldest m s)"
  using assms by (auto simp: shift_oldest_eq wf_delete wf_sessions_def [of m] intro!: wf_update)

lemma shift_items_at:
  "items_at (shift_oldest m s) k = (if k = key_text (scope_of s) then tl (items s) else items_at m k)"
  by (simp add: shift_oldest_eq items_at_update items_at_delete)

lemma shift_count:
  assumes wf: "wf_sessions m" and s: "s \<in> snd ` set m"
  shows "Suc (globalItemCount (shift_oldest m s)) = globalItemCount m"
proof -
  have m: "map_of m (key_text (scope_of s)) = Some s" by (rule wf_map_of [OF wf s])
  have "items s \<noteq> []" using wf s by (auto simp: wf_sessions_def)
  then show ?thesis
    using count_update [OF m, of "s\<lparr>items := tl (items s)\<rparr>"] count_delete [OF _ m] wf
    by (cases "items s") (auto simp: shift_oldest_eq wf_sessions_def)
qed

lemma shift_length:
  assumes "wf_sessions m" "s \<in> snd ` set m"
  shows "length (shift_oldest m s) \<le> length m"
  using wf_map_of [OF assms] by (simp add: shift_oldest_eq length_update length_delete_le)

subsection \<open>The loops\<close>

text \<open>The oldest session of a well-formed map is one of its sessions, stored under its key.\<close>

lemma oldest_in: "oldestSession m = Some s \<Longrightarrow> s \<in> snd ` set m"
  using oldestSession_Some by blast

lemma shed_items_bound:
  "wf_sessions m \<Longrightarrow> globalItemCount m \<le> fuel \<Longrightarrow>
     wf_sessions (fst (shed_items fuel limit m)) \<and>
     globalItemCount (fst (shed_items fuel limit m)) \<le> limit \<and>
     length (fst (shed_items fuel limit m)) \<le> length m \<and>
     (\<forall>k. suffix (items_at (fst (shed_items fuel limit m)) k) (items_at m k))"
proof (induction fuel limit m rule: shed_items.induct)
  case (1 limit m)
  then show ?case by simp
next
  case (2 fuel limit m)
  show ?case
  proof (cases "globalItemCount m > limit")
    case True
    then have "m \<noteq> []" by auto
    then obtain s where s: "oldestSession m = Some s" using oldestSession_None [of m] by auto
    note s' = oldest_in [OF s]
    let ?m = "shift_oldest m s"
    have IH: "wf_sessions (fst (shed_items fuel limit ?m)) \<and>
       globalItemCount (fst (shed_items fuel limit ?m)) \<le> limit \<and>
       length (fst (shed_items fuel limit ?m)) \<le> length ?m \<and>
       (\<forall>k. suffix (items_at (fst (shed_items fuel limit ?m)) k) (items_at ?m k))"
      using 2 True s shift_wf [OF 2(2) s'] shift_count [OF 2(2) s'] by simp
    have suf: "suffix (items_at ?m k) (items_at m k)" for k
      using wf_map_of [OF 2(2) s'] by (simp add: shift_items_at) (simp add: items_at_def)
    have len: "length ?m \<le> length m" by (rule shift_length [OF 2(2) s'])
    have step: "fst (shed_items (Suc fuel) limit m) = fst (shed_items fuel limit ?m)"
      using True s by (simp add: split_beta)
    show ?thesis
      unfolding step
    proof (intro conjI allI)
      show "length (fst (shed_items fuel limit ?m)) \<le> length m"
        using IH len by linarith
      show "suffix (items_at (fst (shed_items fuel limit ?m)) k) (items_at m k)" for k
        using IH suf [of k] by (blast intro: suffix_order.order_trans)
    qed (use IH in blast)+
  qed (use 2 in simp)
qed

lemma shed_sessions_bound:
  "wf_sessions m \<Longrightarrow> length m \<le> fuel \<Longrightarrow>
     wf_sessions (fst (shed_sessions fuel limit m)) \<and>
     length (fst (shed_sessions fuel limit m)) \<le> limit \<and>
     globalItemCount (fst (shed_sessions fuel limit m)) \<le> globalItemCount m \<and>
     (\<forall>k. items_at (fst (shed_sessions fuel limit m)) k \<in> {[], items_at m k})"
proof (induction fuel limit m rule: shed_sessions.induct)
  case (1 limit m)
  then show ?case by simp
next
  case (2 fuel limit m)
  show ?case
  proof (cases "length m > limit")
    case True
    then have "m \<noteq> []" by auto
    then obtain s where s: "oldestSession m = Some s" using oldestSession_None [of m] by auto
    note s' = oldest_in [OF s]
    let ?m = "AList.delete (key_text (scope_of s)) m"
    have "Suc (length ?m) = length m"
      by (rule length_delete [OF wf_distinct [OF 2(2)] wf_map_of [OF 2(2) s']])
    then have le: "length ?m \<le> fuel" using 2(3) by simp
    have IH: "wf_sessions (fst (shed_sessions fuel limit ?m)) \<and>
       length (fst (shed_sessions fuel limit ?m)) \<le> limit \<and>
       globalItemCount (fst (shed_sessions fuel limit ?m)) \<le> globalItemCount ?m \<and>
       (\<forall>k. items_at (fst (shed_sessions fuel limit ?m)) k \<in> {[], items_at ?m k})"
      by (rule 2(1) [OF True s wf_delete [OF 2(2)] le])
    have step: "fst (shed_sessions (Suc fuel) limit m) = fst (shed_sessions fuel limit ?m)"
      using True s by (simp add: split_beta)
    show ?thesis
      unfolding step
    proof (intro conjI allI)
      show "globalItemCount (fst (shed_sessions fuel limit ?m)) \<le> globalItemCount m"
        using IH count_delete_le [of "key_text (scope_of s)" m] by linarith
      show "items_at (fst (shed_sessions fuel limit ?m)) k \<in> {[], items_at m k}" for k
        using IH items_at_delete [of "key_text (scope_of s)" m k]
        by (metis insert_iff singletonD)
    qed (use IH in blast)+
  qed (use 2 in simp)
qed

text \<open>Any fuel from the number of items, or of sessions, on gives the same result.\<close>

lemma shed_items_enough:
  "wf_sessions m \<Longrightarrow> globalItemCount m \<le> f \<Longrightarrow> globalItemCount m \<le> g \<Longrightarrow>
     shed_items f limit m = shed_items g limit m"
proof (induction f limit m arbitrary: g rule: shed_items.induct)
  case (1 limit m)
  then show ?case by (cases g) auto
next
  case (2 f limit m)
  show ?case
  proof (cases "globalItemCount m > limit")
    case True
    then have "m \<noteq> []" by auto
    then obtain s where s: "oldestSession m = Some s" using oldestSession_None [of m] by auto
    note s' = oldest_in [OF s]
    obtain g' where g: "g = Suc g'" using True 2(4) by (cases g) auto
    have "shed_items f limit (shift_oldest m s) = shed_items g' limit (shift_oldest m s)"
      using 2 g shift_count [OF 2(2) s'] by (intro 2(1) [OF True s shift_wf [OF 2(2) s']]) auto
    then show ?thesis using True s g by simp
  qed (cases g, simp_all)
qed

lemma shed_sessions_enough:
  "wf_sessions m \<Longrightarrow> length m \<le> f \<Longrightarrow> length m \<le> g \<Longrightarrow>
     shed_sessions f limit m = shed_sessions g limit m"
proof (induction f limit m arbitrary: g rule: shed_sessions.induct)
  case (1 limit m)
  then show ?case by (cases g) auto
next
  case (2 f limit m)
  show ?case
  proof (cases "length m > limit")
    case True
    then have "m \<noteq> []" by auto
    then obtain s where s: "oldestSession m = Some s" using oldestSession_None [of m] by auto
    obtain g' where g: "g = Suc g'" using True 2(4) by (cases g) auto
    have "Suc (length (AList.delete (key_text (scope_of s)) m)) = length m"
      by (rule length_delete [OF wf_distinct [OF 2(2)] wf_map_of [OF 2(2) oldest_in [OF s]]])
    then have "shed_sessions f limit (AList.delete (key_text (scope_of s)) m) =
        shed_sessions g' limit (AList.delete (key_text (scope_of s)) m)"
      using 2 g by (intro 2(1) [OF True s wf_delete [OF 2(2)]]) auto
    then show ?thesis using True s g by simp
  qed (cases g, simp_all)
qed

text \<open>One over the limit, one turn.\<close>

lemma shed_items_none: "globalItemCount m \<le> limit \<Longrightarrow> shed_items fuel limit m = (m, [])"
  by (cases fuel) auto

lemma shed_items_one:
  assumes "wf_sessions m" "globalItemCount m = Suc limit" "oldestSession m = Some s" "0 < fuel"
  shows "shed_items fuel limit m = (shift_oldest m s, [(scope_of s, Some (hd (items s)))])"
proof -
  obtain f where f: "fuel = Suc f" using assms(4) by (cases fuel) auto
  have "globalItemCount (shift_oldest m s) \<le> limit"
    using shift_count [OF assms(1) oldest_in [OF assms(3)]] assms(2) by simp
  moreover have "items s \<noteq> []"
    using oldest_in [OF assms(3)] assms(1) by (auto simp: wf_sessions_def)
  ultimately show ?thesis using assms(2,3) f by (simp add: shed_items_none)
qed

lemma shed_sessions_none: "length m \<le> limit \<Longrightarrow> shed_sessions fuel limit m = (m, [])"
  by (cases fuel) auto

lemma shed_sessions_one:
  assumes "wf_sessions m" "length m = Suc limit" "oldestSession m = Some s" "0 < fuel"
  shows "shed_sessions fuel limit m = (AList.delete (key_text (scope_of s)) m, [s])"
proof -
  obtain f where f: "fuel = Suc f" using assms(4) by (cases fuel) auto
  have "length (AList.delete (key_text (scope_of s)) m) = limit"
    using length_delete [OF wf_distinct [OF assms(1)] wf_map_of [OF assms(1) oldest_in [OF assms(3)]]]
      assms(2) by simp
  then show ?thesis using assms(2,3) f by (simp add: shed_sessions_none)
qed

declare shed_items.simps [simp del] shed_sessions.simps [simp del]

lemma shed_fuel_pos: "m \<noteq> [] \<Longrightarrow> 0 < shed_fuel m"
  by (simp add: shed_fuel_def)

subsection \<open>Pushing one item onto a bounded map\<close>

definition bounded_sessions :: "nat \<Rightarrow> nat \<Rightarrow> nat \<Rightarrow> 'i sessions \<Rightarrow> bool" where
  "bounded_sessions per_session global sessions m = (wf_sessions m \<and>
     (\<forall>k. length (items_at m k) \<le> per_session) \<and> globalItemCount m \<le> global \<and> length m \<le> sessions)"

text \<open>The three trims one after the other, as both stores run them after a push.\<close>

definition cut_session :: "nat \<Rightarrow> 'i session \<Rightarrow> 'i session" where
  "cut_session per_session s = s\<lparr>items := drop (length (items s) - per_session) (items s)\<rparr>"

definition shed_all :: "nat \<Rightarrow> nat \<Rightarrow> 'i sessions \<Rightarrow> 'i sessions" where
  "shed_all global sessions m =
     (let m' = fst (shed_items (shed_fuel m) global m)
      in fst (shed_sessions (shed_fuel m') sessions m'))"

lemma update_update: "AList.update k b (AList.update k a m) = AList.update k b m"
  by (induction m) auto

lemma update_append:
  "AList.update k v (xs @ ys) = (if k \<in> set (map fst xs) then AList.update k v xs @ ys
     else xs @ AList.update k v ys)"
  by (induction xs) auto

lemma update_new: "map_of m k = None \<Longrightarrow> AList.update k v m = m @ [(k, v)]"
  by (induction m) (auto split: if_splits)

lemma delete_append: "AList.delete k (xs @ ys) = AList.delete k xs @ AList.delete k ys"
  by (induction xs) auto

lemma shift_append:
  assumes "wf_sessions (m @ [(k, l)])" "s \<in> snd ` set m"
  shows "shift_oldest (m @ [(k, l)]) s = shift_oldest m s @ [(k, l)]"
proof -
  have m: "wf_sessions m" using assms(1) by (simp add: wf_sessions_def)
  have "(key_text (scope_of s), s) \<in> set m"
    by (rule map_of_SomeD [OF wf_map_of [OF m assms(2)]])
  then have "key_text (scope_of s) \<in> set (map fst m)" by force
  moreover have "k \<notin> set (map fst m)" using assms(1) by (auto simp: wf_sessions_def)
  ultimately show ?thesis by (auto simp: shift_oldest_eq update_append delete_append)
qed

lemma shift_updated:
  assumes "s \<in> snd ` set m" "s' \<in> snd ` set (shift_oldest m s)"
  shows "\<exists>s0 \<in> snd ` set m. updated_at_ms s0 = updated_at_ms s'"
proof -
  obtain k where k: "(k, s') \<in> set (shift_oldest m s)" using assms(2) by auto
  then have "(k, s') \<in> insert (key_text (scope_of s), s\<lparr>items := tl (items s)\<rparr>) (set m)"
    using set_update [of "key_text (scope_of s)" "s\<lparr>items := tl (items s)\<rparr>" m]
      set_delete [of "key_text (scope_of s)" m]
    unfolding shift_oldest_eq by (auto split: if_splits)
  then show ?thesis using assms(1) by (auto intro: rev_bexI)
qed

lemma shed_all_bounded:
  assumes "wf_sessions m" "\<forall>k. length (items_at m k) \<le> per_session"
  shows "bounded_sessions per_session global sessions (shed_all global sessions m) \<and>
    (\<forall>k. suffix (items_at (shed_all global sessions m) k) (items_at m k))"
proof -
  let ?m' = "fst (shed_items (shed_fuel m) global m)"
  note g = shed_items_bound [OF assms(1), of "shed_fuel m" global, unfolded shed_fuel_def, simplified,
      folded shed_fuel_def]
  have s: "wf_sessions (shed_all global sessions m) \<and> length (shed_all global sessions m) \<le> sessions \<and>
       globalItemCount (shed_all global sessions m) \<le> globalItemCount ?m' \<and>
       (\<forall>k. items_at (shed_all global sessions m) k \<in> {[], items_at ?m' k})"
    unfolding shed_all_def Let_def using g
    by (intro shed_sessions_bound) (auto simp: shed_fuel_def)
  have suf: "suffix (items_at (shed_all global sessions m) k) (items_at m k)" for k
    using s g by (metis Nil_suffix insertE singletonD)
  have "length (items_at (shed_all global sessions m) k) \<le> per_session" for k
    using suffix_length_le [OF suf [of k]] assms(2) le_trans by blast
  with s g suf show ?thesis
    unfolding bounded_sessions_def by (meson le_trans)
qed

text \<open>
  The pushed item survives: the push overshoots each limit by at most one, and when its own
  session is the oldest it is so by a tie that an earlier session wins. The clock must not have
  run backwards.
\<close>

lemma pushed_new_survives:
  assumes b: "bounded_sessions per_session global sessions m" and k: "map_of m k = None"
    and l: "items l = [i]" "scope_of l = sc" "k = key_text sc" "normalized sc"
    and clock: "\<forall>s \<in> snd ` set m. updated_at_ms s \<le> updated_at_ms l"
    and pos: "0 < global" "0 < sessions"
  shows "map_of (shed_all global sessions (m @ [(k, l)])) k = Some l"
proof -
  let ?m = "m @ [(k, l)]"
  have kn: "k \<notin> set (map fst m)" using k by (simp add: map_of_eq_None_iff)
  have wf: "wf_sessions ?m" using b l kn by (auto simp: bounded_sessions_def wf_sessions_def)
  have gc: "globalItemCount ?m = globalItemCount m + 1"
    by (simp add: globalItemCount_eq l)
  obtain m' where m': "fst (shed_items (shed_fuel ?m) global ?m) = m' @ [(k, l)]"
    "length m' \<le> length m" "\<forall>s \<in> snd ` set m'. updated_at_ms s \<le> updated_at_ms l"
    "wf_sessions (m' @ [(k, l)])"
  proof (cases "globalItemCount ?m \<le> global")
    case True
    then show ?thesis using that [of m] clock wf by (simp add: shed_items_none)
  next
    case False
    then have g: "globalItemCount ?m = Suc global" using gc b by (simp add: bounded_sessions_def)
    then have "m \<noteq> []" using gc pos by auto
    obtain s where s: "oldestSession ?m = Some s" using oldestSession_None [of ?m] by auto
    have sm: "s \<in> snd ` set m" by (rule oldestSession_not_last [OF s \<open>m \<noteq> []\<close> clock])
    have wm: "wf_sessions m" using b by (simp add: bounded_sessions_def)
    have "fst (shed_items (shed_fuel ?m) global ?m) = shift_oldest m s @ [(k, l)]"
      using shed_items_one [OF wf g s shed_fuel_pos [of ?m]] shift_append [OF wf sm] by simp
    moreover have "\<forall>s' \<in> snd ` set (shift_oldest m s). updated_at_ms s' \<le> updated_at_ms l"
      using clock shift_updated [OF sm] by fastforce
    moreover have "wf_sessions (shift_oldest m s @ [(k, l)])"
      using shift_wf [OF wf, of s] sm shift_append [OF wf sm] by auto
    ultimately show ?thesis using that [of "shift_oldest m s"] shift_length [OF wm sm] by blast
  qed
  let ?m2 = "m' @ [(k, l)]"
  have kn': "k \<notin> set (map fst m')" using wf_distinct [OF m'(4)] by simp
  then have kn2: "map_of m' k = None" by (simp add: map_of_eq_None_iff)
  show ?thesis
  proof (cases "length ?m2 \<le> sessions")
    case True
    then show ?thesis 
      by (simp add: shed_all_def Let_def m'(1) shed_sessions_none map_add_def kn2)
  next
    case False
    then have ls: "length ?m2 = Suc sessions" using m'(2) b by (simp add: bounded_sessions_def)
    then have "m' \<noteq> []" using pos by auto
    obtain s where s: "oldestSession ?m2 = Some s" using oldestSession_None [of ?m2] by auto
    have sm: "s \<in> snd ` set m'" by (rule oldestSession_not_last [OF s \<open>m' \<noteq> []\<close> m'(3)])
    then have "key_text (scope_of s) \<noteq> k"
      using m'(4) kn' by (force simp: wf_sessions_def)
    then show ?thesis
      using shed_sessions_one [OF m'(4) ls s shed_fuel_pos [of ?m2]]
      by (simp add: shed_all_def Let_def m'(1) delete_append delete_conv' map_add_def kn2)
  qed
qed

definition push_session :: "'i sessions \<Rightarrow> scope \<Rightarrow> 'i \<Rightarrow> int \<Rightarrow> 'i session" where
  "push_session m sc i now =
     \<lparr>scope_of = sc, items = items_at m (key_text sc) @ [i], updated_at_ms = now\<rparr>"

definition push_shed :: "nat \<Rightarrow> nat \<Rightarrow> nat \<Rightarrow> 'i sessions \<Rightarrow> scope \<Rightarrow> 'i \<Rightarrow> int \<Rightarrow> 'i sessions" where
  "push_shed per_session global sessions m sc i now =
     shed_all global sessions
       (AList.update (key_text sc) (cut_session per_session (push_session m sc i now)) m)"

lemma push_wf:
  assumes "wf_sessions m" "normalized sc" "0 < per_session"
  shows "wf_sessions (AList.update (key_text sc) (cut_session per_session (push_session m sc i now)) m)"
  using assms by (intro wf_update) (auto simp: cut_session_def push_session_def)

lemma push_shed_bounded:
  assumes "bounded_sessions per_session global sessions m" "normalized sc" "0 < per_session"
  shows "bounded_sessions per_session global sessions (push_shed per_session global sessions m sc i now)"
    and "suffix (items_at (push_shed per_session global sessions m sc i now) k)
      (if k = key_text sc then items_at m k @ [i] else items_at m k)"
proof -
  let ?m = "AList.update (key_text sc) (cut_session per_session (push_session m sc i now)) m"
  have at: "items_at ?m k = (if k = key_text sc
      then drop (Suc (length (items_at m k)) - per_session) (items_at m k @ [i]) else items_at m k)" for k
    by (simp add: items_at_update cut_session_def push_session_def)
  have "\<forall>k. length (items_at ?m k) \<le> per_session"
    using assms(1) by (auto simp: at bounded_sessions_def)
  note b = shed_all_bounded [OF push_wf [OF _ assms(2,3)] this, of global sessions]
  show "bounded_sessions per_session global sessions (push_shed per_session global sessions m sc i now)"
    using b assms(1) by (simp add: push_shed_def bounded_sessions_def)
  have "suffix (items_at (push_shed per_session global sessions m sc i now) k) (items_at ?m k)"
    using b assms(1) by (simp add: push_shed_def bounded_sessions_def)
  moreover have "suffix (items_at ?m k) (if k = key_text sc then items_at m k @ [i] else items_at m k)"
    unfolding at by (simp only: suffix_drop suffix_order.order_refl split: if_split) simp
  ultimately show "suffix (items_at (push_shed per_session global sessions m sc i now) k)
      (if k = key_text sc then items_at m k @ [i] else items_at m k)"
    by (rule suffix_order.order_trans)
qed

lemma push_survives:
  assumes b: "bounded_sessions per_session global sessions m" and sc: "normalized sc"
    and clock: "\<forall>s \<in> snd ` set m. updated_at_ms s \<le> now"
    and pos: "0 < per_session" "0 < global" "0 < sessions"
  shows "\<exists>xs. items_at (push_shed per_session global sessions m sc i now) (key_text sc) = xs @ [i]"
proof (cases "map_of m (key_text sc)")
  case None
  then have e: "items_at m (key_text sc) = []" by (simp add: items_at_def)
  let ?l = "\<lparr>scope_of = sc, items = [i], updated_at_ms = now\<rparr>"
  have "cut_session per_session (push_session m sc i now) = ?l"
    using pos e by (simp add: cut_session_def push_session_def)
  then have "map_of (push_shed per_session global sessions m sc i now) (key_text sc) = Some ?l"
    using pushed_new_survives [OF b None, of ?l i sc] sc clock pos
    by (simp add: push_shed_def update_new [OF None])
  then show ?thesis by (simp add: items_at_def)
next
  case (Some s0)
  let ?c = "cut_session per_session (push_session m sc i now)"
  let ?m = "AList.update (key_text sc) ?c m"
  have wf: "wf_sessions m" using b by (simp add: bounded_sessions_def)
  have wfm: "wf_sessions ?m" by (rule push_wf [OF wf sc pos(1)])
  have at0: "items_at m (key_text sc) = items s0" "items s0 \<noteq> []"
    using Some wf_map_ofD [OF wf Some] by (simp_all add: items_at_def)
  have len: "length ?m \<le> sessions" using b Some by (simp add: bounded_sessions_def length_update)
  obtain ys where ys: "items ?c = ys @ [i]" "length (items ?c) \<le> per_session"
    "length (items ?c) = Suc (length (items s0)) \<or> length (items ?c) \<le> length (items s0)"
  proof -
    have "items ?c = drop (Suc (length (items s0)) - per_session) (items s0) @ [i]"
      using pos at0 by (simp add: cut_session_def push_session_def)
    with that show thesis using pos by simp linarith
  qed
  note cnt = count_update [OF Some, of ?c]
  let ?g = "fst (shed_items (shed_fuel ?m) global ?m)"
  have "length ?g \<le> sessions \<and> (\<exists>xs. items_at ?g (key_text sc) = xs @ [i])"
  proof (cases "globalItemCount ?m \<le> global")
    case True
    then show ?thesis using len ys by (simp add: shed_items_none items_at_update)
  next
    case False
    then have g: "globalItemCount ?m = Suc global" "length (items ?c) = Suc (length (items s0))"
      using cnt ys b by (auto simp: bounded_sessions_def)
    have ne: "?m \<noteq> []" using False by auto
    obtain s where s: "oldestSession ?m = Some s" using oldestSession_None [of ?m] ne by auto
    have "?g = shift_oldest ?m s"
      using shed_items_one [OF wfm g(1) s shed_fuel_pos [OF ne]] by simp
    moreover have "s = ?c" if "key_text (scope_of s) = key_text sc"
      using wf_map_of [OF wfm oldest_in [OF s]] that by (simp add: update_conv')
    moreover have "\<exists>xs. tl (items ?c) = xs @ [i]"
      using ys(1) g(2) at0(2) by (cases ys) auto
    ultimately show ?thesis
      using len shift_length [OF wfm oldest_in [OF s]] ys(1)
      by (auto simp: shift_items_at items_at_update)
  qed
  then show ?thesis
    by (simp add: push_shed_def shed_all_def Let_def shed_sessions_none)
qed

text \<open>Shedding keeps a bound on the time stamps.\<close>

definition updated_by :: "int \<Rightarrow> 'i sessions \<Rightarrow> bool" where
  "updated_by t m = (\<forall>s \<in> snd ` set m. updated_at_ms s \<le> t)"

lemma updated_by_delete: "updated_by t m \<Longrightarrow> updated_by t (AList.delete k m)"
  using set_delete [of k m] by (auto simp: updated_by_def)

lemma updated_by_update: "updated_by t m \<Longrightarrow> updated_at_ms s \<le> t \<Longrightarrow> updated_by t (AList.update k s m)"
  using set_update [of k s m] by (force simp: updated_by_def)

lemma updated_by_shift: "updated_by t m \<Longrightarrow> s \<in> snd ` set m \<Longrightarrow> updated_by t (shift_oldest m s)"
  unfolding updated_by_def by (metis shift_updated)

lemma updated_by_shed_items: "updated_by t m \<Longrightarrow> updated_by t (fst (shed_items fuel limit m))"
proof (induction fuel limit m rule: shed_items.induct)
  case (2 fuel limit m)
  then show ?case
    by (auto simp: shed_items.simps(2) split_beta updated_by_shift oldest_in split: option.split)
qed (simp add: shed_items.simps)

lemma updated_by_shed_sessions: "updated_by t m \<Longrightarrow> updated_by t (fst (shed_sessions fuel limit m))"
proof (induction fuel limit m rule: shed_sessions.induct)
  case (2 fuel limit m)
  then show ?case
    by (auto simp: shed_sessions.simps(2) split_beta updated_by_delete split: option.split)
qed (simp add: shed_sessions.simps)

lemma updated_by_push_shed:
  "updated_by t m \<Longrightarrow> now \<le> t \<Longrightarrow> updated_by t (push_shed per_session global sessions m sc i now)"
  by (simp add: push_shed_def shed_all_def Let_def updated_by_shed_sessions updated_by_shed_items
      updated_by_update cut_session_def push_session_def)

lemma updated_by_mono: "updated_by t m \<Longrightarrow> t \<le> t' \<Longrightarrow> updated_by t' m"
  by (force simp: updated_by_def)

lemma suffix_filterI: "suffix xs ys \<Longrightarrow> suffix (filter P xs) (filter P ys)"
  by (metis filter_append suffix_def)

end
