(* ===== verification/WorkingSet.thy ===== *)
theory WorkingSet
  imports Sessions
begin

text \<open>
  The in-memory working set (\<open>server/realtime/working-set.ts\<close>): append with its screening,
  the expiry before every operation, the three trims, and the fragment the context pack reads.
  The store is threaded; a throw is \<open>Inl\<close> beside the state it leaves. The sessions of the
  map are aliased objects in the code and are updated in the map here.
\<close>

subsection \<open>Items\<close>

text \<open>Metadata \<open>JSON.stringify\<close> throws on (a cycle, a bigint) is \<open>Unserializable\<close>.\<close>

datatype metadata_value = Serializable json_object | Unserializable

record stored_item =
  item_id :: string
  content :: string
  trace_id :: "string option"
  source_ref :: "string option"
  metadata :: metadata_value
  created_at :: int
  expires_at :: int

record ws_item = stored_item +
  kind :: string
  confidence :: "string option"
  stale_at :: "string option"
  durable_ref :: "(string \<times> string) option"

record ws_input =
  in_id :: "string option"
  in_kind :: string
  in_content :: string
  in_confidence :: "string option"
  in_stale_at :: "string option"
  in_trace_id :: "string option"
  in_source_ref :: "string option"
  in_durable_ref :: "(string \<times> string) option"
  in_metadata :: "metadata_value option"

record ws_budget = session_budget +
  max_item_chars :: nat

record counters =
  dropped :: nat
  expired :: nat
  trimmed :: nat

record ws_store =
  ws_sessions :: "ws_item sessions"
  ws_counters :: counters
  ws_nextId :: nat

definition WORKING_SET_ITEM_KINDS :: "string list" where
  "WORKING_SET_ITEM_KINDS = [''recent_event'', ''structured_event'', ''current_intent'',
     ''active_correction'', ''task_state'', ''linked_durable_ref'', ''next_turn_guidance'']"

definition DEFAULT_WORKING_SET_BUDGET :: ws_budget where
  "DEFAULT_WORKING_SET_BUDGET = \<lparr>ttl_ms = 1800000, max_sessions = 128, max_items_per_session = 24,
     max_global_items = 1024, max_metadata_chars = 2000, max_item_chars = 4000\<rparr>"

definition ws_init :: ws_store where
  "ws_init = \<lparr>ws_sessions = [], ws_counters = \<lparr>dropped = 0, expired = 0, trimmed = 0\<rparr>, ws_nextId = 1\<rparr>"

datatype ws_reject = Content_too_large | Empty_content | Invalid_kind | Metadata_too_large

datatype ws_result = Rejected ws_reject counters | Accepted ws_item counters

subsection \<open>Screening\<close>

definition serializedJsonLength :: "metadata_value \<Rightarrow> nat option" where
  "serializedJsonLength v =
     (case v of Unserializable \<Rightarrow> None | Serializable obj \<Rightarrow> Some (json_length (JObj obj)))"

definition or_else :: "'a option \<Rightarrow> 'a \<Rightarrow> 'a" where
  "or_else v d = (case v of Some x \<Rightarrow> x | None \<Rightarrow> d)"

definition screenWorkingSetInput :: "ws_budget \<Rightarrow> ws_input \<Rightarrow> ws_reject + (string \<times> metadata_value)" where
  "screenWorkingSetInput bud inp =
     (if in_kind inp \<notin> set WORKING_SET_ITEM_KINDS then Inl Invalid_kind
      else let text = trim (in_content inp) in
        if length text = 0 then Inl Empty_content
        else if length text > max_item_chars bud then Inl Content_too_large
        else let meta = or_else (in_metadata inp) (Serializable []) in
          case serializedJsonLength meta of
            None \<Rightarrow> Inl Metadata_too_large
          | Some n \<Rightarrow> if n > max_metadata_chars bud then Inl Metadata_too_large else Inr (text, meta))"

definition buildWorkingSetItem ::
  "ws_input \<Rightarrow> string \<times> metadata_value \<Rightarrow> string \<Rightarrow> int \<Rightarrow> int \<Rightarrow> ws_item" where
  "buildWorkingSetItem inp accepted ident now ttlMs =
     \<lparr>item_id = ident, content = fst accepted, trace_id = in_trace_id inp, source_ref = in_source_ref inp,
      metadata = snd accepted, created_at = now, expires_at = now + ttlMs, kind = in_kind inp,
      confidence = in_confidence inp, stale_at = in_stale_at inp, durable_ref = in_durable_ref inp\<rparr>"

subsection \<open>Expiry and trims\<close>

definition purge_session :: "int \<Rightarrow> ws_item session \<Rightarrow> ws_item session" where
  "purge_session now s = s\<lparr>items := filter (\<lambda>i. expires_at i > now) (items s)\<rparr>"

definition purgeExpired :: "ws_store \<Rightarrow> int \<Rightarrow> ws_store" where
  "purgeExpired st now =
     (let kept = map (\<lambda>(k, s). (k, purge_session now s)) (ws_sessions st)
      in st\<lparr>ws_sessions := filter (\<lambda>(k, s). items s \<noteq> []) kept,
            ws_counters := (ws_counters st)\<lparr>expired := expired (ws_counters st) +
              (globalItemCount (ws_sessions st) - globalItemCount kept)\<rparr>\<rparr>)"

definition count_trimmed :: "nat \<Rightarrow> ws_store \<Rightarrow> ws_store" where
  "count_trimmed n st =
     st\<lparr>ws_counters := (ws_counters st)\<lparr>trimmed := trimmed (ws_counters st) + n\<rparr>\<rparr>"

definition trimSession :: "ws_budget \<Rightarrow> string \<Rightarrow> ws_store \<Rightarrow> ws_store" where
  "trimSession bud key st =
     (case map_of (ws_sessions st) key of
        None \<Rightarrow> st
      | Some s \<Rightarrow>
          (let overflow = length (items s) - max_items_per_session bud
           in if overflow > 0
              then count_trimmed overflow
                (st\<lparr>ws_sessions := AList.update key (s\<lparr>items := drop overflow (items s)\<rparr>) (ws_sessions st)\<rparr>)
              else st))"

definition trimGlobal :: "ws_budget \<Rightarrow> ws_store \<Rightarrow> ws_store" where
  "trimGlobal bud st =
     (let (m, removed) = shed_items (shed_fuel (ws_sessions st)) (max_global_items bud) (ws_sessions st)
      in count_trimmed (length removed) (st\<lparr>ws_sessions := m\<rparr>))"

definition trimSessions :: "ws_budget \<Rightarrow> ws_store \<Rightarrow> ws_store" where
  "trimSessions bud st =
     (let (m, removed) = shed_sessions (shed_fuel (ws_sessions st)) (max_sessions bud) (ws_sessions st)
      in count_trimmed (sum_list (map (\<lambda>s. length (items s)) removed)) (st\<lparr>ws_sessions := m\<rparr>))"

subsection \<open>The operations\<close>

definition ws_append ::
  "ws_budget \<Rightarrow> ws_store \<Rightarrow> scope \<Rightarrow> ws_input \<Rightarrow> int \<Rightarrow> ws_store \<times> ws_result result" where
  "ws_append bud st sc inp now =
     (let st = purgeExpired st now in
      case screenWorkingSetInput bud inp of
        Inl why \<Rightarrow>
          (let st = st\<lparr>ws_counters := (ws_counters st)\<lparr>dropped := dropped (ws_counters st) + 1\<rparr>\<rparr>
           in (st, Inr (Rejected why (ws_counters st))))
      | Inr accepted \<Rightarrow>
          (case normalizeWorkingSetScope sc of
             Inl e \<Rightarrow> (st, Inl e)
           | Inr normal \<Rightarrow>
               (let key = key_text normal;
                    session = or_else (map_of (ws_sessions st) key)
                      \<lparr>scope_of = normal, items = [], updated_at_ms = now\<rparr>;
                    ident = or_else (in_id inp) (''ws-'' @ show_nat (ws_nextId st));
                    nextId = (if in_id inp = None then ws_nextId st + 1 else ws_nextId st);
                    item = buildWorkingSetItem inp accepted ident now (ttl_ms bud);
                    session = session\<lparr>items := items session @ [item], updated_at_ms := now\<rparr>;
                    st = st\<lparr>ws_nextId := nextId,
                            ws_sessions := AList.update key session (ws_sessions st)\<rparr>;
                    st = trimSessions bud (trimGlobal bud (trimSession bud key st))
                in (st, Inr (Accepted item (ws_counters st))))))"

definition scopeDenialsFor ::
  "(string \<Rightarrow> string) \<Rightarrow> ws_item sessions \<Rightarrow> scope \<Rightarrow> (string \<times> scope_field list) list" where
  "scopeDenialsFor sha256 m requested =
     map (\<lambda>(k, s). (workingSetScopeHash sha256 (scope_of s), compareWorkingSetScope requested (scope_of s)))
       (filter (\<lambda>(k, s). k \<noteq> key_text requested \<and> namespace (scope_of s) = namespace requested \<and>
          compareWorkingSetScope requested (scope_of s) \<noteq> []) m)"

record ws_fragment =
  exact_scope_required :: bool
  not_durable_memory :: bool
  frag_scope :: scope
  frag_items :: "ws_item list"
  item_count :: nat
  frag_budget :: ws_budget
  frag_counters :: counters
  scope_denials :: "(string \<times> scope_field list) list"

definition buildContextPackFragment ::
  "(string \<Rightarrow> string) \<Rightarrow> ws_budget \<Rightarrow> ws_store \<Rightarrow> scope \<Rightarrow> int \<Rightarrow> ws_store \<times> ws_fragment result" where
  "buildContextPackFragment sha256 bud st sc now =
     (let st = purgeExpired st now in
      case normalizeWorkingSetScope sc of
        Inl e \<Rightarrow> (st, Inl e)
      | Inr normal \<Rightarrow>
          (let its = (case map_of (ws_sessions st) (key_text normal) of None \<Rightarrow> [] | Some s \<Rightarrow> items s)
           in (st, Inr \<lparr>exact_scope_required = True, not_durable_memory = True, frag_scope = normal,
                  frag_items = its, item_count = length its, frag_budget = bud,
                  frag_counters = ws_counters st,
                  scope_denials = scopeDenialsFor sha256 (ws_sessions st) normal\<rparr>)))"

subsection \<open>Expiry\<close>

lemma map_of_purge:
  "distinct (map fst m) \<Longrightarrow>
   map_of (filter (\<lambda>(k, s). items s \<noteq> []) (map (\<lambda>(k, s). (k, purge_session now s)) m)) k =
     (case map_of m k of None \<Rightarrow> None
      | Some s \<Rightarrow> if items (purge_session now s) = [] then None else Some (purge_session now s))"
  by (induction m) (auto simp: map_of_eq_None_iff rev_image_eqI split: option.splits)

lemma purge_fields [simp]:
  "scope_of (purge_session now s) = scope_of s" "updated_at_ms (purge_session now s) = updated_at_ms s"
  "items (purge_session now s) = filter (\<lambda>i. expires_at i > now) (items s)"
  by (simp_all add: purge_session_def)

lemma purge_keys: "map fst (map (\<lambda>(k, s). (k, purge_session now s)) m) = map fst m"
  by (induction m) auto

lemma purge_wf:
  assumes "wf_sessions (ws_sessions st)"
  shows "wf_sessions (ws_sessions (purgeExpired st now))"
  unfolding wf_sessions_def
proof
  have "distinct (map fst (map (\<lambda>(k, s). (k, purge_session now s)) (ws_sessions st)))"
    using assms by (simp only: purge_keys wf_distinct)
  then show "distinct (map fst (ws_sessions (purgeExpired st now)))"
    unfolding purgeExpired_def Let_def by (simp add: distinct_map_filter)
qed (use assms in \<open>auto simp: wf_sessions_def purgeExpired_def Let_def\<close>)

lemma purge_items_at:
  "wf_sessions (ws_sessions st) \<Longrightarrow>
   items_at (ws_sessions (purgeExpired st now)) k =
     filter (\<lambda>i. expires_at i > now) (items_at (ws_sessions st) k)"
  using map_of_purge [OF wf_distinct, of "ws_sessions st" now k]
  by (auto simp: purgeExpired_def Let_def items_at_def split: option.splits)

lemma purge_count: "globalItemCount (ws_sessions (purgeExpired st now)) \<le> globalItemCount (ws_sessions st)"
proof -
  have "globalItemCount (filter (\<lambda>(k, s). items s \<noteq> []) (map (\<lambda>(k, s). (k, purge_session now s)) m))
      \<le> globalItemCount m" for m
    by (induction m) (auto intro!: add_le_mono length_filter_le)
  then show ?thesis by (simp add: purgeExpired_def Let_def)
qed

lemma purge_length: "length (ws_sessions (purgeExpired st now)) \<le> length (ws_sessions st)"
  using length_filter_le [of _ "map (\<lambda>(k, s). (k, purge_session now s)) (ws_sessions st)"]
  by (simp add: purgeExpired_def Let_def)

lemma purge_updated:
  "s \<in> snd ` set (ws_sessions (purgeExpired st now)) \<Longrightarrow>
     \<exists>s0 \<in> snd ` set (ws_sessions st). updated_at_ms s0 = updated_at_ms s \<and> scope_of s0 = scope_of s"
  by (force simp: purgeExpired_def Let_def)

lemma purge_nextId [simp]: "ws_nextId (purgeExpired st now) = ws_nextId st"
  by (simp add: purgeExpired_def Let_def)

subsection \<open>An accepted append is a push and three trims\<close>

definition sane_budget :: "'a session_budget_scheme \<Rightarrow> bool" where
  "sane_budget bud = (0 < max_items_per_session bud \<and> 0 < max_global_items bud \<and> 0 < max_sessions bud)"

lemma count_trimmed_sessions [simp]:
  "ws_sessions (count_trimmed n st) = ws_sessions st" "ws_nextId (count_trimmed n st) = ws_nextId st"
  by (simp_all add: count_trimmed_def)

lemma trims_sessions:
  "ws_sessions (trimSessions bud (trimGlobal bud st)) =
     shed_all (max_global_items bud) (max_sessions bud) (ws_sessions st)"
  by (simp add: trimSessions_def trimGlobal_def shed_all_def Let_def split_beta)

lemma trimSession_sessions:
  "map_of (ws_sessions st) key = Some s \<Longrightarrow>
   ws_sessions (trimSession bud key st) =
     (if max_items_per_session bud < length (items s)
      then AList.update key (cut_session (max_items_per_session bud) s) (ws_sessions st)
      else ws_sessions st)"
  by (auto simp: trimSession_def Let_def cut_session_def)

lemma push_session_eq:
  assumes "wf_sessions m" "normalized sc"
  shows "(or_else (map_of m (key_text sc)) \<lparr>scope_of = sc, items = [], updated_at_ms = t\<rparr>)
       \<lparr>items := items (or_else (map_of m (key_text sc)) \<lparr>scope_of = sc, items = [], updated_at_ms = t\<rparr>) @ [i],
        updated_at_ms := now\<rparr> = push_session m sc i now"
proof (cases "map_of m (key_text sc)")
  case (Some s)
  then have "scope_of s = sc" using wf_map_ofD [OF assms(1) Some] by (simp add: key_text_inj)
  then show ?thesis using Some by (simp add: or_else_def push_session_def items_at_def)
qed (simp add: or_else_def push_session_def items_at_def)

definition accepted_item :: "ws_budget \<Rightarrow> ws_store \<Rightarrow> ws_input \<Rightarrow> int \<Rightarrow> ws_item" where
  "accepted_item bud st inp now =
     buildWorkingSetItem inp
       (trim (in_content inp), or_else (in_metadata inp) (Serializable []))
       (or_else (in_id inp) (''ws-'' @ show_nat (ws_nextId st))) now (ttl_ms bud)"

lemma screen_Inr:
  "screenWorkingSetInput bud inp = Inr a \<Longrightarrow>
     a = (trim (in_content inp), or_else (in_metadata inp) (Serializable [])) \<and>
     in_kind inp \<in> set WORKING_SET_ITEM_KINDS \<and> trim (in_content inp) \<noteq> [] \<and>
     length (trim (in_content inp)) \<le> max_item_chars bud \<and>
     (\<exists>n. serializedJsonLength (or_else (in_metadata inp) (Serializable [])) = Some n \<and>
        n \<le> max_metadata_chars bud)"
  by (auto simp: screenWorkingSetInput_def Let_def split: if_splits option.splits)

lemma ws_append_cases:
  assumes "wf_sessions (ws_sessions st)" "ws_append bud st sc inp now = (st', r)"
  obtains (rejected) why where "screenWorkingSetInput bud inp = Inl why"
      "ws_sessions st' = ws_sessions (purgeExpired st now)" "r = Inr (Rejected why (ws_counters st'))"
    | (thrown) e where "normalizeWorkingSetScope sc = Inl e"
      "ws_sessions st' = ws_sessions (purgeExpired st now)" "r = Inl e"
    | (accepted) n where "normalizeWorkingSetScope sc = Inr n" "normalized n"
      "screenWorkingSetInput bud inp = Inr (trim (in_content inp), or_else (in_metadata inp) (Serializable []))"
      "ws_sessions st' = push_shed (max_items_per_session bud) (max_global_items bud) (max_sessions bud)
         (ws_sessions (purgeExpired st now)) n (accepted_item bud st inp now) now"
      "r = Inr (Accepted (accepted_item bud st inp now) (ws_counters st'))"
proof -
  let ?st = "purgeExpired st now"
  have wf: "wf_sessions (ws_sessions ?st)" by (rule purge_wf [OF assms(1)])
  show thesis
  proof (cases "screenWorkingSetInput bud inp")
    case (Inl why)
    show thesis
      by (rule rejected [OF Inl]) (use assms(2) Inl in \<open>auto simp: ws_append_def Let_def\<close>)
  next
    case a: (Inr a)
    show thesis
    proof (cases "normalizeWorkingSetScope sc")
      case (Inl e)
      show thesis
        by (rule thrown [OF Inl]) (use assms(2) Inl a in \<open>auto simp: ws_append_def Let_def\<close>)
    next
      case n: (Inr n)
      note nn = normalize_normalized [OF n]
      note ps = push_session_eq [OF wf nn, where t = now and now = now]
      let ?i = "accepted_item bud st inp now"
      let ?p = "push_session (ws_sessions ?st) n ?i now"
      define st1 where "st1 = ?st\<lparr>ws_nextId := (if in_id inp = None then ws_nextId ?st + 1 else ws_nextId ?st),
         ws_sessions := AList.update (key_text n) ?p (ws_sessions ?st)\<rparr>"
      have "st' = trimSessions bud (trimGlobal bud (trimSession bud (key_text n) st1)) \<and>
         r = Inr (Accepted ?i (ws_counters st'))"
        using assms(2) a n screen_Inr [OF a] ps [where i = ?i]
        by (simp add: ws_append_def Let_def accepted_item_def st1_def) blast
      moreover have "ws_sessions (trimSession bud (key_text n) st1) =
         AList.update (key_text n) (cut_session (max_items_per_session bud) ?p) (ws_sessions ?st)"
        by (subst trimSession_sessions [of _ _ ?p])
          (simp_all add: st1_def update_conv' update_update cut_session_def)
      ultimately show thesis
        using accepted [OF n nn] a screen_Inr [OF a] by (simp add: trims_sessions push_shed_def)
    qed
  qed
qed

subsection \<open>The budget is never exceeded\<close>

definition ws_item_ok :: "ws_budget \<Rightarrow> ws_item \<Rightarrow> bool" where
  "ws_item_ok bud i = (kind i \<in> set WORKING_SET_ITEM_KINDS \<and> content i \<noteq> [] \<and>
     trim (content i) = content i \<and> length (content i) \<le> max_item_chars bud \<and>
     (case serializedJsonLength (metadata i) of None \<Rightarrow> False | Some n \<Rightarrow> n \<le> max_metadata_chars bud))"

definition ws_bounded :: "ws_budget \<Rightarrow> ws_item sessions \<Rightarrow> bool" where
  "ws_bounded bud m =
     bounded_sessions (max_items_per_session bud) (max_global_items bud) (max_sessions bud) m"

definition ws_inv :: "ws_budget \<Rightarrow> ws_store \<Rightarrow> bool" where
  "ws_inv bud st = (ws_bounded bud (ws_sessions st) \<and>
     (\<forall>k. \<forall>i \<in> set (items_at (ws_sessions st) k). ws_item_ok bud i))"

text \<open>Everything a caller can do, under a clock that does not run backwards.\<close>

inductive ws_reach :: "ws_budget \<Rightarrow> ws_store \<Rightarrow> int \<Rightarrow> bool" for bud where
  start: "ws_reach bud ws_init t"
| append: "ws_reach bud st t \<Longrightarrow> t \<le> now \<Longrightarrow> ws_append bud st sc inp now = (st', r) \<Longrightarrow>
     ws_reach bud st' now"
| read: "ws_reach bud st t \<Longrightarrow> t \<le> now \<Longrightarrow>
     buildContextPackFragment sha256 bud st sc now = (st', f) \<Longrightarrow> ws_reach bud st' now"

lemma ws_init_inv: "ws_inv bud ws_init"
  by (simp add: ws_inv_def ws_bounded_def ws_init_def bounded_sessions_def wf_sessions_def items_at_def)

lemma ws_inv_wf: "ws_inv bud st \<Longrightarrow> wf_sessions (ws_sessions st)"
  by (simp add: ws_inv_def ws_bounded_def bounded_sessions_def)

lemma purge_inv: "ws_inv bud st \<Longrightarrow> ws_inv bud (purgeExpired st now)"
  unfolding ws_inv_def ws_bounded_def bounded_sessions_def
  using purge_count [of st now] purge_length [of st now]
  by (auto simp: purge_wf purge_items_at intro: le_trans [OF length_filter_le])

lemma purge_updated_by: "updated_by t (ws_sessions st) \<Longrightarrow> updated_by t (ws_sessions (purgeExpired st now))"
  unfolding updated_by_def by (metis purge_updated)

lemma accepted_item_ok:
  "screenWorkingSetInput bud inp = Inr a \<Longrightarrow> ws_item_ok bud (accepted_item bud st inp now)"
  using screen_Inr [of bud inp a]
  by (auto simp: ws_item_ok_def accepted_item_def buildWorkingSetItem_def)

lemma append_inv:
  assumes "sane_budget bud" "ws_inv bud st" "ws_append bud st sc inp now = (st', r)"
  shows "ws_inv bud st'"
proof (rule ws_append_cases [OF ws_inv_wf [OF assms(2)] assms(3)])
  fix n
  let ?m = "ws_sessions (purgeExpired st now)"
  assume n: "normalized n"
    "screenWorkingSetInput bud inp = Inr (trim (in_content inp), or_else (in_metadata inp) (Serializable []))"
    "ws_sessions st' = push_shed (max_items_per_session bud) (max_global_items bud) (max_sessions bud)
         ?m n (accepted_item bud st inp now) now"
  have p: "ws_bounded bud ?m" "\<forall>k. \<forall>i \<in> set (items_at ?m k). ws_item_ok bud i"
    using purge_inv [OF assms(2), of now] by (simp_all add: ws_inv_def)
  note b = push_shed_bounded [OF p(1) [unfolded ws_bounded_def] n(1),
      of "accepted_item bud st inp now" now]
  have "ws_item_ok bud i" if "i \<in> set (items_at (ws_sessions st') k)" for i k
  proof -
    have "i \<in> set (if k = key_text n then items_at ?m k @ [accepted_item bud st inp now] else items_at ?m k)"
      using that set_mono_suffix [OF b(2) [of k]] assms(1) n(3) by (auto simp: sane_budget_def)
    then show ?thesis using p(2) accepted_item_ok [OF n(2)] by (auto split: if_splits)
  qed
  then show "ws_inv bud st'"
    using b(1) assms(1) n(3) by (simp add: ws_inv_def ws_bounded_def sane_budget_def)
qed (use purge_inv [OF assms(2), of now] in \<open>simp_all add: ws_inv_def\<close>)

lemma read_sessions:
  "buildContextPackFragment sha256 bud st sc now = (st', f) \<Longrightarrow> st' = purgeExpired st now"
  by (auto simp: buildContextPackFragment_def Let_def split: sum.splits)

lemma append_updated_by:
  assumes "ws_inv bud st" "updated_by t (ws_sessions st)" "t \<le> now"
    "ws_append bud st sc inp now = (st', r)"
  shows "updated_by now (ws_sessions st')"
  using updated_by_mono [OF purge_updated_by [OF assms(2)] assms(3)]
  by (rule_tac ws_append_cases [OF ws_inv_wf [OF assms(1)] assms(4)]) (simp_all add: updated_by_push_shed)

lemma ws_reach_inv:
  assumes "sane_budget bud"
  shows "ws_reach bud st t \<Longrightarrow> ws_inv bud st \<and> updated_by t (ws_sessions st)"
proof (induction rule: ws_reach.induct)
  case (start t)
  then show ?case by (simp add: ws_init_inv) (simp add: ws_init_def updated_by_def)
next
  case (append st t now sc inp st' r)
  then show ?case using append_inv [OF assms] append_updated_by by blast
next
  case (read st t now sha256 sc st' f)
  then show ?case
    using read_sessions [OF read(3)] purge_inv purge_updated_by updated_by_mono by blast
qed

text \<open>C3: the working set stays inside its budget. Whatever scopes, inputs and times the
  callers use, after every operation each lane holds at most \<open>max_items_per_session\<close> items,
  the store at most \<open>max_global_items\<close> in at most \<open>max_sessions\<close> lanes, no lane is kept
  empty or under a foreign key, and every stored item is of a known kind with trimmed,
  non-empty content and metadata inside the character limits.\<close>

theorem working_set_within_budget:
  assumes "sane_budget bud" "ws_reach bud st t"
  shows "ws_inv bud st \<and> (\<forall>k. length (items_at (ws_sessions st) k) \<le> max_items_per_session bud) \<and>
    globalItemCount (ws_sessions st) \<le> max_global_items bud \<and>
    length (ws_sessions st) \<le> max_sessions bud"
  using ws_reach_inv [OF assms] by (simp add: ws_inv_def ws_bounded_def bounded_sessions_def)

lemma working_set_witness:
  "length (ws_sessions (fst (ws_append DEFAULT_WORKING_SET_BUDGET ws_init
     \<lparr>namespace = ''n'', agent = ''a'', platform = ''p'', server_id = ''s'', channel_id = ''c'',
      thread_id = None, session_key = ''k''\<rparr>
     \<lparr>in_id = None, in_kind = ''task_state'', in_content = ''x'', in_confidence = None,
      in_stale_at = None, in_trace_id = None, in_source_ref = None, in_durable_ref = None,
      in_metadata = None\<rparr> 5))) \<le> 128"
proof -
  let ?c = "ws_append DEFAULT_WORKING_SET_BUDGET ws_init
     \<lparr>namespace = ''n'', agent = ''a'', platform = ''p'', server_id = ''s'', channel_id = ''c'',
      thread_id = None, session_key = ''k''\<rparr>
     \<lparr>in_id = None, in_kind = ''task_state'', in_content = ''x'', in_confidence = None,
      in_stale_at = None, in_trace_id = None, in_source_ref = None, in_durable_ref = None,
      in_metadata = None\<rparr> 5"
  have "ws_reach DEFAULT_WORKING_SET_BUDGET (fst ?c) 5"
    by (rule ws_reach.append [OF ws_reach.start [of _ 0]]) (auto simp: prod_eq_iff)
  from working_set_within_budget [OF _ this] show ?thesis
    by (simp add: sane_budget_def DEFAULT_WORKING_SET_BUDGET_def)
qed

subsection \<open>What a read sees\<close>

text \<open>The lanes of one namespace, the only ones a read may depend on.\<close>

definition lanes_of :: "string \<Rightarrow> 'i sessions \<Rightarrow> 'i sessions" where
  "lanes_of ns m = filter (\<lambda>(k, s). namespace (scope_of s) = ns) m"

lemma purge_lanes:
  "lanes_of ns (ws_sessions (purgeExpired st now)) =
     filter (\<lambda>(k, s). items s \<noteq> []) (map (\<lambda>(k, s). (k, purge_session now s)) (lanes_of ns (ws_sessions st)))"
proof -
  have "lanes_of ns (filter (\<lambda>(k, s). items s \<noteq> []) (map (\<lambda>(k, s). (k, purge_session now s)) m)) =
     filter (\<lambda>(k, s). items s \<noteq> []) (map (\<lambda>(k, s). (k, purge_session now s)) (lanes_of ns m))" for m
    by (induction m) (auto simp: lanes_of_def)
  then show ?thesis by (simp add: purgeExpired_def Let_def)
qed

lemma denials_lanes:
  "scopeDenialsFor sha256 m n = scopeDenialsFor sha256 (lanes_of (namespace n) m) n"
proof -
  have "filter (\<lambda>(k, s). k \<noteq> key_text n \<and> namespace (scope_of s) = namespace n \<and>
          compareWorkingSetScope n (scope_of s) \<noteq> []) m =
    filter (\<lambda>(k, s). k \<noteq> key_text n \<and> namespace (scope_of s) = namespace n \<and>
          compareWorkingSetScope n (scope_of s) \<noteq> []) (lanes_of (namespace n) m)"
    by (induction m) (auto simp: lanes_of_def)
  then show ?thesis by (simp add: scopeDenialsFor_def)
qed

lemma map_of_lanes:
  "wf_sessions m \<Longrightarrow> map_of (lanes_of (namespace n) m) (key_text n) = map_of m (key_text n)"
proof -
  have "map_of (filter (\<lambda>(k, s). namespace (scope_of s) = namespace n) m) (key_text n) = map_of m (key_text n)"
    if "\<forall>(k, s) \<in> set m. k = key_text (scope_of s)" for m :: "'a sessions"
    using that by (induction m) (auto simp: key_text_inj)
  then show "wf_sessions m \<Longrightarrow> ?thesis" by (auto simp: lanes_of_def wf_sessions_def)
qed

text \<open>C4: a read is confined to its exact scope and blind to other namespaces. It returns the
  unexpired items of the lane all seven coordinates name, in order, and beside them only the
  hash and the differing fields of other lanes of the same namespace, never the namespace
  field. Two stores that agree on that namespace give the same answer, whatever other
  namespaces hold.\<close>

theorem read_confined_to_scope:
  assumes "ws_reach bud st t" "sane_budget bud" "normalizeWorkingSetScope sc = Inr n"
    and "ws_reach bud st2 t2" "lanes_of (namespace n) (ws_sessions st2) = lanes_of (namespace n) (ws_sessions st)"
  shows "\<exists>f f2. snd (buildContextPackFragment sha256 bud st sc now) = Inr f \<and>
    snd (buildContextPackFragment sha256 bud st2 sc now) = Inr f2 \<and>
    frag_items f = filter (\<lambda>i. expires_at i > now) (items_at (ws_sessions st) (key_text n)) \<and>
    item_count f = length (frag_items f) \<and>
    (\<forall>(h, fields) \<in> set (scope_denials f). \<exists>s \<in> snd ` set (ws_sessions st).
        scope_of s \<noteq> n \<and> namespace (scope_of s) = namespace n \<and>
        h = workingSetScopeHash sha256 (scope_of s) \<and> fields = compareWorkingSetScope n (scope_of s) \<and>
        fields \<noteq> [] \<and> F_namespace \<notin> set fields) \<and>
    frag_items f2 = frag_items f \<and> scope_denials f2 = scope_denials f"
proof -
  have wf: "wf_sessions (ws_sessions st)" "wf_sessions (ws_sessions st2)"
    using ws_reach_inv [OF assms(2)] assms(1,4) ws_inv_wf by blast+
  let ?m = "ws_sessions (purgeExpired st now)" and ?m2 = "ws_sessions (purgeExpired st2 now)"
  have lanes: "lanes_of (namespace n) ?m2 = lanes_of (namespace n) ?m"
    by (simp add: purge_lanes assms(5))
  have at: "items_at ?m2 (key_text n) = items_at ?m (key_text n)"
    using map_of_lanes [OF purge_wf [OF wf(1)], of n now] map_of_lanes [OF purge_wf [OF wf(2)], of n now]
    by (simp add: items_at_def lanes)
  have den: "scopeDenialsFor sha256 ?m2 n = scopeDenialsFor sha256 ?m n"
    by (subst (1 2) denials_lanes) (simp add: lanes)
  have each: "\<exists>s \<in> snd ` set (ws_sessions st). scope_of s \<noteq> n \<and> namespace (scope_of s) = namespace n \<and>
        h = workingSetScopeHash sha256 (scope_of s) \<and> fields = compareWorkingSetScope n (scope_of s) \<and>
        fields \<noteq> [] \<and> F_namespace \<notin> set fields"
    if "(h, fields) \<in> set (scopeDenialsFor sha256 ?m n)" for h fields
  proof -
    from that obtain k s where s: "(k, s) \<in> set ?m" "namespace (scope_of s) = namespace n"
      "h = workingSetScopeHash sha256 (scope_of s)" "fields = compareWorkingSetScope n (scope_of s)"
      "fields \<noteq> []" by (auto simp: scopeDenialsFor_def)
    moreover from s(1) have "s \<in> snd ` set ?m" by force
    then obtain s0 where "s0 \<in> snd ` set (ws_sessions st)" "scope_of s0 = scope_of s"
      using purge_updated by blast
    moreover have "scope_of s \<noteq> n" using s(4,5) compare_Nil_iff by blast
    moreover have "F_namespace \<notin> set fields" using s(2,4) by (simp add: compareWorkingSetScope_def)
    ultimately show ?thesis by metis
  qed
  show ?thesis
    using purge_items_at [OF wf(1), of now "key_text n"] at den each
    by (auto simp: buildContextPackFragment_def Let_def assms(3) items_at_def)
qed

lemma ws_reach_append:
  "ws_reach bud st t \<Longrightarrow> t \<le> now \<Longrightarrow> ws_reach bud (fst (ws_append bud st sc inp now)) now"
  by (rule ws_reach.append) (auto simp: prod_eq_iff)

lemma ws_append_survives:
  assumes "ws_reach bud st t" "sane_budget bud" "t \<le> now"
    and "ws_append bud st sc inp now = (st', Inr (Accepted i c))" "normalizeWorkingSetScope sc = Inr n"
  shows "(\<exists>xs. items_at (ws_sessions st') (key_text n) = xs @ [i] \<and>
        suffix xs (filter (\<lambda>i. expires_at i > now) (items_at (ws_sessions st) (key_text n)))) \<and>
    (\<forall>k. k \<noteq> key_text n \<longrightarrow>
        suffix (items_at (ws_sessions st') k) (filter (\<lambda>i. expires_at i > now) (items_at (ws_sessions st) k)))
    \<and> expires_at i = now + ttl_ms bud"
proof (rule ws_append_cases [OF _ assms(4)])
  have inv: "ws_inv bud st" "updated_by t (ws_sessions st)" using ws_reach_inv assms(1,2) by blast+
  show "wf_sessions (ws_sessions st)" by (rule ws_inv_wf [OF inv(1)])
  let ?m = "ws_sessions (purgeExpired st now)"
  have b: "bounded_sessions (max_items_per_session bud) (max_global_items bud) (max_sessions bud) ?m"
    using purge_inv [OF inv(1)] by (simp add: ws_inv_def ws_bounded_def)
  have clock: "\<forall>s \<in> snd ` set ?m. updated_at_ms s \<le> now"
    using updated_by_mono [OF purge_updated_by [OF inv(2)] assms(3)] by (simp add: updated_by_def)
  note at = purge_items_at [OF ws_inv_wf [OF inv(1)], of now]
  fix n'
  assume n': "normalizeWorkingSetScope sc = Inr n'" "normalized n'"
    "ws_sessions st' = push_shed (max_items_per_session bud) (max_global_items bud) (max_sessions bud)
         ?m n' (accepted_item bud st inp now) now"
    "Inr (Accepted i c) = Inr (Accepted (accepted_item bud st inp now) (ws_counters st'))"
  have eq: "n' = n" "i = accepted_item bud st inp now" using n' assms(5) by auto
  have pos: "0 < max_items_per_session bud" "0 < max_global_items bud" "0 < max_sessions bud"
    using assms(2) by (simp_all add: sane_budget_def)
  note suf = push_shed_bounded(2) [OF b n'(2) pos(1), of i now]
  obtain xs where xs: "items_at (ws_sessions st') (key_text n) = xs @ [i]"
    using push_survives [OF b n'(2) clock pos, of i] n'(3) eq by auto
  have "suffix xs (items_at ?m (key_text n))"
    using suf [of "key_text n"] xs n'(3) eq by (simp add: suffix_def)
  moreover have "suffix (items_at (ws_sessions st') k) (items_at ?m k)" if "k \<noteq> key_text n" for k
    using suf [of k] that n'(3) eq by simp
  moreover have "expires_at i = now + ttl_ms bud"
    by (simp add: eq accepted_item_def buildWorkingSetItem_def)
  ultimately show ?thesis using xs unfolding at by blast
qed (use assms(5) in simp_all)

text \<open>An accepted item is there, and only old items make room. Until its time to live is
  over, a read of the same scope ends with the appended item; in front of it stand the newest
  of the lane's unexpired items, in their order; and every other lane has lost at most its
  oldest ones.\<close>

theorem accepted_item_is_read_back:
  assumes "ws_reach bud st t" "sane_budget bud" "t \<le> now"
    and "ws_append bud st sc inp now = (st', Inr (Accepted i c))" "normalizeWorkingSetScope sc = Inr n"
    and "now \<le> now'" "now' < now + ttl_ms bud"
  shows "\<exists>f xs. snd (buildContextPackFragment sha256 bud st' sc now') = Inr f \<and>
    frag_items f = xs @ [i] \<and>
    suffix xs (filter (\<lambda>i. expires_at i > now') (items_at (ws_sessions st) (key_text n))) \<and>
    (\<forall>k. k \<noteq> key_text n \<longrightarrow> suffix (items_at (ws_sessions st') k) (items_at (ws_sessions (purgeExpired st now)) k))"
proof -
  have inv: "ws_inv bud st" using ws_reach_inv assms(1,2) by blast
  have wf': "wf_sessions (ws_sessions st')"
    using append_inv [OF assms(2) inv assms(4)] by (rule ws_inv_wf)
  from ws_append_survives [OF assms(1-5)] obtain xs where
    xs: "items_at (ws_sessions st') (key_text n) = xs @ [i]"
      "suffix xs (filter (\<lambda>i. expires_at i > now) (items_at (ws_sessions st) (key_text n)))"
    and oth: "\<forall>k. k \<noteq> key_text n \<longrightarrow> suffix (items_at (ws_sessions st') k)
        (filter (\<lambda>i. expires_at i > now) (items_at (ws_sessions st) k))"
    and exp: "expires_at i = now + ttl_ms bud" by blast
  let ?xs = "filter (\<lambda>i. expires_at i > now') xs"
  obtain f where f: "snd (buildContextPackFragment sha256 bud st' sc now') = Inr f"
      "frag_items f = filter (\<lambda>i. expires_at i > now') (xs @ [i])"
    using purge_items_at [OF wf', of now' "key_text n"] xs(1)
    by (auto simp: buildContextPackFragment_def Let_def assms(5) items_at_def)
  have "suffix ?xs (filter (\<lambda>i. expires_at i > now') (filter (\<lambda>i. expires_at i > now)
      (items_at (ws_sessions st) (key_text n))))"
    by (rule suffix_filterI [OF xs(2)])
  also have "filter (\<lambda>i. expires_at i > now') (filter (\<lambda>i. expires_at i > now)
      (items_at (ws_sessions st) (key_text n))) =
    filter (\<lambda>i. expires_at i > now') (items_at (ws_sessions st) (key_text n))"
    using assms(6) by (auto intro!: filter_cong)
  finally show ?thesis
    using f exp assms(7) oth purge_items_at [OF ws_inv_wf [OF inv], of now] by auto
qed

subsection \<open>A concrete run\<close>

definition demo_scope :: scope where
  "demo_scope = \<lparr>namespace = ''n'', agent = ''a'', platform = ''p'', server_id = ''s'',
     channel_id = ''c'', thread_id = None, session_key = ''k''\<rparr>"

definition demo_input :: ws_input where
  "demo_input = \<lparr>in_id = None, in_kind = ''task_state'', in_content = ''x'', in_confidence = None,
     in_stale_at = None, in_trace_id = None, in_source_ref = None, in_durable_ref = None,
     in_metadata = None\<rparr>"

lemma demo_scope_normal: "normalizeWorkingSetScope demo_scope = Inr demo_scope"
  by (simp add: normalizeWorkingSetScope_def demo_scope_def requireScopePart_def trim_def
      trim_start_def js_ws_def)

lemma demo_append_accepted:
  "\<exists>st' i c. ws_append DEFAULT_WORKING_SET_BUDGET ws_init demo_scope demo_input 5 = (st', Inr (Accepted i c))"
  by (simp add: ws_append_def Let_def screenWorkingSetInput_def demo_input_def
      WORKING_SET_ITEM_KINDS_def trim_def trim_start_def js_ws_def DEFAULT_WORKING_SET_BUDGET_def
      or_else_def serializedJsonLength_def json_length_def demo_scope_normal)

lemma sane_default: "sane_budget DEFAULT_WORKING_SET_BUDGET"
  by (simp add: sane_budget_def DEFAULT_WORKING_SET_BUDGET_def)

lemma read_confined_witness:
  "\<exists>f. snd (buildContextPackFragment (\<lambda>s. s) DEFAULT_WORKING_SET_BUDGET ws_init demo_scope 7) = Inr f \<and>
     frag_items f = []"
  using read_confined_to_scope [OF ws_reach.start [of _ 0] sane_default demo_scope_normal
      ws_reach.start [of _ 0] refl, of "\<lambda>s. s" 7]
  by (auto simp: ws_init_def items_at_def)

lemma accepted_item_witness:
  "\<exists>st f i. snd (buildContextPackFragment (\<lambda>s. s) DEFAULT_WORKING_SET_BUDGET st demo_scope 7) = Inr f \<and>
     frag_items f = [i]"
proof -
  obtain st' i c where a:
    "ws_append DEFAULT_WORKING_SET_BUDGET ws_init demo_scope demo_input 5 = (st', Inr (Accepted i c))"
    using demo_append_accepted by blast
  show ?thesis
    using accepted_item_is_read_back [OF ws_reach.start [of _ 0] sane_default _ a demo_scope_normal,
        of 7 "\<lambda>s. s"]
    by (auto simp: DEFAULT_WORKING_SET_BUDGET_def ws_init_def items_at_def)
qed

end
