(* ===== verification/RecoveryWal.thy ===== *)
theory RecoveryWal
  imports WorkingSet
begin

text \<open>
  The quarantined recovery journal (\<open>server/realtime/recovery-wal*.ts\<close>): append, mark and
  purge on the in-memory lanes, the journal row every change writes, and the replay that
  rebuilds the lanes at start-up. The journal is the list of its rows; \<open>None\<close> in a list to
  replay is a row \<open>parseWalRecord\<close> rejects (torn or hand-edited). Rows carry normalized
  scopes, as every row the store writes does. Statuses and actions stay strings, since the store
  checks them at run time.
\<close>

subsection \<open>Vocabulary\<close>

definition RECOVERY_WAL_STATUSES :: "string list" where
  "RECOVERY_WAL_STATUSES = [''active'', ''wrapped'', ''recovery_pending'', ''reviewed'', ''compacted'',
     ''discarded'', ''expired'']"

definition RECOVERY_WAL_ACTIONS :: "string list" where
  "RECOVERY_WAL_ACTIONS = [''review'', ''use_for_current_session'', ''compact_to_wrap'',
     ''promote_candidates'', ''discard'', ''defer'']"

definition isRecoveryWalStatus :: "string \<Rightarrow> bool" where
  "isRecoveryWalStatus v = (v \<in> set RECOVERY_WAL_STATUSES)"

definition isRecoveryWalAction :: "string \<Rightarrow> bool" where
  "isRecoveryWalAction v = (v \<in> set RECOVERY_WAL_ACTIONS)"

record rw_budget = session_budget +
  max_content_chars :: nat
  max_preview_chars :: nat

record rw_counters = counters +
  marked :: nat
  purged :: nat

record rw_item = stored_item +
  rw_status :: string
  updated_at :: int
  reviewed_at :: "int option"
  last_action :: "string option"

record rw_input =
  rin_id :: "string option"
  rin_content :: string
  rin_status :: "string option"
  rin_trace_id :: "string option"
  rin_source_ref :: "string option"
  rin_metadata :: "metadata_value option"

datatype wal_record =
    WalAppend scope rw_item
  | WalMark scope string string string "int option" int
  | WalPurge scope "string option"

definition DEFAULT_RECOVERY_WAL_BUDGET :: rw_budget where
  "DEFAULT_RECOVERY_WAL_BUDGET = \<lparr>ttl_ms = 86400000, max_sessions = 128, max_items_per_session = 50,
     max_global_items = 2048, max_metadata_chars = 2000, max_content_chars = 8000,
     max_preview_chars = 1000\<rparr>"

text \<open>The store; \<open>wal\<close> is \<open>None\<close> without a configured path.\<close>

record rw_store =
  rw_sessions :: "rw_item sessions"
  rw_counts :: rw_counters
  rw_nextId :: nat
  wal :: "wal_record list option"

definition rw_empty :: "wal_record list option \<Rightarrow> rw_store" where
  "rw_empty w = \<lparr>rw_sessions = [],
     rw_counts = \<lparr>dropped = 0, expired = 0, trimmed = 0, marked = 0, purged = 0\<rparr>,
     rw_nextId = 1, wal = w\<rparr>"

definition writeWal :: "wal_record \<Rightarrow> rw_store \<Rightarrow> rw_store" where
  "writeWal r st = st\<lparr>wal := map_option (\<lambda>rs. rs @ [r]) (wal st)\<rparr>"

definition write_rows :: "wal_record list \<Rightarrow> rw_store \<Rightarrow> rw_store" where
  "write_rows rs st = foldl (\<lambda>st r. writeWal r st) st rs"

subsection \<open>Expiry\<close>

definition expires_now :: "int \<Rightarrow> rw_item \<Rightarrow> bool" where
  "expires_now now i = (expires_at i \<le> now \<and> rw_status i \<noteq> ''expired'')"

definition expire_session :: "int \<Rightarrow> rw_item session \<Rightarrow> rw_item session" where
  "expire_session now s = s\<lparr>items := filter (\<lambda>i. rw_status i \<noteq> ''expired'')
     (map (\<lambda>i. if expires_now now i then i\<lparr>rw_status := ''expired'', updated_at := now\<rparr> else i) (items s))\<rparr>"

definition expire_rows :: "int \<Rightarrow> rw_item session \<Rightarrow> wal_record list" where
  "expire_rows now s =
     map (\<lambda>i. WalMark (scope_of s) (item_id i) ''discard'' ''expired'' (reviewed_at i) now)
       (filter (expires_now now) (items s))"

definition rw_purgeExpired :: "rw_store \<Rightarrow> int \<Rightarrow> rw_store" where
  "rw_purgeExpired st now =
     (let rows = concat (map (\<lambda>(k, s). expire_rows now s) (rw_sessions st));
          c = rw_counts st
      in write_rows rows (st\<lparr>rw_sessions :=
             filter (\<lambda>(k, s). items s \<noteq> []) (map (\<lambda>(k, s). (k, expire_session now s)) (rw_sessions st)),
           rw_counts := c\<lparr>expired := expired c + length rows\<rparr>\<rparr>))"

subsection \<open>Append\<close>

datatype rw_reject = RContent_too_large | REmpty_content | RInvalid_status | RMetadata_too_large

datatype rw_append_result = RRejected rw_reject rw_counters | RAccepted rw_item rw_counters

definition rejectionFor :: "rw_budget \<Rightarrow> rw_input \<Rightarrow> rw_reject option" where
  "rejectionFor bud inp =
     (if \<not> isRecoveryWalStatus (or_else (rin_status inp) ''active'') then Some RInvalid_status
      else let text = trim (rin_content inp) in
        if length text = 0 then Some REmpty_content
        else if length text > max_content_chars bud then Some RContent_too_large
        else case serializedJsonLength (or_else (rin_metadata inp) (Serializable [])) of
            None \<Rightarrow> Some RMetadata_too_large
          | Some n \<Rightarrow> if n > max_metadata_chars bud then Some RMetadata_too_large else None)"

definition newItem :: "rw_budget \<Rightarrow> rw_store \<Rightarrow> rw_input \<Rightarrow> int \<Rightarrow> rw_item" where
  "newItem bud st inp now =
     \<lparr>item_id = or_else (rin_id inp) (''rw-'' @ show_nat (rw_nextId st)),
      content = trim (rin_content inp), trace_id = rin_trace_id inp, source_ref = rin_source_ref inp,
      metadata = or_else (rin_metadata inp) (Serializable []), created_at = now,
      expires_at = now + ttl_ms bud, rw_status = or_else (rin_status inp) ''active'',
      updated_at = now, reviewed_at = None, last_action = None\<rparr>"

definition count_rw_trimmed :: "nat \<Rightarrow> rw_store \<Rightarrow> rw_store" where
  "count_rw_trimmed n st = st\<lparr>rw_counts := (rw_counts st)\<lparr>trimmed := trimmed (rw_counts st) + n\<rparr>\<rparr>"

definition rw_trimSession :: "rw_budget \<Rightarrow> string \<Rightarrow> rw_store \<Rightarrow> rw_store" where
  "rw_trimSession bud key st =
     (case map_of (rw_sessions st) key of
        None \<Rightarrow> st
      | Some s \<Rightarrow>
          (let overflow = length (items s) - max_items_per_session bud;
               removed = take overflow (items s)
           in if overflow > 0
              then write_rows (map (\<lambda>i. WalPurge (scope_of s) (Some (item_id i))) removed)
                (count_rw_trimmed overflow
                  (st\<lparr>rw_sessions := AList.update key (s\<lparr>items := drop overflow (items s)\<rparr>) (rw_sessions st)\<rparr>))
              else st))"

definition rw_trimGlobal :: "rw_budget \<Rightarrow> rw_store \<Rightarrow> rw_store" where
  "rw_trimGlobal bud st =
     (let (m, removed) = shed_items (shed_fuel (rw_sessions st)) (max_global_items bud) (rw_sessions st);
          gone = filter (\<lambda>(sc, i). i \<noteq> None) removed
      in write_rows (map (\<lambda>(sc, i). WalPurge sc (Some (item_id (the i)))) gone)
           (count_rw_trimmed (length gone) (st\<lparr>rw_sessions := m\<rparr>)))"

definition rw_trimSessions :: "rw_budget \<Rightarrow> rw_store \<Rightarrow> rw_store" where
  "rw_trimSessions bud st =
     (let (m, removed) = shed_sessions (shed_fuel (rw_sessions st)) (max_sessions bud) (rw_sessions st)
      in write_rows (map (\<lambda>s. WalPurge (scope_of s) None) removed)
           (count_rw_trimmed (sum_list (map (\<lambda>s. length (items s)) removed)) (st\<lparr>rw_sessions := m\<rparr>)))"

definition rw_append ::
  "rw_budget \<Rightarrow> rw_store \<Rightarrow> scope \<Rightarrow> rw_input \<Rightarrow> int \<Rightarrow> rw_store \<times> rw_append_result result" where
  "rw_append bud st sc inp now =
     (let st = rw_purgeExpired st now in
      case rejectionFor bud inp of
        Some why \<Rightarrow>
          (let st = st\<lparr>rw_counts := (rw_counts st)\<lparr>dropped := dropped (rw_counts st) + 1\<rparr>\<rparr>
           in (st, Inr (RRejected why (rw_counts st))))
      | None \<Rightarrow>
          (case normalizeWorkingSetScope sc of
             Inl e \<Rightarrow> (st, Inl e)
           | Inr normal \<Rightarrow>
               (let key = key_text normal;
                    session = or_else (map_of (rw_sessions st) key)
                      \<lparr>scope_of = normal, items = [], updated_at_ms = now\<rparr>;
                    item = newItem bud st inp now;
                    session = session\<lparr>items := items session @ [item], updated_at_ms := now\<rparr>;
                    st = st\<lparr>rw_nextId := (if rin_id inp = None then rw_nextId st + 1 else rw_nextId st),
                            rw_sessions := AList.update key session (rw_sessions st)\<rparr>;
                    st = rw_trimSessions bud (rw_trimGlobal bud (rw_trimSession bud key st));
                    st = writeWal (WalAppend normal item) st
                in (st, Inr (RAccepted item (rw_counts st))))))"

subsection \<open>Mark and purge\<close>

record mark_decision =
  d_action :: string
  d_status :: string
  d_purge :: bool

datatype mark_reject = Invalid_action | Invalid_status | Not_found

datatype mark_result = MRejected mark_reject rw_counters | MPurged rw_counters | MMarked rw_item rw_counters

fun update_first :: "('a \<Rightarrow> bool) \<Rightarrow> ('a \<Rightarrow> 'a) \<Rightarrow> 'a list \<Rightarrow> 'a list" where
  "update_first P f [] = []"
| "update_first P f (x # xs) = (if P x then f x # xs else x # update_first P f xs)"

definition decide_item :: "mark_decision \<Rightarrow> int \<Rightarrow> rw_item \<Rightarrow> rw_item" where
  "decide_item d now i =
     i\<lparr>rw_status := d_status d, last_action := Some (d_action d), updated_at := now,
       reviewed_at := (if d_action d = ''review'' \<or> d_action d = ''use_for_current_session''
                       then Some now else reviewed_at i)\<rparr>"

definition purgeMarked :: "rw_store \<Rightarrow> rw_item session \<Rightarrow> rw_item \<Rightarrow> scope \<Rightarrow> rw_store \<times> mark_result" where
  "purgeMarked st s i sc =
     (let s' = s\<lparr>items := filter (\<lambda>c. item_id c \<noteq> item_id i) (items s)\<rparr>;
          st = st\<lparr>rw_sessions := deleteIfEmpty (AList.update (key_text (scope_of s)) s' (rw_sessions st)) s'\<rparr>;
          st = st\<lparr>rw_counts := (rw_counts st)\<lparr>purged := purged (rw_counts st) + 1\<rparr>\<rparr>;
          st = writeWal (WalPurge sc (Some (item_id i))) st
      in (st, MPurged (rw_counts st)))"

definition applyDecision ::
  "rw_store \<Rightarrow> rw_item session \<Rightarrow> rw_item \<Rightarrow> mark_decision \<Rightarrow> scope \<Rightarrow> int \<Rightarrow> rw_store \<times> mark_result" where
  "applyDecision st s i d sc now =
     (let i' = decide_item d now i;
          s' = s\<lparr>items := update_first (\<lambda>c. item_id c = item_id i) (decide_item d now) (items s),
                 updated_at_ms := now\<rparr>;
          st = st\<lparr>rw_sessions := AList.update (key_text (scope_of s)) s' (rw_sessions st)\<rparr>;
          st = st\<lparr>rw_counts := (rw_counts st)\<lparr>marked := marked (rw_counts st) + 1\<rparr>\<rparr>;
          st = writeWal (WalMark sc (item_id i) (d_action d) (d_status d) (reviewed_at i') now) st
      in (st, MMarked i' (rw_counts st)))"

definition rw_mark ::
  "rw_store \<Rightarrow> scope \<Rightarrow> string \<Rightarrow> mark_decision \<Rightarrow> int \<Rightarrow> rw_store \<times> mark_result result" where
  "rw_mark st sc ident d now =
     (let st = rw_purgeExpired st now in
      if \<not> isRecoveryWalAction (d_action d) then (st, Inr (MRejected Invalid_action (rw_counts st)))
      else if \<not> isRecoveryWalStatus (d_status d) then (st, Inr (MRejected Invalid_status (rw_counts st)))
      else case normalizeWorkingSetScope sc of
          Inl e \<Rightarrow> (st, Inl e)
        | Inr normal \<Rightarrow>
            (case map_of (rw_sessions st) (key_text normal) of
               None \<Rightarrow> (st, Inr (MRejected Not_found (rw_counts st)))
             | Some s \<Rightarrow>
                 (case find (\<lambda>c. item_id c = ident) (items s) of
                    None \<Rightarrow> (st, Inr (MRejected Not_found (rw_counts st)))
                  | Some i \<Rightarrow>
                      (let (st, r) = (if d_purge d then purgeMarked st s i normal
                                      else applyDecision st s i d normal now)
                       in (st, Inr r)))))"

subsection \<open>Replay\<close>

definition isReplayItemWithinBudget :: "rw_budget \<Rightarrow> rw_item \<Rightarrow> bool" where
  "isReplayItemWithinBudget bud i =
     (length (content i) \<le> max_content_chars bud \<and>
      (case serializedJsonLength (metadata i) of None \<Rightarrow> False | Some n \<Rightarrow> n \<le> max_metadata_chars bud))"

definition trackNextId :: "nat \<Rightarrow> string \<Rightarrow> nat" where
  "trackNextId nextId ident =
     (let ds = drop 3 ident
      in if starts_with ''rw-'' ident \<and> ds \<noteq> [] \<and> list_all is_digit ds
         then max nextId (read_nat ds + 1) else nextId)"

definition applyAppendRecord :: "rw_budget \<Rightarrow> rw_store \<Rightarrow> scope \<Rightarrow> rw_item \<Rightarrow> rw_store" where
  "applyAppendRecord bud st sc i =
     (if \<not> isReplayItemWithinBudget bud i
      then st\<lparr>rw_counts := (rw_counts st)\<lparr>dropped := dropped (rw_counts st) + 1\<rparr>\<rparr>
      else let s = or_else (map_of (rw_sessions st) (key_text sc))
                 \<lparr>scope_of = sc, items = [], updated_at_ms = updated_at i\<rparr>;
               s = s\<lparr>items := items s @ [i], updated_at_ms := updated_at i\<rparr>
           in st\<lparr>rw_sessions := AList.update (key_text sc) s (rw_sessions st),
                 rw_nextId := trackNextId (rw_nextId st) (item_id i)\<rparr>)"

fun applyWalRecord :: "rw_budget \<Rightarrow> rw_store \<Rightarrow> wal_record \<Rightarrow> rw_store" where
  "applyWalRecord bud st (WalAppend sc i) = applyAppendRecord bud st sc i"
| "applyWalRecord bud st (WalPurge sc ident) =
     (case map_of (rw_sessions st) (key_text sc) of
        None \<Rightarrow> st
      | Some s \<Rightarrow>
          (let kept = (case ident of
                 Some x \<Rightarrow> if x \<noteq> '''' then filter (\<lambda>c. item_id c \<noteq> x) (items s) else []
               | None \<Rightarrow> []);
               m = AList.update (key_text sc) (s\<lparr>items := kept\<rparr>) (rw_sessions st)
           in st\<lparr>rw_sessions := (if length kept = 0 then AList.delete (key_text sc) m else m)\<rparr>))"
| "applyWalRecord bud st (WalMark sc ident action status reviewed updated) =
     (case map_of (rw_sessions st) (key_text sc) of
        None \<Rightarrow> st
      | Some s \<Rightarrow>
          if find (\<lambda>c. item_id c = ident) (items s) = None then st
          else st\<lparr>rw_sessions := AList.update (key_text sc)
                 (s\<lparr>items := update_first (\<lambda>c. item_id c = ident)
                      (\<lambda>i. i\<lparr>rw_status := status, last_action := Some action, reviewed_at := reviewed,
                             updated_at := updated\<rparr>) (items s),
                    updated_at_ms := updated\<rparr>) (rw_sessions st)\<rparr>)"

text \<open>Rows that do not parse are skipped and counted.\<close>

fun replayRows :: "rw_budget \<Rightarrow> rw_store \<Rightarrow> wal_record option list \<Rightarrow> rw_store \<times> nat" where
  "replayRows bud st [] = (st, 0)"
| "replayRows bud st (None # rows) = (let (st, n) = replayRows bud st rows in (st, n + 1))"
| "replayRows bud st (Some r # rows) = replayRows bud (applyWalRecord bud st r) rows"

definition cut_all :: "rw_budget \<Rightarrow> rw_item sessions \<Rightarrow> rw_item sessions" where
  "cut_all bud m = filter (\<lambda>(k, s). items s \<noteq> [])
     (map (\<lambda>(k, s). (k, cut_session (max_items_per_session bud) s)) m)"

definition enforceReplayBudgets :: "rw_item sessions \<Rightarrow> rw_budget \<Rightarrow> rw_item sessions \<times> nat" where
  "enforceReplayBudgets m bud =
     (let m1 = cut_all bud m;
          (m2, gone) = shed_items (shed_fuel m1) (max_global_items bud) m1;
          (m3, lanes) = shed_sessions (shed_fuel m2) (max_sessions bud) m2
      in (m3, (globalItemCount m - globalItemCount m1) + length (filter (\<lambda>(sc, i). i \<noteq> None) gone) +
              sum_list (map (\<lambda>s. length (items s)) lanes)))"

definition compactWal :: "rw_store \<Rightarrow> rw_store" where
  "compactWal st = st\<lparr>wal := map_option (\<lambda>_. concat (map (\<lambda>(k, s). map (WalAppend (scope_of s)) (items s))
     (rw_sessions st))) (wal st)\<rparr>"

definition loadWal :: "rw_budget \<Rightarrow> wal_record option list \<Rightarrow> rw_store" where
  "loadWal bud rows =
     (let st = fst (replayRows bud (rw_empty (Some [])) rows);
          (m, n) = enforceReplayBudgets (rw_sessions st) bud
      in compactWal (count_rw_trimmed n (st\<lparr>rw_sessions := m\<rparr>)))"

subsection \<open>The read\<close>

definition isPendingAt :: "rw_item \<Rightarrow> int \<Rightarrow> bool" where
  "isPendingAt i now = (rw_status i \<in> {''active'', ''recovery_pending''} \<and> expires_at i > now)"

record rw_context_item =
  ci_id :: string
  ci_status :: string
  content_preview :: string
  content_length :: nat
  content_truncated :: bool
  ci_trace_id :: "string option"
  ci_source_ref :: "string option"
  ci_created_at :: int
  ci_updated_at :: int
  ci_expires_at :: int
  ci_reviewed_at :: "int option"
  ci_last_action :: "string option"
  ci_metadata :: metadata_value

definition contextItemFor :: "rw_budget \<Rightarrow> rw_item \<Rightarrow> rw_context_item" where
  "contextItemFor bud i =
     (let preview = (if length (content i) > max_preview_chars bud
                     then slice 0 (max_preview_chars bud) (content i) else content i)
      in \<lparr>ci_id = item_id i, ci_status = rw_status i, content_preview = preview,
          content_length = length (content i), content_truncated = length (content i) > length preview,
          ci_trace_id = trace_id i, ci_source_ref = source_ref i, ci_created_at = created_at i,
          ci_updated_at = updated_at i, ci_expires_at = expires_at i, ci_reviewed_at = reviewed_at i,
          ci_last_action = last_action i, ci_metadata = metadata i\<rparr>)"

definition rw_scopeDenialsFor ::
  "(string \<Rightarrow> string) \<Rightarrow> rw_item sessions \<Rightarrow> scope \<Rightarrow> int \<Rightarrow> (string \<times> scope_field list) list" where
  "rw_scopeDenialsFor sha256 m requested now =
     map (\<lambda>(k, s). (workingSetScopeHash sha256 (scope_of s), compareWorkingSetScope requested (scope_of s)))
       (filter (\<lambda>(k, s). k \<noteq> key_text requested \<and> namespace (scope_of s) = namespace requested \<and>
          list_ex (\<lambda>i. isPendingAt i now) (items s) \<and>
          compareWorkingSetScope requested (scope_of s) \<noteq> []) m)"

record rw_fragment =
  rfrag_scope :: scope
  pending_count :: nat
  rfrag_items :: "rw_context_item list"
  rfrag_counters :: rw_counters
  wal_path_configured :: bool
  rfrag_denials :: "(string \<times> scope_field list) list"

definition rw_buildContextPackFragment ::
  "(string \<Rightarrow> string) \<Rightarrow> rw_budget \<Rightarrow> rw_store \<Rightarrow> scope \<Rightarrow> int \<Rightarrow> rw_fragment result" where
  "rw_buildContextPackFragment sha256 bud st sc now =
     res_bind (normalizeWorkingSetScope sc) (\<lambda>normal.
       let its = filter (\<lambda>i. isPendingAt i now) (items_at (rw_sessions st) (key_text normal))
       in Inr \<lparr>rfrag_scope = normal, pending_count = length its,
               rfrag_items = map (contextItemFor bud) its, rfrag_counters = rw_counts st,
               wal_path_configured = (wal st \<noteq> None),
               rfrag_denials = rw_scopeDenialsFor sha256 (rw_sessions st) normal now\<rparr>)"

end
