(* ===== verification/RecoveryReplay.thy ===== *)
theory RecoveryReplay
  imports RecoveryWal
begin

text \<open>
  The journal of the recovery store means what the store holds: replaying it rebuilds, lane by
  lane, the records that have not expired. The proof follows each operation: what it does to
  the lanes, which rows it writes, and what the replay does with those rows.
\<close>

subsection \<open>Lanes and rows\<close>

definition lane :: "rw_store \<Rightarrow> string \<Rightarrow> rw_item list" where
  "lane st k = items_at (rw_sessions st) k"

definition live :: "rw_item list \<Rightarrow> rw_item list" where
  "live xs = filter (\<lambda>i. rw_status i \<noteq> ''expired'') xs"

definition replay :: "rw_budget \<Rightarrow> wal_record list \<Rightarrow> rw_store" where
  "replay bud rs = foldl (applyWalRecord bud) (rw_empty None) rs"

fun hits :: "wal_record \<Rightarrow> string \<Rightarrow> string \<Rightarrow> bool" where
  "hits (WalAppend sc i) k x = False"
| "hits (WalPurge sc y) k x = (key_text sc = k \<and> (y = None \<or> y = Some x))"
| "hits (WalMark sc y a s r u) k x = (key_text sc = k \<and> y = x)"

fun removal :: "wal_record \<Rightarrow> bool" where
  "removal (WalAppend sc i) = False"
| "removal (WalPurge sc y) = (y \<noteq> Some '''')"
| "removal (WalMark sc y a s r u) = (s = ''expired'')"

definition unhit :: "wal_record list \<Rightarrow> string \<Rightarrow> rw_item \<Rightarrow> bool" where
  "unhit rows k i = (\<forall>r \<in> set rows. \<not> hits r k (item_id i))"

definition ids_ok :: "rw_store \<Rightarrow> bool" where
  "ids_ok st = (\<forall>k. distinct (map item_id (lane st k)))"

lemma unhit_Nil [simp]: "unhit [] k i"
  by (simp add: unhit_def)

lemma unhit_append [simp]: "unhit (rs @ rs') k i \<longleftrightarrow> unhit rs k i \<and> unhit rs' k i"
  by (auto simp: unhit_def)

lemma unhit_Cons [simp]: "unhit (r # rs) k i \<longleftrightarrow> \<not> hits r k (item_id i) \<and> unhit rs k i"
  by (auto simp: unhit_def)

lemma write_rows_simps [simp]:
  "rw_sessions (write_rows rs st) = rw_sessions st"
  "rw_nextId (write_rows rs st) = rw_nextId st"
  "rw_counts (write_rows rs st) = rw_counts st"
  "wal (write_rows rs st) = map_option (\<lambda>w. w @ rs) (wal st)"
  by (induction rs arbitrary: st)
    (auto simp: write_rows_def writeWal_def option.map_comp comp_def option.map_ident)

lemma live_filter: "live (filter P xs) = filter P (live xs)"
  by (auto simp: live_def intro: filter_cong)

lemma live_append [simp]: "live (xs @ ys) = live xs @ live ys"
  by (simp add: live_def)

lemma live_idem [simp]: "live (live xs) = live xs"
  by (simp add: live_def)

lemma distinct_live: "distinct (map item_id xs) \<Longrightarrow> distinct (map item_id (live xs))"
  by (simp add: live_def distinct_map_filter)

lemma set_live: "i \<in> set (live xs) \<longleftrightarrow> i \<in> set xs \<and> rw_status i \<noteq> ''expired''"
  by (auto simp: live_def)

subsection \<open>What a replayed row does\<close>

lemma update_first_distinct:
  "distinct (map f xs) \<Longrightarrow>
     update_first (\<lambda>c. f c = y) g xs = map (\<lambda>c. if f c = y then g c else c) xs"
  by (induction xs) (auto intro!: map_idI [symmetric] simp: image_iff)

lemma map_update_first: "(\<And>x. f (g x) = f x) \<Longrightarrow> map f (update_first P g xs) = map f xs"
  by (induction xs) auto

lemma lane_purge:
  "lane (applyWalRecord bud st (WalPurge sc y)) k =
     (if k = key_text sc then
        (case y of Some x \<Rightarrow> if x \<noteq> '''' then filter (\<lambda>c. item_id c \<noteq> x) (lane st k) else [] | None \<Rightarrow> [])
      else lane st k)"
  by (auto simp: lane_def items_at_def Let_def update_conv' delete_conv' split: option.split)

lemma lane_mark:
  "lane (applyWalRecord bud st (WalMark sc y a s r u)) k =
     (if k = key_text sc then update_first (\<lambda>c. item_id c = y)
        (\<lambda>i. i\<lparr>rw_status := s, last_action := Some a, reviewed_at := r, updated_at := u\<rparr>) (lane st k)
      else lane st k)"
proof -
  have none: "find P xs = None \<Longrightarrow> update_first P g xs = xs" for P g and xs :: "rw_item list"
    by (induction xs) (auto split: if_splits)
  show ?thesis
    by (auto simp: lane_def items_at_def update_conv' none split: option.split)
qed

lemma lane_append:
  "isReplayItemWithinBudget bud i \<Longrightarrow>
     lane (applyWalRecord bud st (WalAppend sc i)) k =
       (if k = key_text sc then lane st k @ [i] else lane st k)"
  by (auto simp: lane_def items_at_def applyAppendRecord_def Let_def update_conv' or_else_def
      split: option.split)

declare applyWalRecord.simps [simp del]

lemma removal_row:
  assumes "removal r" "ids_ok st"
  shows "live (lane (applyWalRecord bud st r) k) = filter (unhit [r] k) (live (lane st k))"
    and "ids_ok (applyWalRecord bud st r)"
proof -
  have d: "distinct (map item_id (lane st k))" for k using assms(2) by (simp add: ids_ok_def)
  show "live (lane (applyWalRecord bud st r) k) = filter (unhit [r] k) (live (lane st k))"
  proof (cases r)
    case (WalMark sc y a s rv u)
    let ?g = "\<lambda>i. i\<lparr>rw_status := s, last_action := Some a, reviewed_at := rv, updated_at := u\<rparr>"
    have s: "s = ''expired''" using assms(1) WalMark by simp
    have "live (map (\<lambda>c. if item_id c = y then ?g c else c) xs) = filter (\<lambda>i. item_id i \<noteq> y) (live xs)" for xs
      by (induction xs) (auto simp: live_def s)
    then show ?thesis
      using WalMark d [of k] s by (auto simp: lane_mark update_first_distinct unhit_def intro!: filter_cong)
  next
    case (WalPurge sc y)
    then show ?thesis
      using assms(1) by (auto simp: lane_purge live_filter unhit_def live_def split: option.split
          intro!: filter_cong)
  qed (use assms in simp)
  show "ids_ok (applyWalRecord bud st r)"
    unfolding ids_ok_def
  proof
    fix k
    show "distinct (map item_id (lane (applyWalRecord bud st r) k))"
    proof (cases r)
      case (WalMark sc y a s rv u)
      show ?thesis using d [of k]
        by (auto simp: WalMark lane_mark map_update_first)
    next
      case (WalPurge sc y)
      then show ?thesis using d [of k]
        by (auto simp: lane_purge distinct_map_filter split: option.split)
    qed (use assms in simp)
  qed
qed

lemma removal_rows:
  "\<forall>r \<in> set rs. removal r \<Longrightarrow> ids_ok st \<Longrightarrow>
     live (lane (foldl (applyWalRecord bud) st rs) k) = filter (unhit rs k) (live (lane st k)) \<and>
     ids_ok (foldl (applyWalRecord bud) st rs)"
proof (induction rs arbitrary: st)
  case Nil
  then show ?case by simp
next
  case (Cons r rs)
  then show ?case
    using removal_row [of r st bud] by (auto simp: conj_commute intro: filter_cong)
qed

subsection \<open>Expiry\<close>

lemma expire_session_simps [simp]:
  "scope_of (expire_session now s) = scope_of s"
  "updated_at_ms (expire_session now s) = updated_at_ms s"
  by (simp_all add: expire_session_def)

lemma expire_items: "items (expire_session now s) = filter (\<lambda>i. expires_at i > now) (live (items s))"
proof -
  have "filter (\<lambda>i. rw_status i \<noteq> ''expired'') (map (\<lambda>i. if expires_now now i
      then i\<lparr>rw_status := ''expired'', updated_at := now\<rparr> else i) xs) =
    filter (\<lambda>i. expires_at i > now) (live xs)" for xs
    by (induction xs) (auto simp: live_def expires_now_def)
  then show ?thesis by (simp add: expire_session_def)
qed

lemma expire_keys: "map fst (map (\<lambda>(k, s). (k, expire_session now s)) m) = map fst m"
  by (induction m) auto

lemma rw_purge_sessions:
  "rw_sessions (rw_purgeExpired st now) =
     filter (\<lambda>(k, s). items s \<noteq> []) (map (\<lambda>(k, s). (k, expire_session now s)) (rw_sessions st))"
  by (simp add: rw_purgeExpired_def Let_def)

lemma rw_purge_wf:
  assumes "wf_sessions (rw_sessions st)"
  shows "wf_sessions (rw_sessions (rw_purgeExpired st now))"
  unfolding wf_sessions_def
proof
  have "distinct (map fst (map (\<lambda>(k, s). (k, expire_session now s)) (rw_sessions st)))"
    using assms by (simp only: expire_keys wf_distinct)
  then show "distinct (map fst (rw_sessions (rw_purgeExpired st now)))"
    unfolding rw_purge_sessions by (simp add: distinct_map_filter)
qed (use assms in \<open>auto simp: wf_sessions_def rw_purge_sessions\<close>)

lemma rw_purge_lane:
  assumes "wf_sessions (rw_sessions st)"
  shows "lane (rw_purgeExpired st now) k = filter (\<lambda>i. expires_at i > now) (live (lane st k))"
proof -
  have "map_of (filter (\<lambda>(k, s). items s \<noteq> []) (map (\<lambda>(k, s). (k, expire_session now s)) m)) k =
     (case map_of m k of None \<Rightarrow> None
      | Some s \<Rightarrow> if items (expire_session now s) = [] then None else Some (expire_session now s))"
    if "distinct (map fst m)" for m
    using that by (induction m) (auto simp: map_of_eq_None_iff rev_image_eqI split: option.splits)
  from this [OF wf_distinct [OF assms]] show ?thesis
    by (auto simp: lane_def items_at_def rw_purge_sessions expire_items live_def split: option.splits)
qed

definition purge_rows :: "rw_store \<Rightarrow> int \<Rightarrow> wal_record list" where
  "purge_rows st now = concat (map (\<lambda>(k, s). expire_rows now s) (rw_sessions st))"

lemma rw_purge_wal: "wal (rw_purgeExpired st now) = map_option (\<lambda>w. w @ purge_rows st now) (wal st)"
  by (simp add: rw_purgeExpired_def Let_def purge_rows_def)

lemma rw_purge_nextId [simp]: "rw_nextId (rw_purgeExpired st now) = rw_nextId st"
  by (simp add: rw_purgeExpired_def Let_def)

lemma purge_rows_removal: "r \<in> set (purge_rows st now) \<Longrightarrow> removal r"
  by (auto simp: purge_rows_def expire_rows_def)

lemma purge_rows_unhit:
  assumes "wf_sessions (rw_sessions st)"
  shows "unhit (purge_rows st now) k i \<longleftrightarrow>
    (\<forall>j \<in> set (lane st k). item_id j = item_id i \<longrightarrow> \<not> expires_now now j)"
proof -
  have "(\<exists>r \<in> set (purge_rows st now). hits r k (item_id i)) \<longleftrightarrow>
      (\<exists>(k', s) \<in> set (rw_sessions st). key_text (scope_of s) = k \<and>
         (\<exists>j \<in> set (items s). expires_now now j \<and> item_id j = item_id i))"
    by (fastforce simp: purge_rows_def expire_rows_def)
  also have "\<dots> \<longleftrightarrow> (\<exists>j \<in> set (lane st k). expires_now now j \<and> item_id j = item_id i)"
    (is "?l \<longleftrightarrow> ?r")
  proof
    assume ?l
    then obtain k' s j where s: "(k', s) \<in> set (rw_sessions st)" "key_text (scope_of s) = k"
      "j \<in> set (items s)" "expires_now now j" "item_id j = item_id i" by blast
    then have "map_of (rw_sessions st) k = Some s"
      using wf_map_of [OF assms, of s] by force
    with s show ?r by (auto simp: lane_def items_at_def)
  next
    assume ?r
    then obtain j s where "map_of (rw_sessions st) k = Some s" "j \<in> set (items s)"
      "expires_now now j" "item_id j = item_id i"
      by (cases "map_of (rw_sessions st) k") (auto simp: lane_def items_at_def)
    then show ?l using wf_map_ofD [OF assms] map_of_SomeD by fastforce
  qed
  finally show ?thesis by (auto simp: unhit_def)
qed

text \<open>The simulation: the replay of the journal has the live records of every lane.\<close>

definition agrees :: "rw_store \<Rightarrow> rw_store \<Rightarrow> bool" where
  "agrees st R = (ids_ok R \<and> (\<forall>k. live (lane R k) = live (lane st k)))"

lemma filter_unique_ids:
  assumes "distinct (map item_id xs)" "\<And>i. i \<in> set xs \<Longrightarrow> P i \<longleftrightarrow> (\<forall>j \<in> set xs. item_id j = item_id i \<longrightarrow> Q j)"
  shows "filter P xs = filter Q xs"
  using assms by (intro filter_cong) (auto dest: inj_onD simp: distinct_map)

lemma purge_agrees:
  assumes wf: "wf_sessions (rw_sessions st)" and "agrees st R"
  shows "agrees (rw_purgeExpired st now) (foldl (applyWalRecord bud) R (purge_rows st now))"
proof -
  have R: "ids_ok R" "\<And>k. live (lane R k) = live (lane st k)" using assms(2) by (auto simp: agrees_def)
  note rr = removal_rows [OF _ R(1), of "purge_rows st now" bud]
  have "live (lane (foldl (applyWalRecord bud) R (purge_rows st now)) k) =
      live (lane (rw_purgeExpired st now) k)" for k
  proof -
    have "distinct (map item_id (live (lane st k)))"
      using R distinct_live [of "lane R k"] by (simp add: ids_ok_def)
    then have "filter (unhit (purge_rows st now) k) (live (lane st k)) =
        filter (\<lambda>i. expires_at i > now) (live (lane st k))"
      by (rule filter_unique_ids) (auto simp: purge_rows_unhit [OF wf] expires_now_def set_live)
    then show ?thesis
      using rr [of k] purge_rows_removal R(2) by (simp add: rw_purge_lane [OF wf] live_filter)
  qed
  then show ?thesis using rr purge_rows_removal by (auto simp: agrees_def)
qed

lemma purge_all_live: "wf_sessions (rw_sessions st) \<Longrightarrow>
    live (lane (rw_purgeExpired st now) k) = lane (rw_purgeExpired st now) k"
  by (simp add: rw_purge_lane live_filter)

subsection \<open>The trims\<close>

definition good_ids :: "rw_item sessions \<Rightarrow> bool" where
  "good_ids m = (\<forall>k. distinct (map item_id (items_at m k)) \<and> (\<forall>i \<in> set (items_at m k). item_id i \<noteq> ''''))"

text \<open>\<open>sheds m m' rows\<close>: going from \<open>m\<close> to \<open>m'\<close> removed exactly the records the rows name.\<close>

definition sheds :: "rw_item sessions \<Rightarrow> rw_item sessions \<Rightarrow> wal_record list \<Rightarrow> bool" where
  "sheds m m' rows = ((\<forall>r \<in> set rows. removal r) \<and>
     (\<forall>k. items_at m' k = filter (unhit rows k) (items_at m k)))"

lemma sheds_refl: "sheds m m []"
  by (simp add: sheds_def)

lemma sheds_trans: "sheds m m' r1 \<Longrightarrow> sheds m' m'' r2 \<Longrightarrow> sheds m m'' (r1 @ r2)"
  by (auto simp: sheds_def conj_commute intro: filter_cong)

lemma sheds_good_ids: "sheds m m' rows \<Longrightarrow> good_ids m \<Longrightarrow> good_ids m'"
  unfolding sheds_def good_ids_def by (metis distinct_map_filter filter_is_subset subsetD)

lemma drop_filter_ids:
  assumes "distinct (map f xs)"
  shows "drop n xs = filter (\<lambda>i. f i \<notin> f ` set (take n xs)) xs"
proof -
  have "filter (\<lambda>i. f i \<notin> f ` set (take n xs)) (take n xs @ drop n xs) = drop n xs"
    using assms
    by (subst (asm) append_take_drop_id [of n xs, symmetric], subst filter_append)
      (auto simp: filter_empty_conv simp del: append_take_drop_id intro!: filter_True)
  then show ?thesis by simp
qed

lemma sheds_prefix:
  assumes "good_ids m" "map_of m k = Some s" "k = key_text (scope_of s)"
    and "m' = AList.update k (s\<lparr>items := drop n (items s)\<rparr>) m \<or>
         (drop n (items s) = [] \<and> m' = AList.delete k m)"
  shows "sheds m m' (map (\<lambda>i. WalPurge (scope_of s) (Some (item_id i))) (take n (items s)))"
proof -
  let ?rows = "map (\<lambda>i. WalPurge (scope_of s) (Some (item_id i))) (take n (items s))"
  have at: "items_at m k = items s" using assms(2) by (simp add: items_at_def)
  have d: "distinct (map item_id (items s))" "\<forall>i \<in> set (items s). item_id i \<noteq> ''''"
    using assms(1) at unfolding good_ids_def by metis+
  have "unhit ?rows k = (\<lambda>i. item_id i \<notin> item_id ` set (take n (items s)))"
    unfolding unhit_def assms(3) by (rule ext) (auto intro: rev_image_eqI)
  then have "filter (unhit ?rows k) (items s) = drop n (items s)"
    by (simp only: drop_filter_ids [OF d(1), of n])
  moreover have "filter (unhit ?rows k') (items_at m k') = items_at m k'" if "k' \<noteq> k" for k'
    using that by (intro filter_True) (auto simp: unhit_def assms(3))
  moreover have "items_at m' k' = (if k' = k then drop n (items s) else items_at m k')" for k'
    using assms(4) by (auto simp: items_at_update items_at_delete)
  ultimately show ?thesis
    using d(2) by (auto simp: sheds_def at dest: in_set_takeD)
qed

lemma sheds_shift:
  assumes "good_ids m" "wf_sessions m" "s \<in> snd ` set m"
  shows "sheds m (shift_oldest m s) [WalPurge (scope_of s) (Some (item_id (hd (items s))))]"
proof -
  have m: "map_of m (key_text (scope_of s)) = Some s" by (rule wf_map_of [OF assms(2,3)])
  have "items s \<noteq> []" using wf_map_ofD [OF assms(2) m] by simp
  then show ?thesis
    using sheds_prefix [OF assms(1) m refl, of "shift_oldest m s" 1]
    by (cases "items s") (auto simp: shift_oldest_eq)
qed

lemma sheds_shed_items:
  "good_ids m \<Longrightarrow> wf_sessions m \<Longrightarrow>
     sheds m (fst (shed_items fuel limit m))
       (map (\<lambda>(sc, i). WalPurge sc (Some (item_id (the i))))
         (filter (\<lambda>(sc, i). i \<noteq> None) (snd (shed_items fuel limit m))))"
proof (induction fuel limit m rule: shed_items.induct)
  case (1 limit m)
  then show ?case by (simp add: shed_items.simps sheds_refl)
next
  case (2 fuel limit m)
  show ?case
  proof (cases "globalItemCount m > limit")
    case True
    then have "m \<noteq> []" by auto
    then obtain s where s: "oldestSession m = Some s" using oldestSession_None [of m] by auto
    note s' = oldest_in [OF s]
    have ne: "items s \<noteq> []" using s' 2(3) by (auto simp: wf_sessions_def)
    note sh = sheds_shift [OF 2(2,3) s']
    note IH = 2(1) [OF True s sheds_good_ids [OF sh 2(2)] shift_wf [OF 2(3) s']]
    from sheds_trans [OF sh IH] show ?thesis
      using True s ne by (simp add: shed_items.simps(2) split_beta)
  qed (simp add: shed_items.simps sheds_refl)
qed

lemma sheds_shed_sessions:
  "wf_sessions m \<Longrightarrow>
     sheds m (fst (shed_sessions fuel limit m))
       (map (\<lambda>s. WalPurge (scope_of s) None) (snd (shed_sessions fuel limit m)))"
proof (induction fuel limit m rule: shed_sessions.induct)
  case (1 limit m)
  then show ?case by (simp add: shed_sessions.simps sheds_refl)
next
  case (2 fuel limit m)
  show ?case
  proof (cases "length m > limit")
    case True
    then have "m \<noteq> []" by auto
    then obtain s where s: "oldestSession m = Some s" using oldestSession_None [of m] by auto
    have "sheds m (AList.delete (key_text (scope_of s)) m) [WalPurge (scope_of s) None]"
      by (auto simp: sheds_def items_at_delete unhit_def intro!: filter_True [symmetric])
    from sheds_trans [OF this 2(1) [OF True s wf_delete [OF 2(2)]]] show ?thesis
      using True s by (simp add: shed_sessions.simps(2) split_beta)
  qed (simp add: shed_sessions.simps sheds_refl)
qed

text \<open>The same, over the store and its journal.\<close>

definition sheds_to :: "rw_store \<Rightarrow> rw_store \<Rightarrow> bool" where
  "sheds_to st st' = (\<exists>rows. wal st' = map_option (\<lambda>w. w @ rows) (wal st) \<and>
     sheds (rw_sessions st) (rw_sessions st') rows \<and> rw_nextId st' = rw_nextId st)"

lemma sheds_to_trans: "sheds_to a b \<Longrightarrow> sheds_to b c \<Longrightarrow> sheds_to a c"
  unfolding sheds_to_def by (auto simp: option.map_comp comp_def dest: sheds_trans)

lemma sheds_to_good_ids: "sheds_to a b \<Longrightarrow> good_ids (rw_sessions a) \<Longrightarrow> good_ids (rw_sessions b)"
  unfolding sheds_to_def using sheds_good_ids by blast

lemma count_rw_trimmed_simps [simp]:
  "rw_sessions (count_rw_trimmed n st) = rw_sessions st" "wal (count_rw_trimmed n st) = wal st"
  "rw_nextId (count_rw_trimmed n st) = rw_nextId st"
  by (simp_all add: count_rw_trimmed_def)

lemma trimSession_sheds:
  assumes "good_ids (rw_sessions st)" "map_of (rw_sessions st) key = Some s" "key = key_text (scope_of s)"
  shows "sheds_to st (rw_trimSession bud key st)"
proof (cases "length (items s) \<le> max_items_per_session bud")
  case True
  then show ?thesis
    using sheds_refl assms(2) unfolding sheds_to_def
    by (intro exI [of _ "[]"]) (simp add: rw_trimSession_def option.map_ident)
next
  case False
  then show ?thesis
    using sheds_prefix [OF assms disjI1 [OF refl], of "length (items s) - max_items_per_session bud"] assms(2)
    by (simp add: rw_trimSession_def sheds_to_def Let_def) blast
qed

lemma trimGlobal_sheds:
  "good_ids (rw_sessions st) \<Longrightarrow> wf_sessions (rw_sessions st) \<Longrightarrow> sheds_to st (rw_trimGlobal bud st)"
  using sheds_shed_items [of "rw_sessions st" "shed_fuel (rw_sessions st)" "max_global_items bud"]
  by (auto simp: rw_trimGlobal_def sheds_to_def Let_def split_beta)

lemma trimSessions_sheds:
  "wf_sessions (rw_sessions st) \<Longrightarrow> sheds_to st (rw_trimSessions bud st)"
  using sheds_shed_sessions [of "rw_sessions st" "shed_fuel (rw_sessions st)" "max_sessions bud"]
  by (auto simp: rw_trimSessions_def sheds_to_def Let_def split_beta)

lemma rw_trims_sessions:
  "rw_sessions (rw_trimSessions bud (rw_trimGlobal bud st)) =
     shed_all (max_global_items bud) (max_sessions bud) (rw_sessions st)"
  by (simp add: rw_trimSessions_def rw_trimGlobal_def shed_all_def Let_def split_beta)

lemma rw_trimSession_sessions:
  "map_of (rw_sessions st) key = Some s \<Longrightarrow>
   rw_sessions (rw_trimSession bud key st) =
     (if max_items_per_session bud < length (items s)
      then AList.update key (cut_session (max_items_per_session bud) s) (rw_sessions st)
      else rw_sessions st)"
  by (auto simp: rw_trimSession_def Let_def cut_session_def)

subsection \<open>Append\<close>

lemma rejection_None:
  "rejectionFor bud inp = None \<Longrightarrow> isReplayItemWithinBudget bud (newItem bud st inp now) \<and>
     content (newItem bud st inp now) \<noteq> []"
  by (auto simp: rejectionFor_def newItem_def isReplayItemWithinBudget_def Let_def
      split: if_splits option.splits)

lemma newItem_purge [simp]: "newItem bud (rw_purgeExpired st t) inp now = newItem bud st inp now"
  by (simp add: newItem_def)

lemma rw_append_cases:
  assumes "wf_sessions (rw_sessions st)" "rw_append bud st sc inp now = (st', r)" "sane_budget bud"
  obtains (refused) "rw_sessions st' = rw_sessions (rw_purgeExpired st now)"
      "wal st' = wal (rw_purgeExpired st now)" "rw_nextId st' = rw_nextId st"
      "\<forall>i c. r \<noteq> Inr (RAccepted i c)"
    | (accepted) n where "normalizeWorkingSetScope sc = Inr n" "normalized n"
      "rejectionFor bud inp = None"
      "rw_sessions st' = push_shed (max_items_per_session bud) (max_global_items bud) (max_sessions bud)
         (rw_sessions (rw_purgeExpired st now)) n (newItem bud st inp now) now"
      "good_ids (AList.update (key_text n) (push_session (rw_sessions (rw_purgeExpired st now)) n
           (newItem bud st inp now) now) (rw_sessions (rw_purgeExpired st now))) \<longrightarrow>
       (\<exists>rows. sheds (AList.update (key_text n) (push_session (rw_sessions (rw_purgeExpired st now)) n
           (newItem bud st inp now) now) (rw_sessions (rw_purgeExpired st now))) (rw_sessions st') rows \<and>
         wal st' = map_option (\<lambda>w. w @ rows @ [WalAppend n (newItem bud st inp now)])
           (wal (rw_purgeExpired st now)))"
      "rw_nextId st' = (if rin_id inp = None then rw_nextId st + 1 else rw_nextId st)"
      "r = Inr (RAccepted (newItem bud st inp now) (rw_counts st'))"
proof -
  let ?st = "rw_purgeExpired st now" and ?i = "newItem bud st inp now"
  have wf: "wf_sessions (rw_sessions ?st)" by (rule rw_purge_wf [OF assms(1)])
  show thesis
  proof (cases "rejectionFor bud inp")
    case (Some why)
    show thesis
      by (rule refused) (use assms(2) Some in \<open>auto simp: rw_append_def Let_def\<close>)
  next
    case a: None
    show thesis
    proof (cases "normalizeWorkingSetScope sc")
      case (Inl e)
      show thesis
        by (rule refused) (use assms(2) Inl a in \<open>auto simp: rw_append_def Let_def\<close>)
    next
      case n: (Inr n)
      note nn = normalize_normalized [OF n]
      note ps = push_session_eq [OF wf nn, where t = now and now = now and i = ?i]
      let ?p = "push_session (rw_sessions ?st) n ?i now"
      define st1 where "st1 = ?st\<lparr>rw_nextId := (if rin_id inp = None then rw_nextId ?st + 1 else rw_nextId ?st),
         rw_sessions := AList.update (key_text n) ?p (rw_sessions ?st)\<rparr>"
      let ?st2 = "rw_trimSession bud (key_text n) st1"
      let ?st4 = "rw_trimSessions bud (rw_trimGlobal bud ?st2)"
      have st': "st' = writeWal (WalAppend n ?i) ?st4 \<and> r = Inr (RAccepted ?i (rw_counts st'))"
        using assms(2) a n ps by (simp add: rw_append_def Let_def st1_def) blast
      have m1: "map_of (rw_sessions st1) (key_text n) = Some ?p"
        by (simp add: st1_def update_conv')
      have scp: "scope_of ?p = n" by (simp add: push_session_def)
      have "rw_sessions ?st2 =
         AList.update (key_text n) (cut_session (max_items_per_session bud) ?p) (rw_sessions ?st)"
        by (subst rw_trimSession_sessions [OF m1])
          (simp add: st1_def update_update cut_session_def)
      then have sess: "rw_sessions st' = push_shed (max_items_per_session bud) (max_global_items bud)
         (max_sessions bud) (rw_sessions ?st) n ?i now" and wf2: "wf_sessions (rw_sessions ?st2)"
        using st' push_wf [OF wf nn, of "max_items_per_session bud" ?i now] assms(3)
        by (auto simp: rw_trims_sessions push_shed_def writeWal_def sane_budget_def)
      have next1: "rw_nextId st1 = (if rin_id inp = None then rw_nextId st + 1 else rw_nextId st)"
        by (simp add: st1_def)
      have shed: "sheds_to st1 ?st4" if g: "good_ids (rw_sessions st1)"
      proof -
        note s1 = trimSession_sheds [OF g m1 scp [THEN arg_cong [where f = key_text], symmetric], of bud]
        note s2 = trimGlobal_sheds [OF sheds_to_good_ids [OF s1 g] wf2, of bud]
        have "wf_sessions (rw_sessions (rw_trimGlobal bud ?st2))"
          using shed_items_bound [OF wf2, of "shed_fuel (rw_sessions ?st2)" "max_global_items bud"]
          by (simp add: rw_trimGlobal_def Let_def split_beta shed_fuel_def)
        from sheds_to_trans [OF sheds_to_trans [OF s1 s2] trimSessions_sheds [OF this]]
        show ?thesis .
      qed
      have nid: "rw_nextId st' = rw_nextId st1"
        using st' by (simp add: writeWal_def rw_trimSessions_def rw_trimGlobal_def rw_trimSession_def
            Let_def split_beta split: option.split)
      have base: "rw_sessions st1 = AList.update (key_text n) ?p (rw_sessions ?st)" "wal st1 = wal ?st"
        by (simp_all add: st1_def)
      have rows: "\<exists>rows. sheds (rw_sessions st1) (rw_sessions st') rows \<and>
          wal st' = map_option (\<lambda>w. w @ rows @ [WalAppend n ?i]) (wal st1)"
        if g: "good_ids (rw_sessions st1)"
      proof -
        obtain rows where "wal ?st4 = map_option (\<lambda>w. w @ rows) (wal st1)"
          "sheds (rw_sessions st1) (rw_sessions ?st4) rows"
          using shed [OF g] unfolding sheds_to_def by blast
        then show ?thesis using st'
          by (intro exI [of _ rows]) (simp add: writeWal_def option.map_comp comp_def)
      qed
      show thesis
        by (rule accepted [OF n nn a sess impI [OF rows [unfolded base]]])
          (use st' nid next1 in simp_all)
    qed
  qed
qed

subsection \<open>Identifiers\<close>

fun row_ids :: "wal_record \<Rightarrow> string list" where
  "row_ids (WalAppend sc i) = [item_id i]"
| "row_ids _ = []"

definition journal_ids :: "wal_record list \<Rightarrow> string list" where
  "journal_ids rs = concat (map row_ids rs)"

lemma journal_ids_simps [simp]:
  "journal_ids [] = []" "journal_ids (r # rs) = row_ids r @ journal_ids rs"
  "journal_ids (rs @ rs') = journal_ids rs @ journal_ids rs'"
  by (simp_all add: journal_ids_def)

lemma removal_ids: "\<forall>r \<in> set rs. removal r \<Longrightarrow> journal_ids rs = []"
proof (induction rs)
  case (Cons r rs)
  then show ?case by (cases r) auto
qed simp

lemma apply_ids:
  "item_id ` set (lane (applyWalRecord bud st r) k) \<subseteq> item_id ` set (lane st k) \<union> set (row_ids r)"
proof (cases r)
  case (WalAppend sc i)
  have "\<not> isReplayItemWithinBudget bud i \<Longrightarrow> lane (applyWalRecord bud st r) k = lane st k"
    by (simp add: WalAppend applyWalRecord.simps applyAppendRecord_def lane_def)
  then show ?thesis using lane_append [of bud i st sc k] by (cases "isReplayItemWithinBudget bud i") (auto simp: WalAppend)
next
  case (WalMark sc y a s rv u)
  have "set (map item_id (update_first P (\<lambda>i. i\<lparr>rw_status := s, last_action := Some a, reviewed_at := rv,
      updated_at := u\<rparr>) xs)) = set (map item_id xs)" for P and xs :: "rw_item list"
    by (subst map_update_first) simp_all
  then show ?thesis by (simp add: WalMark lane_mark)
next
  case (WalPurge sc y)
  then show ?thesis by (auto simp: lane_purge split: option.splits)
qed

lemma replay_ids: "item_id ` set (lane (replay bud rs) k) \<subseteq> set (journal_ids rs)"
proof (induction rs rule: rev_induct)
  case Nil
  then show ?case by (simp add: replay_def lane_def rw_empty_def items_at_def)
next
  case (snoc r rs)
  have step: "replay bud (rs @ [r]) = applyWalRecord bud (replay bud rs) r" by (simp add: replay_def)
  show ?case unfolding step using apply_ids [of bud "replay bud rs" r k] snoc by auto
qed

lemma replay_append: "replay bud (rs @ rs') = foldl (applyWalRecord bud) (replay bud rs) rs'"
  by (simp add: replay_def)

definition generated_id :: "nat \<Rightarrow> string" where
  "generated_id n = ''rw-'' @ show_nat n"

lemma track_generated: "trackNextId n (generated_id m) = max n (m + 1)"
proof -
  have "list_all is_digit (show_nat m)" using is_digit_show_nat by (simp add: list_all_iff)
  then show ?thesis by (simp add: trackNextId_def generated_id_def starts_with_def read_show_nat)
qed

lemma track_Suc: "trackNextId n x = n \<Longrightarrow> trackNextId (Suc n) x = Suc n"
  by (auto simp: trackNextId_def Let_def split: if_splits)

subsection \<open>The invariant\<close>

text \<open>Ids the caller supplies are its own: not empty, not in the journal, and not of the form the
  store generates with a number it has not reached.\<close>

definition fresh_input :: "rw_store \<Rightarrow> rw_input \<Rightarrow> bool" where
  "fresh_input st inp = (case rin_id inp of None \<Rightarrow> True
     | Some x \<Rightarrow> x \<noteq> '''' \<and> trackNextId (rw_nextId st) x = rw_nextId st \<and>
         (case wal st of None \<Rightarrow> True | Some rs \<Rightarrow> x \<notin> set (journal_ids rs)))"

definition rows_normal :: "wal_record list \<Rightarrow> bool" where
  "rows_normal rs = (\<forall>sc i. WalAppend sc i \<in> set rs \<longrightarrow> normalized sc)"

lemma rows_normal_simps [simp]:
  "rows_normal []" "rows_normal (rs @ rs') \<longleftrightarrow> rows_normal rs \<and> rows_normal rs'"
  by (auto simp: rows_normal_def)

lemma rows_normal_removal: "\<forall>r \<in> set rs. removal r \<Longrightarrow> rows_normal rs"
  by (force simp: rows_normal_def)

definition journaled :: "rw_budget \<Rightarrow> rw_store \<Rightarrow> bool" where
  "journaled bud st = (\<exists>rs. wal st = Some rs \<and> agrees st (replay bud rs) \<and> rows_normal rs \<and>
     (\<forall>x \<in> set (journal_ids rs). x \<noteq> '''' \<and> trackNextId (rw_nextId st) x = rw_nextId st))"

definition rw_bounded :: "rw_budget \<Rightarrow> rw_item sessions \<Rightarrow> bool" where
  "rw_bounded bud m =
     bounded_sessions (max_items_per_session bud) (max_global_items bud) (max_sessions bud) m"

definition rw_inv :: "rw_budget \<Rightarrow> rw_store \<Rightarrow> int \<Rightarrow> bool" where
  "rw_inv bud st t = (rw_bounded bud (rw_sessions st) \<and> updated_by t (rw_sessions st) \<and> journaled bud st)"

lemma rw_inv_wf: "rw_inv bud st t \<Longrightarrow> wf_sessions (rw_sessions st)"
  by (simp add: rw_inv_def rw_bounded_def bounded_sessions_def)

lemma rw_purge_bounded:
  assumes "rw_bounded bud (rw_sessions st)"
  shows "rw_bounded bud (rw_sessions (rw_purgeExpired st now))"
proof -
  have wf: "wf_sessions (rw_sessions st)" using assms by (simp add: rw_bounded_def bounded_sessions_def)
  have c: "globalItemCount (filter (\<lambda>(k, s). items s \<noteq> []) (map (\<lambda>(k, s). (k, expire_session now s)) m))
      \<le> globalItemCount m" for m
    by (induction m) (auto simp: expire_items live_def intro!: add_le_mono intro: le_trans [OF length_filter_le])
  have l: "length (filter (\<lambda>(k, s). items s \<noteq> []) (map (\<lambda>(k, s). (k, expire_session now s)) m)) \<le> length m" for m
    using length_filter_le [of _ "map (\<lambda>(k, s). (k, expire_session now s)) m"] by simp
  have "length (items_at (rw_sessions (rw_purgeExpired st now)) k) \<le> length (items_at (rw_sessions st) k)" for k
    using rw_purge_lane [OF wf, of now k]
    using le_trans [OF length_filter_le length_filter_le] by (simp add: lane_def live_def)
  then have "length (items_at (rw_sessions (rw_purgeExpired st now)) k) \<le> max_items_per_session bud" for k
    using assms le_trans unfolding rw_bounded_def bounded_sessions_def by blast
  moreover have "globalItemCount (rw_sessions (rw_purgeExpired st now)) \<le> max_global_items bud"
    using assms c [of "rw_sessions st"] by (simp add: rw_purge_sessions rw_bounded_def bounded_sessions_def)
  moreover have "length (rw_sessions (rw_purgeExpired st now)) \<le> max_sessions bud"
    using assms le_trans [OF l] unfolding rw_purge_sessions rw_bounded_def bounded_sessions_def by blast
  ultimately show ?thesis
    unfolding rw_bounded_def bounded_sessions_def using rw_purge_wf [OF wf] by blast
qed

lemma rw_purge_updated_by: "updated_by t (rw_sessions st) \<Longrightarrow> updated_by t (rw_sessions (rw_purgeExpired st now))"
  by (force simp: updated_by_def rw_purge_sessions)

lemma purge_journaled:
  assumes "wf_sessions (rw_sessions st)" "journaled bud st"
  shows "journaled bud (rw_purgeExpired st now)"
proof -
  from assms(2) obtain rs where rs: "wal st = Some rs" "agrees st (replay bud rs)" "rows_normal rs"
    "\<forall>x \<in> set (journal_ids rs). x \<noteq> '''' \<and> trackNextId (rw_nextId st) x = rw_nextId st"
    by (auto simp: journaled_def)
  have "journal_ids (purge_rows st now) = []" "rows_normal (purge_rows st now)"
    using removal_ids rows_normal_removal purge_rows_removal by blast+
  then show ?thesis
    unfolding journaled_def
    using rs purge_agrees [OF assms(1) rs(2), of now bud]
    by (intro exI [of _ "rs @ purge_rows st now"]) (simp add: rw_purge_wal replay_append)
qed

lemma purge_rw_inv: "rw_inv bud st t \<Longrightarrow> t \<le> now \<Longrightarrow> rw_inv bud (rw_purgeExpired st now) now"
  unfolding rw_inv_def
  using rw_purge_bounded rw_purge_updated_by updated_by_mono purge_journaled
  by (metis rw_bounded_def bounded_sessions_def)

subsection \<open>The steps keep it\<close>

text \<open>After an expiry the lanes hold live records only, each of them in the replay.\<close>

lemma purged_lane_ids:
  assumes "wf_sessions (rw_sessions st)" "agrees (rw_purgeExpired st now) (replay bud rs)"
  shows "distinct (map item_id (lane (rw_purgeExpired st now) k)) \<and>
    item_id ` set (lane (rw_purgeExpired st now) k) \<subseteq> set (journal_ids rs)"
proof -
  have eq: "lane (rw_purgeExpired st now) k = live (lane (replay bud rs) k)"
    using assms(2) purge_all_live [OF assms(1), of now k] by (simp add: agrees_def)
  have "distinct (map item_id (lane (replay bud rs) k))"
    using assms(2) by (simp add: agrees_def ids_ok_def)
  moreover have "set (live xs) \<subseteq> set xs" for xs by (auto simp: live_def)
  ultimately show ?thesis unfolding eq
    using distinct_live [of "lane (replay bud rs) k"] replay_ids [of bud rs k] by blast
qed

lemma append_journaled:
  assumes inv: "rw_inv bud st t" and sane: "sane_budget bud" and now: "t \<le> now"
    and fresh: "fresh_input st inp" and app: "rw_append bud st sc inp now = (st', r)"
  shows "rw_inv bud st' now"
proof (rule rw_append_cases [OF rw_inv_wf [OF inv] app sane])
  let ?st = "rw_purgeExpired st now" and ?i = "newItem bud st inp now"
  note wf = rw_inv_wf [OF inv]
  have pinv: "rw_inv bud ?st now" by (rule purge_rw_inv [OF inv now])
  {
    assume "rw_sessions st' = rw_sessions ?st" "wal st' = wal ?st" "rw_nextId st' = rw_nextId st"
    then show "rw_inv bud st' now"
      using pinv by (simp add: rw_inv_def journaled_def agrees_def lane_def)
  }
  fix n
  assume n: "normalized n" "rejectionFor bud inp = None"
    and sess: "rw_sessions st' = push_shed (max_items_per_session bud) (max_global_items bud)
         (max_sessions bud) (rw_sessions ?st) n ?i now"
    and nid: "rw_nextId st' = (if rin_id inp = None then rw_nextId st + 1 else rw_nextId st)"
  let ?m1 = "AList.update (key_text n) (push_session (rw_sessions ?st) n ?i now) (rw_sessions ?st)"
  assume shed: "good_ids ?m1 \<longrightarrow> (\<exists>rows. sheds ?m1 (rw_sessions st') rows \<and>
         wal st' = map_option (\<lambda>w. w @ rows @ [WalAppend n ?i]) (wal ?st))"
  from pinv obtain rs where rs: "wal ?st = Some rs" "agrees ?st (replay bud rs)"
    "\<forall>x \<in> set (journal_ids rs). x \<noteq> '''' \<and> trackNextId (rw_nextId st) x = rw_nextId st"
    and normal: "rows_normal rs"
    by (auto simp: rw_inv_def journaled_def)
  have rs0: "\<exists>rs0. wal st = Some rs0 \<and> journal_ids rs = journal_ids rs0"
    using rs(1) removal_ids [of "purge_rows st now"] purge_rows_removal [of _ st now]
    by (auto simp: rw_purge_wal)
  have idi: "item_id ?i = (case rin_id inp of None \<Rightarrow> generated_id (rw_nextId st) | Some x \<Rightarrow> x)"
    by (simp add: newItem_def or_else_def generated_id_def split: option.split)
  have new: "item_id ?i \<notin> set (journal_ids rs)" "item_id ?i \<noteq> ''''"
      "trackNextId (rw_nextId st') (item_id ?i) = rw_nextId st'"
    using fresh rs0 rs(3) track_generated [of "rw_nextId st" "rw_nextId st"] nid
      track_generated [of "rw_nextId st + 1" "rw_nextId st"]
    unfolding idi fresh_input_def
    by (auto split: option.splits) (simp_all add: generated_id_def)
  have old: "\<forall>x \<in> set (journal_ids rs). x \<noteq> '''' \<and> trackNextId (rw_nextId st') x = rw_nextId st'"
    using rs(3) nid track_Suc by auto
  note ids = purged_lane_ids [OF wf rs(2)]
  have at1: "items_at ?m1 k = (if k = key_text n then lane ?st k @ [?i] else lane ?st k)" for k
    by (simp add: items_at_update push_session_def lane_def)
  have good: "good_ids ?m1"
    unfolding good_ids_def at1 using ids new rs(3) by (auto simp: image_iff)
  with shed rs(1) obtain rows where rows: "sheds ?m1 (rw_sessions st') rows"
    "wal st' = Some (rs @ rows @ [WalAppend n ?i])" by auto
  have b: "bounded_sessions (max_items_per_session bud) (max_global_items bud) (max_sessions bud)
      (rw_sessions ?st)" and clock: "\<forall>s \<in> snd ` set (rw_sessions ?st). updated_at_ms s \<le> now"
    using pinv by (simp_all add: rw_inv_def rw_bounded_def updated_by_def)
  have pos: "0 < max_items_per_session bud" "0 < max_global_items bud" "0 < max_sessions bud"
    using sane by (simp_all add: sane_budget_def)
  have lanes: "lane st' k = filter (unhit rows k) (if k = key_text n then lane ?st k @ [?i] else lane ?st k)" for k
    using rows(1) by (simp add: sheds_def lane_def [of st'] at1)
  have unhit: "unhit rows (key_text n) ?i"
  proof -
    have "?i \<in> set (lane st' (key_text n))"
      using push_survives [OF b n(1) clock pos, of ?i] sess by (auto simp: lane_def)
    then show ?thesis by (auto simp: lanes split: if_splits)
  qed
  let ?R1 = "foldl (applyWalRecord bud) (replay bud rs) rows"
  have R0: "ids_ok (replay bud rs)" "\<And>k. live (lane (replay bud rs) k) = live (lane ?st k)"
    using rs(2) by (auto simp: agrees_def)
  have R1: "live (lane ?R1 k) = filter (unhit rows k) (live (lane ?st k))" "ids_ok ?R1" for k
    using removal_rows [OF _ R0(1), of rows bud] R0(2) rows(1) by (auto simp: sheds_def)
  have R2: "lane (replay bud (rs @ rows @ [WalAppend n ?i])) k =
      (if k = key_text n then lane ?R1 k @ [?i] else lane ?R1 k)" for k
    using rejection_None [OF n(2), of st now] lane_append [of bud ?i ?R1 n k]
    by (simp add: replay_append)
  have notin: "item_id ?i \<notin> item_id ` set (lane ?R1 k)" for k
    using replay_ids [of bud "rs @ rows" k] new(1) removal_ids [of rows] rows(1)
    by (auto simp: replay_append sheds_def)
  have "agrees st' (replay bud (rs @ rows @ [WalAppend n ?i]))"
    unfolding agrees_def ids_ok_def R2 lanes using R1 unhit notin
    by (auto simp: live_filter ids_ok_def) (simp_all add: live_def)
  moreover have "\<forall>x \<in> set (journal_ids (rs @ rows @ [WalAppend n ?i])).
      x \<noteq> '''' \<and> trackNextId (rw_nextId st') x = rw_nextId st'"
    using old new removal_ids [of rows] rows(1) by (auto simp: sheds_def)
  moreover have "rows_normal (rs @ rows @ [WalAppend n ?i])"
    using normal n(1) rows_normal_removal [of rows] rows(1) by (auto simp: sheds_def) (simp add: rows_normal_def)
  ultimately have "journaled bud st'" using rows(2) unfolding journaled_def by blast
  moreover have "rw_bounded bud (rw_sessions st')"
    unfolding rw_bounded_def sess by (rule push_shed_bounded(1) [OF b n(1) pos(1)])
  moreover have "updated_by now (rw_sessions st')"
    unfolding sess using pinv by (intro updated_by_push_shed) (simp_all add: rw_inv_def)
  ultimately show "rw_inv bud st' now" by (simp add: rw_inv_def)
qed

lemma bounded_update_existing:
  assumes "bounded_sessions p g n m" "map_of m (key_text (scope_of s)) = Some s"
    and "scope_of s' = scope_of s" "items s' \<noteq> []" "length (items s') \<le> length (items s)"
  shows "bounded_sessions p g n (AList.update (key_text (scope_of s)) s' m)"
proof -
  have wf: "wf_sessions m" using assms(1) by (simp add: bounded_sessions_def)
  have "wf_sessions (AList.update (key_text (scope_of s)) s' m)"
    using wf_map_ofD [OF wf assms(2)] assms(3,4) wf by (intro wf_update) auto
  moreover have "length (items s) \<le> p"
    using assms(1,2) unfolding bounded_sessions_def items_at_def
    by (metis option.simps(5))
  moreover have "globalItemCount (AList.update (key_text (scope_of s)) s' m) \<le> g"
    using count_update [OF assms(2), of s'] assms(1,5) by (simp add: bounded_sessions_def)
  ultimately show ?thesis
    using assms(1,2,5) by (auto simp: bounded_sessions_def items_at_update length_update)
qed

lemma bounded_delete: "bounded_sessions p g n m \<Longrightarrow> bounded_sessions p g n (AList.delete k m)"
  unfolding bounded_sessions_def
  using wf_delete [of m k] count_delete_le [of k m] length_delete_le [of k m]
  by (auto simp: items_at_delete)

lemma find_first_update:
  "distinct (map f xs) \<Longrightarrow> find (\<lambda>c. f c = y) xs = Some i \<Longrightarrow>
     i \<in> set xs \<and> f i = y \<and> (\<forall>c \<in> set xs. f c = y \<longrightarrow> c = i)"
  by (induction xs) (auto split: if_splits intro: rev_image_eqI)

text \<open>A row that decides a record present in both, applied to both.\<close>

lemma decide_agrees:
  assumes "ids_ok R" "live (lane R k) = xs" "live xs = xs" "i \<in> set xs" "item_id i = y"
  shows "live (update_first (\<lambda>c. item_id c = y) (\<lambda>j. j\<lparr>rw_status := s, last_action := a,
        reviewed_at := rv, updated_at := u\<rparr>) (lane R k)) =
    live (update_first (\<lambda>c. item_id c = y) (\<lambda>j. j\<lparr>rw_status := s, last_action := a,
        reviewed_at := rv, updated_at := u\<rparr>) xs)"
proof -
  let ?g = "\<lambda>j. j\<lparr>rw_status := s, last_action := a, reviewed_at := rv, updated_at := u\<rparr>"
  have d: "distinct (map item_id (lane R k))" using assms(1) by (simp add: ids_ok_def)
  then have dx: "distinct (map item_id xs)" using distinct_live assms(2) by blast
  have uniq: "j = i" if "j \<in> set (lane R k)" "item_id j = y" for j
    using d that assms(2,4,5) by (auto simp: distinct_map set_live dest: inj_onD)
  have il: "rw_status i \<noteq> ''expired''" using assms(2,4) by (auto simp: set_live)
  have "live (map (\<lambda>c. if item_id c = y then ?g c else c) ys) =
      live (map (\<lambda>c. if item_id c = y then ?g c else c) (live ys))"
    if "\<forall>j \<in> set ys. item_id j = y \<longrightarrow> rw_status j \<noteq> ''expired''" for ys
    using that by (induction ys) (auto simp: live_def)
  from this [of "lane R k"] have "live (map (\<lambda>c. if item_id c = y then ?g c else c) (lane R k)) =
      live (map (\<lambda>c. if item_id c = y then ?g c else c) xs)"
    using uniq il assms(2) by blast
  then show ?thesis by (simp add: update_first_distinct [OF d] update_first_distinct [OF dx])
qed

lemma mark_rw_inv:
  assumes inv: "rw_inv bud st t" and now: "t \<le> now" and mk: "rw_mark st sc y d now = (st', r)"
  shows "rw_inv bud st' now"
proof -
  let ?st = "rw_purgeExpired st now"
  have pinv: "rw_inv bud ?st now" by (rule purge_rw_inv [OF inv now])
  note wf = rw_inv_wf [OF inv] and wfp = rw_inv_wf [OF pinv]
  from pinv obtain rs where rs: "wal ?st = Some rs" "agrees ?st (replay bud rs)"
    "\<forall>x \<in> set (journal_ids rs). x \<noteq> '''' \<and> trackNextId (rw_nextId st) x = rw_nextId st"
    and normal: "rows_normal rs"
    by (auto simp: rw_inv_def journaled_def)
  note ids = purged_lane_ids [OF wf rs(2)]
  note all_live = purge_all_live [OF wf, of now]
  have R0: "ids_ok (replay bud rs)" "\<And>k. live (lane (replay bud rs) k) = lane ?st k"
    using rs(2) by (auto simp: agrees_def all_live)
  show ?thesis
  proof (cases "st' = ?st")
    case True
    then show ?thesis using pinv by simp
  next
    case False
    then obtain n s i where nsi: "normalizeWorkingSetScope sc = Inr n"
      "map_of (rw_sessions ?st) (key_text n) = Some s" "find (\<lambda>c. item_id c = y) (items s) = Some i"
      "st' = (if d_purge d then fst (purgeMarked ?st s i n) else fst (applyDecision ?st s i d n now))"
      using mk by (auto simp: rw_mark_def Let_def split: if_splits sum.splits option.splits prod.splits)
    have scs: "scope_of s = n" using wf_map_ofD [OF wfp nsi(2)] by (simp add: key_text_inj)
    have at: "lane ?st (key_text n) = items s" using nsi(2) by (simp add: lane_def items_at_def)
    have i: "i \<in> set (items s)" "item_id i = y"
      using find_first_update [of item_id "items s" y i] ids [of "key_text n"] at nsi(3) by auto
    have lv: "live (items s) = items s" using all_live [of "key_text n"] at by simp
    have y: "y \<noteq> ''''" using ids [of "key_text n"] at i rs(3) by auto
    have b: "bounded_sessions (max_items_per_session bud) (max_global_items bud) (max_sessions bud)
      (rw_sessions ?st)" and upd: "updated_by now (rw_sessions ?st)"
      using pinv by (simp_all add: rw_inv_def rw_bounded_def)
    show ?thesis
    proof (cases "d_purge d")
      case True
      let ?s = "s\<lparr>items := filter (\<lambda>c. item_id c \<noteq> y) (items s)\<rparr>"
      have sess: "rw_sessions st' = (if items ?s = [] then AList.delete (key_text n) (rw_sessions ?st)
          else AList.update (key_text n) ?s (rw_sessions ?st))"
        using nsi(4) True i by (simp add: purgeMarked_def Let_def writeWal_def deleteIfEmpty_def scs
            update_delete_same)
      have w: "wal st' = Some (rs @ [WalPurge n (Some y)])" "rw_nextId st' = rw_nextId st"
        using nsi(4) True i rs(1) by (simp_all add: purgeMarked_def Let_def writeWal_def)
      have uh: "unhit [WalPurge n (Some y)] k = (\<lambda>c. k = key_text n \<longrightarrow> item_id c \<noteq> y)" for k
        by (auto simp: unhit_def)
      have lanes: "lane st' k = filter (unhit [WalPurge n (Some y)] k) (lane ?st k)" for k
        using at unfolding uh by (auto simp: lane_def sess items_at_update items_at_delete)
      note rr = removal_rows [OF _ R0(1), of "[WalPurge n (Some y)]" bud]
      have "agrees st' (replay bud (rs @ [WalPurge n (Some y)]))"
        unfolding agrees_def replay_append using rr y R0(2) lanes all_live by (simp add: live_filter)
      then have "journaled bud st'"
        using w rs(3) normal unfolding journaled_def by (auto simp: rows_normal_def)
      moreover have "rw_bounded bud (rw_sessions st')"
        unfolding rw_bounded_def sess
        using b bounded_update_existing [OF b, of s ?s] nsi(2) scs bounded_delete by auto
      moreover have "updated_by now (rw_sessions st')"
        using updated_by_update [OF upd, of ?s] updated_by_delete [OF upd] upd
          map_of_SomeD [OF nsi(2)] unfolding sess by (force simp: updated_by_def)
      ultimately show ?thesis by (simp add: rw_inv_def)
    next
      case False
      let ?s = "s\<lparr>items := update_first (\<lambda>c. item_id c = y) (decide_item d now) (items s),
                 updated_at_ms := now\<rparr>"
      let ?rv = "reviewed_at (decide_item d now i)"
      let ?row = "WalMark n y (d_action d) (d_status d) ?rv now"
      have sess: "rw_sessions st' = AList.update (key_text n) ?s (rw_sessions ?st)"
        using nsi(4) False i by (simp add: applyDecision_def Let_def writeWal_def scs)
      have w: "wal st' = Some (rs @ [?row])" "rw_nextId st' = rw_nextId st"
        using nsi(4) False i rs(1) by (simp_all add: applyDecision_def Let_def writeWal_def)
      have dx: "distinct (map item_id (items s))" using ids [of "key_text n"] at by simp
      have g: "update_first (\<lambda>c. item_id c = y) (decide_item d now) (items s) =
          update_first (\<lambda>c. item_id c = y) (\<lambda>j. j\<lparr>rw_status := d_status d, last_action := Some (d_action d),
            reviewed_at := ?rv, updated_at := now\<rparr>) (items s)"
        using find_first_update [OF dx nsi(3)]
        by (auto simp: update_first_distinct [OF dx] decide_item_def)
      have "live (lane (replay bud (rs @ [?row])) k) = live (lane st' k)" for k
      proof (cases "k = key_text n")
        case True
        have "live (lane (replay bud (rs @ [?row])) k) =
            live (update_first (\<lambda>c. item_id c = y) (\<lambda>j. j\<lparr>rw_status := d_status d,
              last_action := Some (d_action d), reviewed_at := ?rv, updated_at := now\<rparr>)
              (lane (replay bud rs) k))"
          using True by (simp add: replay_append lane_mark)
        also have "\<dots> = live (update_first (\<lambda>c. item_id c = y) (decide_item d now) (items s))"
          unfolding g
          by (rule decide_agrees [OF R0(1)]) (use True R0(2) at i lv in auto)
        finally show ?thesis using True by (simp add: lane_def [of st'] sess items_at_update)
      next
        case False
        then show ?thesis
          using R0(2) all_live by (simp add: replay_append lane_mark lane_def [of st'] sess items_at_update)
            (simp add: lane_def)
      qed
      moreover have "ids_ok (replay bud (rs @ [?row]))"
        using R0(1) by (auto simp: ids_ok_def replay_append lane_mark map_update_first)
      ultimately have "journaled bud st'"
        using w rs(3) normal unfolding journaled_def agrees_def by (auto simp: rows_normal_def)
      moreover have "length (update_first P h xs) = length xs" for P h and xs :: "rw_item list"
        by (induction xs) auto
      then have "rw_bounded bud (rw_sessions st')"
        unfolding rw_bounded_def sess
        using bounded_update_existing [OF b, of s ?s] nsi(2) scs i(1)
        by (cases "items s") auto
      moreover have "updated_by now (rw_sessions st')"
        unfolding sess by (rule updated_by_update [OF upd]) simp
      ultimately show ?thesis by (simp add: rw_inv_def)
    qed
  qed
qed

subsection \<open>The sessions a replay builds\<close>

lemma loadWal_Nil: "loadWal bud [] = rw_empty (Some [])"
  by (simp add: loadWal_def enforceReplayBudgets_def cut_all_def shed_items_none shed_sessions_none
      compactWal_def count_rw_trimmed_def rw_empty_def)

lemma rw_start_inv: "rw_inv bud (loadWal bud []) t"
  by (simp add: loadWal_Nil rw_inv_def rw_bounded_def journaled_def agrees_def ids_ok_def lane_def
      replay_def rw_empty_def bounded_sessions_def wf_sessions_def items_at_def updated_by_def)

text \<open>Replay reads and writes the sessions only.\<close>

lemma apply_sessions_cong:
  "rw_sessions a = rw_sessions b \<Longrightarrow>
     rw_sessions (applyWalRecord bud a r) = rw_sessions (applyWalRecord bud b r)"
  by (cases r) (auto simp: applyWalRecord.simps applyAppendRecord_def Let_def split: option.split)

lemma foldl_sessions_cong:
  "rw_sessions a = rw_sessions b \<Longrightarrow>
     rw_sessions (foldl (applyWalRecord bud) a rs) = rw_sessions (foldl (applyWalRecord bud) b rs)"
proof (induction rs arbitrary: a b)
  case (Cons r rs)
  then show ?case using apply_sessions_cong by (metis foldl_Cons)
qed simp

definition parsed :: "wal_record option list \<Rightarrow> wal_record list" where
  "parsed rows = concat (map (\<lambda>r. case r of None \<Rightarrow> [] | Some x \<Rightarrow> [x]) rows)"

lemma replayRows_parsed: "fst (replayRows bud st rows) = foldl (applyWalRecord bud) st (parsed rows)"
  by (induction bud st rows rule: replayRows.induct) (auto simp: parsed_def split_beta)

lemma replayRows_sessions:
  "rw_sessions (fst (replayRows bud (rw_empty w) rows)) = rw_sessions (replay bud (parsed rows))"
  unfolding replayRows_parsed replay_def by (rule foldl_sessions_cong) (simp add: rw_empty_def)

lemma apply_wf:
  assumes "wf_sessions (rw_sessions st)" "rows_normal [r]"
  shows "wf_sessions (rw_sessions (applyWalRecord bud st r))"
proof (cases r)
  case (WalAppend sc i)
  have "scope_of s = sc" if "map_of (rw_sessions st) (key_text sc) = Some s" for s
    using wf_map_ofD [OF assms(1) that] by (simp add: key_text_inj)
  then show ?thesis
    using assms by (auto simp: WalAppend applyWalRecord.simps applyAppendRecord_def Let_def or_else_def
        rows_normal_def split: option.split intro!: wf_update)
next
  case (WalMark sc y a s rv u)
  have "update_first P h xs = [] \<longleftrightarrow> xs = []" for P h and xs :: "rw_item list"
    by (cases xs) auto
  then show ?thesis
    using assms(1) wf_map_ofD [OF assms(1)]
    by (auto simp: WalMark applyWalRecord.simps split: option.split intro!: wf_update)
next
  case (WalPurge sc y)
  then show ?thesis
    using assms(1) wf_map_ofD [OF assms(1)]
    by (auto simp: WalPurge applyWalRecord.simps Let_def update_delete_same wf_delete
        split: option.split intro!: wf_update)
qed

lemma replay_wf: "rows_normal rs \<Longrightarrow> wf_sessions (rw_sessions (replay bud rs))"
proof (induction rs rule: rev_induct)
  case Nil
  show ?case by (simp add: replay_def rw_empty_def wf_sessions_def)
next
  case (snoc r rs)
  then show ?case using apply_wf [of "replay bud rs" r bud] by (simp add: replay_def)
qed

subsection \<open>Restart\<close>

lemma loadWal_sessions:
  "rw_sessions (loadWal bud rows) = shed_all (max_global_items bud) (max_sessions bud)
     (cut_all bud (rw_sessions (replay bud (parsed rows))))"
  by (simp add: loadWal_def enforceReplayBudgets_def compactWal_def Let_def split_beta
      replayRows_sessions shed_all_def)

lemma cut_all_lane:
  assumes "wf_sessions m"
  shows "wf_sessions (cut_all bud m) \<and>
    items_at (cut_all bud m) k = drop (length (items_at m k) - max_items_per_session bud) (items_at m k)"
proof
  let ?f = "map (\<lambda>(k, s). (k, cut_session (max_items_per_session bud) s))"
  have keys: "map fst (?f m) = map fst m" for m :: "rw_item sessions" by (induction m) auto
  have "distinct (map fst (?f m))" using assms by (simp only: keys wf_distinct)
  then have "distinct (map fst (cut_all bud m))" unfolding cut_all_def by (simp add: distinct_map_filter)
  then show "wf_sessions (cut_all bud m)"
    using assms by (auto simp: wf_sessions_def cut_all_def cut_session_def)
  have "map_of (filter (\<lambda>(k, s). items s \<noteq> []) (?f m)) k =
     (case map_of m k of None \<Rightarrow> None
      | Some s \<Rightarrow> if items (cut_session (max_items_per_session bud) s) = [] then None
                  else Some (cut_session (max_items_per_session bud) s))"
    if "distinct (map fst m)" for m :: "rw_item sessions"
    using that by (induction m) (auto simp: map_of_eq_None_iff rev_image_eqI split: option.splits)
  from this [OF wf_distinct [OF assms]]
  show "items_at (cut_all bud m) k = drop (length (items_at m k) - max_items_per_session bud) (items_at m k)"
    by (auto simp: items_at_def cut_all_def cut_session_def split: option.splits)
qed

lemma apply_wal: "wal (applyWalRecord bud st r) = wal st"
  by (cases r) (auto simp: applyWalRecord.simps applyAppendRecord_def Let_def split: option.split)

lemma replayRows_wal: "wal (fst (replayRows bud st rows)) = wal st"
proof -
  have "wal (foldl (applyWalRecord bud) s rs) = wal s" for s rs by (induction rs arbitrary: s) (simp_all add: apply_wal)
  then show ?thesis by (simp add: replayRows_parsed)
qed

lemma bounded_cut_all:
  assumes "rw_bounded bud m"
  shows "cut_all bud m = m"
proof -
  have "cut_session (max_items_per_session bud) s = s \<and> items s \<noteq> []" if "(k, s) \<in> set m" for k s
  proof -
    have "wf_sessions m" using assms by (simp add: rw_bounded_def bounded_sessions_def)
    with that have "map_of m k = Some s" "items s \<noteq> []" by (auto simp: wf_sessions_def)
    then have "length (items s) \<le> max_items_per_session bud"
      using assms unfolding rw_bounded_def bounded_sessions_def items_at_def by (metis option.simps(5))
    then show ?thesis using \<open>items s \<noteq> []\<close> by (simp add: cut_session_def)
  qed
  then have "map (\<lambda>(k, s). (k, cut_session (max_items_per_session bud) s)) m = m"
    and "\<forall>p \<in> set m. items (snd p) \<noteq> []"
    by (auto intro!: map_idI)
  then show ?thesis by (simp add: cut_all_def split_beta)
qed

text \<open>The rows of the journal carry times up to \<open>t\<close>.\<close>

fun row_by :: "int \<Rightarrow> wal_record \<Rightarrow> bool" where
  "row_by t (WalAppend sc i) = (updated_at i \<le> t)"
| "row_by t (WalMark sc y a s r u) = (u \<le> t)"
| "row_by t (WalPurge sc y) = True"

definition wal_by :: "int \<Rightarrow> rw_store \<Rightarrow> bool" where
  "wal_by t st = (case wal st of None \<Rightarrow> True | Some rs \<Rightarrow> list_all (row_by t) rs)"

lemma wal_by_write: "wal_by t st \<Longrightarrow> list_all (row_by t) rs \<Longrightarrow> wal_by t (write_rows rs st)"
  by (simp add: wal_by_def split: option.splits)

lemma wal_by_cong: "wal st' = wal st \<Longrightarrow> wal_by t st' = wal_by t st"
  by (simp add: wal_by_def)

lemma wal_by_row: "wal_by t st \<Longrightarrow> row_by t r \<Longrightarrow> wal_by t (writeWal r st)"
  by (simp add: wal_by_def writeWal_def split: option.splits)

lemma wal_by_mono:
  assumes "wal_by t st" "t \<le> t'"
  shows "wal_by t' st"
proof -
  have "row_by t' r" if "row_by t r" for r using that assms(2) by (cases r) auto
  with assms(1) show ?thesis by (auto simp: wal_by_def list_all_iff split: option.splits)
qed

lemma purge_wal_by:
  assumes "wal_by t st" "t \<le> now"
  shows "wal_by now (rw_purgeExpired st now)"
proof -
  have "list_all (row_by now) (purge_rows st now)" by (auto simp: list_all_iff purge_rows_def expire_rows_def)
  with wal_by_mono [OF assms] show ?thesis by (simp add: wal_by_def rw_purge_wal split: option.splits)
qed

lemma trims_wal_by:
  "wal_by t st \<Longrightarrow> wal_by t (rw_trimSession bud key st)" "wal_by t st \<Longrightarrow> wal_by t (rw_trimGlobal bud st)"
  "wal_by t st \<Longrightarrow> wal_by t (rw_trimSessions bud st)"
  by (auto simp: rw_trimSession_def rw_trimGlobal_def rw_trimSessions_def Let_def list_all_iff split_beta
      intro!: wal_by_write split: option.split) (simp_all add: wal_by_def)

lemma append_wal_by:
  assumes "wal_by t st" "t \<le> now" "rw_append bud st sc inp now = (st', r)"
  shows "wal_by now st'"
proof -
  have p: "wal_by now (rw_purgeExpired st now)" by (rule purge_wal_by [OF assms(1,2)])
  then have "wal_by now (st2\<lparr>rw_counts := c\<rparr>) \<longleftrightarrow> wal_by now st2" for st2 c by (simp add: wal_by_def)
  moreover have "row_by now (WalAppend n (newItem bud (rw_purgeExpired st now) inp now))" for n by (simp add: newItem_def)
  moreover have "wal_by now ((rw_purgeExpired st now)\<lparr>rw_nextId := a, rw_sessions := b\<rparr>)" for a b using p by (simp add: wal_by_def)
  ultimately show ?thesis using assms(3) p
    by (auto simp: rw_append_def Let_def simp del: newItem_purge row_by.simps split: option.splits sum.splits
        intro!: wal_by_row trims_wal_by)
qed

lemma mark_wal_by:
  assumes "wal_by t st" "t \<le> now" "rw_mark st sc y d now = (st', r)"
  shows "wal_by now st'"
proof -
  have p: "wal_by now (rw_purgeExpired st now)" by (rule purge_wal_by [OF assms(1,2)])
  then have "wal_by now (fst (purgeMarked (rw_purgeExpired st now) s i n))" "wal_by now (fst (applyDecision (rw_purgeExpired st now) s i d n now))" for s i n
    by (auto simp: purgeMarked_def applyDecision_def Let_def wal_by_def writeWal_def split: option.splits)
  then show ?thesis using assms(3) p
    by (auto simp: rw_mark_def Let_def split: if_splits sum.splits option.splits prod.splits) (metis fst_conv)+
qed

text \<open>What a replay builds: items within the budget, ids that the next generated one cannot meet, times up to \<open>t\<close>.\<close>

lemma track_max: "trackNextId n x = n \<Longrightarrow> n \<le> m \<Longrightarrow> trackNextId m x = m"
  by (auto simp: trackNextId_def Let_def split: if_splits)

lemma track_ge: "n \<le> trackNextId n x" "trackNextId (trackNextId n x) x = trackNextId n x"
  by (auto simp: trackNextId_def Let_def)

definition replayed_ok :: "rw_budget \<Rightarrow> int \<Rightarrow> rw_store \<Rightarrow> bool" where
  "replayed_ok bud t R \<longleftrightarrow> updated_by t (rw_sessions R) \<and>
     (\<forall>k. \<forall>i \<in> set (lane R k). updated_at i \<le> t \<and> isReplayItemWithinBudget bud i \<and> trackNextId (rw_nextId R) (item_id i) = rw_nextId R)"

lemma apply_replayed_ok:
  assumes ok: "replayed_ok bud t R" and row: "row_by t r"
  shows "replayed_ok bud t (applyWalRecord bud R r)"
proof (cases r)
  case (WalAppend sc i)
  show ?thesis
  proof (cases "isReplayItemWithinBudget bud i")
    case True
    have at: "lane (applyWalRecord bud R r) k = (if k = key_text sc then lane R k @ [i] else lane R k)" for k
      unfolding WalAppend by (rule lane_append [OF True])
    have nid: "rw_nextId (applyWalRecord bud R r) = trackNextId (rw_nextId R) (item_id i)"
      using True by (simp add: WalAppend applyWalRecord.simps applyAppendRecord_def Let_def)
    have "updated_by t (rw_sessions (applyWalRecord bud R r))"
      using True ok row by (simp add: WalAppend applyWalRecord.simps applyAppendRecord_def Let_def replayed_ok_def updated_by_update)
    moreover have "updated_at i \<le> t" using row by (simp add: WalAppend)
    ultimately show ?thesis using ok True track_ge(2) track_max [OF _ track_ge(1)]
      unfolding replayed_ok_def at nid by auto
  next
    case False
    then have "rw_sessions (applyWalRecord bud R r) = rw_sessions R" "rw_nextId (applyWalRecord bud R r) = rw_nextId R"
      by (simp_all add: WalAppend applyWalRecord.simps applyAppendRecord_def)
    then show ?thesis using ok by (simp add: replayed_ok_def lane_def)
  qed
next
  case (WalPurge sc y)
  have "rw_nextId (applyWalRecord bud R r) = rw_nextId R" "updated_by t (rw_sessions (applyWalRecord bud R r))"
    using ok by (auto simp: WalPurge applyWalRecord.simps replayed_ok_def Let_def updated_by_delete update_delete_same split: option.split
        intro!: updated_by_update dest!: map_of_SomeD) (auto simp: updated_by_def)
  then show ?thesis using ok by (auto simp: replayed_ok_def WalPurge lane_purge split: if_splits option.splits)
next
  case (WalMark sc y a s rv u)
  let ?g = "\<lambda>i. i\<lparr>rw_status := s, last_action := Some a, reviewed_at := rv, updated_at := u\<rparr>"
  have sub: "set (update_first P ?g xs) \<subseteq> set xs \<union> ?g ` set xs" for P and xs :: "rw_item list" by (induction xs) auto
  have "rw_nextId (applyWalRecord bud R r) = rw_nextId R" "updated_by t (rw_sessions (applyWalRecord bud R r))"
    using ok row by (auto simp: WalMark applyWalRecord.simps replayed_ok_def updated_by_update split: option.split)
  moreover have "updated_at i \<le> t \<and> isReplayItemWithinBudget bud i \<and> trackNextId (rw_nextId R) (item_id i) = rw_nextId R"
    if i: "i \<in> set (lane (applyWalRecord bud R r) k)" for i k
  proof -
    from i sub [of "\<lambda>c. item_id c = y" "lane R k"]
    obtain j where j: "j \<in> set (lane R k)" "i = j \<or> i = ?g j"
      unfolding WalMark lane_mark by (cases "k = key_text sc") auto
    have "updated_at j \<le> t" "isReplayItemWithinBudget bud j" "trackNextId (rw_nextId R) (item_id j) = rw_nextId R"
      using ok j(1) unfolding replayed_ok_def by blast+
    moreover have "u \<le> t" using row by (simp add: WalMark)
    ultimately show ?thesis using j(2) by (auto simp: isReplayItemWithinBudget_def)
  qed
  ultimately show ?thesis unfolding replayed_ok_def by simp
qed

lemma foldl_replayed_ok:
  "replayed_ok bud t R \<Longrightarrow> list_all (row_by t) rs \<Longrightarrow> replayed_ok bud t (foldl (applyWalRecord bud) R rs)"
  by (induction rs arbitrary: R) (auto simp: apply_replayed_ok)

text \<open>The compacted journal replays to the store it was written from.\<close>

lemma lane_appends:
  "\<forall>i \<in> set xs. isReplayItemWithinBudget bud i \<Longrightarrow>
   lane (foldl (applyWalRecord bud) R (map (WalAppend sc) xs)) k = (if k = key_text sc then lane R k @ xs else lane R k)"
  by (induction xs arbitrary: R) (simp_all add: lane_append)

definition compacted :: "rw_item sessions \<Rightarrow> wal_record list" where
  "compacted m = concat (map (\<lambda>(k, s). map (WalAppend (scope_of s)) (items s)) m)"

lemma lane_compacted:
  assumes "wf_sessions m" "\<forall>k. \<forall>i \<in> set (items_at m k). isReplayItemWithinBudget bud i"
  shows "lane (foldl (applyWalRecord bud) R (compacted m)) k = lane R k @ items_at m k"
  using assms
proof (induction m arbitrary: R)
  case (Cons p m)
  obtain k0 s where p: "p = (k0, s)" by fastforce
  have k0: "k0 = key_text (scope_of s)" "k0 \<notin> fst ` set m" and wf: "wf_sessions m"
    using Cons.prems(1) by (auto simp: p wf_sessions_def)
  have at: "items_at (p # m) j = (if j = k0 then items s else items_at m j)" for j by (simp add: p items_at_def)
  have none: "items_at m k0 = []" using k0(2) by (simp add: items_at_def map_of_eq_None_iff [THEN iffD2])
  have i: "\<forall>i \<in> set (items s). isReplayItemWithinBudget bud i" using Cons.prems(2) at [of k0] by metis
  have "\<forall>j. \<forall>i \<in> set (items_at m j). isReplayItemWithinBudget bud i"
    using Cons.prems(2) at none by (metis empty_iff list.set(1))
  from Cons.IH [OF wf this] show ?case
    by (simp add: compacted_def p lane_appends [OF i]) (simp add: at [unfolded p] none k0(1) [symmetric])
qed (simp add: compacted_def items_at_def)

lemma compacted_ids: "wf_sessions m \<Longrightarrow> x \<in> set (journal_ids (compacted m)) \<Longrightarrow> \<exists>k. \<exists>i \<in> set (items_at m k). item_id i = x"
proof -
  assume wf: "wf_sessions m" and "x \<in> set (journal_ids (compacted m))"
  then obtain k s i where s: "(k, s) \<in> set m" "i \<in> set (items s)" "item_id i = x"
    by (auto simp: compacted_def journal_ids_def)
  then have "map_of m k = Some s" using wf by (simp add: wf_sessions_def)
  then have "i \<in> set (items_at m k)" using s(2) by (simp add: items_at_def)
  with s(3) show ?thesis by blast
qed

lemma compacted_rows:
  assumes "wf_sessions m"
  shows "rows_normal (compacted m)" "\<forall>k. \<forall>i \<in> set (items_at m k). updated_at i \<le> t \<Longrightarrow> list_all (row_by t) (compacted m)"
proof -
  show "rows_normal (compacted m)" using assms by (auto simp: rows_normal_def compacted_def wf_sessions_def)
  assume t: "\<forall>k. \<forall>i \<in> set (items_at m k). updated_at i \<le> t"
  have "updated_at i \<le> t" if "(k, s) \<in> set m" "i \<in> set (items s)" for k s i
  proof -
    have "map_of m k = Some s" using assms that by (simp add: wf_sessions_def)
    then show ?thesis using t that(2) by (metis items_at_def option.simps(5))
  qed
  then show "list_all (row_by t) (compacted m)" by (auto simp: list_all_iff compacted_def)
qed

lemma restart_inv:
  assumes inv: "rw_inv bud st t" and jt: "wal_by t st" and rows: "wal st = Some (parsed rows)"
  shows "rw_inv bud (loadWal bud rows) t" "wal_by t (loadWal bud rows)"
proof -
  let ?R = "fst (replayRows bud (rw_empty (Some [])) rows)" and ?m = "rw_sessions (replay bud (parsed rows))"
  let ?L = "loadWal bud rows" and ?c = "cut_all bud ?m"
  have ag: "agrees st (replay bud (parsed rows))" and n: "rows_normal (parsed rows)"
    and old: "\<forall>x \<in> set (journal_ids (parsed rows)). x \<noteq> ''''"
    using inv rows by (auto simp: rw_inv_def journaled_def)
  have wf: "wf_sessions ?m" by (rule replay_wf [OF n])
  note cut = cut_all_lane [OF wf, of bud]
  have "length (items_at ?c k) \<le> max_items_per_session bud" for k using cut [of k] by (simp only: length_drop)
  then have bounded: "rw_bounded bud (rw_sessions ?L)" and "suffix (lane ?L k) (items_at ?c k)" for k
    using shed_all_bounded [of ?c "max_items_per_session bud"] cut unfolding rw_bounded_def lane_def loadWal_sessions by blast+
  then have suf: "suffix (lane ?L k) (lane (replay bud (parsed rows)) k)" for k
    using cut unfolding lane_def by (metis suffix_drop suffix_order.order_trans)
  have sub: "set (lane ?L k) \<subseteq> set (lane (replay bud (parsed rows)) k)" for k using suf set_mono_suffix by blast
  have rowt: "list_all (row_by t) (parsed rows)" using jt rows by (simp add: wal_by_def)
  have "replayed_ok bud t (rw_empty (Some []))" by (simp add: replayed_ok_def rw_empty_def updated_by_def lane_def items_at_def)
  from foldl_replayed_ok [OF this rowt] have ok: "replayed_ok bud t ?R" by (simp add: replayRows_parsed)
  have same: "rw_sessions ?R = ?m" by (rule replayRows_sessions)
  then have lanes: "lane ?R k = lane (replay bud (parsed rows)) k" for k by (simp add: lane_def)
  have nid: "rw_nextId ?L = rw_nextId ?R" by (simp add: loadWal_def Let_def split_beta compactWal_def)
  have each: "updated_at i \<le> t" "isReplayItemWithinBudget bud i" "trackNextId (rw_nextId ?L) (item_id i) = rw_nextId ?L" "item_id i \<noteq> ''''"
    if "i \<in> set (lane ?L k)" for i k
  proof -
    have i: "i \<in> set (lane ?R k)" using that sub [of k] by (auto simp: lanes)
    then show "updated_at i \<le> t" "isReplayItemWithinBudget bud i" "trackNextId (rw_nextId ?L) (item_id i) = rw_nextId ?L"
      using ok unfolding replayed_ok_def nid by blast+
    have "item_id i \<in> set (journal_ids (parsed rows))" using replay_ids [of bud "parsed rows" k] that sub by auto
    then show "item_id i \<noteq> ''''" using old by blast
  qed
  have wfL: "wf_sessions (rw_sessions ?L)" using bounded by (simp add: rw_bounded_def bounded_sessions_def)
  have w: "wal ?L = Some (compacted (rw_sessions ?L))"
    by (simp add: loadWal_def Let_def split_beta compactWal_def compacted_def replayRows_wal)
      (simp add: rw_empty_def)
  have within: "\<forall>k. \<forall>i \<in> set (items_at (rw_sessions ?L) k). isReplayItemWithinBudget bud i" using each(2) by (simp add: lane_def)
  have again: "lane (replay bud (compacted (rw_sessions ?L))) k = lane ?L k" for k
    using lane_compacted [OF wfL within, of "rw_empty None" k] by (simp add: replay_def lane_def rw_empty_def items_at_def)
  have "ids_ok ?L" unfolding ids_ok_def
  proof
    fix k
    obtain ys where "lane (replay bud (parsed rows)) k = ys @ lane ?L k" using suf [of k] by (auto simp: suffix_def)
    moreover have "distinct (map item_id (lane (replay bud (parsed rows)) k))" using ag by (simp add: agrees_def ids_ok_def)
    ultimately show "distinct (map item_id (lane ?L k))" by simp
  qed
  then have "agrees ?L (replay bud (compacted (rw_sessions ?L)))" by (simp add: agrees_def ids_ok_def again)
  moreover have "x \<noteq> '''' \<and> trackNextId (rw_nextId ?L) x = rw_nextId ?L" if "x \<in> set (journal_ids (compacted (rw_sessions ?L)))" for x
    using compacted_ids [OF wfL that] each(3,4) by (auto simp: lane_def)
  ultimately have "journaled bud ?L" unfolding journaled_def using w compacted_rows(1) [OF wfL] by blast
  moreover have "updated_by t (rw_sessions ?L)"
  proof -
    have "updated_by t ?m" using ok by (simp add: replayed_ok_def same)
    then have "updated_by t ?c" by (force simp: updated_by_def cut_all_def cut_session_def)
    then show ?thesis unfolding loadWal_sessions shed_all_def Let_def by (intro updated_by_shed_sessions updated_by_shed_items)
  qed
  ultimately show "rw_inv bud ?L t" using bounded by (simp add: rw_inv_def)
  show "wal_by t ?L" using compacted_rows(2) [OF wfL, of t] each(1) by (simp add: wal_by_def w lane_def)
qed

subsection \<open>Every reachable store is journaled\<close>

text \<open>Runs of one store and its restarts: the process may stop after any operation and start again on the journal it left,
  with torn or damaged rows in between.\<close>

inductive rw_reach :: "rw_budget \<Rightarrow> rw_store \<Rightarrow> int \<Rightarrow> bool" for bud where
  start: "rw_reach bud (loadWal bud []) t"
| append: "rw_reach bud st t \<Longrightarrow> t \<le> now \<Longrightarrow> fresh_input st inp \<Longrightarrow>
     rw_append bud st sc inp now = (st', r) \<Longrightarrow> rw_reach bud st' now"
| mark: "rw_reach bud st t \<Longrightarrow> t \<le> now \<Longrightarrow> rw_mark st sc y d now = (st', r) \<Longrightarrow> rw_reach bud st' now"
| restart: "rw_reach bud st t \<Longrightarrow> wal st = Some (parsed rows) \<Longrightarrow> rw_reach bud (loadWal bud rows) t"

lemma rw_reach_inv:
  assumes "sane_budget bud"
  shows "rw_reach bud st t \<Longrightarrow> rw_inv bud st t \<and> wal_by t st"
proof (induction rule: rw_reach.induct)
  case (start t)
  show ?case using rw_start_inv by (simp add: wal_by_def loadWal_Nil rw_empty_def)
next
  case (append st t now inp sc st' r)
  then show ?case using append_journaled append_wal_by assms by blast
next
  case (mark st t now sc y d st' r)
  then show ?case using mark_rw_inv mark_wal_by by blast
next
  case (restart st t rows)
  then show ?case using restart_inv by blast
qed

lemma reach_journal:
  assumes "sane_budget bud" "rw_reach bud st t"
  shows "\<exists>rs. wal st = Some rs \<and> agrees st (replay bud rs) \<and> rows_normal rs"
  using rw_reach_inv [OF assms] by (auto simp: rw_inv_def journaled_def)

text \<open>Start-up on the journal of a reachable store.\<close>

lemma restart_lanes:
  assumes "sane_budget bud" "rw_reach bud st t" "wal st = Some (parsed rows)"
  shows "live (items_at (rw_sessions (fst (replayRows bud (rw_empty (Some [])) rows))) k) = live (lane st k)"
    "suffix (live (lane (loadWal bud rows) k)) (live (lane st k))"
    "rw_bounded bud (rw_sessions (fst (replayRows bud (rw_empty (Some [])) rows))) \<Longrightarrow>
       live (lane (loadWal bud rows) k) = live (lane st k)"
proof -
  let ?m = "rw_sessions (replay bud (parsed rows))"
  obtain "agrees st (replay bud (parsed rows))" and n: "rows_normal (parsed rows)"
    using reach_journal [OF assms(1,2)] assms(3) by auto
  then have eq: "live (items_at ?m k) = live (lane st k)" by (simp add: agrees_def lane_def)
  then show "live (items_at (rw_sessions (fst (replayRows bud (rw_empty (Some [])) rows))) k) = live (lane st k)"
    by (simp add: replayRows_sessions)
  have wf: "wf_sessions ?m" by (rule replay_wf [OF n])
  note cut = cut_all_lane [OF wf, of bud]
  have "length (items_at (cut_all bud ?m) k) \<le> max_items_per_session bud" for k
    using cut [of k] by (simp only: length_drop)
  then have "suffix (lane (loadWal bud rows) k) (items_at (cut_all bud ?m) k)"
    using shed_all_bounded [of "cut_all bud ?m" "max_items_per_session bud"] cut
    unfolding lane_def loadWal_sessions by blast
  then have "suffix (lane (loadWal bud rows) k) (items_at ?m k)"
    using cut by (metis suffix_drop suffix_order.order_trans)
  then show "suffix (live (lane (loadWal bud rows) k)) (live (lane st k))"
    unfolding eq [symmetric] by (simp add: live_def suffix_filterI)
  assume "rw_bounded bud (rw_sessions (fst (replayRows bud (rw_empty (Some [])) rows)))"
  then have b: "rw_bounded bud ?m" by (simp add: replayRows_sessions)
  then have "rw_sessions (loadWal bud rows) = ?m"
    by (simp add: loadWal_sessions bounded_cut_all shed_all_def Let_def shed_items_none
        shed_sessions_none rw_bounded_def bounded_sessions_def)
  then show "live (lane (loadWal bud rows) k) = live (lane st k)" by (simp add: lane_def eq)
qed

text \<open>C7: the journal means what the store holds, and start-up keeps what fits. Take any run of appends, marks and
  purges, with restarts anywhere in it, with caller-supplied ids that are new and a clock that does not run backwards,
  and start up on the journal it left, torn or damaged rows included. The rows rebuild in every lane exactly the
  unexpired records of the store. What start-up then enforces, the budgets, takes only from the front: every lane of the
  started store is a tail of it, and all of it whenever the rebuilt lanes, expired records included, are within the
  budgets. The running store and the started one are within them.\<close>

theorem journal_rebuilds_the_lanes:
  assumes "sane_budget bud" "rw_reach bud st t" "wal st = Some (parsed rows)"
  shows "(\<forall>k. live (items_at (rw_sessions (fst (replayRows bud (rw_empty (Some [])) rows))) k) = live (lane st k)) \<and>
    (\<forall>k. suffix (live (lane (loadWal bud rows) k)) (live (lane st k))) \<and>
    (rw_bounded bud (rw_sessions (fst (replayRows bud (rw_empty (Some [])) rows))) \<longrightarrow>
      (\<forall>k. live (lane (loadWal bud rows) k) = live (lane st k))) \<and>
    rw_bounded bud (rw_sessions st) \<and> rw_bounded bud (rw_sessions (loadWal bud rows))"
  using restart_lanes [OF assms] rw_reach_inv [OF assms(1,2)] rw_reach_inv [OF assms(1) rw_reach.restart [OF assms(2,3)]]
  by (simp add: rw_inv_def)

text \<open>So that, with everything within the budgets, a read before the crash and one after it give the same pending records.\<close>

lemma restart_read:
  assumes "sane_budget bud" "rw_reach bud st t" "wal st = Some (parsed rows)"
    and "rw_bounded bud (rw_sessions (fst (replayRows bud (rw_empty (Some [])) rows)))"
    and f: "rw_buildContextPackFragment sha256 bud st sc now = Inr f"
  shows "\<exists>f'. rw_buildContextPackFragment sha256 bud (loadWal bud rows) sc now = Inr f' \<and>
    rfrag_items f' = rfrag_items f \<and> pending_count f' = pending_count f"
proof -
  have pend: "filter (\<lambda>i. isPendingAt i now) (live xs) = filter (\<lambda>i. isPendingAt i now) xs" for xs
    by (auto simp: live_def isPendingAt_def intro!: filter_cong)
  have "filter (\<lambda>i. isPendingAt i now) (lane (loadWal bud rows) k) = filter (\<lambda>i. isPendingAt i now) (lane st k)" for k
    using restart_lanes(3) [OF assms(1-4), of k] pend [of "lane (loadWal bud rows) k"] pend [of "lane st k"] by simp
  then show ?thesis using f by (auto simp: rw_buildContextPackFragment_def res_bind_Inr Let_def lane_def)
qed

subsection \<open>A run that loses a record at restart\<close>

definition tight_budget :: rw_budget where
  "tight_budget = \<lparr>ttl_ms = 10, max_sessions = 4, max_items_per_session = 4, max_global_items = 2,
     max_metadata_chars = 100, max_content_chars = 100, max_preview_chars = 10\<rparr>"

definition scope_k :: "string \<Rightarrow> scope" where
  "scope_k k = \<lparr>namespace = ''n'', agent = ''a'', platform = ''p'', server_id = ''s'', channel_id = ''c'',
     thread_id = None, session_key = k\<rparr>"

definition memo :: "string \<Rightarrow> rw_input" where
  "memo text = \<lparr>rin_id = None, rin_content = text, rin_status = None, rin_trace_id = None,
     rin_source_ref = None, rin_metadata = None\<rparr>"

definition lossy_run :: rw_store where
  "lossy_run =
     (let st = loadWal tight_budget [];
          st = fst (rw_append tight_budget st (scope_k ''x'') (memo ''a'') 0);
          st = fst (rw_append tight_budget st (scope_k ''y'') (memo ''b'') 5)
      in fst (rw_append tight_budget st (scope_k ''x'') (memo ''c'') 12))"

lemma sane_tight: "sane_budget tight_budget"
  by (simp add: sane_budget_def tight_budget_def)

lemma fresh_memo: "fresh_input st (memo text)"
  by (simp add: fresh_input_def memo_def)

lemma reach_append_memo:
  "rw_reach bud st t \<Longrightarrow> t \<le> now \<Longrightarrow> rw_reach bud (fst (rw_append bud st sc (memo text) now)) now"
  by (rule rw_reach.append [OF _ _ fresh_memo]) (auto simp: prod_eq_iff)

lemma lossy_reach: "rw_reach tight_budget lossy_run 12"
  unfolding lossy_run_def Let_def
  by (intro reach_append_memo [where t = 5] reach_append_memo [where t = 0 and now = 5]
      reach_append_memo [where t = 0 and now = 0] rw_reach.start) simp_all

text \<open>Its first two appends, which fit, and the restart after them.\<close>

definition calm_run :: rw_store where
  "calm_run =
     (let st = fst (rw_append tight_budget (loadWal tight_budget []) (scope_k ''x'') (memo ''a'') 0)
      in fst (rw_append tight_budget st (scope_k ''y'') (memo ''b'') 5))"

definition calm_rows :: "wal_record option list" where
  "calm_rows = map Some (the (wal calm_run)) @ [None]"

lemma calm_reach: "rw_reach tight_budget calm_run 5"
  unfolding calm_run_def Let_def
  by (intro reach_append_memo [where t = 0 and now = 5] reach_append_memo [where t = 0 and now = 0] rw_reach.start) simp_all

lemma calm_wal: "wal calm_run = Some (parsed calm_rows)"
proof -
  obtain rs where rs: "wal calm_run = Some rs" using reach_journal [OF sane_tight calm_reach] by blast
  have "parsed (map Some xs @ [None]) = xs" for xs by (induction xs) (simp_all add: parsed_def)
  then have "parsed calm_rows = rs" by (simp add: calm_rows_def rs)
  with rs show ?thesis by simp
qed

lemma calm_replay_bounded: "rw_bounded tight_budget (rw_sessions (fst (replayRows tight_budget (rw_empty (Some [])) calm_rows)))"
proof -
  let ?m = "rw_sessions (fst (replayRows tight_budget (rw_empty (Some [])) calm_rows))"
  have c: "globalItemCount ?m \<le> 2 \<and> length ?m \<le> 4" by code_simp
  moreover have "length (items_at ?m k) \<le> 4" for k using items_at_length [of ?m k] c by linarith
  moreover have "wf_sessions ?m"
    using reach_journal [OF sane_tight calm_reach] calm_wal by (auto simp: replayRows_sessions intro: replay_wf)
  ultimately show ?thesis
    by (simp add: rw_bounded_def bounded_sessions_def) (simp add: tight_budget_def)
qed

lemma journal_rebuilds_witness:
  "(\<forall>k. live (lane (loadWal tight_budget calm_rows) k) = live (lane calm_run k)) \<and>
   map content (lane (loadWal tight_budget calm_rows) (key_text (scope_k ''x''))) = [''a''] \<and>
   rw_bounded tight_budget (rw_sessions (loadWal tight_budget calm_rows))"
proof -
  have "map content (lane (loadWal tight_budget calm_rows) (key_text (scope_k ''x''))) = [''a'']" by code_simp
  then show ?thesis
    using journal_rebuilds_the_lanes [OF sane_tight calm_reach calm_wal] calm_replay_bounded by blast
qed

text \<open>The case in which the budgets take something does happen. Expired records stay in the
  replayed lanes until the next purge, and count against the budgets at start-up: in this run
  the store holds \<open>b\<close> and \<open>c\<close>, within its limit of two items, but the replay also carries
  the expired \<open>a\<close>, whose expiry made its lane the younger one, and start-up sheds the
  live, unreviewed \<open>b\<close> to make room for it.\<close>

theorem restart_can_drop_a_live_record:
  "rw_reach tight_budget lossy_run 12 \<and>
   (let k = key_text (scope_k ''y'') in
      map content (filter (\<lambda>i. isPendingAt i 13) (lane lossy_run k)) = [''b''] \<and>
      lane (loadWal tight_budget (map Some (the (wal lossy_run)))) k = [])"
proof -
  have "let k = key_text (scope_k ''y'') in
      map content (filter (\<lambda>i. isPendingAt i 13) (lane lossy_run k)) = [''b''] \<and>
      lane (loadWal tight_budget (map Some (the (wal lossy_run)))) k = []"
    by code_simp
  then show ?thesis using lossy_reach by blast
qed

end
