(* ===== verification/McpSessions.thy ===== *)
theory McpSessions
  imports AccessControl
begin

text \<open>
  The live MCP sessions: the store (\<open>server/transport/session-store.ts\<close>) and the handlers
  over it (\<open>server/transport/session-manager.ts\<close>). Each handler is split at its
  \<open>await\<close>s into the synchronous pieces the event loop runs, and the pieces are the steps of
  \<open>sys_step\<close>; the transports, the timers and the session ids of the SDK are the events
  that drive it. A timer is the deadline it fires at.
\<close>

subsection \<open>The store\<close>

record entry =
  entry_identity :: request_auth_info
  lastActivity :: int
  deadline :: int
  inFlight :: nat

record session_config =
  sessionTtlMs :: int
  maxSessions :: nat
  retryAfterSeconds :: nat

record session_store =
  sess :: "(string, entry) jsmap"
  pendingInitializes :: nat

definition IDENTITY_FIELDS :: "(request_auth_info \<Rightarrow> string) list" where
  "IDENTITY_FIELDS =
     [tokenClientId, \<lambda>i. role_name (role_of i), clientId,
      \<lambda>i. case namespaceSource i of FromToken \<Rightarrow> ''token'' | FromDelegation \<Rightarrow> ''delegated'',
      \<lambda>i. nullish (agentId i) '''']"

definition sameIdentity :: "request_auth_info option \<Rightarrow> request_auth_info \<Rightarrow> bool" where
  "sameIdentity left right =
     (case left of None \<Rightarrow> False | Some l \<Rightarrow> list_all (\<lambda>read. read l = read right) IDENTITY_FIELDS)"

definition activeCount :: "session_store \<Rightarrow> nat" where
  "activeCount st = length (sess st) + pendingInitializes st"

definition beginInitialize :: "session_store \<Rightarrow> session_store" where
  "beginInitialize st = st\<lparr>pendingInitializes := pendingInitializes st + 1\<rparr>"

definition endInitialize :: "session_store \<Rightarrow> session_store" where
  "endInitialize st = st\<lparr>pendingInitializes := pendingInitializes st - 1\<rparr>"

definition admits :: "session_config \<Rightarrow> session_store \<Rightarrow> bool" where
  "admits cfg st = (activeCount st < maxSessions cfg)"

definition register ::
  "session_config \<Rightarrow> int \<Rightarrow> string \<Rightarrow> request_auth_info \<Rightarrow> session_store \<Rightarrow> session_store" where
  "register cfg now sid who st = st\<lparr>sess := AList.update sid
     \<lparr>entry_identity = who, lastActivity = now, deadline = now + sessionTtlMs cfg, inFlight = 0\<rparr> (sess st)\<rparr>"

definition forget :: "string \<Rightarrow> session_store \<Rightarrow> session_store" where
  "forget sid st = (case map_of (sess st) sid of None \<Rightarrow> st
     | Some e \<Rightarrow> st\<lparr>sess := AList.delete sid (sess st)\<rparr>)"

definition armExpiry :: "session_config \<Rightarrow> int \<Rightarrow> string \<Rightarrow> session_store \<Rightarrow> session_store" where
  "armExpiry cfg now sid st =
     (case map_of (sess st) sid of None \<Rightarrow> st
      | Some e \<Rightarrow> st\<lparr>sess := AList.update sid
          (e\<lparr>lastActivity := now, deadline := now + sessionTtlMs cfg\<rparr>) (sess st)\<rparr>)"

definition expire :: "session_config \<Rightarrow> int \<Rightarrow> string \<Rightarrow> session_store \<Rightarrow> session_store" where
  "expire cfg now sid st =
     (case map_of (sess st) sid of None \<Rightarrow> st
      | Some e \<Rightarrow> if inFlight e > 0 then armExpiry cfg now sid st
                  else st\<lparr>sess := AList.delete sid (sess st)\<rparr>)"

text \<open>\<open>runWithSession\<close> up to its \<open>await\<close>, and its \<open>finally\<close> block.\<close>

definition run_begin :: "string \<Rightarrow> session_store \<Rightarrow> session_store" where
  "run_begin sid st =
     (case map_of (sess st) sid of None \<Rightarrow> st
      | Some e \<Rightarrow> st\<lparr>sess := AList.update sid (e\<lparr>inFlight := inFlight e + 1\<rparr>) (sess st)\<rparr>)"

definition run_end :: "session_config \<Rightarrow> int \<Rightarrow> string \<Rightarrow> session_store \<Rightarrow> session_store" where
  "run_end cfg now sid st =
     (case map_of (sess st) sid of None \<Rightarrow> st
      | Some e \<Rightarrow> armExpiry cfg now sid
          (st\<lparr>sess := AList.update sid (e\<lparr>inFlight := inFlight e - 1\<rparr>) (sess st)\<rparr>))"

text \<open>The sweep visits the entries in map order; the model walks the list of ids it starts with.\<close>

definition sweepable :: "session_config \<Rightarrow> int \<Rightarrow> entry \<Rightarrow> bool" where
  "sweepable cfg now e = (\<not> inFlight e > 0 \<and> \<not> now - lastActivity e \<le> sessionTtlMs cfg * 2)"

fun sweep_ids :: "session_config \<Rightarrow> int \<Rightarrow> string list \<Rightarrow> session_store \<Rightarrow> session_store \<times> nat" where
  "sweep_ids cfg now [] st = (st, 0)"
| "sweep_ids cfg now (sid # rest) st =
     (case map_of (sess st) sid of
        None \<Rightarrow> sweep_ids cfg now rest st
      | Some e \<Rightarrow> if sweepable cfg now e
          then (let (st', n) = sweep_ids cfg now rest (expire cfg now sid st) in (st', n + 1))
          else sweep_ids cfg now rest st)"

definition sweep :: "session_config \<Rightarrow> int \<Rightarrow> session_store \<Rightarrow> session_store \<times> nat" where
  "sweep cfg now st = sweep_ids cfg now (map fst (sess st)) st"

subsection \<open>The handlers\<close>

text \<open>A request as the handlers see it: the session header, already matched against the UUID
  pattern, the identity the middleware left, and whether the body is an initialize request.\<close>

record mcp_request =
  session_header :: "string option"
  request_auth :: "request_auth_info option"
  is_initialize :: bool

datatype reply =
    Identity_mismatch
  | Bad_request
  | Cap_exceeded nat nat nat
  | Auth_missing
  | Session_closed
  | Served string
  | Initializing request_auth_info

definition handleExisting ::
  "session_config \<Rightarrow> int \<Rightarrow> mcp_request \<Rightarrow> string \<Rightarrow> session_store \<Rightarrow> (session_store \<times> reply) option" where
  "handleExisting cfg now req sid st =
     (case map_of (sess st) sid of
        None \<Rightarrow> None
      | Some e \<Rightarrow>
          if \<not> sameIdentity (request_auth req) (entry_identity e) then Some (st, Identity_mismatch)
          else Some (run_begin sid (armExpiry cfg now sid st), Served sid))"

definition rejectAdmission :: "session_config \<Rightarrow> session_store \<Rightarrow> reply" where
  "rejectAdmission cfg st = Cap_exceeded (activeCount st) (maxSessions cfg) (retryAfterSeconds cfg)"

definition rejectInitialize :: "session_config \<Rightarrow> mcp_request \<Rightarrow> session_store \<Rightarrow> reply option" where
  "rejectInitialize cfg req st =
     (if session_header req \<noteq> None \<or> \<not> is_initialize req then Some Bad_request
      else if \<not> admits cfg st then Some (rejectAdmission cfg st)
      else if request_auth req = None then Some Auth_missing
      else None)"

definition handlePost :: "session_config \<Rightarrow> int \<Rightarrow> mcp_request \<Rightarrow> session_store \<Rightarrow> session_store \<times> reply" where
  "handlePost cfg now req st =
     (case (case session_header req of None \<Rightarrow> None | Some sid \<Rightarrow> handleExisting cfg now req sid st) of
        Some result \<Rightarrow> result
      | None \<Rightarrow>
          (case rejectInitialize cfg req st of
             Some why \<Rightarrow> (st, why)
           | None \<Rightarrow> (beginInitialize st, Initializing (the (request_auth req)))))"

definition handleGet :: "session_config \<Rightarrow> int \<Rightarrow> mcp_request \<Rightarrow> session_store \<Rightarrow> session_store \<times> reply" where
  "handleGet cfg now req st =
     (case (case session_header req of None \<Rightarrow> None | Some sid \<Rightarrow> handleExisting cfg now req sid st) of
        Some result \<Rightarrow> result
      | None \<Rightarrow> (st, Bad_request))"

definition handleDelete :: "session_config \<Rightarrow> int \<Rightarrow> mcp_request \<Rightarrow> session_store \<Rightarrow> session_store \<times> reply" where
  "handleDelete cfg now req st =
     (case session_header req of
        None \<Rightarrow> (st, Bad_request)
      | Some sid \<Rightarrow>
          (case map_of (sess st) sid of
             None \<Rightarrow> (st, Bad_request)
           | Some e \<Rightarrow>
               if \<not> sameIdentity (request_auth req) (entry_identity e) then (st, Identity_mismatch)
               else (expire cfg now sid st, Session_closed)))"

text \<open>The \<open>catch\<close> of \<open>runInitialize\<close> for a transport with the given session id, and
  the manager's \<open>close\<close>.\<close>

definition initialize_failed :: "session_config \<Rightarrow> int \<Rightarrow> string option \<Rightarrow> session_store \<Rightarrow> session_store" where
  "initialize_failed cfg now sid st =
     endInitialize (case sid of None \<Rightarrow> st | Some s \<Rightarrow> expire cfg now s st)"

definition close_all :: "session_config \<Rightarrow> int \<Rightarrow> session_store \<Rightarrow> session_store" where
  "close_all cfg now st = foldl (\<lambda>st sid. expire cfg now sid st) st (map fst (sess st))"

subsection \<open>The event loop\<close>

text \<open>What is going on beside the store: the initialize handshakes under way, with the id of
  their session once the transport has registered it, the requests being served, and every id
  handed out so far.\<close>

record sys =
  store :: session_store
  runs :: "(request_auth_info \<times> string option) list"
  working :: "string list"
  used :: "string list"
  now_ms :: int

datatype event = E_post mcp_request | E_get mcp_request | E_delete mcp_request | E_finish string
  | E_register string | E_init_done | E_init_failed | E_timer string | E_sweep
  | E_transport_closed string | E_close | E_tick

definition replied :: "sys \<Rightarrow> session_store \<times> reply \<Rightarrow> sys" where
  "replied s r = s\<lparr>store := fst r,
     runs := (case snd r of Initializing who \<Rightarrow> runs s @ [(who, None)] | _ \<Rightarrow> runs s),
     working := (case snd r of Served sid \<Rightarrow> sid # working s | _ \<Rightarrow> working s)\<rparr>"

inductive sys_step :: "session_config \<Rightarrow> sys \<Rightarrow> event \<Rightarrow> sys \<Rightarrow> bool" for cfg where
  post: "sys_step cfg s (E_post req) (replied s (handlePost cfg (now_ms s) req (store s)))"
| get: "sys_step cfg s (E_get req) (replied s (handleGet cfg (now_ms s) req (store s)))"
| delete: "sys_step cfg s (E_delete req) (replied s (handleDelete cfg (now_ms s) req (store s)))"
| finish: "sid \<in> set (working s) \<Longrightarrow> sys_step cfg s (E_finish sid)
    (s\<lparr>store := run_end cfg (now_ms s) sid (store s), working := remove1 sid (working s)\<rparr>)"
| register: "runs s = xs @ (who, None) # ys \<Longrightarrow> sid \<notin> set (used s) \<Longrightarrow>
    sys_step cfg s (E_register sid)
      (s\<lparr>store := register cfg (now_ms s) sid who (store s), runs := xs @ (who, Some sid) # ys,
         used := sid # used s\<rparr>)"
| init_done: "runs s = xs @ r # ys \<Longrightarrow> sys_step cfg s E_init_done
    (s\<lparr>store := endInitialize (store s), runs := xs @ ys\<rparr>)"
| init_failed: "runs s = xs @ (who, sid) # ys \<Longrightarrow> sys_step cfg s E_init_failed
    (s\<lparr>store := initialize_failed cfg (now_ms s) sid (store s), runs := xs @ ys\<rparr>)"
| timer: "map_of (sess (store s)) sid = Some e \<Longrightarrow> deadline e \<le> now_ms s \<Longrightarrow>
    sys_step cfg s (E_timer sid) (s\<lparr>store := expire cfg (now_ms s) sid (store s)\<rparr>)"
| sweep: "sys_step cfg s E_sweep (s\<lparr>store := fst (sweep cfg (now_ms s) (store s))\<rparr>)"
| transport_closed: "sys_step cfg s (E_transport_closed sid) (s\<lparr>store := forget sid (store s)\<rparr>)"
| close: "sys_step cfg s E_close (s\<lparr>store := close_all cfg (now_ms s) (store s)\<rparr>)"
| tick: "now_ms s \<le> t \<Longrightarrow> sys_step cfg s E_tick (s\<lparr>now_ms := t\<rparr>)"

definition sys_init :: "int \<Rightarrow> sys" where
  "sys_init t = \<lparr>store = \<lparr>sess = [], pendingInitializes = 0\<rparr>, runs = [], working = [], used = [], now_ms = t\<rparr>"

inductive sys_reach :: "session_config \<Rightarrow> sys \<Rightarrow> bool" for cfg where
  init: "sys_reach cfg (sys_init t)"
| step: "sys_reach cfg s \<Longrightarrow> sys_step cfg s ev s' \<Longrightarrow> sys_reach cfg s'"

inductive_cases sys_stepE: "sys_step cfg s ev s'"

subsection \<open>Operations that only let idle entries go\<close>

text \<open>\<open>trims st st'\<close>: the entries of \<open>st'\<close> are entries of \<open>st\<close>, with their identity and
  their count of running requests; \<open>quiet\<close> adds that no busy entry is gone.\<close>

definition trims :: "session_store \<Rightarrow> session_store \<Rightarrow> bool" where
  "trims st st' = (pendingInitializes st' = pendingInitializes st \<and>
     length (sess st') \<le> length (sess st) \<and>
     (distinct (map fst (sess st)) \<longrightarrow> distinct (map fst (sess st'))) \<and>
     (\<forall>sid e'. map_of (sess st') sid = Some e' \<longrightarrow>
        (\<exists>e. map_of (sess st) sid = Some e \<and> entry_identity e' = entry_identity e \<and>
             inFlight e' = inFlight e)))"

definition quiet :: "session_store \<Rightarrow> session_store \<Rightarrow> bool" where
  "quiet st st' = (trims st st' \<and>
     (\<forall>sid e. map_of (sess st) sid = Some e \<and> 0 < inFlight e \<longrightarrow> map_of (sess st') sid \<noteq> None))"

lemma quiet_refl: "quiet st st"
  by (simp add: quiet_def trims_def)

lemma trimsD:
  "trims st st' \<Longrightarrow> map_of (sess st') sid = Some e' \<Longrightarrow>
     \<exists>e. map_of (sess st) sid = Some e \<and> entry_identity e' = entry_identity e \<and> inFlight e' = inFlight e"
  by (simp add: trims_def)

lemma trims_trans:
  assumes "trims a b" "trims b c"
  shows "trims a c"
  unfolding trims_def
proof (intro conjI allI impI)
  fix sid e'
  assume "map_of (sess c) sid = Some e'"
  from trimsD [OF assms(2) this] obtain e1 where e1: "map_of (sess b) sid = Some e1"
    "entry_identity e' = entry_identity e1" "inFlight e' = inFlight e1" by blast
  from trimsD [OF assms(1) e1(1)] e1(2,3)
  show "\<exists>e. map_of (sess a) sid = Some e \<and> entry_identity e' = entry_identity e \<and> inFlight e' = inFlight e"
    by auto
qed (use assms in \<open>auto simp: trims_def\<close>)

lemma quiet_trans:
  assumes "quiet a b" "quiet b c"
  shows "quiet a c"
  unfolding quiet_def
proof (intro conjI allI impI)
  show "trims a c" using assms trims_trans by (auto simp: quiet_def)
  fix sid e
  assume e: "map_of (sess a) sid = Some e \<and> 0 < inFlight e"
  then obtain e1 where e1: "map_of (sess b) sid = Some e1" using assms(1) by (auto simp: quiet_def)
  from trimsD [OF _ e1, of a] assms(1) e have "0 < inFlight e1" by (auto simp: quiet_def)
  with e1 assms(2) show "map_of (sess c) sid \<noteq> None" by (auto simp: quiet_def)
qed

lemma length_update_le: "map_of m k = Some e \<Longrightarrow> length (AList.update k e' m) = length m"
  by (induction m) (auto split: if_splits)

lemma length_alist_delete: "length (AList.delete k m) \<le> length m"
  by (induction m) auto

lemma armExpiry_quiet: "quiet st (armExpiry cfg now sid st)"
  by (auto simp: armExpiry_def quiet_def trims_def update_conv' distinct_update length_update_le
      split: option.split)

lemma forget_trims: "trims st (forget sid st)"
  by (auto simp: forget_def trims_def delete_conv' length_alist_delete distinct_delete
      split: option.split if_splits)

lemma expire_quiet: "quiet st (expire cfg now sid st)"
proof (cases "map_of (sess st) sid")
  case (Some e)
  show ?thesis
  proof (cases "inFlight e > 0")
    case True
    then show ?thesis using Some armExpiry_quiet by (simp add: expire_def)
  next
    case False
    with Some show ?thesis
      by (auto simp: expire_def quiet_def trims_def delete_conv' length_alist_delete distinct_delete
          split: if_splits)
  qed
qed (simp add: expire_def quiet_refl)

lemma sweep_ids_quiet: "quiet st (fst (sweep_ids cfg now ids st))"
proof (induction ids arbitrary: st)
  case (Cons sid rest)
  have "quiet st (fst (sweep_ids cfg now rest (expire cfg now sid st)))"
    by (rule quiet_trans [OF expire_quiet Cons])
  then show ?case using Cons [of st] by (simp add: split_beta split: option.split)
qed (simp add: quiet_refl)

lemma sweep_quiet: "quiet st (fst (sweep cfg now st))"
  by (simp add: sweep_def sweep_ids_quiet)

lemma close_all_quiet: "quiet st (close_all cfg now st)"
proof -
  have "quiet st (foldl (\<lambda>st sid. expire cfg now sid st) st ids)" for ids
    by (induction ids arbitrary: st) (auto intro: quiet_refl quiet_trans [OF expire_quiet])
  then show ?thesis by (simp add: close_all_def)
qed

subsection \<open>The invariant\<close>

definition unregistered :: "(request_auth_info \<times> string option) list \<Rightarrow> nat" where
  "unregistered rs = length (filter (\<lambda>r. snd r = None) rs)"

lemma unregistered_append [simp]:
  "unregistered (xs @ ys) = unregistered xs + unregistered ys"
  "unregistered (r # xs) = (if snd r = None then 1 else 0) + unregistered xs" "unregistered [] = 0"
  by (simp_all add: unregistered_def)

definition sys_inv :: "session_config \<Rightarrow> sys \<Rightarrow> bool" where
  "sys_inv cfg s = (distinct (map fst (sess (store s))) \<and>
     set (working s) \<subseteq> set (used s) \<and> set (map fst (sess (store s))) \<subseteq> set (used s) \<and>
     (\<forall>sid e. map_of (sess (store s)) sid = Some e \<longrightarrow> inFlight e = count_list (working s) sid) \<and>
     pendingInitializes (store s) = length (runs s) \<and>
     length (sess (store s)) + unregistered (runs s) \<le> maxSessions cfg)"

lemma keys_map_of: "k \<in> set (map fst m) \<longleftrightarrow> map_of m k \<noteq> None"
  by (simp add: map_of_eq_None_iff)

lemma trims_inv:
  assumes "sys_inv cfg s" "trims (store s) st'"
  shows "sys_inv cfg (s\<lparr>store := st'\<rparr>)"
  unfolding sys_inv_def
proof (intro conjI allI impI)
  show "set (map fst (sess (store (s\<lparr>store := st'\<rparr>)))) \<subseteq> set (used (s\<lparr>store := st'\<rparr>))"
  proof
    fix k
    assume "k \<in> set (map fst (sess (store (s\<lparr>store := st'\<rparr>))))"
    then have "map_of (sess (store s)) k \<noteq> None"
      using trimsD [OF assms(2)] unfolding keys_map_of by auto
    then show "k \<in> set (used (s\<lparr>store := st'\<rparr>))"
      using assms(1) unfolding sys_inv_def keys_map_of [symmetric] by auto
  qed
next
  fix sid e
  assume "map_of (sess (store (s\<lparr>store := st'\<rparr>))) sid = Some e"
  from trimsD [OF assms(2), of sid e] this
  show "inFlight e = count_list (working (s\<lparr>store := st'\<rparr>)) sid"
    using assms(1) by (auto simp: sys_inv_def)
qed (use assms in \<open>auto simp: sys_inv_def trims_def\<close>)

lemma armExpiry_Some:
  "map_of (sess st) sid = Some e \<Longrightarrow>
     armExpiry cfg now sid st = st\<lparr>sess := AList.update sid
       (e\<lparr>lastActivity := now, deadline := now + sessionTtlMs cfg\<rparr>) (sess st)\<rparr>"
  by (simp add: armExpiry_def)

lemma keys_update_Some: "map_of m k = Some e \<Longrightarrow> map fst (AList.update k e' m) = map fst m"
  by (induction m) (auto split: if_splits)

lemma serve_inv:
  assumes inv: "sys_inv cfg s" and e: "map_of (sess (store s)) sid = Some e"
  shows "sys_inv cfg (s\<lparr>store := run_begin sid (armExpiry cfg now sid (store s)), working := sid # working s\<rparr>)"
proof -
  let ?e = "e\<lparr>lastActivity := now, deadline := now + sessionTtlMs cfg\<rparr>"
  have "run_begin sid (armExpiry cfg now sid (store s)) =
      (store s)\<lparr>sess := AList.update sid (?e\<lparr>inFlight := inFlight e + 1\<rparr>)
        (AList.update sid ?e (sess (store s)))\<rparr>"
    by (simp add: armExpiry_Some [OF e] run_begin_def update_conv')
  moreover have "sid \<in> set (used s)"
    using inv e keys_map_of [of sid "sess (store s)"] by (auto simp: sys_inv_def)
  moreover have "map fst (AList.update sid (?e\<lparr>inFlight := inFlight e + 1\<rparr>)
        (AList.update sid ?e (sess (store s)))) = map fst (sess (store s))"
    by (subst keys_update_Some [of _ _ ?e]) (simp_all add: update_conv' keys_update_Some [OF e])
  moreover from this have "length (AList.update sid (?e\<lparr>inFlight := inFlight e + 1\<rparr>)
        (AList.update sid ?e (sess (store s)))) = length (sess (store s))"
    by (metis length_map)
  ultimately show ?thesis
    using inv e unfolding sys_inv_def by (auto simp: update_conv' split: if_splits)
qed

lemma finish_inv:
  assumes inv: "sys_inv cfg s" and w: "sid \<in> set (working s)"
  shows "sys_inv cfg (s\<lparr>store := run_end cfg now sid (store s), working := remove1 sid (working s)\<rparr>)"
proof -
  have cnt: "count_list (remove1 sid xs) k = (if k = sid then count_list xs k - 1 else count_list xs k)"
    for k and xs :: "string list"
    by (induction xs) auto
  have ws: "set (remove1 sid (working s)) \<subseteq> set (used s)"
    using inv set_remove1_subset [of sid "working s"] by (auto simp: sys_inv_def)
  show ?thesis
  proof (cases "map_of (sess (store s)) sid")
    case None
    then have "count_list (working s) k = count_list (remove1 sid (working s)) k"
      if "map_of (sess (store s)) k = Some e" for k e
      using that by (auto simp: cnt)
    then show ?thesis using inv ws None by (auto simp: sys_inv_def run_end_def)
  next
    case (Some e)
    let ?e = "e\<lparr>inFlight := inFlight e - 1\<rparr>"
    let ?e2 = "?e\<lparr>lastActivity := now, deadline := now + sessionTtlMs cfg\<rparr>"
    have st: "run_end cfg now sid (store s) =
        (store s)\<lparr>sess := AList.update sid ?e2 (AList.update sid ?e (sess (store s)))\<rparr>"
      by (simp add: run_end_def Some armExpiry_Some [of _ _ ?e] update_conv')
    have keys: "map fst (AList.update sid ?e2 (AList.update sid ?e (sess (store s)))) = map fst (sess (store s))"
      by (subst keys_update_Some [of _ _ ?e]) (simp_all add: update_conv' keys_update_Some [OF Some])
    then have "length (AList.update sid ?e2 (AList.update sid ?e (sess (store s)))) = length (sess (store s))"
      by (metis length_map)
    with inv ws keys Some show ?thesis
      unfolding sys_inv_def st by (auto simp: update_conv' cnt split: if_splits)
  qed
qed

lemma count_list_fresh: "x \<notin> set xs \<Longrightarrow> count_list xs x = 0"
  by (induction xs) auto

lemma register_inv:
  assumes inv: "sys_inv cfg s" and r: "runs s = xs @ (who, None) # ys" and f: "sid \<notin> set (used s)"
  shows "sys_inv cfg (s\<lparr>store := register cfg now sid who (store s), runs := xs @ (who, Some sid) # ys,
         used := sid # used s\<rparr>)"
proof -
  have k: "map_of (sess (store s)) sid = None" "sid \<notin> set (working s)"
    using inv f keys_map_of [of sid "sess (store s)"] unfolding sys_inv_def by auto
  have upd: "AList.update sid e m = m @ [(sid, e)]" if "map_of m sid = None" for e and m :: "(string, entry) jsmap"
    using that by (induction m) (auto split: if_splits)
  have "sid \<notin> fst ` set (sess (store s))" using k(1) by (simp add: map_of_eq_None_iff)
  then show ?thesis
    using inv r k f unfolding sys_inv_def register_def
    by (auto simp: upd [OF k(1)] unregistered_def count_list_fresh map_add_def split: option.splits if_splits)
qed

lemma existing_inv:
  assumes inv: "sys_inv cfg s" and h: "handleExisting cfg now req sid (store s) = Some result"
  shows "sys_inv cfg (replied s result)"
proof -
  obtain e where e: "map_of (sess (store s)) sid = Some e"
    using h by (auto simp: handleExisting_def split: option.splits)
  show ?thesis
  proof (cases "sameIdentity (request_auth req) (entry_identity e)")
    case True
    then show ?thesis using h e serve_inv [OF inv e, of now] by (auto simp: handleExisting_def replied_def)
  next
    case False
    then show ?thesis using h e inv by (auto simp: handleExisting_def replied_def)
  qed
qed

lemma post_inv:
  assumes inv: "sys_inv cfg s"
  shows "sys_inv cfg (replied s (handlePost cfg now req (store s)))"
proof (cases "case session_header req of None \<Rightarrow> None | Some sid \<Rightarrow> handleExisting cfg now req sid (store s)")
  case None
  show ?thesis
  proof (cases "rejectInitialize cfg req (store s)")
    case r: None
    then have "activeCount (store s) < maxSessions cfg"
      by (simp add: rejectInitialize_def admits_def split: if_splits)
    moreover have "unregistered (runs s) \<le> length (runs s)" by (simp add: unregistered_def)
    ultimately show ?thesis
      using inv None r by (auto simp: handlePost_def replied_def sys_inv_def beginInitialize_def
          unregistered_append activeCount_def)
  next
    case (Some why)
    then have "why \<notin> range Served" "why \<notin> range Initializing"
      by (auto simp: rejectInitialize_def rejectAdmission_def split: if_splits)
    with None Some inv show ?thesis
      by (cases why) (auto simp: handlePost_def replied_def sys_inv_def)
  qed
next
  case (Some result)
  then show ?thesis
    using existing_inv [OF inv] by (auto simp: handlePost_def split: option.splits)
qed

lemma get_inv:
  assumes inv: "sys_inv cfg s"
  shows "sys_inv cfg (replied s (handleGet cfg now req (store s)))"
  using inv existing_inv [OF inv]
  by (auto simp: handleGet_def replied_def [of s "(store s, Bad_request)"] split: option.split)

lemma delete_quiet: "quiet st (fst (handleDelete cfg now req st)) \<and>
    snd (handleDelete cfg now req st) \<in> {Bad_request, Identity_mismatch, Session_closed}"
  by (auto simp: handleDelete_def quiet_refl expire_quiet split: option.splits)

lemma delete_inv:
  assumes inv: "sys_inv cfg s"
  shows "sys_inv cfg (replied s (handleDelete cfg now req (store s)))"
proof -
  have "replied s (handleDelete cfg now req (store s)) = s\<lparr>store := fst (handleDelete cfg now req (store s))\<rparr>"
    using delete_quiet [of "store s" cfg now req] by (auto simp: replied_def)
  then show ?thesis using trims_inv [OF inv] delete_quiet by (simp add: quiet_def)
qed

lemma end_initialize_inv:
  assumes "sys_inv cfg s" "runs s = xs @ r # ys"
  shows "sys_inv cfg (s\<lparr>store := endInitialize (store s), runs := xs @ ys\<rparr>)"
  using assms by (auto simp: sys_inv_def endInitialize_def unregistered_append)

lemma init_failed_inv:
  assumes inv: "sys_inv cfg s" and r: "runs s = xs @ (who, sid) # ys"
  shows "sys_inv cfg (s\<lparr>store := initialize_failed cfg now sid (store s), runs := xs @ ys\<rparr>)"
proof (cases sid)
  case None
  then show ?thesis using end_initialize_inv [OF inv r] by (simp add: initialize_failed_def)
next
  case (Some x)
  have "sys_inv cfg (s\<lparr>store := expire cfg now x (store s)\<rparr>)"
    using trims_inv [OF inv] expire_quiet by (simp add: quiet_def)
  from end_initialize_inv [OF this, of xs "(who, sid)" ys] r Some show ?thesis
    by (simp add: initialize_failed_def)
qed

lemma step_inv: "sys_step cfg s ev s' \<Longrightarrow> sys_inv cfg s \<Longrightarrow> sys_inv cfg s'"
proof (induction rule: sys_step.induct)
  case (timer s sid e)
  then show ?case using trims_inv expire_quiet by (simp add: quiet_def)
next
  case (sweep s)
  then show ?case using trims_inv sweep_quiet by (simp add: quiet_def)
next
  case (transport_closed s sid)
  then show ?case using trims_inv forget_trims by simp
next
  case (close s)
  then show ?case using trims_inv close_all_quiet by (simp add: quiet_def)
next
  case (tick s t)
  then show ?case by (simp add: sys_inv_def)
qed (simp_all add: post_inv get_inv delete_inv finish_inv register_inv end_initialize_inv init_failed_inv)

lemma reach_inv: "sys_reach cfg s \<Longrightarrow> sys_inv cfg s"
proof (induction rule: sys_reach.induct)
  case (init t)
  show ?case by (simp add: sys_inv_def sys_init_def unregistered_def)
next
  case (step s ev s')
  then show ?case using step_inv by blast
qed

subsection \<open>The cap, the identity check and expiry\<close>

text \<open>C8: the session cap holds at every moment. Whatever the requests, handshakes, timers and
  transports do, the live sessions together with the handshakes that may still register one
  never exceed \<open>maxSessions\<close>; the pending count is the number of handshakes under way; and
  each entry's in-flight count is the number of requests being served on it.\<close>

theorem session_cap_holds:
  assumes "sys_reach cfg s"
  shows "length (sess (store s)) + unregistered (runs s) \<le> maxSessions cfg \<and>
    pendingInitializes (store s) = length (runs s) \<and>
    (\<forall>sid e. map_of (sess (store s)) sid = Some e \<longrightarrow> inFlight e = count_list (working s) sid)"
  using reach_inv [OF assms] by (simp add: sys_inv_def)

lemma run_begin_keeps: "map_of (sess st) sid = Some e \<Longrightarrow>
    \<exists>e'. map_of (sess (run_begin x st)) sid = Some e' \<and> entry_identity e' = entry_identity e"
  by (auto simp: run_begin_def update_conv' split: option.split)

lemma armExpiry_keeps: "map_of (sess st) sid = Some e \<Longrightarrow>
    \<exists>e'. map_of (sess (armExpiry cfg now x st)) sid = Some e' \<and> entry_identity e' = entry_identity e"
  by (auto simp: armExpiry_def update_conv' split: option.split)

lemma run_end_keeps: "map_of (sess st) sid = Some e \<Longrightarrow>
    \<exists>e'. map_of (sess (run_end cfg now x st)) sid = Some e' \<and> entry_identity e' = entry_identity e"
  by (auto simp: run_end_def armExpiry_def update_conv' split: option.split)

lemma existing_keeps: "map_of (sess st) sid = Some e \<Longrightarrow> handleExisting cfg now req x st = Some r \<Longrightarrow>
    \<exists>e'. map_of (sess (fst r)) sid = Some e' \<and> entry_identity e' = entry_identity e"
proof -
  assume e: "map_of (sess st) sid = Some e" and r: "handleExisting cfg now req x st = Some r"
  from armExpiry_keeps [OF e, of cfg now x] obtain e1 where
    "map_of (sess (armExpiry cfg now x st)) sid = Some e1" "entry_identity e1 = entry_identity e" by blast
  from run_begin_keeps [OF this(1), of x] this(2) obtain e2 where
    "map_of (sess (run_begin x (armExpiry cfg now x st))) sid = Some e2" "entry_identity e2 = entry_identity e"
    by auto
  moreover have "fst r = st \<or> fst r = run_begin x (armExpiry cfg now x st)"
    using r by (auto simp: handleExisting_def split: option.splits if_splits)
  ultimately show ?thesis using e by (metis)
qed

lemma quiet_keeps:
  assumes "quiet st st'" "map_of (sess st) sid = Some e" "0 < inFlight e"
  shows "\<exists>e'. map_of (sess st') sid = Some e' \<and> entry_identity e' = entry_identity e"
proof -
  obtain e' where e': "map_of (sess st') sid = Some e'" using assms by (auto simp: quiet_def)
  from trimsD [OF _ e', of st] assms(1,2) show ?thesis using e' by (auto simp: quiet_def)
qed

text \<open>C9: a session with a request in flight is never expired. No timer, sweep, delete,
  shutdown or failed handshake removes it or changes who it belongs to; only its own transport
  closing does.\<close>

theorem busy_session_survives:
  assumes "sys_reach cfg s" "sys_step cfg s ev s'" "sid \<in> set (working s)"
    and "map_of (sess (store s)) sid = Some e" "ev \<noteq> E_transport_closed sid"
  shows "\<exists>e'. map_of (sess (store s')) sid = Some e' \<and> entry_identity e' = entry_identity e"
proof -
  have inv: "sys_inv cfg s" by (rule reach_inv [OF assms(1)])
  have busy: "0 < inFlight e"
    using inv assms(3,4) count_list_0_iff [of "working s" sid] by (auto simp: sys_inv_def)
  from assms(2) show ?thesis
  proof (cases rule: sys_step.cases)
    case (post req)
    then show ?thesis
      using existing_keeps [OF assms(4)] assms(4)
      by (auto simp: replied_def handlePost_def beginInitialize_def split: option.splits)
  next
    case (get req)
    then show ?thesis
      using existing_keeps [OF assms(4)] assms(4)
      by (auto simp: replied_def handleGet_def split: option.splits)
  next
    case (delete req)
    then show ?thesis
      using quiet_keeps [OF _ assms(4) busy] delete_quiet by (auto simp: replied_def)
  next
    case (finish x)
    then show ?thesis using run_end_keeps [OF assms(4)] by simp
  next
    case (register xs who ys x)
    then have "x \<noteq> sid" using inv assms(3) by (auto simp: sys_inv_def)
    then show ?thesis using register assms(4) by (simp add: McpSessions.register_def update_conv')
  next
    case (init_done xs r ys)
    then show ?thesis using assms(4) by (simp add: endInitialize_def)
  next
    case (init_failed xs who x ys)
    then show ?thesis
      using quiet_keeps [OF expire_quiet assms(4) busy] assms(4)
      by (auto simp: initialize_failed_def endInitialize_def split: option.split)
  next
    case (timer x e2)
    then show ?thesis using quiet_keeps [OF expire_quiet assms(4) busy] by simp
  next
    case sweep
    then show ?thesis using quiet_keeps [OF sweep_quiet assms(4) busy] by simp
  next
    case (transport_closed x)
    then show ?thesis
      using assms(4,5) by (auto simp: forget_def delete_conv' split: option.split)
  next
    case close
    then show ?thesis using quiet_keeps [OF close_all_quiet assms(4) busy] by simp
  next
    case (tick t)
    then show ?thesis using assms(4) by simp
  qed
qed

text \<open>C10: a session answers only to the identity that opened it. A request is served on a
  session only if role, client, token client, namespace source and agent id of its identity are
  those stored at registration (an absent agent id counts as the empty one), and any other
  answer but a new handshake leaves the store as it was.\<close>

theorem session_serves_its_identity_only:
  assumes "handlePost cfg now req st = (st', r) \<or> handleGet cfg now req st = (st', r)"
  shows "case r of
      Served sid \<Rightarrow> (\<exists>e who. session_header req = Some sid \<and> map_of (sess st) sid = Some e \<and>
         request_auth req = Some who \<and> role_of who = role_of (entry_identity e) \<and>
         clientId who = clientId (entry_identity e) \<and>
         tokenClientId who = tokenClientId (entry_identity e) \<and>
         namespaceSource who = namespaceSource (entry_identity e) \<and>
         nullish (agentId who) '''' = nullish (agentId (entry_identity e)) '''')
    | Initializing who \<Rightarrow> request_auth req = Some who \<and> session_header req = None \<and>
         is_initialize req \<and> activeCount st < maxSessions cfg
    | _ \<Rightarrow> st' = st"
proof -
  have names: "role_name a = role_name b \<longleftrightarrow> a = b" for a b by (cases a; cases b) simp_all
  have same: "sameIdentity l e \<Longrightarrow> \<exists>who. l = Some who \<and> role_of who = role_of e \<and> clientId who = clientId e \<and>
      tokenClientId who = tokenClientId e \<and> namespaceSource who = namespaceSource e \<and>
      nullish (agentId who) '''' = nullish (agentId e) ''''" for l e
    by (auto simp: sameIdentity_def IDENTITY_FIELDS_def names split: option.splits namespace_source.splits)
  show ?thesis
    using assms
    by (auto simp: handlePost_def handleGet_def handleExisting_def rejectInitialize_def rejectAdmission_def
        admits_def dest: same split: option.splits if_splits)
qed

lemma expire_idle:
  "map_of (sess st) sid = Some e \<Longrightarrow> inFlight e = 0 \<Longrightarrow>
     expire cfg now sid st = st\<lparr>sess := AList.delete sid (sess st)\<rparr>"
  by (simp add: expire_def)

lemma sweep_ids_map:
  "distinct ids \<Longrightarrow> map_of (sess (fst (sweep_ids cfg now ids st))) sid =
     (case map_of (sess st) sid of None \<Rightarrow> None
      | Some e \<Rightarrow> if sid \<in> set ids \<and> sweepable cfg now e then None else Some e) \<and>
   snd (sweep_ids cfg now ids st) =
     length (filter (\<lambda>k. case map_of (sess st) k of None \<Rightarrow> False | Some e \<Rightarrow> sweepable cfg now e) ids)"
proof (induction ids arbitrary: st)
  case Nil
  then show ?case by (simp split: option.split)
next
  case (Cons k ids)
  show ?case
  proof (cases "\<exists>e. map_of (sess st) k = Some e \<and> sweepable cfg now e")
    case True
    then obtain e where e: "map_of (sess st) k = Some e" "sweepable cfg now e" by blast
    then have x: "expire cfg now k st = st\<lparr>sess := AList.delete k (sess st)\<rparr>"
      by (intro expire_idle [of _ _ e]) (simp_all add: sweepable_def)
    have same: "filter (\<lambda>x. case map_of (sess (st\<lparr>sess := AList.delete k (sess st)\<rparr>)) x of None \<Rightarrow> False
         | Some e \<Rightarrow> sweepable cfg now e) ids =
      filter (\<lambda>x. case map_of (sess st) x of None \<Rightarrow> False | Some e \<Rightarrow> sweepable cfg now e) ids"
      using Cons.prems by (intro filter_cong) (auto simp: delete_conv')
    show ?thesis
      using Cons.IH [of "expire cfg now k st"] Cons.prems e same
      by (auto simp: x split_beta delete_conv' split: option.split)
  next
    case False
    then show ?thesis
      using Cons.IH [of st] Cons.prems by (auto split: option.splits)
  qed
qed

text \<open>What a sweep retires. Exactly the idle sessions whose last activity is more than twice
  the time to live ago are removed, every other entry is left untouched, and the number reported
  is the number removed.\<close>

theorem sweep_retires_exactly_the_stale:
  assumes "sys_reach cfg s"
  shows "(\<forall>sid. map_of (sess (fst (sweep cfg now (store s)))) sid =
       (case map_of (sess (store s)) sid of None \<Rightarrow> None
        | Some e \<Rightarrow> if inFlight e = 0 \<and> now - lastActivity e > 2 * sessionTtlMs cfg then None else Some e)) \<and>
    snd (sweep cfg now (store s)) = length (filter (\<lambda>(sid, e). inFlight e = 0 \<and>
       now - lastActivity e > 2 * sessionTtlMs cfg) (sess (store s)))"
proof -
  let ?m = "sess (store s)"
  have d: "distinct (map fst ?m)" using reach_inv [OF assms] by (simp add: sys_inv_def)
  have sw: "sweepable cfg now e \<longleftrightarrow> inFlight e = 0 \<and> now - lastActivity e > 2 * sessionTtlMs cfg" for e
    by (auto simp: sweepable_def)
  have "length (filter (\<lambda>k. case map_of m k of None \<Rightarrow> False | Some e \<Rightarrow> P e) (map fst m)) =
      length (filter (\<lambda>(k, e). P e) m)" if "distinct (map fst m)" for m and P :: "entry \<Rightarrow> bool"
  proof -
    have "filter (\<lambda>k. case map_of m k of None \<Rightarrow> False | Some e \<Rightarrow> P e) (map fst m) =
        map fst (filter (\<lambda>p. case map_of m (fst p) of None \<Rightarrow> False | Some e \<Rightarrow> P e) m)"
      by (simp add: filter_map comp_def)
    also have "filter (\<lambda>p. case map_of m (fst p) of None \<Rightarrow> False | Some e \<Rightarrow> P e) m =
        filter (\<lambda>(k, e). P e) m"
      using that by (intro filter_cong) (auto simp: map_of_is_SomeI)
    finally show ?thesis by simp
  qed
  from this [OF d, of "sweepable cfg now"]
  have cnt: "snd (sweep cfg now (store s)) = length (filter (\<lambda>(sid, e). inFlight e = 0 \<and>
       now - lastActivity e > 2 * sessionTtlMs cfg) ?m)"
    using sweep_ids_map [OF d, of cfg now "store s", THEN conjunct2] unfolding sweep_def sw by (rule trans [rotated])
  have "map_of (sess (fst (sweep cfg now (store s)))) sid =
       (case map_of ?m sid of None \<Rightarrow> None
        | Some e \<Rightarrow> if inFlight e = 0 \<and> now - lastActivity e > 2 * sessionTtlMs cfg then None else Some e)" for sid
  proof (cases "map_of ?m sid")
    case (Some e)
    then have "sid \<in> set (map fst ?m)" by (simp only: keys_map_of) simp
    then show ?thesis
      using sweep_ids_map [OF d, of cfg now "store s" sid] Some by (simp only: sweep_def sw) simp
  qed (use sweep_ids_map [OF d, of cfg now "store s" sid] in \<open>simp add: sweep_def\<close>)
  with cnt show ?thesis by blast
qed

text \<open>A delete that does not close. While a request is in flight on the session, a matching
  \<open>DELETE\<close> is answered \<open>session closed\<close>, but the entry stays, with a fresh deadline, and
  the same identity's next request is served on it.\<close>

theorem delete_reports_closed_while_busy:
  assumes "map_of (sess st) sid = Some e" "0 < inFlight e" "session_header req = Some sid"
    and "sameIdentity (request_auth req) (entry_identity e)"
  shows "snd (handleDelete cfg now req st) = Session_closed \<and>
    (\<exists>e'. map_of (sess (fst (handleDelete cfg now req st))) sid = Some e' \<and> inFlight e' = inFlight e \<and>
       deadline e' = now + sessionTtlMs cfg) \<and>
    snd (handlePost cfg now req (fst (handleDelete cfg now req st))) = Served sid"
  using assms
  by (simp add: handleDelete_def expire_def armExpiry_def update_conv' handlePost_def handleExisting_def)

subsection \<open>A concrete session\<close>

definition demo_cfg :: session_config where
  "demo_cfg = \<lparr>sessionTtlMs = 1000, maxSessions = 2, retryAfterSeconds = 1\<rparr>"

definition demo_who :: request_auth_info where
  "demo_who = \<lparr>role_of = Agent, clientId = ''bilby'', tokenClientId = ''bilby'',
     namespaceSource = FromToken, agentId = None\<rparr>"

definition open_req :: mcp_request where
  "open_req = \<lparr>session_header = None, request_auth = Some demo_who, is_initialize = True\<rparr>"

definition use_req :: mcp_request where
  "use_req = \<lparr>session_header = Some ''s1'', request_auth = Some demo_who, is_initialize = False\<rparr>"

definition sys1 :: sys where
  "sys1 = replied (sys_init 0) (handlePost demo_cfg 0 open_req (store (sys_init 0)))"

definition sys2 :: sys where
  "sys2 = sys1\<lparr>store := register demo_cfg 0 ''s1'' demo_who (store sys1), runs := [(demo_who, Some ''s1'')],
     used := [''s1'']\<rparr>"

definition sys3 :: sys where
  "sys3 = replied sys2 (handlePost demo_cfg 0 use_req (store sys2))"

lemmas sys_defs = sys1_def sys2_def sys3_def sys_init_def replied_def handlePost_def open_req_def
  use_req_def rejectInitialize_def admits_def activeCount_def beginInitialize_def demo_cfg_def
  handleExisting_def sameIdentity_def IDENTITY_FIELDS_def register_def armExpiry_def run_begin_def

lemma reach1: "sys_reach demo_cfg sys1"
  using sys_reach.step [OF sys_reach.init sys_step.post, of demo_cfg 0 open_req]
  by (simp add: sys1_def sys_init_def)

lemma reach2: "sys_reach demo_cfg sys2"
proof -
  have "sys_step demo_cfg sys1 (E_register ''s1'') sys2"
    using sys_step.register [of sys1 "[]" demo_who "[]" "''s1''" demo_cfg]
    by (simp add: sys2_def) (simp add: sys_defs)
  then show ?thesis by (rule sys_reach.step [OF reach1])
qed

lemma reach3: "sys_reach demo_cfg sys3"
  using sys_reach.step [OF reach2 sys_step.post, of use_req]
  by (simp add: sys3_def) (simp add: sys_defs)

lemma session_cap_witness: "length (sess (store sys3)) + unregistered (runs sys3) \<le> 2"
  using session_cap_holds [OF reach3] by (simp add: demo_cfg_def)

lemma busy3: "\<exists>e. map_of (sess (store sys3)) ''s1'' = Some e \<and> 0 < inFlight e \<and>
    entry_identity e = demo_who \<and> ''s1'' \<in> set (working sys3)"
  by (simp add: sys_defs)

lemma busy_session_witness:
  "map_of (sess (close_all demo_cfg (now_ms sys3) (store sys3))) ''s1'' \<noteq> None"
proof -
  from busy3 obtain e where "map_of (sess (store sys3)) ''s1'' = Some e" "''s1'' \<in> set (working sys3)"
    by blast
  from busy_session_survives [OF reach3 sys_step.close this(2,1)] show ?thesis by auto
qed

lemma session_identity_witness:
  "\<exists>who. request_auth use_req = Some who \<and> role_of who = Agent"
proof -
  obtain st' where "handlePost demo_cfg 0 use_req (store sys2) = (st', Served ''s1'')"
    by (simp add: sys_defs)
  from session_serves_its_identity_only [OF disjI1 [OF this]] show ?thesis
    by (auto simp: use_req_def demo_who_def)
qed

lemma sweep_witness: "map_of (sess (fst (sweep demo_cfg 5000 (store sys2)))) ''s1'' = None"
  using sweep_retires_exactly_the_stale [OF reach2, of 5000] by (simp add: sys_defs)

lemma delete_busy_witness:
  "snd (handleDelete demo_cfg 5 use_req (store sys3)) = Session_closed"
proof -
  from busy3 obtain e where e: "map_of (sess (store sys3)) ''s1'' = Some e" "0 < inFlight e"
    "entry_identity e = demo_who" by blast
  have "sameIdentity (request_auth use_req) (entry_identity e)"
    by (simp add: e(3) use_req_def sameIdentity_def IDENTITY_FIELDS_def)
  from delete_reports_closed_while_busy [OF e(1,2) _ this, of demo_cfg 5] show ?thesis
    by (simp add: use_req_def)
qed


end
