(* ===== verification/RankFusion.thy ===== *)
theory RankFusion
  imports Complex_Main Prelude
begin

text \<open>
  Reciprocal-rank fusion of the vector and the lexical arm of hybrid search
  (\<open>server/tools/search-engine-fusion.ts\<close>, constants of
  \<open>server/tools/search-constants.ts\<close>). Scores are exact rationals; the rounding of
  floating point is not modelled. A timestamp is epoch milliseconds, \<open>None\<close> when
  \<open>new Date\<close> rejects it; a coverage count is \<open>None\<close> when absent or not an integer. The
  tracing wrapper around \<open>rrfMerge\<close> only reports.
\<close>

subsection \<open>Votes\<close>

datatype tier = Hot | Warm | Cold

record search_row =
  source_type :: string
  row_id :: string
  row_tier :: "tier option"
  row_created_at :: "int option"
  lexical_coverage :: "int option"
  query_lexeme_count :: "int option"

datatype arm = Vector | Lexical

definition HYBRID_RRF_K :: nat where "HYBRID_RRF_K = 0"
definition HYBRID_CORROBORATION_BONUS :: rat where "HYBRID_CORROBORATION_BONUS = 1 / 4"

fun TIER_BOOST :: "tier \<Rightarrow> rat" where
  "TIER_BOOST Hot = 3 / 10"
| "TIER_BOOST Warm = 0"
| "TIER_BOOST Cold = - 2 / 10"

definition TABLE_WEIGHT :: "(string \<times> rat) list" where
  "TABLE_WEIGHT = [(''thought'', 12 / 10), (''decision'', 12 / 10), (''relationship'', 1), (''project'', 9 / 10),
     (''session'', 8 / 10), (''entity'', 1)]"

definition row_key :: "search_row \<Rightarrow> string" where
  "row_key r = source_type r @ '':'' @ row_id r"

definition coverage_ok :: "search_row \<Rightarrow> bool" where
  "coverage_ok r = (case (lexical_coverage r, query_lexeme_count r) of
     (Some covered, Some lexemes) \<Rightarrow> \<not> covered < 1 \<and> \<not> lexemes < covered | _ \<Rightarrow> False)"

definition rrfArmContribution :: "search_row \<Rightarrow> nat \<Rightarrow> arm \<Rightarrow> rat result" where
  "rrfArmContribution row index arm =
     (let reciprocalRank = 1 / of_nat (HYBRID_RRF_K + index + 1)
      in if arm = Vector then Inr reciprocalRank
         else if \<not> coverage_ok row
         then Inl (''Invalid hybrid lexical coverage metadata for '' @ row_key row)
         else Inr reciprocalRank)"

definition recencyFactor :: "int option \<Rightarrow> int \<Rightarrow> rat" where
  "recencyFactor createdAt nowMs =
     (case createdAt of None \<Rightarrow> 1
      | Some ms \<Rightarrow> 1 / (1 + max 0 (of_int (nowMs - ms) / 86400000) * (1 / 1000)))"

definition fusedScore :: "search_row \<Rightarrow> rat \<Rightarrow> int \<Rightarrow> rat" where
  "fusedScore row rrf nowMs =
     max 0 ((rrf + TIER_BOOST (case row_tier row of Some t \<Rightarrow> t | None \<Rightarrow> Warm)) *
       (case map_of TABLE_WEIGHT (source_type row) of Some w \<Rightarrow> w | None \<Rightarrow> 1) *
       recencyFactor (row_created_at row) nowMs)"

record ranked_candidate =
  cand_row :: search_row
  rrf :: rat
  presentInVector :: bool
  presentInLexical :: bool

record scored_candidate = ranked_candidate +
  rawScore :: rat
  preference :: rat

definition vote ::
  "arm \<Rightarrow> search_row \<Rightarrow> rat \<Rightarrow> (string, ranked_candidate) jsmap \<Rightarrow> (string, ranked_candidate) jsmap" where
  "vote arm row contribution scored =
     (case map_of scored (row_key row) of
        Some existing \<Rightarrow> AList.update (row_key row)
          (if arm = Vector then existing\<lparr>rrf := rrf existing + contribution, presentInVector := True\<rparr>
           else existing\<lparr>rrf := rrf existing + contribution, presentInLexical := True\<rparr>) scored
      | None \<Rightarrow> AList.update (row_key row)
          \<lparr>cand_row = row, rrf = contribution, presentInVector = (arm = Vector),
           presentInLexical = (arm = Lexical)\<rparr> scored)"

fun accumulate_arm ::
  "arm \<Rightarrow> nat \<Rightarrow> search_row list \<Rightarrow> (string, ranked_candidate) jsmap \<Rightarrow>
     (string, ranked_candidate) jsmap result" where
  "accumulate_arm arm index [] scored = Inr scored"
| "accumulate_arm arm index (row # rows) scored =
     res_bind (rrfArmContribution row index arm)
       (\<lambda>contribution. accumulate_arm arm (Suc index) rows (vote arm row contribution scored))"

definition accumulateRrf ::
  "search_row list \<Rightarrow> search_row list \<Rightarrow> (string, ranked_candidate) jsmap result" where
  "accumulateRrf vectorRows ftsRows =
     res_bind (accumulate_arm Vector 0 vectorRows []) (accumulate_arm Lexical 0 ftsRows)"

subsection \<open>Ranking\<close>

definition compareIdentity :: "search_row \<Rightarrow> search_row \<Rightarrow> int" where
  "compareIdentity left right =
     (if source_type left < source_type right then -1
      else if source_type left > source_type right then 1
      else if row_id left < row_id right then -1
      else if row_id left > row_id right then 1 else 0)"

definition compareCandidates :: "scored_candidate \<Rightarrow> scored_candidate \<Rightarrow> rat" where
  "compareCandidates left right =
     (let relevance = rawScore right - rawScore left
      in if relevance \<noteq> 0 then relevance
         else let pref = preference right - preference left
           in if pref \<noteq> 0 then pref
              else of_int (compareIdentity (cand_row left) (cand_row right)))"

definition score_candidate :: "int \<Rightarrow> ranked_candidate \<Rightarrow> scored_candidate" where
  "score_candidate nowMs c =
     (let corroboration = (if presentInVector c \<and> presentInLexical c then HYBRID_CORROBORATION_BONUS else 0);
          raw = rrf c + corroboration
      in ranked_candidate.extend c
           (scored_candidate.fields raw (fusedScore (cand_row c) raw nowMs)))"

definition ranked_list :: "int \<Rightarrow> (string, ranked_candidate) jsmap \<Rightarrow> scored_candidate list" where
  "ranked_list nowMs scored =
     sort_by (\<lambda>a b. compareCandidates a b \<le> 0) (map (\<lambda>(k, c). score_candidate nowMs c) scored)"

definition rrfMerge :: "int \<Rightarrow> search_row list \<Rightarrow> search_row list \<Rightarrow> nat \<Rightarrow> search_row list result" where
  "rrfMerge nowMs vectorRows ftsRows limit =
     res_bind (accumulateRrf vectorRows ftsRows)
       (\<lambda>scored. Inr (map cand_row (slice 0 limit (ranked_list nowMs scored))))"

subsection \<open>The comparator is a total preorder\<close>

definition cand_le :: "scored_candidate \<Rightarrow> scored_candidate \<Rightarrow> bool" where
  "cand_le = lex_le (\<lambda>c. - rawScore c) (lex_le (\<lambda>c. - preference c)
     (lex_le (\<lambda>c. source_type (cand_row c)) (\<lambda>a b. row_id (cand_row a) \<le> row_id (cand_row b))))"

lemma compareCandidates_le: "compareCandidates a b \<le> 0 \<longleftrightarrow> cand_le a b"
  by (auto simp: compareCandidates_def cand_le_def lex_le_def compareIdentity_def Let_def)

interpretation ranking: sort_order "\<lambda>a b. compareCandidates a b \<le> 0"
  unfolding compareCandidates_le cand_le_def by (intro lex_sort_order key_sort_order)

lemma cand_le_raw: "compareCandidates a b \<le> 0 \<Longrightarrow> rawScore b \<le> rawScore a"
  by (auto simp: compareCandidates_le cand_le_def lex_le_def)

subsection \<open>What the arms add up to\<close>

text \<open>The reciprocal ranks of a key in an arm, the first row ranked \<open>index + 1\<close>.\<close>

fun votes :: "nat \<Rightarrow> search_row list \<Rightarrow> string \<Rightarrow> rat" where
  "votes index [] k = 0"
| "votes index (row # rows) k =
     (if row_key row = k then 1 / of_nat (HYBRID_RRF_K + index + 1) else 0) + votes (Suc index) rows k"

definition first_row :: "search_row list \<Rightarrow> string \<Rightarrow> search_row option" where
  "first_row rows k = find (\<lambda>r. row_key r = k) rows"

definition arm_ok :: "arm \<Rightarrow> search_row list \<Rightarrow> bool" where
  "arm_ok arm rows = (arm = Vector \<or> list_all coverage_ok rows)"

text \<open>The candidate of key \<open>k\<close> after an arm, given the one before.\<close>

definition after_arm ::
  "arm \<Rightarrow> nat \<Rightarrow> search_row list \<Rightarrow> string \<Rightarrow> ranked_candidate option \<Rightarrow> ranked_candidate option" where
  "after_arm arm index rows k old =
     (if k \<notin> row_key ` set rows then old
      else case old of
        Some c \<Rightarrow> Some (c\<lparr>rrf := rrf c + votes index rows k,
          presentInVector := presentInVector c \<or> arm = Vector,
          presentInLexical := presentInLexical c \<or> arm = Lexical\<rparr>)
      | None \<Rightarrow> Some \<lparr>cand_row = the (first_row rows k), rrf = votes index rows k,
          presentInVector = (arm = Vector), presentInLexical = (arm = Lexical)\<rparr>)"

lemma after_arm_None: "after_arm arm index rows k old = None \<longleftrightarrow> k \<notin> row_key ` set rows \<and> old = None"
  by (simp add: after_arm_def split: option.split)

lemma vote_map: "map_of (vote arm row x m) k = (if k = row_key row then
    Some (case map_of m k of
      Some c \<Rightarrow> c\<lparr>rrf := rrf c + x, presentInVector := presentInVector c \<or> arm = Vector,
          presentInLexical := presentInLexical c \<or> arm = Lexical\<rparr>
    | None \<Rightarrow> \<lparr>cand_row = row, rrf = x, presentInVector = (arm = Vector), presentInLexical = (arm = Lexical)\<rparr>)
    else map_of m k)"
  by (cases arm) (auto simp: vote_def update_conv' split: option.split)

lemma votes_absent: "k \<notin> row_key ` set rows \<Longrightarrow> votes index rows k = 0"
  by (induction index rows k rule: votes.induct) auto

lemma accumulate_arm_ok: "arm_ok arm rows \<longleftrightarrow> (\<exists>m'. accumulate_arm arm index rows m = Inr m')"
  by (induction arm index rows m rule: accumulate_arm.induct)
    (auto simp: arm_ok_def rrfArmContribution_def Let_def)

lemma accumulate_arm_map:
  "accumulate_arm arm index rows m = Inr m' \<Longrightarrow>
     map_of m' k = after_arm arm index rows k (map_of m k) \<and>
     (distinct (map fst m) \<longrightarrow> distinct (map fst m'))"
proof (induction arm index rows m arbitrary: m' rule: accumulate_arm.induct)
  case (1 arm index scored)
  then show ?case by (simp add: after_arm_def)
next
  case (2 arm index row rows scored)
  from "2.prems" obtain c where c: "rrfArmContribution row index arm = Inr c"
    "accumulate_arm arm (Suc index) rows (vote arm row c scored) = Inr m'"
    by (auto simp: res_bind_Inr)
  have cv: "c = 1 / of_nat (HYBRID_RRF_K + index + 1)"
    using c(1) by (auto simp: rrfArmContribution_def Let_def split: if_splits)
  have d: "distinct (map fst scored) \<Longrightarrow> distinct (map fst (vote arm row c scored))"
    by (simp add: vote_def distinct_update split: option.split)
  show ?case
    using "2.IH" [OF c(2)] d
    by (auto simp: after_arm_def vote_map cv votes_absent first_row_def add.assoc split: option.split)
qed

subsection \<open>The merged ranking\<close>

definition arm_keys :: "search_row list \<Rightarrow> string set" where
  "arm_keys rows = row_key ` set rows"

definition raw_score :: "search_row list \<Rightarrow> search_row list \<Rightarrow> string \<Rightarrow> rat" where
  "raw_score vec lexi k = votes 0 vec k + votes 0 lexi k +
     (if k \<in> arm_keys vec \<and> k \<in> arm_keys lexi then HYBRID_CORROBORATION_BONUS else 0)"

lemma find_row_key: "k \<in> row_key ` set rows \<Longrightarrow> \<exists>r. first_row rows k = Some r \<and> row_key r = k \<and> r \<in> set rows"
  by (induction rows) (auto simp: first_row_def)

lemma first_row_append:
  "first_row (xs @ ys) k = (if k \<in> row_key ` set xs then first_row xs k else first_row ys k)"
  by (induction xs) (auto simp: first_row_def)

lemma rawScore_score [simp]:
  "rawScore (score_candidate now c) = rrf c +
     (if presentInVector c \<and> presentInLexical c then HYBRID_CORROBORATION_BONUS else 0)"
  "cand_row (score_candidate now c) = cand_row c"
  by (simp_all add: score_candidate_def Let_def ranked_candidate.defs scored_candidate.defs)

lemma accumulateRrf_spec:
  assumes "accumulateRrf vec lexi = Inr m"
  shows "distinct (map fst m)" "set (map fst m) = arm_keys vec \<union> arm_keys lexi"
    and "(k, c) \<in> set m \<Longrightarrow> row_key (cand_row c) = k \<and> first_row (vec @ lexi) k = Some (cand_row c) \<and>
      rawScore (score_candidate now c) = raw_score vec lexi k"
proof -
  obtain m1 where m1: "accumulate_arm Vector 0 vec [] = Inr m1" "accumulate_arm Lexical 0 lexi m1 = Inr m"
    using assms by (auto simp: accumulateRrf_def res_bind_Inr)
  show d: "distinct (map fst m)"
    using accumulate_arm_map [OF m1(1)] accumulate_arm_map [OF m1(2)] by simp
  have m: "map_of m k = after_arm Lexical 0 lexi k (after_arm Vector 0 vec k None)" for k
    using accumulate_arm_map [OF m1(1), of k] accumulate_arm_map [OF m1(2), of k] by simp
  have "k \<in> set (map fst m) \<longleftrightarrow> map_of m k \<noteq> None" for k by (simp add: map_of_eq_None_iff)
  then have "k \<in> set (map fst m) \<longleftrightarrow> k \<in> arm_keys vec \<union> arm_keys lexi" for k
    unfolding m after_arm_None arm_keys_def by blast
  then show "set (map fst m) = arm_keys vec \<union> arm_keys lexi" by blast
  show "row_key (cand_row c) = k \<and> first_row (vec @ lexi) k = Some (cand_row c) \<and>
      rawScore (score_candidate now c) = raw_score vec lexi k" if "(k, c) \<in> set m"
  proof -
    have c: "after_arm Lexical 0 lexi k (after_arm Vector 0 vec k None) = Some c"
      using map_of_distinct_iff [OF d] that m by metis
    show ?thesis
      using c find_row_key [of k vec] find_row_key [of k lexi]
      by (auto simp: after_arm_def raw_score_def arm_keys_def votes_absent first_row_append split: if_splits)
  qed
qed

lemma ranked_list_spec:
  assumes "accumulateRrf vec lexi = Inr m"
  shows "sorted_wrt (\<lambda>a b. rawScore b \<le> rawScore a) (ranked_list now m)"
    and "distinct (map (row_key \<circ> cand_row) (ranked_list now m))"
    and "row_key ` cand_row ` set (ranked_list now m) = arm_keys vec \<union> arm_keys lexi"
    and "c \<in> set (ranked_list now m) \<Longrightarrow> rawScore c = raw_score vec lexi (row_key (cand_row c)) \<and>
      first_row (vec @ lexi) (row_key (cand_row c)) = Some (cand_row c)"
proof -
  note spec = accumulateRrf_spec [OF assms]
  show "sorted_wrt (\<lambda>a b. rawScore b \<le> rawScore a) (ranked_list now m)"
    unfolding ranked_list_def
    by (rule sorted_wrt_mono_rel [OF _ ranking.sorted_sort_by]) (rule cand_le_raw)
  have keys: "map (row_key \<circ> cand_row) (map (\<lambda>(k, c). score_candidate now c) m) = map fst m"
    using spec(3) by (auto simp: comp_def)
  have "mset (map (row_key \<circ> cand_row) (ranked_list now m)) =
      mset (map (row_key \<circ> cand_row) (map (\<lambda>(k, c). score_candidate now c) m))"
    by (simp only: ranked_list_def mset_map mset_sort_by)
  then have ms: "mset (map (row_key \<circ> cand_row) (ranked_list now m)) = mset (map fst m)"
    by (simp only: keys)
  then show "distinct (map (row_key \<circ> cand_row) (ranked_list now m))"
    using spec(1) mset_eq_imp_distinct_iff by blast
  show "row_key ` cand_row ` set (ranked_list now m) = arm_keys vec \<union> arm_keys lexi"
    using arg_cong [OF ms, of set_mset] spec(2) by (simp add: image_image)
  show "rawScore c = raw_score vec lexi (row_key (cand_row c)) \<and>
      first_row (vec @ lexi) (row_key (cand_row c)) = Some (cand_row c)"
    if "c \<in> set (ranked_list now m)"
  proof -
    from that obtain k c0 where "(k, c0) \<in> set m" "c = score_candidate now c0"
      by (auto simp: ranked_list_def)
    with spec(3) [where now = now] show ?thesis by auto
  qed
qed

lemma accumulateRrf_ok: "list_all coverage_ok lexi \<longleftrightarrow> (\<exists>m. accumulateRrf vec lexi = Inr m)"
proof -
  obtain m1 where m1: "accumulate_arm Vector 0 vec [] = Inr m1"
    using accumulate_arm_ok [of Vector vec 0 "[]"] by (auto simp: arm_ok_def)
  show ?thesis
    using accumulate_arm_ok [of Lexical lexi 0 m1] by (simp add: accumulateRrf_def m1 arm_ok_def)
qed

lemma fused_ranking_is_correct':
  "if list_all coverage_ok lexi then \<exists>out. rrfMerge now vec lexi limit = Inr out \<and>
      distinct (map row_key out) \<and> length out = min limit (card (arm_keys vec \<union> arm_keys lexi)) \<and>
      sorted_wrt (\<lambda>a b. raw_score vec lexi (row_key b) \<le> raw_score vec lexi (row_key a)) out \<and>
      (\<forall>r \<in> set out. first_row (vec @ lexi) (row_key r) = Some r) \<and>
      (\<forall>k \<in> (arm_keys vec \<union> arm_keys lexi) - row_key ` set out. \<forall>r \<in> set out.
         raw_score vec lexi k \<le> raw_score vec lexi (row_key r))
    else \<exists>e. rrfMerge now vec lexi limit = Inl e"
proof (cases "list_all coverage_ok lexi")
  case False
  then have "\<exists>e. accumulateRrf vec lexi = Inl e"
    using accumulateRrf_ok [of lexi vec] by (cases "accumulateRrf vec lexi") auto
  with False show ?thesis by (auto simp: rrfMerge_def)
next
  case True
  then obtain m where m: "accumulateRrf vec lexi = Inr m" using accumulateRrf_ok by blast
  note spec = ranked_list_spec [OF m, where now = now]
  let ?L = "ranked_list now m"
  let ?out = "map cand_row (take limit ?L)"
  have out: "rrfMerge now vec lexi limit = Inr ?out" by (simp add: rrfMerge_def m slice_def)
  have "card (arm_keys vec \<union> arm_keys lexi) = length ?L"
    using spec(2,3) distinct_card by (metis (no_types, lifting) image_comp length_map list.set_map)
  then have len: "length ?out = min limit (card (arm_keys vec \<union> arm_keys lexi))" by simp
  have dist: "distinct (map row_key ?out)"
    using distinct_take [OF spec(2), of limit] by (simp add: take_map comp_def)
  have raw: "\<And>c. c \<in> set ?L \<Longrightarrow> raw_score vec lexi (row_key (cand_row c)) = rawScore c"
    using spec(4) by simp
  have "sorted_wrt (\<lambda>a b. rawScore b \<le> rawScore a) (take limit ?L)"
    using spec(1) by (rule sorted_wrt_take)
  then have "sorted_wrt (\<lambda>a b. raw_score vec lexi (row_key (cand_row b)) \<le>
      raw_score vec lexi (row_key (cand_row a))) (take limit ?L)"
    by (rule sorted_wrt_mono_rel [rotated]) (simp add: raw [OF in_set_takeD])
  then have sort: "sorted_wrt (\<lambda>a b. raw_score vec lexi (row_key b) \<le> raw_score vec lexi (row_key a)) ?out"
    by (simp add: sorted_wrt_map)
  have best: "raw_score vec lexi k \<le> raw_score vec lexi (row_key r)"
    if k: "k \<in> (arm_keys vec \<union> arm_keys lexi) - row_key ` set ?out" and r: "r \<in> set ?out" for k r
  proof -
    from k spec(3) obtain c where c: "c \<in> set ?L" "k = row_key (cand_row c)" by blast
    then have "c \<notin> set (take limit ?L)" using k by force
    then have cd: "c \<in> set (drop limit ?L)"
      using c(1) by (metis Un_iff append_take_drop_id set_append)
    from r obtain b where b: "b \<in> set (take limit ?L)" "r = cand_row b" by auto
    have "rawScore c \<le> rawScore b"
      using spec(1) b(1) cd
      by (metis append_take_drop_id sorted_wrt_append)
    then show ?thesis using raw c b(2) in_set_takeD [OF b(1)] by simp
  qed
  have "\<forall>r \<in> set ?out. first_row (vec @ lexi) (row_key r) = Some r"
    using spec(4) by (auto dest: in_set_takeD)
  with True out len dist sort best show ?thesis by auto
qed

text \<open>C24: the fused ranking. Unless a lexical row carries invalid coverage metadata, which is an
  error, the merge returns the \<open>limit\<close> best of the records of either arm, each once, in
  decreasing order of the sum of its reciprocal ranks plus one fixed bonus for being in both; no
  record left out scores higher than one returned, and a record in both arms is represented by
  its row of the vector arm.\<close>

theorem fused_ranking_is_correct:
  "if list_all coverage_ok lexi then \<exists>out. rrfMerge now vec lexi limit = Inr out \<and>
      distinct (map row_key out) \<and> length out = min limit (card (arm_keys vec \<union> arm_keys lexi)) \<and>
      sorted_wrt (\<lambda>a b. raw_score vec lexi (row_key b) \<le> raw_score vec lexi (row_key a)) out \<and>
      (\<forall>r \<in> set out. first_row (vec @ lexi) (row_key r) = Some r) \<and>
      (\<forall>k \<in> (arm_keys vec \<union> arm_keys lexi) - row_key ` set out. \<forall>r \<in> set out.
         raw_score vec lexi k \<le> raw_score vec lexi (row_key r))
    else \<exists>e. rrfMerge now vec lexi limit = Inl e"
  by (rule fused_ranking_is_correct')

lemma votes_bound: "distinct (map row_key rows) \<Longrightarrow> votes index rows k \<le> 1 / of_nat (index + 1)"
proof (induction index rows k rule: votes.induct)
  case (2 index row rows k)
  have "(1 :: rat) / of_nat (Suc index + 1) \<le> 1 / of_nat (index + 1)"
    by (intro divide_left_mono) auto
  moreover have "votes (Suc index) rows k = 0" if "row_key row = k"
    using 2(2) that by (intro votes_absent) auto
  ultimately show ?case using 2 by (auto simp: HYBRID_RRF_K_def intro: order_trans)
qed simp

text \<open>Corroboration wins. In arms that name a record once, the record both arms rank first is
  the first result, whatever the tiers, the tables, the ages and the other records.\<close>

theorem first_in_both_arms_is_first:
  assumes "list_all coverage_ok (b # lexi)" "row_key a = row_key b" "0 < limit"
    and "distinct (map row_key (a # vec))" "distinct (map row_key (b # lexi))"
  shows "\<exists>rest. rrfMerge now (a # vec) (b # lexi) limit = Inr (a # rest)"
proof -
  let ?v = "a # vec" and ?l = "b # lexi" and ?k = "row_key a"
  from fused_ranking_is_correct' [of ?l now ?v limit] assms(1) obtain out where
    out: "rrfMerge now ?v ?l limit = Inr out" "length out = min limit (card (arm_keys ?v \<union> arm_keys ?l))"
      "sorted_wrt (\<lambda>x y. raw_score ?v ?l (row_key y) \<le> raw_score ?v ?l (row_key x)) out"
      "\<forall>r \<in> set out. first_row (?v @ ?l) (row_key r) = Some r"
      "\<forall>k \<in> (arm_keys ?v \<union> arm_keys ?l) - row_key ` set out. \<forall>r \<in> set out.
         raw_score ?v ?l k \<le> raw_score ?v ?l (row_key r)"
    by auto
  have "card (arm_keys ?v \<union> arm_keys ?l) > 0" by (simp add: arm_keys_def card_gt_0_iff)
  with out(2) assms(3) obtain r rest where o: "out = r # rest" by (cases out) auto
  have vk: "votes 0 ?v ?k = 1" "votes 0 ?l ?k = 1"
    using assms by (auto simp: votes_absent HYBRID_RRF_K_def)
  then have top: "raw_score ?v ?l ?k = 2 + 1 / 4"
    using assms(2) by (simp add: raw_score_def arm_keys_def HYBRID_CORROBORATION_BONUS_def)
  have low: "raw_score ?v ?l k < 2 + 1 / 4" if "k \<noteq> ?k" for k
  proof -
    have "votes 0 ?v k \<le> 1 / 2" "votes 0 ?l k \<le> 1 / 2"
      using that votes_bound [of vec 1 k] votes_bound [of lexi 1 k] assms by auto
    then show ?thesis by (auto simp: raw_score_def HYBRID_CORROBORATION_BONUS_def)
  qed
  have "row_key r = ?k"
  proof (rule ccontr)
    assume ne: "row_key r \<noteq> ?k"
    have "raw_score ?v ?l ?k \<le> raw_score ?v ?l (row_key r)"
    proof (cases "?k \<in> row_key ` set out")
      case True
      then show ?thesis using out(3) o ne by auto
    next
      case False
      then show ?thesis using out(5) o by (auto simp: arm_keys_def)
    qed
    with low [OF ne] top show False by simp
  qed
  then have "r = a" using out(4) o by (simp add: first_row_def)
  with out(1) o show ?thesis by simp
qed

definition sample_row :: "string \<Rightarrow> tier option \<Rightarrow> search_row" where
  "sample_row i t = \<lparr>source_type = ''thought'', row_id = i, row_tier = t, row_created_at = None,
     lexical_coverage = Some 1, query_lexeme_count = Some 2\<rparr>"

lemma first_in_both_arms_is_first_witness:
  "\<exists>rest. rrfMerge 0 [sample_row ''a'' (Some Cold), sample_row ''b'' (Some Hot)]
     [sample_row ''a'' None, sample_row ''c'' None] 2 = Inr (sample_row ''a'' (Some Cold) # rest)"
  by (rule first_in_both_arms_is_first)
     (simp_all add: sample_row_def row_key_def coverage_ok_def)

lemma fused_ranking_is_correct_witness:
  "rrfMerge 0 [sample_row ''b'' None] [sample_row ''a'' None, sample_row ''b'' None] 1 =
     Inr [sample_row ''b'' None]"
proof -
  have ok: "list_all coverage_ok [sample_row ''a'' None, sample_row ''b'' None]"
    by (simp add: sample_row_def coverage_ok_def)
  from fused_ranking_is_correct [of "[sample_row ''a'' None, sample_row ''b'' None]" 0
      "[sample_row ''b'' None]" 1] ok
  obtain out where "rrfMerge 0 [sample_row ''b'' None] [sample_row ''a'' None, sample_row ''b'' None] 1 = Inr out"
    by auto
  moreover have "rrfMerge 0 [sample_row ''b'' None] [sample_row ''a'' None, sample_row ''b'' None] 1 =
     Inr [sample_row ''b'' None]" by code_simp
  ultimately show ?thesis by simp
qed

end
