(* ===== verification/JevBatches.thy ===== *)
theory JevBatches
  imports Complex_Main Json
begin

text \<open>
  The Jev classifier client (\<open>server/integrations/jev.ts\<close>,
  \<open>server/integrations/jev-failure.ts\<close>, the relevance set of
  \<open>server/integrations/jev-question-sets.ts\<close>): question sets and their validation, the
  greedy planner that packs records into requests under two byte ceilings, the validation of
  the answers, the execution of a plan and the relevance reranking built on it.

  The network, the URL parser and the schema parser of the response are arguments of the model
  (\<open>jev_env\<close>). Probabilities and scores are exact rationals. Objects keep their members in
  insertion order. The message of an invalid answer leaves out the rendering of the answer; the
  tracing callback around a batch only observes.
\<close>

subsection \<open>Questions, records and batches\<close>

datatype text_part = Part string | Parts "string list"

datatype jev_text = Plain string | Structured "(string \<times> text_part) list"

datatype jev_question =
    ChoiceQ jev_text "(string \<times> jev_text option) list"
  | NoulQ jev_text "(string \<times> string) option"
  | ScoreQ jev_text "string list"

fun instructions :: "jev_question \<Rightarrow> jev_text" where
  "instructions (ChoiceQ t c) = t"
| "instructions (NoulQ t c) = t"
| "instructions (ScoreQ t c) = t"

fun with_instructions :: "jev_text \<Rightarrow> jev_question \<Rightarrow> jev_question" where
  "with_instructions t (ChoiceQ u c) = ChoiceQ t c"
| "with_instructions t (NoulQ u c) = NoulQ t c"
| "with_instructions t (ScoreQ u c) = ScoreQ t c"

record classifier_set =
  set_name :: string
  set_version :: string
  classifiers :: "(string \<times> jev_question) list"

record classifier_record =
  rec_key :: string
  rec_content :: string
  rec_fields :: "(string \<times> string option) list option"

record question_mapping =
  questionId :: string
  recordKey :: string
  classifierName :: string

record jev_batch =
  batch_records :: "classifier_record list"
  batch_state :: json_object
  questions :: "(string \<times> jev_question) list"
  mappings :: "question_mapping list"
  estimatedRequestBytes :: nat
  estimatedStateQuestionBytes :: nat

record jev_plan =
  classifierSet :: classifier_set
  batches :: "jev_batch list"

record jev_config =
  enabled :: bool
  apiKey :: "string option"
  baseUrl :: string
  jev_model :: string
  maxRequestBytes :: nat
  maxStateQuestionBytes :: nat

definition DEFAULT_JEV_MAX_REQUEST_BYTES :: nat where
  "DEFAULT_JEV_MAX_REQUEST_BYTES = 192000"

definition DEFAULT_JEV_MAX_STATE_QUESTION_BYTES :: nat where
  "DEFAULT_JEV_MAX_STATE_QUESTION_BYTES = 96000"

subsection \<open>Failures\<close>

record failure_metadata =
  failure_stage :: string
  failure_code :: string
  http_status :: "nat option"

record jev_error =
  err_name :: string
  err_message :: string
  err_meta :: "failure_metadata option"

definition js_error :: "string \<Rightarrow> jev_error" where
  "js_error m = \<lparr>err_name = ''Error'', err_message = m, err_meta = None\<rparr>"

definition classifyJevFailure :: "jev_error \<Rightarrow> failure_metadata \<Rightarrow> jev_error" where
  "classifyJevFailure e m = e\<lparr>err_meta := Some m\<rparr>"

definition JevBatchTooLargeError :: "string \<Rightarrow> jev_error" where
  "JevBatchTooLargeError key =
     \<lparr>err_name = ''JevBatchTooLargeError'',
      err_message = ''Jev classifier record '' @ key @ '' exceeds configured byte ceilings'',
      err_meta = None\<rparr>"

datatype failure_reason = Timeout | Http | Size | Invalid_answer | Network | Other

definition REASON_BY_FAILURE_CODE :: "(string \<times> failure_reason) list" where
  "REASON_BY_FAILURE_CODE =
     [(''http_status'', Http), (''request_failed'', Network), (''invalid_json'', Invalid_answer),
      (''invalid_schema'', Invalid_answer), (''incomplete_classifier_answers'', Invalid_answer),
      (''invalid_classifier_answer'', Invalid_answer), (''invalid_relevance_answer'', Invalid_answer)]"

definition TIMEOUT_ERROR_NAMES :: "string list" where
  "TIMEOUT_ERROR_NAMES = [''TimeoutError'', ''AbortError'']"

definition describeJevFailure :: "jev_error \<Rightarrow> failure_reason \<times> nat option" where
  "describeJevFailure e =
     (if err_name e = ''JevBatchTooLargeError'' then (Size, None)
      else let code = (case err_meta e of Some m \<Rightarrow> failure_code m | None \<Rightarrow> '''');
               reason = (case map_of REASON_BY_FAILURE_CODE code of Some r \<Rightarrow> r | None \<Rightarrow> Other)
        in if reason = Network \<and> err_name e \<in> set TIMEOUT_ERROR_NAMES then (Timeout, None)
           else (reason, case err_meta e of Some m \<Rightarrow> http_status m | None \<Rightarrow> None))"

subsection \<open>Validating a question set\<close>

definition isNonEmptyString :: "string \<Rightarrow> bool" where
  "isNonEmptyString s = (trim s \<noteq> '''')"

fun part_ok :: "text_part \<Rightarrow> bool" where
  "part_ok (Part s) = isNonEmptyString s"
| "part_ok (Parts ss) = (ss \<noteq> [] \<and> list_all isNonEmptyString ss)"

fun text_ok :: "jev_text \<Rightarrow> bool" where
  "text_ok (Plain s) = isNonEmptyString s"
| "text_ok (Structured kvs) = (kvs \<noteq> [] \<and> list_all (\<lambda>(k, v). part_ok v) kvs)"

definition validateChoiceCriteria :: "string \<Rightarrow> (string \<times> jev_text option) list \<Rightarrow> jev_error + unit" where
  "validateChoiceCriteria name criteria =
     (if criteria = [] then Inl (js_error (''Jev Choice classifier '' @ name @ '' requires nonempty criteria''))
      else if list_ex (\<lambda>(key, v). trim key = '''' \<or>
          (case v of Some (Structured kvs) \<Rightarrow> \<not> text_ok (Structured kvs) | _ \<Rightarrow> False)) criteria
      then Inl (js_error (''Jev Choice classifier '' @ name @ '' has invalid criteria''))
      else Inr ())"

definition validateScoreCriteria :: "string \<Rightarrow> string list \<Rightarrow> jev_error + unit" where
  "validateScoreCriteria name criteria =
     (if \<not> (2 \<le> length criteria \<and> length criteria \<le> 10 \<and> list_all isNonEmptyString criteria)
      then Inl (js_error (''Jev Score classifier '' @ name @ '' has invalid criteria''))
      else Inr ())"

definition validateQuestion :: "string \<Rightarrow> jev_question \<Rightarrow> jev_error + unit" where
  "validateQuestion name q =
     (if \<not> text_ok (instructions q)
      then Inl (js_error (''Jev classifier '' @ name @ '' has empty instructions''))
      else case q of ChoiceQ t c \<Rightarrow> validateChoiceCriteria name c
           | NoulQ t c \<Rightarrow> Inr ()
           | ScoreQ t c \<Rightarrow> validateScoreCriteria name c)"

fun validate_questions :: "(string \<times> jev_question) list \<Rightarrow> jev_error + unit" where
  "validate_questions [] = Inr ()"
| "validate_questions ((name, q) # qs) = res_bind (validateQuestion name q) (\<lambda>_. validate_questions qs)"

definition validateClassifierSet :: "classifier_set \<Rightarrow> jev_error + unit" where
  "validateClassifierSet cs =
     (if classifiers cs = [] then Inl (js_error ''Jev classifier set is empty'')
      else validate_questions (classifiers cs))"

subsection \<open>Materializing a batch\<close>

definition utf8_length :: "string \<Rightarrow> nat" where
  "utf8_length s = sum_list (map (\<lambda>c. if (of_char c :: nat) < 128 then 1 else 2) s)"

lemma utf8_length_code [code]: "utf8_length s = foldr (\<lambda>c n. if digit7 c then Suc (Suc n) else Suc n) s 0"
  unfolding utf8_length_def of_char_less_128 by (induction s) auto

definition serializedBytes :: "json \<Rightarrow> nat" where
  "serializedBytes j = utf8_length (stringify j)"

fun text_part_json :: "text_part \<Rightarrow> json" where
  "text_part_json (Part s) = JStr s"
| "text_part_json (Parts ss) = JArr (map JStr ss)"

fun text_json :: "jev_text \<Rightarrow> json" where
  "text_json (Plain s) = JStr s"
| "text_json (Structured kvs) = JObj (map (\<lambda>(k, v). (k, text_part_json v)) kvs)"

fun question_json :: "jev_question \<Rightarrow> json" where
  "question_json (ChoiceQ t c) = JObj [(''type'', JStr ''choice''), (''instructions'', text_json t),
     (''criteria'', JObj (map (\<lambda>(k, v). (k, case v of None \<Rightarrow> JNull | Some w \<Rightarrow> text_json w)) c))]"
| "question_json (NoulQ t c) = JObj ([(''type'', JStr ''noul''), (''instructions'', text_json t)] @
     (case c of None \<Rightarrow> [] | Some (y, n) \<Rightarrow> [(''criteria'', JObj [(''true'', JStr y), (''false'', JStr n)])]))"
| "question_json (ScoreQ t c) = JObj [(''type'', JStr ''score''), (''instructions'', text_json t),
     (''criteria'', JArr (map JStr c))]"

definition record_json :: "classifier_record \<Rightarrow> json" where
  "record_json r = JObj ([(''key'', JStr (rec_key r)), (''content'', JStr (rec_content r))] @
     (case rec_fields r of None \<Rightarrow> [] | Some fs \<Rightarrow> [(''fields'', JObj (map (\<lambda>(k, v). (k, jopt v)) fs))]))"

definition record_ref :: "string \<Rightarrow> nat \<Rightarrow> string" where
  "record_ref key localIndex = ''record key '' @ key @ '' at records['' @ show_nat localIndex @ '']''"

definition judged :: "string \<Rightarrow> nat \<Rightarrow> jev_question \<Rightarrow> jev_question" where
  "judged key localIndex q = with_instructions
     (case instructions q of
        Plain s \<Rightarrow> Plain (s @ '' Judge only '' @ record_ref key localIndex @ ''.'')
      | Structured kvs \<Rightarrow> Structured (AList.update ''judge_only'' (Part (record_ref key localIndex)) kvs)) q"

definition question_id :: "nat \<Rightarrow> nat \<Rightarrow> string" where
  "question_id recordIndex classifierIndex =
     ''r'' @ show_nat recordIndex @ ''_c'' @ show_nat classifierIndex"

text \<open>The two nested loops: one question and one mapping per record and classifier.\<close>

definition asked ::
  "nat \<Rightarrow> (string \<times> jev_question) list \<Rightarrow> classifier_record list \<Rightarrow> (question_mapping \<times> jev_question) list" where
  "asked startIndex cls records =
     concat (map (\<lambda>(localIndex, r). map (\<lambda>(classifierIndex, name, q).
         (\<lparr>questionId = question_id (startIndex + localIndex) classifierIndex,
           recordKey = rec_key r, classifierName = name\<rparr>, judged (rec_key r) localIndex q))
       (enumerate 0 cls)) (enumerate 0 records))"

definition materializeBatch ::
  "json_object \<Rightarrow> classifier_set \<Rightarrow> string \<Rightarrow> nat \<Rightarrow> classifier_record list \<Rightarrow> jev_batch" where
  "materializeBatch sharedState cs model startIndex records =
     (let as = asked startIndex (classifiers cs) records;
          qs = foldl (\<lambda>acc (m, q). AList.update (questionId m) q acc) [] as;
          state = set_member ''records'' (JArr (map record_json records))
            (set_member ''classifier_set''
               (JObj [(''name'', JStr (set_name cs)), (''version'', JStr (set_version cs))]) sharedState);
          stateBytes = serializedBytes (JObj state);
          longest = foldl max 0 (map (\<lambda>(k, q). serializedBytes (question_json q)) qs)
      in \<lparr>batch_records = records, batch_state = state, questions = qs, mappings = map fst as,
          estimatedRequestBytes = serializedBytes (JObj [(''state'', JObj state), (''model'', JStr model),
            (''questions'', JObj (map (\<lambda>(k, q). (k, question_json q)) qs))]),
          estimatedStateQuestionBytes = stateBytes + longest\<rparr>)"

subsection \<open>The planner\<close>

text \<open>
  The inner loop grows the batch from \<open>start\<close> to \<open>final\<close> while it fits and keeps the last
  one that did; the outer loop continues after it.
\<close>

function widest :: "(nat \<Rightarrow> 'b) \<Rightarrow> ('b \<Rightarrow> bool) \<Rightarrow> nat \<Rightarrow> nat \<Rightarrow> 'b option \<Rightarrow> 'b option" where
  "widest mk fits e final accepted =
     (if e \<le> final then if fits (mk e) then widest mk fits (Suc e) final (Some (mk e)) else accepted
      else accepted)"
  by auto
termination by (relation "measure (\<lambda>(mk, fits, e, final, accepted). Suc final - e)") auto

declare widest.simps [simp del]

definition batch_fits :: "jev_config \<Rightarrow> jev_batch \<Rightarrow> bool" where
  "batch_fits limits b =
     (estimatedRequestBytes b \<le> maxRequestBytes limits \<and>
      estimatedStateQuestionBytes b \<le> maxStateQuestionBytes limits)"

definition accepted_batch ::
  "json_object \<Rightarrow> classifier_record list \<Rightarrow> classifier_set \<Rightarrow> jev_config \<Rightarrow> nat \<Rightarrow> jev_batch option" where
  "accepted_batch sharedState records cs limits start =
     widest (\<lambda>e. materializeBatch sharedState cs (jev_model limits) start (slice start e records))
       (batch_fits limits) (Suc start) (length records) None"

lemma widest_Some:
  "widest mk fits e final accepted = Some b \<Longrightarrow> accepted = Some b \<or> (\<exists>k. e \<le> k \<and> k \<le> final \<and> b = mk k)"
proof (induction mk fits e final accepted rule: widest.induct)
  case (1 mk fits e final accepted)
  from 1(2) consider "accepted = Some b"
    | "e \<le> final" "fits (mk e)" "widest mk fits (Suc e) final (Some (mk e)) = Some b"
    by (subst (asm) widest.simps) (auto split: if_splits)
  then show ?case
  proof cases
    case 2
    then show ?thesis using 1(1) [OF 2] by (metis Suc_leD option.inject order_refl)
  qed simp
qed

lemma batch_records_materialize [simp]:
  "batch_records (materializeBatch sharedState cs model s rs) = rs"
  by (simp add: materializeBatch_def Let_def)

lemma length_accepted:
  assumes "accepted_batch sharedState records cs limits start = Some b"
  shows "0 < length (batch_records b)"
proof -
  from widest_Some [OF assms [unfolded accepted_batch_def]] obtain k where
    "Suc start \<le> k" "k \<le> length records"
    "b = materializeBatch sharedState cs (jev_model limits) start (slice start k records)"
    by auto
  then show ?thesis by (simp add: slice_def)
qed

function plan_from ::
  "json_object \<Rightarrow> classifier_record list \<Rightarrow> classifier_set \<Rightarrow> jev_config \<Rightarrow> nat \<Rightarrow> jev_error + jev_batch list" where
  "plan_from sharedState records cs limits start =
     (if start < length records then
        case accepted_batch sharedState records cs limits start of
          None \<Rightarrow> Inl (JevBatchTooLargeError (rec_key (records ! start)))
        | Some b \<Rightarrow> res_bind (plan_from sharedState records cs limits (start + length (batch_records b)))
            (\<lambda>bs. Inr (b # bs))
      else Inr [])"
  by auto
termination
  by (relation "measure (\<lambda>(sharedState, records, cs, limits, start). length records - start)")
     (auto dest!: length_accepted simp flip: length_greater_0_conv)

declare plan_from.simps [simp del]

definition buildJevBatchPlan ::
  "json_object \<Rightarrow> classifier_record list \<Rightarrow> classifier_set \<Rightarrow> jev_config \<Rightarrow> jev_error + jev_plan" where
  "buildJevBatchPlan sharedState records cs limits =
     res_bind (validateClassifierSet cs) (\<lambda>_.
       if \<not> distinct (map rec_key records)
       then Inl (js_error ''Jev classifier records contain duplicate keys'')
       else res_bind (plan_from sharedState records cs limits 0)
         (\<lambda>bs. Inr \<lparr>classifierSet = cs, batches = bs\<rparr>))"

subsection \<open>What a plan is\<close>

text \<open>
  The contract of the planner: consecutive batches from \<open>start\<close> on, each the widest prefix of
  what is left for which it and every shorter prefix fit.
\<close>

fun greedy :: "(nat \<Rightarrow> classifier_record list \<Rightarrow> jev_batch) \<Rightarrow> (jev_batch \<Rightarrow> bool) \<Rightarrow> nat \<Rightarrow>
    classifier_record list \<Rightarrow> jev_batch list \<Rightarrow> bool" where
  "greedy mk fits start rs [] \<longleftrightarrow> rs = []"
| "greedy mk fits start rs (b # bs) \<longleftrightarrow>
     (let n = length (batch_records b)
      in 0 < n \<and> n \<le> length rs \<and> batch_records b = take n rs \<and> b = mk start (batch_records b) \<and>
         (\<forall>k \<in> {1..n}. fits (mk start (take k rs))) \<and>
         (n < length rs \<longrightarrow> \<not> fits (mk start (take (Suc n) rs))) \<and>
         greedy mk fits (start + n) (drop n rs) bs)"

lemma widest_spec:
  assumes "e \<le> Suc final"
  shows "case widest mk fits e final accepted of
      None \<Rightarrow> accepted = None \<and> (e \<le> final \<longrightarrow> \<not> fits (mk e))
    | Some b \<Rightarrow> (accepted = Some b \<and> (e \<le> final \<longrightarrow> \<not> fits (mk e))) \<or>
        (\<exists>k. e \<le> k \<and> k \<le> final \<and> b = mk k \<and> (\<forall>j \<in> {e..k}. fits (mk j)) \<and> (k < final \<longrightarrow> \<not> fits (mk (Suc k))))"
  using assms
proof (induction mk fits e final accepted rule: widest.induct)
  case (1 mk fits e final accepted)
  show ?case
  proof (cases "e \<le> final \<and> fits (mk e)")
    case False
    then have "widest mk fits e final accepted = accepted" by (subst widest.simps) auto
    with False show ?thesis by (cases accepted) auto
  next
    case True
    then have w: "widest mk fits e final accepted = widest mk fits (Suc e) final (Some (mk e))"
      by (subst widest.simps) auto
    have IH: "case widest mk fits (Suc e) final (Some (mk e)) of None \<Rightarrow> False
      | Some b \<Rightarrow> (mk e = b \<and> (Suc e \<le> final \<longrightarrow> \<not> fits (mk (Suc e)))) \<or>
        (\<exists>k. Suc e \<le> k \<and> k \<le> final \<and> b = mk k \<and> (\<forall>j \<in> {Suc e..k}. fits (mk j)) \<and> (k < final \<longrightarrow> \<not> fits (mk (Suc k))))"
      using 1(1) True by (auto split: option.splits)
    then obtain b where b: "widest mk fits (Suc e) final (Some (mk e)) = Some b"
      by (auto split: option.splits)
    have "\<exists>k. e \<le> k \<and> k \<le> final \<and> b = mk k \<and> (\<forall>j \<in> {e..k}. fits (mk j)) \<and> (k < final \<longrightarrow> \<not> fits (mk (Suc k)))"
      using IH [unfolded b option.case]
    proof (elim disjE)
      assume "mk e = b \<and> (Suc e \<le> final \<longrightarrow> \<not> fits (mk (Suc e)))"
      with True show ?thesis by (intro exI [of _ e]) auto
    next
      assume "\<exists>k. Suc e \<le> k \<and> k \<le> final \<and> b = mk k \<and> (\<forall>j \<in> {Suc e..k}. fits (mk j)) \<and> (k < final \<longrightarrow> \<not> fits (mk (Suc k)))"
      then obtain k where k: "Suc e \<le> k" "k \<le> final" "b = mk k" "\<forall>j \<in> {Suc e..k}. fits (mk j)"
        "k < final \<longrightarrow> \<not> fits (mk (Suc k))" by blast
      have "\<forall>j \<in> {e..k}. fits (mk j)"
        using k(4) True by (metis atLeastAtMost_iff le_antisym not_less_eq_eq)
      with k show ?thesis by (intro exI [of _ k]) auto
    qed
    then show ?thesis by (simp add: w b)
  qed
qed

text \<open>The batch the inner loop accepts, as a prefix of what is left.\<close>

lemma accepted_spec:
  fixes sharedState :: json_object and cs :: classifier_set and limits :: jev_config
  assumes "start < length records"
  defines "mk \<equiv> \<lambda>s rs. materializeBatch sharedState cs (jev_model limits) s rs"
  shows "case accepted_batch sharedState records cs limits start of
      None \<Rightarrow> \<not> batch_fits limits (mk start [records ! start])
    | Some b \<Rightarrow> (let n = length (batch_records b) in 0 < n \<and> n \<le> length (drop start records) \<and>
        batch_records b = take n (drop start records) \<and> b = mk start (batch_records b) \<and>
        (\<forall>k \<in> {1..n}. batch_fits limits (mk start (take k (drop start records)))) \<and>
        (n < length (drop start records) \<longrightarrow>
          \<not> batch_fits limits (mk start (take (Suc n) (drop start records)))))"
proof -
  let ?f = "\<lambda>e. mk start (slice start e records)"
  have acc: "accepted_batch sharedState records cs limits start =
      widest ?f (batch_fits limits) (Suc start) (length records) None"
    by (simp add: accepted_batch_def mk_def)
  note spec = widest_spec [where e = "Suc start" and final = "length records" and mk = ?f and
      fits = "batch_fits limits" and accepted = None]
  show ?thesis
  proof (cases "accepted_batch sharedState records cs limits start")
    case None
    with spec acc assms(1) have "\<not> batch_fits limits (?f (Suc start))" by simp
    moreover have "slice start (Suc start) records = [records ! start]"
      using assms(1) by (simp add: slice_def take_Suc_conv_app_nth Cons_nth_drop_Suc [symmetric])
    ultimately show ?thesis by (simp add: None)
  next
    case (Some b)
    with acc have w: "widest ?f (batch_fits limits) (Suc start) (length records) None = Some b" by simp
    from spec [unfolded w option.case] assms(1) obtain k where k: "Suc start \<le> k" "k \<le> length records" "b = ?f k"
      "\<forall>j \<in> {Suc start..k}. batch_fits limits (?f j)" "k < length records \<longrightarrow> \<not> batch_fits limits (?f (Suc k))"
      by auto
    define n where "n = k - start"
    have kn: "k = start + n" using k(1) by (simp add: n_def)
    have len: "length (batch_records b) = n"
      using k(2) by (simp add: k(3) mk_def slice_def kn)
    have pre: "batch_fits limits (mk start (take j (drop start records)))" if "j \<in> {1..n}" for j
      using that k(4) [THEN bspec, of "start + j"] by (auto simp: slice_def kn)
    have "0 < n" "n \<le> length (drop start records)" "batch_records b = take n (drop start records)"
      "b = mk start (batch_records b)"
      "n < length (drop start records) \<longrightarrow> \<not> batch_fits limits (mk start (take (Suc n) (drop start records)))"
      using k by (auto simp: kn slice_def mk_def)
    with pre show ?thesis unfolding Some option.case Let_def len by blast
  qed
qed

lemma plan_from_greedy:
  "plan_from sharedState records cs limits start = Inr bs \<Longrightarrow>
     greedy (materializeBatch sharedState cs (jev_model limits)) (batch_fits limits) start (drop start records) bs"
proof (induction sharedState records cs limits start arbitrary: bs rule: plan_from.induct)
  case (1 sharedState records cs limits start)
  show ?case
  proof (cases "start < length records")
    case False
    with 1(2) show ?thesis by (subst (asm) plan_from.simps) auto
  next
    case True
    with 1(2) obtain b bs' where b: "accepted_batch sharedState records cs limits start = Some b"
        "plan_from sharedState records cs limits (start + length (batch_records b)) = Inr bs'" "bs = b # bs'"
      by (subst (asm) plan_from.simps) (auto simp: res_bind_Inr split: option.splits)
    from 1(1) [OF True b(1) b(2)] accepted_spec [OF True, where sharedState = sharedState and cs = cs and limits = limits]
    show ?thesis by (simp add: b Let_def add.commute)
  qed
qed

lemma plan_from_error:
  "plan_from sharedState records cs limits start = Inl e \<Longrightarrow>
     \<exists>s < length records. start \<le> s \<and> e = JevBatchTooLargeError (rec_key (records ! s)) \<and>
       \<not> batch_fits limits (materializeBatch sharedState cs (jev_model limits) s [records ! s])"
proof (induction sharedState records cs limits start rule: plan_from.induct)
  case (1 sharedState records cs limits start)
  from 1(2) have True: "start < length records" by (subst (asm) plan_from.simps) (auto split: if_splits)
  show ?case
  proof (cases "accepted_batch sharedState records cs limits start")
    case None
    with 1(2) True have "e = JevBatchTooLargeError (rec_key (records ! start))"
      by (subst (asm) plan_from.simps) auto
    with accepted_spec [OF True, where sharedState = sharedState and cs = cs and limits = limits] None True show ?thesis
      by (intro exI [of _ start]) auto
  next
    case (Some b)
    with 1(2) True have "plan_from sharedState records cs limits (start + length (batch_records b)) = Inl e"
      by (subst (asm) plan_from.simps) (auto simp: res_bind_Inl)
    from 1(1) [OF True Some this] show ?thesis by auto
  qed
qed

lemma greedy_concat: "greedy mk fits start rs bs \<Longrightarrow> concat (map batch_records bs) = rs"
proof (induction bs arbitrary: start rs)
  case (Cons b bs)
  let ?n = "length (batch_records b)"
  from Cons.prems have "batch_records b = take ?n rs" "concat (map batch_records bs) = drop ?n rs"
    using Cons.IH by (auto simp: Let_def)
  then show ?case by (metis append_take_drop_id concat.simps(2) list.simps(9))
qed simp

lemma greedy_batches:
  "greedy mk fits start rs bs \<Longrightarrow> b \<in> set bs \<Longrightarrow>
     batch_records b \<noteq> [] \<and> fits b \<and> (\<exists>s. b = mk s (batch_records b))"
proof (induction bs arbitrary: start rs)
  case (Cons c bs)
  let ?n = "length (batch_records c)"
  from Cons.prems(1) have c: "0 < ?n" "batch_records c = take ?n rs" "c = mk start (batch_records c)"
      "\<forall>k \<in> {1..?n}. fits (mk start (take k rs))" "greedy mk fits (start + ?n) (drop ?n rs) bs"
    by (auto simp: Let_def)
  have "?n \<in> {1..?n}" using c(1) by (simp only: atLeastAtMost_iff) linarith
  with c(2-4) have "fits c" by metis
  with c(1-3) have "batch_records c \<noteq> [] \<and> fits c \<and> (\<exists>s. c = mk s (batch_records c))" by auto
  with Cons.IH [OF c(5)] Cons.prems(2) show ?case by auto
qed simp

lemma buildJevBatchPlan_cases:
  "case buildJevBatchPlan sharedState records cs limits of
     Inr plan \<Rightarrow> classifierSet plan = cs \<and> concat (map batch_records (batches plan)) = records \<and>
       greedy (materializeBatch sharedState cs (jev_model limits)) (batch_fits limits) 0 records (batches plan) \<and>
       (\<forall>b \<in> set (batches plan). batch_records b \<noteq> [] \<and> batch_fits limits b) \<and>
       distinct (map rec_key records) \<and> validateClassifierSet cs = Inr ()
   | Inl e \<Rightarrow> validateClassifierSet cs = Inl e \<or>
       (validateClassifierSet cs = Inr () \<and> \<not> distinct (map rec_key records) \<and>
          e = js_error ''Jev classifier records contain duplicate keys'') \<or>
       (\<exists>s < length records. e = JevBatchTooLargeError (rec_key (records ! s)) \<and>
          \<not> batch_fits limits (materializeBatch sharedState cs (jev_model limits) s [records ! s]))"
proof (cases "buildJevBatchPlan sharedState records cs limits")
  case (Inl e)
  then show ?thesis
    using plan_from_error [of sharedState records cs limits 0]
    by (auto simp: buildJevBatchPlan_def res_bind_Inl split: if_splits)
next
  case (Inr plan)
  then have g: "greedy (materializeBatch sharedState cs (jev_model limits)) (batch_fits limits) 0 records (batches plan)"
      "classifierSet plan = cs" "distinct (map rec_key records)" "validateClassifierSet cs = Inr ()"
    using plan_from_greedy [of sharedState records cs limits 0]
    by (auto simp: buildJevBatchPlan_def res_bind_Inr split: if_splits)
  from g greedy_concat [OF g(1)] greedy_batches [OF g(1)] show ?thesis by (simp add: Inr)
qed

text \<open>The batch planner. A plan holds every record exactly once and in order, in consecutive
  batches that each respect both byte ceilings and could not have taken the next record; the
  planner refuses only an invalid question set, duplicate keys, or a record that on its own
  exceeds a ceiling, which the error names.\<close>

theorem batch_plan_is_greedy:
  "case buildJevBatchPlan sharedState records cs limits of
     Inr plan \<Rightarrow> classifierSet plan = cs \<and> concat (map batch_records (batches plan)) = records \<and>
       greedy (materializeBatch sharedState cs (jev_model limits)) (batch_fits limits) 0 records (batches plan) \<and>
       (\<forall>b \<in> set (batches plan). batch_records b \<noteq> [] \<and> batch_fits limits b)
   | Inl e \<Rightarrow> validateClassifierSet cs = Inl e \<or>
       (\<not> distinct (map rec_key records) \<and> e = js_error ''Jev classifier records contain duplicate keys'') \<or>
       (\<exists>s < length records. e = JevBatchTooLargeError (rec_key (records ! s)) \<and>
          \<not> batch_fits limits (materializeBatch sharedState cs (jev_model limits) s [records ! s]))"
  using buildJevBatchPlan_cases [where sharedState = sharedState and records = records and cs = cs and limits = limits]
  by (cases "buildJevBatchPlan sharedState records cs limits") auto

subsection \<open>Answers\<close>

datatype jev_answer =
    ChoiceA string "(string \<times> rat) list" rat
  | NoulA rat
  | ScoreA rat "(string \<times> string) list" "(string \<times> rat) list" rat

record jev_response =
  resp_model :: string
  resp_answers :: "(string \<times> jev_answer) list"
  input_tokens :: nat
  output_tokens :: nat

definition PROBABILITY_SUM_TOLERANCE :: rat where "PROBABILITY_SUM_TOLERANCE = 2 / 100"

definition hasValidProbabilities :: "(string \<times> rat) list \<Rightarrow> string list \<Rightarrow> bool" where
  "hasValidProbabilities probabilities expectedKeys =
     (\<not> (length probabilities \<noteq> length expectedKeys \<or>
         list_ex (\<lambda>key. map_of probabilities key = None) expectedKeys \<or>
         \<bar>sum_list (map snd probabilities) - 1\<bar> > PROBABILITY_SUM_TOLERANCE))"

definition validateScoreAnswer ::
  "string list \<Rightarrow> rat \<Rightarrow> (string \<times> string) list \<Rightarrow> (string \<times> rat) list \<Rightarrow> bool" where
  "validateScoreAnswer criteria score legend probabilities =
     (let expectedKeys = map show_nat [0..<length criteria]
      in if \<not> hasValidProbabilities probabilities expectedKeys then False
         else let expectedScore = sum_list (map (\<lambda>(level, p). of_nat (read_nat level) * p) probabilities)
           in length legend = length expectedKeys \<and>
              list_all (\<lambda>key. map_of legend key = Some (criteria ! read_nat key)) expectedKeys \<and>
              0 \<le> score \<and> score \<le> of_nat (length criteria) - 1 \<and>
              \<bar>score - expectedScore\<bar> \<le> 1 / 1000000)"

fun validateClassifierAnswer :: "jev_question \<Rightarrow> jev_answer \<Rightarrow> bool" where
  "validateClassifierAnswer (NoulQ t c) (NoulA p) = True"
| "validateClassifierAnswer (ChoiceQ t criteria) (ChoiceA choice probabilities confidence) =
     (choice \<in> fst ` set criteria \<and> hasValidProbabilities probabilities (map fst criteria) \<and>
      (case map_of probabilities choice of None \<Rightarrow> False
       | Some p \<Rightarrow> p = foldl max p (map snd probabilities)))"
| "validateClassifierAnswer (ScoreQ t criteria) (ScoreA score legend probabilities confidence) =
     validateScoreAnswer criteria score legend probabilities"
| "validateClassifierAnswer _ _ = False"

definition question_type :: "jev_question \<Rightarrow> string" where
  "question_type q = (case q of ChoiceQ t c \<Rightarrow> ''choice'' | NoulQ t c \<Rightarrow> ''noul'' | ScoreQ t c \<Rightarrow> ''score'')"

definition decision_failure :: "string \<Rightarrow> failure_metadata" where
  "decision_failure code = \<lparr>failure_stage = ''decision'', failure_code = code, http_status = None\<rparr>"

fun check_mappings :: "jev_batch \<Rightarrow> jev_response \<Rightarrow> question_mapping list \<Rightarrow> jev_error + jev_response" where
  "check_mappings b response [] = Inr response"
| "check_mappings b response (m # ms) =
     (case (map_of (resp_answers response) (questionId m), map_of (questions b) (questionId m)) of
        (Some answer, Some question) \<Rightarrow>
          if validateClassifierAnswer question answer then check_mappings b response ms
          else Inl (classifyJevFailure (js_error (''Jev returned invalid classifier answer for question ''
                 @ questionId m @ '' (type '' @ question_type question @ '')''))
                 (decision_failure ''invalid_classifier_answer''))
      | (_, question) \<Rightarrow> Inl (classifyJevFailure (js_error (''Jev returned invalid classifier answer for question ''
                 @ questionId m @ '' (type '' @ (case question of None \<Rightarrow> ''unknown'' | Some q \<Rightarrow> question_type q) @ '')''))
                 (decision_failure ''invalid_classifier_answer'')))"

definition validateJevBatchResponse :: "jev_batch \<Rightarrow> jev_response \<Rightarrow> jev_error + jev_response" where
  "validateJevBatchResponse b response =
     (if length (resp_answers response) \<noteq> length (mappings b)
      then Inl (classifyJevFailure (js_error ''Jev returned incomplete classifier answers'')
             (decision_failure ''incomplete_classifier_answers''))
      else check_mappings b response (mappings b))"

subsection \<open>Asking the endpoint\<close>

datatype fetch_outcome = Rejected jev_error | Fetched nat "jev_error + json"

record jev_env =
  url_protocol :: "string \<Rightarrow> jev_error + string"
  jev_fetch :: "string \<Rightarrow> json \<Rightarrow> fetch_outcome"
  parse_response :: "json \<Rightarrow> jev_error + jev_response"

definition http_failure :: "string \<Rightarrow> string \<Rightarrow> nat option \<Rightarrow> failure_metadata" where
  "http_failure stage code status = \<lparr>failure_stage = stage, failure_code = code, http_status = status\<rparr>"

definition askJev ::
  "jev_env \<Rightarrow> jev_config \<Rightarrow> json_object \<Rightarrow> (string \<times> jev_question) list \<Rightarrow> jev_error + jev_response" where
  "askJev env config state qs =
     (if \<not> enabled config \<or> apiKey config = None \<or> apiKey config = Some ''''
      then Inl (js_error ''Jev is not configured'')
      else res_bind (url_protocol env (baseUrl config)) (\<lambda>protocol.
        if protocol \<noteq> ''https:'' then Inl (js_error ''Jev endpoint must use HTTPS'')
        else case jev_fetch env (baseUrl config)
            (JObj [(''state'', JObj state), (''model'', JStr (jev_model config)),
                   (''questions'', JObj (map (\<lambda>(k, q). (k, question_json q)) qs))]) of
          Rejected e \<Rightarrow> Inl (classifyJevFailure e (http_failure ''http'' ''request_failed'' None))
        | Fetched status body \<Rightarrow>
            if \<not> (200 \<le> status \<and> status \<le> 299)
            then Inl (classifyJevFailure (js_error (''Jev request failed with status '' @ show_nat status))
                   (http_failure ''http'' ''http_status'' (Some status)))
            else case body of
                Inl e \<Rightarrow> Inl (classifyJevFailure e (http_failure ''response'' ''invalid_json'' None))
              | Inr j \<Rightarrow> (case parse_response env j of
                    Inl e \<Rightarrow> Inl (classifyJevFailure e (http_failure ''response'' ''invalid_schema'' None))
                  | Inr r \<Rightarrow> Inr r)))"

subsection \<open>Executing a plan\<close>

record jev_outcome =
  answers :: "(string, (string, jev_answer) jsmap) jsmap"
  servedModels :: "(string, string) jsmap"
  inputTokens :: nat
  outputTokens :: nat

definition stage :: "jev_response \<Rightarrow> question_mapping \<Rightarrow> jev_answer \<Rightarrow> jev_outcome \<Rightarrow> jev_outcome" where
  "stage response m answer out =
     (let recordAnswers = (case map_of (answers out) (recordKey m) of Some a \<Rightarrow> a | None \<Rightarrow> [])
      in out\<lparr>answers := AList.update (recordKey m)
               (AList.update (classifierName m) answer recordAnswers) (answers out),
             servedModels := AList.update (recordKey m) (resp_model response) (servedModels out)\<rparr>)"

fun stage_mappings :: "jev_response \<Rightarrow> question_mapping list \<Rightarrow> jev_outcome \<Rightarrow> jev_error + jev_outcome" where
  "stage_mappings response [] out = Inr out"
| "stage_mappings response (m # ms) out =
     (case map_of (resp_answers response) (questionId m) of
        None \<Rightarrow> Inl (js_error ''validated Jev answer missing'')
      | Some answer \<Rightarrow> stage_mappings response ms (stage response m answer out))"

fun run_batches :: "jev_env \<Rightarrow> jev_config \<Rightarrow> jev_batch list \<Rightarrow> jev_outcome \<Rightarrow> jev_error + jev_outcome" where
  "run_batches env config [] out = Inr out"
| "run_batches env config (b # bs) out =
     res_bind (res_bind (askJev env config (batch_state b) (questions b)) (validateJevBatchResponse b))
       (\<lambda>response. res_bind (stage_mappings response (mappings b)
           (out\<lparr>inputTokens := inputTokens out + input_tokens response,
                outputTokens := outputTokens out + output_tokens response\<rparr>))
         (run_batches env config bs))"

definition executeJevBatchPlan :: "jev_env \<Rightarrow> jev_config \<Rightarrow> jev_plan \<Rightarrow> jev_error + jev_outcome" where
  "executeJevBatchPlan env config plan =
     run_batches env config (batches plan)
       \<lparr>answers = [], servedModels = [], inputTokens = 0, outputTokens = 0\<rparr>"

subsection \<open>Reranking by relevance\<close>

definition RELEVANCE_CLASSIFIER_SET :: classifier_set where
  "RELEVANCE_CLASSIFIER_SET = \<lparr>set_name = ''retrieval-relevance'', set_version = ''direct-answer-relevance-v1'',
     classifiers = [(''relevance'', NoulQ (Plain (''Does the candidate directly provide information answering the ''
        @ ''question, rather than merely discussing the same topic?'')) None)]\<rparr>"

definition answer_of :: "jev_outcome \<Rightarrow> string \<Rightarrow> string \<Rightarrow> jev_answer option" where
  "answer_of out key name = (case map_of (answers out) key of None \<Rightarrow> None | Some a \<Rightarrow> map_of a name)"

fun score_candidates :: "jev_outcome \<Rightarrow> (string \<times> string) list \<Rightarrow> jev_error + ((string \<times> string) \<times> rat) list" where
  "score_candidates out [] = Inr []"
| "score_candidates out (c # cs) =
     (case answer_of out (fst c) ''relevance'' of
        Some (NoulA p) \<Rightarrow> res_bind (score_candidates out cs) (\<lambda>ss. Inr ((c, p) # ss))
      | _ \<Rightarrow> Inl (classifyJevFailure (js_error ''Jev returned invalid relevance answer'')
               (decision_failure ''invalid_relevance_answer'')))"

text \<open>A candidate is its id and its content; the second result is what \<open>onFailure\<close> is told.\<close>

definition rerankWithJev ::
  "jev_env \<Rightarrow> jev_config \<Rightarrow> string \<Rightarrow> (string \<times> string) list \<Rightarrow>
     (string \<times> string) list \<times> (failure_reason \<times> nat option) option" where
  "rerankWithJev env config query candidates =
     (if \<not> enabled config \<or> length candidates < 2 then (candidates, None)
      else case res_bind (buildJevBatchPlan [(''query'', JStr query)]
            (map (\<lambda>(i, c). \<lparr>rec_key = i, rec_content = c, rec_fields = None\<rparr>) candidates)
            RELEVANCE_CLASSIFIER_SET config)
          (\<lambda>plan. res_bind (executeJevBatchPlan env config plan) (\<lambda>result. score_candidates result candidates)) of
        Inl e \<Rightarrow> (candidates, Some (describeJevFailure e))
      | Inr scored \<Rightarrow> (map (\<lambda>(c, p, i). c)
            (sort_by (\<lambda>(c, p, i) (d, q, j). p > q \<or> (p = q \<and> i \<le> j))
              (map (\<lambda>(i, c, p). (c, p, i)) (enumerate 0 scored))), None))"

subsection \<open>Question ids are unique in a batch\<close>

lemma question_id_inj: "question_id a b = question_id c d \<longleftrightarrow> a = c \<and> b = d"
proof
  assume eq: "question_id a b = question_id c d"
  have digits: "takeWhile is_digit (show_nat x @ ''_c'' @ r) = show_nat x" for x r
  proof -
    have "\<not> is_digit (CHR ''_'')" by code_simp
    then show ?thesis
      using is_digit_show_nat [of _ x] by (subst takeWhile_append2) auto
  qed
  from eq have e: "show_nat a @ ''_c'' @ show_nat b = show_nat c @ ''_c'' @ show_nat d"
    by (simp add: question_id_def)
  then have "takeWhile is_digit (show_nat a @ ''_c'' @ show_nat b) =
      takeWhile is_digit (show_nat c @ ''_c'' @ show_nat d)"
    by simp
  then have "a = c" unfolding digits by simp
  with e show "a = c \<and> b = d" by simp
qed simp

lemma asked_ids:
  "map (\<lambda>p. questionId (fst p)) (asked s cls rs) =
     map (\<lambda>(l, c). question_id (s + l) c) (List.product [0..<length rs] [0..<length cls])"
proof -
  have inner: "map (\<lambda>p. questionId (fst p)) (map (\<lambda>(c, name, q). (\<lparr>questionId = question_id (s + l) c,
        recordKey = rec_key r, classifierName = name\<rparr>, judged (rec_key r) l q)) (enumerate 0 cls)) =
      map (question_id (s + l)) [0..<length cls]" for l r
    by (rule nth_equalityI) (auto simp: nth_enumerate_eq split: prod.split)
  have "map (\<lambda>p. questionId (fst p)) (asked s cls rs) =
      concat (map (\<lambda>(l, r). map (question_id (s + l)) [0..<length cls]) (enumerate 0 rs))"
    unfolding asked_def map_concat map_map comp_def
    by (intro arg_cong [where f = concat] map_cong refl) (auto simp: inner simp del: map_map)
  also have "map (\<lambda>(l, r). map (question_id (s + l)) [0..<length cls]) (enumerate 0 rs) =
      map (\<lambda>l. map (question_id (s + l)) [0..<length cls]) [0..<length rs]"
    by (rule nth_equalityI) (auto simp: nth_enumerate_eq)
  finally show ?thesis by (simp add: product_concat_map map_concat comp_def)
qed

lemma distinct_asked: "distinct (map (\<lambda>p. questionId (fst p)) (asked s cls rs))"
  unfolding asked_ids distinct_map
  by (auto simp: distinct_product inj_on_def question_id_inj)

lemma in_asked:
  "(m, q) \<in> set (asked s cls rs) \<longleftrightarrow> (\<exists>l < length rs. \<exists>c < length cls.
     m = \<lparr>questionId = question_id (s + l) c, recordKey = rec_key (rs ! l), classifierName = fst (cls ! c)\<rparr> \<and>
     q = judged (rec_key (rs ! l)) l (snd (cls ! c)))"
proof -
  have enum: "set (enumerate 0 xs) = (\<lambda>l. (l, xs ! l)) ` {..<length xs}" for xs :: "'x list"
    by (auto simp: in_set_enumerate_eq image_iff)
  have "(m, q) \<in> set (asked s cls rs) \<longleftrightarrow> (\<exists>p \<in> set (enumerate 0 rs). \<exists>x \<in> set (enumerate 0 cls).
      m = \<lparr>questionId = question_id (s + fst p) (fst x), recordKey = rec_key (snd p), classifierName = fst (snd x)\<rparr> \<and>
      q = judged (rec_key (snd p)) (fst p) (snd (snd x)))"
    by (simp add: asked_def image_iff case_prod_beta)
  then show ?thesis by (simp add: enum Bex_def)
qed

lemma update_fresh: "k \<notin> set (map fst m) \<Longrightarrow> AList.update k v m = m @ [(k, v)]"
  by (induction m) auto

lemma foldl_update_fresh:
  "distinct (map fst acc @ map (\<lambda>p. f (fst p)) ps) \<Longrightarrow>
     foldl (\<lambda>acc (m, q). AList.update (f m) q acc) acc ps = acc @ map (\<lambda>(m, q). (f m, q)) ps"
proof (induction ps arbitrary: acc)
  case (Cons p ps)
  obtain m q where p: "p = (m, q)" by (cases p)
  have fresh: "AList.update (f m) q acc = acc @ [(f m, q)]"
    using Cons.prems by (intro update_fresh) (auto simp: p)
  show ?case using Cons by (simp add: p fresh)
qed simp

lemma questions_materialize:
  "questions (materializeBatch sharedState cs model s rs) =
     map (\<lambda>(m, q). (questionId m, q)) (asked s (classifiers cs) rs)"
  using foldl_update_fresh [of "[]" questionId "asked s (classifiers cs) rs"] distinct_asked [of s "classifiers cs" rs]
  by (simp add: materializeBatch_def Let_def)

lemma mappings_materialize:
  "mappings (materializeBatch sharedState cs model s rs) = map fst (asked s (classifiers cs) rs)"
  by (simp add: materializeBatch_def Let_def)

lemma question_of_mapping:
  assumes "(m, q) \<in> set (asked s (classifiers cs) rs)"
  shows "map_of (questions (materializeBatch sharedState cs model s rs)) (questionId m) = Some q"
  using assms distinct_asked [of s "classifiers cs" rs] unfolding questions_materialize
  by (intro map_of_is_SomeI) (force simp: comp_def case_prod_beta image_iff)+

subsection \<open>Where the answers of an execution come from\<close>

lemma answer_of_stage:
  "answer_of (stage response m a out) k n =
     (if k = recordKey m \<and> n = classifierName m then Some a else answer_of out k n)"
  by (auto simp: answer_of_def stage_def Let_def update_conv' split: option.splits)

definition from_mappings :: "jev_response \<Rightarrow> question_mapping list \<Rightarrow> string \<Rightarrow> string \<Rightarrow> jev_answer \<Rightarrow> bool" where
  "from_mappings response ms k n a \<longleftrightarrow> (\<exists>m \<in> set ms. recordKey m = k \<and> classifierName m = n \<and>
     map_of (resp_answers response) (questionId m) = Some a)"

lemma stage_mappings_answers:
  "stage_mappings response ms out = Inr out' \<Longrightarrow>
     (\<forall>k n a. answer_of out' k n = Some a \<longrightarrow> answer_of out k n = Some a \<or> from_mappings response ms k n a) \<and>
     (\<forall>k n. answer_of out k n \<noteq> None \<longrightarrow> answer_of out' k n \<noteq> None) \<and>
     (\<forall>m \<in> set ms. answer_of out' (recordKey m) (classifierName m) \<noteq> None)"
proof (induction ms arbitrary: out)
  case (Cons m ms)
  from Cons.prems obtain a where a: "map_of (resp_answers response) (questionId m) = Some a"
      "stage_mappings response ms (stage response m a out) = Inr out'"
    by (auto split: option.splits)
  note IH = Cons.IH [OF a(2)]
  have "answer_of out k n = Some b \<or> from_mappings response (m # ms) k n b"
    if "answer_of out' k n = Some b" for k n b
    using IH [THEN conjunct1, rule_format, OF that] a(1)
    by (auto simp: answer_of_stage from_mappings_def split: if_splits)
  moreover have "answer_of out' k n \<noteq> None" if "answer_of (stage response m a out) k n \<noteq> None" for k n
    using IH [THEN conjunct2, THEN conjunct1] that by blast
  ultimately show ?case using IH [THEN conjunct2, THEN conjunct2] by (simp add: answer_of_stage)
qed simp

definition answered_by :: "jev_env \<Rightarrow> jev_config \<Rightarrow> jev_batch \<Rightarrow> string \<Rightarrow> string \<Rightarrow> jev_answer \<Rightarrow> bool" where
  "answered_by env config b k n a \<longleftrightarrow> (\<exists>response. \<exists>m \<in> set (mappings b). \<exists>q.
     askJev env config (batch_state b) (questions b) = Inr response \<and> recordKey m = k \<and> classifierName m = n \<and>
     map_of (resp_answers response) (questionId m) = Some a \<and> map_of (questions b) (questionId m) = Some q \<and>
     validateClassifierAnswer q a)"

lemma check_mappings_ok:
  "check_mappings b response ms = Inr r \<Longrightarrow> r = response \<and>
     (\<forall>m \<in> set ms. \<exists>a q. map_of (resp_answers response) (questionId m) = Some a \<and>
        map_of (questions b) (questionId m) = Some q \<and> validateClassifierAnswer q a)"
  by (induction ms) (auto split: option.splits if_splits)

lemma validateJevBatchResponse_ok:
  "validateJevBatchResponse b response = Inr r \<Longrightarrow> r = response \<and>
     (\<forall>m \<in> set (mappings b). \<exists>a q. map_of (resp_answers response) (questionId m) = Some a \<and>
        map_of (questions b) (questionId m) = Some q \<and> validateClassifierAnswer q a)"
  unfolding validateJevBatchResponse_def by (auto dest: check_mappings_ok split: if_splits)

lemma run_batches_answers:
  "run_batches env config bs out = Inr out' \<Longrightarrow>
     (\<forall>k n a. answer_of out' k n = Some a \<longrightarrow>
        answer_of out k n = Some a \<or> (\<exists>b \<in> set bs. answered_by env config b k n a)) \<and>
     (\<forall>k n. answer_of out k n \<noteq> None \<longrightarrow> answer_of out' k n \<noteq> None) \<and>
     (\<forall>b \<in> set bs. \<forall>m \<in> set (mappings b). answer_of out' (recordKey m) (classifierName m) \<noteq> None)"
proof (induction bs arbitrary: out)
  case (Cons b bs)
  from Cons.prems obtain response out1 where r:
      "askJev env config (batch_state b) (questions b) = Inr response"
      "validateJevBatchResponse b response = Inr response"
      "stage_mappings response (mappings b) (out\<lparr>inputTokens := inputTokens out + input_tokens response,
         outputTokens := outputTokens out + output_tokens response\<rparr>) = Inr out1"
      "run_batches env config bs out1 = Inr out'"
    by (auto simp: res_bind_Inr dest: validateJevBatchResponse_ok)
  note IH = Cons.IH [OF r(4)]
  note st = stage_mappings_answers [OF r(3)]
  have same: "answer_of (out\<lparr>inputTokens := i, outputTokens := j\<rparr>) = answer_of out" for i j
    by (simp add: answer_of_def fun_eq_iff)
  have by_b: "answered_by env config b k n a" if "from_mappings response (mappings b) k n a" for k n a
    using that validateJevBatchResponse_ok [OF r(2)] r(1)
    unfolding from_mappings_def answered_by_def by fastforce
  have "answer_of out k n = Some a \<or> (\<exists>c \<in> set (b # bs). answered_by env config c k n a)"
    if a: "answer_of out' k n = Some a" for k n a
    using IH [THEN conjunct1, rule_format, OF a] st [THEN conjunct1, rule_format, of k n a] by_b [of k n a]
    by (auto simp: same)
  moreover have "answer_of out' k n \<noteq> None" if "answer_of out k n \<noteq> None" for k n
    using IH [THEN conjunct2, THEN conjunct1, rule_format, of k n]
      st [THEN conjunct2, THEN conjunct1, rule_format, of k n] that by (simp add: same)
  moreover have "answer_of out' (recordKey m) (classifierName m) \<noteq> None" if "m \<in> set (mappings b)" for m
    using IH [THEN conjunct2, THEN conjunct1, rule_format, of "recordKey m" "classifierName m"]
      st [THEN conjunct2, THEN conjunct2] that by blast
  ultimately show ?case using IH [THEN conjunct2, THEN conjunct2] by simp
qed simp

lemma plan_answered_by:
  assumes plan: "buildJevBatchPlan sharedState records cs limits = Inr plan"
    and b: "b \<in> set (batches plan)" and by_b: "answered_by env config b k n a"
  shows "\<exists>i < length (batch_records b). \<exists>q qid response. k = rec_key (batch_records b ! i) \<and>
      (n, q) \<in> set (classifiers cs) \<and> batch_records b ! i \<in> set records \<and>
      map_of (questions b) qid = Some (judged k i q) \<and>
      askJev env config (batch_state b) (questions b) = Inr response \<and>
      map_of (resp_answers response) qid = Some a \<and> validateClassifierAnswer (judged k i q) a"
proof -
  from buildJevBatchPlan_cases [where sharedState = sharedState and records = records and cs = cs and limits = limits]
  have p: "concat (map batch_records (batches plan)) = records"
    "greedy (materializeBatch sharedState cs (jev_model limits)) (batch_fits limits) 0 records (batches plan)"
    by (simp_all add: plan)
  from greedy_batches [OF p(2) b] obtain s where s:
      "b = materializeBatch sharedState cs (jev_model limits) s (batch_records b)" by blast
  from by_b obtain response m q where m: "askJev env config (batch_state b) (questions b) = Inr response"
      "m \<in> set (mappings b)" "recordKey m = k" "classifierName m = n"
      "map_of (resp_answers response) (questionId m) = Some a"
      "map_of (questions b) (questionId m) = Some q" "validateClassifierAnswer q a"
    unfolding answered_by_def by blast
  from m(2) obtain q' where q': "(m, q') \<in> set (asked s (classifiers cs) (batch_records b))"
    by (subst (asm) s) (auto simp: mappings_materialize)
  then have "map_of (questions b) (questionId m) = Some q'"
    by (subst s) (rule question_of_mapping)
  with m(6) have qq: "q' = q" by simp
  from q' [unfolded in_asked qq] obtain l c where l: "l < length (batch_records b)" "c < length (classifiers cs)"
      "m = \<lparr>questionId = question_id (s + l) c, recordKey = rec_key (batch_records b ! l),
         classifierName = fst (classifiers cs ! c)\<rparr>"
      "q = judged (rec_key (batch_records b ! l)) l (snd (classifiers cs ! c))"
    by blast
  have "(n, snd (classifiers cs ! c)) \<in> set (classifiers cs)"
    using l(2,3) m(4) nth_mem [of c "classifiers cs"] by auto
  moreover have "batch_records b ! l \<in> set records"
    using nth_mem [OF l(1)] b unfolding p(1) [symmetric] by auto
  moreover have "k = rec_key (batch_records b ! l)" using l(3) m(3) by simp
  ultimately show ?thesis using l m by metis
qed

lemma plan_mapping:
  assumes plan: "buildJevBatchPlan sharedState records cs limits = Inr plan"
    and r: "r \<in> set records" and n: "(n, q) \<in> set (classifiers cs)"
  shows "\<exists>b \<in> set (batches plan). \<exists>m \<in> set (mappings b). recordKey m = rec_key r \<and> classifierName m = n"
proof -
  from buildJevBatchPlan_cases [where sharedState = sharedState and records = records and cs = cs and limits = limits]
  have p: "concat (map batch_records (batches plan)) = records"
    "greedy (materializeBatch sharedState cs (jev_model limits)) (batch_fits limits) 0 records (batches plan)"
    by (simp_all add: plan)
  from r [folded p(1)] obtain b where b: "b \<in> set (batches plan)" "r \<in> set (batch_records b)" by auto
  from greedy_batches [OF p(2) b(1)] obtain s where s:
      "b = materializeBatch sharedState cs (jev_model limits) s (batch_records b)" by blast
  from b(2) obtain l where l: "l < length (batch_records b)" "batch_records b ! l = r"
    by (auto simp: in_set_conv_nth)
  from n obtain c where c: "c < length (classifiers cs)" "classifiers cs ! c = (n, q)"
    by (auto simp: in_set_conv_nth)
  let ?m = "\<lparr>questionId = question_id (s + l) c, recordKey = rec_key r, classifierName = n\<rparr>"
  have "(?m, judged (rec_key r) l q) \<in> set (asked s (classifiers cs) (batch_records b))"
    unfolding in_asked
    by (rule exI [of _ l], rule conjI [OF l(1)], rule exI [of _ c]) (simp add: l c)
  then have "?m \<in> set (mappings b)" by (subst s) (force simp: mappings_materialize)
  with b(1) show ?thesis by force
qed

lemma answers_belong_to_their_record':
  assumes plan: "buildJevBatchPlan sharedState records cs limits = Inr plan"
    and run: "executeJevBatchPlan env config plan = Inr out"
  shows "(\<forall>r \<in> set records. \<forall>n \<in> fst ` set (classifiers cs). answer_of out (rec_key r) n \<noteq> None) \<and>
     (\<forall>k n a. answer_of out k n = Some a \<longrightarrow> (\<exists>b \<in> set (batches plan). \<exists>i < length (batch_records b).
        \<exists>q qid response. k = rec_key (batch_records b ! i) \<and> (n, q) \<in> set (classifiers cs) \<and>
          batch_records b ! i \<in> set records \<and> map_of (questions b) qid = Some (judged k i q) \<and>
          askJev env config (batch_state b) (questions b) = Inr response \<and>
          map_of (resp_answers response) qid = Some a \<and> validateClassifierAnswer (judged k i q) a))"
proof (intro conjI ballI allI impI)
  note run' = run_batches_answers [OF run [unfolded executeJevBatchPlan_def]]
  fix r n assume r: "r \<in> set records" and "n \<in> fst ` set (classifiers cs)"
  then obtain q where "(n, q) \<in> set (classifiers cs)" by auto
  from plan_mapping [OF plan r this] obtain b m where "b \<in> set (batches plan)" "m \<in> set (mappings b)"
    "recordKey m = rec_key r" "classifierName m = n" by blast
  with run' [THEN conjunct2, THEN conjunct2] show "answer_of out (rec_key r) n \<noteq> None" by force
next
  note run' = run_batches_answers [OF run [unfolded executeJevBatchPlan_def]]
  fix k n a assume a: "answer_of out k n = Some a"
  have "answer_of \<lparr>answers = [], servedModels = [], inputTokens = 0, outputTokens = 0\<rparr> k n = None"
    by (simp add: answer_of_def)
  with run' [THEN conjunct1, rule_format, OF a] obtain b where
      "b \<in> set (batches plan)" "answered_by env config b k n a" by auto
  with plan_answered_by [OF plan this] show "\<exists>b \<in> set (batches plan). \<exists>i < length (batch_records b).
        \<exists>q qid response. k = rec_key (batch_records b ! i) \<and> (n, q) \<in> set (classifiers cs) \<and>
          batch_records b ! i \<in> set records \<and> map_of (questions b) qid = Some (judged k i q) \<and>
          askJev env config (batch_state b) (questions b) = Inr response \<and>
          map_of (resp_answers response) qid = Some a \<and> validateClassifierAnswer (judged k i q) a"
    by blast
qed

text \<open>C25: no answer is attributed to the wrong record. When a plan of the planner executes, every
  record has an answer for every classifier, and every answer stored for a record and a
  classifier is the endpoint's valid answer to the question that asked exactly that classifier of
  that record, by its key and its position in the batch.\<close>

theorem answers_belong_to_their_record:
  assumes "buildJevBatchPlan sharedState records cs limits = Inr plan"
    and "executeJevBatchPlan env config plan = Inr out"
  shows "(\<forall>r \<in> set records. \<forall>n \<in> fst ` set (classifiers cs). answer_of out (rec_key r) n \<noteq> None) \<and>
     (\<forall>k n a. answer_of out k n = Some a \<longrightarrow> (\<exists>b \<in> set (batches plan). \<exists>i < length (batch_records b).
        \<exists>q qid response. k = rec_key (batch_records b ! i) \<and> (n, q) \<in> set (classifiers cs) \<and>
          batch_records b ! i \<in> set records \<and> map_of (questions b) qid = Some (judged k i q) \<and>
          askJev env config (batch_state b) (questions b) = Inr response \<and>
          map_of (resp_answers response) qid = Some a \<and> validateClassifierAnswer (judged k i q) a))"
  using assms by (rule answers_belong_to_their_record')

subsection \<open>Reranking\<close>

definition rerank_le :: "'c \<times> rat \<times> nat \<Rightarrow> 'c \<times> rat \<times> nat \<Rightarrow> bool" where
  "rerank_le x y = (case (x, y) of ((c, p, i), (d, q, j)) \<Rightarrow> p > q \<or> (p = q \<and> i \<le> j))"

interpretation rerank: sort_order rerank_le
  by unfold_locales (auto simp: rerank_le_def)

lemma rerank_le_fun: "(\<lambda>(c, p, i) (d, q, j). p > q \<or> (p = q \<and> i \<le> j)) = rerank_le"
  by (auto simp: rerank_le_def fun_eq_iff)

lemma score_candidates_ok:
  "score_candidates out cs = Inr ss \<Longrightarrow> map fst ss = cs \<and>
     (\<forall>(c, p) \<in> set ss. answer_of out (fst c) ''relevance'' = Some (NoulA p))"
  by (induction cs arbitrary: ss) (fastforce simp: res_bind_Inr split: option.splits jev_answer.splits)+

definition relevance_plan :: "jev_config \<Rightarrow> string \<Rightarrow> (string \<times> string) list \<Rightarrow> jev_error + jev_plan" where
  "relevance_plan config query candidates = buildJevBatchPlan [(''query'', JStr query)]
     (map (\<lambda>(i, c). \<lparr>rec_key = i, rec_content = c, rec_fields = None\<rparr>) candidates)
     RELEVANCE_CLASSIFIER_SET config"

text \<open>Reranking never loses or invents a candidate. Whatever the endpoint does, the result
  is a permutation of the candidates; when a failure is reported the order is the given one, and
  otherwise the candidates are ordered by the relevance the endpoint gave each of them, highest
  first.\<close>

theorem rerank_is_a_permutation:
  "case rerankWithJev env config query candidates of (out, failure) \<Rightarrow>
     mset out = mset candidates \<and> (failure \<noteq> None \<longrightarrow> out = candidates) \<and>
     (failure = None \<longrightarrow> \<not> enabled config \<or> length candidates < 2 \<or>
       (\<exists>plan result relevance. relevance_plan config query candidates = Inr plan \<and>
          executeJevBatchPlan env config plan = Inr result \<and>
          (\<forall>c \<in> set candidates. answer_of result (fst c) ''relevance'' = Some (NoulA (relevance c))) \<and>
          sorted_wrt (\<lambda>c d. relevance d \<le> relevance c) out))"
proof (cases "\<not> enabled config \<or> length candidates < 2")
  case True
  then show ?thesis by (simp add: rerankWithJev_def)
next
  case False
  let ?run = "res_bind (relevance_plan config query candidates)
      (\<lambda>plan. res_bind (executeJevBatchPlan env config plan) (\<lambda>result. score_candidates result candidates))"
  show ?thesis
  proof (cases ?run)
    case (Inl e)
    with False show ?thesis by (auto simp: rerankWithJev_def relevance_plan_def)
  next
    case (Inr scored)
    then obtain plan result where p: "relevance_plan config query candidates = Inr plan"
        "executeJevBatchPlan env config plan = Inr result" "score_candidates result candidates = Inr scored"
      by (auto simp: res_bind_Inr)
    let ?ts = "map (\<lambda>(i, c, p). (c, p, i)) (enumerate 0 scored)"
    let ?sorted = "sort_by rerank_le ?ts"
    have out: "rerankWithJev env config query candidates = (map (\<lambda>(c, p, i). c) ?sorted, None)"
      using False Inr by (simp add: rerankWithJev_def relevance_plan_def rerank_le_fun)
    note sc = score_candidates_ok [OF p(3)]
    have "mset (map (\<lambda>(c, p, i). c) ?sorted) = mset (map (\<lambda>(c, p, i). c) ?ts)" by (simp only: mset_map mset_sort_by)
    also have "map (\<lambda>(c, p, i). c) ?ts = map fst scored"
      by (rule nth_equalityI) (auto simp: nth_enumerate_eq split: prod.split)
    also have "\<dots> = candidates" using sc by simp
    finally have perm: "mset (map (\<lambda>(c, p, i). c) ?sorted) = mset candidates" .
    define relevance where
      "relevance c = (case answer_of result (fst c) ''relevance'' of Some (NoulA p) \<Rightarrow> p | _ \<Rightarrow> 0)" for c :: "string \<times> string"
    have rel: "answer_of result (fst c) ''relevance'' = Some (NoulA p) \<and> relevance c = p"
      if "(c, p) \<in> set scored" for c p
      using sc that by (auto simp: relevance_def)
    have ts: "(c, p) \<in> set scored" if "(c, p, i) \<in> set ?sorted" for c p i
      using that nth_mem by (fastforce simp: in_set_enumerate_eq)
    have "sorted_wrt (\<lambda>x y. relevance (fst y) \<le> relevance (fst x)) ?sorted"
    proof (rule sorted_wrt_mono_rel [OF _ rerank.sorted_sort_by])
      fix x y assume xy: "x \<in> set ?sorted" "y \<in> set ?sorted" "rerank_le x y"
      obtain c p i d q j where "x = (c, p, i)" "y = (d, q, j)" by (cases x; cases y)
      with xy rel [OF ts] show "relevance (fst y) \<le> relevance (fst x)" by (auto simp: rerank_le_def)
    qed
    then have "sorted_wrt (\<lambda>c d. relevance d \<le> relevance c) (map (\<lambda>(c, p, i). c) ?sorted)"
      by (simp add: sorted_wrt_map case_prod_beta)
    moreover have "\<forall>c \<in> set candidates. answer_of result (fst c) ''relevance'' = Some (NoulA (relevance c))"
      using sc rel by (metis (no_types, lifting) imageE list.set_map prod.collapse)
    ultimately show ?thesis using out perm p by auto
  qed
qed

subsection \<open>Concrete runs\<close>

definition sample_config :: "nat \<Rightarrow> jev_config" where
  "sample_config n = \<lparr>enabled = True, apiKey = Some ''k'', baseUrl = ''https://jev'', jev_model = ''m'',
     maxRequestBytes = n, maxStateQuestionBytes = 1000\<rparr>"

definition sample_set :: classifier_set where
  "sample_set = \<lparr>set_name = ''s'', set_version = ''1'', classifiers = [(''n'', NoulQ (Plain ''q'') None)]\<rparr>"

definition sample_record :: "string \<Rightarrow> classifier_record" where
  "sample_record k = \<lparr>rec_key = k, rec_content = ''c'', rec_fields = None\<rparr>"

text \<open>An endpoint that answers the questions named \<open>r0_c0\<close> and \<open>r1_c0\<close>.\<close>

definition sample_env :: jev_env where
  "sample_env = \<lparr>url_protocol = (\<lambda>u. Inr ''https:''), jev_fetch = (\<lambda>u body. Fetched 200 (Inr body)),
     parse_response = (\<lambda>j. Inr \<lparr>resp_model = ''m'',
       resp_answers = [(''r0_c0'', NoulA (1 / 4)), (''r1_c0'', NoulA (3 / 4))],
       input_tokens = 1, output_tokens = 1\<rparr>)\<rparr>"

lemma batch_plan_is_greedy_witness:
  "(case buildJevBatchPlan [] (map sample_record [''a'', ''b'', ''c'']) sample_set (sample_config 345) of
      Inr plan \<Rightarrow> map (map rec_key \<circ> batch_records) (batches plan) = [[''a'', ''b''], [''c'']] | Inl e \<Rightarrow> False) \<and>
   (case buildJevBatchPlan [] (map sample_record [''a'', ''b'', ''c'']) sample_set (sample_config 345) of
      Inr plan \<Rightarrow> \<forall>b \<in> set (batches plan). batch_fits (sample_config 345) b | Inl e \<Rightarrow> True)"
proof
  show "case buildJevBatchPlan [] (map sample_record [''a'', ''b'', ''c'']) sample_set (sample_config 345) of
      Inr plan \<Rightarrow> map (map rec_key \<circ> batch_records) (batches plan) = [[''a'', ''b''], [''c'']] | Inl e \<Rightarrow> False"
    by code_simp
  show "case buildJevBatchPlan [] (map sample_record [''a'', ''b'', ''c'']) sample_set (sample_config 345) of
      Inr plan \<Rightarrow> \<forall>b \<in> set (batches plan). batch_fits (sample_config 345) b | Inl e \<Rightarrow> True"
    using batch_plan_is_greedy [where sharedState = "[]" and records = "map sample_record [''a'', ''b'', ''c'']"
      and cs = sample_set and limits = "sample_config 345"]
    by (auto split: sum.splits)
qed

lemma answers_belong_to_their_record_witness:
  "\<exists>plan out. buildJevBatchPlan [] (map sample_record [''a'', ''b'']) sample_set (sample_config 1000) = Inr plan \<and>
     executeJevBatchPlan sample_env (sample_config 1000) plan = Inr out \<and>
     answer_of out ''a'' ''n'' = Some (NoulA (1 / 4)) \<and> answer_of out ''b'' ''n'' \<noteq> None"
proof -
  let ?p = "buildJevBatchPlan [] (map sample_record [''a'', ''b'']) sample_set (sample_config 1000)"
  have "case ?p of Inr plan \<Rightarrow> (case executeJevBatchPlan sample_env (sample_config 1000) plan of
      Inr out \<Rightarrow> answer_of out ''a'' ''n'' = Some (NoulA (1 / 4)) | Inl e \<Rightarrow> False) | Inl e \<Rightarrow> False"
    by code_simp
  then obtain plan out where p: "?p = Inr plan" "executeJevBatchPlan sample_env (sample_config 1000) plan = Inr out"
      "answer_of out ''a'' ''n'' = Some (NoulA (1 / 4))"
    by (auto split: sum.splits)
  moreover have "answer_of out ''b'' ''n'' \<noteq> None"
    using answers_belong_to_their_record [OF p(1,2)] by (simp add: sample_record_def sample_set_def)
  ultimately show ?thesis by blast
qed

lemma rerank_is_a_permutation_witness:
  "rerankWithJev sample_env (sample_config 1000) ''q'' [(''a'', ''x''), (''b'', ''y'')] =
     ([(''b'', ''y''), (''a'', ''x'')], None)"
proof -
  have "mset (fst (rerankWithJev sample_env (sample_config 1000) ''q'' [(''a'', ''x''), (''b'', ''y'')])) =
      mset [(''a'', ''x''), (''b'', ''y'')]"
    using rerank_is_a_permutation [where env = sample_env and config = "sample_config 1000" and query = "''q''"
      and candidates = "[(''a'', ''x''), (''b'', ''y'')]"]
    by (auto split: prod.splits)
  moreover have "rerankWithJev sample_env (sample_config 1000) ''q'' [(''a'', ''x''), (''b'', ''y'')] =
     ([(''b'', ''y''), (''a'', ''x'')], None)" by code_simp
  ultimately show ?thesis by simp
qed

end
