(* ===== verification/DreamRoute.thy ===== *)
theory DreamRoute
  imports JevBatches
begin

text \<open>
  The DREAM route step: the committed matrix of destinations, the two question sets built from
  it, and the two deciders that turn the classifier's answers into a decision
  (\<open>server/domain/dream-route/\<close>: \<open>types.ts\<close>, \<open>matrix.ts\<close>, \<open>authority.ts\<close>,
  \<open>questions.ts\<close>, \<open>questions-v2.ts\<close>, \<open>decide.ts\<close>, \<open>decide-v2.ts\<close>,
  \<open>apply-constants.ts\<close> and \<open>wouldApply\<close> of \<open>run-core.ts\<close>).

  Probabilities are exact rationals; \<open>shown\<close> is the rendering of a number in a reason, an
  argument of the deciders. A matrix file is its decoded text; its fingerprint is an argument of
  \<open>loadMatrix\<close>.
\<close>

subsection \<open>The contract\<close>

datatype destination = Rule | Decision | Fact | Correction | Steering

fun dest_name :: "destination \<Rightarrow> string" where
  "dest_name Rule = ''rule''"
| "dest_name Decision = ''decision''"
| "dest_name Fact = ''fact''"
| "dest_name Correction = ''correction''"
| "dest_name Steering = ''steering''"

definition DESTINATIONS :: "destination list" where
  "DESTINATIONS = [Rule, Decision, Fact, Correction, Steering]"

record matrix_row =
  row_name :: destination
  row_line :: string
  row_commits :: bool

record route_matrix =
  matrix_rows :: "matrix_row list"
  fingerprint :: string

datatype authority_tier = Decided | Observed

datatype candidate_type = Is_decision | Is_correction | Is_fact | Is_preference

datatype unit_kind = Exchange | Fragment

datatype anchor_kind = Typed | Askuserquestion | Orphan

record route_candidate =
  cand_id :: string
  cand_namespace :: string
  candidateType :: candidate_type
  cand_content :: string
  operatorText :: "string option"
  unitKind :: unit_kind
  anchorKind :: "anchor_kind option"

datatype agreement_level = High | Low | NoAgreement

record route_thresholds =
  pickAt :: rat
  yesAt :: rat
  restatedAt :: rat
  droveDecisionAt :: rat
  measuredIn :: string

datatype raw_value = RawNum rat | RawText string

record route_decision =
  decided_candidate :: string
  decided_for :: "destination option"
  agreement :: agreement_level
  authorityTier :: authority_tier
  restates :: bool
  droveDecision :: bool
  reasons :: "string list"
  raw_answers :: "(string, raw_value) jsmap"

lemma dest_name_inj [simp]: "dest_name a = dest_name b \<longleftrightarrow> a = b"
  by (cases a; cases b) auto

lemma DESTINATIONS_all [simp]: "d \<in> set DESTINATIONS"
  by (cases d) (auto simp: DESTINATIONS_def)

definition authorityTierOf :: "route_candidate \<Rightarrow> authority_tier" where
  "authorityTierOf c =
     (let typedByOperator = (anchorKind c = Some Typed \<or> anchorKind c = Some Askuserquestion)
      in if unitKind c = Exchange \<and> typedByOperator then Decided else Observed)"

subsection \<open>Loading the matrix\<close>

text \<open>\<open>String.prototype.split\<close> with a one-character separator.\<close>

fun split_on :: "char \<Rightarrow> string \<Rightarrow> string list" where
  "split_on sep [] = [[]]"
| "split_on sep (c # cs) =
     (if c = sep then [] # split_on sep cs
      else case split_on sep cs of p # ps \<Rightarrow> (c # p) # ps | [] \<Rightarrow> [[c]])"

definition MIN_LINE_LENGTH :: nat where "MIN_LINE_LENGTH = 10"
definition MAX_LINE_LENGTH :: nat where "MAX_LINE_LENGTH = 300"

definition isDestination :: "string \<Rightarrow> destination option" where
  "isDestination name = find (\<lambda>d. dest_name d = name) DESTINATIONS"

definition at_line :: "string \<Rightarrow> nat \<Rightarrow> string" where
  "at_line path lineNumber = path @ '':'' @ show_nat lineNumber @ '': ''"

definition parseRow :: "string \<Rightarrow> nat \<Rightarrow> string \<Rightarrow> matrix_row result" where
  "parseRow path lineNumber txt =
     (case split_on (CHR 0x09) txt of
        [name, line, commits] \<Rightarrow>
          (case isDestination name of
             None \<Rightarrow> Inl (at_line path lineNumber @ ''unknown destination '' @ quote name)
           | Some d \<Rightarrow>
               if length line < MIN_LINE_LENGTH \<or> length line > MAX_LINE_LENGTH
               then Inl (at_line path lineNumber @ ''description must be '' @ show_nat MIN_LINE_LENGTH @ '' to ''
                      @ show_nat MAX_LINE_LENGTH @ '' characters, got '' @ show_nat (length line))
               else if commits \<noteq> ''true'' \<and> commits \<noteq> ''false''
               then Inl (at_line path lineNumber @ ''commits must be '' @ quote ''true'' @ '' or ''
                      @ quote ''false'' @ '', got '' @ quote commits)
               else Inr \<lparr>row_name = d, row_line = line, row_commits = (commits = ''true'')\<rparr>)
      | cells \<Rightarrow> Inl (at_line path lineNumber @ ''expected exactly three tab-separated cells, got ''
           @ show_nat (length cells)))"

fun parse_lines :: "string \<Rightarrow> nat \<Rightarrow> string list \<Rightarrow> matrix_row list result" where
  "parse_lines path index [] = Inr []"
| "parse_lines path index (txt # rest) =
     (let trimmed = trim txt
      in if trimmed = '''' \<or> starts_with ''#'' trimmed then parse_lines path (Suc index) rest
         else res_bind (parseRow path (index + 1) txt)
           (\<lambda>r. res_bind (parse_lines path (Suc index) rest) (\<lambda>rs. Inr (r # rs))))"

fun check_destinations :: "string \<Rightarrow> matrix_row list \<Rightarrow> destination list \<Rightarrow> unit result" where
  "check_destinations path rows [] = Inr ()"
| "check_destinations path rows (d # ds) =
     (let seen = length (filter (\<lambda>r. row_name r = d) rows)
      in if seen = 0 then Inl (path @ '': destination '' @ dest_name d @ '' is missing'')
         else if seen > 1
         then Inl (path @ '': destination '' @ dest_name d @ '' appears '' @ show_nat seen @ '' times'')
         else check_destinations path rows ds)"

definition loadMatrix :: "(string \<Rightarrow> string) \<Rightarrow> string \<Rightarrow> string \<Rightarrow> route_matrix result" where
  "loadMatrix sha256 path txt =
     res_bind (parse_lines path 0 (split_on (CHR 0x0A) txt)) (\<lambda>rows.
       res_bind (check_destinations path rows DESTINATIONS) (\<lambda>_.
         Inr \<lparr>matrix_rows = rows, fingerprint = slice 0 12 (sha256 txt)\<rparr>))"

subsection \<open>What the deciders share\<close>

definition DEST_ID :: string where "DEST_ID = ''dest''"
definition RESTATES_ID :: string where "RESTATES_ID = ''restates''"
definition DROVE_DECISION_ID :: string where "DROVE_DECISION_ID = ''drove_decision''"

definition ynId :: "destination \<Rightarrow> string" where "ynId d = ''yn_'' @ dest_name d"

definition noulAnswer :: "(string \<times> jev_answer) list \<Rightarrow> string \<Rightarrow> rat option" where
  "noulAnswer as key = (case map_of as key of Some (NoulA p) \<Rightarrow> Some p | _ \<Rightarrow> None)"

definition matrix_destination :: "route_matrix \<Rightarrow> string \<Rightarrow> destination option" where
  "matrix_destination m name =
     map_option row_name (find (\<lambda>r. dest_name (row_name r) = name) (matrix_rows m))"

definition win_probability :: "string \<Rightarrow> (string \<times> rat) list \<Rightarrow> rat" where
  "win_probability choice probabilities = (case map_of probabilities choice of Some p \<Rightarrow> p | None \<Rightarrow> 0)"

definition noSignalDecision ::
  "route_candidate \<Rightarrow> (string, raw_value) jsmap \<Rightarrow> string list \<Rightarrow> route_decision" where
  "noSignalDecision c raw missing =
     \<lparr>decided_candidate = cand_id c, decided_for = None, agreement = NoAgreement,
      authorityTier = authorityTierOf c, restates = False, droveDecision = False,
      reasons = [''no signal: '' @ join '', '' missing @ '' missing or of the wrong type.''],
      raw_answers = raw\<rparr>"

subsection \<open>The first decider: agreement of three picks\<close>

definition DEFAULT_THRESHOLDS :: route_thresholds where
  "DEFAULT_THRESHOLDS = \<lparr>pickAt = 5 / 10, yesAt = 5 / 10, restatedAt = 7 / 10, droveDecisionAt = 7 / 10,
     measuredIn = ''''\<rparr>"

fun DISTILLER_DESTINATION :: "candidate_type \<Rightarrow> destination" where
  "DISTILLER_DESTINATION Is_decision = Decision"
| "DISTILLER_DESTINATION Is_correction = Correction"
| "DISTILLER_DESTINATION Is_fact = Fact"
| "DISTILLER_DESTINATION Is_preference = Rule"

fun type_name :: "candidate_type \<Rightarrow> string" where
  "type_name Is_decision = ''decision''"
| "type_name Is_correction = ''correction''"
| "type_name Is_fact = ''fact''"
| "type_name Is_preference = ''preference''"

record pick =
  pick_for :: "destination option"
  pick_reason :: string

definition choicePick ::
  "(rat \<Rightarrow> string) \<Rightarrow> (string \<times> jev_answer) list \<Rightarrow> route_matrix \<Rightarrow> route_thresholds \<Rightarrow> pick option" where
  "choicePick shown as m th =
     (case map_of as DEST_ID of
        Some (ChoiceA choice probabilities confidence) \<Rightarrow>
          (case matrix_destination m choice of
             None \<Rightarrow> None
           | Some d \<Rightarrow>
               let probability = win_probability choice probabilities
               in if probability < pickAt th
                  then Some \<lparr>pick_for = None, pick_reason = ''the choice question picked '' @ choice @ '' at ''
                         @ shown probability @ '', below the '' @ shown (pickAt th) @ '' cutoff, so it did not vote.''\<rparr>
                  else Some \<lparr>pick_for = Some d, pick_reason = ''the choice question picked '' @ choice @ '' at ''
                         @ shown probability @ '' and voted for it.''\<rparr>)
      | _ \<Rightarrow> None)"

fun yes_scores :: "(string \<times> jev_answer) list \<Rightarrow> matrix_row list \<Rightarrow> (destination \<times> rat) list option" where
  "yes_scores as [] = Some []"
| "yes_scores as (r # rs) =
     (case noulAnswer as (ynId (row_name r)) of
        None \<Rightarrow> None
      | Some p \<Rightarrow> map_option (\<lambda>scored. (row_name r, p) # scored) (yes_scores as rs))"

text \<open>\<open>Math.max\<close> over the scores; over none it is minus infinity, which no score equals.\<close>

fun best_score :: "rat list \<Rightarrow> rat option" where
  "best_score [] = None"
| "best_score (p # ps) = (case best_score ps of None \<Rightarrow> Some p | Some q \<Rightarrow> Some (max p q))"

definition yesNoPick ::
  "(rat \<Rightarrow> string) \<Rightarrow> (string \<times> jev_answer) list \<Rightarrow> route_matrix \<Rightarrow> route_thresholds \<Rightarrow> pick option" where
  "yesNoPick shown as m th =
     (case yes_scores as (matrix_rows m) of
        None \<Rightarrow> None
      | Some scored \<Rightarrow>
          let best = best_score (map snd scored);
              leaders = filter (\<lambda>(name, probability). Some probability = best) scored
          in case leaders of
               [(name, probability)] \<Rightarrow>
                 if probability < yesAt th
                 then Some \<lparr>pick_for = None, pick_reason = ''the strongest yes/no was '' @ dest_name name @ '' at ''
                        @ shown probability @ '', below the '' @ shown (yesAt th) @ '' cutoff, so it did not vote.''\<rparr>
                 else Some \<lparr>pick_for = Some name, pick_reason = ''the strongest yes/no was '' @ dest_name name
                        @ '' at '' @ shown probability @ '' and voted for it.''\<rparr>
             | _ \<Rightarrow> Some \<lparr>pick_for = None, pick_reason = ''the yes/no questions tied at ''
                      @ (case best of None \<Rightarrow> ''-Infinity'' | Some b \<Rightarrow> shown b) @ '' between ''
                      @ join '', '' (map (\<lambda>(name, p). dest_name name) leaders) @ '', so they did not vote.''\<rparr>)"

definition distillerPick :: "route_candidate \<Rightarrow> pick" where
  "distillerPick c =
     (let d = DISTILLER_DESTINATION (candidateType c)
      in \<lparr>pick_for = Some d, pick_reason = ''the distiller called this a '' @ type_name (candidateType c)
            @ '', which votes for '' @ dest_name d @ ''.''\<rparr>)"

definition votes_of :: "pick list \<Rightarrow> destination list" where
  "votes_of picks = concat (map (\<lambda>p. case pick_for p of None \<Rightarrow> [] | Some d \<Rightarrow> [d]) picks)"

text \<open>The values of a \<open>Set\<close>: first occurrences, in order.\<close>

fun js_set :: "'a list \<Rightarrow> 'a list" where
  "js_set [] = []"
| "js_set (x # xs) = x # js_set (filter (\<lambda>y. y \<noteq> x) xs)"

fun count_votes :: "destination list \<Rightarrow> destination list \<Rightarrow> agreement_level \<times> destination option" where
  "count_votes votes [] = (NoAgreement, None)"
| "count_votes votes (d # ds) =
     (let n = length (filter (\<lambda>v. v = d) votes)
      in if n = 3 then (High, Some d) else if n = 2 then (Low, Some d) else count_votes votes ds)"

definition agreementOf :: "pick list \<Rightarrow> agreement_level \<times> destination option" where
  "agreementOf picks = (let votes = votes_of picks in count_votes votes (js_set votes))"

definition flattenAnswers :: "(string \<times> jev_answer) list \<Rightarrow> (string, raw_value) jsmap" where
  "flattenAnswers as = foldl (\<lambda>raw (key, answer).
     case answer of
       NoulA p \<Rightarrow> AList.update key (RawNum p) raw
     | ChoiceA choice probabilities confidence \<Rightarrow>
         AList.update (key @ ''.p'') (RawNum (win_probability choice probabilities))
           (AList.update key (RawText choice) raw)
     | ScoreA s l p c \<Rightarrow> raw) [] as"

definition missingIds :: "(string \<times> bool) list \<Rightarrow> string list" where
  "missingIds present = map fst (filter (\<lambda>(key, there). \<not> there) present)"

definition outcome_reason :: "agreement_level \<Rightarrow> destination option \<Rightarrow> string" where
  "outcome_reason level d =
     (let name = (case d of Some x \<Rightarrow> dest_name x | None \<Rightarrow> '''')
      in case level of
           High \<Rightarrow> ''all three picks named '' @ name @ '', so agreement is high.''
         | Low \<Rightarrow> ''two picks named '' @ name @ '', so agreement is low.''
         | NoAgreement \<Rightarrow> ''no two picks named the same destination, so nothing is committed.'')"

definition decideRoute ::
  "(rat \<Rightarrow> string) \<Rightarrow> route_candidate \<Rightarrow> (string \<times> jev_answer) list \<Rightarrow> route_matrix \<Rightarrow> route_thresholds \<Rightarrow>
     route_decision" where
  "decideRoute shown c as m th =
     (let raw = flattenAnswers as;
          choice = choicePick shown as m th;
          yesNo = yesNoPick shown as m th;
          restated = noulAnswer as RESTATES_ID;
          drove = noulAnswer as DROVE_DECISION_ID
      in case (choice, yesNo, restated, drove) of
           (Some cp, Some yp, Some r, Some dr) \<Rightarrow>
             (let dp = distillerPick c;
                  (level, d) = agreementOf [cp, yp, dp]
              in \<lparr>decided_candidate = cand_id c, decided_for = d, agreement = level,
                  authorityTier = authorityTierOf c, restates = (r \<ge> restatedAt th),
                  droveDecision = (dr \<ge> droveDecisionAt th),
                  reasons = [pick_reason cp, pick_reason yp, pick_reason dp, outcome_reason level d],
                  raw_answers = raw\<rparr>)
         | _ \<Rightarrow> noSignalDecision c raw (missingIds
                [(DEST_ID, choice \<noteq> None), (''the per-destination yes/no answers'', yesNo \<noteq> None),
                 (RESTATES_ID, restated \<noteq> None), (DROVE_DECISION_ID, drove \<noteq> None)]))"

subsection \<open>The second decider: four cutoffs\<close>

definition LASTING_ID :: string where "LASTING_ID = ''anything_lasting''"
definition DEST_V2_ID :: string where "DEST_V2_ID = ''destination''"
definition NONE_OPTION :: string where "NONE_OPTION = ''none''"
definition RESTATES_PAIR_ID :: string where "RESTATES_PAIR_ID = ''restates_pair''"
definition RESTATES_AT_V2 :: rat where "RESTATES_AT_V2 = 7 / 10"

record route_thresholds_v2 =
  lastingAt :: rat
  confidenceAt :: rat
  pickAt2 :: rat
  droveDecisionAt2 :: rat
  measuredIn2 :: string

definition DEFAULT_THRESHOLDS_V2 :: route_thresholds_v2 where
  "DEFAULT_THRESHOLDS_V2 = \<lparr>lastingAt = 55 / 100, confidenceAt = 5 / 10, pickAt2 = 75 / 100,
     droveDecisionAt2 = 7 / 10, measuredIn2 = ''1469-paid-v2/ledger-20260925T141623''\<rparr>"

definition flattenAnswersV2 :: "(string \<times> jev_answer) list \<Rightarrow> (string, raw_value) jsmap" where
  "flattenAnswersV2 as = foldl (\<lambda>raw (key, answer).
     case answer of
       NoulA p \<Rightarrow> AList.update key (RawNum p) raw
     | ChoiceA choice probabilities confidence \<Rightarrow>
         AList.update (key @ ''.conf'') (RawNum confidence)
           (AList.update (key @ ''.p'') (RawNum (win_probability choice probabilities))
             (AList.update key (RawText choice) raw))
     | ScoreA s l p c \<Rightarrow> raw) [] as"

definition gate ::
  "(rat \<Rightarrow> string) \<Rightarrow> string \<Rightarrow> (string \<times> rat) list \<Rightarrow> rat \<Rightarrow> rat \<Rightarrow> route_matrix \<Rightarrow> route_thresholds_v2 \<Rightarrow> pick" where
  "gate shown choice probabilities conf lasting m th =
     (let pWin = win_probability choice probabilities;
          blocked = (\<lambda>reason. \<lparr>pick_for = None, pick_reason = reason\<rparr>)
      in if choice = NONE_OPTION
         then blocked (''the choice picked none at '' @ shown pWin @ '', so nothing is committed.'')
         else case matrix_destination m choice of
           None \<Rightarrow> blocked (''the choice picked '' @ choice @ '', which is not a matrix row, so nothing is committed.'')
         | Some d \<Rightarrow>
             if lasting < lastingAt th
             then blocked (''anything lasting was '' @ shown lasting @ '', below the '' @ shown (lastingAt th)
                    @ '' cutoff, so nothing is committed.'')
             else if conf < confidenceAt th
             then blocked (''confidence was '' @ shown conf @ '', below the '' @ shown (confidenceAt th)
                    @ '' cutoff, so nothing is committed.'')
             else if pWin < pickAt2 th
             then blocked (''the choice picked '' @ choice @ '' at '' @ shown pWin @ '', below the ''
                    @ shown (pickAt2 th) @ '' cutoff, so nothing is committed.'')
             else \<lparr>pick_for = Some d, pick_reason = ''the choice picked '' @ choice @ '' at '' @ shown pWin
                    @ '' with confidence '' @ shown conf @ '' and anything lasting '' @ shown lasting
                    @ ''; every cutoff passed.''\<rparr>)"

definition restatesOf :: "(rat \<Rightarrow> string) \<Rightarrow> (string \<times> jev_answer) list \<Rightarrow> bool \<times> string option" where
  "restatesOf shown as =
     (case noulAnswer as RESTATES_PAIR_ID of
        None \<Rightarrow> (False, None)
      | Some pair \<Rightarrow>
          let r = (pair \<ge> RESTATES_AT_V2)
          in (r, Some (''restates pair '' @ shown pair @ '' '' @ (if r then ''>='' else ''<'') @ '' ''
                   @ shown RESTATES_AT_V2 @ ''.'')))"

definition decideRouteV2 ::
  "(rat \<Rightarrow> string) \<Rightarrow> route_candidate \<Rightarrow> (string \<times> jev_answer) list \<Rightarrow> route_matrix \<Rightarrow> route_thresholds_v2 \<Rightarrow>
     route_decision" where
  "decideRouteV2 shown c as m th =
     (let raw = flattenAnswersV2 as;
          lasting = noulAnswer as LASTING_ID;
          choice = (case map_of as DEST_V2_ID of
            Some (ChoiceA ch ps conf) \<Rightarrow> Some (ch, ps, conf) | _ \<Rightarrow> None);
          drove = noulAnswer as DROVE_DECISION_ID
      in case (lasting, choice, drove) of
           (Some l, Some (ch, ps, conf), Some dr) \<Rightarrow>
             (let g = gate shown ch ps conf l m th;
                  droveDecision = (dr \<ge> droveDecisionAt2 th);
                  (restates, restatesReason) = restatesOf shown as
              in \<lparr>decided_candidate = cand_id c, decided_for = pick_for g,
                  agreement = (if pick_for g = None then NoAgreement else High),
                  authorityTier = authorityTierOf c, restates = restates, droveDecision = droveDecision,
                  reasons = [pick_reason g,
                    ''drove decision '' @ shown dr @ '' '' @ (if droveDecision then ''>='' else ''<'') @ '' ''
                      @ shown (droveDecisionAt2 th) @ ''.'']
                    @ (case restatesReason of None \<Rightarrow> [] | Some r \<Rightarrow> [r]),
                  raw_answers = raw\<rparr>)
         | _ \<Rightarrow> noSignalDecision c raw (missingIds [(LASTING_ID, lasting \<noteq> None),
                (DEST_V2_ID, choice \<noteq> None), (DROVE_DECISION_ID, drove \<noteq> None)]))"

subsection \<open>The commit policy\<close>

datatype apply_action = Thought | Rule_event | Reinforce | Nothing

record would_apply =
  action :: apply_action
  apply_reason :: string

fun agreement_name :: "agreement_level \<Rightarrow> string" where
  "agreement_name High = ''high''"
| "agreement_name Low = ''low''"
| "agreement_name NoAgreement = ''none''"

definition wouldApply :: "route_decision \<Rightarrow> route_matrix \<Rightarrow> would_apply" where
  "wouldApply d m =
     (if agreement d \<noteq> High
      then \<lparr>action = Nothing, apply_reason = ''agreement '' @ agreement_name (agreement d) @ '', only high commits.''\<rparr>
      else case find (\<lambda>r. Some (row_name r) = decided_for d) (matrix_rows m) of
        None \<Rightarrow> \<lparr>action = Nothing, apply_reason = ''steering is never committed.''\<rparr>
      | Some dest \<Rightarrow>
          if \<not> row_commits dest then \<lparr>action = Nothing, apply_reason = ''steering is never committed.''\<rparr>
          else if restates d
          then \<lparr>action = Reinforce, apply_reason = ''restates another item in its batch.''\<rparr>
          else if row_name dest = Rule \<and> authorityTier d = Decided
          then \<lparr>action = Rule_event,
                 apply_reason = ''a rule in the operator'' @ [CHR 0x27] @ ''s own words becomes always-known.''\<rparr>
          else if row_name dest = Rule
          then \<lparr>action = Thought, apply_reason = ''a rule not in the operator'' @ [CHR 0x27]
                 @ ''s words is searchable, never always-known.''\<rparr>
          else \<lparr>action = Thought, apply_reason = ''a committed '' @ dest_name (row_name dest)
                 @ '' is written as a searchable thought.''\<rparr>)"

definition ruleScopeKey :: "string \<Rightarrow> string" where
  "ruleScopeKey contentHash = ''dream-route:rule:'' @ contentHash"

subsection \<open>What a pick votes for\<close>

lemma matrix_destination_Some:
  "matrix_destination m name = Some d \<longleftrightarrow> name = dest_name d \<and> d \<in> row_name ` set (matrix_rows m)"
proof
  assume "matrix_destination m name = Some d"
  then show "name = dest_name d \<and> d \<in> row_name ` set (matrix_rows m)"
    by (auto simp: matrix_destination_def find_Some_iff)
next
  assume d: "name = dest_name d \<and> d \<in> row_name ` set (matrix_rows m)"
  then obtain r where "find (\<lambda>r. dest_name (row_name r) = name) (matrix_rows m) = Some r"
    by (cases "find (\<lambda>r. dest_name (row_name r) = name) (matrix_rows m)") (auto simp: find_None_iff)
  with d show "matrix_destination m name = Some d"
    by (auto simp: matrix_destination_def find_Some_iff)
qed

lemma choicePick_votes:
  "(\<exists>cp. choicePick shown as m th = Some cp \<and> pick_for cp = Some x) \<longleftrightarrow>
     (\<exists>ps conf. map_of as DEST_ID = Some (ChoiceA (dest_name x) ps conf) \<and>
        x \<in> row_name ` set (matrix_rows m) \<and> pickAt th \<le> win_probability (dest_name x) ps)"
  by (auto simp: choicePick_def Let_def matrix_destination_Some not_less
      split: option.splits jev_answer.splits if_splits)
    (metis imageI matrix_destination_Some option.distinct(1))

lemma yes_scores_Some:
  "yes_scores as rs = Some scored \<longleftrightarrow>
     map fst scored = map row_name rs \<and> (\<forall>(d, p) \<in> set scored. noulAnswer as (ynId d) = Some p)"
  by (induction rs arbitrary: scored) (auto split: option.splits simp: map_eq_Cons_conv Cons_eq_map_conv)

lemma yes_scores_None:
  "yes_scores as rs = None \<longleftrightarrow> (\<exists>r \<in> set rs. noulAnswer as (ynId (row_name r)) = None)"
  by (induction rs) (auto split: option.splits)

lemma best_score_spec:
  "best_score ps = Some b \<longleftrightarrow> b \<in> set ps \<and> (\<forall>p \<in> set ps. p \<le> b)"
proof (induction ps arbitrary: b)
  case (Cons p ps)
  show ?case
  proof (cases "best_score ps")
    case None
    then have "ps = []" by (cases ps) (auto split: option.splits)
    then show ?thesis by auto
  next
    case (Some q)
    with Cons.IH have q: "q \<in> set ps" "\<forall>p \<in> set ps. p \<le> q" by auto
    show ?thesis
    proof
      assume "best_score (p # ps) = Some b"
      then have "b = max p q" by (simp add: Some)
      with q show "b \<in> set (p # ps) \<and> (\<forall>x \<in> set (p # ps). x \<le> b)"
        by (auto simp: max_def intro: order_trans)
    next
      assume b: "b \<in> set (p # ps) \<and> (\<forall>x \<in> set (p # ps). x \<le> b)"
      with q have "p \<le> b" "q \<le> b" by auto
      moreover from b q have "b \<le> max p q" by (auto simp: max_def)
      ultimately show "best_score (p # ps) = Some b" by (simp add: Some)
    qed
  qed
qed simp

text \<open>The yes/no pick votes for a destination exactly when its answer is the strict maximum and
  reaches the cutoff.\<close>

lemma single_leader:
  assumes "distinct (map fst scored)"
  shows "filter (\<lambda>(d, p). Some p = best_score (map snd scored)) scored = [(x, p)] \<longleftrightarrow>
    (x, p) \<in> set scored \<and> (\<forall>(d, q) \<in> set scored. d \<noteq> x \<longrightarrow> q < p)" (is "?L = _ \<longleftrightarrow> ?R")
proof
  assume L: "?L = [(x, p)]"
  have x: "(x, p) \<in> set scored \<and> Some p = best_score (map snd scored)"
  proof -
    have "(x, p) \<in> set ?L" unfolding L by simp
    then show ?thesis by simp
  qed
  have "q < p" if "(d, q) \<in> set scored" "d \<noteq> x" for d q
  proof -
    from that x have "q \<le> p" using best_score_spec [of "map snd scored" p] by force
    moreover have "q \<noteq> p"
    proof
      assume "q = p"
      with that x have "(d, q) \<in> set ?L" by simp
      with that(2) show False unfolding L by simp
    qed
    ultimately show ?thesis by simp
  qed
  with x show ?R by auto
next
  assume R: ?R
  then have best: "best_score (map snd scored) = Some p"
  proof -
    have "q \<le> p" if "(d, q) \<in> set scored" for d q
    proof (cases "d = x")
      case True
      with that R assms have "q = p" by (auto simp: map_of_eq_Some_iff dest: eq_key_imp_eq_value)
      then show ?thesis by simp
    next
      case False
      with that R show ?thesis by force
    qed
    with R show ?thesis unfolding best_score_spec by force
  qed
  have "filter (\<lambda>(d, q). Some q = best_score (map snd scored)) scored = filter (\<lambda>dq. fst dq = x) scored"
    unfolding best
  proof (rule filter_cong [OF refl])
    fix dq assume dq: "dq \<in> set scored"
    obtain d q where "dq = (d, q)" by (cases dq)
    with dq R assms show "(case dq of (d, q) \<Rightarrow> Some q = Some p) = (fst dq = x)"
      by (auto dest: eq_key_imp_eq_value)
  qed
  also have "\<dots> = [(x, p)]"
    using R assms
  proof (induction scored)
    case (Cons s ss)
    show ?case
    proof (cases "fst s = x")
      case True
      with Cons.prems have "s = (x, p)" by (cases s) (auto simp: rev_image_eqI)
      moreover have "x \<notin> fst ` set ss" using Cons.prems(2) True by simp
      then have "filter (\<lambda>dq. fst dq = x) ss = []" by (auto simp: filter_empty_conv image_iff)
      ultimately show ?thesis by simp
    next
      case False
      with Cons show ?thesis by auto
    qed
  qed simp
  finally show "?L = [(x, p)]" .
qed

lemma yesNoPick_votes:
  assumes "distinct (map row_name (matrix_rows m))"
  shows "(\<exists>yp. yesNoPick shown as m th = Some yp \<and> pick_for yp = Some x) \<longleftrightarrow>
     x \<in> row_name ` set (matrix_rows m) \<and> (\<exists>p. noulAnswer as (ynId x) = Some p \<and> yesAt th \<le> p \<and>
       (\<forall>r \<in> set (matrix_rows m). row_name r \<noteq> x \<longrightarrow> (\<exists>q. noulAnswer as (ynId (row_name r)) = Some q \<and> q < p)))"
proof (cases "yes_scores as (matrix_rows m)")
  case None
  then obtain r where r: "r \<in> set (matrix_rows m)" "noulAnswer as (ynId (row_name r)) = None"
    by (auto simp: yes_scores_None)
  then show ?thesis by (auto simp: yesNoPick_def None) (metis option.distinct(1))
next
  case (Some scored)
  then have s: "map fst scored = map row_name (matrix_rows m)" "\<forall>(d, p) \<in> set scored. noulAnswer as (ynId d) = Some p"
    by (auto simp: yes_scores_Some)
  let ?L = "filter (\<lambda>(d, p). Some p = best_score (map snd scored)) scored"
  have "(\<exists>yp. yesNoPick shown as m th = Some yp \<and> pick_for yp = Some x) \<longleftrightarrow>
      (\<exists>p. ?L = [(x, p)] \<and> yesAt th \<le> p)"
    by (auto simp: yesNoPick_def Some Let_def not_less split: list.splits if_splits)
  also have "\<dots> \<longleftrightarrow> (\<exists>p. (x, p) \<in> set scored \<and> (\<forall>(d, q) \<in> set scored. d \<noteq> x \<longrightarrow> q < p) \<and> yesAt th \<le> p)"
    using assms unfolding s(1) [symmetric] by (simp add: single_leader)
  finally have eq: "(\<exists>yp. yesNoPick shown as m th = Some yp \<and> pick_for yp = Some x) \<longleftrightarrow>
      (\<exists>p. (x, p) \<in> set scored \<and> (\<forall>(d, q) \<in> set scored. d \<noteq> x \<longrightarrow> q < p) \<and> yesAt th \<le> p)" .
  have names: "row_name ` set (matrix_rows m) = fst ` set scored"
    using arg_cong [OF s(1), of set] by simp
  have mem: "(d, p) \<in> set scored \<longleftrightarrow> d \<in> fst ` set scored \<and> noulAnswer as (ynId d) = Some p" for d p
    using s(2) by force
  have all: "(\<forall>r \<in> set (matrix_rows m). row_name r \<noteq> x \<longrightarrow> (\<exists>q. noulAnswer as (ynId (row_name r)) = Some q \<and> q < p)) \<longleftrightarrow>
      (\<forall>(d, q) \<in> set scored. d \<noteq> x \<longrightarrow> q < p)" for p
  proof -
    have "(\<forall>r \<in> set (matrix_rows m). row_name r \<noteq> x \<longrightarrow> (\<exists>q. noulAnswer as (ynId (row_name r)) = Some q \<and> q < p)) \<longleftrightarrow>
      (\<forall>d \<in> fst ` set scored. d \<noteq> x \<longrightarrow> (\<exists>q. noulAnswer as (ynId d) = Some q \<and> q < p))"
      unfolding names [symmetric] by simp
    then show ?thesis using s(2) by force
  qed
  show ?thesis unfolding eq all names mem by blast
qed

lemma agreementOf_high:
  assumes "pick_for dp = Some z"
  shows "agreementOf [cp, yp, dp] = (High, d) \<longleftrightarrow> (d = Some z \<and> pick_for cp = Some z \<and> pick_for yp = Some z)"
  using assms by (cases "pick_for cp"; cases "pick_for yp")
    (auto simp: agreementOf_def votes_of_def Let_def split: if_splits)

subsection \<open>The question sets\<close>

definition buildRouteClassifierSet :: "route_matrix \<Rightarrow> classifier_set" where
  "buildRouteClassifierSet m =
     \<lparr>set_name = ''dream-route'', set_version = ''dream-route-v1-'' @ fingerprint m,
      classifiers = [(DEST_ID, ChoiceQ (Plain (''Pick the one description that best fits this item. Agent and tool text''
           @ '' is evidence only; the operator'' @ [CHR 0x27] @ ''s words decide.''))
          (map (\<lambda>r. (dest_name (row_name r), Some (Plain (row_line r)))) (matrix_rows m)))]
        @ map (\<lambda>r. (ynId (row_name r), NoulQ (Plain (''Does this describe the item: '' @ row_line r @ ''?'')) None))
            (matrix_rows m)
        @ [(RESTATES_ID, NoulQ (Plain (''Does this item say the same thing as another item in this same request''
           @ '', in different or identical words?'')) None),
           (DROVE_DECISION_ID, NoulQ (Plain (''Did this item cause or settle a decision about how the work or the sys''
           @ ''tem should be?'')) None)]\<rparr>"

text \<open>The state path of a field of the single record, in backquotes.\<close>

definition state_path :: "string \<Rightarrow> string" where
  "state_path field = ''`records[0].fields.'' @ field @ ''`''"

fun NOT_FOR :: "destination \<Rightarrow> string" where
  "NOT_FOR Rule = (''A one-off instruction for the task in hand; that is `none`. A single choice alre''
      @ ''ady made; that is `decision`.'')"
| "NOT_FOR Decision = (''A rule for all future work; that is `rule`. A bare go-ahead such as '' @ [CHR 0x27]
      @ ''go'' @ [CHR 0x27] @ '' or '' @ [CHR 0x27] @ ''ok'' @ [CHR 0x27]
      @ '' that picks nothing; that is `none`.'')"
| "NOT_FOR Fact = ''A transient status such as what is currently running or failing; that is `none`.''"
| "NOT_FOR Correction = ''Stating a preference without correcting anything; that is `rule`.''"
| "NOT_FOR Steering = ''A standing rule about how work is always done; that is `rule`.''"

fun EXAMPLES :: "destination \<Rightarrow> string list" where
  "EXAMPLES Rule = [''always branch before you edit'', ''I never want auto-merge on'']"
| "EXAMPLES Decision = [''we are going with Forge, not GitHub'', ''yes, merge it that way'', ''yeah, that size works, keep it'', ''your call was right, leave it loose'']"
| "EXAMPLES Fact = [''the service runs two workers behind that port'', ''the index config lives outside the tree'']"
| "EXAMPLES Correction = [''no, that is not what I said'', ''you put it in the wrong repo'']"
| "EXAMPLES Steering = [''do the second one first'', ''stop there'']"

definition NONE_CRITERIA :: jev_text where
  "NONE_CRITERIA = Structured
     [(''what'', Part (''None of the above. A bare go-ahead or acknowledgement that picks nothing, a pass''
         @ ''ing question, a progress report, or a fragment with nothing lasting in it.'')),
      (''not_for'', Part (''Agreement that settles a choice, even when casual ('' @ [CHR 0x27]
         @ ''yeah, that works'' @ [CHR 0x27] @ '', '' @ [CHR 0x27] @ ''your call was right''
         @ [CHR 0x27] @ '', '' @ [CHR 0x27] @ ''that is a real issue'' @ [CHR 0x27]
         @ ''); that is `decision`. Anything else that would still matter after this conversa''
         @ ''tion ends.'')),
      (''examples'', Parts [''go'', ''ok thanks'', ''are those the new issues from today''])]"

definition buildRouteClassifierSetV2 :: "route_matrix \<Rightarrow> classifier_set" where
  "buildRouteClassifierSetV2 m =
     \<lparr>set_name = ''dream-route'', set_version = ''dream-route-v2-'' @ fingerprint m,
      classifiers =
       [(LASTING_ID, NoulQ (Structured
          [(''question'', Part (''Does '' @ state_path ''operator_said'' @ '' contain something worth remembering after this conversation ends?'')),
           (''focus'', Part (''Judge '' @ state_path ''operator_said'' @ '' only; when it is null judge '' @ state_path ''distilled_item'' @ '' instead. '' @ state_path ''distilled_item'' @ '' is a paraphrase and is evidence, not the subject.''))])
          (Some ((''It states a rule, a decision, a lasting fact, or a correction that would still m''
             @ ''atter weeks from now. Casual agreement that settles a choice counts as a decisio''
             @ ''n.''),
            (''It is a bare go-ahead or acknowledgement that picks nothing, a passing question,''
             @ '' a progress report, or a fragment that only made sense in the moment.'')))),
        (DEST_V2_ID, ChoiceQ (Structured
          [(''question'', Part (''Which one of these best describes what '' @ state_path ''operator_said'' @ '' is?'')),
           (''focus'', Part (''The operator'' @ [CHR 0x27] @ ''s own words in '' @ state_path ''operator_said'' @ '' decide; when it is null judge '' @ state_path ''distilled_item'' @ ''. Agent and tool text is evidence only.'')),
           (''rule'', Part ''Pick `none` when nothing here would still matter after this conversation ends.'')])
          (AList.update NONE_OPTION (Some NONE_CRITERIA)
            (map (\<lambda>r. (dest_name (row_name r), Some (Structured
                [(''what'', Part (row_line r)), (''not_for'', Part (NOT_FOR (row_name r))),
                 (''examples'', Parts (EXAMPLES (row_name r)))]))) (matrix_rows m)))),
        (DROVE_DECISION_ID, NoulQ (Structured
          [(''question'', Part (''Did '' @ state_path ''operator_said'' @ '' cause or settle a decision about how the work or the system should be'' @ ''?'')),
           (''focus'', Part ''Settling something counts even if the words are short.'')])
          (Some (''After this, the question it addressed is closed.'',
            ''It asks, reports, or acknowledges without settling anything.'')))]\<rparr>"

subsection \<open>Decisions\<close>

lemma three_picks_decide':
  assumes "distinct (map row_name (matrix_rows m))"
  shows "agreement (decideRoute shown c as m th) = High \<and> decided_for (decideRoute shown c as m th) = Some x \<longleftrightarrow>
    (\<exists>ps conf. map_of as DEST_ID = Some (ChoiceA (dest_name x) ps conf) \<and>
       x \<in> row_name ` set (matrix_rows m) \<and> pickAt th \<le> win_probability (dest_name x) ps) \<and>
    (\<exists>p. noulAnswer as (ynId x) = Some p \<and> yesAt th \<le> p \<and>
       (\<forall>r \<in> set (matrix_rows m). row_name r \<noteq> x \<longrightarrow> (\<exists>q. noulAnswer as (ynId (row_name r)) = Some q \<and> q < p))) \<and>
    DISTILLER_DESTINATION (candidateType c) = x \<and>
    noulAnswer as RESTATES_ID \<noteq> None \<and> noulAnswer as DROVE_DECISION_ID \<noteq> None" (is "?L \<longleftrightarrow> ?R")
proof -
  let ?votes = "\<lambda>pk. \<exists>p. pk = Some p \<and> pick_for p = Some x"
  have "?L \<longleftrightarrow> ?votes (choicePick shown as m th) \<and> ?votes (yesNoPick shown as m th) \<and>
      DISTILLER_DESTINATION (candidateType c) = x \<and>
      noulAnswer as RESTATES_ID \<noteq> None \<and> noulAnswer as DROVE_DECISION_ID \<noteq> None"
  proof (cases "choicePick shown as m th = None \<or> yesNoPick shown as m th = None \<or>
      noulAnswer as RESTATES_ID = None \<or> noulAnswer as DROVE_DECISION_ID = None")
    case True
    then show ?thesis
      by (auto simp: decideRoute_def Let_def noSignalDecision_def split: option.splits)
  next
    case False
    then obtain cp yp r dr where s: "choicePick shown as m th = Some cp" "yesNoPick shown as m th = Some yp"
        "noulAnswer as RESTATES_ID = Some r" "noulAnswer as DROVE_DECISION_ID = Some dr"
      by auto
    obtain level d where l: "agreementOf [cp, yp, distillerPick c] = (level, d)"
      by (cases "agreementOf [cp, yp, distillerPick c]")
    have "agreement (decideRoute shown c as m th) = level" "decided_for (decideRoute shown c as m th) = d"
      by (simp_all add: decideRoute_def s l Let_def)
    moreover have "pick_for (distillerPick c) = Some (DISTILLER_DESTINATION (candidateType c))"
      by (simp add: distillerPick_def Let_def)
    note high = agreementOf_high [OF this, of cp yp "Some x"]
    ultimately show ?thesis using high l by (auto simp: s)
  qed
  then show ?thesis
    unfolding choicePick_votes yesNoPick_votes [OF assms] by blast
qed

text \<open>The first decider commits only on unanimity. Over a matrix that names each destination
  once, a decision has high agreement for \<open>x\<close> exactly when the choice question picked \<open>x\<close> with
  at least the cutoff probability, the yes/no answer for \<open>x\<close> reaches its cutoff and strictly
  exceeds that of every other row, the distiller's type maps to \<open>x\<close>, and both flags were
  answered; so a missing answer or a tie never commits, and \<open>steering\<close> never has high
  agreement.\<close>

theorem three_picks_decide:
  assumes "distinct (map row_name (matrix_rows m))"
  shows "(agreement (decideRoute shown c as m th) = High \<and> decided_for (decideRoute shown c as m th) = Some x \<longleftrightarrow>
    (\<exists>ps conf. map_of as DEST_ID = Some (ChoiceA (dest_name x) ps conf) \<and>
       x \<in> row_name ` set (matrix_rows m) \<and> pickAt th \<le> win_probability (dest_name x) ps) \<and>
    (\<exists>p. noulAnswer as (ynId x) = Some p \<and> yesAt th \<le> p \<and>
       (\<forall>r \<in> set (matrix_rows m). row_name r \<noteq> x \<longrightarrow> (\<exists>q. noulAnswer as (ynId (row_name r)) = Some q \<and> q < p))) \<and>
    DISTILLER_DESTINATION (candidateType c) = x \<and>
    noulAnswer as RESTATES_ID \<noteq> None \<and> noulAnswer as DROVE_DECISION_ID \<noteq> None) \<and>
   \<not> (agreement (decideRoute shown c as m th) = High \<and> decided_for (decideRoute shown c as m th) = Some Steering)"
proof
  show "\<not> (agreement (decideRoute shown c as m th) = High \<and> decided_for (decideRoute shown c as m th) = Some Steering)"
    unfolding three_picks_decide' [OF assms] by (cases "candidateType c") auto
qed (rule three_picks_decide' [OF assms])

lemma gate_votes:
  "pick_for (gate shown ch ps conf l m th) = Some x \<longleftrightarrow>
     ch = dest_name x \<and> x \<in> row_name ` set (matrix_rows m) \<and> lastingAt th \<le> l \<and> confidenceAt th \<le> conf \<and>
     pickAt2 th \<le> win_probability ch ps"
proof (cases "ch = NONE_OPTION")
  case True
  moreover have "NONE_OPTION \<noteq> dest_name x" by (cases x) (auto simp: NONE_OPTION_def)
  ultimately show ?thesis by (auto simp: gate_def Let_def)
next
  case False
  show ?thesis
  proof (cases "matrix_destination m ch")
    case None
    then have "\<not> (ch = dest_name x \<and> x \<in> row_name ` set (matrix_rows m))"
      by (metis matrix_destination_Some option.distinct(1))
    with False None show ?thesis by (auto simp: gate_def Let_def)
  next
    case (Some d)
    with False show ?thesis
      using matrix_destination_Some [of m ch d] by (auto simp: gate_def Let_def not_less)
  qed
qed

lemma decideRouteV2_commits:
  "decided_for (decideRouteV2 shown c as m th) = Some x \<longleftrightarrow>
     (\<exists>l ps conf dr. noulAnswer as LASTING_ID = Some l \<and> lastingAt th \<le> l \<and>
        map_of as DEST_V2_ID = Some (ChoiceA (dest_name x) ps conf) \<and> x \<in> row_name ` set (matrix_rows m) \<and>
        confidenceAt th \<le> conf \<and> pickAt2 th \<le> win_probability (dest_name x) ps \<and>
        noulAnswer as DROVE_DECISION_ID = Some dr)"
  by (cases "noulAnswer as LASTING_ID"; cases "noulAnswer as DROVE_DECISION_ID"; cases "map_of as DEST_V2_ID")
    (auto simp: decideRouteV2_def noSignalDecision_def gate_votes Let_def split: jev_answer.splits prod.splits
      split del: if_split)

lemma decideRouteV2_agreement:
  "agreement (decideRouteV2 shown c as m th) = (if decided_for (decideRouteV2 shown c as m th) = None then NoAgreement else High)"
  "authorityTier (decideRouteV2 shown c as m th) = authorityTierOf c"
  unfolding decideRouteV2_def Let_def
  by (auto simp: noSignalDecision_def split: option.splits jev_answer.splits prod.splits)

lemma decideRoute_authority: "authorityTier (decideRoute shown c as m th) = authorityTierOf c"
  by (auto simp: decideRoute_def Let_def noSignalDecision_def split: option.splits prod.splits)

lemma wouldApply_writes:
  assumes "distinct (map row_name (matrix_rows m))"
  shows "action (wouldApply d m) \<noteq> Nothing \<longleftrightarrow>
    agreement d = High \<and> (\<exists>r \<in> set (matrix_rows m). decided_for d = Some (row_name r) \<and> row_commits r)"
proof (cases "find (\<lambda>r. Some (row_name r) = decided_for d) (matrix_rows m)")
  case None
  then have "\<forall>r \<in> set (matrix_rows m). decided_for d \<noteq> Some (row_name r)"
    by (auto simp: find_None_iff)
  with None show ?thesis by (simp add: wouldApply_def)
next
  case (Some r)
  then have r: "r \<in> set (matrix_rows m)" "decided_for d = Some (row_name r)"
    by (auto dest: find_Some_iff')
  have "q = r" if "q \<in> set (matrix_rows m)" "row_name q = row_name r" for q
    using assms that r(1) by (simp add: distinct_map inj_on_def)
  then have "(\<exists>q \<in> set (matrix_rows m). decided_for d = Some (row_name q) \<and> row_commits q) \<longleftrightarrow> row_commits r"
    using r by auto
  with Some show ?thesis by (simp add: wouldApply_def)
qed

lemma wouldApply_rule_event:
  "action (wouldApply d m) = Rule_event \<longleftrightarrow> action (wouldApply d m) \<noteq> Nothing \<and>
     decided_for d = Some Rule \<and> authorityTier d = Decided \<and> \<not> restates d"
  by (auto simp: wouldApply_def find_Some_iff split: option.splits if_splits)

text \<open>The second decider writes a memory exactly when every cutoff passes. The item must be
  judged lasting, the choice must name a matrix row that commits with enough confidence and
  probability, and the decision flag must have been answered; what is then written is an
  always-known rule event only for a rule that restates nothing and that the operator typed as a
  whole exchange.\<close>

theorem v2_writes_iff_cutoffs_pass:
  assumes "distinct (map row_name (matrix_rows m))"
    and d_def: "d = decideRouteV2 shown c as m th"
  shows "(action (wouldApply d m) \<noteq> Nothing \<longleftrightarrow>
      (\<exists>r l ps conf dr. r \<in> set (matrix_rows m) \<and> row_commits r \<and>
         noulAnswer as LASTING_ID = Some l \<and> lastingAt th \<le> l \<and>
         map_of as DEST_V2_ID = Some (ChoiceA (dest_name (row_name r)) ps conf) \<and> confidenceAt th \<le> conf \<and>
         pickAt2 th \<le> win_probability (dest_name (row_name r)) ps \<and> noulAnswer as DROVE_DECISION_ID = Some dr)) \<and>
    (action (wouldApply d m) = Rule_event \<longleftrightarrow>
       action (wouldApply d m) \<noteq> Nothing \<and> decided_for d = Some Rule \<and> \<not> restates d \<and>
       unitKind c = Exchange \<and> (anchorKind c = Some Typed \<or> anchorKind c = Some Askuserquestion))"
proof
  have "agreement d = High \<and> (\<exists>r \<in> set (matrix_rows m). decided_for d = Some (row_name r) \<and> row_commits r) \<longleftrightarrow>
      (\<exists>r \<in> set (matrix_rows m). decided_for d = Some (row_name r) \<and> row_commits r)"
    unfolding d_def decideRouteV2_agreement by auto
  then show "action (wouldApply d m) \<noteq> Nothing \<longleftrightarrow>
      (\<exists>r l ps conf dr. r \<in> set (matrix_rows m) \<and> row_commits r \<and>
         noulAnswer as LASTING_ID = Some l \<and> lastingAt th \<le> l \<and>
         map_of as DEST_V2_ID = Some (ChoiceA (dest_name (row_name r)) ps conf) \<and> confidenceAt th \<le> conf \<and>
         pickAt2 th \<le> win_probability (dest_name (row_name r)) ps \<and> noulAnswer as DROVE_DECISION_ID = Some dr)"
    unfolding wouldApply_writes [OF assms(1)] unfolding d_def decideRouteV2_commits by blast
  have "authorityTier d = Decided \<longleftrightarrow> unitKind c = Exchange \<and> (anchorKind c = Some Typed \<or> anchorKind c = Some Askuserquestion)"
    by (simp add: d_def decideRouteV2_agreement authorityTierOf_def)
  then show "action (wouldApply d m) = Rule_event \<longleftrightarrow>
       action (wouldApply d m) \<noteq> Nothing \<and> decided_for d = Some Rule \<and> \<not> restates d \<and>
       unitKind c = Exchange \<and> (anchorKind c = Some Typed \<or> anchorKind c = Some Askuserquestion)"
    unfolding wouldApply_rule_event [of d m] by blast
qed

subsection \<open>The question sets are the ones the planner accepts\<close>

lemma nonblank_prefix: "\<not> js_ws c \<Longrightarrow> isNonEmptyString (c # s)"
  by (simp add: isNonEmptyString_def trim_eq_Nil_iff)

lemma nonblank_member: "c \<in> set s \<Longrightarrow> \<not> js_ws c \<Longrightarrow> isNonEmptyString s"
  by (auto simp: isNonEmptyString_def trim_eq_Nil_iff)

lemma validate_questions_ok:
  "(\<forall>(n, q) \<in> set qs. validateQuestion n q = Inr ()) \<Longrightarrow> validate_questions qs = Inr ()"
  by (induction qs) auto

lemma dest_name_nonblank: "trim (dest_name d) \<noteq> ''''"
  by (cases d) (simp_all add: trim_eq_Nil_iff, (code_simp)+)

lemma route_set_valid:
  assumes "matrix_rows m \<noteq> []"
  shows "validateClassifierSet (buildRouteClassifierSet m) = Inr ()"
proof -
  have blank: "\<not> js_ws (CHR ''P'')" "\<not> js_ws (CHR ''D'')" by code_simp+
  have "validateQuestion n q = Inr ()" if "(n, q) \<in> set (classifiers (buildRouteClassifierSet m))" for n q
    using that assms blank dest_name_nonblank
    by (auto simp: buildRouteClassifierSet_def validateQuestion_def validateChoiceCriteria_def list_ex_iff
        intro!: nonblank_prefix)
  then have "validate_questions (classifiers (buildRouteClassifierSet m)) = Inr ()"
    by (intro validate_questions_ok) auto
  then show ?thesis by (simp add: validateClassifierSet_def buildRouteClassifierSet_def)
qed

subsection \<open>An executed plan leaves no candidate without a signal\<close>

lemma validate_judged: "validateClassifierAnswer (judged k i q) a = validateClassifierAnswer q a"
  by (cases q; cases a) (auto simp: judged_def)

lemma executed_answer:
  assumes "buildJevBatchPlan sharedState records cs limits = Inr plan"
    and "executeJevBatchPlan env config plan = Inr out"
    and "r \<in> set records" "n \<in> fst ` set (classifiers cs)"
  obtains a q where "map_of (the (map_of (answers out) (rec_key r))) n = Some a"
    and "(n, q) \<in> set (classifiers cs)" and "validateClassifierAnswer q a"
proof -
  note all = answers_belong_to_their_record' [OF assms(1,2)]
  from all [THEN conjunct1] assms(3,4) obtain a where a: "answer_of out (rec_key r) n = Some a" by fastforce
  from all [THEN conjunct2, rule_format, OF a] obtain q i where
      "(n, q) \<in> set (classifiers cs)" "validateClassifierAnswer (judged (rec_key r) i q) a" by blast
  moreover from a have "map_of (the (map_of (answers out) (rec_key r))) n = Some a"
    by (auto simp: answer_of_def split: option.splits)
  ultimately show ?thesis using that by (auto simp: validate_judged)
qed

lemma noul_valid:
  "validateClassifierAnswer (NoulQ t cr) a \<Longrightarrow> map_of as n = Some a \<Longrightarrow> \<exists>p. noulAnswer as n = Some p"
  by (cases a) (auto simp: noulAnswer_def)

lemma choice_valid: "validateClassifierAnswer (ChoiceQ t cr) a \<Longrightarrow>
    \<exists>ch ps conf. a = ChoiceA ch ps conf \<and> ch \<in> fst ` set cr"
  by (cases a) auto

lemma choicePick_signals:
  assumes "map_of as DEST_ID = Some (ChoiceA ch ps conf)" "matrix_destination m ch \<noteq> None"
  shows "\<exists>cp. choicePick shown as m th = Some cp \<and> starts_with ''the choice question picked '' (pick_reason cp)"
  using assms by (auto simp: choicePick_def Let_def starts_with_def)

lemma yesNoPick_signals:
  assumes "\<forall>r \<in> set (matrix_rows m). noulAnswer as (ynId (row_name r)) \<noteq> None"
  shows "\<exists>yp. yesNoPick shown as m th = Some yp"
proof -
  from assms yes_scores_None [of as "matrix_rows m"] obtain scored where
    "yes_scores as (matrix_rows m) = Some scored" by (cases "yes_scores as (matrix_rows m)") auto
  then show ?thesis by (auto simp: yesNoPick_def Let_def split: list.splits)
qed

lemma route_names:
  "DEST_ID \<noteq> ynId d" "ynId d \<noteq> DEST_ID" "RESTATES_ID \<noteq> ynId d" "ynId d \<noteq> RESTATES_ID"
  "DROVE_DECISION_ID \<noteq> ynId d" "ynId d \<noteq> DROVE_DECISION_ID" "ynId d = ynId e \<longleftrightarrow> d = e"
  by (simp_all add: DEST_ID_def ynId_def RESTATES_ID_def DROVE_DECISION_ID_def)

lemma route_set_signals:
  assumes plan: "buildJevBatchPlan sharedState records (buildRouteClassifierSet m) limits = Inr plan"
    and run: "executeJevBatchPlan env config plan = Inr out" and r: "r \<in> set records"
  defines "as \<equiv> the (map_of (answers out) (rec_key r))"
  shows "\<exists>t. length (reasons (decideRoute shown c as m th)) = 4 \<and>
    hd (reasons (decideRoute shown c as m th)) = ''the choice question picked '' @ t"
proof -
  let ?cs = "classifiers (buildRouteClassifierSet m)"
  note ans = executed_answer [OF plan run r, folded as_def]
  have noul: "noulAnswer as n \<noteq> None" if "n \<in> fst ` set ?cs" "n \<noteq> DEST_ID" for n
  proof -
    from ans [OF that(1)] obtain a q where a: "map_of as n = Some a" "(n, q) \<in> set ?cs" "validateClassifierAnswer q a"
      by metis
    from a(2) that(2) have "\<exists>t cr. q = NoulQ t cr" by (auto simp: buildRouteClassifierSet_def)
    with a noul_valid show ?thesis by blast
  qed
  have "DEST_ID \<in> fst ` set ?cs" by (simp add: buildRouteClassifierSet_def)
  from ans [OF this] obtain a q where a: "map_of as DEST_ID = Some a" "(DEST_ID, q) \<in> set ?cs" "validateClassifierAnswer q a"
    by metis
  from a(2) obtain t where t: "q = ChoiceQ t (map (\<lambda>r. (dest_name (row_name r), Some (Plain (row_line r)))) (matrix_rows m))"
    by (auto simp: buildRouteClassifierSet_def route_names) (simp_all add: DEST_ID_def RESTATES_ID_def DROVE_DECISION_ID_def)
  from choice_valid [OF a(3) [unfolded t]] obtain ch ps conf where
      ch: "a = ChoiceA ch ps conf" "ch \<in> (\<lambda>r. dest_name (row_name r)) ` set (matrix_rows m)"
    by (auto simp: image_image)
  then have "matrix_destination m ch \<noteq> None"
    by (metis (no_types, lifting) imageE imageI matrix_destination_Some option.distinct(1))
  from choicePick_signals [OF a(1) [unfolded ch(1)] this] obtain cp where
    cp: "choicePick shown as m th = Some cp" "starts_with ''the choice question picked '' (pick_reason cp)" by blast
  have "\<forall>r \<in> set (matrix_rows m). noulAnswer as (ynId (row_name r)) \<noteq> None"
  proof
    fix r assume "r \<in> set (matrix_rows m)"
    then have "ynId (row_name r) \<in> fst ` set ?cs" by (force simp: buildRouteClassifierSet_def)
    then show "noulAnswer as (ynId (row_name r)) \<noteq> None" by (rule noul) (simp add: route_names)
  qed
  from yesNoPick_signals [OF this] obtain yp where yp: "yesNoPick shown as m th = Some yp" by blast
  have "noulAnswer as RESTATES_ID \<noteq> None" "noulAnswer as DROVE_DECISION_ID \<noteq> None"
    by (rule noul; force simp: buildRouteClassifierSet_def DEST_ID_def RESTATES_ID_def DROVE_DECISION_ID_def)+
  then obtain x y where "noulAnswer as RESTATES_ID = Some x" "noulAnswer as DROVE_DECISION_ID = Some y" by auto
  moreover obtain t where "pick_reason cp = ''the choice question picked '' @ t"
    using cp(2) unfolding starts_with_def by (metis append_take_drop_id)
  ultimately show ?thesis using cp(1) yp
    by (simp add: decideRoute_def Let_def split: prod.splits)
qed

lemma route_set_v2_signals:
  assumes plan: "buildJevBatchPlan sharedState records (buildRouteClassifierSetV2 m) limits = Inr plan"
    and run: "executeJevBatchPlan env config plan = Inr out" and r: "r \<in> set records"
  defines "as \<equiv> the (map_of (answers out) (rec_key r))"
  shows "2 \<le> length (reasons (decideRouteV2 shown c as m th))"
proof -
  let ?cs = "classifiers (buildRouteClassifierSetV2 m)"
  note ans = executed_answer [OF plan run r, folded as_def]
  have ids: "LASTING_ID \<noteq> DEST_V2_ID" "DROVE_DECISION_ID \<noteq> DEST_V2_ID" "DEST_V2_ID \<noteq> LASTING_ID"
      "DEST_V2_ID \<noteq> DROVE_DECISION_ID"
    by (simp_all add: LASTING_ID_def DEST_V2_ID_def DROVE_DECISION_ID_def)
  have noul: "\<exists>p. noulAnswer as n = Some p" if "n \<in> {LASTING_ID, DROVE_DECISION_ID}" for n
  proof -
    have "n \<in> fst ` set ?cs" using that by (auto simp: buildRouteClassifierSetV2_def)
    from ans [OF this] obtain a q where a: "map_of as n = Some a" "(n, q) \<in> set ?cs" "validateClassifierAnswer q a"
      by metis
    from a(2) that ids have "\<exists>t cr. q = NoulQ t cr" by (auto simp: buildRouteClassifierSetV2_def)
    with a noul_valid show ?thesis by blast
  qed
  have "DEST_V2_ID \<in> fst ` set ?cs" by (simp add: buildRouteClassifierSetV2_def)
  from ans [OF this] obtain a q where a: "map_of as DEST_V2_ID = Some a" "(DEST_V2_ID, q) \<in> set ?cs" "validateClassifierAnswer q a"
    by metis
  from a(2) ids have "\<exists>t cr. q = ChoiceQ t cr" by (auto simp: buildRouteClassifierSetV2_def)
  with a(3) choice_valid obtain ch ps conf where "a = ChoiceA ch ps conf" by metis
  moreover obtain x y where "noulAnswer as LASTING_ID = Some x" "noulAnswer as DROVE_DECISION_ID = Some y"
    using noul by (metis insertCI)
  ultimately show ?thesis using a(1) by (simp add: decideRouteV2_def Let_def split: prod.splits)
qed

text \<open>The route step composes. When a plan built from a question set of the matrix executes,
  the decider that goes with the set finds a signal for every record: the answers it reads are
  the questions the set asks, so \<open>no signal\<close> is reported only for records that were not
  planned or whose request failed.\<close>

theorem executed_plan_always_signals:
  assumes "executeJevBatchPlan env config plan = Inr out" and "r \<in> set records"
    and "as = the (map_of (answers out) (rec_key r))"
  shows "(buildJevBatchPlan sharedState records (buildRouteClassifierSet m) limits = Inr plan \<longrightarrow>
      (\<exists>t. length (reasons (decideRoute shown c as m th)) = 4 \<and>
         hd (reasons (decideRoute shown c as m th)) = ''the choice question picked '' @ t)) \<and>
    (buildJevBatchPlan sharedState records (buildRouteClassifierSetV2 m) limits = Inr plan \<longrightarrow>
      2 \<le> length (reasons (decideRouteV2 shown c as m th2)))"
  using route_set_signals [OF _ assms(1,2)] route_set_v2_signals [OF _ assms(1,2)] assms(3) by auto

subsection \<open>The matrix file\<close>

definition well_formed_rows :: "matrix_row list \<Rightarrow> bool" where
  "well_formed_rows rows \<longleftrightarrow> (\<forall>d. length (filter (\<lambda>r. row_name r = d) rows) = 1) \<and>
     (\<forall>r \<in> set rows. 10 \<le> length (row_line r) \<and> length (row_line r) \<le> 300 \<and>
        CHR 0x09 \<notin> set (row_line r) \<and> CHR 0x0A \<notin> set (row_line r))"

definition render_row :: "matrix_row \<Rightarrow> string" where
  "render_row r = dest_name (row_name r) @ [CHR 0x09] @ row_line r @ [CHR 0x09] @
     (if row_commits r then ''true'' else ''false'')"

definition render_matrix :: "matrix_row list \<Rightarrow> string" where
  "render_matrix rows = join [CHR 0x0A] (map render_row rows)"

lemma split_on_no_sep: "sep \<notin> set xs \<Longrightarrow> split_on sep xs = [xs]"
  by (induction xs) auto

lemma split_on_append: "sep \<notin> set xs \<Longrightarrow> split_on sep (xs @ sep # ys) = xs # split_on sep ys"
  by (induction xs) auto

lemma split_on_join:
  "xs \<noteq> [] \<Longrightarrow> \<forall>x \<in> set xs. sep \<notin> set x \<Longrightarrow> split_on sep (join [sep] xs) = xs"
  by (induction "[sep]" xs rule: join.induct) (auto simp: split_on_no_sep split_on_append)

lemma split_on_free: "x \<in> set (split_on sep s) \<Longrightarrow> sep \<notin> set x"
  by (induction s arbitrary: x) (auto split: if_splits list.splits)

lemma split_on_parts: "x \<in> set (split_on sep s) \<Longrightarrow> set x \<subseteq> set s"
  by (induction s arbitrary: x) (fastforce split: if_splits list.splits)+

lemma isDestination_Some: "isDestination name = Some d \<longleftrightarrow> name = dest_name d"
proof
  assume "isDestination name = Some d"
  then show "name = dest_name d" by (auto simp: isDestination_def find_Some_iff)
next
  assume "name = dest_name d"
  then show "isDestination name = Some d"
    by (cases d) (simp_all add: isDestination_def DESTINATIONS_def)
qed

lemma parseRow_ok:
  "parseRow path n txt = Inr r \<Longrightarrow> 10 \<le> length (row_line r) \<and> length (row_line r) \<le> 300 \<and>
     CHR 0x09 \<notin> set (row_line r) \<and> set (row_line r) \<subseteq> set txt"
proof -
  assume ok: "parseRow path n txt = Inr r"
  then obtain name line commits where cells: "split_on (CHR 0x09) txt = [name, line, commits]"
    by (auto simp: parseRow_def split: list.splits)
  with ok have r: "row_line r = line" "10 \<le> length line" "length line \<le> 300"
    by (auto simp: parseRow_def MIN_LINE_LENGTH_def MAX_LINE_LENGTH_def split: option.splits if_splits)
  have "line \<in> set (split_on (CHR 0x09) txt)" by (simp add: cells)
  with r split_on_free split_on_parts show ?thesis by blast
qed

lemma parse_lines_ok:
  "parse_lines path n txts = Inr rows \<Longrightarrow> \<forall>t \<in> set txts. CHR 0x0A \<notin> set t \<Longrightarrow>
     \<forall>r \<in> set rows. 10 \<le> length (row_line r) \<and> length (row_line r) \<le> 300 \<and>
        CHR 0x09 \<notin> set (row_line r) \<and> CHR 0x0A \<notin> set (row_line r)"
proof (induction path n txts arbitrary: rows rule: parse_lines.induct)
  case (2 path n ln rest)
  show ?case
  proof (cases "trim ln = '''' \<or> starts_with ''#'' (trim ln)")
    case True
    with 2 show ?thesis by (auto simp: Let_def)
  next
    case False
    with 2(3) obtain r rs where r: "parseRow path (n + 1) ln = Inr r" "parse_lines path (Suc n) rest = Inr rs" "rows = r # rs"
      by (auto simp: Let_def res_bind_Inr)
    have "CHR 0x0A \<notin> set (row_line r)" using parseRow_ok [OF r(1)] 2(4) by auto
    with 2(2) [OF refl False r(2)] 2(4) parseRow_ok [OF r(1)] r(3) show ?thesis by auto
  qed
qed simp

lemma check_destinations_ok:
  "check_destinations path rows ds = Inr () \<longleftrightarrow> (\<forall>d \<in> set ds. length (filter (\<lambda>r. row_name r = d) rows) = 1)"
proof (induction ds)
  case (Cons d ds)
  consider "length (filter (\<lambda>r. row_name r = d) rows) = 0" | "length (filter (\<lambda>r. row_name r = d) rows) = 1"
    | "length (filter (\<lambda>r. row_name r = d) rows) > 1" by linarith
  then show ?case by cases (simp_all add: Cons Let_def)
qed simp

lemma distinct_unique:
  "\<forall>x. length (filter (\<lambda>r. f r = x) xs) \<le> 1 \<Longrightarrow> distinct (map f xs)"
proof (induction xs)
  case (Cons a xs)
  from Cons.prems [THEN spec, of "f a"] have "f a \<notin> f ` set xs"
    by (auto simp: filter_empty_conv)
  moreover have "length (filter (\<lambda>r. f r = x) xs) \<le> 1" for x
    using Cons.prems [THEN spec, of x] by (auto split: if_splits)
  ultimately show ?case using Cons.IH by simp
qed simp

lemma loadMatrix_distinct:
  assumes "loadMatrix h path txt = Inr m"
  shows "distinct (map row_name (matrix_rows m))"
proof -
  from assms have "\<forall>d \<in> set DESTINATIONS. length (filter (\<lambda>r. row_name r = d) (matrix_rows m)) = 1"
    by (auto simp: loadMatrix_def Let_def res_bind_Inr check_destinations_ok)
  then show ?thesis by (intro distinct_unique) simp
qed

lemma trim_keeps_head: "\<not> js_ws c \<Longrightarrow> \<exists>t. trim (c # s) = c # t"
  by (auto simp: trim_def trim_start_def dropWhile_append) (metis rev_rev_ident)

lemma parse_rendered:
  assumes "10 \<le> length (row_line r)" "length (row_line r) \<le> 300" "CHR 0x09 \<notin> set (row_line r)"
  shows "parseRow path n (render_row r) = Inr r"
    and "\<exists>c t. trim (render_row r) = c # t \<and> c \<noteq> CHR ''#''"
proof -
  have name: "CHR 0x09 \<notin> set (dest_name (row_name r))" by (cases "row_name r") auto
  have "split_on (CHR 0x09) (render_row r) =
      [dest_name (row_name r), row_line r, if row_commits r then ''true'' else ''false'']"
    using name assms(3) by (simp add: render_row_def split_on_append split_on_no_sep)
  moreover have "isDestination (dest_name (row_name r)) = Some (row_name r)" by (simp add: isDestination_Some)
  ultimately show "parseRow path n (render_row r) = Inr r"
    using assms by (simp add: parseRow_def MIN_LINE_LENGTH_def MAX_LINE_LENGTH_def)
  obtain c t where c: "dest_name (row_name r) = c # t" "\<not> js_ws c" "c \<noteq> CHR ''#''"
  proof -
    have "\<not> js_ws (CHR ''r'')" "\<not> js_ws (CHR ''d'')" "\<not> js_ws (CHR ''f'')" "\<not> js_ws (CHR ''c'')" "\<not> js_ws (CHR ''s'')"
      by code_simp+
    then show ?thesis using that by (cases "row_name r") auto
  qed
  then show "\<exists>c t. trim (render_row r) = c # t \<and> c \<noteq> CHR ''#''"
    using trim_keeps_head [OF c(2)] by (fastforce simp: render_row_def)
qed

lemma parse_lines_rendered:
  "\<forall>r \<in> set rows. 10 \<le> length (row_line r) \<and> length (row_line r) \<le> 300 \<and> CHR 0x09 \<notin> set (row_line r) \<Longrightarrow>
     parse_lines path n (map render_row rows) = Inr rows"
proof (induction rows arbitrary: n)
  case (Cons r rs)
  from Cons.prems parse_rendered(2) [of r] obtain c t where "trim (render_row r) = c # t" "c \<noteq> CHR ''#''" by auto
  with Cons parse_rendered(1) [of r path "n + 1"] show ?case by (simp add: starts_with_def)
qed simp

text \<open>The matrix file. A file the loader accepts gives exactly one row per destination, each
  with a description of 10 to 300 characters free of tabs and line breaks; and every such matrix,
  written out row by row, loads back to itself.\<close>

theorem matrix_roundtrip:
  "(\<forall>m. loadMatrix sha256 path txt = Inr m \<longrightarrow> well_formed_rows (matrix_rows m)) \<and>
   (well_formed_rows rows \<longrightarrow> loadMatrix sha256 path (render_matrix rows) =
      Inr \<lparr>matrix_rows = rows, fingerprint = slice 0 12 (sha256 (render_matrix rows))\<rparr>)"
proof (intro conjI allI impI)
  fix m assume "loadMatrix sha256 path txt = Inr m"
  then have p: "parse_lines path 0 (split_on (CHR 0x0A) txt) = Inr (matrix_rows m)"
      "check_destinations path (matrix_rows m) DESTINATIONS = Inr ()"
    by (auto simp: loadMatrix_def res_bind_Inr)
  from parse_lines_ok [OF p(1)] split_on_free p(2) show "well_formed_rows (matrix_rows m)"
    by (simp add: well_formed_rows_def check_destinations_ok)
next
  assume wf: "well_formed_rows rows"
  have "rows \<noteq> []" using wf by (auto simp: well_formed_rows_def)
  moreover have "CHR 0x0A \<notin> set (render_row r)" if "r \<in> set rows" for r
    using wf that by (cases "row_name r") (auto simp: well_formed_rows_def render_row_def)
  ultimately have "split_on (CHR 0x0A) (render_matrix rows) = map render_row rows"
    unfolding render_matrix_def by (intro split_on_join) auto
  moreover have "check_destinations path rows DESTINATIONS = Inr ()"
    using wf by (simp add: well_formed_rows_def check_destinations_ok)
  moreover have "parse_lines path 0 (map render_row rows) = Inr rows"
    using wf by (intro parse_lines_rendered) (simp add: well_formed_rows_def)
  ultimately show "loadMatrix sha256 path (render_matrix rows) =
      Inr \<lparr>matrix_rows = rows, fingerprint = slice 0 12 (sha256 (render_matrix rows))\<rparr>"
    by (simp add: loadMatrix_def)
qed

subsection \<open>Concrete decisions\<close>

definition sample_matrix :: route_matrix where
  "sample_matrix = \<lparr>matrix_rows = map (\<lambda>d. \<lparr>row_name = d, row_line = ''what belongs here'', row_commits = (d \<noteq> Steering)\<rparr>)
     DESTINATIONS, fingerprint = ''0123456789ab''\<rparr>"

definition sample_candidate :: route_candidate where
  "sample_candidate = \<lparr>cand_id = ''a'', cand_namespace = ''n'', candidateType = Is_preference,
     cand_content = ''always branch'', operatorText = None, unitKind = Exchange, anchorKind = Some Typed\<rparr>"

definition sample_answers :: "(string \<times> jev_answer) list" where
  "sample_answers = [(DEST_ID, ChoiceA ''rule'' [(''rule'', 9 / 10)] (9 / 10)), (ynId Rule, NoulA (8 / 10)),
     (ynId Decision, NoulA (1 / 10)), (ynId Fact, NoulA (1 / 10)), (ynId Correction, NoulA (1 / 10)),
     (ynId Steering, NoulA (1 / 10)), (RESTATES_ID, NoulA 0), (DROVE_DECISION_ID, NoulA (9 / 10)),
     (LASTING_ID, NoulA (9 / 10)), (DEST_V2_ID, ChoiceA ''rule'' [(''rule'', 9 / 10)] (9 / 10))]"

lemma sample_rows_distinct: "distinct (map row_name (matrix_rows sample_matrix))"
  by code_simp

lemma three_picks_decide_witness:
  "agreement (decideRoute (\<lambda>p. '''') sample_candidate sample_answers sample_matrix DEFAULT_THRESHOLDS) = High \<and>
   decided_for (decideRoute (\<lambda>p. '''') sample_candidate sample_answers sample_matrix DEFAULT_THRESHOLDS) = Some Rule \<and>
   (\<exists>p. noulAnswer sample_answers (ynId Rule) = Some p \<and> 5 / 10 \<le> p)"
proof -
  let ?d = "decideRoute (\<lambda>p. '''') sample_candidate sample_answers sample_matrix DEFAULT_THRESHOLDS"
  have "agreement ?d = High" "decided_for ?d = Some Rule" by code_simp+
  moreover from this have "\<exists>p. noulAnswer sample_answers (ynId Rule) = Some p \<and> yesAt DEFAULT_THRESHOLDS \<le> p"
    using three_picks_decide [OF sample_rows_distinct, of "\<lambda>p. ''''" sample_candidate sample_answers DEFAULT_THRESHOLDS Rule]
    by blast
  ultimately show ?thesis by (simp add: DEFAULT_THRESHOLDS_def)
qed

lemma v2_writes_witness:
  "action (wouldApply (decideRouteV2 (\<lambda>p. '''') sample_candidate sample_answers sample_matrix DEFAULT_THRESHOLDS_V2)
     sample_matrix) = Rule_event \<and> unitKind sample_candidate = Exchange"
proof -
  let ?d = "decideRouteV2 (\<lambda>p. '''') sample_candidate sample_answers sample_matrix DEFAULT_THRESHOLDS_V2"
  have "action (wouldApply ?d sample_matrix) = Rule_event" by code_simp
  then show ?thesis using v2_writes_iff_cutoffs_pass [OF sample_rows_distinct refl] by blast
qed

lemma matrix_roundtrip_witness:
  "loadMatrix (\<lambda>s. ''0123456789abcdef'') ''m.tsv'' (render_matrix (matrix_rows sample_matrix)) = Inr sample_matrix"
proof -
  have "well_formed_rows (matrix_rows sample_matrix)"
    unfolding well_formed_rows_def
  proof
    show "\<forall>d. length (filter (\<lambda>r. row_name r = d) (matrix_rows sample_matrix)) = 1"
    proof
      fix d show "length (filter (\<lambda>r. row_name r = d) (matrix_rows sample_matrix)) = 1"
        by (cases d) (simp_all add: sample_matrix_def DESTINATIONS_def)
    qed
  qed (simp add: sample_matrix_def)
  with matrix_roundtrip [of "\<lambda>s. ''0123456789abcdef''" "''m.tsv''" "''''" "matrix_rows sample_matrix"]
  show ?thesis by (simp add: sample_matrix_def slice_def)
qed

text \<open>A matrix of one row, and an endpoint that answers its four questions for one record.\<close>

definition small_matrix :: route_matrix where
  "small_matrix = \<lparr>matrix_rows = [\<lparr>row_name = Rule, row_line = ''what belongs here'', row_commits = True\<rparr>],
     fingerprint = ''f''\<rparr>"

definition route_env :: jev_env where
  "route_env = \<lparr>url_protocol = (\<lambda>u. Inr ''https:''), jev_fetch = (\<lambda>u body. Fetched 200 (Inr body)),
     parse_response = (\<lambda>j. Inr \<lparr>resp_model = ''m'',
       resp_answers = [(''r0_c0'', ChoiceA ''rule'' [(''rule'', 1)] (9 / 10)), (''r0_c1'', NoulA (9 / 10)),
         (''r0_c2'', NoulA 0), (''r0_c3'', NoulA (9 / 10))], input_tokens = 1, output_tokens = 1\<rparr>)\<rparr>"

lemma executed_plan_always_signals_witness:
  "\<exists>plan out. buildJevBatchPlan [] [sample_record ''a''] (buildRouteClassifierSet small_matrix) (sample_config 2000) = Inr plan \<and>
     executeJevBatchPlan route_env (sample_config 2000) plan = Inr out \<and>
     length (reasons (decideRoute (\<lambda>p. '''') sample_candidate (the (map_of (answers out) ''a''))
       small_matrix DEFAULT_THRESHOLDS)) = 4"
proof -
  let ?p = "buildJevBatchPlan [] [sample_record ''a''] (buildRouteClassifierSet small_matrix) (sample_config 2000)"
  have "case ?p of Inr plan \<Rightarrow> (case executeJevBatchPlan route_env (sample_config 2000) plan of Inr out \<Rightarrow> True | Inl e \<Rightarrow> False)
      | Inl e \<Rightarrow> False"
    by code_simp
  then obtain plan out where p: "?p = Inr plan" "executeJevBatchPlan route_env (sample_config 2000) plan = Inr out"
    by (auto split: sum.splits)
  have "sample_record ''a'' \<in> set [sample_record ''a'']" by simp
  from executed_plan_always_signals [OF p(2) this refl] p show ?thesis by (auto simp: sample_record_def)
qed

end
