(* ===== verification/RouteCohort.thy ===== *)
theory RouteCohort
  imports DreamRoute
begin

text \<open>
  The cohort of a route run (\<open>server/domain/dream-route/run-core.ts\<close>,
  \<open>restates-pass.ts\<close>): reading frozen rows into candidates and records, keeping neighbours
  adjacent, the pairs the restates pass asks about, and the resolution of restatement groups to
  one survivor each.

  \<open>localeCompare\<close> is the argument \<open>lc\<close> (\<open>lc x y\<close> when \<open>x.localeCompare(y) <= 0\<close>) and
  \<open>Date.parse\<close> the argument \<open>parse_date\<close>. A \<open>Map\<close> from parents to their neighbours is read
  as the filter that fills it.
\<close>

subsection \<open>Rows and candidates\<close>

record candidate_snapshot =
  snap_id :: string
  snap_namespace :: string
  snap_type :: string
  snap_content :: string
  content_hash :: string
  operator_text :: "string option"
  snap_unit_kind :: string
  snap_anchor_kind :: "string option"
  first_said_at :: "string option"
  last_said_at :: "string option"
  source_turn_ids :: "string list"

datatype cohort_source = Neighbour | Draw | Labelled

record frozen_row =
  ordinal :: nat
  candidateId :: string
  frozen_namespace :: string
  contentHash :: string
  cohort :: cohort_source
  neighbourOf :: "string option"
  snapshot :: candidate_snapshot

definition CANDIDATE_TYPES :: "(string \<times> candidate_type) list" where
  "CANDIDATE_TYPES = [(''decision'', Is_decision), (''correction'', Is_correction), (''fact'', Is_fact),
     (''preference'', Is_preference)]"

definition UNIT_KINDS :: "(string \<times> unit_kind) list" where
  "UNIT_KINDS = [(''exchange'', Exchange), (''fragment'', Fragment)]"

definition ANCHOR_KINDS :: "(string \<times> anchor_kind) list" where
  "ANCHOR_KINDS = [(''typed'', Typed), (''askuserquestion'', Askuserquestion), (''orphan'', Orphan)]"

definition bad :: "string \<Rightarrow> string \<Rightarrow> string \<Rightarrow> 'a result" where
  "bad key field val = Inl (''candidate '' @ key @ '': '' @ field @ '' is missing or outside the contract: ''
     @ quote val)"

definition checkText :: "string \<Rightarrow> string \<Rightarrow> string \<Rightarrow> unit result" where
  "checkText key field val = (if val = '''' then bad key field val else Inr ())"

definition checkUnions :: "string \<Rightarrow> candidate_snapshot \<Rightarrow> unit result" where
  "checkUnions key s =
     (if map_of CANDIDATE_TYPES (snap_type s) = None then bad key ''candidate_type'' (snap_type s)
      else if map_of UNIT_KINDS (snap_unit_kind s) = None then bad key ''unit_kind'' (snap_unit_kind s)
      else case snap_anchor_kind s of
          None \<Rightarrow> Inr ()
        | Some a \<Rightarrow> if map_of ANCHOR_KINDS a = None then bad key ''anchor_kind'' a else Inr ())"

definition candidateOf :: "frozen_row \<Rightarrow> route_candidate result" where
  "candidateOf row =
     (let s = snapshot row; key = snap_id s
      in res_bind (checkText (candidateId row) ''id'' key) (\<lambda>_.
         res_bind (checkText key ''namespace'' (snap_namespace s)) (\<lambda>_.
         res_bind (checkText key ''content'' (snap_content s)) (\<lambda>_.
         res_bind (checkUnions key s) (\<lambda>_.
           Inr \<lparr>cand_id = key, cand_namespace = snap_namespace s,
                candidateType = the (map_of CANDIDATE_TYPES (snap_type s)), cand_content = snap_content s,
                operatorText = operator_text s, unitKind = the (map_of UNIT_KINDS (snap_unit_kind s)),
                anchorKind = Option.bind (snap_anchor_kind s) (map_of ANCHOR_KINDS)\<rparr>)))))"

definition recordOf :: "route_candidate \<Rightarrow> classifier_record" where
  "recordOf c =
     \<lparr>rec_key = cand_id c,
      rec_content = (case operatorText c of
          Some op \<Rightarrow> if trim op \<noteq> '''' then ''OPERATOR SAID: '' @ op @ [CHR 0x0A] @ ''ITEM: '' @ cand_content c
            else ''ITEM: '' @ cand_content c
        | None \<Rightarrow> ''ITEM: '' @ cand_content c),
      rec_fields = None\<rparr>"

fun unit_text :: "unit_kind \<Rightarrow> string" where
  "unit_text Exchange = ''exchange''"
| "unit_text Fragment = ''fragment''"

fun anchor_text :: "anchor_kind \<Rightarrow> string" where
  "anchor_text Typed = ''typed''"
| "anchor_text Askuserquestion = ''askuserquestion''"
| "anchor_text Orphan = ''orphan''"

definition recordOfV2 :: "route_candidate \<Rightarrow> classifier_record" where
  "recordOfV2 c =
     \<lparr>rec_key = cand_id c, rec_content = cand_content c,
      rec_fields = Some
        [(''operator_said'', operatorText c), (''distilled_item'', Some (cand_content c)),
         (''said_by'', Some (case operatorText c of
            None \<Rightarrow> ''not recorded''
          | Some op \<Rightarrow> if trim op = '''' then ''not recorded'' else ''the operator'')),
         (''unit_kind'', Some (unit_text (unitKind c))),
         (''anchor_kind'', map_option anchor_text (anchorKind c))]\<rparr>"

subsection \<open>Keeping neighbours together\<close>

definition present_ids :: "frozen_row list \<Rightarrow> string list" where
  "present_ids rows = map candidateId rows"

definition parent_in :: "frozen_row list \<Rightarrow> frozen_row \<Rightarrow> string option" where
  "parent_in rows r =
     (case neighbourOf r of
        Some p \<Rightarrow> if p \<noteq> candidateId r \<and> p \<in> set (present_ids rows) then Some p else None
      | None \<Rightarrow> None)"

definition siblings :: "(string \<Rightarrow> string \<Rightarrow> bool) \<Rightarrow> frozen_row list \<Rightarrow> string \<Rightarrow> frozen_row list" where
  "siblings lc rows p = sort_by (\<lambda>l r. lc (candidateId l) (candidateId r)) (filter (\<lambda>r. parent_in rows r = Some p) rows)"

definition roots :: "frozen_row list \<Rightarrow> frozen_row list" where
  "roots rows = filter (\<lambda>r. parent_in rows r = None) rows"

text \<open>
  The recursive \<open>emit\<close> with the rows it still has to visit in front: a row is emitted once, and
  its neighbours are visited before the rows that wait.
\<close>

function emit ::
  "(string \<Rightarrow> string \<Rightarrow> bool) \<Rightarrow> frozen_row list \<Rightarrow> frozen_row list \<Rightarrow> frozen_row list \<Rightarrow> frozen_row list" where
  "emit lc rows [] ordered = ordered"
| "emit lc rows (r # waiting) ordered =
     (if candidateId r \<in> candidateId ` set ordered then emit lc rows waiting ordered
      else emit lc rows (siblings lc rows (candidateId r) @ waiting) (ordered @ [r]))"
  by pat_completeness auto

definition emit_open :: "frozen_row list \<Rightarrow> frozen_row list \<Rightarrow> frozen_row list \<Rightarrow> string set" where
  "emit_open rows waiting ordered = candidateId ` (set rows \<union> set waiting) - candidateId ` set ordered"

lemma set_siblings: "set (siblings lc rows p) = {r \<in> set rows. parent_in rows r = Some p}"
  by (auto simp: siblings_def)

termination emit
proof (relation "measures [\<lambda>(lc, rows, waiting, ordered). card (emit_open rows waiting ordered),
    \<lambda>(lc, rows, waiting, ordered). length waiting]", goal_cases)
  case (2 lc rows r waiting ordered)
  then have "emit_open rows (r # waiting) ordered = emit_open rows waiting ordered"
    by (auto simp: emit_open_def)
  then show ?case by simp
next
  case (3 lc rows r waiting ordered)
  then have "emit_open rows (siblings lc rows (candidateId r) @ waiting) (ordered @ [r]) \<subset> emit_open rows (r # waiting) ordered"
    by (auto simp: emit_open_def set_siblings)
  then show ?case by (simp add: psubset_card_mono emit_open_def)
qed simp

definition orderForBatches :: "(string \<Rightarrow> string \<Rightarrow> bool) \<Rightarrow> frozen_row list \<Rightarrow> frozen_row list" where
  "orderForBatches lc rows = emit lc rows rows (emit lc rows (roots rows) [])"

subsection \<open>Pairs for the restates pass\<close>

definition groupKeyOf :: "frozen_row \<Rightarrow> string list \<Rightarrow> string" where
  "groupKeyOf r present =
     (case neighbourOf r of
        Some p \<Rightarrow> if p \<noteq> candidateId r \<and> p \<in> set present then p else candidateId r
      | None \<Rightarrow> candidateId r)"

definition neighbourPairs :: "frozen_row list \<Rightarrow> (frozen_row \<times> frozen_row) list" where
  "neighbourPairs rows =
     (let byId = foldl (\<lambda>m e. AList.update (candidateId e) e m) [] rows;
          present = map fst byId
      in sort_by (\<lambda>a b. candidateId (fst a) \<le> candidateId (fst b))
           (concat (map (\<lambda>item. let key = groupKeyOf item present in
              case (if key = candidateId item then None else map_of byId key) of
                None \<Rightarrow> [] | Some m \<Rightarrow> [(item, m)]) rows)))"

subsection \<open>Restatement groups\<close>

record routed_row =
  routed :: frozen_row
  routed_decision :: route_decision
  routed_verdict :: would_apply

record resolved_apply = would_apply +
  reinforces :: "string option"

definition REINFORCEABLE :: "apply_action list" where
  "REINFORCEABLE = [Reinforce, Thought, Rule_event]"

text \<open>\<open>None\<close> is plus infinity: a row never said, or said at an unreadable time.\<close>

definition saidAt :: "(string \<Rightarrow> int option) \<Rightarrow> frozen_row \<Rightarrow> int option" where
  "saidAt parse_date r = Option.bind (first_said_at (snapshot r)) parse_date"

text \<open>The sign of \<open>saidAt(a) - saidAt(b)\<close>: infinity minus infinity is neither below nor equal to 0.\<close>

definition said_before :: "int option \<Rightarrow> int option \<Rightarrow> bool" where
  "said_before a b = (case (a, b) of (Some x, Some y) \<Rightarrow> x < y | (Some x, None) \<Rightarrow> True | _ \<Rightarrow> False)"

definition said_together :: "int option \<Rightarrow> int option \<Rightarrow> bool" where
  "said_together a b = (case (a, b) of (Some x, Some y) \<Rightarrow> x = y | _ \<Rightarrow> False)"

definition better ::
  "(string \<Rightarrow> string \<Rightarrow> bool) \<Rightarrow> (string \<Rightarrow> int option) \<Rightarrow> routed_row \<Rightarrow> routed_row \<Rightarrow> routed_row" where
  "better lc parse_date best m =
     (let a = saidAt parse_date (routed m); b = saidAt parse_date (routed best)
      in if said_before a b then m
         else if said_together a b \<and> \<not> lc (candidateId (routed best)) (candidateId (routed m)) then m
         else best)"

definition survivorOf ::
  "(string \<Rightarrow> string \<Rightarrow> bool) \<Rightarrow> (string \<Rightarrow> int option) \<Rightarrow> routed_row list \<Rightarrow> routed_row option" where
  "survivorOf lc parse_date members =
     foldl (\<lambda>best m. case best of None \<Rightarrow> Some m | Some b \<Rightarrow> Some (better lc parse_date b m)) None
       (filter (\<lambda>m. action (routed_verdict m) \<in> set REINFORCEABLE) members)"

definition groups_of :: "routed_row list \<Rightarrow> (string, routed_row list) jsmap" where
  "groups_of rs =
     (let present = map (\<lambda>e. candidateId (routed e)) rs
      in foldl (\<lambda>m e. let key = groupKeyOf (routed e) present
            in AList.update key ((case map_of m key of Some ms \<Rightarrow> ms | None \<Rightarrow> []) @ [e]) m) [] rs)"

definition resolve_member ::
  "(routed_row \<Rightarrow> would_apply) \<Rightarrow> routed_row option \<Rightarrow> routed_row \<Rightarrow> resolved_apply" where
  "resolve_member recompute survivor m =
     (let v = routed_verdict m
      in if action v \<noteq> Reinforce
         then \<lparr>action = action v, apply_reason = apply_reason v, reinforces = None\<rparr>
         else case survivor of
             Some s \<Rightarrow>
               if candidateId (routed s) \<noteq> candidateId (routed m)
               then \<lparr>action = action v, apply_reason = apply_reason v, reinforces = Some (candidateId (routed s))\<rparr>
               else \<lparr>action = action (recompute m), apply_reason = apply_reason (recompute m)
                      @ '' It is the earliest-said member of its group, so it is the one kept.'', reinforces = None\<rparr>
           | None \<Rightarrow> \<lparr>action = action (recompute m), apply_reason = apply_reason (recompute m)
                      @ '' Nothing else in the cohort says it, so it is kept.'', reinforces = None\<rparr>)"

definition resolveRestatementGroups ::
  "(string \<Rightarrow> string \<Rightarrow> bool) \<Rightarrow> (string \<Rightarrow> int option) \<Rightarrow> routed_row list \<Rightarrow> (routed_row \<Rightarrow> would_apply) \<Rightarrow>
     (string, resolved_apply) jsmap" where
  "resolveRestatementGroups lc parse_date rs recompute =
     foldl (\<lambda>resolved (key, members).
       let survivor = (if length members > 1 then survivorOf lc parse_date members else None)
       in foldl (\<lambda>acc m. AList.update (candidateId (routed m)) (resolve_member recompute survivor m) acc)
            resolved members) [] (groups_of rs)"

definition withoutRestates :: "route_matrix \<Rightarrow> routed_row \<Rightarrow> would_apply" where
  "withoutRestates m e = wouldApply (routed_decision e\<lparr>restates := False\<rparr>) m"

subsection \<open>The order is a permutation that keeps neighbours adjacent\<close>

declare emit.simps(2) [simp del]

lemma emit_emitted: "candidateId r \<in> candidateId ` set ordered \<Longrightarrow> emit lc rows (r # w) ordered = emit lc rows w ordered"
  by (simp add: emit.simps)

lemma emit_fresh: "candidateId r \<notin> candidateId ` set ordered \<Longrightarrow>
    emit lc rows (r # w) ordered = emit lc rows (siblings lc rows (candidateId r) @ w) (ordered @ [r])"
  by (simp add: emit.simps)

lemma emit_spec:
  "distinct (map candidateId ordered) \<Longrightarrow> set ordered \<subseteq> set rows \<Longrightarrow> set w \<subseteq> set rows \<Longrightarrow>
     distinct (map candidateId (emit lc rows w ordered)) \<and> set (emit lc rows w ordered) \<subseteq> set rows \<and>
     candidateId ` (set w \<union> set ordered) \<subseteq> candidateId ` set (emit lc rows w ordered)"
proof (induction lc rows w ordered rule: emit.induct)
  case (2 lc rows r w ordered)
  show ?case
  proof (cases "candidateId r \<in> candidateId ` set ordered")
    case True
    have "set w \<subseteq> set rows" using 2(5) by simp
    from 2(1) [OF True 2(3) 2(4) this] True show ?thesis by (auto simp: emit_emitted)
  next
    case False
    have "distinct (map candidateId (ordered @ [r]))" "set (ordered @ [r]) \<subseteq> set rows"
        "set (siblings lc rows (candidateId r) @ w) \<subseteq> set rows"
      using 2(3-5) False by (auto simp: set_siblings)
    from 2(2) [OF False this] show ?thesis by (auto simp: emit_fresh [OF False])
  qed
qed simp

definition flat_cohort :: "frozen_row list \<Rightarrow> bool" where
  "flat_cohort rows \<longleftrightarrow> (\<forall>r \<in> set rows. \<forall>q \<in> set rows.
     parent_in rows r = Some (candidateId q) \<longrightarrow> parent_in rows q = None)"

definition block :: "(string \<Rightarrow> string \<Rightarrow> bool) \<Rightarrow> frozen_row list \<Rightarrow> frozen_row \<Rightarrow> frozen_row list" where
  "block lc rows r = r # siblings lc rows (candidateId r)"

lemma emit_leaves:
  assumes "set xs \<subseteq> set rows" "distinct xs" "set xs \<inter> set ordered = {}" "set ordered \<subseteq> set rows"
    and "inj_on candidateId (set rows)" "\<forall>x \<in> set xs. siblings lc rows (candidateId x) = []"
  shows "emit lc rows (xs @ w) ordered = emit lc rows w (ordered @ xs)"
  using assms
proof (induction xs arbitrary: ordered)
  case (Cons x xs)
  have "candidateId x \<notin> candidateId ` set ordered"
    using Cons.prems by (auto dest: inj_onD)
  then have "emit lc rows ((x # xs) @ w) ordered = emit lc rows (xs @ w) (ordered @ [x])"
    using Cons.prems(6) by (simp add: emit_fresh)
  also have "\<dots> = emit lc rows w ((ordered @ [x]) @ xs)"
    using Cons.prems by (intro Cons.IH) auto
  finally show ?case by simp
qed simp

lemma emit_roots:
  assumes inj: "inj_on candidateId (set rows)" and flat: "flat_cohort rows" and dist: "distinct rows"
  shows "set rs \<subseteq> set (roots rows) \<Longrightarrow> distinct rs \<Longrightarrow> set ordered \<subseteq> set rows \<Longrightarrow>
     \<forall>r \<in> set rs. set (block lc rows r) \<inter> set ordered = {} \<Longrightarrow>
     emit lc rows (rs @ w) ordered = emit lc rows w (ordered @ concat (map (block lc rows) rs))"
proof (induction rs arbitrary: ordered)
  case (Cons r rs)
  let ?s = "siblings lc rows (candidateId r)"
  have r: "r \<in> set rows" "parent_in rows r = None" using Cons.prems(1) by (auto simp: roots_def)
  have "r \<notin> set ordered" using Cons.prems(4) by (simp add: block_def)
  then have "candidateId r \<notin> candidateId ` set ordered"
    using r(1) Cons.prems(3) inj by (auto dest: inj_onD)
  then have "emit lc rows ((r # rs) @ w) ordered = emit lc rows (?s @ rs @ w) (ordered @ [r])"
    by (simp add: emit_fresh)
  also have "\<dots> = emit lc rows (rs @ w) ((ordered @ [r]) @ ?s)"
  proof (rule emit_leaves [OF _ _ _ _ inj])
    show "set ?s \<subseteq> set rows" by (auto simp: set_siblings)
    show "distinct ?s" using dist by (simp add: siblings_def)
    show "set ?s \<inter> set (ordered @ [r]) = {}"
      using Cons.prems(4) r(2) by (auto simp: block_def set_siblings)
    show "set (ordered @ [r]) \<subseteq> set rows" using Cons.prems(3) r(1) by simp
    show "\<forall>x \<in> set ?s. siblings lc rows (candidateId x) = []"
    proof
      fix x assume x: "x \<in> set ?s"
      then have "\<forall>y \<in> set rows. parent_in rows y \<noteq> Some (candidateId x)"
        using flat by (auto simp: flat_cohort_def set_siblings)
      then have "filter (\<lambda>y. parent_in rows y = Some (candidateId x)) rows = []" by (simp add: filter_empty_conv)
      then show "siblings lc rows (candidateId x) = []" by (simp add: siblings_def)
    qed
  qed
  also have "\<dots> = emit lc rows w (((ordered @ [r]) @ ?s) @ concat (map (block lc rows) rs))"
  proof (rule Cons.IH)
    show "set rs \<subseteq> set (roots rows)" "distinct rs" using Cons.prems by auto
    show "set ((ordered @ [r]) @ ?s) \<subseteq> set rows" using Cons.prems(3) r(1) by (auto simp: set_siblings)
    show "\<forall>q \<in> set rs. set (block lc rows q) \<inter> set ((ordered @ [r]) @ ?s) = {}"
    proof
      fix q assume q: "q \<in> set rs"
      then have q': "q \<in> set rows" "parent_in rows q = None" "q \<noteq> r" using Cons.prems by (auto simp: roots_def)
      then have "candidateId q \<noteq> candidateId r" using inj r(1) by (auto dest: inj_onD)
      with q q' r Cons.prems(4) show "set (block lc rows q) \<inter> set ((ordered @ [r]) @ ?s) = {}"
        by (auto simp: block_def set_siblings)
    qed
  qed
  finally show ?case by (simp add: block_def [of lc rows r])
qed simp

lemma emit_nothing_new: "candidateId ` set w \<subseteq> candidateId ` set ordered \<Longrightarrow> emit lc rows w ordered = ordered"
  by (induction w) (auto simp: emit_emitted)

lemma batch_order_keeps_neighbours':
  assumes ids: "distinct (map candidateId rows)"
  shows "mset (orderForBatches lc rows) = mset rows \<and>
    (flat_cohort rows \<longrightarrow> orderForBatches lc rows = concat (map (block lc rows) (roots rows)))"
proof
  have inj: "inj_on candidateId (set rows)" and dist: "distinct rows" using ids by (auto simp: distinct_map)
  let ?first = "emit lc rows (roots rows) []"
  have "set (roots rows) \<subseteq> set rows" by (auto simp: roots_def)
  from emit_spec [of "[]" rows "roots rows" lc] this
  have f: "distinct (map candidateId ?first)" "set ?first \<subseteq> set rows" by simp_all
  from emit_spec [OF f, of rows lc] have o: "distinct (map candidateId (orderForBatches lc rows))"
      "set (orderForBatches lc rows) \<subseteq> set rows"
      "candidateId ` set rows \<subseteq> candidateId ` set (orderForBatches lc rows)"
    by (auto simp: orderForBatches_def)
  have "r \<in> set (orderForBatches lc rows)" if r: "r \<in> set rows" for r
  proof -
    from r o(3) have "candidateId r \<in> candidateId ` set (orderForBatches lc rows)" by blast
    then obtain q where q: "q \<in> set (orderForBatches lc rows)" "candidateId r = candidateId q" by blast
    then have "r = q" using inj_onD [OF inj q(2) r] o(2) by blast
    with q(1) show ?thesis by simp
  qed
  with o(2) have "set (orderForBatches lc rows) = set rows" by blast
  moreover have "distinct (orderForBatches lc rows)" using o(1) by (simp add: distinct_map)
  ultimately show "mset (orderForBatches lc rows) = mset rows" using dist by (simp add: set_eq_iff_mset_eq_distinct)
  show "flat_cohort rows \<longrightarrow> orderForBatches lc rows = concat (map (block lc rows) (roots rows))"
  proof
    assume flat: "flat_cohort rows"
    have "distinct (roots rows)" using dist by (simp add: roots_def)
    with emit_roots [OF inj flat dist, of "roots rows" "[]" lc "[]"]
    have first: "?first = concat (map (block lc rows) (roots rows))" by simp
    have "candidateId r \<in> candidateId ` set ?first" if r: "r \<in> set rows" for r
    proof (cases "parent_in rows r")
      case None
      with r show ?thesis unfolding first by (auto simp: roots_def block_def)
    next
      case (Some p)
      then have "p \<in> set (present_ids rows)" by (auto simp: parent_in_def split: option.splits if_splits)
      then obtain q where q: "q \<in> set rows" "candidateId q = p" by (auto simp: present_ids_def)
      have "parent_in rows q = None" using flat r q Some unfolding flat_cohort_def by blast
      with q(1) have "q \<in> set (roots rows)" by (simp add: roots_def)
      moreover have "r \<in> set (block lc rows q)" using r Some q by (simp add: block_def set_siblings)
      ultimately show ?thesis unfolding first by auto
    qed
    then have "orderForBatches lc rows = ?first"
      unfolding orderForBatches_def by (intro emit_nothing_new) auto
    then show "orderForBatches lc rows = concat (map (block lc rows) (roots rows))" unfolding first .
  qed
qed

text \<open>Batching order. Over rows with distinct ids the order is a permutation of the rows; and
  when no neighbour has neighbours of its own, every drawn row is directly followed by exactly
  its neighbours, in candidate id order, so that the pairs the question compares are adjacent.\<close>

theorem batch_order_keeps_neighbours:
  assumes ids: "distinct (map candidateId rows)"
  shows "mset (orderForBatches lc rows) = mset rows \<and>
    (flat_cohort rows \<longrightarrow> orderForBatches lc rows = concat (map (block lc rows) (roots rows)))"
  using assms by (rule batch_order_keeps_neighbours')

subsection \<open>Restatement groups have one written survivor\<close>

definition group_step ::
  "string list \<Rightarrow> (string, routed_row list) jsmap \<Rightarrow> routed_row \<Rightarrow> (string, routed_row list) jsmap" where
  "group_step present m e = (let key = groupKeyOf (routed e) present
     in AList.update key ((case map_of m key of Some ms \<Rightarrow> ms | None \<Rightarrow> []) @ [e]) m)"

abbreviation group_key :: "routed_row list \<Rightarrow> routed_row \<Rightarrow> string" where
  "group_key rs e \<equiv> groupKeyOf (routed e) (map (\<lambda>e. candidateId (routed e)) rs)"

lemma groups_of_fold: "groups_of rs = foldl (group_step (map (\<lambda>e. candidateId (routed e)) rs)) [] rs"
  by (simp add: groups_of_def group_step_def [abs_def])

lemma mset_group_update:
  "distinct (map fst m) \<Longrightarrow>
     mset (concat (map snd (AList.update k ((case map_of m k of Some ms \<Rightarrow> ms | None \<Rightarrow> []) @ [e]) m))) =
     add_mset e (mset (concat (map snd m)))"
proof (induction m)
  case (Cons p m)
  show ?case
  proof (cases "fst p = k")
    case True
    then show ?thesis by (cases p) simp
  next
    case False
    with Cons show ?thesis by (cases p) auto
  qed
qed simp

lemma group_fold:
  "distinct (map fst (foldl (group_step present) [] es)) \<and>
   mset (concat (map snd (foldl (group_step present) [] es))) = mset es \<and>
   (\<forall>k. map_of (foldl (group_step present) [] es) k =
      (let ms = filter (\<lambda>e. groupKeyOf (routed e) present = k) es in if ms = [] then None else Some ms))"
proof (induction es rule: rev_induct)
  case (snoc e es)
  let ?m = "foldl (group_step present) [] es" and ?k = "groupKeyOf (routed e) present"
  have old: "(case map_of ?m ?k of Some ms \<Rightarrow> ms | None \<Rightarrow> []) = filter (\<lambda>e. groupKeyOf (routed e) present = ?k) es"
    using snoc by (auto simp: Let_def)
  let ?m' = "AList.update ?k (filter (\<lambda>e. groupKeyOf (routed e) present = ?k) es @ [e]) ?m"
  have step: "foldl (group_step present) [] (es @ [e]) = ?m'"
    by (simp add: group_step_def [of present ?m e] Let_def old)
  have "distinct (map fst ?m')" using snoc by (simp add: distinct_update)
  moreover have "mset (concat (map snd ?m')) = mset (es @ [e])"
    using snoc mset_group_update [of ?m ?k e, unfolded old] by simp
  moreover have "map_of ?m' k = (let ms = filter (\<lambda>e. groupKeyOf (routed e) present = k) (es @ [e])
      in if ms = [] then None else Some ms)" for k
    using snoc by (simp add: update_conv')
  ultimately show ?case unfolding step by blast
qed (simp add: Let_def)

lemma groups_of_spec:
  shows "mset (concat (map snd (groups_of rs))) = mset rs"
    and "(k, ms) \<in> set (groups_of rs) \<Longrightarrow> ms = filter (\<lambda>e. group_key rs e = k) rs"
    and "e \<in> set rs \<Longrightarrow> (group_key rs e, filter (\<lambda>f. group_key rs f = group_key rs e) rs) \<in> set (groups_of rs)"
proof -
  note spec = group_fold [of "map (\<lambda>e. candidateId (routed e)) rs" rs, folded groups_of_fold]
  from spec show "mset (concat (map snd (groups_of rs))) = mset rs" by blast
  show "ms = filter (\<lambda>e. group_key rs e = k) rs" if "(k, ms) \<in> set (groups_of rs)"
  proof -
    from that spec [THEN conjunct1] have "map_of (groups_of rs) k = Some ms"
      by (simp only: map_of_eq_Some_iff)
    with spec [THEN conjunct2, THEN conjunct2, rule_format, of k] show ?thesis by (simp add: Let_def split: if_splits)
  qed
  show "(group_key rs e, filter (\<lambda>f. group_key rs f = group_key rs e) rs) \<in> set (groups_of rs)" if "e \<in> set rs"
  proof -
    have "filter (\<lambda>f. group_key rs f = group_key rs e) rs \<noteq> []" using that by (auto simp: filter_empty_conv)
    then have "map_of (groups_of rs) (group_key rs e) = Some (filter (\<lambda>f. group_key rs f = group_key rs e) rs)"
      using spec [THEN conjunct2, THEN conjunct2, rule_format, of "group_key rs e"] by (simp add: Let_def)
    then show ?thesis by (rule map_of_SomeD)
  qed
qed

definition group_survivor ::
  "(string \<Rightarrow> string \<Rightarrow> bool) \<Rightarrow> (string \<Rightarrow> int option) \<Rightarrow> routed_row list \<Rightarrow> routed_row option" where
  "group_survivor lc parse_date members = (if length members > 1 then survivorOf lc parse_date members else None)"

lemma foldl_concat_updates:
  "foldl (\<lambda>acc (key, members). foldl (\<lambda>acc m. AList.update (f m) (g members m) acc) acc members) acc gs =
   foldl (\<lambda>acc (m, v). AList.update (f m) v acc) acc
     (concat (map (\<lambda>(key, members). map (\<lambda>m. (m, g members m)) members) gs))"
proof (induction gs arbitrary: acc)
  case (Cons kg gs)
  obtain k ms where kg: "kg = (k, ms)" by (cases kg)
  have "foldl (\<lambda>acc (m, v). AList.update (f m) v acc) a (map (\<lambda>m. (m, g ms m)) xs) =
      foldl (\<lambda>acc m. AList.update (f m) (g ms m) acc) a xs" for a xs
    by (induction xs arbitrary: a) auto
  with Cons show ?case by (simp add: kg)
qed simp

lemma resolved_entry:
  assumes "distinct (map (\<lambda>e. candidateId (routed e)) rs)" "e \<in> set rs"
  shows "map_of (resolveRestatementGroups lc parse_date rs recompute) (candidateId (routed e)) =
    Some (resolve_member recompute
      (group_survivor lc parse_date (filter (\<lambda>f. group_key rs f = group_key rs e) rs)) e)"
proof -
  let ?id = "\<lambda>e. candidateId (routed e)"
  let ?g = "\<lambda>members m. resolve_member recompute (group_survivor lc parse_date members) m"
  let ?ps = "concat (map (\<lambda>(key, members). map (\<lambda>m. (m, ?g members m)) members) (groups_of rs))"
  have "resolveRestatementGroups lc parse_date rs recompute =
      foldl (\<lambda>acc (key, members). foldl (\<lambda>acc m. AList.update (?id m) (?g members m) acc) acc members) [] (groups_of rs)"
    by (simp add: resolveRestatementGroups_def group_survivor_def Let_def)
  also have "\<dots> = foldl (\<lambda>acc (m, v). AList.update (?id m) v acc) [] ?ps" by (rule foldl_concat_updates)
  finally have fold: "resolveRestatementGroups lc parse_date rs recompute =
      foldl (\<lambda>acc (m, v). AList.update (?id m) v acc) [] ?ps" .
  have fsts: "map fst ?ps = concat (map snd (groups_of rs))"
    by (simp add: map_concat comp_def case_prod_beta)
  have "mset (map ?id (map fst ?ps)) = mset (map ?id rs)"
    unfolding fsts using groups_of_spec(1) [of rs] by simp
  then have dist: "distinct (map ?id (map fst ?ps))"
    using assms(1) mset_eq_imp_distinct_iff by blast
  then have eq: "resolveRestatementGroups lc parse_date rs recompute = map (\<lambda>(m, v). (?id m, v)) ?ps"
    unfolding fold by (subst foldl_update_fresh) (simp_all add: comp_def)
  let ?ms = "filter (\<lambda>f. group_key rs f = group_key rs e) rs"
  have "(e, ?g ?ms e) \<in> set ?ps" using groups_of_spec(3) [OF assms(2)] assms(2) by force
  then have "(?id e, ?g ?ms e) \<in> set (resolveRestatementGroups lc parse_date rs recompute)" unfolding eq by force
  moreover have "distinct (map fst (resolveRestatementGroups lc parse_date rs recompute))"
    using dist unfolding eq by (simp add: comp_def case_prod_beta)
  ultimately show ?thesis by simp
qed

lemma survivorOf_mem:
  "survivorOf lc parse_date members = Some s \<Longrightarrow>
     s \<in> set members \<and> action (routed_verdict s) \<in> set REINFORCEABLE"
  "survivorOf lc parse_date members = None \<longleftrightarrow> (\<forall>e \<in> set members. action (routed_verdict e) \<notin> set REINFORCEABLE)"
proof -
  have fold: "\<exists>s. foldl (\<lambda>best m. case best of None \<Rightarrow> Some m | Some b \<Rightarrow> Some (better lc parse_date b m)) (Some b) xs = Some s \<and>
      (s = b \<or> s \<in> set xs)" for b xs
  proof (induction xs arbitrary: b)
    case (Cons x xs)
    from Cons.IH [of "better lc parse_date b x"] show ?case by (auto simp: better_def Let_def split: if_splits)
  qed simp
  let ?xs = "filter (\<lambda>m. action (routed_verdict m) \<in> set REINFORCEABLE) members"
  show "s \<in> set members \<and> action (routed_verdict s) \<in> set REINFORCEABLE"
    if "survivorOf lc parse_date members = Some s"
  proof (cases ?xs)
    case Nil
    with that show ?thesis by (simp add: survivorOf_def)
  next
    case (Cons b xs)
    with that fold [of b xs] have "s \<in> set ?xs" unfolding survivorOf_def Cons by auto
    then show ?thesis by simp
  qed
  show "survivorOf lc parse_date members = None \<longleftrightarrow> (\<forall>e \<in> set members. action (routed_verdict e) \<notin> set REINFORCEABLE)"
  proof (cases ?xs)
    case Nil
    then show ?thesis by (simp add: survivorOf_def filter_empty_conv)
  next
    case (Cons b xs)
    with fold [of b xs] have "survivorOf lc parse_date members \<noteq> None" unfolding survivorOf_def Cons by auto
    moreover have "b \<in> set ?xs" by (simp add: Cons)
    ultimately show ?thesis by auto
  qed
qed

lemma withoutRestates_writes:
  assumes "routed_verdict e = wouldApply (routed_decision e) m" "action (routed_verdict e) = Reinforce"
  shows "action (withoutRestates m e) \<in> {Thought, Rule_event}"
  using assms by (auto simp: wouldApply_def withoutRestates_def split: option.splits if_splits)

text \<open>Restatements point at what is written. For verdicts read off the decisions, over rows
  with distinct ids, every row gets one resolved verdict; a row that would write nothing still
  writes nothing, a row that would write still does; and each reinforcement names another row of
  the same group whose own verdict writes a memory, never a row that is itself a reinforcement.\<close>

theorem restatements_point_at_what_is_written:
  assumes ids: "distinct (map (\<lambda>e. candidateId (routed e)) rs)"
    and verdicts: "\<forall>e \<in> set rs. routed_verdict e = wouldApply (routed_decision e) m" and e: "e \<in> set rs"
  shows "\<exists>v. map_of (resolveRestatementGroups lc parse_date rs (withoutRestates m)) (candidateId (routed e)) = Some v \<and>
    (action v = Nothing \<longleftrightarrow> action (routed_verdict e) = Nothing) \<and>
    (action v = Reinforce \<longleftrightarrow> reinforces v \<noteq> None) \<and>
    (\<forall>t. reinforces v = Some t \<longrightarrow> (\<exists>s \<in> set rs. candidateId (routed s) = t \<and> t \<noteq> candidateId (routed e) \<and>
       group_key rs s = group_key rs e \<and>
       (\<exists>w. map_of (resolveRestatementGroups lc parse_date rs (withoutRestates m)) t = Some w \<and>
          action w \<in> {Thought, Rule_event})))"
proof -
  let ?group = "\<lambda>e. filter (\<lambda>f. group_key rs f = group_key rs e) rs"
  let ?surv = "\<lambda>e. group_survivor lc parse_date (?group e)"
  let ?v = "\<lambda>e. resolve_member (withoutRestates m) (?surv e) e"
  note entry = resolved_entry [OF ids, of _ lc parse_date "withoutRestates m"]
  have kept: "action (?v s) \<in> {Thought, Rule_event}"
    if s: "s \<in> set rs" "action (routed_verdict s) \<in> set REINFORCEABLE" "?surv s = Some s" for s
    using s withoutRestates_writes [of s m] verdicts
    by (auto simp: resolve_member_def Let_def REINFORCEABLE_def)
  have surv: "s \<in> set rs \<and> group_key rs s = group_key rs e \<and> action (routed_verdict s) \<in> set REINFORCEABLE \<and> ?surv s = Some s"
    if "?surv e = Some s" for s
  proof -
    from that have "survivorOf lc parse_date (?group e) = Some s" by (auto simp: group_survivor_def split: if_splits)
    from survivorOf_mem(1) [OF this] have s: "s \<in> set rs" "group_key rs s = group_key rs e"
      "action (routed_verdict s) \<in> set REINFORCEABLE" by auto
    then have "?group s = ?group e" by simp
    with s that show ?thesis by simp
  qed
  have wr: "action (routed_verdict e) = Reinforce \<Longrightarrow> action (withoutRestates m e) \<in> {Thought, Rule_event}"
    using withoutRestates_writes [of e m] verdicts e by blast
  have "action (?v e) = Nothing \<longleftrightarrow> action (routed_verdict e) = Nothing"
    using wr by (auto simp: resolve_member_def Let_def split: option.splits)
  moreover have "action (?v e) = Reinforce \<longleftrightarrow> reinforces (?v e) \<noteq> None"
    using wr by (auto simp: resolve_member_def Let_def split: option.splits)
  moreover have "\<exists>s \<in> set rs. candidateId (routed s) = t \<and> t \<noteq> candidateId (routed e) \<and> group_key rs s = group_key rs e \<and>
       (\<exists>w. map_of (resolveRestatementGroups lc parse_date rs (withoutRestates m)) t = Some w \<and> action w \<in> {Thought, Rule_event})"
    if t: "reinforces (?v e) = Some t" for t
  proof -
    from t obtain s where s: "?surv e = Some s" "candidateId (routed s) = t" "t \<noteq> candidateId (routed e)"
      by (auto simp: resolve_member_def Let_def split: option.splits if_splits)
    from surv [OF s(1)] have s': "s \<in> set rs" "group_key rs s = group_key rs e"
      "action (routed_verdict s) \<in> set REINFORCEABLE" "?surv s = Some s" by auto
    from entry [OF s'(1)] s(2) kept [OF s'(1,3,4)] s s'(1,2) show ?thesis by blast
  qed
  ultimately show ?thesis using entry [OF e] by blast
qed

subsection \<open>Concrete cohorts\<close>

definition sample_frozen :: "string \<Rightarrow> string option \<Rightarrow> string option \<Rightarrow> frozen_row" where
  "sample_frozen i parent said = \<lparr>ordinal = 0, candidateId = i, frozen_namespace = ''n'', contentHash = i,
     cohort = Draw, neighbourOf = parent,
     snapshot = \<lparr>snap_id = i, snap_namespace = ''n'', snap_type = ''fact'', snap_content = ''c'', content_hash = i,
       operator_text = None, snap_unit_kind = ''exchange'', snap_anchor_kind = None, first_said_at = said,
       last_said_at = None, source_turn_ids = []\<rparr>\<rparr>"

definition sample_cohort :: "frozen_row list" where
  "sample_cohort = [sample_frozen ''c'' (Some ''a'') None, sample_frozen ''d'' None None, sample_frozen ''a'' None None,
     sample_frozen ''b'' (Some ''a'') None]"

lemma batch_order_keeps_neighbours_witness:
  "map candidateId (orderForBatches (\<le>) sample_cohort) = [''d'', ''a'', ''b'', ''c''] \<and>
   orderForBatches (\<le>) sample_cohort = concat (map (block (\<le>) sample_cohort) (roots sample_cohort))"
proof
  show "map candidateId (orderForBatches (\<le>) sample_cohort) = [''d'', ''a'', ''b'', ''c'']" by code_simp
  have ids: "distinct (map candidateId sample_cohort)" by code_simp
  have "flat_cohort sample_cohort" unfolding flat_cohort_def by code_simp
  with batch_order_keeps_neighbours [OF ids]
  show "orderForBatches (\<le>) sample_cohort = concat (map (block (\<le>) sample_cohort) (roots sample_cohort))" by blast
qed

definition restating :: route_decision where
  "restating = \<lparr>decided_candidate = '''', decided_for = Some Fact, agreement = High, authorityTier = Observed,
     restates = True, droveDecision = False, reasons = [], raw_answers = []\<rparr>"

definition restating_row :: "frozen_row \<Rightarrow> routed_row" where
  "restating_row r = \<lparr>routed = r, routed_decision = restating, routed_verdict = wouldApply restating sample_matrix\<rparr>"

definition restating_pair :: "string option \<Rightarrow> routed_row list" where
  "restating_pair said = map restating_row [sample_frozen ''b'' None said, sample_frozen ''a'' (Some ''b'') said]"

definition dates :: "string \<Rightarrow> int option" where
  "dates s = (if s = ''2026'' then Some 2026 else None)"

lemma restatements_point_at_what_is_written_witness:
  "map_option reinforces (map_of (resolveRestatementGroups (\<le>) dates (restating_pair (Some ''2026''))
       (withoutRestates sample_matrix)) ''b'') = Some (Some ''a'') \<and>
   (\<exists>w. map_of (resolveRestatementGroups (\<le>) dates (restating_pair (Some ''2026'')) (withoutRestates sample_matrix)) ''a'' =
      Some w \<and> action w \<in> {Thought, Rule_event})"
proof -
  let ?rs = "restating_pair (Some ''2026'')"
  let ?b = "restating_row (sample_frozen ''b'' None (Some ''2026''))"
  have b: "map_option reinforces (map_of (resolveRestatementGroups (\<le>) dates ?rs (withoutRestates sample_matrix)) ''b'')
      = Some (Some ''a'')" by code_simp
  have ids: "distinct (map (\<lambda>e. candidateId (routed e)) ?rs)" by code_simp
  have v: "\<forall>e \<in> set ?rs. routed_verdict e = wouldApply (routed_decision e) sample_matrix"
    by (simp add: restating_pair_def restating_row_def)
  have mem: "?b \<in> set ?rs" by (simp add: restating_pair_def)
  have "candidateId (routed ?b) = ''b''" by (simp add: restating_row_def sample_frozen_def)
  with restatements_point_at_what_is_written [OF ids v mem, of "(\<le>)" dates] b show ?thesis by auto
qed

text \<open>An undated tie is not broken by id. Of two members of a group said at the same known time
  the one with the lower id survives, whatever the order of the rows; but when neither time is
  known, infinity minus infinity is not a number, no comparison holds, and the row that comes
  first survives although its id is the higher one.\<close>

theorem undated_tie_keeps_the_first:
  "map_option (\<lambda>s. candidateId (routed s)) (survivorOf (\<le>) dates (restating_pair (Some ''2026''))) = Some ''a'' \<and>
   map_option (\<lambda>s. candidateId (routed s)) (survivorOf (\<le>) dates (rev (restating_pair (Some ''2026'')))) = Some ''a'' \<and>
   map_option (\<lambda>s. candidateId (routed s)) (survivorOf (\<le>) dates (restating_pair None)) = Some ''b''"
  by (intro conjI; code_simp)

end
