(* ===== verification/RouteExecute.thy ===== *)
theory RouteExecute
  imports DreamRoute
begin

text \<open>
  Executing a route run (\<open>server/domain/dream-route/run-execute.ts\<close>, and \<open>splitPlan\<close> and
  \<open>projectCost\<close> of \<open>run-core.ts\<close>): planning with the records that cannot fit left out,
  splitting a plan into lanes, and running the lanes so that a failed one costs its own records
  only. The log lines are not modelled. The lanes run concurrently in the code; they share
  nothing and are merged in their own order once all have settled, so the model runs them in
  that order. Token and dollar estimates are exact rationals.
\<close>

subsection \<open>Planning with drops\<close>

definition SHARED_TASK :: string where
  "SHARED_TASK = ''Sort each record into where it belongs in long-term memory. ''
     @ ''Records that sit next to each other may say the same thing.''"

definition TOO_LARGE_REASON :: string where
  "TOO_LARGE_REASON = ''no signal: record too large for one request''"

definition is_line_end :: "char \<Rightarrow> bool" where
  "is_line_end c = (c = CHR 0x0A \<or> c = CHR 0x0D)"

text \<open>
  The match of \<open>/Jev classifier record (.+) exceeds/\<close>: the leftmost place it matches, and there
  the longest group, within one line.
\<close>

fun longest_group :: "string \<Rightarrow> string option" where
  "longest_group [] = None"
| "longest_group (c # cs) =
     (if is_line_end c then None
      else case longest_group cs of
          Some g \<Rightarrow> Some (c # g)
        | None \<Rightarrow> if starts_with '' exceeds'' cs then Some [c] else None)"

definition record_prefix :: string where "record_prefix = ''Jev classifier record ''"

fun named_key :: "string \<Rightarrow> string option" where
  "named_key [] = None"
| "named_key (c # cs) =
     (case (if starts_with record_prefix (c # cs) then longest_group (drop (length record_prefix) (c # cs)) else None) of
        Some g \<Rightarrow> Some g
      | None \<Rightarrow> named_key cs)"

definition tooLargeKey :: "jev_error \<Rightarrow> classifier_record list \<Rightarrow> string option" where
  "tooLargeKey e remaining =
     (case find (\<lambda>r. Some (rec_key r) = named_key (err_message e)) remaining of
        Some r \<Rightarrow> Some (rec_key r)
      | None \<Rightarrow> (case remaining of [] \<Rightarrow> None | r # rs \<Rightarrow> Some (rec_key r)))"

definition is_too_large :: "jev_error \<Rightarrow> bool" where
  "is_too_large e = (err_name e = ''JevBatchTooLargeError'')"

lemma tooLargeKey_mem: "tooLargeKey e remaining = Some k \<Longrightarrow> k \<in> rec_key ` set remaining"
  by (auto simp: tooLargeKey_def find_Some_iff split: option.splits list.splits)

function drop_loop ::
  "classifier_record list \<Rightarrow> classifier_set \<Rightarrow> jev_config \<Rightarrow> string list \<Rightarrow>
     jev_error + jev_plan \<times> string list" where
  "drop_loop remaining cs config dropped =
     (case buildJevBatchPlan [(''task'', JStr SHARED_TASK)] remaining cs config of
        Inr plan \<Rightarrow> Inr (plan, dropped)
      | Inl e \<Rightarrow>
          if \<not> is_too_large e then Inl e
          else case tooLargeKey e remaining of
            None \<Rightarrow> Inl e
          | Some k \<Rightarrow>
              let remaining' = filter (\<lambda>r. rec_key r \<noteq> k) remaining
              in if remaining' = [] then Inr (\<lparr>classifierSet = cs, batches = []\<rparr>, dropped @ [k])
                 else drop_loop remaining' cs config (dropped @ [k]))"
  by pat_completeness auto
termination
proof (relation "measure (\<lambda>(remaining, cs, config, dropped). length remaining)")
  fix remaining :: "classifier_record list" and e k and x :: "classifier_record list"
  assume "tooLargeKey e remaining = Some k" "x = filter (\<lambda>r. rec_key r \<noteq> k) remaining"
  then show "((x, cs, config, dropped @ [k]), remaining, cs, config, dropped)
      \<in> measure (\<lambda>(remaining, cs, config, dropped). length remaining)" for cs config dropped
    using tooLargeKey_mem [of e remaining k] by (auto simp: length_filter_less)
qed simp

declare drop_loop.simps [simp del]

text \<open>Every dropped record carries the reason \<open>TOO_LARGE_REASON\<close>, so the model keeps its key.\<close>

definition planWithDrops ::
  "classifier_record list \<Rightarrow> classifier_set \<Rightarrow> jev_config \<Rightarrow> jev_error + jev_plan \<times> (string \<times> string) list" where
  "planWithDrops records cs config =
     res_bind (drop_loop records cs config [])
       (\<lambda>(plan, dropped). Inr (plan, map (\<lambda>k. (k, TOO_LARGE_REASON)) dropped))"

subsection \<open>Cost and lanes\<close>

definition CHARS_PER_TOKEN :: rat where "CHARS_PER_TOKEN = 36 / 10"
definition USD_PER_MILLION_INPUT_TOKENS :: rat where "USD_PER_MILLION_INPUT_TOKENS = 42 / 1000"

record cost_projection =
  cost_requests :: nat
  cost_bytes :: nat
  estimatedTokens :: int
  estimatedUsd :: rat

definition projectCost :: "jev_plan \<Rightarrow> cost_projection" where
  "projectCost plan =
     (let bytes = sum_list (map estimatedRequestBytes (batches plan));
          tokens = \<lceil>of_nat bytes / CHARS_PER_TOKEN\<rceil>
      in \<lparr>cost_requests = length (batches plan), cost_bytes = bytes, estimatedTokens = tokens,
          estimatedUsd = (of_int tokens / 1000000) * USD_PER_MILLION_INPUT_TOKENS\<rparr>)"

definition show_int :: "int \<Rightarrow> string" where
  "show_int i = (if i < 0 then ''-'' @ show_nat (nat (- i)) else show_nat (nat i))"

fun deal :: "nat \<Rightarrow> nat \<Rightarrow> 'b list \<Rightarrow> 'b list list \<Rightarrow> 'b list list" where
  "deal lanes index [] buckets = buckets"
| "deal lanes index (b # bs) buckets =
     deal lanes (Suc index) bs (buckets[index mod lanes := buckets ! (index mod lanes) @ [b]])"

definition splitPlan :: "jev_plan \<Rightarrow> int \<Rightarrow> jev_plan list result" where
  "splitPlan plan inFlight =
     (if inFlight < 1 then Inl (''inFlight must be an integer of at least 1, got '' @ show_int inFlight)
      else let lanes = min (nat inFlight) (length (batches plan));
               buckets = deal lanes 0 (batches plan) (replicate lanes [])
        in Inr (map (\<lambda>bs. \<lparr>classifierSet = classifierSet plan, batches = bs\<rparr>) buckets))"

subsection \<open>Running the lanes\<close>

record lane_outcome =
  lane_answers :: "(string, (string, jev_answer) jsmap) jsmap"
  lane_models :: "(string, string) jsmap"
  lane_tokens :: nat
  failures :: "(string, string) jsmap"

definition EMPTY_OUTCOME :: lane_outcome where
  "EMPTY_OUTCOME = \<lparr>lane_answers = [], lane_models = [], lane_tokens = 0, failures = []\<rparr>"

definition laneKeys :: "jev_plan \<Rightarrow> string list" where
  "laneKeys plan = concat (map (\<lambda>b. map rec_key (batch_records b)) (batches plan))"

definition put_all :: "('k \<times> 'v) list \<Rightarrow> ('k, 'v) jsmap \<Rightarrow> ('k, 'v) jsmap" where
  "put_all kvs m = foldl (\<lambda>acc (k, v). AList.update k v acc) m kvs"

definition settle :: "jev_error + jev_outcome \<Rightarrow> jev_plan \<Rightarrow> lane_outcome \<Rightarrow> lane_outcome" where
  "settle r plan acc =
     (case r of
        Inl e \<Rightarrow> acc\<lparr>failures := put_all (map (\<lambda>k. (k, ''no signal: request failed: '' @ err_message e))
                   (laneKeys plan)) (failures acc)\<rparr>
      | Inr v \<Rightarrow> acc\<lparr>lane_tokens := lane_tokens acc + inputTokens v,
                   lane_answers := put_all (answers v) (lane_answers acc),
                   lane_models := put_all (servedModels v) (lane_models acc)\<rparr>)"

definition runLanes :: "jev_env \<Rightarrow> jev_config \<Rightarrow> jev_plan list \<Rightarrow> lane_outcome" where
  "runLanes env config plans =
     foldl (\<lambda>acc plan. settle (executeJevBatchPlan env config plan) plan acc) EMPTY_OUTCOME plans"

text \<open>The no-signal decision of a record that was dropped or whose request failed.\<close>

definition failedDecision :: "route_candidate \<Rightarrow> string \<Rightarrow> authority_tier \<Rightarrow> route_decision" where
  "failedDecision c reason tier =
     \<lparr>decided_candidate = cand_id c, decided_for = None, agreement = NoAgreement, authorityTier = tier,
      restates = False, droveDecision = False, reasons = [reason], raw_answers = []\<rparr>"

subsection \<open>Dropping terminates with the largest plan\<close>

lemma longest_group_key:
  assumes "k \<noteq> []" "\<forall>c \<in> set k. \<not> is_line_end c"
  shows "longest_group (k @ '' exceeds configured byte ceilings'') = Some k"
  using assms
proof (induction k rule: list_nonempty_induct)
  case (single c)
  have "longest_group '' exceeds configured byte ceilings'' = None"
    "starts_with '' exceeds'' '' exceeds configured byte ceilings''" by code_simp+
  with single show ?case by simp
qed simp

lemma named_key_too_large:
  assumes "k \<noteq> []" "\<forall>c \<in> set k. \<not> is_line_end c"
  shows "named_key (err_message (JevBatchTooLargeError k)) = Some k"
proof -
  have m: "err_message (JevBatchTooLargeError k) = record_prefix @ k @ '' exceeds configured byte ceilings''"
    by (simp add: JevBatchTooLargeError_def record_prefix_def)
  have "named_key (record_prefix @ r) = longest_group r" if "longest_group r \<noteq> None" for r
    using that unfolding record_prefix_def by (auto simp: starts_with_def record_prefix_def)
  with longest_group_key [OF assms] show ?thesis by (simp add: m)
qed

definition clean_key :: "string \<Rightarrow> bool" where
  "clean_key k \<longleftrightarrow> k \<noteq> [] \<and> (\<forall>c \<in> set k. \<not> is_line_end c)"

lemma tooLargeKey_named:
  assumes "r \<in> set remaining" "clean_key (rec_key r)"
  shows "tooLargeKey (JevBatchTooLargeError (rec_key r)) remaining = Some (rec_key r)"
proof -
  have n: "named_key (err_message (JevBatchTooLargeError (rec_key r))) = Some (rec_key r)"
    using assms(2) by (intro named_key_too_large) (auto simp: clean_key_def)
  obtain q where "find (\<lambda>q. Some (rec_key q) = Some (rec_key r)) remaining = Some q"
    using assms(1) by (cases "find (\<lambda>q. Some (rec_key q) = Some (rec_key r)) remaining") (auto simp: find_None_iff)
  moreover from find_Some_iff' [OF this] have "rec_key q = rec_key r" by simp
  ultimately show ?thesis by (simp add: tooLargeKey_def n)
qed

lemma validate_error_name: "validateClassifierSet cs = Inl e \<Longrightarrow> err_name e = ''Error''"
proof -
  have q: "validateQuestion n q = Inl e \<Longrightarrow> err_name e = ''Error''" for n q e
    by (auto simp: validateQuestion_def validateChoiceCriteria_def validateScoreCriteria_def js_error_def
        split: if_splits jev_question.splits)
  have "validate_questions qs = Inl e \<Longrightarrow> err_name e = ''Error''" for qs
    by (induction qs) (auto simp: res_bind_Inl dest: q)
  then show "validateClassifierSet cs = Inl e \<Longrightarrow> err_name e = ''Error''"
    by (auto simp: validateClassifierSet_def js_error_def split: if_splits)
qed

abbreviation alone_too_large :: "classifier_set \<Rightarrow> jev_config \<Rightarrow> nat \<Rightarrow> classifier_record \<Rightarrow> bool" where
  "alone_too_large cs config s r \<equiv> \<not> batch_fits config
     (materializeBatch [(''task'', JStr SHARED_TASK)] cs (jev_model config) s [r])"

abbreviation route_batch :: "classifier_set \<Rightarrow> jev_config \<Rightarrow> jev_batch \<Rightarrow> bool" where
  "route_batch cs config b \<equiv> batch_fits config b \<and>
     (\<exists>s. b = materializeBatch [(''task'', JStr SHARED_TASK)] cs (jev_model config) s (batch_records b))"

lemma plan_error_kinds:
  assumes "buildJevBatchPlan [(''task'', JStr SHARED_TASK)] remaining cs config = Inl e"
  shows "if is_too_large e
    then \<exists>s < length remaining. e = JevBatchTooLargeError (rec_key (remaining ! s)) \<and>
      alone_too_large cs config s (remaining ! s)
    else validateClassifierSet cs = Inl e \<or> e = js_error ''Jev classifier records contain duplicate keys''"
  using buildJevBatchPlan_cases [where sharedState = "[(''task'', JStr SHARED_TASK)]" and records = remaining
      and cs = cs and limits = config]
  by (auto simp: assms is_too_large_def JevBatchTooLargeError_def js_error_def dest: validate_error_name)

lemma drop_loop_spec:
  "\<forall>r \<in> set remaining. clean_key (rec_key r) \<Longrightarrow>
   case drop_loop remaining cs config dropped of
     Inl e \<Rightarrow> validateClassifierSet cs = Inl e \<or> e = js_error ''Jev classifier records contain duplicate keys''
   | Inr (plan, out) \<Rightarrow> classifierSet plan = cs \<and> (\<exists>ds. out = dropped @ ds \<and>
       concat (map batch_records (batches plan)) = filter (\<lambda>r. rec_key r \<notin> set ds) remaining \<and>
       (\<forall>b \<in> set (batches plan). route_batch cs config b) \<and>
       (\<forall>k \<in> set ds. \<exists>r \<in> set remaining. rec_key r = k \<and> (\<exists>s < length remaining. alone_too_large cs config s r)))"
proof (induction remaining cs config dropped rule: drop_loop.induct)
  case (1 remaining cs config dropped)
  let ?plan = "buildJevBatchPlan [(''task'', JStr SHARED_TASK)] remaining cs config"
  show ?case
  proof (cases ?plan)
    case (Inr plan)
    then have "drop_loop remaining cs config dropped = Inr (plan, dropped)"
      by (subst drop_loop.simps) simp
    moreover from buildJevBatchPlan_cases [where sharedState = "[(''task'', JStr SHARED_TASK)]" and records = remaining
        and cs = cs and limits = config]
    have p: "classifierSet plan = cs" "concat (map batch_records (batches plan)) = remaining"
      "greedy (materializeBatch [(''task'', JStr SHARED_TASK)] cs (jev_model config)) (batch_fits config) 0 remaining
         (batches plan)"
      by (simp_all add: Inr)
    moreover have "\<forall>b \<in> set (batches plan). route_batch cs config b" using greedy_batches [OF p(3)] by blast
    ultimately show ?thesis by simp
  next
    case (Inl e)
    note kinds = plan_error_kinds [OF Inl]
    show ?thesis
    proof (cases "is_too_large e")
      case False
      with Inl have "drop_loop remaining cs config dropped = Inl e" by (subst drop_loop.simps) simp
      with kinds False show ?thesis by simp
    next
      case True
      with kinds obtain s where s: "s < length remaining" "e = JevBatchTooLargeError (rec_key (remaining ! s))"
        "alone_too_large cs config s (remaining ! s)" by auto
      define k where "k = rec_key (remaining ! s)"
      let ?rest = "filter (\<lambda>r. rec_key r \<noteq> k) remaining"
      have key: "tooLargeKey e remaining = Some k"
        using tooLargeKey_named [of "remaining ! s" remaining] s 1(2) by (simp add: k_def)
      have this_k: "\<exists>r \<in> set remaining. rec_key r = k \<and> (\<exists>s < length remaining. alone_too_large cs config s r)"
        using s nth_mem [OF s(1)] by (auto simp: k_def)
      show ?thesis
      proof (cases "?rest = []")
        case rest: True
        have "drop_loop remaining cs config dropped = Inr (\<lparr>classifierSet = cs, batches = []\<rparr>, dropped @ [k])"
          by (subst drop_loop.simps) (simp add: Inl True key rest del: filter_empty_conv)
        moreover have "filter (\<lambda>r. rec_key r \<notin> set [k]) remaining = []" using rest by simp
        ultimately show ?thesis using this_k by auto
      next
        case False
        have run: "drop_loop remaining cs config dropped = drop_loop ?rest cs config (dropped @ [k])"
          by (subst drop_loop.simps) (simp add: Inl True key False Let_def del: filter_empty_conv)
        have IH: "case drop_loop ?rest cs config (dropped @ [k]) of
            Inl e \<Rightarrow> validateClassifierSet cs = Inl e \<or> e = js_error ''Jev classifier records contain duplicate keys''
          | Inr (plan, out) \<Rightarrow> classifierSet plan = cs \<and> (\<exists>ds. out = (dropped @ [k]) @ ds \<and>
              concat (map batch_records (batches plan)) = filter (\<lambda>r. rec_key r \<notin> set ds) ?rest \<and>
              (\<forall>b \<in> set (batches plan). route_batch cs config b) \<and>
              (\<forall>k \<in> set ds. \<exists>r \<in> set ?rest. rec_key r = k \<and> (\<exists>s < length ?rest. alone_too_large cs config s r)))"
          using 1(1) [OF Inl _ key refl False] True 1(2) by simp
        show ?thesis
        proof (cases "drop_loop ?rest cs config (dropped @ [k])")
          case (Inl e')
          with IH run show ?thesis by simp
        next
          case (Inr po)
          obtain plan out where po: "po = (plan, out)" by (cases po)
          from IH obtain ds where ds: "out = dropped @ k # ds"
              "concat (map batch_records (batches plan)) = filter (\<lambda>r. rec_key r \<notin> set ds) ?rest"
              "classifierSet plan = cs" "\<forall>b \<in> set (batches plan). route_batch cs config b"
              "\<forall>k \<in> set ds. \<exists>r \<in> set ?rest. rec_key r = k \<and> (\<exists>s < length ?rest. alone_too_large cs config s r)"
            by (auto simp: Inr po)
          have "concat (map batch_records (batches plan)) = filter (\<lambda>r. rec_key r \<notin> set (k # ds)) remaining"
            unfolding ds(2) by (simp add: conj_commute)
          moreover have "\<exists>r \<in> set remaining. rec_key r = j \<and> (\<exists>s < length remaining. alone_too_large cs config s r)"
            if "j \<in> set ds" for j
            using ds(5) that by (metis (no_types, lifting) filter_is_subset length_filter_le order_less_le_trans subsetD)
          ultimately show ?thesis using ds this_k by (auto simp: run Inr po)
        qed
      qed
    qed
  qed
qed

text \<open>C40: planning with drops always ends, and what it drops is what cannot be sent. For record
  keys on one line, the plan holds every record that was not dropped, in order and in requests
  within the ceilings; a dropped record carries the too-large reason and on its own exceeds a
  ceiling; the only errors are an invalid question set and duplicate keys.\<close>

theorem drops_only_what_cannot_fit:
  assumes "\<forall>r \<in> set records. clean_key (rec_key r)"
  shows "case planWithDrops records cs config of
     Inl e \<Rightarrow> validateClassifierSet cs = Inl e \<or> e = js_error ''Jev classifier records contain duplicate keys''
   | Inr (plan, dropped) \<Rightarrow>
       concat (map batch_records (batches plan)) = filter (\<lambda>r. rec_key r \<notin> fst ` set dropped) records \<and>
       (\<forall>b \<in> set (batches plan). batch_fits config b) \<and>
       (\<forall>(k, reason) \<in> set dropped. reason = TOO_LARGE_REASON \<and> (\<exists>r \<in> set records. rec_key r = k \<and>
          (\<exists>s < length records. alone_too_large cs config s r)))"
proof (cases "drop_loop records cs config []")
  case (Inl e)
  with drop_loop_spec [OF assms, where cs = cs and config = config and dropped = "[]"] show ?thesis by (simp add: planWithDrops_def)
next
  case (Inr po)
  obtain plan out where po: "po = (plan, out)" by (cases po)
  have "fst ` set (map (\<lambda>k. (k, TOO_LARGE_REASON)) out) = set out" by force
  with drop_loop_spec [OF assms, where cs = cs and config = config and dropped = "[]"] show ?thesis
    by (auto simp: planWithDrops_def Inr po)
qed

subsection \<open>Dealing the batches out\<close>

lemma length_deal [simp]: "length (deal lanes i bs buckets) = length buckets"
  by (induction bs arbitrary: i buckets) auto

lemma mset_concat_update:
  "j < length xs \<Longrightarrow> mset (concat (xs[j := xs ! j @ [b]])) = add_mset b (mset (concat xs))"
  by (induction xs arbitrary: j) (auto split: nat.splits simp: nth_Cons)

lemma deal_mset:
  "length buckets = lanes \<Longrightarrow> 0 < lanes \<Longrightarrow>
     mset (concat (deal lanes i bs buckets)) = mset (concat buckets) + mset bs"
  by (induction bs arbitrary: i buckets) (auto simp: mset_concat_update)

text \<open>The share of lane \<open>j\<close> after \<open>n\<close> batches.\<close>

definition share :: "nat \<Rightarrow> nat \<Rightarrow> nat \<Rightarrow> nat" where
  "share lanes n j = n div lanes + (if j < n mod lanes then 1 else 0)"

lemma share_Suc:
  assumes "0 < lanes" "j < lanes"
  shows "share lanes (Suc n) j = share lanes n j + (if j = n mod lanes then 1 else 0)"
proof (cases "Suc (n mod lanes) = lanes")
  case True
  then have "Suc n mod lanes = 0" "Suc n div lanes = Suc (n div lanes)"
    by (simp_all add: mod_Suc div_Suc)
  moreover have "j < n mod lanes \<or> j = n mod lanes" using True assms by linarith
  ultimately show ?thesis by (auto simp: share_def)
next
  case False
  then have "Suc n mod lanes = Suc (n mod lanes)" "Suc n div lanes = n div lanes"
    by (simp_all add: mod_Suc div_Suc)
  then show ?thesis by (auto simp: share_def)
qed

lemma deal_share:
  "length buckets = lanes \<Longrightarrow> 0 < lanes \<Longrightarrow> \<forall>j < lanes. length (buckets ! j) = share lanes i j \<Longrightarrow> j < lanes \<Longrightarrow>
     length (deal lanes i bs buckets ! j) = share lanes (i + length bs) j"
proof (induction bs arbitrary: i buckets)
  case (Cons b bs)
  let ?b = "buckets[i mod lanes := buckets ! (i mod lanes) @ [b]]"
  have "\<forall>j < lanes. length (?b ! j) = share lanes (Suc i) j"
    using Cons.prems by (auto simp: nth_list_update share_Suc)
  with Cons.IH [of ?b "Suc i"] Cons.prems show ?case by simp
qed simp

lemma splitPlan_parts:
  assumes "1 \<le> inFlight"
  obtains bs where "splitPlan plan inFlight = Inr (map (\<lambda>b. \<lparr>classifierSet = classifierSet plan, batches = b\<rparr>) bs)"
    and "length bs = min (nat inFlight) (length (batches plan))"
    and "mset (concat bs) = mset (batches plan)"
    and "\<forall>j < length bs. length (bs ! j) = share (length bs) (length (batches plan)) j"
proof
  let ?lanes = "min (nat inFlight) (length (batches plan))"
  let ?bs = "deal ?lanes 0 (batches plan) (replicate ?lanes [])"
  show "splitPlan plan inFlight = Inr (map (\<lambda>b. \<lparr>classifierSet = classifierSet plan, batches = b\<rparr>) ?bs)"
    using assms by (simp add: splitPlan_def Let_def)
  show len: "length ?bs = ?lanes" by simp
  show "mset (concat ?bs) = mset (batches plan)"
  proof (cases "?lanes = 0")
    case True
    with assms show ?thesis by (simp add: min_def split: if_splits)
  next
    case False
    then show ?thesis by (subst deal_mset) auto
  qed
  show "\<forall>j < length ?bs. length (?bs ! j) = share (length ?bs) (length (batches plan)) j"
  proof (intro allI impI)
    fix j assume j: "j < length ?bs"
    then have jl: "j < ?lanes" unfolding len .
    then have "0 < ?lanes" by linarith
    with jl deal_share [of "replicate ?lanes []" ?lanes 0 j "batches plan"]
    show "length (?bs ! j) = share (length ?bs) (length (batches plan)) j"
      by (simp add: share_def del: min_less_iff_conj)
  qed
qed

text \<open>Lanes are balanced. Splitting a plan for at most \<open>inFlight\<close> requests at a time gives the
  smaller of \<open>inFlight\<close> and the number of batches of sub-plans, none of them empty, with the
  same classifier set, holding every batch of the plan exactly once; no lane has more than one
  batch more than another.\<close>

theorem lanes_are_balanced:
  assumes "1 \<le> inFlight"
  shows "\<exists>lanes. splitPlan plan inFlight = Inr lanes \<and>
    length lanes = min (nat inFlight) (length (batches plan)) \<and>
    mset (concat (map batches lanes)) = mset (batches plan) \<and>
    (\<forall>a \<in> set lanes. classifierSet a = classifierSet plan \<and> batches a \<noteq> [] \<and>
       (\<forall>b \<in> set lanes. length (batches a) \<le> Suc (length (batches b))))"
proof -
  obtain bs where bs: "splitPlan plan inFlight = Inr (map (\<lambda>b. \<lparr>classifierSet = classifierSet plan, batches = b\<rparr>) bs)"
    "length bs = min (nat inFlight) (length (batches plan))" "mset (concat bs) = mset (batches plan)"
    "\<forall>j < length bs. length (bs ! j) = share (length bs) (length (batches plan)) j"
    using splitPlan_parts [OF assms] by blast
  have len: "length b = length (batches plan) div length bs \<or> length b = Suc (length (batches plan) div length bs)"
    if "b \<in> set bs" for b
    using that bs(4) by (auto simp: in_set_conv_nth share_def)
  have ne: "b \<noteq> []" if b: "b \<in> set bs" for b
  proof -
    have "0 < length bs" using b by (cases bs) auto
    moreover have "length bs \<le> length (batches plan)" by (simp add: bs(2))
    ultimately have "0 < length (batches plan) div length bs" by (simp add: div_greater_zero_iff)
    with len [OF b] show ?thesis by auto
  qed
  have "length a \<le> Suc (length b)" if "a \<in> set bs" "b \<in> set bs" for a b
    using len [OF that(1)] len [OF that(2)] by auto
  with bs ne show ?thesis by (intro exI [of _ "map (\<lambda>b. \<lparr>classifierSet = classifierSet plan, batches = b\<rparr>) bs"])
    (auto simp: comp_def)
qed

subsection \<open>Every planned record is accounted for\<close>

lemma map_of_put_all:
  "map_of (put_all kvs m) k = (case map_of (rev kvs) k of Some v \<Rightarrow> Some v | None \<Rightarrow> map_of m k)"
proof (induction kvs arbitrary: m)
  case (Cons p kvs)
  obtain a v where p: "p = (a, v)" by (cases p)
  have "put_all (p # kvs) m = put_all kvs (AList.update a v m)" by (simp add: put_all_def p)
  with Cons.IH show ?case by (auto simp: p update_conv' map_add_def split: option.splits)
qed (simp add: put_all_def)

lemma put_all_keys: "map_of (put_all kvs m) k \<noteq> None \<longleftrightarrow> k \<in> fst ` set kvs \<or> map_of m k \<noteq> None"
proof -
  have "map_of (rev kvs) k = None \<longleftrightarrow> k \<notin> fst ` set kvs" by (simp add: map_of_eq_None_iff)
  then show ?thesis unfolding map_of_put_all by (cases "map_of (rev kvs) k") auto
qed

definition accounted :: "lane_outcome \<Rightarrow> string \<Rightarrow> bool" where
  "accounted acc k \<longleftrightarrow> map_of (lane_answers acc) k \<noteq> None \<or> map_of (failures acc) k \<noteq> None"

lemma settle_accounts:
  assumes "\<And>v. r = Inr v \<Longrightarrow> map_of (answers v) k \<noteq> None \<or> k \<notin> set (laneKeys plan)"
  shows "accounted acc k \<or> k \<in> set (laneKeys plan) \<Longrightarrow> accounted (settle r plan acc) k"
proof (cases r)
  case (Inl e)
  have "fst ` set (map (\<lambda>k. (k, ''no signal: request failed: '' @ err_message e)) (laneKeys plan)) = set (laneKeys plan)"
    by force
  then show "accounted acc k \<or> k \<in> set (laneKeys plan) \<Longrightarrow> accounted (settle r plan acc) k"
    unfolding accounted_def by (auto simp: Inl settle_def put_all_keys simp del: not_None_eq)
next
  case (Inr v)
  have "k \<in> fst ` set (answers v)" if "map_of (answers v) k \<noteq> None"
    using that by (metis map_of_eq_None_iff)
  with assms [OF Inr] show "accounted acc k \<or> k \<in> set (laneKeys plan) \<Longrightarrow> accounted (settle r plan acc) k"
    unfolding accounted_def by (auto simp: Inr settle_def put_all_keys simp del: not_None_eq)
qed

lemma route_batch_mappings:
  assumes "route_batch cs config b"
  shows "r \<in> set (batch_records b) \<Longrightarrow> n \<in> fst ` set (classifiers cs) \<Longrightarrow>
      \<exists>m \<in> set (mappings b). recordKey m = rec_key r \<and> classifierName m = n"
    and "m \<in> set (mappings b) \<Longrightarrow> \<exists>r \<in> set (batch_records b). rec_key r = recordKey m"
proof -
  from assms obtain s where s:
    "b = materializeBatch [(''task'', JStr SHARED_TASK)] cs (jev_model config) s (batch_records b)" by blast
  have maps: "mappings b = map fst (asked s (classifiers cs) (batch_records b))"
    by (subst s) (simp add: mappings_materialize)
  show "\<exists>m \<in> set (mappings b). recordKey m = rec_key r \<and> classifierName m = n"
    if r: "r \<in> set (batch_records b)" and n: "n \<in> fst ` set (classifiers cs)"
  proof -
    from r obtain l where l: "l < length (batch_records b)" "batch_records b ! l = r" by (auto simp: in_set_conv_nth)
    from n obtain c where c: "c < length (classifiers cs)" "fst (classifiers cs ! c) = n" by (auto simp: in_set_conv_nth)
    let ?m = "\<lparr>questionId = question_id (s + l) c, recordKey = rec_key r, classifierName = n\<rparr>"
    have "(?m, judged (rec_key r) l (snd (classifiers cs ! c))) \<in> set (asked s (classifiers cs) (batch_records b))"
      unfolding in_asked by (rule exI [of _ l], rule conjI [OF l(1)], rule exI [of _ c]) (simp add: l c)
    then have "?m \<in> set (mappings b)" unfolding maps by force
    then show ?thesis by force
  qed
  show "\<exists>r \<in> set (batch_records b). rec_key r = recordKey m" if "m \<in> set (mappings b)"
    using that unfolding maps by (auto simp: in_asked) (metis nth_mem)
qed

definition complete :: "classifier_set \<Rightarrow> (string, (string, jev_answer) jsmap) jsmap \<Rightarrow> bool" where
  "complete cs m \<longleftrightarrow> (\<forall>k a. map_of m k = Some a \<longrightarrow> (\<forall>n \<in> fst ` set (classifiers cs). map_of a n \<noteq> None))"

lemma staged_nonempty:
  "stage_mappings response ms out = Inr out' \<Longrightarrow> (\<forall>k a. map_of (answers out) k = Some a \<longrightarrow> a \<noteq> []) \<Longrightarrow>
     \<forall>k a. map_of (answers out') k = Some a \<longrightarrow> a \<noteq> []"
proof (induction ms arbitrary: out)
  case (Cons m ms)
  from Cons.prems(1) obtain a where a: "stage_mappings response ms (stage response m a out) = Inr out'"
    by (auto split: option.splits)
  have upd: "AList.update k v xs \<noteq> []" for k :: string and v :: jev_answer and xs by (cases xs) auto
  have "\<forall>k b. map_of (answers (stage response m a out)) k = Some b \<longrightarrow> b \<noteq> []"
    using Cons.prems(2) by (auto simp: stage_def Let_def update_conv' upd split: if_splits)
  from Cons.IH [OF a this] show ?case .
qed simp

lemma run_nonempty:
  "run_batches env config bs out = Inr out' \<Longrightarrow> (\<forall>k a. map_of (answers out) k = Some a \<longrightarrow> a \<noteq> []) \<Longrightarrow>
     \<forall>k a. map_of (answers out') k = Some a \<longrightarrow> a \<noteq> []"
proof (induction bs arbitrary: out)
  case (Cons b bs)
  from Cons.prems(1) obtain response out1 where r:
      "stage_mappings response (mappings b) (out\<lparr>inputTokens := inputTokens out + input_tokens response,
         outputTokens := outputTokens out + output_tokens response\<rparr>) = Inr out1"
      "run_batches env config bs out1 = Inr out'"
    by (auto simp: res_bind_Inr)
  from Cons.IH [OF r(2) staged_nonempty [OF r(1)]] Cons.prems(2) show ?case by simp
qed simp

text \<open>An executed lane answers every classifier of each record it mentions, and mentions its own.\<close>

lemma executed_lane:
  assumes run: "executeJevBatchPlan env config plan = Inr v"
    and b: "\<forall>b \<in> set (batches plan). route_batch cs config b" and cs: "classifiers cs \<noteq> []"
  shows "complete cs (answers v)" and "k \<in> set (laneKeys plan) \<Longrightarrow> map_of (answers v) k \<noteq> None"
proof -
  note run' = run_batches_answers [OF run [unfolded executeJevBatchPlan_def]]
  have all: "answer_of v (rec_key r) n \<noteq> None"
    if "c \<in> set (batches plan)" "r \<in> set (batch_records c)" "n \<in> fst ` set (classifiers cs)" for c r n
  proof -
    from b that(1) have "route_batch cs config c" by blast
    from route_batch_mappings(1) [OF this that(2,3)] obtain m where "m \<in> set (mappings c)" "recordKey m = rec_key r"
      "classifierName m = n" by blast
    with run' [THEN conjunct2, THEN conjunct2] that(1) show ?thesis by force
  qed
  show "complete cs (answers v)"
    unfolding complete_def
  proof (intro allI impI ballI)
    fix k a n assume a: "map_of (answers v) k = Some a" and n: "n \<in> fst ` set (classifiers cs)"
    from run_nonempty [OF run [unfolded executeJevBatchPlan_def]] a have "a \<noteq> []" by auto
    then obtain n0 x where "map_of a n0 = Some x" by (cases a) (auto, metis)
    with a have x: "answer_of v k n0 = Some x" by (simp add: answer_of_def)
    have "answer_of \<lparr>answers = [], servedModels = [], inputTokens = 0, outputTokens = 0\<rparr> k n0 = None"
      by (simp add: answer_of_def)
    with run' [THEN conjunct1, rule_format, OF x] obtain c where c: "c \<in> set (batches plan)" "answered_by env config c k n0 x"
      by auto
    from c(2) obtain m where m: "m \<in> set (mappings c)" "recordKey m = k" unfolding answered_by_def by blast
    from b c(1) have "route_batch cs config c" by blast
    from route_batch_mappings(2) [OF this m(1)] m(2) obtain r where "r \<in> set (batch_records c)" "rec_key r = k" by auto
    with all [OF c(1) _ n] have "answer_of v k n \<noteq> None" by auto
    with a show "map_of a n \<noteq> None" by (simp add: answer_of_def)
  qed
  show "map_of (answers v) k \<noteq> None" if k: "k \<in> set (laneKeys plan)"
  proof -
    from k obtain c r where c: "c \<in> set (batches plan)" "r \<in> set (batch_records c)" "k = rec_key r"
      by (auto simp: laneKeys_def)
    obtain n where "n \<in> fst ` set (classifiers cs)" using cs by (cases "classifiers cs") auto
    from all [OF c(1,2) this] c(3) show ?thesis by (auto simp: answer_of_def split: option.splits)
  qed
qed

lemma staged_distinct:
  "stage_mappings response ms out = Inr out' \<Longrightarrow> distinct (map fst (answers out)) \<Longrightarrow>
     distinct (map fst (answers out'))"
proof (induction ms arbitrary: out)
  case (Cons m ms)
  from Cons.prems(1) obtain a where a: "stage_mappings response ms (stage response m a out) = Inr out'"
    by (auto split: option.splits)
  have "distinct (map fst (answers (stage response m a out)))"
    using Cons.prems(2) by (simp add: stage_def Let_def distinct_update)
  from Cons.IH [OF a this] show ?case .
qed simp

lemma run_distinct:
  "run_batches env config bs out = Inr out' \<Longrightarrow> distinct (map fst (answers out)) \<Longrightarrow>
     distinct (map fst (answers out'))"
  by (induction bs arbitrary: out) (fastforce simp: res_bind_Inr dest: staged_distinct)+

lemma complete_put_all:
  assumes "complete cs m" "complete cs m'" "distinct (map fst m)"
  shows "complete cs (put_all m m')"
proof -
  have "map_of (rev m) = map_of m"
    using assms(3) map_of_inject_set [of "rev m" m] by (simp flip: rev_map)
  with assms(1,2) show ?thesis
    unfolding complete_def map_of_put_all by (auto split: option.splits)
qed

lemma runLanes_accounts:
  assumes lanes: "\<forall>lane \<in> set lanes. \<forall>b \<in> set (batches lane). route_batch cs config b"
    and cs: "classifiers cs \<noteq> []" and lane: "lane \<in> set lanes" "k \<in> set (laneKeys lane)"
  shows "complete cs (lane_answers (runLanes env config lanes)) \<and> accounted (runLanes env config lanes) k"
proof -
  define step where "step acc plan = settle (executeJevBatchPlan env config plan) plan acc" for acc plan
  have account: "accounted (step acc plan) j"
    if "\<forall>b \<in> set (batches plan). route_batch cs config b" "accounted acc j \<or> j \<in> set (laneKeys plan)" for acc plan j
    unfolding step_def by (rule settle_accounts [OF _ that(2)]) (use executed_lane(2) [OF _ that(1) cs] in blast)
  have compl: "complete cs (lane_answers (step acc plan))"
    if p: "\<forall>b \<in> set (batches plan). route_batch cs config b" and c: "complete cs (lane_answers acc)" for acc plan
  proof (cases "executeJevBatchPlan env config plan")
    case (Inl e)
    with c show ?thesis by (simp add: step_def settle_def)
  next
    case (Inr v)
    have "distinct (map fst (answers v))"
      using run_distinct [OF Inr [unfolded executeJevBatchPlan_def]] by simp
    from complete_put_all [OF executed_lane(1) [OF Inr p cs] c this] Inr
    show ?thesis by (simp add: step_def settle_def)
  qed
  have "complete cs (lane_answers (foldl step acc ls)) \<and>
      ((accounted acc k \<or> (\<exists>lane \<in> set ls. k \<in> set (laneKeys lane))) \<longrightarrow> accounted (foldl step acc ls) k)"
    if "\<forall>lane \<in> set ls. \<forall>b \<in> set (batches lane). route_batch cs config b" "complete cs (lane_answers acc)" for acc ls
    using that
  proof (induction ls arbitrary: acc)
    case (Cons l ls)
    have l: "\<forall>b \<in> set (batches l). route_batch cs config b"
      and ls: "\<forall>lane \<in> set ls. \<forall>b \<in> set (batches lane). route_batch cs config b"
      using Cons.prems(1) by simp_all
    from Cons.IH [OF ls compl [OF l Cons.prems(2)]] account [OF l, of acc k]
    show ?case by auto
  qed simp
  moreover have "complete cs (lane_answers EMPTY_OUTCOME)" by (simp add: complete_def EMPTY_OUTCOME_def)
  ultimately show ?thesis
    using lanes lane unfolding runLanes_def step_def [symmetric] by blast
qed

text \<open>Every record ends somewhere. After planning with drops, splitting and running the lanes,
  each record was dropped with its reason, or is in a lane whose request failed and carries the
  failure, or has an answer to every question of the classifier set; whatever the endpoint does.\<close>

theorem lanes_account_for_every_record:
  assumes "\<forall>r \<in> set records. clean_key (rec_key r)"
    and "planWithDrops records cs config = Inr (plan, dropped)"
    and "splitPlan plan inFlight = Inr lanes" and "r \<in> set records" and "classifiers cs \<noteq> []"
  defines "k \<equiv> rec_key r"
  shows "k \<in> fst ` set dropped \<or> map_of (failures (runLanes env config lanes)) k \<noteq> None \<or>
    (\<exists>a. map_of (lane_answers (runLanes env config lanes)) k = Some a \<and>
       (\<forall>n \<in> fst ` set (classifiers cs). map_of a n \<noteq> None))"
proof (cases "k \<in> fst ` set dropped")
  case False
  from assms(2) obtain out where out: "drop_loop records cs config [] = Inr (plan, out)"
      "dropped = map (\<lambda>k. (k, TOO_LARGE_REASON)) out"
    by (auto simp: planWithDrops_def res_bind_Inr)
  from drop_loop_spec [OF assms(1), where cs = cs and config = config and dropped = "[]"] out(1)
  have plan: "concat (map batch_records (batches plan)) = filter (\<lambda>r. rec_key r \<notin> set out) records"
    "\<forall>b \<in> set (batches plan). route_batch cs config b" by auto
  from assms(3) have "1 \<le> inFlight" by (auto simp: splitPlan_def split: if_splits)
  from splitPlan_parts [OF this, of plan] obtain bs where
    bs': "splitPlan plan inFlight = Inr (map (\<lambda>b. \<lparr>classifierSet = classifierSet plan, batches = b\<rparr>) bs)"
      "mset (concat bs) = mset (batches plan)"
    by blast
  then have bs: "lanes = map (\<lambda>b. \<lparr>classifierSet = classifierSet plan, batches = b\<rparr>) bs" "mset (concat bs) = mset (batches plan)"
    using assms(3) by simp_all
  then have all: "set (batches plan) = \<Union> (set ` set bs)"
    by (metis set_concat set_mset_mset)
  have "k \<notin> set out" using False out(2) by force
  then have "r \<in> set (concat (map batch_records (batches plan)))"
    using assms(4) unfolding plan(1) by (simp add: k_def)
  then obtain b lane where "b \<in> set lane" "lane \<in> set bs" "r \<in> set (batch_records b)" using all by auto
  then have lane: "\<lparr>classifierSet = classifierSet plan, batches = lane\<rparr> \<in> set lanes"
      "k \<in> set (laneKeys \<lparr>classifierSet = classifierSet plan, batches = lane\<rparr>)"
    by (auto simp: bs(1) laneKeys_def k_def)
  have "\<forall>lane \<in> set lanes. \<forall>b \<in> set (batches lane). route_batch cs config b"
    using plan(2) all by (auto simp: bs(1))
  note acc = runLanes_accounts [OF this assms(5) lane, of env]
  show ?thesis
  proof (cases "map_of (lane_answers (runLanes env config lanes)) k")
    case None
    with acc show ?thesis by (simp add: accounted_def)
  next
    case (Some a)
    with acc have "\<forall>n \<in> fst ` set (classifiers cs). map_of a n \<noteq> None"
      unfolding complete_def by blast
    with Some show ?thesis by simp
  qed
qed simp

subsection \<open>Concrete runs\<close>

definition long_record :: classifier_record where
  "long_record = \<lparr>rec_key = ''x'', rec_content = replicate 200 (CHR ''c''), rec_fields = None\<rparr>"

definition two_records :: "classifier_record list" where
  "two_records = [long_record, sample_record ''b'']"

lemma two_records_clean: "\<forall>r \<in> set two_records. clean_key (rec_key r)"
  by (simp add: two_records_def long_record_def sample_record_def clean_key_def is_line_end_def)

lemma two_records_planned:
  "case planWithDrops two_records sample_set (sample_config 400) of
     Inl e \<Rightarrow> False
   | Inr (plan, dropped) \<Rightarrow> map fst dropped = [''x''] \<and> length (batches plan) = 1 \<and>
       map_of (lane_answers (runLanes sample_env (sample_config 400) [plan])) ''b'' = None"
  by code_simp

lemma drops_only_what_cannot_fit_witness:
  "\<exists>plan dropped. planWithDrops two_records sample_set (sample_config 400) = Inr (plan, dropped) \<and>
     concat (map batch_records (batches plan)) = [sample_record ''b'']"
proof -
  from two_records_planned obtain plan dropped where p:
      "planWithDrops two_records sample_set (sample_config 400) = Inr (plan, dropped)" "map fst dropped = [''x'']"
    by (auto split: sum.splits)
  have "concat (map batch_records (batches plan)) = filter (\<lambda>r. rec_key r \<notin> fst ` set dropped) two_records"
    using drops_only_what_cannot_fit [OF two_records_clean, of sample_set "sample_config 400"] by (simp add: p(1))
  moreover have "fst ` set dropped = {''x''}" using arg_cong [OF p(2), of set] by simp
  ultimately show ?thesis using p(1) by (auto simp: two_records_def long_record_def sample_record_def)
qed

definition three_batches :: jev_plan where
  "three_batches = \<lparr>classifierSet = sample_set,
     batches = map (\<lambda>k. materializeBatch [] sample_set ''m'' 0 [sample_record k]) [''a'', ''b'', ''c'']\<rparr>"

lemma lanes_are_balanced_witness:
  "\<exists>lanes. splitPlan three_batches 2 = Inr lanes \<and> length lanes = 2"
  using lanes_are_balanced [of 2 three_batches] by (auto simp: three_batches_def)

lemma lanes_account_for_every_record_witness:
  "\<exists>plan dropped. planWithDrops two_records sample_set (sample_config 400) = Inr (plan, dropped) \<and>
     map_of (failures (runLanes sample_env (sample_config 400) [plan])) ''b'' \<noteq> None"
proof -
  from two_records_planned obtain plan dropped where p:
      "planWithDrops two_records sample_set (sample_config 400) = Inr (plan, dropped)" "map fst dropped = [''x'']"
      "length (batches plan) = 1"
      "map_of (lane_answers (runLanes sample_env (sample_config 400) [plan])) ''b'' = None"
    by (auto split: sum.splits)
  from p(3) obtain b where b: "batches plan = [b]" by (auto simp: length_Suc_conv)
  have "splitPlan plan 1 = Inr [plan]" by (simp add: splitPlan_def b)
  moreover have "sample_record ''b'' \<in> set two_records" by (simp add: two_records_def)
  ultimately have "rec_key (sample_record ''b'') \<in> fst ` set dropped \<or>
      map_of (failures (runLanes sample_env (sample_config 400) [plan])) (rec_key (sample_record ''b'')) \<noteq> None \<or>
      (\<exists>a. map_of (lane_answers (runLanes sample_env (sample_config 400) [plan])) (rec_key (sample_record ''b'')) = Some a \<and>
         (\<forall>n \<in> fst ` set (classifiers sample_set). map_of a n \<noteq> None))"
    by (rule lanes_account_for_every_record [OF two_records_clean p(1)]) (simp add: sample_set_def)
  moreover have "fst ` set dropped = {''x''}" using arg_cong [OF p(2), of set] by simp
  ultimately show ?thesis using p(1,4) by (auto simp: sample_record_def)
qed

end
