(* ===== verification/FakeBackend.thy ===== *)
theory FakeBackend
  imports RouteCohort RouteExecute
begin

text \<open>
  The free local stand-in for the Jev endpoint (\<open>fakeJevFetch\<close> of
  \<open>server/domain/dream-route/run-core.ts\<close> and \<open>fakeConfig\<close> of \<open>run-execute.ts\<close>), and the one
  thing it promises: every answer it gives passes the batch validator.

  The request is read as the JSON it is sent as. The JSON text of the response is its value: the
  environment below hands the request through and answers it where the response is parsed.
  Characters are the 8-bit ones, on which \<open>toLowerCase\<close> makes \<open>a\<close> to \<open>z\<close> of the ASCII
  capitals only.
\<close>

subsection \<open>Reading a request\<close>

definition ascii_lower :: "char \<Rightarrow> char" where
  "ascii_lower c = (if (65 :: nat) \<le> of_char c \<and> of_char c \<le> (90 :: nat) then char_of (of_char c + 32 :: nat) else c)"

definition is_az :: "char \<Rightarrow> bool" where
  "is_az c = ((97 :: nat) \<le> of_char c \<and> of_char c \<le> (122 :: nat))"

text \<open>\<open>match(/[a-z]+/g)\<close> of the lowered text: its maximal runs of letters.\<close>

fun word_runs :: "string \<Rightarrow> string \<Rightarrow> string list" where
  "word_runs run [] = (if run = '''' then [] else [run])"
| "word_runs run (c # cs) =
     (if is_az c then word_runs (run @ [c]) cs
      else (if run = '''' then [] else [run]) @ word_runs '''' cs)"

definition word_list :: "string \<Rightarrow> string list" where
  "word_list txt = word_runs '''' (map ascii_lower txt)"

fun string_value :: "json \<Rightarrow> string" where
  "string_value (JStr s) = s"
| "string_value _ = ''''"

fun text_values :: "json \<Rightarrow> string list" where
  "text_values (JArr xs) = map string_value xs"
| "text_values v = [string_value v]"

fun textOf :: "json \<Rightarrow> string" where
  "textOf (JObj kvs) = join '' '' (concat (map (\<lambda>(k, v). text_values v) kvs))"
| "textOf v = string_value v"

text \<open>\<open>/record key (\\S+) at records\\[(\\d+)\\]/\<close>: a run without spaces ends where the space before
  \<open>at\<close> stands, and the digits end where the bracket stands, so neither group can backtrack.\<close>

definition strip_prefix :: "string \<Rightarrow> string \<Rightarrow> string option" where
  "strip_prefix p s = (if starts_with p s then Some (drop (length p) s) else None)"

definition named_here :: "string \<Rightarrow> (string \<times> nat) option" where
  "named_here s = Option.bind (strip_prefix ''record key '' s) (\<lambda>r.
     let key = takeWhile (\<lambda>c. \<not> js_ws c) r
     in if key = '''' then None
        else Option.bind (strip_prefix '' at records['' (dropWhile (\<lambda>c. \<not> js_ws c) r)) (\<lambda>q.
          let ds = takeWhile is_digit q
          in if ds = '''' \<or> \<not> starts_with '']'' (dropWhile is_digit q) then None else Some (key, read_nat ds)))"

fun named_record :: "string \<Rightarrow> (string \<times> nat) option" where
  "named_record [] = named_here []"
| "named_record (c # cs) = (case named_here (c # cs) of Some m \<Rightarrow> Some m | None \<Rightarrow> named_record cs)"

definition members :: "json \<Rightarrow> json_object" where
  "members j = (case j of JObj kvs \<Rightarrow> kvs | _ \<Rightarrow> [])"

definition member_of :: "json \<Rightarrow> string \<Rightarrow> json" where
  "member_of j k = (case get_member k (members j) of Some v \<Rightarrow> v | None \<Rightarrow> JNull)"

definition recordTextFor :: "json \<Rightarrow> json \<Rightarrow> string" where
  "recordTextFor state question =
     (let records = (case member_of state ''records'' of JArr rs \<Rightarrow> rs | _ \<Rightarrow> []);
          ins = member_of question ''instructions'';
          judgeOnly = (case ins of JStr s \<Rightarrow> JStr s | _ \<Rightarrow> member_of ins ''judge_only'');
          source = (case judgeOnly of JArr xs \<Rightarrow> join '' '' (map string_value xs) | v \<Rightarrow> string_value v)
      in case named_record source of
           None \<Rightarrow> ''''
         | Some (key, i) \<Rightarrow>
             (case (case find (\<lambda>r. member_of r ''key'' = JStr key) records of
                 Some r \<Rightarrow> Some r | None \<Rightarrow> (if i < length records then Some (records ! i) else None)) of
                None \<Rightarrow> ''''
              | Some r \<Rightarrow> join '' '' (string_value (member_of r ''content'') #
                  map string_value (filter (\<lambda>v. v \<noteq> JNull) (map snd (members (member_of r ''fields'')))))))"

subsection \<open>Answering\<close>

definition best_key :: "json_object \<Rightarrow> string list \<Rightarrow> string" where
  "best_key criteria recordWords =
     fst (foldl (\<lambda>(best, top) (key, d).
         let score = int (length (filter (\<lambda>w. w \<in> set recordWords) (word_list (textOf d))))
         in if score > top then (key, score) else (best, top)) (hd (map fst criteria), - 1) criteria)"

definition fake_spread :: "string \<Rightarrow> string list \<Rightarrow> (string \<times> rat) list" where
  "fake_spread best keys =
     (let rest = (if length keys > 1 then (1 - 9 / 10) / (of_nat (length keys) - 1) else 0)
      in map (\<lambda>key. (key, if key = best then 9 / 10 else rest)) keys)"

definition fakeChoice :: "json_object \<Rightarrow> string \<Rightarrow> jev_answer" where
  "fakeChoice criteria txt =
     (let best = best_key criteria (word_list txt)
      in ChoiceA best (fake_spread best (map fst criteria)) (9 / 10))"

definition fakeNoul :: "json \<Rightarrow> string \<Rightarrow> jev_answer" where
  "fakeNoul question txt =
     (let recordWords = filter (\<lambda>w. length w \<ge> 4) (word_list txt);
          shared = set (filter (\<lambda>w. length w \<ge> 4 \<and> w \<in> set recordWords)
             (word_list (textOf (member_of question ''instructions''))))
      in NoulA (if card shared \<ge> 3 then 9 / 10 else 1 / 10))"

fun fake_answers :: "json \<Rightarrow> json_object \<Rightarrow> (string \<times> jev_answer) list \<Rightarrow> jev_error + (string \<times> jev_answer) list" where
  "fake_answers state [] acc = Inr acc"
| "fake_answers state ((key, q) # qs) acc =
     (let txt = recordTextFor state q; kind = string_value (member_of q ''type'')
      in if kind = ''choice''
         then fake_answers state qs (AList.update key (fakeChoice (members (member_of q ''criteria'')) txt) acc)
         else if kind = ''noul''
         then fake_answers state qs (AList.update key (fakeNoul q txt) acc)
         else Inl (js_error (''fakeJevFetch does not answer '' @ kind @ '' questions'')))"

definition fakeJevFetch :: "json \<Rightarrow> jev_error + jev_response" where
  "fakeJevFetch body =
     res_bind (fake_answers (member_of body ''state'') (members (member_of body ''questions'')) [])
       (\<lambda>as. Inr \<lparr>resp_model = ''local-fake'', resp_answers = as,
          input_tokens = nat \<lceil>of_nat (serializedBytes body) / CHARS_PER_TOKEN\<rceil>, output_tokens = 0\<rparr>)"

definition fake_env :: jev_env where
  "fake_env = \<lparr>url_protocol = (\<lambda>u. Inr ''https:''),
     jev_fetch = (\<lambda>u body. case fakeJevFetch body of Inl e \<Rightarrow> Rejected e | Inr r \<Rightarrow> Fetched 200 (Inr body)),
     parse_response = fakeJevFetch\<rparr>"

definition FAKE_BASE_URL :: string where "FAKE_BASE_URL = ''https://placeholder.invalid/v1/systemone''"
definition FAKE_API_KEY :: string where "FAKE_API_KEY = ''placeholder-key-the-fake-never-sends''"
definition DEFAULT_JEV_MODEL :: string where "DEFAULT_JEV_MODEL = ''jev-1.13.0''"

definition fakeConfig :: jev_config where
  "fakeConfig = \<lparr>enabled = True, apiKey = Some FAKE_API_KEY, baseUrl = FAKE_BASE_URL, jev_model = DEFAULT_JEV_MODEL,
     maxRequestBytes = DEFAULT_JEV_MAX_REQUEST_BYTES, maxStateQuestionBytes = DEFAULT_JEV_MAX_STATE_QUESTION_BYTES\<rparr>"

subsection \<open>Every answer passes the validator\<close>

lemma fold_key:
  "fst (foldl (\<lambda>(best, top) (key, d). let score = f d in if (score :: int) > top then (key, score) else (best, top)) (b, t) cs)
     \<in> insert b (fst ` set cs)"
proof (induction cs arbitrary: b t)
  case (Cons p cs)
  obtain k d where p: "p = (k, d)" by (cases p)
  from Cons.IH [of k "f d"] Cons.IH [of b t] show ?case by (cases "f d > t") (auto simp: p)
qed simp

lemma best_key_mem:
  assumes "criteria \<noteq> []"
  shows "best_key criteria ws \<in> fst ` set criteria"
proof -
  have "best_key criteria ws \<in> insert (hd (map fst criteria)) (fst ` set criteria)"
    unfolding best_key_def by (rule fold_key)
  moreover have "hd (map fst criteria) \<in> fst ` set criteria" using assms by (cases criteria) auto
  ultimately show ?thesis by (metis insertE)
qed

lemma foldl_max_below: "\<forall>x \<in> set xs. x \<le> p \<Longrightarrow> foldl max p xs = (p :: rat)"
  by (induction xs) (auto simp: max_def)

lemma two_level_sum:
  assumes "distinct ks" "b \<in> set ks"
  shows "sum_list (map (\<lambda>k. if k = b then p else q) ks) = p + of_nat (length ks - 1) * (q :: rat)"
proof -
  have "sum_list (map (\<lambda>k. if k = b then p else q) ks) = (\<Sum>k \<in> set ks. if k = b then p else q)"
    using assms(1) by (simp add: sum_list_distinct_conv_sum_set)
  also have "\<dots> = p + (\<Sum>k \<in> set ks - {b}. if k = b then p else q)"
    using assms(2) by (simp add: sum.remove [of "set ks" b])
  also have "(\<Sum>k \<in> set ks - {b}. if k = b then p else q) = (\<Sum>k \<in> set ks - {b}. q)"
    by (rule sum.cong) auto
  also have "(\<Sum>k \<in> set ks - {b}. q) = of_nat (length ks - 1) * q"
    using assms by (simp add: distinct_card)
  finally show ?thesis .
qed

definition fake_ready :: "jev_question \<Rightarrow> bool" where
  "fake_ready q = (case q of ChoiceQ t c \<Rightarrow> distinct (map fst c) \<and> 2 \<le> length c | NoulQ t c \<Rightarrow> True | ScoreQ t c \<Rightarrow> False)"

lemma fake_spread_valid:
  assumes "distinct ks" "2 \<le> length ks" "best \<in> set ks"
  shows "hasValidProbabilities (fake_spread best ks) ks" and "map_of (fake_spread best ks) best = Some (9 / 10)"
    and "foldl max (9 / 10) (map snd (fake_spread best ks)) = 9 / 10"
proof -
  let ?rest = "(1 - 9 / 10) / of_nat (length ks - 1) :: rat"
  have n: "of_nat (length ks) - (1 :: rat) = of_nat (length ks - 1)" "length ks - 1 > 0" using assms(2) by auto
  have sp: "fake_spread best ks = map (\<lambda>k. (k, if k = best then 9 / 10 else ?rest)) ks"
    using assms(2) n(1) by (simp add: fake_spread_def)
  have ps: "map_of (fake_spread best ks) k = (if k \<in> set ks then Some (if k = best then 9 / 10 else ?rest) else None)" for k
    unfolding sp map_of_map_restrict restrict_map_def by simp
  have snds: "map snd (fake_spread best ks) = map (\<lambda>k. if k = best then 9 / 10 else ?rest) ks"
    unfolding sp by (simp add: comp_def)
  have "of_nat (length ks - 1) * ?rest = 1 / 10" using n(2) by (simp del: of_nat_diff)
  then have "sum_list (map snd (fake_spread best ks)) = 1"
    unfolding snds two_level_sum [OF assms(1,3)] by simp
  moreover have "length (fake_spread best ks) = length ks" by (simp add: sp)
  ultimately show "hasValidProbabilities (fake_spread best ks) ks"
    using ps by (auto simp: hasValidProbabilities_def PROBABILITY_SUM_TOLERANCE_def list_ex_iff split: if_splits)
  show "map_of (fake_spread best ks) best = Some (9 / 10)" using ps assms(3) by simp
  have "?rest \<le> 9 / 10" using n(2) by (simp add: divide_le_eq)
  then show "foldl max (9 / 10) (map snd (fake_spread best ks)) = 9 / 10"
    unfolding snds by (intro foldl_max_below) auto
qed

lemma fakeChoice_valid:
  assumes "map fst criteria = map fst c" "distinct (map fst c)" "2 \<le> length c"
  shows "validateClassifierAnswer (ChoiceQ t c) (fakeChoice criteria txt)"
proof -
  let ?best = "best_key criteria (word_list txt)"
  have "criteria \<noteq> []" using assms by auto
  from best_key_mem [OF this] assms(1) have best: "?best \<in> set (map fst c)" by (metis list.set_map)
  with fake_spread_valid [OF assms(2) _ best] assms(3) show ?thesis
    by (simp add: fakeChoice_def Let_def assms(1))
qed

lemma judged_json:
  "judged k i (ChoiceQ t c) = ChoiceQ (instructions (judged k i (ChoiceQ t c))) c"
  "judged k i (NoulQ t d) = NoulQ (instructions (judged k i (NoulQ t d))) d"
  by (simp_all add: judged_def)

lemma judged_ready: "fake_ready (judged k i q) = fake_ready q"
  by (cases q) (simp_all add: judged_def fake_ready_def)

lemma fake_answers_step:
  assumes "fake_ready q"
  obtains a where "validateClassifierAnswer q a"
    and "fake_answers state ((key, question_json q) # qs) acc = fake_answers state qs (AList.update key a acc)"
proof (cases q)
  case (ChoiceQ t c)
  let ?json = "map (\<lambda>(k, v). (k, case v of None \<Rightarrow> JNull | Some w \<Rightarrow> text_json w)) c"
  have "map fst ?json = map fst c" by (simp add: comp_def case_prod_beta)
  with assms have "validateClassifierAnswer q (fakeChoice ?json t)" for t
    using fakeChoice_valid [of ?json c] by (simp add: ChoiceQ fake_ready_def)
  then show thesis
    by (rule that) (simp add: ChoiceQ member_of_def members_def get_member_def Let_def)
next
  case (NoulQ t d)
  have "validateClassifierAnswer q (fakeNoul (question_json q) t)" for t
    by (simp add: NoulQ fakeNoul_def Let_def)
  then show thesis
    by (rule that) (simp add: NoulQ member_of_def members_def get_member_def Let_def)
next
  case (ScoreQ t c)
  with assms show thesis by (simp add: fake_ready_def)
qed

abbreviation answers_match :: "(string \<times> jev_answer) list \<Rightarrow> (string \<times> jev_question) list \<Rightarrow> bool" where
  "answers_match as qs \<equiv> list_all2 (\<lambda>(k, a) (k', q). k = k' \<and> validateClassifierAnswer q a) as qs"

lemma fake_answers_ok:
  assumes "\<forall>(k, q) \<in> set qs. fake_ready q" "distinct (map fst acc @ map fst qs)"
  shows "\<exists>as. fake_answers state (map (\<lambda>(k, q). (k, question_json q)) qs) acc = Inr (acc @ as) \<and> answers_match as qs"
  using assms
proof (induction qs arbitrary: acc)
  case (Cons p qs)
  obtain k q where p: "p = (k, q)" by (cases p)
  from Cons.prems have "fake_ready q" by (simp add: p)
  then obtain a where a: "validateClassifierAnswer q a"
    "fake_answers state ((k, question_json q) # map (\<lambda>(k, q). (k, question_json q)) qs) acc =
       fake_answers state (map (\<lambda>(k, q). (k, question_json q)) qs) (AList.update k a acc)"
    by (rule fake_answers_step)
  have fresh: "AList.update k a acc = acc @ [(k, a)]" using Cons.prems(2) by (intro update_fresh) (auto simp: p)
  from Cons.IH [of "acc @ [(k, a)]"] Cons.prems obtain as where
    "fake_answers state (map (\<lambda>(k, q). (k, question_json q)) qs) (acc @ [(k, a)]) = Inr (acc @ [(k, a)] @ as)"
    "answers_match as qs"
    by (auto simp: p)
  with a fresh show ?case by (intro exI [of _ "(k, a) # as"]) (simp add: p)
qed simp

lemma answers_match_lookup:
  "answers_match as qs \<Longrightarrow> map_of qs k = Some q \<Longrightarrow> \<exists>a. map_of as k = Some a \<and> validateClassifierAnswer q a"
  by (induction rule: list_all2_induct) (auto split: if_splits)

lemma checked_answers_ok:
  "(\<forall>m \<in> set ms. \<exists>a q. map_of (resp_answers r) (questionId m) = Some a \<and> map_of (questions b) (questionId m) = Some q \<and>
     validateClassifierAnswer q a) \<Longrightarrow> check_mappings b r ms = Inr r"
  by (induction ms) auto

lemma fake_asked:
  assumes "enabled config" "apiKey config = Some FAKE_API_KEY" "\<forall>(k, q) \<in> set qs. fake_ready q" "distinct (map fst qs)"
  shows "\<exists>r. askJev fake_env config state qs = Inr r \<and> answers_match (resp_answers r) qs"
proof -
  let ?body = "JObj [(''state'', JObj state), (''model'', JStr (jev_model config)),
      (''questions'', JObj (map (\<lambda>(k, q). (k, question_json q)) qs))]"
  from fake_answers_ok [OF assms(3), of "[]" "JObj state"] assms(4)
  obtain as where "fake_answers (JObj state) (map (\<lambda>(k, q). (k, question_json q)) qs) [] = Inr as" "answers_match as qs"
    by auto
  then obtain r where r: "fakeJevFetch ?body = Inr r" "answers_match (resp_answers r) qs"
    by (auto simp: fakeJevFetch_def member_of_def members_def get_member_def)
  have "FAKE_API_KEY \<noteq> ''''" by (simp add: FAKE_API_KEY_def)
  with r assms(1,2) show ?thesis by (simp add: askJev_def fake_env_def)
qed

lemma fake_validated:
  assumes b: "b = materializeBatch s cs model start rs" and ready: "\<forall>(n, q) \<in> set (classifiers cs). fake_ready q"
    and config: "enabled config" "apiKey config = Some FAKE_API_KEY"
  shows "\<exists>r. askJev fake_env config (batch_state b) (questions b) = Inr r \<and> validateJevBatchResponse b r = Inr r"
proof -
  let ?as = "asked start (classifiers cs) rs"
  have qs: "questions b = map (\<lambda>(m, q). (questionId m, q)) ?as" unfolding b by (rule questions_materialize)
  have dist: "distinct (map fst (questions b))"
    using distinct_asked [of start "classifiers cs" rs] unfolding qs by (simp add: comp_def case_prod_beta)
  have "fake_ready q" if "(m, q) \<in> set ?as" for m q
  proof -
    from that obtain l c where "c < length (classifiers cs)" "q = judged (rec_key (rs ! l)) l (snd (classifiers cs ! c))"
      by (auto simp: in_asked)
    moreover have "fake_ready (snd p)" if "p \<in> set (classifiers cs)" for p using ready that by (cases p) auto
    ultimately show ?thesis using nth_mem by (auto simp: judged_ready)
  qed
  then have "\<forall>(k, q) \<in> set (questions b). fake_ready q" unfolding qs by auto
  with fake_asked [OF config _ dist] obtain r where
    r: "askJev fake_env config (batch_state b) (questions b) = Inr r" "answers_match (resp_answers r) (questions b)"
    by blast
  have "length (resp_answers r) = length (mappings b)"
    using list_all2_lengthD [OF r(2)] arg_cong [OF qs, of length] by (simp add: b mappings_materialize)
  moreover have "check_mappings b r (mappings b) = Inr r"
  proof (rule checked_answers_ok, rule ballI)
    fix m assume "m \<in> set (mappings b)"
    then obtain q where "(m, q) \<in> set ?as" by (auto simp: b mappings_materialize)
    then have "map_of (questions b) (questionId m) = Some q" unfolding b by (rule question_of_mapping)
    with answers_match_lookup [OF r(2)] show "\<exists>a q. map_of (resp_answers r) (questionId m) = Some a \<and>
        map_of (questions b) (questionId m) = Some q \<and> validateClassifierAnswer q a" by blast
  qed
  ultimately show ?thesis using r(1) by (auto simp: validateJevBatchResponse_def)
qed

subsection \<open>A run over the stand-in\<close>

lemma staged_if_checked: "check_mappings b r ms = Inr x \<Longrightarrow> \<exists>out'. stage_mappings r ms out = Inr out'"
proof (induction ms arbitrary: out)
  case (Cons m ms)
  then obtain a where "map_of (resp_answers r) (questionId m) = Some a" "check_mappings b r ms = Inr x"
    by (auto split: option.splits if_splits)
  with Cons.IH [of "stage r m a out"] show ?case by simp
qed simp

definition fake_batch :: "classifier_set \<Rightarrow> jev_batch \<Rightarrow> bool" where
  "fake_batch cs b \<longleftrightarrow> (\<exists>shared model start rs. b = materializeBatch shared cs model start rs)"

lemma fake_run:
  assumes "\<forall>(n, q) \<in> set (classifiers cs). fake_ready q" "enabled config" "apiKey config = Some FAKE_API_KEY"
  shows "\<forall>b \<in> set bs. fake_batch cs b \<Longrightarrow> \<exists>out'. run_batches fake_env config bs out = Inr out'"
proof (induction bs arbitrary: out)
  case (Cons b bs)
  then obtain shared model start rs where "b = materializeBatch shared cs model start rs" by (auto simp: fake_batch_def)
  from fake_validated [OF this assms] obtain r where
    r: "askJev fake_env config (batch_state b) (questions b) = Inr r" "validateJevBatchResponse b r = Inr r" by blast
  then have "check_mappings b r (mappings b) = Inr r" by (simp add: validateJevBatchResponse_def split: if_splits)
  from staged_if_checked [OF this] obtain out' where
    "stage_mappings r (mappings b) (out\<lparr>inputTokens := inputTokens out + input_tokens r,
       outputTokens := outputTokens out + output_tokens r\<rparr>) = Inr out'" by blast
  with r Cons.IH [of out'] Cons.prems show ?case by simp
qed simp

lemma fake_lanes:
  assumes "\<forall>(n, q) \<in> set (classifiers cs). fake_ready q" "enabled config" "apiKey config = Some FAKE_API_KEY"
    and "\<forall>lane \<in> set lanes. \<forall>b \<in> set (batches lane). fake_batch cs b"
  shows "failures (runLanes fake_env config lanes) = []"
proof -
  have "failures (foldl (\<lambda>acc plan. settle (executeJevBatchPlan fake_env config plan) plan acc) acc ls) = failures acc"
    if "\<forall>lane \<in> set ls. \<forall>b \<in> set (batches lane). fake_batch cs b" for acc ls
    using that
  proof (induction ls arbitrary: acc)
    case (Cons l ls)
    then obtain v where "executeJevBatchPlan fake_env config l = Inr v"
      using fake_run [OF assms(1-3)] unfolding executeJevBatchPlan_def by (meson list.set_intros(1))
    with Cons show ?case by (simp add: settle_def)
  qed simp
  with assms(4) show ?thesis by (simp add: runLanes_def EMPTY_OUTCOME_def)
qed

lemma route_sets_ready:
  assumes "distinct (map row_name (matrix_rows m))" "2 \<le> length (matrix_rows m)"
    and "cs \<in> {buildRouteClassifierSet m, buildRouteClassifierSetV2 m}"
  shows "\<forall>(n, q) \<in> set (classifiers cs). fake_ready q"
proof -
  have dist: "distinct (map (\<lambda>r. dest_name (row_name r)) (matrix_rows m))"
    using assms(1) by (simp add: distinct_map inj_on_def)
  have none: "NONE_OPTION \<noteq> dest_name d" for d by (cases d) (simp_all add: NONE_OPTION_def)
  have v2: "AList.update NONE_OPTION x (map (\<lambda>r. (dest_name (row_name r), f r)) (matrix_rows m)) =
      map (\<lambda>r. (dest_name (row_name r), f r)) (matrix_rows m) @ [(NONE_OPTION, x)]" for f :: "matrix_row \<Rightarrow> jev_text option" and x
    by (rule update_fresh) (use none in \<open>auto simp: comp_def\<close>)
  have choice: "fake_ready (ChoiceQ t (map (\<lambda>r. (dest_name (row_name r), f r)) (matrix_rows m)))"
    "fake_ready (ChoiceQ t (AList.update NONE_OPTION x (map (\<lambda>r. (dest_name (row_name r), f r)) (matrix_rows m))))"
    for t f x
    unfolding v2 using dist assms(2) none by (auto simp: fake_ready_def comp_def)
  have noul: "fake_ready (NoulQ t d)" for t d by (simp add: fake_ready_def)
  from assms(3) show ?thesis
    by (auto simp: buildRouteClassifierSet_def buildRouteClassifierSetV2_def choice noul)
qed

lemma drop_loop_batches:
  "drop_loop remaining cs config dropped = Inr (plan, ds) \<Longrightarrow> \<forall>b \<in> set (batches plan). route_batch cs config b"
proof (induction remaining cs config dropped rule: drop_loop.induct)
  case (1 remaining cs config dropped)
  show ?case
  proof (cases "buildJevBatchPlan [(''task'', JStr SHARED_TASK)] remaining cs config")
    case (Inr p)
    with 1(2) have "p = plan" by (simp add: drop_loop.simps)
    with buildJevBatchPlan_cases [where sharedState = "[(''task'', JStr SHARED_TASK)]" and records = remaining
        and cs = cs and limits = config] greedy_batches
    show ?thesis by (fastforce simp: Inr)
  next
    case (Inl e)
    from 1(2) Inl obtain k where k: "is_too_large e" "tooLargeKey e remaining = Some k"
      by (subst (asm) drop_loop.simps) (auto split: if_splits option.splits)
    show ?thesis
    proof (cases "filter (\<lambda>r. rec_key r \<noteq> k) remaining = []")
      case True
      with 1(2) Inl k show ?thesis by (subst (asm) drop_loop.simps) (auto simp: Let_def)
    next
      case False
      then have "drop_loop (filter (\<lambda>r. rec_key r \<noteq> k) remaining) cs config (dropped @ [k]) = Inr (plan, ds)"
        using 1(2) Inl k by (subst (asm) drop_loop.simps) (simp add: Let_def del: filter_empty_conv)
      with 1(1) [OF Inl _ k(2) refl False] k(1) show ?thesis by simp
    qed
  qed
qed

text \<open>A choice of a single option is valid as a question and refused as an answer: its one
  probability is 0.9.\<close>

lemma single_option_refused:
  "trim k \<noteq> '''' \<Longrightarrow> validateChoiceCriteria n [(k, None)] = Inr () \<and>
     \<not> validateClassifierAnswer (ChoiceQ t [(k, None)]) (fakeChoice [(k, JNull)] txt)"
  by (simp add: validateChoiceCriteria_def fakeChoice_def fake_spread_def hasValidProbabilities_def
      PROBABILITY_SUM_TOLERANCE_def Let_def)

text \<open>The local stand-in keeps its promise. For every matrix the loader accepts and both question
  sets, no request of a planned run fails over it: no record carries a failure, and every record
  of every lane gets an answer to each question of the set.\<close>

theorem stand_in_answers_everything:
  assumes "loadMatrix h path txt = Inr m"
    and "cs \<in> {buildRouteClassifierSet m, buildRouteClassifierSetV2 m}"
    and "planWithDrops records cs fakeConfig = Inr (plan, dropped)"
    and "splitPlan plan inFlight = Inr lanes"
  defines "out \<equiv> runLanes fake_env fakeConfig lanes"
  shows "failures out = [] \<and> (\<forall>lane \<in> set lanes. \<forall>k \<in> set (laneKeys lane).
     \<exists>a. map_of (lane_answers out) k = Some a \<and> (\<forall>n \<in> fst ` set (classifiers cs). map_of a n \<noteq> None))"
proof -
  from assms(1) have "\<forall>d \<in> set DESTINATIONS. length (filter (\<lambda>r. row_name r = d) (matrix_rows m)) = 1"
    by (auto simp: loadMatrix_def Let_def res_bind_Inr check_destinations_ok)
  then have "filter (\<lambda>r. row_name r = d) (matrix_rows m) \<noteq> []" if "d \<in> set DESTINATIONS" for d
    using that by fastforce
  then have "set DESTINATIONS \<subseteq> set (map row_name (matrix_rows m))"
    by (simp add: filter_empty_conv subset_iff image_iff) metis
  from card_mono [OF _ this] have "2 \<le> length (matrix_rows m)"
    using card_length [of "map row_name (matrix_rows m)"] by (simp add: DESTINATIONS_def)
  note ready = route_sets_ready [OF loadMatrix_distinct [OF assms(1)] this assms(2)]
  have config: "enabled fakeConfig" "apiKey fakeConfig = Some FAKE_API_KEY" by (simp_all add: fakeConfig_def)
  have cs: "classifiers cs \<noteq> []" using assms(2) by (auto simp: buildRouteClassifierSet_def buildRouteClassifierSetV2_def)
  from assms(3) obtain ds where "drop_loop records cs fakeConfig [] = Inr (plan, ds)"
    by (auto simp: planWithDrops_def res_bind_Inr)
  note route = drop_loop_batches [OF this]
  from assms(4) have "1 \<le> inFlight" by (auto simp: splitPlan_def split: if_splits)
  from splitPlan_parts [OF this, of plan] obtain bs where
    bs': "splitPlan plan inFlight = Inr (map (\<lambda>b. \<lparr>classifierSet = classifierSet plan, batches = b\<rparr>) bs)"
      "mset (concat bs) = mset (batches plan)"
    by blast
  then have bs: "lanes = map (\<lambda>b. \<lparr>classifierSet = classifierSet plan, batches = b\<rparr>) bs" "mset (concat bs) = mset (batches plan)"
    using assms(4) by simp_all
  have "set (concat bs) = set (batches plan)" using bs(2) by (metis set_mset_mset)
  then have all: "\<forall>lane \<in> set lanes. \<forall>b \<in> set (batches lane). route_batch cs fakeConfig b"
    using route by (auto simp: bs(1))
  then have "\<forall>lane \<in> set lanes. \<forall>b \<in> set (batches lane). fake_batch cs b" unfolding fake_batch_def by blast
  from fake_lanes [OF ready config this] have none: "failures out = []" by (simp add: out_def)
  moreover have "\<exists>a. map_of (lane_answers out) k = Some a \<and> (\<forall>n \<in> fst ` set (classifiers cs). map_of a n \<noteq> None)"
    if "lane \<in> set lanes" "k \<in> set (laneKeys lane)" for lane k
  proof -
    have "complete cs (lane_answers out) \<and> accounted out k"
      unfolding out_def by (rule runLanes_accounts [OF all cs that])
    with none show ?thesis by (auto simp: complete_def accounted_def)
  qed
  ultimately show ?thesis by blast
qed

subsection \<open>A concrete run\<close>

lemma one_record_planned:
  assumes "batch_fits config (materializeBatch [(''task'', JStr SHARED_TASK)] cs (jev_model config) 0 [r])"
    and "validateClassifierSet cs = Inr ()"
  shows "planWithDrops [r] cs config = Inr (\<lparr>classifierSet = cs,
    batches = [materializeBatch [(''task'', JStr SHARED_TASK)] cs (jev_model config) 0 [r]]\<rparr>, [])"
proof -
  let ?s = "[(''task'', JStr SHARED_TASK)]"
  let ?b = "materializeBatch ?s cs (jev_model config) 0 [r]"
  have "accepted_batch ?s [r] cs config 0 = Some ?b"
    using assms(1) by (simp add: accepted_batch_def widest.simps slice_def)
  then have "plan_from ?s [r] cs config 0 = Inr [?b]" by (simp add: plan_from.simps)
  then have "buildJevBatchPlan ?s [r] cs config = Inr \<lparr>classifierSet = cs, batches = [?b]\<rparr>"
    by (simp add: buildJevBatchPlan_def assms(2))
  then show ?thesis by (simp add: planWithDrops_def drop_loop.simps)
qed

definition stand_in_batch :: jev_batch where
  "stand_in_batch = materializeBatch [(''task'', JStr SHARED_TASK)] (buildRouteClassifierSet sample_matrix) DEFAULT_JEV_MODEL 0
     [sample_record ''a'']"

lemma stand_in_batch_fits: "batch_fits fakeConfig stand_in_batch"
proof -
  have "estimatedRequestBytes stand_in_batch \<le> 3000 \<and> estimatedStateQuestionBytes stand_in_batch \<le> 3000" by code_simp
  then show ?thesis
    by (simp add: batch_fits_def fakeConfig_def DEFAULT_JEV_MAX_REQUEST_BYTES_def DEFAULT_JEV_MAX_STATE_QUESTION_BYTES_def)
qed

lemma stand_in_answers_everything_witness:
  "\<exists>lane. batches lane = [stand_in_batch] \<and> failures (runLanes fake_env fakeConfig [lane]) = [] \<and>
     map_of (lane_answers (runLanes fake_env fakeConfig [lane])) ''a'' \<noteq> None"
proof -
  let ?cs = "buildRouteClassifierSet sample_matrix"
  let ?plan = "\<lparr>classifierSet = ?cs, batches = [stand_in_batch]\<rparr>"
  have load: "loadMatrix (\<lambda>s. ''0123456789abcdef'') ''m.tsv'' (render_matrix (matrix_rows sample_matrix)) = Inr sample_matrix"
    by code_simp
  have model: "jev_model fakeConfig = DEFAULT_JEV_MODEL" by (simp add: fakeConfig_def)
  have "validateClassifierSet ?cs = Inr ()" by (rule route_set_valid) (simp add: sample_matrix_def DESTINATIONS_def)
  from one_record_planned [OF _ this, of fakeConfig "sample_record ''a''"]
  have plan: "planWithDrops [sample_record ''a''] ?cs fakeConfig = Inr (?plan, [])"
    using stand_in_batch_fits by (simp add: stand_in_batch_def model)
  have split: "splitPlan ?plan 1 = Inr [?plan]" by (simp add: splitPlan_def)
  have "?cs \<in> {buildRouteClassifierSet sample_matrix, buildRouteClassifierSetV2 sample_matrix}" by simp
  from stand_in_answers_everything [OF load this plan split]
  have "failures (runLanes fake_env fakeConfig [?plan]) = []"
    "\<forall>k \<in> set (laneKeys ?plan). \<exists>a. map_of (lane_answers (runLanes fake_env fakeConfig [?plan])) k = Some a"
    by auto
  moreover have "''a'' \<in> set (laneKeys ?plan)" by (simp add: laneKeys_def stand_in_batch_def sample_record_def)
  ultimately show ?thesis by (intro exI [of _ ?plan]) auto
qed

end
