(* ===== verification/RouteJob.thy ===== *)
theory RouteJob
  imports FakeBackend
begin

text \<open>
  The scheduled \<open>dream.route\<close> job (\<open>server/maintenance/dream-route.ts\<close>) over the tables it
  reads and writes (\<open>server/db/dream-route-repository.ts\<close>,
  \<open>server/db/dream-route-apply-repository.ts\<close>, and the inserts of
  \<open>reviewed-candidate-promotion-repository.ts\<close>, \<open>session-repository.ts\<close> and
  \<open>tier-moves.ts\<close> it goes through).

  A job reads a slice outside any transaction, asks the classifier, and writes in one transaction
  that starts with an advisory lock; so reading and writing are the two atomic steps of the
  machine below, jobs interleave between them, and other writers may change the candidate and
  entry tables at any time. Of a stored row the model keeps the columns the properties speak of;
  the run header and the metrics are not modelled.
\<close>

subsection \<open>The tables\<close>

record candidate_row =
  row_snapshot :: candidate_snapshot
  row_parent :: "string option"
  row_embedding :: "string option"
  row_created :: int

record decision_row =
  dec_run :: string
  dec_candidate :: string
  dec_namespace :: string
  dec_decision :: route_decision
  dec_model :: "string option"

record entry_row =
  entry_namespace :: string
  entry_hash :: string
  entry_content :: string
  entry_embedding :: "string option"
  entry_candidate :: string
  entry_run :: string

record route_db =
  tab_candidates :: "candidate_row list"
  tab_runs :: "string list"
  tab_decisions :: "decision_row list"
  tab_thoughts :: "entry_row list"
  tab_lanes :: "string list"
  tab_events :: "entry_row list"
  tab_moves :: "(string \<times> string \<times> string) list"

subsection \<open>Reading the slice\<close>

definition routed_ids :: "route_db \<Rightarrow> string set" where
  "routed_ids db = dec_candidate ` set (tab_decisions db)"

definition unrouted :: "route_db \<Rightarrow> string option \<Rightarrow> candidate_row \<Rightarrow> bool" where
  "unrouted db ns r \<longleftrightarrow> row_parent r = None \<and> row_embedding r \<noteq> None \<and>
     (ns = None \<or> ns = Some (snap_namespace (row_snapshot r))) \<and>
     snap_id (row_snapshot r) \<notin> routed_ids db"

definition slice_le :: "candidate_row \<Rightarrow> candidate_row \<Rightarrow> bool" where
  "slice_le = lex_le row_created (\<lambda>a b. snap_id (row_snapshot a) \<le> snap_id (row_snapshot b))"

definition readUnroutedSlice :: "route_db \<Rightarrow> string option \<Rightarrow> int \<Rightarrow> candidate_snapshot list result" where
  "readUnroutedSlice db ns sliceSize =
     (if sliceSize \<le> 0 then Inl (''sliceSize must be a positive integer, got '' @ show_int sliceSize)
      else Inr (map row_snapshot (take (nat sliceSize) (sort_by slice_le (filter (unrouted db ns) (tab_candidates db))))))"

subsection \<open>Classifying the slice\<close>

definition IN_FLIGHT :: int where "IN_FLIGHT = 8"

text \<open>The backend of a job: the local stand-in, or Jev with the configuration it was given, if any.\<close>

datatype backend = Fake | Jev "(jev_env \<times> jev_config) option"

record route_job =
  slice_size :: int
  max_usd :: rat
  job_namespace :: "string option"
  route_backend :: backend

text \<open>What the job takes from its surroundings: the collation, the hash, the matrix file and the
  two renderings of numbers (in a reason, and in the spend error).\<close>

record route_world =
  collate :: "string \<Rightarrow> string \<Rightarrow> bool"
  sha :: "string \<Rightarrow> string"
  matrix_path :: string
  matrix_file :: string
  number_text :: "rat \<Rightarrow> string"
  money_text :: "rat \<Rightarrow> string"

definition backendOf :: "route_job \<Rightarrow> (jev_env \<times> jev_config) result" where
  "backendOf job =
     (case route_backend job of
        Fake \<Rightarrow> Inr (fake_env, fakeConfig)
      | Jev None \<Rightarrow> Inl ''dream.route backend jev has no Jev config''
      | Jev (Some (env, config)) \<Rightarrow> Inr (env, config\<lparr>enabled := True\<rparr>))"

definition frozenRowsOf :: "candidate_snapshot list \<Rightarrow> frozen_row list" where
  "frozenRowsOf snaps = map (\<lambda>(i, s). \<lparr>ordinal = i, candidateId = snap_id s, frozen_namespace = snap_namespace s,
     contentHash = content_hash s, cohort = Draw, neighbourOf = None, snapshot = s\<rparr>) (enumerate 0 snaps)"

fun candidates_of :: "frozen_row list \<Rightarrow> route_candidate list result" where
  "candidates_of [] = Inr []"
| "candidates_of (r # rs) = res_bind (candidateOf r) (\<lambda>c. res_bind (candidates_of rs) (\<lambda>cs. Inr (c # cs)))"

record routed_item =
  item_row :: frozen_row
  item_decision :: route_decision
  item_action :: apply_action
  item_model :: "string option"

definition decide_row ::
  "(rat \<Rightarrow> string) \<Rightarrow> route_matrix \<Rightarrow> lane_outcome \<Rightarrow> (string, string) jsmap \<Rightarrow> frozen_row \<Rightarrow> route_candidate \<Rightarrow> routed_item" where
  "decide_row shown m out dropped r c =
     (let key = candidateId r;
          failure = (case map_of dropped key of Some f \<Rightarrow> Some f | None \<Rightarrow> map_of (failures out) key);
          as = (case map_of (lane_answers out) key of Some a \<Rightarrow> a | None \<Rightarrow> []);
          decided = decideRouteV2 shown c as m DEFAULT_THRESHOLDS_V2;
          decision = (case failure of None \<Rightarrow> decided | Some f \<Rightarrow> failedDecision c f (authorityTier decided))
      in \<lparr>item_row = r, item_decision = decision, item_action = action (wouldApply decision m),
          item_model = map_of (lane_models out) key\<rparr>)"

fun decideRows ::
  "(rat \<Rightarrow> string) \<Rightarrow> route_matrix \<Rightarrow> lane_outcome \<Rightarrow> (string, string) jsmap \<Rightarrow> frozen_row list \<Rightarrow> routed_item list result" where
  "decideRows shown m out dropped [] = Inr []"
| "decideRows shown m out dropped (r # rs) =
     res_bind (candidateOf r) (\<lambda>c. res_bind (decideRows shown m out dropped rs)
       (\<lambda>items. Inr (decide_row shown m out dropped r c # items)))"

definition message_of :: "jev_error + 'a \<Rightarrow> 'a result" where
  "message_of r = (case r of Inl e \<Rightarrow> Inl (err_message e) | Inr x \<Rightarrow> Inr x)"

text \<open>What the endpoint said of the records, and what was never sent.\<close>

definition ask_route ::
  "route_world \<Rightarrow> route_job \<Rightarrow> route_matrix \<Rightarrow> classifier_record list \<Rightarrow> (lane_outcome \<times> (string, string) jsmap) result" where
  "ask_route w job m records =
     (let cset = buildRouteClassifierSetV2 m
      in res_bind (backendOf job) (\<lambda>(env, config).
         res_bind (message_of (planWithDrops records cset config)) (\<lambda>(plan, dropped).
         let cost = projectCost plan
         in if estimatedUsd cost > max_usd job
            then Inl (''dream.route projected $'' @ money_text w (estimatedUsd cost) @ '' over max $''
                   @ money_text w (max_usd job) @ ''; nothing sent'')
            else res_bind (if batches plan = [] then Inr EMPTY_OUTCOME
                   else res_bind (splitPlan plan IN_FLIGHT) (\<lambda>lanes. Inr (runLanes env config lanes)))
                   (\<lambda>out. Inr (out, put_all dropped [])))))"

definition classify :: "route_world \<Rightarrow> route_job \<Rightarrow> candidate_snapshot list \<Rightarrow> routed_item list result" where
  "classify w job snaps =
     (let ordered = orderForBatches (collate w) (frozenRowsOf snaps)
      in res_bind (candidates_of ordered) (\<lambda>cs.
         res_bind (loadMatrix (sha w) (matrix_path w) (matrix_file w)) (\<lambda>m.
         res_bind (ask_route w job m (map recordOfV2 cs)) (\<lambda>(out, dropped).
           decideRows (number_text w) m out dropped ordered))))"

subsection \<open>The write transaction\<close>

definition claimUnrouted :: "route_db \<Rightarrow> string list \<Rightarrow> string list" where
  "claimUnrouted db ids = filter (\<lambda>i. i \<notin> routed_ids db) ids"

definition writeRoutingRun :: "string \<Rightarrow> routed_item list \<Rightarrow> route_db \<Rightarrow> route_db" where
  "writeRoutingRun runId kept db =
     db\<lparr>tab_runs := tab_runs db @ [runId],
        tab_decisions := tab_decisions db @ map (\<lambda>e. \<lparr>dec_run = runId, dec_candidate = candidateId (item_row e),
          dec_namespace = frozen_namespace (item_row e), dec_decision = item_decision e, dec_model = item_model e\<rparr>) kept\<rparr>"

definition readCandidateEmbedding :: "route_db \<Rightarrow> candidate_snapshot \<Rightarrow> string option" where
  "readCandidateEmbedding db s =
     (case find (\<lambda>r. snap_id (row_snapshot r) = snap_id s \<and> snap_namespace (row_snapshot r) = snap_namespace s)
         (tab_candidates db) of
        Some r \<Rightarrow> row_embedding r | None \<Rightarrow> None)"

definition new_entry :: "string \<Rightarrow> route_db \<Rightarrow> candidate_snapshot \<Rightarrow> entry_row" where
  "new_entry runId db s = \<lparr>entry_namespace = snap_namespace s, entry_hash = content_hash s,
     entry_content = snap_content s, entry_embedding = readCandidateEmbedding db s,
     entry_candidate = snap_id s, entry_run = runId\<rparr>"

definition same_key :: "entry_row \<Rightarrow> entry_row \<Rightarrow> bool" where
  "same_key a b \<longleftrightarrow> entry_namespace a = entry_namespace b \<and> entry_hash a = entry_hash b"

definition applyThought :: "string \<Rightarrow> candidate_snapshot \<Rightarrow> route_db \<Rightarrow> route_db" where
  "applyThought runId s db =
     (let e = new_entry runId db s
      in if list_ex (same_key e) (tab_thoughts db) then db
         else db\<lparr>tab_thoughts := tab_thoughts db @ [e],
                 tab_moves := tab_moves db @ [(''thoughts'', content_hash s, runId)]\<rparr>)"

text \<open>A rule event is filed on its namespace's DREAM lane, created on first use; \<open>tab_events\<close> holds
  the events of those lanes, so the unique key (lane, hash) is (namespace, hash).\<close>

definition resolveLane :: "string \<Rightarrow> route_db \<Rightarrow> route_db" where
  "resolveLane ns db = (if ns \<in> set (tab_lanes db) then db else db\<lparr>tab_lanes := tab_lanes db @ [ns]\<rparr>)"

definition applyRuleEvent :: "string \<Rightarrow> candidate_snapshot \<Rightarrow> route_db \<Rightarrow> route_db" where
  "applyRuleEvent runId s db =
     (let db1 = resolveLane (snap_namespace s) db; e = new_entry runId db1 s
      in if list_ex (same_key e) (tab_events db1) then db1
         else db1\<lparr>tab_events := tab_events db1 @ [e],
                  tab_moves := tab_moves db1 @ [(''ob_session_events'', content_hash s, runId)]\<rparr>)"

definition applyRoutedDecision :: "string \<Rightarrow> routed_item \<Rightarrow> route_db \<Rightarrow> route_db" where
  "applyRoutedDecision runId e db =
     (case item_action e of
        Thought \<Rightarrow> applyThought runId (snapshot (item_row e)) db
      | Rule_event \<Rightarrow> applyRuleEvent runId (snapshot (item_row e)) db
      | Reinforce \<Rightarrow> db
      | Nothing \<Rightarrow> db)"

definition applyAll :: "string \<Rightarrow> routed_item list \<Rightarrow> route_db \<Rightarrow> route_db" where
  "applyAll runId kept db = foldl (\<lambda>db e. applyRoutedDecision runId e db) db kept"

definition kept_items :: "route_db \<Rightarrow> routed_item list \<Rightarrow> routed_item list" where
  "kept_items db items =
     (let unclaimed = claimUnrouted db (map (\<lambda>e. candidateId (item_row e)) items)
      in filter (\<lambda>e. candidateId (item_row e) \<in> set unclaimed) items)"

definition write_run :: "string \<Rightarrow> routed_item list \<Rightarrow> route_db \<Rightarrow> route_db" where
  "write_run runId items db =
     (let kept = kept_items db items
      in if kept = [] then db else applyAll runId kept (writeRoutingRun runId kept db))"

subsection \<open>Jobs that interleave\<close>

record route_system =
  sys_db :: route_db
  waiting_jobs :: "(string \<times> routed_item list) list"

text \<open>Other writers add and delete candidates and entries; the routing history has one writer.\<close>

definition others_may :: "route_db \<Rightarrow> route_db \<Rightarrow> bool" where
  "others_may db db' \<longleftrightarrow> tab_decisions db' = tab_decisions db \<and> tab_runs db' = tab_runs db \<and>
     distinct (map (\<lambda>r. snap_id (row_snapshot r)) (tab_candidates db'))"

inductive route_step :: "route_world \<Rightarrow> route_system \<Rightarrow> route_system \<Rightarrow> bool" where
  read: "readUnroutedSlice (sys_db s) (job_namespace job) (slice_size job) = Inr snaps \<Longrightarrow> snaps \<noteq> [] \<Longrightarrow>
     classify w job snaps = Inr items \<Longrightarrow>
     runId \<notin> set (tab_runs (sys_db s)) \<union> fst ` set (waiting_jobs s) \<Longrightarrow>
     route_step w s (s\<lparr>waiting_jobs := (runId, items) # waiting_jobs s\<rparr>)"
| commit: "(runId, items) \<in> set (waiting_jobs s) \<Longrightarrow>
     route_step w s (s\<lparr>sys_db := write_run runId items (sys_db s),
       waiting_jobs := filter (\<lambda>j. fst j \<noteq> runId) (waiting_jobs s)\<rparr>)"
| rollback: "route_step w s (s\<lparr>waiting_jobs := filter (\<lambda>j. fst j \<noteq> runId) (waiting_jobs s)\<rparr>)"
| others: "others_may (sys_db s) db' \<Longrightarrow> route_step w s (s\<lparr>sys_db := db'\<rparr>)"

inductive route_reach :: "route_world \<Rightarrow> route_system \<Rightarrow> bool" for w where
  start: "tab_decisions (sys_db s) = [] \<Longrightarrow> tab_runs (sys_db s) = [] \<Longrightarrow> waiting_jobs s = [] \<Longrightarrow>
     distinct (map (\<lambda>r. snap_id (row_snapshot r)) (tab_candidates (sys_db s))) \<Longrightarrow> route_reach w s"
| step: "route_reach w s \<Longrightarrow> route_step w s s' \<Longrightarrow> route_reach w s'"

inductive_cases route_stepE: "route_step w s s'"

subsection \<open>What a classified slice is\<close>

lemma order_subset: "set (orderForBatches lc rows) \<subseteq> set rows"
proof -
  have "set (roots rows) \<subseteq> set rows" by (auto simp: roots_def)
  with emit_spec [of "[]" rows "roots rows" lc]
  have "distinct (map candidateId (emit lc rows (roots rows) []))" "set (emit lc rows (roots rows) []) \<subseteq> set rows" by simp_all
  from emit_spec [OF this, of rows lc] show ?thesis by (simp add: orderForBatches_def)
qed

lemma frozen_ids: "map candidateId (frozenRowsOf snaps) = map snap_id snaps"
  by (rule nth_equalityI) (simp_all add: frozenRowsOf_def nth_enumerate_eq)

lemma frozen_row_snapshot: "r \<in> set (frozenRowsOf snaps) \<Longrightarrow> snapshot r \<in> set snaps \<and> candidateId r = snap_id (snapshot r)"
  by (auto simp: frozenRowsOf_def in_set_enumerate_eq)

lemma item_row_decide_row [simp]: "item_row (decide_row shown m out dropped r c) = r"
  by (simp add: decide_row_def Let_def)

lemma decideRows_items:
  "decideRows shown m out dropped rs = Inr items \<Longrightarrow>
     map item_row items = rs \<and> (\<forall>e \<in> set items. \<exists>c. candidateOf (item_row e) = Inr c \<and>
       e = decide_row shown m out dropped (item_row e) c)"
proof (induction rs arbitrary: items)
  case Nil
  then show ?case by simp
next
  case (Cons r rs)
  then obtain c rest where "candidateOf r = Inr c" "decideRows shown m out dropped rs = Inr rest"
    "items = decide_row shown m out dropped r c # rest" by (auto simp: res_bind_Inr)
  with Cons.IH [of rest] show ?case by simp
qed

lemma classify_cases:
  assumes "classify w job snaps = Inr items"
  obtains m out dropped cs where "loadMatrix (sha w) (matrix_path w) (matrix_file w) = Inr m"
    and "candidates_of (orderForBatches (collate w) (frozenRowsOf snaps)) = Inr cs"
    and "ask_route w job m (map recordOfV2 cs) = Inr (out, dropped)"
    and "map item_row items = orderForBatches (collate w) (frozenRowsOf snaps)"
    and "\<forall>e \<in> set items. \<exists>c. candidateOf (item_row e) = Inr c \<and>
      e = decide_row (number_text w) m out dropped (item_row e) c"
  using assms that decideRows_items unfolding classify_def Let_def
  by (fastforce simp: res_bind_Inr)

lemma classify_ids:
  assumes "classify w job snaps = Inr items" "distinct (map snap_id snaps)"
  shows "distinct (map (\<lambda>e. candidateId (item_row e)) items)"
    and "(\<lambda>e. candidateId (item_row e)) ` set items = snap_id ` set snaps"
proof -
  from assms(1) have rows: "map item_row items = orderForBatches (collate w) (frozenRowsOf snaps)"
    by (rule classify_cases)
  have ids: "distinct (map candidateId (frozenRowsOf snaps))" using assms(2) by (simp add: frozen_ids)
  from batch_order_keeps_neighbours' [OF ids, of "collate w"] rows
  have "mset (map item_row items) = mset (frozenRowsOf snaps)" by simp
  then have "mset (map candidateId (map item_row items)) = mset (map candidateId (frozenRowsOf snaps))"
    by (simp only: mset_map)
  then have eq: "mset (map (\<lambda>e. candidateId (item_row e)) items) = mset (map snap_id snaps)"
    by (simp add: frozen_ids comp_def)
  from eq assms(2) show "distinct (map (\<lambda>e. candidateId (item_row e)) items)"
    using mset_eq_imp_distinct_iff by blast
  from arg_cong [OF eq, of set_mset] show "(\<lambda>e. candidateId (item_row e)) ` set items = snap_id ` set snaps" by simp
qed

lemma slice_ids:
  assumes "readUnroutedSlice db ns n = Inr snaps"
    and "distinct (map (\<lambda>r. snap_id (row_snapshot r)) (tab_candidates db))"
  shows "distinct (map snap_id snaps)" and "\<forall>s \<in> set snaps. snap_id s \<notin> routed_ids db"
proof -
  let ?f = "filter (unrouted db ns) (tab_candidates db)"
  let ?id = "\<lambda>r. snap_id (row_snapshot r)"
  from assms(1) have snaps: "snaps = map row_snapshot (take (nat n) (sort_by slice_le ?f))"
    by (auto simp: readUnroutedSlice_def split: if_splits)
  have "distinct (map ?id ?f)" using assms(2) by (induction "tab_candidates db") (auto simp: distinct_map_filter)
  then have "distinct (map ?id (sort_by slice_le ?f))"
    by (metis mset_map mset_sort_by mset_eq_imp_distinct_iff)
  then have "distinct (take (nat n) (map ?id (sort_by slice_le ?f)))" by (rule distinct_take)
  then show "distinct (map snap_id snaps)" by (simp add: snaps take_map comp_def)
  show "\<forall>s \<in> set snaps. snap_id s \<notin> routed_ids db"
    by (auto simp: snaps unrouted_def dest!: in_set_takeD)
qed

subsection \<open>Each candidate is routed once\<close>

lemma apply_frame [frame_simps]:
  "tab_decisions (applyRoutedDecision runId e db) = tab_decisions db"
  "tab_runs (applyRoutedDecision runId e db) = tab_runs db"
  "tab_candidates (applyRoutedDecision runId e db) = tab_candidates db"
  by (auto simp: applyRoutedDecision_def applyThought_def applyRuleEvent_def resolveLane_def Let_def
      split: apply_action.split)

lemma applyAll_frame [frame_simps]:
  "tab_decisions (applyAll runId kept db) = tab_decisions db"
  "tab_runs (applyAll runId kept db) = tab_runs db"
  "tab_candidates (applyAll runId kept db) = tab_candidates db"
  unfolding applyAll_def by (induction kept arbitrary: db) (simp_all add: frame_simps)

lemma kept_items_eq: "kept_items db items = filter (\<lambda>e. candidateId (item_row e) \<notin> routed_ids db) items"
  unfolding kept_items_def claimUnrouted_def Let_def by (rule filter_cong) auto

lemma write_run_tables:
  "tab_decisions (write_run runId items db) = tab_decisions db @
     map (\<lambda>e. \<lparr>dec_run = runId, dec_candidate = candidateId (item_row e),
       dec_namespace = frozen_namespace (item_row e), dec_decision = item_decision e, dec_model = item_model e\<rparr>)
       (kept_items db items)"
  "tab_runs (write_run runId items db) = (if kept_items db items = [] then tab_runs db else tab_runs db @ [runId])"
  "tab_candidates (write_run runId items db) = tab_candidates db"
  by (auto simp: write_run_def Let_def frame_simps writeRoutingRun_def)

definition route_inv :: "route_system \<Rightarrow> bool" where
  "route_inv s \<longleftrightarrow> distinct (map dec_candidate (tab_decisions (sys_db s))) \<and>
     distinct (tab_runs (sys_db s)) \<and> dec_run ` set (tab_decisions (sys_db s)) \<subseteq> set (tab_runs (sys_db s)) \<and>
     distinct (map fst (waiting_jobs s)) \<and> set (tab_runs (sys_db s)) \<inter> fst ` set (waiting_jobs s) = {} \<and>
     (\<forall>(runId, items) \<in> set (waiting_jobs s). distinct (map (\<lambda>e. candidateId (item_row e)) items)) \<and>
     distinct (map (\<lambda>r. snap_id (row_snapshot r)) (tab_candidates (sys_db s)))"

lemma distinct_without: "distinct (map fst js) \<Longrightarrow> distinct (map fst (filter P js))"
  by (simp add: distinct_map_filter)

lemma route_inv_commit:
  assumes inv: "route_inv s" and job: "(runId, items) \<in> set (waiting_jobs s)"
  shows "route_inv (s\<lparr>sys_db := write_run runId items (sys_db s),
       waiting_jobs := filter (\<lambda>j. fst j \<noteq> runId) (waiting_jobs s)\<rparr>)"
proof -
  let ?db = "sys_db s"
  let ?kept = "kept_items ?db items"
  let ?cand = "\<lambda>e. candidateId (item_row e)"
  have items: "distinct (map ?cand items)" using inv job by (auto simp: route_inv_def)
  have "distinct (map ?cand ?kept)" using items by (simp add: kept_items_eq distinct_map_filter)
  moreover have "set (map ?cand ?kept) \<inter> dec_candidate ` set (tab_decisions ?db) = {}"
    by (auto simp: kept_items_eq routed_ids_def)
  ultimately have "distinct (map dec_candidate (tab_decisions (write_run runId items ?db)))"
    using inv by (auto simp: write_run_tables route_inv_def comp_def)
  moreover have "runId \<notin> set (tab_runs ?db)" using inv job by (force simp: route_inv_def)
  then have "distinct (tab_runs (write_run runId items ?db))" using inv by (simp add: write_run_tables route_inv_def)
  moreover have "dec_run ` set (tab_decisions (write_run runId items ?db)) \<subseteq> set (tab_runs (write_run runId items ?db))"
    using inv by (auto simp: write_run_tables route_inv_def)
  moreover have "set (tab_runs (write_run runId items ?db)) \<inter> fst ` set (filter (\<lambda>j. fst j \<noteq> runId) (waiting_jobs s)) = {}"
    using inv by (auto simp: write_run_tables route_inv_def)
  ultimately show ?thesis
    using inv by (auto simp: route_inv_def write_run_tables(3) distinct_without)
qed

lemma route_inv_step: "route_inv s \<Longrightarrow> route_step w s s' \<Longrightarrow> route_inv s'"
proof (erule route_stepE, goal_cases)
  case (1 job snaps items runId)
  have "distinct (map snap_id snaps)"
    using 1 by (intro slice_ids(1)) (auto simp: route_inv_def)
  from classify_ids(1) [OF 1(5) this] 1 show ?case by (auto simp: route_inv_def)
next
  case (2 runId items)
  then show ?case by (simp add: route_inv_commit)
next
  case (3 runId)
  then show ?case by (auto simp: route_inv_def distinct_without)
next
  case (4 db')
  then show ?case by (auto simp: route_inv_def others_may_def)
qed

lemma route_reach_inv: "route_reach w s \<Longrightarrow> route_inv s"
proof (induction rule: route_reach.induct)
  case (start s)
  then show ?case by (simp add: route_inv_def)
next
  case (step s s')
  then show ?case using route_inv_step by blast
qed

lemma route_step_appends:
  assumes "route_step w s s'"
  shows "\<exists>ds. tab_decisions (sys_db s') = tab_decisions (sys_db s) @ ds"
  using assms by (cases rule: route_step.cases) (auto simp: write_run_tables others_may_def)

text \<open>C26: each candidate is routed at most once. However the reads and the write transactions of
  concurrent jobs interleave, and whatever other writers do to the candidate and entry tables, no
  candidate has two routing decisions, every decision belongs to a recorded run, run ids are
  never reused, and a step only ever appends to the history.\<close>

theorem each_candidate_routed_once:
  assumes "route_reach w s"
  shows "distinct (map dec_candidate (tab_decisions (sys_db s))) \<and>
    dec_run ` set (tab_decisions (sys_db s)) \<subseteq> set (tab_runs (sys_db s)) \<and> distinct (tab_runs (sys_db s)) \<and>
    (\<forall>s'. route_step w s s' \<longrightarrow> (\<exists>ds. tab_decisions (sys_db s') = tab_decisions (sys_db s) @ ds))"
  using route_reach_inv [OF assms] route_step_appends [of w s] by (simp add: route_inv_def)

subsection \<open>What a run writes\<close>

lemma failed_no_action: "agreement d = NoAgreement \<Longrightarrow> action (wouldApply d m) = Nothing"
  by (simp add: wouldApply_def)

lemma decide_row_action: "item_action (decide_row shown m out dropped r c) = action (wouldApply (item_decision (decide_row shown m out dropped r c)) m)"
  by (simp add: decide_row_def Let_def)

lemma decide_row_decided:
  assumes "item_action (decide_row shown m out dropped r c) \<noteq> Nothing"
  obtains as where "item_decision (decide_row shown m out dropped r c) = decideRouteV2 shown c as m DEFAULT_THRESHOLDS_V2"
    and "map_of dropped (candidateId r) = None" and "map_of (failures out) (candidateId r) = None"
    and "as = (case map_of (lane_answers out) (candidateId r) of Some a \<Rightarrow> a | None \<Rightarrow> [])"
  using assms that
  by (auto simp: decide_row_def Let_def failedDecision_def failed_no_action split: option.splits)

definition written_for :: "string \<Rightarrow> apply_action \<Rightarrow> routed_item \<Rightarrow> entry_row \<Rightarrow> bool" where
  "written_for runId a e x \<longleftrightarrow> item_action e = a \<and> entry_candidate x = snap_id (snapshot (item_row e)) \<and>
     entry_content x = snap_content (snapshot (item_row e)) \<and> entry_namespace x = snap_namespace (snapshot (item_row e)) \<and>
     entry_hash x = content_hash (snapshot (item_row e)) \<and> entry_run x = runId"

lemma apply_entries:
  "x \<in> set (tab_thoughts (applyRoutedDecision runId e db)) \<Longrightarrow>
     x \<in> set (tab_thoughts db) \<or> written_for runId Thought e x"
  "x \<in> set (tab_events (applyRoutedDecision runId e db)) \<Longrightarrow>
     x \<in> set (tab_events db) \<or> written_for runId Rule_event e x"
  by (auto simp: applyRoutedDecision_def applyThought_def applyRuleEvent_def resolveLane_def Let_def new_entry_def
      written_for_def split: apply_action.splits if_splits)

lemma applyAll_entries:
  "x \<in> set (tab_thoughts (applyAll runId kept db)) \<Longrightarrow>
     x \<in> set (tab_thoughts db) \<or> (\<exists>e \<in> set kept. written_for runId Thought e x)"
  "x \<in> set (tab_events (applyAll runId kept db)) \<Longrightarrow>
     x \<in> set (tab_events db) \<or> (\<exists>e \<in> set kept. written_for runId Rule_event e x)"
proof -
  have step: "applyAll runId (e # kept) db = applyAll runId kept (applyRoutedDecision runId e db)" for e kept db
    by (simp add: applyAll_def)
  show "x \<in> set (tab_thoughts (applyAll runId kept db)) \<Longrightarrow>
     x \<in> set (tab_thoughts db) \<or> (\<exists>e \<in> set kept. written_for runId Thought e x)"
    by (induction kept arbitrary: db) (auto simp: step applyAll_def dest: apply_entries(1))
  show "x \<in> set (tab_events (applyAll runId kept db)) \<Longrightarrow>
     x \<in> set (tab_events db) \<or> (\<exists>e \<in> set kept. written_for runId Rule_event e x)"
    by (induction kept arbitrary: db) (auto simp: step applyAll_def dest: apply_entries(2))
qed

lemma write_run_entries:
  "x \<in> set (tab_thoughts (write_run runId items db)) \<Longrightarrow> x \<notin> set (tab_thoughts db) \<Longrightarrow>
     \<exists>e \<in> set (kept_items db items). written_for runId Thought e x"
  "x \<in> set (tab_events (write_run runId items db)) \<Longrightarrow> x \<notin> set (tab_events db) \<Longrightarrow>
     \<exists>e \<in> set (kept_items db items). written_for runId Rule_event e x"
  by (auto simp: write_run_def Let_def writeRoutingRun_def dest!: applyAll_entries split: if_splits)

lemma candidateOf_kinds:
  assumes "candidateOf row = Inr c"
  shows "(unitKind c = Exchange) = (snap_unit_kind (snapshot row) = ''exchange'')"
    and "(anchorKind c = Some Typed) = (snap_anchor_kind (snapshot row) = Some ''typed'')"
    and "(anchorKind c = Some Askuserquestion) = (snap_anchor_kind (snapshot row) = Some ''askuserquestion'')"
  using assms
  by (auto simp: candidateOf_def checkUnions_def UNIT_KINDS_def ANCHOR_KINDS_def bad_def Let_def res_bind_Inr
      split: if_splits option.splits)

text \<open>The answers a written item was judged by.\<close>

definition cutoffs_passed :: "route_matrix \<Rightarrow> (string \<times> jev_answer) list \<Rightarrow> matrix_row \<Rightarrow> bool" where
  "cutoffs_passed m as r \<longleftrightarrow> r \<in> set (matrix_rows m) \<and> row_commits r \<and>
     (\<exists>l ps conf dr. noulAnswer as ''anything_lasting'' = Some l \<and> 55 / 100 \<le> l \<and>
        map_of as ''destination'' = Some (ChoiceA (dest_name (row_name r)) ps conf) \<and> 1 / 2 \<le> conf \<and>
        3 / 4 \<le> win_probability (dest_name (row_name r)) ps \<and> noulAnswer as ''drove_decision'' = Some dr)"

lemma decided_row_cutoffs:
  assumes m: "distinct (map row_name (matrix_rows m))" and c: "candidateOf row = Inr c"
    and e: "e = decide_row shown m out dropped row c" "item_action e \<noteq> Nothing"
  shows "\<exists>as r. map_of (lane_answers out) (candidateId row) = Some as \<and> cutoffs_passed m as r \<and>
    map_of dropped (candidateId row) = None \<and> map_of (failures out) (candidateId row) = None \<and>
    (item_action e = Rule_event \<longrightarrow> row_name r = Rule \<and> snap_unit_kind (snapshot row) = ''exchange'' \<and>
       (snap_anchor_kind (snapshot row) = Some ''typed'' \<or> snap_anchor_kind (snapshot row) = Some ''askuserquestion''))"
proof -
  from e obtain as where d: "item_decision e = decideRouteV2 shown c as m DEFAULT_THRESHOLDS_V2"
      "map_of dropped (candidateId row) = None" "map_of (failures out) (candidateId row) = None"
      "as = (case map_of (lane_answers out) (candidateId row) of Some a \<Rightarrow> a | None \<Rightarrow> [])"
    by (auto elim: decide_row_decided)
  let ?d = "decideRouteV2 shown c as m DEFAULT_THRESHOLDS_V2"
  have act: "item_action e = action (wouldApply ?d m)" using e(1) d(1) decide_row_action by metis
  with e(2) obtain r where r: "r \<in> set (matrix_rows m)" "row_commits r" "decided_for ?d = Some (row_name r)"
    using wouldApply_writes [OF m, of ?d] by auto
  then have passed: "cutoffs_passed m as r"
    unfolding cutoffs_passed_def using decideRouteV2_commits [of shown c as m DEFAULT_THRESHOLDS_V2 "row_name r"]
    by (auto simp: DEFAULT_THRESHOLDS_V2_def LASTING_ID_def DEST_V2_ID_def DROVE_DECISION_ID_def)
  then have "map_of (lane_answers out) (candidateId row) = Some as"
    using d(4) by (auto simp: cutoffs_passed_def split: option.splits)
  moreover have "row_name r = Rule \<and> snap_unit_kind (snapshot row) = ''exchange'' \<and>
      (snap_anchor_kind (snapshot row) = Some ''typed'' \<or> snap_anchor_kind (snapshot row) = Some ''askuserquestion'')"
    if "item_action e = Rule_event"
    using that r(3) wouldApply_rule_event [of ?d m] candidateOf_kinds [OF c]
    by (auto simp: act decideRouteV2_agreement authorityTierOf_def split: if_splits)
  ultimately show ?thesis using passed d(2,3) by blast
qed

text \<open>C27: what the scheduled job writes to memory passed every cutoff. Each thought or event a run
  adds is the content of a candidate of its slice that no run had routed before; the endpoint
  answered for that candidate, it was not dropped and its request did not fail, it was judged
  lasting at 0.55 or more, and the choice named a matrix row that commits with confidence of at
  least 0.5 and probability of at least 0.75. An event, which is always known, is added only for
  a rule that the operator typed or answered as a whole exchange.\<close>

theorem written_entries_passed_every_cutoff:
  assumes "classify w job snaps = Inr items"
    and "db' = write_run runId items db"
    and "x \<in> set (tab_thoughts db') - set (tab_thoughts db) \<or> x \<in> set (tab_events db') - set (tab_events db)"
  shows "\<exists>s m cs out dropped as r. s \<in> set snaps \<and> entry_content x = snap_content s \<and>
    entry_namespace x = snap_namespace s \<and> entry_candidate x = snap_id s \<and> snap_id s \<notin> routed_ids db \<and>
    loadMatrix (sha w) (matrix_path w) (matrix_file w) = Inr m \<and>
    candidates_of (orderForBatches (collate w) (frozenRowsOf snaps)) = Inr cs \<and>
    ask_route w job m (map recordOfV2 cs) = Inr (out, dropped) \<and>
    map_of dropped (snap_id s) = None \<and> map_of (failures out) (snap_id s) = None \<and>
    map_of (lane_answers out) (snap_id s) = Some as \<and> cutoffs_passed m as r \<and>
    (x \<notin> set (tab_thoughts db') - set (tab_thoughts db) \<longrightarrow> row_name r = Rule \<and> snap_unit_kind s = ''exchange'' \<and>
       (snap_anchor_kind s = Some ''typed'' \<or> snap_anchor_kind s = Some ''askuserquestion''))"
proof -
  from assms(1) obtain m out dropped cs where run:
    "loadMatrix (sha w) (matrix_path w) (matrix_file w) = Inr m"
    "candidates_of (orderForBatches (collate w) (frozenRowsOf snaps)) = Inr cs"
    "ask_route w job m (map recordOfV2 cs) = Inr (out, dropped)"
    "map item_row items = orderForBatches (collate w) (frozenRowsOf snaps)"
    "\<forall>e \<in> set items. \<exists>c. candidateOf (item_row e) = Inr c \<and>
      e = decide_row (number_text w) m out dropped (item_row e) c"
    by (rule classify_cases)
  obtain e a where e: "e \<in> set (kept_items db items)" "written_for runId a e x" "a \<noteq> Nothing"
      "x \<notin> set (tab_thoughts db') - set (tab_thoughts db) \<Longrightarrow> a = Rule_event"
  proof (cases "x \<in> set (tab_thoughts db') - set (tab_thoughts db)")
    case True
    with write_run_entries(1) [of x runId items db] that [where a = Thought] show thesis by (auto simp: assms(2))
  next
    case False
    with assms(3) have "x \<in> set (tab_events db')" "x \<notin> set (tab_events db)" by auto
    with write_run_entries(2) [of x runId items db] that [where a = Rule_event] show thesis by (auto simp: assms(2))
  qed
  then have mem: "e \<in> set items" "candidateId (item_row e) \<notin> routed_ids db" by (auto simp: kept_items_eq)
  obtain c where c: "candidateOf (item_row e) = Inr c" "e = decide_row (number_text w) m out dropped (item_row e) c"
    using run(5) mem(1) by blast
  have "item_action e \<noteq> Nothing" using e(2,3) by (simp add: written_for_def)
  note cut = decided_row_cutoffs [OF loadMatrix_distinct [OF run(1)] c this]
  have "item_row e \<in> set (map item_row items)" using mem(1) by simp
  then have "item_row e \<in> set (frozenRowsOf snaps)"
    unfolding run(4) using order_subset by blast
  note snap = frozen_row_snapshot [OF this]
  obtain as r where ar: "map_of (lane_answers out) (candidateId (item_row e)) = Some as" "cutoffs_passed m as r"
      "map_of dropped (candidateId (item_row e)) = None" "map_of (failures out) (candidateId (item_row e)) = None"
      "item_action e = Rule_event \<longrightarrow> row_name r = Rule \<and> snap_unit_kind (snapshot (item_row e)) = ''exchange'' \<and>
         (snap_anchor_kind (snapshot (item_row e)) = Some ''typed'' \<or>
          snap_anchor_kind (snapshot (item_row e)) = Some ''askuserquestion'')"
    using cut by blast
  show ?thesis
    by (rule exI [of _ "snapshot (item_row e)"], rule exI [of _ m], rule exI [of _ cs], rule exI [of _ out],
        rule exI [of _ dropped], rule exI [of _ as], rule exI [of _ r])
      (use ar e(2,4) snap mem(2) run(1-3) in \<open>auto simp: written_for_def\<close>)
qed

subsection \<open>A failed request is a decision\<close>

definition endpoint_down :: "jev_env \<Rightarrow> bool" where
  "endpoint_down env \<longleftrightarrow> (\<forall>u body. \<exists>e. jev_fetch env u body = Rejected e)"

lemma askJev_down: "endpoint_down env \<Longrightarrow> askJev env config state qs \<noteq> Inr r"
proof
  assume "endpoint_down env" and ok: "askJev env config state qs = Inr r"
  then obtain e where "jev_fetch env (baseUrl config)
      (JObj [(''state'', JObj state), (''model'', JStr (jev_model config)),
         (''questions'', JObj (map (\<lambda>(k, q). (k, question_json q)) qs))]) = Rejected e"
    unfolding endpoint_down_def by blast
  with ok show False by (auto simp: askJev_def res_bind_Inr split: if_splits)
qed

lemma execute_down: "endpoint_down env \<Longrightarrow> executeJevBatchPlan env config plan = Inr v \<Longrightarrow> answers v = []"
  by (cases "batches plan") (auto simp: executeJevBatchPlan_def res_bind_Inr askJev_down)

lemma runLanes_down: "endpoint_down env \<Longrightarrow> lane_answers (runLanes env config lanes) = []"
proof -
  assume down: "endpoint_down env"
  have "lane_answers (foldl (\<lambda>acc plan. settle (executeJevBatchPlan env config plan) plan acc) acc lanes) = lane_answers acc" for acc
  proof (induction lanes arbitrary: acc)
    case (Cons l ls)
    have "lane_answers (settle (executeJevBatchPlan env config l) l acc) = lane_answers acc"
      using execute_down [OF down, of config l] by (auto simp: settle_def put_all_def split: sum.split)
    with Cons.IH show ?case by simp
  qed simp
  then show ?thesis by (simp add: runLanes_def EMPTY_OUTCOME_def)
qed

lemma decideRouteV2_unanswered: "decided_for (decideRouteV2 shown c [] m th) = None"
  by (simp add: decideRouteV2_def noulAnswer_def noSignalDecision_def Let_def)

lemma decide_row_unanswered:
  assumes "lane_answers out = []"
  shows "decided_for (item_decision (decide_row shown m out dropped r c)) = None"
    and "item_action (decide_row shown m out dropped r c) = Nothing"
proof -
  let ?d = "item_decision (decide_row shown m out dropped r c)"
  have "decided_for ?d = None \<and> agreement ?d = NoAgreement"
    using assms decideRouteV2_agreement(1) [of shown c "[]" m DEFAULT_THRESHOLDS_V2]
    by (auto simp: decide_row_def Let_def failedDecision_def decideRouteV2_unanswered split: option.splits)
  then show "decided_for ?d = None" and "item_action (decide_row shown m out dropped r c) = Nothing"
    by (simp_all add: decide_row_action failed_no_action)
qed

lemma ask_route_down:
  assumes "ask_route w job m records = Inr (out, dropped)" "route_backend job = Jev (Some (env, config))" "endpoint_down env"
  shows "lane_answers out = []"
  using assms runLanes_down [OF assms(3)]
  by (auto simp: ask_route_def backendOf_def Let_def res_bind_Inr EMPTY_OUTCOME_def split: if_splits)

lemma write_run_nothing:
  assumes "\<forall>e \<in> set items. item_action e = Nothing"
  shows "tab_thoughts (write_run runId items db) = tab_thoughts db \<and> tab_events (write_run runId items db) = tab_events db"
proof -
  have "foldl (\<lambda>db e. applyRoutedDecision runId e db) db kept = db" if "\<forall>e \<in> set kept. item_action e = Nothing" for kept db
    using that by (induction kept arbitrary: db) (simp_all add: applyRoutedDecision_def)
  moreover have "\<forall>e \<in> set (kept_items db items). item_action e = Nothing" using assms by (auto simp: kept_items_eq)
  ultimately show ?thesis by (simp add: write_run_def applyAll_def writeRoutingRun_def Let_def)
qed

lemma write_run_routed: "routed_ids (write_run runId items db) = routed_ids db \<union> (\<lambda>e. candidateId (item_row e)) ` set items"
proof -
  have "routed_ids (write_run runId items db) = routed_ids db \<union> (\<lambda>e. candidateId (item_row e)) ` set (kept_items db items)"
    unfolding routed_ids_def write_run_tables by (simp add: image_Un image_image)
  then show ?thesis by (auto simp: kept_items_eq)
qed

lemma slice_unrouted: "readUnroutedSlice db ns n = Inr later \<Longrightarrow> s \<in> set later \<Longrightarrow> snap_id s \<notin> routed_ids db"
  by (auto simp: readUnroutedSlice_def unrouted_def split: if_splits dest!: in_set_takeD)

text \<open>A request failure is stored as a final routing decision. When the endpoint is down, the
  job does not fail: every candidate of the slice gets a decision without destination, nothing is
  written to memory, and no later slice, of any namespace and size and after any further runs,
  ever offers one of these candidates again.\<close>

theorem failed_request_is_final:
  assumes "endpoint_down env" and "route_backend job = Jev (Some (env, config))"
    and "classify w job snaps = Inr items" and "distinct (map snap_id snaps)"
    and after_def: "after = write_run runId items db"
  shows "(\<forall>e \<in> set items. decided_for (item_decision e) = None) \<and>
    tab_thoughts after = tab_thoughts db \<and> tab_events after = tab_events db \<and>
    (\<forall>db' ds ns n later. tab_decisions db' = tab_decisions after @ ds \<longrightarrow> readUnroutedSlice db' ns n = Inr later \<longrightarrow>
       snap_id ` set later \<inter> snap_id ` set snaps = {})"
proof -
  from assms(3) obtain m out dropped cs where run:
    "ask_route w job m (map recordOfV2 cs) = Inr (out, dropped)"
    "\<forall>e \<in> set items. \<exists>c. candidateOf (item_row e) = Inr c \<and> e = decide_row (number_text w) m out dropped (item_row e) c"
    by (rule classify_cases)
  note none = decide_row_unanswered [OF ask_route_down [OF run(1) assms(2,1)]]
  have items: "decided_for (item_decision e) = None \<and> item_action e = Nothing" if "e \<in> set items" for e
    using run(2) that none by metis
  have "snap_id ` set snaps \<subseteq> routed_ids after"
    unfolding after_def write_run_routed using classify_ids(2) [OF assms(3,4)] by auto
  then have later: "snap_id ` set later \<inter> snap_id ` set snaps = {}"
    if "tab_decisions db' = tab_decisions after @ ds" "readUnroutedSlice db' ns n = Inr later" for db' ds ns n later
  proof -
    have "routed_ids after \<subseteq> routed_ids db'" using that(1) by (auto simp: routed_ids_def)
    with slice_unrouted [OF that(2)] \<open>snap_id ` set snaps \<subseteq> routed_ids after\<close> show ?thesis by blast
  qed
  have "tab_thoughts after = tab_thoughts db \<and> tab_events after = tab_events db"
    unfolding after_def by (rule write_run_nothing) (use items in blast)
  with items later show ?thesis by blast
qed

subsection \<open>Concrete runs\<close>

text \<open>One typed rule, whose request is exactly as large as the limits allow and exactly as dear as
  the maximum spend, over an endpoint that answers and one that is down.\<close>

definition slice_snapshot :: candidate_snapshot where
  "slice_snapshot = \<lparr>snap_id = ''a'', snap_namespace = ''n'', snap_type = ''preference'', snap_content = ''always branch'',
     content_hash = ''h'', operator_text = None, snap_unit_kind = ''exchange'', snap_anchor_kind = Some ''typed'',
     first_said_at = None, last_said_at = None, source_turn_ids = []\<rparr>"

definition slice_row :: frozen_row where
  "slice_row = \<lparr>ordinal = 0, candidateId = ''a'', frozen_namespace = ''n'', contentHash = ''h'', cohort = Draw,
     neighbourOf = None, snapshot = slice_snapshot\<rparr>"

definition job_world :: route_world where
  "job_world = \<lparr>collate = (\<lambda>a b. True), sha = (\<lambda>s. ''0123456789abcdef''), matrix_path = ''m.tsv'',
     matrix_file = render_matrix (matrix_rows sample_matrix), number_text = (\<lambda>q. ''''), money_text = (\<lambda>q. '''')\<rparr>"

definition slice_batch :: jev_batch where
  "slice_batch = materializeBatch [(''task'', JStr SHARED_TASK)] (buildRouteClassifierSetV2 sample_matrix) ''m'' 0
     [recordOfV2 sample_candidate]"

definition slice_plan :: jev_plan where
  "slice_plan = \<lparr>classifierSet = buildRouteClassifierSetV2 sample_matrix, batches = [slice_batch]\<rparr>"

definition slice_config :: jev_config where
  "slice_config = \<lparr>enabled = True, apiKey = Some ''k'', baseUrl = ''https://jev'', jev_model = ''m'',
     maxRequestBytes = estimatedRequestBytes slice_batch, maxStateQuestionBytes = estimatedStateQuestionBytes slice_batch\<rparr>"

definition down_env :: jev_env where
  "down_env = \<lparr>url_protocol = (\<lambda>u. Inr ''https:''), jev_fetch = (\<lambda>u body. Rejected (js_error ''fetch failed'')),
     parse_response = (\<lambda>j. Inl (js_error ''bad''))\<rparr>"

definition live_response :: jev_response where
  "live_response = \<lparr>resp_model = ''m'',
       resp_answers = [(''r0_c0'', NoulA (9 / 10)),
         (''r0_c1'', ChoiceA ''rule'' [(''rule'', 9 / 10), (''decision'', 1 / 10), (''fact'', 0), (''correction'', 0),
            (''steering'', 0), (''none'', 0)] (9 / 10)),
         (''r0_c2'', NoulA (9 / 10))], input_tokens = 1, output_tokens = 1\<rparr>"

definition live_env :: jev_env where
  "live_env = down_env\<lparr>jev_fetch := (\<lambda>u body. Fetched 200 (Inr body)), parse_response := (\<lambda>j. Inr live_response)\<rparr>"

definition job_over :: "jev_env \<Rightarrow> route_job" where
  "job_over env = \<lparr>slice_size = 5, max_usd = estimatedUsd (projectCost slice_plan), job_namespace = None,
     route_backend = Jev (Some (env, slice_config))\<rparr>"

lemma slice_ordered: "orderForBatches (collate job_world) (frozenRowsOf [slice_snapshot]) = [slice_row]"
  by (simp add: slice_row_def slice_snapshot_def, code_simp)

lemma slice_candidate: "candidateOf slice_row = Inr sample_candidate"
  by code_simp

lemma world_matrix: "loadMatrix (sha job_world) (matrix_path job_world) (matrix_file job_world) = Inr sample_matrix"
  by code_simp

lemma slice_planned:
  "planWithDrops [recordOfV2 sample_candidate] (buildRouteClassifierSetV2 sample_matrix) slice_config = Inr (slice_plan, [])"
proof -
  have m: "jev_model slice_config = ''m''" by (simp add: slice_config_def)
  have "batch_fits slice_config slice_batch" by (simp add: batch_fits_def slice_config_def)
  moreover have "validateClassifierSet (buildRouteClassifierSetV2 sample_matrix) = Inr ()" by code_simp
  ultimately show ?thesis
    using one_record_planned [of slice_config "buildRouteClassifierSetV2 sample_matrix" "recordOfV2 sample_candidate"]
    by (simp add: m slice_plan_def slice_batch_def)
qed

lemma live_run: "executeJevBatchPlan live_env slice_config slice_plan =
   Inr \<lparr>answers = [(''a'', [(LASTING_ID, NoulA (9 / 10)), (DEST_V2_ID, the (map_of (resp_answers live_response) ''r0_c1'')),
       (DROVE_DECISION_ID, NoulA (9 / 10))])], servedModels = [(''a'', ''m'')], inputTokens = 1, outputTokens = 1\<rparr>"
proof -
  have maps: "mappings slice_batch = [\<lparr>questionId = ''r0_c0'', recordKey = ''a'', classifierName = LASTING_ID\<rparr>,
      \<lparr>questionId = ''r0_c1'', recordKey = ''a'', classifierName = DEST_V2_ID\<rparr>,
      \<lparr>questionId = ''r0_c2'', recordKey = ''a'', classifierName = DROVE_DECISION_ID\<rparr>]"
    unfolding slice_batch_def mappings_materialize by code_simp
  have ask: "askJev live_env slice_config st qs = Inr live_response" for st qs
    by (simp add: askJev_def live_env_def down_env_def slice_config_def)
  have "case map_of (questions slice_batch) ''r0_c0'' of Some q \<Rightarrow> validateClassifierAnswer q (NoulA (9 / 10)) | None \<Rightarrow> False"
    "case map_of (questions slice_batch) ''r0_c1'' of
       Some q \<Rightarrow> validateClassifierAnswer q (the (map_of (resp_answers live_response) ''r0_c1'')) | None \<Rightarrow> False"
    "case map_of (questions slice_batch) ''r0_c2'' of Some q \<Rightarrow> validateClassifierAnswer q (NoulA (9 / 10)) | None \<Rightarrow> False"
    unfolding slice_batch_def questions_materialize by code_simp+
  then have "validateJevBatchResponse slice_batch live_response = Inr live_response"
    by (auto simp: validateJevBatchResponse_def maps live_response_def split: option.splits)
  then show ?thesis
    by (simp add: executeJevBatchPlan_def slice_plan_def ask maps live_response_def stage_def LASTING_ID_def DEST_V2_ID_def DROVE_DECISION_ID_def)
qed

lemma classify_slice:
  assumes "runLanes env slice_config [slice_plan] = out"
  shows "classify job_world (job_over env) [slice_snapshot] =
    Inr [decide_row (number_text job_world) sample_matrix out [] slice_row sample_candidate]"
proof -
  have config: "slice_config\<lparr>enabled := True\<rparr> = slice_config" by (simp add: slice_config_def)
  have split: "splitPlan slice_plan IN_FLIGHT = Inr [slice_plan]"
    by (simp add: splitPlan_def IN_FLIGHT_def slice_plan_def)
  have some: "batches slice_plan \<noteq> []" by (simp add: slice_plan_def)
  have "ask_route job_world (job_over env) sample_matrix [recordOfV2 sample_candidate] = Inr (out, [])"
    using slice_planned assms
    by (simp add: ask_route_def backendOf_def job_over_def config split message_of_def put_all_def some)
  then show ?thesis
    unfolding classify_def slice_ordered by (simp add: slice_candidate world_matrix)
qed

definition fresh_db :: route_db where
  "fresh_db = \<lparr>tab_candidates = [\<lparr>row_snapshot = slice_snapshot, row_parent = None, row_embedding = Some ''e'', row_created = 0\<rparr>],
     tab_runs = [], tab_decisions = [], tab_thoughts = [], tab_lanes = [], tab_events = [], tab_moves = []\<rparr>"

definition live_item :: routed_item where
  "live_item = decide_row (\<lambda>q. '''') sample_matrix (runLanes live_env slice_config [slice_plan]) [] slice_row sample_candidate"

lemma live_classified: "classify job_world (job_over live_env) [slice_snapshot] = Inr [live_item]"
  unfolding classify_slice [OF refl] live_item_def by (simp add: job_world_def)

lemma live_action: "item_action live_item = Rule_event" "item_row live_item = slice_row"
proof -
  let ?out = "\<lparr>lane_answers = [(''a'', [(LASTING_ID, NoulA (9 / 10)), (DEST_V2_ID, the (map_of (resp_answers live_response) ''r0_c1'')),
         (DROVE_DECISION_ID, NoulA (9 / 10))])], lane_models = [(''a'', ''m'')], lane_tokens = 1, failures = []\<rparr>"
  have "runLanes live_env slice_config [slice_plan] = ?out"
    by (simp add: runLanes_def settle_def live_run EMPTY_OUTCOME_def put_all_def)
  moreover have "item_action (decide_row (\<lambda>q. '''') sample_matrix ?out [] slice_row sample_candidate) = Rule_event"
    by code_simp
  ultimately show "item_action live_item = Rule_event" by (simp only: live_item_def)
  show "item_row live_item = slice_row" by (simp only: live_item_def item_row_decide_row)
qed

lemma fresh_slice: "readUnroutedSlice fresh_db None 5 = Inr [slice_snapshot]"
  by code_simp

lemma each_candidate_routed_once_witness:
  "\<exists>s. route_reach job_world s \<and> map dec_candidate (tab_decisions (sys_db s)) = [''a''] \<and>
     distinct (map dec_candidate (tab_decisions (sys_db s)))"
proof -
  let ?s0 = "\<lparr>sys_db = fresh_db, waiting_jobs = []\<rparr>"
  let ?s1 = "?s0\<lparr>waiting_jobs := [(''run'', [live_item])]\<rparr>"
  let ?s2 = "?s1\<lparr>sys_db := write_run ''run'' [live_item] fresh_db, waiting_jobs := []\<rparr>"
  have "route_reach job_world ?s0" by (rule route_reach.start) (simp_all add: fresh_db_def)
  moreover have "route_step job_world ?s0 ?s1"
    using route_step.read [where w = job_world and s = ?s0 and job = "job_over live_env" and runId = "''run''"
        and snaps = "[slice_snapshot]" and items = "[live_item]"] fresh_slice live_classified
    by (simp add: job_over_def fresh_db_def)
  ultimately have "route_reach job_world ?s1" by (rule route_reach.step)
  moreover have "route_step job_world ?s1 ?s2"
    using route_step.commit [where w = job_world and s = ?s1 and runId = "''run''" and items = "[live_item]"] by simp
  ultimately have r: "route_reach job_world ?s2" by (rule route_reach.step)
  have "map dec_candidate (tab_decisions (sys_db ?s2)) = [''a'']"
    by (simp add: write_run_tables kept_items_eq routed_ids_def fresh_db_def live_action slice_row_def)
  moreover have "distinct (map dec_candidate (tab_decisions (sys_db ?s2)))"
    using each_candidate_routed_once [OF r] by (rule conjunct1)
  ultimately show ?thesis by (intro exI [of _ ?s2] conjI r)
qed

lemma written_entries_witness:
  "\<exists>x \<in> set (tab_events (write_run ''run'' [live_item] fresh_db)). entry_content x = ''always branch'' \<and> entry_candidate x = ''a''"
proof -
  let ?after = "write_run ''run'' [live_item] fresh_db"
  have kept: "kept_items fresh_db [live_item] = [live_item]"
    by (simp add: kept_items_eq fresh_db_def routed_ids_def)
  have events: "length (tab_events ?after) = 1"
    unfolding write_run_def kept Let_def
    by (simp add: applyAll_def applyRoutedDecision_def live_action applyRuleEvent_def resolveLane_def
        writeRoutingRun_def fresh_db_def Let_def)
  then obtain x where x: "x \<in> set (tab_events ?after)" by (cases "tab_events ?after") auto
  then have "x \<in> set (tab_thoughts ?after) - set (tab_thoughts fresh_db) \<or>
      x \<in> set (tab_events ?after) - set (tab_events fresh_db)"
    by (simp add: fresh_db_def)
  from written_entries_passed_every_cutoff [OF live_classified refl this] x
  show ?thesis by (auto simp: slice_snapshot_def)
qed

lemma failed_request_is_final_witness:
  "\<exists>items. classify job_world (job_over down_env) [slice_snapshot] = Inr items \<and> length items = 1 \<and>
     tab_thoughts (write_run ''run'' items fresh_db) = []"
proof -
  have down: "endpoint_down down_env" by (simp add: endpoint_down_def down_env_def)
  have job: "route_backend (job_over down_env) = Jev (Some (down_env, slice_config))" by (simp add: job_over_def)
  have dist: "distinct (map snap_id [slice_snapshot])" by simp
  note run = classify_slice [OF refl, of down_env]
  have "tab_thoughts (write_run ''run'' [decide_row (number_text job_world) sample_matrix
      (runLanes down_env slice_config [slice_plan]) [] slice_row sample_candidate] fresh_db) = tab_thoughts fresh_db"
    using failed_request_is_final [OF down job run dist refl, of "''run''" fresh_db] by blast
  moreover have "tab_thoughts fresh_db = []" by (simp add: fresh_db_def)
  ultimately show ?thesis using run by (metis One_nat_def list.size(3) list.size(4) add_0)
qed

end
