(* ===== verification/MaintenanceQueue.thy ===== *)
theory MaintenanceQueue
  imports Complex_Main Json
begin

text \<open>
  The durable job queue (\<open>server/maintenance/maintenance-job.ts\<close>, \<open>maintenance-queue.ts\<close>, and
  the statements of \<open>server/db/maintenance-queue-repository.ts\<close>).

  A table is the list of its rows in insertion order; \<open>toJob\<close> is the identity on the row. Times
  are milliseconds. A statement is atomic; what other sessions do between the statements of one
  operation is an argument. \<open>gen_random_uuid\<close> and \<open>crypto.randomUUID\<close> are arguments; the
  \<open>updated_at\<close> trigger is not modelled. A JavaScript number is a rational.
\<close>

subsection \<open>Jobs\<close>

datatype job_state = Queued | Running | Succeeded | Dead_letter

datatype error_category = Syntax_error | Type_error | Range_error | Plain_error | Non_error
  | Unsupported_job_kind | Lease_expired | Terminal

record job_row =
  job_id :: string
  job_kind :: string
  job_version :: int
  payload :: json
  idempotency_key :: string
  job_state :: job_state
  run_after :: int
  lease_token :: "string option"
  lease_until :: "int option"
  attempts :: int
  max_attempts :: int
  backoff_base_ms :: int
  backoff_max_ms :: int
  last_error :: "error_category option"
  terminal_at :: "int option"
  dead_lettered_at :: "int option"
  scope_namespace :: "string option"
  provenance :: "json option"
  created_at :: int

definition DEFAULT_MAX_ATTEMPTS :: rat where "DEFAULT_MAX_ATTEMPTS = 3"
definition DEFAULT_BACKOFF_BASE_MS :: rat where "DEFAULT_BACKOFF_BASE_MS = 1000"
definition DEFAULT_BACKOFF_MAX_MS :: rat where "DEFAULT_BACKOFF_MAX_MS = 300000"
definition MAX_CLAIM_LIMIT :: rat where "MAX_CLAIM_LIMIT = 256"

subsection \<open>Validating an enqueue\<close>

record enqueue_input =
  in_kind :: string
  in_version :: rat
  in_payload :: json
  in_key :: string
  in_run_after :: "int option"
  in_max_attempts :: "rat option"
  in_backoff_base :: "rat option"
  in_backoff_max :: "rat option"
  in_namespace :: "string option"
  in_provenance :: "json option"

definition whole :: "rat \<Rightarrow> bool" where
  "whole v = (of_int \<lfloor>v\<rfloor> = v)"

definition assertPositiveInteger :: "rat \<Rightarrow> string \<Rightarrow> unit result" where
  "assertPositiveInteger v field =
     (if \<not> whole v \<or> v < 1 then Inl (''maintenance queue '' @ field @ '' must be a positive integer'') else Inr ())"

definition assertObject :: "json \<Rightarrow> string \<Rightarrow> unit result" where
  "assertObject v field = (case v of JObj kvs \<Rightarrow> Inr ()
     | _ \<Rightarrow> Inl (''maintenance queue '' @ field @ '' must be an object''))"

definition lower_alpha :: "char \<Rightarrow> bool" where
  "lower_alpha c = ((97 :: nat) \<le> of_char c \<and> of_char c \<le> (122 :: nat))"

definition upper_alpha :: "char \<Rightarrow> bool" where
  "upper_alpha c = ((65 :: nat) \<le> of_char c \<and> of_char c \<le> (90 :: nat))"

text \<open>The two regular expressions; \<open>$\<close> is the end of the text.\<close>

definition job_kind_re :: "string \<Rightarrow> bool" where
  "job_kind_re s = (case s of [] \<Rightarrow> False
     | c # cs \<Rightarrow> lower_alpha c \<and> length cs \<le> 127 \<and>
         list_all (\<lambda>d. lower_alpha d \<or> is_digit d \<or> d \<in> set ''_.-'') cs)"

definition NAMESPACE_TOKEN_RE :: "string \<Rightarrow> bool" where
  "NAMESPACE_TOKEN_RE s = (case s of [] \<Rightarrow> False
     | c # cs \<Rightarrow> (lower_alpha c \<or> upper_alpha c \<or> is_digit c) \<and> length cs \<le> 127 \<and>
         list_all (\<lambda>d. lower_alpha d \<or> upper_alpha d \<or> is_digit d \<or> d \<in> set ''._-'') cs)"

definition validateRetryPolicy :: "enqueue_input \<Rightarrow> (rat \<times> rat \<times> rat) result" where
  "validateRetryPolicy inp =
     (let maxAttempts = (case in_max_attempts inp of Some n \<Rightarrow> n | None \<Rightarrow> DEFAULT_MAX_ATTEMPTS);
          base = (case in_backoff_base inp of Some n \<Rightarrow> n | None \<Rightarrow> DEFAULT_BACKOFF_BASE_MS);
          top = (case in_backoff_max inp of Some n \<Rightarrow> n | None \<Rightarrow> DEFAULT_BACKOFF_MAX_MS)
      in res_bind (assertPositiveInteger maxAttempts ''max attempts'') (\<lambda>_.
         res_bind (assertPositiveInteger base ''backoff base'') (\<lambda>_.
         res_bind (assertPositiveInteger top ''backoff maximum'') (\<lambda>_.
           if maxAttempts > 25 \<or> top < base then Inl ''maintenance queue retry policy is invalid''
           else Inr (maxAttempts, base, top)))))"

definition validateScope :: "enqueue_input \<Rightarrow> unit result" where
  "validateScope inp =
     res_bind (case in_provenance inp of Some v \<Rightarrow> assertObject v ''provenance'' | None \<Rightarrow> Inr ()) (\<lambda>_.
       case in_namespace inp of
         Some n \<Rightarrow> if \<not> NAMESPACE_TOKEN_RE n then Inl ''maintenance queue namespace is invalid'' else Inr ()
       | None \<Rightarrow> Inr ())"

definition validateJobIdentity :: "enqueue_input \<Rightarrow> unit result" where
  "validateJobIdentity inp =
     (if \<not> job_kind_re (in_kind inp) then Inl ''maintenance queue job kind is invalid''
      else if length (in_key inp) = 0 \<or> length (in_key inp) > 256 then Inl ''maintenance queue idempotency key is invalid''
      else res_bind (assertPositiveInteger (in_version inp) ''job version'') (\<lambda>_.
        assertObject (in_payload inp) ''payload''))"

record job_values =
  v_kind :: string
  v_version :: int
  v_payload :: json
  v_key :: string
  v_run_after :: int
  v_max_attempts :: int
  v_backoff_base :: int
  v_backoff_max :: int
  v_namespace :: "string option"
  v_provenance :: "json option"

definition validateEnqueue :: "enqueue_input \<Rightarrow> int \<Rightarrow> job_values result" where
  "validateEnqueue inp now =
     res_bind (validateJobIdentity inp) (\<lambda>_.
     res_bind (validateRetryPolicy inp) (\<lambda>(maxAttempts, base, top).
     res_bind (validateScope inp) (\<lambda>_.
       Inr \<lparr>v_kind = in_kind inp, v_version = \<lfloor>in_version inp\<rfloor>, v_payload = in_payload inp, v_key = in_key inp,
            v_run_after = (case in_run_after inp of Some t \<Rightarrow> t | None \<Rightarrow> now),
            v_max_attempts = \<lfloor>maxAttempts\<rfloor>, v_backoff_base = \<lfloor>base\<rfloor>, v_backoff_max = \<lfloor>top\<rfloor>,
            v_namespace = in_namespace inp, v_provenance = in_provenance inp\<rparr>)))"

subsection \<open>Equality of semantics\<close>

text \<open>\<open>canonicalJson\<close>: every object is rebuilt with its keys in ascending order. JavaScript
  enumerates keys that read as array indices first, in any object; that order does not depend on
  the insertion order either, and the model renders the sorted order throughout.\<close>

fun sort_keys :: "json \<Rightarrow> json" where
  "sort_keys (JObj kvs) = JObj (sort_by (\<lambda>a b. fst a \<le> fst b) (map (\<lambda>(k, v). (k, sort_keys v)) kvs))"
| "sort_keys (JArr xs) = JArr (map sort_keys xs)"
| "sort_keys j = j"

definition canonicalJson :: "json option \<Rightarrow> string" where
  "canonicalJson v = (case v of None \<Rightarrow> ''null'' | Some j \<Rightarrow> stringify (sort_keys j))"

definition enqueueSemanticsDiverge :: "job_values \<Rightarrow> job_row \<Rightarrow> bool" where
  "enqueueSemanticsDiverge requested existing =
     (v_version requested \<noteq> job_version existing \<or>
      v_max_attempts requested \<noteq> max_attempts existing \<or>
      v_backoff_base requested \<noteq> backoff_base_ms existing \<or>
      v_backoff_max requested \<noteq> backoff_max_ms existing \<or>
      v_namespace requested \<noteq> scope_namespace existing \<or>
      canonicalJson (Some (v_payload requested)) \<noteq> canonicalJson (Some (payload existing)) \<or>
      canonicalJson (v_provenance requested) \<noteq> canonicalJson (provenance existing))"

definition maintenanceBackoffMs :: "job_row \<Rightarrow> int" where
  "maintenanceBackoffMs j =
     (let exponent = min (max (attempts j - 1) 0) 30
      in min (backoff_base_ms j * 2 ^ nat exponent) (backoff_max_ms j))"

subsection \<open>The table and its constraints\<close>

type_synonym job_table = "job_row list"

definition int4 :: "int \<Rightarrow> bool" where
  "int4 i \<longleftrightarrow> - 2147483648 \<le> i \<and> i \<le> 2147483647"

definition live :: "job_row \<Rightarrow> bool" where
  "live r \<longleftrightarrow> job_state r = Queued \<or> job_state r = Running"

text \<open>The CHECK constraints of migrations 026, 028 and 029, and the column types.\<close>

definition lease_shape :: "job_row \<Rightarrow> bool" where
  "lease_shape r \<longleftrightarrow> (if job_state r = Running then lease_token r \<noteq> None \<and> lease_until r \<noteq> None
     else lease_token r = None \<and> lease_until r = None)"

definition terminal_shape :: "job_row \<Rightarrow> bool" where
  "terminal_shape r \<longleftrightarrow> (terminal_at r \<noteq> None \<longleftrightarrow> \<not> live r)"

definition dead_letter_shape :: "job_row \<Rightarrow> bool" where
  "dead_letter_shape r \<longleftrightarrow> (dead_lettered_at r \<noteq> None \<longleftrightarrow> job_state r = Dead_letter)"

definition is_object :: "json \<Rightarrow> bool" where
  "is_object j \<longleftrightarrow> (case j of JObj kvs \<Rightarrow> True | _ \<Rightarrow> False)"

definition row_checks :: "job_row \<Rightarrow> bool" where
  "row_checks r \<longleftrightarrow> job_kind_re (job_kind r) \<and> 0 < job_version r \<and> int4 (job_version r) \<and> is_object (payload r) \<and>
     1 \<le> length (idempotency_key r) \<and> length (idempotency_key r) \<le> 256 \<and>
     0 \<le> attempts r \<and> int4 (attempts r) \<and> 1 \<le> max_attempts r \<and> max_attempts r \<le> 25 \<and>
     0 < backoff_base_ms r \<and> backoff_base_ms r \<le> backoff_max_ms r \<and> int4 (backoff_max_ms r) \<and>
     (case provenance r of Some p \<Rightarrow> is_object p | None \<Rightarrow> True) \<and>
     lease_shape r \<and> terminal_shape r \<and> dead_letter_shape r"

subsection \<open>Enqueue\<close>

definition new_row :: "job_values \<Rightarrow> string \<Rightarrow> int \<Rightarrow> job_row" where
  "new_row v ident clock = \<lparr>job_id = ident, job_kind = v_kind v, job_version = v_version v, payload = v_payload v,
     idempotency_key = v_key v, job_state = Queued, run_after = v_run_after v, lease_token = None, lease_until = None,
     attempts = 0, max_attempts = v_max_attempts v, backoff_base_ms = v_backoff_base v, backoff_max_ms = v_backoff_max v,
     last_error = None, terminal_at = None, dead_lettered_at = None, scope_namespace = v_namespace v,
     provenance = v_provenance v, created_at = clock\<rparr>"

definition holds_key :: "string \<Rightarrow> string \<Rightarrow> job_row \<Rightarrow> bool" where
  "holds_key k key r \<longleftrightarrow> live r \<and> job_kind r = k \<and> idempotency_key r = key"

definition insertJob :: "job_values \<Rightarrow> string \<Rightarrow> int \<Rightarrow> job_table \<Rightarrow> (job_row option \<times> job_table) result" where
  "insertJob v ident clock tab =
     (let r = new_row v ident clock
      in if \<not> row_checks r then Inl ''new row for relation maintenance_jobs violates a constraint''
         else if list_ex (holds_key (v_kind v) (v_key v)) tab then Inr (None, tab)
         else Inr (Some r, tab @ [r]))"

definition selectLiveJobByIdempotencyKey :: "string \<Rightarrow> string \<Rightarrow> job_table \<Rightarrow> job_row option" where
  "selectLiveJobByIdempotencyKey k key tab = find (holds_key k key) tab"

datatype enqueue_outcome = Created | Deduped

text \<open>\<open>others1\<close> and \<open>others2\<close> are what other sessions do before the lookup and before the retry.\<close>

definition enqueue ::
  "enqueue_input \<Rightarrow> int \<Rightarrow> string \<Rightarrow> int \<Rightarrow> (job_table \<Rightarrow> job_table) \<Rightarrow> (job_table \<Rightarrow> job_table) \<Rightarrow> job_table \<Rightarrow>
     job_table \<times> (job_row \<times> enqueue_outcome) result" where
  "enqueue inp now ident clock others1 others2 tab =
     (case validateEnqueue inp now of
        Inl e \<Rightarrow> (tab, Inl e)
      | Inr v \<Rightarrow>
          (case insertJob v ident clock tab of
             Inl e \<Rightarrow> (tab, Inl e)
           | Inr (Some r, tab') \<Rightarrow> (tab', Inr (r, Created))
           | Inr (None, tab') \<Rightarrow>
               (let tab1 = others1 tab'
                in case selectLiveJobByIdempotencyKey (v_kind v) (v_key v) tab1 of
                     None \<Rightarrow>
                       (let tab2 = others2 tab1
                        in case insertJob v ident clock tab2 of
                             Inl e \<Rightarrow> (tab2, Inl e)
                           | Inr (Some r, tab3) \<Rightarrow> (tab3, Inr (r, Created))
                           | Inr (None, tab3) \<Rightarrow> (tab3, Inl ''maintenance queue idempotency lookup failed''))
                   | Some existing \<Rightarrow>
                       if enqueueSemanticsDiverge v existing
                       then (tab1, Inl ''maintenance queue idempotency key reused with divergent job semantics'')
                       else (tab1, Inr (existing, Deduped)))))"

subsection \<open>Claim\<close>

definition due :: "int \<Rightarrow> job_row \<Rightarrow> bool" where
  "due now r \<longleftrightarrow> (job_state r = Queued \<and> run_after r \<le> now) \<or>
     (job_state r = Running \<and> (case lease_until r of Some t \<Rightarrow> t \<le> now | None \<Rightarrow> False))"

definition claim_le :: "job_row \<Rightarrow> job_row \<Rightarrow> bool" where
  "claim_le = lex_le run_after (lex_le created_at (\<lambda>a b. job_id a \<le> job_id b))"

text \<open>\<open>FOR UPDATE SKIP LOCKED\<close>: rows another transaction holds (\<open>locked\<close>) are passed over.\<close>

definition eligible :: "int \<Rightarrow> int \<Rightarrow> string set \<Rightarrow> job_table \<Rightarrow> job_row list" where
  "eligible now limit locked tab =
     take (nat limit) (sort_by claim_le (filter (\<lambda>r. due now r \<and> job_id r \<notin> locked) tab))"

definition reclaimable :: "job_row \<Rightarrow> bool" where
  "reclaimable r \<longleftrightarrow> job_state r = Queued \<or> attempts r < max_attempts r"

definition leased :: "int \<Rightarrow> string \<Rightarrow> int \<Rightarrow> job_row \<Rightarrow> job_row" where
  "leased now token leaseMs r = r\<lparr>job_state := Running, lease_token := Some token, lease_until := Some (now + leaseMs),
     attempts := attempts r + 1\<rparr>"

definition expired_dead :: "int \<Rightarrow> job_row \<Rightarrow> job_row" where
  "expired_dead now r = r\<lparr>job_state := Dead_letter, lease_token := None, lease_until := None,
     last_error := Some Lease_expired, terminal_at := Some now, dead_lettered_at := Some now\<rparr>"

definition claim_rows ::
  "int \<Rightarrow> int \<Rightarrow> string \<Rightarrow> int \<Rightarrow> string set \<Rightarrow> job_table \<Rightarrow> job_row list \<times> job_table" where
  "claim_rows now limit token leaseMs locked tab =
     (let ids = job_id ` set (eligible now limit locked tab)
      in (map (leased now token leaseMs) (filter (\<lambda>r. job_id r \<in> ids \<and> reclaimable r) tab),
          map (\<lambda>r. if job_id r \<notin> ids then r
                    else if reclaimable r then leased now token leaseMs r else expired_dead now r) tab))"

definition claimDueJobs ::
  "rat \<Rightarrow> int \<Rightarrow> rat \<Rightarrow> string \<Rightarrow> string set \<Rightarrow> job_table \<Rightarrow> job_row list result \<times> job_table" where
  "claimDueJobs limit now leaseMs token locked tab =
     (case res_bind (assertPositiveInteger limit ''claim limit'') (\<lambda>_.
        if limit > MAX_CLAIM_LIMIT then Inl ''maintenance queue claim limit exceeds the bound''
        else assertPositiveInteger leaseMs ''lease duration'') of
        Inl e \<Rightarrow> (Inl e, tab)
      | Inr _ \<Rightarrow> (case claim_rows now \<lfloor>limit\<rfloor> token \<lfloor>leaseMs\<rfloor> locked tab of (claimed, tab') \<Rightarrow> (Inr claimed, tab')))"

subsection \<open>The guarded transitions\<close>

text \<open>The guard every transition shares: the row is running under exactly this token.\<close>

definition held :: "string \<Rightarrow> string option \<Rightarrow> job_row \<Rightarrow> bool" where
  "held ident token r \<longleftrightarrow> job_id r = ident \<and> job_state r = Running \<and> token \<noteq> None \<and> lease_token r = token"

definition update_held :: "string \<Rightarrow> string option \<Rightarrow> (job_row \<Rightarrow> job_row) \<Rightarrow> job_table \<Rightarrow> job_table" where
  "update_held ident token f tab = map (\<lambda>r. if held ident token r then f r else r) tab"

definition renewed :: "int \<Rightarrow> int \<Rightarrow> job_row \<Rightarrow> job_row" where
  "renewed now leaseMs r = r\<lparr>lease_until := Some (now + leaseMs)\<rparr>"

definition renew :: "string \<Rightarrow> string \<Rightarrow> rat \<Rightarrow> int \<Rightarrow> job_table \<Rightarrow> bool result \<times> job_table" where
  "renew ident token leaseMs now tab =
     (case assertPositiveInteger leaseMs ''lease duration'' of
        Inl e \<Rightarrow> (Inl e, tab)
      | Inr _ \<Rightarrow> (Inr (length (filter (held ident (Some token)) tab) = 1),
          update_held ident (Some token) (renewed now \<lfloor>leaseMs\<rfloor>) tab))"

definition completed :: "int \<Rightarrow> job_row \<Rightarrow> job_row" where
  "completed now r = r\<lparr>job_state := Succeeded, lease_token := None, lease_until := None, last_error := None,
     terminal_at := Some now\<rparr>"

definition complete_job :: "string \<Rightarrow> string \<Rightarrow> int \<Rightarrow> job_table \<Rightarrow> bool \<times> job_table" where
  "complete_job ident token now tab =
     (length (filter (held ident (Some token)) tab) = 1, update_held ident (Some token) (completed now) tab)"

definition spent :: "bool \<Rightarrow> job_row \<Rightarrow> bool" where
  "spent terminal r \<longleftrightarrow> terminal \<or> attempts r \<ge> max_attempts r"

definition failed :: "int \<Rightarrow> error_category \<Rightarrow> bool \<Rightarrow> job_row \<Rightarrow> job_row" where
  "failed now category terminal r =
     r\<lparr>job_state := (if spent terminal r then Dead_letter else Queued),
       run_after := (if spent terminal r then run_after r
         else now + min (backoff_base_ms r * 2 ^ nat (min (max (attempts r - 1) 0) 30)) (backoff_max_ms r)),
       lease_token := None, lease_until := None, last_error := Some category,
       terminal_at := (if spent terminal r then Some now else None),
       dead_lettered_at := (if spent terminal r then Some now else None)\<rparr>"

text \<open>What a handler may throw: an instance of an error class, with the name of its constructor and its
  \<open>code\<close> when that is a string, a string, or any other value.\<close>

datatype error_class = Syntax_class | Type_class | Range_class | Plain_class | Terminal_class

datatype thrown = Error_thrown error_class string "string option" | String_thrown string | Other_thrown

definition isMaintenanceTerminalError :: "thrown \<Rightarrow> bool" where
  "isMaintenanceTerminalError e = (case e of Error_thrown c name code \<Rightarrow> c = Terminal_class | _ \<Rightarrow> False)"

fun safeMaintenanceErrorCategory :: "thrown \<Rightarrow> error_category" where
  "safeMaintenanceErrorCategory (Error_thrown Syntax_class name code) = Syntax_error"
| "safeMaintenanceErrorCategory (Error_thrown Type_class name code) = Type_error"
| "safeMaintenanceErrorCategory (Error_thrown Range_class name code) = Range_error"
| "safeMaintenanceErrorCategory (Error_thrown Plain_class name code) = Plain_error"
| "safeMaintenanceErrorCategory (Error_thrown Terminal_class name code) = Plain_error"
| "safeMaintenanceErrorCategory (String_thrown s) = Non_error"
| "safeMaintenanceErrorCategory Other_thrown = Non_error"

definition MAINTENANCE_ERROR_CODE_PATTERN :: "string \<Rightarrow> bool" where
  "MAINTENANCE_ERROR_CODE_PATTERN s \<longleftrightarrow> 1 \<le> length s \<and> length s \<le> 16 \<and>
     list_all (\<lambda>c. upper_alpha c \<or> is_digit c \<or> c = CHR ''_'') s"

definition safeMaintenanceErrorIdentity :: "thrown \<Rightarrow> string option \<times> string option" where
  "safeMaintenanceErrorIdentity e = (case e of
       Error_thrown c name code \<Rightarrow> (Some name,
         case code of Some k \<Rightarrow> if MAINTENANCE_ERROR_CODE_PATTERN k then Some k else None | None \<Rightarrow> None)
     | _ \<Rightarrow> (None, None))"

definition fail_job ::
  "string \<Rightarrow> string option \<Rightarrow> thrown \<Rightarrow> error_category option \<Rightarrow> bool \<Rightarrow> int \<Rightarrow> job_table \<Rightarrow> job_row option \<times> job_table" where
  "fail_job ident token e category terminal now tab =
     (let cat = (case category of Some c \<Rightarrow> c
            | None \<Rightarrow> if terminal then Terminal else safeMaintenanceErrorCategory e)
      in (map_option (failed now cat terminal) (find (held ident token) tab),
          update_held ident token (failed now cat terminal) tab))"

subsection \<open>The queue as a machine\<close>

text \<open>Any worker may issue any operation at any time with any arguments, also under a lease it lost;
  \<open>claims\<close> records which job was claimed under which token, in order.\<close>

record queue_sys =
  queue_tab :: job_table
  claims :: "(string \<times> string) list"

inductive queue_step :: "queue_sys \<Rightarrow> queue_sys \<Rightarrow> bool" where
  insert: "validateEnqueue inp now = Inr v \<Longrightarrow> ident \<notin> job_id ` set (queue_tab s) \<Longrightarrow>
     insertJob v ident clock (queue_tab s) = Inr (made, tab') \<Longrightarrow> queue_step s (s\<lparr>queue_tab := tab'\<rparr>)"
| claim: "token \<notin> snd ` set (claims s) \<Longrightarrow>
     claimDueJobs limit now leaseMs token locked (queue_tab s) = (Inr rows, tab') \<Longrightarrow>
     queue_step s (s\<lparr>queue_tab := tab', claims := claims s @ map (\<lambda>r. (job_id r, token)) rows\<rparr>)"
| renew: "renew ident token leaseMs now (queue_tab s) = (res, tab') \<Longrightarrow> queue_step s (s\<lparr>queue_tab := tab'\<rparr>)"
| complete: "complete_job ident token now (queue_tab s) = (res, tab') \<Longrightarrow> queue_step s (s\<lparr>queue_tab := tab'\<rparr>)"
| fail: "fail_job ident tok e category terminal now (queue_tab s) = (left, tab') \<Longrightarrow> queue_step s (s\<lparr>queue_tab := tab'\<rparr>)"

inductive queue_reach :: "queue_sys \<Rightarrow> bool" where
  empty: "queue_reach \<lparr>queue_tab = [], claims = []\<rparr>"
| step: "queue_reach s \<Longrightarrow> queue_step s s' \<Longrightarrow> queue_reach s'"

inductive_cases queue_stepE: "queue_step s s'"

definition claims_of :: "string \<Rightarrow> (string \<times> string) list \<Rightarrow> string list" where
  "claims_of ident cs = map snd (filter (\<lambda>c. fst c = ident) cs)"

definition row_inv :: "(string \<times> string) list \<Rightarrow> job_row \<Rightarrow> bool" where
  "row_inv cs r \<longleftrightarrow> row_checks r \<and> attempts r = int (length (claims_of (job_id r) cs)) \<and> attempts r \<le> max_attempts r \<and>
     (job_state r = Queued \<longrightarrow> attempts r < max_attempts r) \<and>
     (job_state r = Running \<longrightarrow> claims_of (job_id r) cs \<noteq> [] \<and> lease_token r = Some (last (claims_of (job_id r) cs)))"

definition queue_inv :: "queue_sys \<Rightarrow> bool" where
  "queue_inv s \<longleftrightarrow> (\<forall>r \<in> set (queue_tab s). row_inv (claims s) r) \<and> distinct (map job_id (queue_tab s)) \<and>
     distinct (map (\<lambda>r. (job_kind r, idempotency_key r)) (filter live (queue_tab s))) \<and>
     fst ` set (claims s) \<subseteq> job_id ` set (queue_tab s) \<and> distinct (claims s)"

lemmas row_shape_defs = row_inv_def row_checks_def lease_shape_def terminal_shape_def dead_letter_shape_def live_def

text \<open>What every transition leaves alone.\<close>

definition same_job :: "job_row \<Rightarrow> job_row \<Rightarrow> bool" where
  "same_job r q \<longleftrightarrow> job_id q = job_id r \<and> job_kind q = job_kind r \<and> idempotency_key q = idempotency_key r \<and>
     job_version q = job_version r \<and> payload q = payload r \<and> max_attempts q = max_attempts r \<and>
     backoff_base_ms q = backoff_base_ms r \<and> backoff_max_ms q = backoff_max_ms r \<and>
     scope_namespace q = scope_namespace r \<and> provenance q = provenance r \<and> (live q \<longrightarrow> live r)"

lemma same_job_refl [simp]: "same_job r r"
  by (simp add: same_job_def)

lemma same_job_trans:
  "live r \<Longrightarrow> same_job r (leased now token ms r)" "live r \<Longrightarrow> same_job r (failed now c t r)"
  "same_job r (expired_dead now r)" "same_job r (completed now r)" "same_job r (renewed now ms r)"
  by (auto simp: same_job_def leased_def expired_dead_def completed_def failed_def renewed_def live_def)

lemma map_same_job:
  assumes "\<forall>r \<in> set tab. same_job r (f r)"
  shows "map job_id (map f tab) = map job_id tab"
    and "distinct (map (\<lambda>r. (job_kind r, idempotency_key r)) (filter live tab)) \<Longrightarrow>
      distinct (map (\<lambda>r. (job_kind r, idempotency_key r)) (filter live (map f tab)))"
proof -
  show "map job_id (map f tab) = map job_id tab" using assms by (simp add: same_job_def)
  have "set (map (\<lambda>r. (job_kind r, idempotency_key r)) (filter live (map f tab))) \<subseteq>
      set (map (\<lambda>r. (job_kind r, idempotency_key r)) (filter live tab)) \<and>
      (distinct (map (\<lambda>r. (job_kind r, idempotency_key r)) (filter live tab)) \<longrightarrow>
       distinct (map (\<lambda>r. (job_kind r, idempotency_key r)) (filter live (map f tab))))"
    using assms
  proof (induction tab)
    case (Cons r tab)
    then have r: "same_job r (f r)" by simp
    from Cons have IH: "set (map (\<lambda>r. (job_kind r, idempotency_key r)) (filter live (map f tab))) \<subseteq>
        set (map (\<lambda>r. (job_kind r, idempotency_key r)) (filter live tab))"
      "distinct (map (\<lambda>r. (job_kind r, idempotency_key r)) (filter live tab)) \<longrightarrow>
       distinct (map (\<lambda>r. (job_kind r, idempotency_key r)) (filter live (map f tab)))"
      by simp_all
    show ?case
    proof (cases "live (f r)")
      case True
      with r have "live r" "job_kind (f r) = job_kind r" "idempotency_key (f r) = idempotency_key r"
        by (simp_all add: same_job_def)
      with True IH show ?thesis by auto
    next
      case False
      with IH show ?thesis by (cases "live r") auto
    qed
  qed simp
  then show "distinct (map (\<lambda>r. (job_kind r, idempotency_key r)) (filter live tab)) \<Longrightarrow>
      distinct (map (\<lambda>r. (job_kind r, idempotency_key r)) (filter live (map f tab)))" by blast
qed

lemma held_live: "held ident token r \<Longrightarrow> live r"
  by (simp add: held_def live_def)

lemma update_held_same:
  assumes "\<And>r. live r \<Longrightarrow> same_job r (f r)"
  shows "\<forall>r \<in> set tab. same_job r (if held ident token r then f r else r)"
  using assms held_live by auto

lemma queue_inv_update:
  assumes inv: "queue_inv s" and f: "\<And>r. live r \<Longrightarrow> same_job r (f r)"
    and row: "\<And>r. row_inv (claims s) r \<Longrightarrow> held ident token r \<Longrightarrow> row_inv (claims s) (f r)"
  shows "queue_inv (s\<lparr>queue_tab := update_held ident token f (queue_tab s)\<rparr>)"
proof -
  have upd: "\<forall>r \<in> set (queue_tab s). same_job r (if held ident token r then f r else r)"
    by (rule update_held_same) (rule f)
  have ids: "map job_id (update_held ident token f (queue_tab s)) = map job_id (queue_tab s)"
    unfolding update_held_def by (rule map_same_job(1) [OF upd])
  have keys: "distinct (map (\<lambda>r. (job_kind r, idempotency_key r)) (filter live (update_held ident token f (queue_tab s))))"
    unfolding update_held_def by (rule map_same_job(2) [OF upd]) (use inv in \<open>simp add: queue_inv_def\<close>)
  have rows: "\<forall>r \<in> set (update_held ident token f (queue_tab s)). row_inv (claims s) r"
    using inv row by (auto simp: update_held_def queue_inv_def)
  have idset: "job_id ` set (update_held ident token f (queue_tab s)) = job_id ` set (queue_tab s)"
    using ids by (metis set_map)
  from inv show ?thesis by (simp add: queue_inv_def ids keys rows idset)
qed

lemma row_inv_renewed: "row_inv cs r \<Longrightarrow> held ident token r \<Longrightarrow> row_inv cs (renewed now ms r)"
  by (auto simp: row_shape_defs renewed_def held_def)

lemma row_inv_completed: "row_inv cs r \<Longrightarrow> held ident token r \<Longrightarrow> row_inv cs (completed now r)"
  by (auto simp: row_shape_defs completed_def held_def)

lemma row_inv_failed: "row_inv cs r \<Longrightarrow> held ident token r \<Longrightarrow> row_inv cs (failed now c t r)"
  by (auto simp: row_shape_defs failed_def held_def spent_def)

lemma claims_of_append: "claims_of ident (cs @ ds) = claims_of ident cs @ claims_of ident ds"
  by (simp add: claims_of_def)

lemma claims_of_same_token:
  "distinct ids \<Longrightarrow> claims_of ident (map (\<lambda>i. (i, token)) ids) = (if ident \<in> set ids then [token] else [])"
  by (induction ids) (auto simp: claims_of_def)

subsection \<open>The invariant\<close>

lemma validateEnqueue_ok:
  assumes "validateEnqueue inp now = Inr v"
  shows "1 \<le> v_max_attempts v \<and> v_max_attempts v \<le> 25 \<and> 1 \<le> v_backoff_base v \<and> v_backoff_base v \<le> v_backoff_max v \<and>
    1 \<le> v_version v \<and> job_kind_re (v_kind v) \<and> is_object (v_payload v) \<and> 1 \<le> length (v_key v) \<and> length (v_key v) \<le> 256"
proof -
  have pos: "assertPositiveInteger r f = Inr () \<longleftrightarrow> of_int \<lfloor>r\<rfloor> = r \<and> 1 \<le> r" for r f
    by (auto simp: assertPositiveInteger_def whole_def)
  from assms obtain maxA base top where p: "validateJobIdentity inp = Inr ()" "validateRetryPolicy inp = Inr (maxA, base, top)"
    and v: "v_kind v = in_kind inp" "v_version v = \<lfloor>in_version inp\<rfloor>" "v_payload v = in_payload inp" "v_key v = in_key inp"
      "v_max_attempts v = \<lfloor>maxA\<rfloor>" "v_backoff_base v = \<lfloor>base\<rfloor>" "v_backoff_max v = \<lfloor>top\<rfloor>"
    by (auto simp: validateEnqueue_def res_bind_Inr)
  from p(2) have r: "of_int \<lfloor>maxA\<rfloor> = maxA \<and> 1 \<le> maxA" "of_int \<lfloor>base\<rfloor> = base \<and> 1 \<le> base" "maxA \<le> 25" "base \<le> top"
    by (auto simp: validateRetryPolicy_def Let_def res_bind_Inr pos split: if_splits)
  from p(1) have i: "1 \<le> in_version inp" "job_kind_re (in_kind inp)" "is_object (in_payload inp)" "in_key inp \<noteq> []"
      "length (in_key inp) \<le> 256"
    by (auto simp: validateJobIdentity_def res_bind_Inr pos assertObject_def is_object_def split: if_splits json.splits)
  have "1 \<le> length (in_key inp)" using i(4) by (cases "in_key inp") simp_all
  moreover have "\<lfloor>base\<rfloor> \<le> \<lfloor>top\<rfloor>" using r(4) by (rule floor_mono)
  moreover have "\<lfloor>maxA\<rfloor> \<le> 25" using r(3) floor_mono [of maxA 25] by simp
  moreover have "1 \<le> \<lfloor>maxA\<rfloor>" "1 \<le> \<lfloor>base\<rfloor>" "1 \<le> \<lfloor>in_version inp\<rfloor>" using r(1,2) i(1) by (simp_all add: le_floor_iff)
  ultimately show ?thesis using i by (simp add: v)
qed

lemma claims_of_unclaimed:
  assumes "queue_inv s" "ident \<notin> job_id ` set (queue_tab s)"
  shows "claims_of ident (claims s) = []"
proof -
  have "ident \<notin> fst ` set (claims s)" using assms by (auto simp: queue_inv_def)
  then show ?thesis by (force simp: claims_of_def filter_empty_conv)
qed

lemma queue_inv_insert:
  assumes inv: "queue_inv s" and fresh: "ident \<notin> job_id ` set (queue_tab s)"
    and ins: "insertJob v ident clock (queue_tab s) = Inr (made, tab')"
  shows "queue_inv (s\<lparr>queue_tab := tab'\<rparr>)"
proof (cases "list_ex (holds_key (v_kind v) (v_key v)) (queue_tab s)")
  case True
  with inv ins show ?thesis by (auto simp: insertJob_def Let_def split: if_splits)
next
  case False
  let ?r = "new_row v ident clock"
  from ins False have tab': "tab' = queue_tab s @ [?r]" and ok: "row_checks ?r"
    by (auto simp: insertJob_def Let_def split: if_splits)
  have "row_inv (claims s) ?r"
    using ok claims_of_unclaimed [OF inv fresh] by (simp add: row_inv_def row_checks_def new_row_def)
  moreover have "(job_kind ?r, idempotency_key ?r) \<notin>
      (\<lambda>r. (job_kind r, idempotency_key r)) ` set (filter live (queue_tab s))"
    using False by (auto simp: list_ex_iff holds_key_def new_row_def)
  moreover have "live ?r" "job_id ?r = ident" by (simp_all add: live_def new_row_def)
  ultimately show ?thesis using inv fresh by (auto simp: queue_inv_def tab')
qed

lemma filter_ids_eq:
  assumes "distinct (map job_id tab)" "set rs \<subseteq> set tab" "r \<in> set tab"
  shows "job_id r \<in> job_id ` set rs \<longleftrightarrow> r \<in> set rs"
proof
  assume "job_id r \<in> job_id ` set rs"
  then obtain q where q: "q \<in> set rs" "job_id q = job_id r" by auto
  with assms have "q = r" by (metis distinct_map inj_on_eq_iff subsetD)
  with q show "r \<in> set rs" by simp
qed simp

lemma eligible_set:
  "set (eligible now limit locked tab) \<subseteq> {r \<in> set tab. due now r \<and> job_id r \<notin> locked}"
  unfolding eligible_def using set_take_subset [of "nat limit"]
  by (fastforce simp: set_sort_by)

lemma due_live: "due now r \<Longrightarrow> live r"
  by (auto simp: due_def live_def)

text \<open>One row under a claim.\<close>

definition claim_row :: "int \<Rightarrow> string \<Rightarrow> int \<Rightarrow> string set \<Rightarrow> job_row \<Rightarrow> job_row" where
  "claim_row now token leaseMs ids r =
     (if job_id r \<notin> ids then r else if reclaimable r then leased now token leaseMs r else expired_dead now r)"

lemma claim_rows_map:
  "claim_rows now limit token ms locked tab =
     (map (leased now token ms) (filter (\<lambda>r. job_id r \<in> job_id ` set (eligible now limit locked tab) \<and> reclaimable r) tab),
      map (claim_row now token ms (job_id ` set (eligible now limit locked tab))) tab)"
  by (simp add: claim_rows_def claim_row_def [abs_def] Let_def)

lemma row_inv_claim:
  assumes ri: "row_inv cs r" and due: "job_id r \<in> ids \<Longrightarrow> due now r"
    and cl: "claims_of (job_id r) cs' = claims_of (job_id r) cs @ (if job_id r \<in> ids \<and> reclaimable r then [token] else [])"
  shows "row_inv cs' (claim_row now token ms ids r)"
proof (cases "job_id r \<in> ids")
  case False
  then have "claims_of (job_id r) cs' = claims_of (job_id r) cs" "claim_row now token ms ids r = r"
    using cl by (simp_all add: claim_row_def)
  then show ?thesis using ri by (metis row_inv_def)
next
  case ids: True
  with due have due: "due now r" by simp
  show ?thesis
  proof (cases "reclaimable r")
    case True
    with ri cl ids due show ?thesis
      by (auto simp: row_shape_defs claim_row_def leased_def reclaimable_def due_def int4_def)
  next
    case False
    with ri cl ids due show ?thesis
      by (auto simp: row_shape_defs claim_row_def expired_dead_def reclaimable_def due_def)
  qed
qed

lemma queue_inv_claim_rows:
  assumes inv: "queue_inv s" and fresh: "token \<notin> snd ` set (claims s)"
    and c: "claim_rows now limit token ms locked (queue_tab s) = (rows, tab')"
  shows "queue_inv (s\<lparr>queue_tab := tab', claims := claims s @ map (\<lambda>r. (job_id r, token)) rows\<rparr>)"
proof -
  let ?tab = "queue_tab s" and ?e = "eligible now limit locked (queue_tab s)"
  let ?ids = "job_id ` set ?e"
  let ?taken = "map job_id (filter (\<lambda>r. job_id r \<in> ?ids \<and> reclaimable r) ?tab)"
  from c have rows: "map (\<lambda>r. (job_id r, token)) rows = map (\<lambda>i. (i, token)) ?taken"
    and tab': "tab' = map (claim_row now token ms ?ids) ?tab"
    by (auto simp: claim_rows_map leased_def)
  from inv have dist: "distinct (map job_id ?tab)" and old: "\<forall>r \<in> set ?tab. row_inv (claims s) r"
    by (simp_all add: queue_inv_def)
  have el: "r \<in> set ?tab \<Longrightarrow> job_id r \<in> ?ids \<Longrightarrow> due now r" for r
    using filter_ids_eq [OF dist, of ?e r] eligible_set [of now limit locked ?tab] by blast
  have same: "\<forall>r \<in> set ?tab. same_job r (claim_row now token ms ?ids r)"
  proof
    fix r assume "r \<in> set ?tab"
    then have "job_id r \<in> ?ids \<Longrightarrow> live r" using el due_live by blast
    then show "same_job r (claim_row now token ms ?ids r)"
      by (simp add: claim_row_def same_job_trans(1) same_job_trans(3))
  qed
  have dt: "distinct ?taken" using dist by (simp add: distinct_map_filter)
  have cl: "claims_of i (claims s @ map (\<lambda>i. (i, token)) ?taken) =
      claims_of i (claims s) @ (if i \<in> set ?taken then [token] else [])" for i
    by (simp only: claims_of_append claims_of_same_token [OF dt])
  have row: "row_inv (claims s @ map (\<lambda>i. (i, token)) ?taken) (claim_row now token ms ?ids r)" if r: "r \<in> set ?tab" for r
  proof -
    have mem: "job_id r \<in> set ?taken \<longleftrightarrow> job_id r \<in> ?ids \<and> reclaimable r"
    proof
      assume "job_id r \<in> set ?taken"
      then obtain q where "q \<in> set ?tab" "job_id q = job_id r" "job_id q \<in> ?ids" "reclaimable q" by auto
      moreover from this dist r have "q = r" by (metis distinct_map inj_on_eq_iff)
      ultimately show "job_id r \<in> ?ids \<and> reclaimable r" by simp
    qed (use r in auto)
    show ?thesis
    proof (rule row_inv_claim)
      show "row_inv (claims s) r" using old r by simp
      show "job_id r \<in> ?ids \<Longrightarrow> due now r" using el r by simp
      show "claims_of (job_id r) (claims s @ map (\<lambda>i. (i, token)) ?taken) =
          claims_of (job_id r) (claims s) @ (if job_id r \<in> ?ids \<and> reclaimable r then [token] else [])"
        unfolding cl mem ..
    qed
  qed
  have ids: "map job_id tab' = map job_id ?tab" unfolding tab' by (rule map_same_job(1) [OF same])
  moreover have keys: "distinct (map (\<lambda>r. (job_kind r, idempotency_key r)) (filter live tab'))"
    unfolding tab' by (rule map_same_job(2) [OF same]) (use inv in \<open>simp add: queue_inv_def\<close>)
  have rs: "\<forall>r \<in> set tab'. row_inv (claims s @ map (\<lambda>i. (i, token)) ?taken) r" using row by (simp add: tab')
  have "set (claims s) \<inter> set (map (\<lambda>i. (i, token)) ?taken) = {}" using fresh by force
  moreover have "distinct (map (\<lambda>i. (i, token)) ?taken)"
    unfolding distinct_map [of "\<lambda>i. (i, token)"] using dt by (simp add: inj_on_def)
  ultimately have dc: "distinct (claims s @ map (\<lambda>i. (i, token)) ?taken)"
    using inv by (simp add: queue_inv_def)
  have "fst ` set (map (\<lambda>i. (i, token)) ?taken) \<subseteq> job_id ` set ?tab" by (force simp: image_image)
  then have sub: "fst ` set (claims s @ map (\<lambda>i. (i, token)) ?taken) \<subseteq> job_id ` set ?tab"
    using inv unfolding queue_inv_def set_append image_Un by simp
  have "job_id ` set tab' = job_id ` set ?tab" using ids by (metis list.set_map)
  moreover have "distinct (map job_id tab')" unfolding ids by (rule dist)
  ultimately show ?thesis using keys rs dc sub unfolding rows queue_inv_def queue_sys.simps by simp
qed

lemma queue_reach_inv: "queue_reach s \<Longrightarrow> queue_inv s"
proof (induction rule: queue_reach.induct)
  case empty
  show ?case by (simp add: queue_inv_def)
next
  case (step s s')
  from step(2) step.IH show ?case
  proof cases
    case (insert inp now v ident clock made tab')
    with step.IH show ?thesis by (metis queue_inv_insert)
  next
    case (claim token limit now leaseMs locked rows tab')
    from claim(3) have "claim_rows now \<lfloor>limit\<rfloor> token \<lfloor>leaseMs\<rfloor> locked (queue_tab s) = (rows, tab')"
      by (auto simp: claimDueJobs_def split: sum.splits prod.splits)
    with claim(1,2) step.IH show ?thesis by (metis queue_inv_claim_rows)
  next
    case (renew ident token leaseMs now res tab')
    from renew(2) consider "tab' = queue_tab s" |
      "tab' = update_held ident (Some token) (renewed now \<lfloor>leaseMs\<rfloor>) (queue_tab s)"
      by (auto simp: renew_def split: sum.splits)
    then show ?thesis
    proof cases
      case 1
      with renew(1) step.IH show ?thesis by simp
    next
      case 2
      show ?thesis unfolding renew(1) 2
        by (rule queue_inv_update) (use step.IH in \<open>simp_all add: same_job_trans row_inv_renewed\<close>)
    qed
  next
    case (complete ident token now res tab')
    from complete(2) have t: "tab' = update_held ident (Some token) (completed now) (queue_tab s)"
      by (simp add: complete_job_def)
    show ?thesis unfolding complete(1) t
      by (rule queue_inv_update) (use step.IH in \<open>simp_all add: same_job_trans row_inv_completed\<close>)
  next
    case (fail ident tok e category terminal now left tab')
    from fail(2) obtain c where t: "tab' = update_held ident tok (failed now c terminal) (queue_tab s)"
      by (auto simp: fail_job_def Let_def)
    show ?thesis unfolding fail(1) t
      by (rule queue_inv_update) (use step.IH in \<open>simp_all add: same_job_trans row_inv_failed\<close>)
  qed
qed

subsection \<open>What the table promises\<close>

text \<open>C11: whatever operations the workers issue, in whatever order and under whatever lease, every row
  satisfies the table's CHECK constraints and column types, ids are unique, and at most one live row
  holds an idempotency key: no transition is ever refused by the database.\<close>

theorem queue_rows_well_formed:
  assumes "queue_reach s"
  shows "(\<forall>r \<in> set (queue_tab s). row_checks r) \<and> distinct (map job_id (queue_tab s)) \<and>
    distinct (map (\<lambda>r. (job_kind r, idempotency_key r)) (filter live (queue_tab s)))"
  using queue_reach_inv [OF assms] by (auto simp: queue_inv_def row_inv_def)

text \<open>C12: a job is claimed at most \<open>max_attempts\<close> times, hence at most 25 times, however often its
  leases expire; \<open>attempts\<close> counts its claims exactly, and a job that has used its budget is never
  queued again.\<close>

theorem claims_within_budget:
  assumes "queue_reach s"
  shows "length (claims_of ident (claims s)) \<le> 25 \<and>
    (\<forall>r \<in> set (queue_tab s). job_id r = ident \<longrightarrow>
       attempts r = int (length (claims_of ident (claims s))) \<and> attempts r \<le> max_attempts r \<and>
       (attempts r = max_attempts r \<longrightarrow> job_state r \<noteq> Queued))"
proof (cases "ident \<in> job_id ` set (queue_tab s)")
  case True
  then obtain r where r: "r \<in> set (queue_tab s)" "job_id r = ident" by auto
  have inv: "queue_inv s" by (rule queue_reach_inv [OF assms])
  with r have "row_inv (claims s) r" by (simp add: queue_inv_def)
  with r have "length (claims_of ident (claims s)) \<le> 25" by (auto simp: row_inv_def row_checks_def)
  with inv show ?thesis by (auto simp: queue_inv_def row_inv_def)
next
  case False
  then show ?thesis using claims_of_unclaimed [OF queue_reach_inv [OF assms] False] by auto
qed

lemma not_held:
  assumes "queue_inv s" "r \<in> set (queue_tab s)"
    and "claims_of ident (claims s) = [] \<or> tok \<noteq> Some (last (claims_of ident (claims s)))"
  shows "\<not> held ident tok r"
  using assms by (auto simp: queue_inv_def row_inv_def held_def)

lemma update_held_none: "\<forall>r \<in> set tab. \<not> held ident tok r \<Longrightarrow> update_held ident tok f tab = tab"
  by (simp add: update_held_def map_idI)

lemma unheld_transitions:
  assumes "\<forall>r \<in> set tab. \<not> held ident tok r"
  shows "tok = Some token \<Longrightarrow> assertPositiveInteger leaseMs ''lease duration'' = Inr () \<Longrightarrow>
      renew ident token leaseMs now tab = (Inr False, tab)"
    and "tok = Some token \<Longrightarrow> complete_job ident token now tab = (False, tab)"
    and "fail_job ident tok e category terminal now tab = (None, tab)"
proof -
  note none = update_held_none [OF assms]
  have filt: "filter (held ident tok) tab = []" using assms by (simp add: filter_empty_conv)
  have fnd: "find (held ident tok) tab = None" using assms by (simp add: find_None_iff)
  show "tok = Some token \<Longrightarrow> assertPositiveInteger leaseMs ''lease duration'' = Inr () \<Longrightarrow>
      renew ident token leaseMs now tab = (Inr False, tab)"
    using none filt by (simp add: renew_def)
  show "tok = Some token \<Longrightarrow> complete_job ident token now tab = (False, tab)"
    using none filt by (simp add: complete_job_def)
  show "fail_job ident tok e category terminal now tab = (None, tab)"
    using none fnd by (simp add: fail_job_def Let_def)
qed

text \<open>C13: only the latest claim of a job may act on it. A renewal, completion or failure under any other
  token, or under none, answers \<open>false\<close> or \<open>null\<close> and changes nothing.\<close>

theorem stale_lease_refused:
  assumes "queue_reach s" and "claims_of ident (claims s) = [] \<or> token \<noteq> last (claims_of ident (claims s))"
    and "0 < leaseMs"
  shows "renew ident token (of_int leaseMs) now (queue_tab s) = (Inr False, queue_tab s) \<and>
    complete_job ident token now (queue_tab s) = (False, queue_tab s) \<and>
    fail_job ident (Some token) e category terminal now (queue_tab s) = (None, queue_tab s) \<and>
    fail_job ident None e category terminal now (queue_tab s) = (None, queue_tab s)"
proof -
  have inv: "queue_inv s" by (rule queue_reach_inv [OF assms(1)])
  have "\<forall>r \<in> set (queue_tab s). \<not> held ident (Some token) r" "\<forall>r \<in> set (queue_tab s). \<not> held ident None r"
    using not_held [OF inv] assms(2) by auto
  moreover have "assertPositiveInteger (of_int leaseMs) ''lease duration'' = Inr ()"
    using assms(3) by (simp add: assertPositiveInteger_def whole_def)
  ultimately show ?thesis by (simp add: unheld_transitions(1,2) [OF _ refl] unheld_transitions(3))
qed

subsection \<open>A finished job stays finished\<close>

lemma claim_spares:
  assumes inv: "queue_inv s" and c: "claim_rows now limit token ms locked (queue_tab s) = (rows, tab')"
    and r: "r \<in> set (queue_tab s)" "\<not> live r"
  shows "r \<in> set tab' \<and> job_id r \<notin> job_id ` set rows"
proof -
  let ?e = "eligible now limit locked (queue_tab s)"
  have dist: "distinct (map job_id (queue_tab s))" using inv by (simp add: queue_inv_def)
  have out: "job_id r \<notin> job_id ` set ?e"
    using filter_ids_eq [OF dist, of ?e r] eligible_set [of now limit locked "queue_tab s"] r due_live by blast
  then have "claim_row now token ms (job_id ` set ?e) r = r" by (simp add: claim_row_def)
  moreover from c have "tab' = map (claim_row now token ms (job_id ` set ?e)) (queue_tab s)"
    and rows: "rows = map (leased now token ms) (filter (\<lambda>r. job_id r \<in> job_id ` set ?e \<and> reclaimable r) (queue_tab s))"
    unfolding claim_rows_map by (simp_all only: prod.inject)
  ultimately have "r \<in> set tab'" using imageI [OF r(1), of "claim_row now token ms (job_id ` set ?e)"] by simp
  moreover have "job_id ` set rows \<subseteq> job_id ` set ?e" unfolding rows by (auto simp: leased_def)
  ultimately show ?thesis using out by blast
qed

lemma update_held_spares: "r \<in> set tab \<Longrightarrow> \<not> live r \<Longrightarrow> r \<in> set (update_held ident tok f tab)"
  unfolding update_held_def using held_live by force

lemma step_spares_finished:
  assumes step: "queue_step s s'" and inv: "queue_inv s" and r: "r \<in> set (queue_tab s)" "\<not> live r"
  shows "r \<in> set (queue_tab s') \<and> claims_of (job_id r) (claims s') = claims_of (job_id r) (claims s)"
  using step
proof cases
  case (insert inp now v ident clock made tab')
  then show ?thesis using r by (auto simp: insertJob_def Let_def split: if_splits)
next
  case (claim token limit now leaseMs locked rows tab')
  from claim(3) have "claim_rows now \<lfloor>limit\<rfloor> token \<lfloor>leaseMs\<rfloor> locked (queue_tab s) = (rows, tab')"
    by (auto simp: claimDueJobs_def split: sum.splits prod.splits)
  from claim_spares [OF inv this r] have "r \<in> set tab'" "job_id r \<notin> job_id ` set rows" by simp_all
  then have "claims_of (job_id r) (map (\<lambda>r. (job_id r, token)) rows) = []"
    by (auto simp: claims_of_def filter_empty_conv dest: image_eqI [OF sym])
  with \<open>r \<in> set tab'\<close> show ?thesis by (simp add: claim(1) claims_of_append)
next
  case (renew ident token leaseMs now res tab')
  then show ?thesis using r update_held_spares by (auto simp: renew_def split: sum.splits)
next
  case (complete ident token now res tab')
  then show ?thesis using r update_held_spares by (auto simp: complete_job_def)
next
  case (fail ident tok e category terminal now left tab')
  then show ?thesis using r update_held_spares by (auto simp: fail_job_def Let_def)
qed

lemma steps_spare_finished:
  assumes "queue_step\<^sup>*\<^sup>* s s'" "queue_reach s" "r \<in> set (queue_tab s)" "\<not> live r"
  shows "queue_reach s' \<and> r \<in> set (queue_tab s') \<and> claims_of (job_id r) (claims s') = claims_of (job_id r) (claims s)"
  using assms
proof (induction rule: rtranclp_induct)
  case (step s1 s2)
  then show ?case using step_spares_finished [OF step(2) queue_reach_inv] queue_reach.step by metis
qed simp

lemma held_row_unique:
  assumes "r \<in> set tab" "held ident tok r" "distinct (map job_id tab)"
  shows "filter (held ident tok) tab = [r]" "find (held ident tok) tab = Some r"
proof -
  have "filter (held ident tok) tab = [r] \<and> find (held ident tok) tab = Some r"
    using assms(1,3)
  proof (induction tab)
    case (Cons q tab)
    show ?case
    proof (cases "q = r")
      case True
      with Cons.prems(2) assms(2) have "\<forall>p \<in> set tab. \<not> held ident tok p" by (auto simp: held_def image_iff)
      with True assms(2) show ?thesis by (simp add: filter_empty_conv)
    next
      case False
      with Cons.prems have "r \<in> set tab" by simp
      with Cons.prems(2) assms(2) have "\<not> held ident tok q" by (auto simp: held_def image_iff)
      with Cons.IH Cons.prems(2) \<open>r \<in> set tab\<close> show ?thesis by simp
    qed
  qed simp
  then show "filter (held ident tok) tab = [r]" "find (held ident tok) tab = Some r" by simp_all
qed

lemma held_unique:
  assumes "queue_inv s" "r \<in> set (queue_tab s)" "held ident tok r"
  shows "filter (held ident tok) (queue_tab s) = [r]" "find (held ident tok) (queue_tab s) = Some r"
  using held_row_unique [OF assms(2,3)] assms(1) by (simp_all add: queue_inv_def)

text \<open>Completion is exclusive. Once one completion has answered \<open>true\<close>, then whatever the workers do
  next, no completion and no failure of that job takes effect again, and it is never claimed again.\<close>

theorem completed_once:
  assumes reach: "queue_reach s" and compl: "complete_job ident token now (queue_tab s) = (True, tab)"
    and steps: "queue_step\<^sup>*\<^sup>* (s\<lparr>queue_tab := tab\<rparr>) s'"
  shows "complete_job ident token' now' (queue_tab s') = (False, queue_tab s') \<and>
    fail_job ident tok e category terminal now' (queue_tab s') = (None, queue_tab s') \<and>
    claims_of ident (claims s') = claims_of ident (claims s)"
proof -
  have r1: "queue_reach (s\<lparr>queue_tab := tab\<rparr>)" using reach queue_step.complete [OF compl] by (rule queue_reach.step)
  from compl have "filter (held ident (Some token)) (queue_tab s) \<noteq> []" by (auto simp: complete_job_def)
  then obtain r where r: "r \<in> set (queue_tab s)" "held ident (Some token) r" by (auto simp: filter_empty_conv)
  from compl have "tab = update_held ident (Some token) (completed now) (queue_tab s)" by (simp add: complete_job_def)
  with r have c: "completed now r \<in> set tab" by (force simp: update_held_def)
  have fin: "\<not> live (completed now r)" "job_id (completed now r) = ident"
    using r by (simp_all add: live_def completed_def held_def)
  from steps_spare_finished [OF steps r1 _ fin(1)] c fin(2)
  have s': "queue_reach s'" "completed now r \<in> set (queue_tab s')" "claims_of ident (claims s') = claims_of ident (claims s)"
    by simp_all
  have "\<not> held ident t q" if q: "q \<in> set (queue_tab s')" for t q
  proof
    assume h: "held ident t q"
    have "job_id q = job_id (completed now r)" using h fin by (simp add: held_def)
    then have "q = completed now r" using queue_reach_inv [OF s'(1)] q s'(2)
      by (metis (no_types, lifting) distinct_map inj_on_eq_iff queue_inv_def)
    with h fin(1) held_live show False by blast
  qed
  with s'(3) show ?thesis by (simp add: unheld_transitions(2) [OF _ refl] unheld_transitions(3))
qed

subsection \<open>What one claim takes\<close>

lemma claim_le_order: "sort_order claim_le"
  unfolding claim_le_def by (intro lex_sort_order key_sort_order)

interpretation claim_order: sort_order claim_le
  by (rule claim_le_order)

lemma eligible_spec:
  assumes "distinct tab" and w_def: "w = {r \<in> set tab. due now r \<and> job_id r \<notin> locked}"
  shows "distinct (eligible now (int n) locked tab) \<and> set (eligible now (int n) locked tab) \<subseteq> w \<and>
    length (eligible now (int n) locked tab) = min n (card w) \<and>
    (\<forall>a \<in> set (eligible now (int n) locked tab). \<forall>b \<in> w - set (eligible now (int n) locked tab). claim_le a b)"
proof -
  let ?l = "sort_by claim_le (filter (\<lambda>r. due now r \<and> job_id r \<notin> locked) tab)"
  have w: "w = set ?l" by (auto simp: w_def)
  have d: "distinct ?l" using assms(1) by simp
  have "sorted_wrt claim_le (take n ?l @ drop n ?l)" by (simp add: claim_order.sorted_sort_by)
  then have "\<forall>a \<in> set (take n ?l). \<forall>b \<in> set (drop n ?l). claim_le a b" unfolding sorted_wrt_append by blast
  moreover have "set ?l = set (take n ?l) \<union> set (drop n ?l)" by (metis append_take_drop_id set_append)
  moreover have "card (set ?l) = length ?l" using d by (rule distinct_card)
  ultimately show ?thesis
    unfolding w eligible_def nat_int using distinct_take [OF d] set_take_subset [of n ?l] by (auto simp: min.commute)
qed

text \<open>A claim takes the oldest due jobs, as many as its limit allows, and only them: expired leases
  with no attempt left are dead-lettered, every other one is leased under the claim's token and returned.
  Rows that are not due, that another worker holds, or beyond the limit are left as they are.\<close>

theorem claim_takes_oldest_due:
  assumes "queue_reach s" and "1 \<le> limit" and "limit \<le> 256" and "1 \<le> leaseMs"
  shows "\<exists>chosen rows. claimDueJobs (of_nat limit) now (of_int leaseMs) token locked (queue_tab s) = (Inr rows,
      map (\<lambda>r. if r \<notin> set chosen then r else if reclaimable r then leased now token leaseMs r else expired_dead now r)
        (queue_tab s)) \<and>
    distinct chosen \<and> set chosen \<subseteq> {r \<in> set (queue_tab s). due now r \<and> job_id r \<notin> locked} \<and>
    length chosen = min limit (card {r \<in> set (queue_tab s). due now r \<and> job_id r \<notin> locked}) \<and>
    (\<forall>a \<in> set chosen. \<forall>b \<in> {r \<in> set (queue_tab s). due now r \<and> job_id r \<notin> locked} - set chosen. claim_le a b) \<and>
    set rows = leased now token leaseMs ` {r \<in> set chosen. reclaimable r}"
proof -
  let ?tab = "queue_tab s" and ?e = "eligible now (int limit) locked (queue_tab s)"
  let ?rows = "map (leased now token leaseMs) (filter (\<lambda>r. job_id r \<in> job_id ` set ?e \<and> reclaimable r) ?tab)"
  have dist: "distinct (map job_id ?tab)" using queue_reach_inv [OF assms(1)] by (simp add: queue_inv_def)
  have sub: "set ?e \<subseteq> set ?tab" using eligible_set by blast
  have mem: "job_id r \<in> job_id ` set ?e \<longleftrightarrow> r \<in> set ?e" if "r \<in> set ?tab" for r
    using filter_ids_eq [OF dist sub that] .
  have "map (claim_row now token leaseMs (job_id ` set ?e)) ?tab =
      map (\<lambda>r. if r \<notin> set ?e then r else if reclaimable r then leased now token leaseMs r else expired_dead now r) ?tab"
    by (simp add: claim_row_def mem)
  moreover have "set (filter (\<lambda>r. job_id r \<in> job_id ` set ?e \<and> reclaimable r) ?tab) = {r \<in> set ?e. reclaimable r}"
    using mem sub by auto
  moreover have "claimDueJobs (of_nat limit) now (of_int leaseMs) token locked ?tab =
      (Inr (fst (claim_rows now (int limit) token leaseMs locked ?tab)), snd (claim_rows now (int limit) token leaseMs locked ?tab))"
    using assms(2-4) by (simp add: claimDueJobs_def assertPositiveInteger_def whole_def MAX_CLAIM_LIMIT_def split: prod.splits)
  moreover have "distinct ?tab" using dist by (simp add: distinct_map)
  note eligible_spec [OF this refl, where n = limit and now = now and locked = locked]
  ultimately show ?thesis unfolding claim_rows_map 
    by - (rule exI [of _ ?e], rule exI [of _ ?rows], simp)
qed

subsection \<open>What one failure leaves behind\<close>

lemma update_held_one:
  assumes "queue_inv s" "r \<in> set (queue_tab s)" "held ident tok r"
  shows "update_held ident tok f (queue_tab s) = map (\<lambda>p. if p = r then f r else p) (queue_tab s)"
proof -
  have "held ident tok p \<longleftrightarrow> p = r" if "p \<in> set (queue_tab s)" for p
  proof
    assume "held ident tok p"
    with that have "p \<in> set (filter (held ident tok) (queue_tab s))" by simp
    then show "p = r" unfolding held_unique(1) [OF assms] by simp
  qed (use assms(3) in simp)
  then show ?thesis unfolding update_held_def by simp
qed

text \<open>A failure that is not terminal puts the job back after exactly the delay \<open>maintenanceBackoffMs\<close>
  computes, a delay between the base and the maximum of the row that doubles with each attempt, while
  attempts remain; the last attempt and every terminal failure dead-letter it. Nothing else changes.\<close>

theorem failure_retries_or_dead_letters:
  assumes reach: "queue_reach s" and r: "r \<in> set (queue_tab s)" "held ident (Some token) r"
  shows "\<exists>q c. fail_job ident (Some token) e category terminal now (queue_tab s) =
      (Some q, map (\<lambda>p. if p = r then q else p) (queue_tab s)) \<and>
    (if \<not> terminal \<and> attempts r < max_attempts r
     then q = r\<lparr>job_state := Queued, run_after := now + maintenanceBackoffMs r, lease_token := None, lease_until := None,
            last_error := Some c, terminal_at := None, dead_lettered_at := None\<rparr>
     else q = r\<lparr>job_state := Dead_letter, lease_token := None, lease_until := None, last_error := Some c,
            terminal_at := Some now, dead_lettered_at := Some now\<rparr>) \<and>
    c = (case category of Some d \<Rightarrow> d | None \<Rightarrow> if terminal then Terminal else safeMaintenanceErrorCategory e) \<and>
    maintenanceBackoffMs r = min (backoff_base_ms r * 2 ^ nat (attempts r - 1)) (backoff_max_ms r) \<and>
    backoff_base_ms r \<le> maintenanceBackoffMs r \<and> maintenanceBackoffMs r \<le> backoff_max_ms r"
proof -
  have inv: "queue_inv s" by (rule queue_reach_inv [OF reach])
  with r have ri: "row_inv (claims s) r" by (simp add: queue_inv_def)
  then have "claims_of (job_id r) (claims s) \<noteq> []" using r(2) by (simp add: row_inv_def held_def)
  then have "1 \<le> attempts r" using ri by (cases "claims_of (job_id r) (claims s)") (simp_all add: row_inv_def)
  moreover have "attempts r \<le> 25" "0 < backoff_base_ms r" "backoff_base_ms r \<le> backoff_max_ms r"
    using ri by (auto simp: row_inv_def row_checks_def)
  ultimately have b: "maintenanceBackoffMs r = min (backoff_base_ms r * 2 ^ nat (attempts r - 1)) (backoff_max_ms r)"
      "backoff_base_ms r \<le> maintenanceBackoffMs r" "maintenanceBackoffMs r \<le> backoff_max_ms r"
    by (simp_all add: maintenanceBackoffMs_def Let_def mult_le_cancel_left1 min_le_iff_disj)
  define c where "c = (case category of Some c \<Rightarrow> c | None \<Rightarrow> if terminal then Terminal else safeMaintenanceErrorCategory e)"
  have "fail_job ident (Some token) e category terminal now (queue_tab s) =
      (Some (failed now c terminal r), map (\<lambda>p. if p = r then failed now c terminal r else p) (queue_tab s))"
    using held_unique(2) [OF inv r] update_held_one [OF inv r] by (simp add: fail_job_def Let_def c_def)
  moreover have "if \<not> terminal \<and> attempts r < max_attempts r
     then failed now c terminal r = r\<lparr>job_state := Queued, run_after := now + maintenanceBackoffMs r, lease_token := None,
        lease_until := None, last_error := Some c, terminal_at := None, dead_lettered_at := None\<rparr>
     else failed now c terminal r = r\<lparr>job_state := Dead_letter, lease_token := None, lease_until := None, last_error := Some c,
        terminal_at := Some now, dead_lettered_at := Some now\<rparr>"
    by (simp add: failed_def spent_def maintenanceBackoffMs_def Let_def)
  ultimately show ?thesis using b c_def by (intro exI [of _ "failed now c terminal r"] exI [of _ c]) simp
qed

subsection \<open>Enqueueing twice\<close>

text \<open>Two payloads that differ in the order of their members only.\<close>

inductive json_same :: "json \<Rightarrow> json \<Rightarrow> bool" where
  same_refl: "json_same j j"
| same_trans: "json_same a b \<Longrightarrow> json_same b c \<Longrightarrow> json_same a c"
| same_order: "mset kvs = mset kvs' \<Longrightarrow> distinct (map fst kvs) \<Longrightarrow> json_same (JObj kvs) (JObj kvs')"
| same_member: "json_same v v' \<Longrightarrow> json_same (JObj (xs @ (k, v) # ys)) (JObj (xs @ (k, v') # ys))"
| same_element: "json_same v v' \<Longrightarrow> json_same (JArr (xs @ v # ys)) (JArr (xs @ v' # ys))"

lemma keyed_lists_eq:
  assumes "map fst xs = map fst ys" "set xs = set ys" "distinct (map fst xs)"
  shows "xs = ys"
proof (rule nth_equalityI)
  show len: "length xs = length ys" using assms(1) by (rule map_eq_imp_length_eq)
  fix i assume i: "i < length xs"
  have "map fst xs ! i = map fst ys ! i" by (simp only: assms(1))
  then have "fst (xs ! i) = fst (ys ! i)" using i len by simp
  moreover have "xs ! i \<in> set xs" using i by (rule nth_mem)
  moreover have "ys ! i \<in> set xs" unfolding assms(2) using i len by (intro nth_mem) simp
  moreover have "inj_on fst (set xs)" using assms(3) by (simp add: distinct_map)
  ultimately show "xs ! i = ys ! i" by (simp add: inj_onD)
qed

lemma sort_members_perm:
  assumes m: "mset xs = mset ys" and d: "distinct (map fst xs)"
  shows "sort_by (\<lambda>a b. fst a \<le> fst b) xs = sort_by (\<lambda>a b. fst a \<le> (fst b :: string)) ys"
proof (rule keyed_lists_eq)
  let ?s = "sort_by (\<lambda>a b. fst a \<le> (fst b :: string))"
  have sorted: "sorted (map fst (?s zs))" for zs :: "(string \<times> 'a) list"
    using sort_order.sorted_sort_by [OF key_sort_order, of fst zs] by (simp add: sorted_map)
  have ms: "mset (map fst (?s xs)) = mset (map fst (?s ys))" using m by simp
  from d show dist: "distinct (map fst (?s xs))" 
    using mset_eq_imp_distinct_iff [of "map fst (?s xs)" "map fst xs"] by simp
  have "sort (map fst (?s ys)) = map fst (?s xs)" by (rule properties_for_sort) (rule ms, rule sorted)
  moreover have "sort (map fst (?s ys)) = map fst (?s ys)" by (rule sorted_sort_id) (rule sorted)
  ultimately show "map fst (?s xs) = map fst (?s ys)" by simp
  show "set (?s xs) = set (?s ys)" 
    using mset_eq_setD [OF m] by simp
qed

lemma sort_keys_same: "json_same a b \<Longrightarrow> sort_keys a = sort_keys b"
proof (induction rule: json_same.induct)
  case (same_order kvs kvs')
  have "mset (map (\<lambda>(k, v). (k, sort_keys v)) kvs) = mset (map (\<lambda>(k, v). (k, sort_keys v)) kvs')"
    using same_order(1) by simp
  moreover have "map fst (map (\<lambda>(k, v). (k, sort_keys v)) kvs) = map fst kvs" by (simp add: comp_def case_prod_beta)
  then have "distinct (map fst (map (\<lambda>(k, v). (k, sort_keys v)) kvs))" using same_order(2) by (simp only:)
  ultimately show ?case unfolding sort_keys.simps by (simp only: sort_members_perm)
qed simp_all

lemma canonicalJson_same: "json_same a b \<Longrightarrow> canonicalJson (Some a) = canonicalJson (Some b)"
  by (simp add: canonicalJson_def sort_keys_same)

lemma update_held_keeps:
  assumes "\<And>q. live q \<Longrightarrow> same_job q (f q)" "r \<in> set tab"
  shows "\<exists>q \<in> set (update_held ident tok f tab). same_job r q"
proof -
  have "same_job r (if held ident tok r then f r else r)" using assms(1) held_live by auto
  moreover have "(if held ident tok r then f r else r) \<in> set (update_held ident tok f tab)"
    unfolding update_held_def set_map by (rule imageI) (rule assms(2))
  ultimately show ?thesis by blast
qed

lemma step_keeps_jobs:
  assumes "queue_step s s'" "queue_inv s" "r \<in> set (queue_tab s)"
  shows "\<exists>q \<in> set (queue_tab s'). same_job r q"
  using assms(1)
proof cases
  case (insert inp now v ident clock made tab')
  then show ?thesis using assms(3) by (force simp: insertJob_def Let_def split: if_splits)
next
  case (claim token limit now leaseMs locked rows tab')
  let ?e = "eligible now \<lfloor>limit\<rfloor> locked (queue_tab s)"
  from claim(3) have "tab' = map (claim_row now token \<lfloor>leaseMs\<rfloor> (job_id ` set ?e)) (queue_tab s)"
    by (auto simp: claimDueJobs_def claim_rows_map split: sum.splits prod.splits)
  moreover have "same_job r (claim_row now token \<lfloor>leaseMs\<rfloor> (job_id ` set ?e) r)"
  proof (cases "job_id r \<in> job_id ` set ?e")
    case True
    have "distinct (map job_id (queue_tab s))" using assms(2) by (simp add: queue_inv_def)
    with True assms(3) have "r \<in> set ?e" using filter_ids_eq [of "queue_tab s" ?e r] eligible_set by blast
    then have "due now r" using eligible_set by blast
    then show ?thesis using due_live by (simp add: claim_row_def same_job_trans(1,3))
  qed (simp add: claim_row_def)
  ultimately show ?thesis using assms(3) claim(1) by auto
next
  case (renew ident token leaseMs now res tab')
  then have "tab' = queue_tab s \<or> (\<exists>ms. tab' = update_held ident (Some token) (renewed now ms) (queue_tab s))"
    by (auto simp: renew_def split: sum.splits)
  moreover have "\<exists>q \<in> set (update_held ident (Some token) (renewed now ms) (queue_tab s)). same_job r q" for ms
    by (rule update_held_keeps [OF same_job_trans(5) assms(3)])
  moreover have "\<exists>q \<in> set (queue_tab s). same_job r q" using assms(3) same_job_refl by blast
  ultimately show ?thesis using renew(1) by auto
next
  case (complete ident token now res tab')
  then have "tab' = update_held ident (Some token) (completed now) (queue_tab s)" by (simp add: complete_job_def)
  with update_held_keeps [OF same_job_trans(4) assms(3)] show ?thesis by (simp add: complete(1))
next
  case (fail ident tok e category terminal now left tab')
  then obtain c where "tab' = update_held ident tok (failed now c terminal) (queue_tab s)" by (auto simp: fail_job_def Let_def)
  with update_held_keeps [OF same_job_trans(2) assms(3)] show ?thesis by (simp add: fail(1))
qed

lemma same_job_comp: "same_job a b \<Longrightarrow> same_job b c \<Longrightarrow> same_job a c"
  by (simp add: same_job_def)

lemma steps_keep_jobs:
  assumes "queue_step\<^sup>*\<^sup>* s s'" "queue_reach s" "r \<in> set (queue_tab s)"
  shows "queue_reach s' \<and> (\<exists>q \<in> set (queue_tab s'). same_job r q)"
  using assms
proof (induction rule: rtranclp_induct)
  case base
  then show ?case using same_job_refl by blast
next
  case (step s1 s2)
  then obtain q where q: "queue_reach s1" "q \<in> set (queue_tab s1)" "same_job r q" by auto
  then obtain q' where "q' \<in> set (queue_tab s2)" "same_job q q'"
    using step_keeps_jobs [OF step(2) queue_reach_inv] by blast
  with q step(2) show ?case using same_job_comp queue_reach.step by metis
qed

lemma find_live_key:
  assumes "queue_inv s" "q \<in> set (queue_tab s)" "holds_key k key q"
  shows "find (holds_key k key) (queue_tab s) = Some q"
proof -
  obtain p where p: "find (holds_key k key) (queue_tab s) = Some p"
    using assms(2,3) by (metis find_None_iff option.exhaust)
  then have "p \<in> set (queue_tab s)" "holds_key k key p" by (auto dest: find_Some_iff')
  moreover have "inj_on (\<lambda>r. (job_kind r, idempotency_key r)) (set (filter live (queue_tab s)))"
    using assms(1) by (simp add: queue_inv_def distinct_map)
  ultimately have "p = q" using assms(2,3) by (auto simp: inj_on_def holds_key_def)
  with p show ?thesis by simp
qed

lemma validateEnqueue_fields:
  assumes "validateEnqueue inp now = Inr v"
  shows "v_kind v = in_kind inp" "v_payload v = in_payload inp" "v_key v = in_key inp" "v_version v = \<lfloor>in_version inp\<rfloor>"
    "v_namespace v = in_namespace inp" "v_provenance v = in_provenance inp"
    "\<exists>m b t. validateRetryPolicy inp = Inr (m, b, t) \<and> v_max_attempts v = \<lfloor>m\<rfloor> \<and> v_backoff_base v = \<lfloor>b\<rfloor> \<and> v_backoff_max v = \<lfloor>t\<rfloor>"
    "case in_provenance inp of Some p \<Rightarrow> is_object p | None \<Rightarrow> True"
  using assms
  by (auto simp: validateEnqueue_def res_bind_Inr validateScope_def assertObject_def is_object_def
      split: option.splits if_splits json.splits)

text \<open>Of the jobs the validation accepts, the table refuses exactly those whose version or backoff
  maximum does not fit its INTEGER column: the validation has no upper bound for them.\<close>

theorem validated_job_fits_iff:
  assumes "validateEnqueue inp now = Inr v"
  shows "row_checks (new_row v ident clock) \<longleftrightarrow> v_version v \<le> 2147483647 \<and> v_backoff_max v \<le> 2147483647"
  using validateEnqueue_ok [OF assms] validateEnqueue_fields(6,8) [OF assms]
  by (auto simp: row_checks_def new_row_def int4_def lease_shape_def terminal_shape_def dead_letter_shape_def live_def)

lemma created_row:
  assumes "enqueue inp now ident clock (\<lambda>t. t) (\<lambda>t. t) tab = (tab', Inr (r, Created))" "validateEnqueue inp now = Inr v"
  shows "tab' = tab @ [new_row v ident clock] \<and> r = new_row v ident clock \<and> row_checks (new_row v ident clock) \<and>
    insertJob v ident clock tab = Inr (Some r, tab')"
  using assms by (auto simp: enqueue_def insertJob_def Let_def split: if_splits option.splits)

text \<open>C14: a job is scheduled once while it lives. Enqueue a job and let the workers do anything: as long
  as the job is neither finished nor dead-lettered, enqueueing it again, with the members of its payload
  in any order and any start time, adds nothing and answers with that job, marked as deduplicated.\<close>

theorem live_job_is_not_duplicated:
  assumes reach: "queue_reach s" and fresh: "ident \<notin> job_id ` set (queue_tab s)"
    and first: "enqueue inp now ident clock (\<lambda>t. t) (\<lambda>t. t) (queue_tab s) = (tab, Inr (r, Created))"
    and steps: "queue_step\<^sup>*\<^sup>* (s\<lparr>queue_tab := tab\<rparr>) s'"
    and q: "q \<in> set (queue_tab s')" "job_id q = ident" "live q"
    and again: "validateEnqueue (inp\<lparr>in_payload := p, in_run_after := t\<rparr>) now' = Inr v'" "json_same (in_payload inp) p"
  shows "enqueue (inp\<lparr>in_payload := p, in_run_after := t\<rparr>) now' ident' clock' (\<lambda>t. t) (\<lambda>t. t) (queue_tab s') =
    (queue_tab s', Inr (q, Deduped))"
proof -
  from first obtain v where v: "validateEnqueue inp now = Inr v" by (auto simp: enqueue_def split: sum.splits)
  note made = created_row [OF first v]
  have r1: "queue_reach (s\<lparr>queue_tab := tab\<rparr>)"
    using reach queue_step.insert [OF v fresh] made by (metis queue_reach.step)
  have "r \<in> set (queue_tab (s\<lparr>queue_tab := tab\<rparr>))" using made by simp
  from steps_keep_jobs [OF steps r1 this] obtain q' where
    q': "queue_reach s'" "q' \<in> set (queue_tab s')" "same_job r q'" by blast
  have "job_id q' = ident" using q'(3) made by (simp add: same_job_def new_row_def)
  then have "q' = q" using queue_reach_inv [OF q'(1)] q' q
    by (metis (no_types, lifting) distinct_map inj_on_eq_iff queue_inv_def)
  with q'(3) have same: "same_job r q" by simp
  let ?inp = "inp\<lparr>in_payload := p, in_run_after := t\<rparr>"
  have pol: "validateRetryPolicy ?inp = validateRetryPolicy inp" by (simp add: validateRetryPolicy_def)
  have eq: "v_kind v' = v_kind v" "v_key v' = v_key v" "v_version v' = v_version v" "v_namespace v' = v_namespace v"
      "v_provenance v' = v_provenance v" "v_payload v' = p" "v_max_attempts v' = v_max_attempts v"
      "v_backoff_base v' = v_backoff_base v" "v_backoff_max v' = v_backoff_max v"
    using validateEnqueue_fields [OF v] validateEnqueue_fields [OF again(1)] by (auto simp: pol)
  have checks: "row_checks (new_row v' ident' clock')"
    using made validateEnqueue_ok [OF again(1)] validateEnqueue_fields(6,8) [OF v]
    by (auto simp: row_checks_def new_row_def eq int4_def lease_shape_def terminal_shape_def dead_letter_shape_def live_def)
  have "holds_key (v_kind v') (v_key v') q"
    using same q(3) made by (simp add: holds_key_def eq same_job_def new_row_def)
  note found = find_live_key [OF queue_reach_inv [OF q'(1)] q(1) this]
  have "list_ex (holds_key (v_kind v') (v_key v')) (queue_tab s')"
    using found by (auto simp: list_ex_iff dest: find_Some_iff')
  then have ins: "insertJob v' ident' clock' (queue_tab s') = Inr (None, queue_tab s')"
    using checks by (simp add: insertJob_def Let_def)
  have "\<not> enqueueSemanticsDiverge v' q"
    using same made canonicalJson_same [OF again(2)] validateEnqueue_fields(2) [OF v]
    by (simp add: enqueueSemanticsDiverge_def eq same_job_def new_row_def)
  with ins found show ?thesis
    by (simp add: enqueue_def again(1) selectLiveJobByIdempotencyKey_def Let_def)
qed

subsection \<open>Witnesses\<close>

definition demo_input :: enqueue_input where
  "demo_input = \<lparr>in_kind = ''k'', in_version = 1, in_payload = JObj [(''a'', JNull), (''b'', JNull)], in_key = ''x'',
     in_run_after = Some 0, in_max_attempts = None, in_backoff_base = None, in_backoff_max = None, in_namespace = None,
     in_provenance = None\<rparr>"

definition demo_values :: job_values where
  "demo_values = \<lparr>v_kind = ''k'', v_version = 1, v_payload = JObj [(''a'', JNull), (''b'', JNull)], v_key = ''x'',
     v_run_after = 0, v_max_attempts = 3, v_backoff_base = 1000, v_backoff_max = 300000, v_namespace = None,
     v_provenance = None\<rparr>"

definition demo_row :: job_row where "demo_row = new_row demo_values ''1'' 0"

lemma demo_valid: "validateEnqueue demo_input 0 = Inr demo_values"
  by code_simp

lemma demo_insert: "insertJob demo_values ''1'' 0 [] = Inr (Some demo_row, [demo_row])"
  by code_simp

lemma demo_claim: "claimDueJobs 5 0 1000 ''t'' {} [demo_row] = (Inr [leased 0 ''t'' 1000 demo_row], [leased 0 ''t'' 1000 demo_row])"
  by code_simp

lemma demo_queued: "queue_reach \<lparr>queue_tab = [demo_row], claims = []\<rparr>"
  using queue_reach.step [OF queue_reach.empty queue_step.insert [OF demo_valid]] demo_insert by fastforce

definition demo_running :: queue_sys where
  "demo_running = \<lparr>queue_tab = [leased 0 ''t'' 1000 demo_row], claims = [(''1'', ''t'')]\<rparr>"

lemma demo_reach: "queue_reach demo_running"
proof -
  have "queue_step \<lparr>queue_tab = [demo_row], claims = []\<rparr> (\<lparr>queue_tab = [demo_row], claims = []\<rparr>\<lparr>
      queue_tab := [leased 0 ''t'' 1000 demo_row], claims := [] @ map (\<lambda>r. (job_id r, ''t'')) [leased 0 ''t'' 1000 demo_row]\<rparr>)"
    using queue_step.claim [of "''t''" "\<lparr>queue_tab = [demo_row], claims = []\<rparr>"] demo_claim by fastforce
  then show ?thesis using queue_reach.step [OF demo_queued]
    by (simp add: demo_running_def leased_def demo_row_def new_row_def)
qed

lemma demo_held: "held ''1'' (Some ''t'') (leased 0 ''t'' 1000 demo_row)"
  by (simp add: held_def leased_def demo_row_def new_row_def)

theorem queue_rows_well_formed_witness:
  "queue_tab demo_running = [leased 0 ''t'' 1000 demo_row] \<and> row_checks (leased 0 ''t'' 1000 demo_row)"
  using queue_rows_well_formed [OF demo_reach] by (simp add: demo_running_def)

theorem claims_within_budget_witness:
  "claims_of ''1'' (claims demo_running) = [''t''] \<and> length (claims_of ''1'' (claims demo_running)) \<le> 25"
  using claims_within_budget [OF demo_reach, of "''1''"] by (simp add: demo_running_def claims_of_def)

theorem stale_lease_refused_witness:
  "complete_job ''1'' ''u'' 7 (queue_tab demo_running) = (False, queue_tab demo_running)"
  using stale_lease_refused [OF demo_reach, where ident = "''1''" and token = "''u''" and leaseMs = 1 and now = 7]
  by (simp add: demo_running_def claims_of_def)

theorem completed_once_witness:
  "complete_job ''1'' ''t'' 9 [completed 7 (leased 0 ''t'' 1000 demo_row)] = (False, [completed 7 (leased 0 ''t'' 1000 demo_row)])"
proof -
  have "complete_job ''1'' ''t'' 7 (queue_tab demo_running) = (True, [completed 7 (leased 0 ''t'' 1000 demo_row)])"
    using demo_held by (simp add: complete_job_def update_held_def demo_running_def)
  from completed_once [OF demo_reach this rtranclp.rtrancl_refl, of "''t''" 9] show ?thesis by simp
qed

theorem claim_takes_oldest_due_witness:
  "\<exists>rows tab'. claimDueJobs 1 5000 1000 ''u'' {} (queue_tab demo_running) = (Inr rows, tab') \<and>
     set rows = {leased 5000 ''u'' 1000 (leased 0 ''t'' 1000 demo_row)}"
proof -
  let ?r = "leased 0 ''t'' 1000 demo_row"
  have w: "{r \<in> set (queue_tab demo_running). due 5000 r \<and> job_id r \<notin> {}} = {?r}" "reclaimable ?r"
    by (auto simp: demo_running_def due_def leased_def demo_row_def new_row_def demo_values_def reclaimable_def)
  from claim_takes_oldest_due [OF demo_reach, of 1 1000 5000 "''u''" "{}"] obtain chosen rows tab'
    where c: "claimDueJobs 1 5000 1000 ''u'' {} (queue_tab demo_running) = (Inr rows, tab')" "set chosen \<subseteq> {?r}"
      "length chosen = 1" "set rows = leased 5000 ''u'' 1000 ` {r \<in> set chosen. reclaimable r}"
    unfolding w(1) by auto
  from c(2,3) have "set chosen = {?r}" by (cases chosen) auto
  with c w(2) show ?thesis by auto
qed

theorem failure_retries_witness:
  "\<exists>tab. fail_job ''1'' (Some ''t'') (Error_thrown Type_class ''TypeError'' None) None False 50 (queue_tab demo_running) =
     (Some ((leased 0 ''t'' 1000 demo_row)\<lparr>job_state := Queued, run_after := 50 + maintenanceBackoffMs (leased 0 ''t'' 1000 demo_row),
       lease_token := None, lease_until := None, last_error := Some Type_error, terminal_at := None, dead_lettered_at := None\<rparr>), tab)"
proof -
  have "leased 0 ''t'' 1000 demo_row \<in> set (queue_tab demo_running)" by (simp add: demo_running_def)
  from failure_retries_or_dead_letters [OF demo_reach this demo_held, of "Error_thrown Type_class ''TypeError'' None" None False 50]
  show ?thesis by (auto simp: leased_def demo_row_def new_row_def demo_values_def)
qed

theorem validated_job_fits_witness:
  "\<exists>v. validateEnqueue (demo_input\<lparr>in_version := 2147483648\<rparr>) 0 = Inr v \<and> \<not> row_checks (new_row v ''1'' 0)"
proof -
  have "validateEnqueue (demo_input\<lparr>in_version := 2147483648\<rparr>) 0 = Inr (demo_values\<lparr>v_version := 2147483648\<rparr>)" by code_simp
  from validated_job_fits_iff [OF this, of "''1''" 0] this show ?thesis by simp
qed

theorem live_job_is_not_duplicated_witness:
  "enqueue (demo_input\<lparr>in_payload := JObj [(''b'', JNull), (''a'', JNull)], in_run_after := Some 40\<rparr>) 9 ''2'' 9 (\<lambda>t. t) (\<lambda>t. t)
     (queue_tab demo_running) = (queue_tab demo_running, Inr (leased 0 ''t'' 1000 demo_row, Deduped))"
proof (rule live_job_is_not_duplicated [OF queue_reach.empty])
  show "''1'' \<notin> job_id ` set (queue_tab \<lparr>queue_tab = [], claims = []\<rparr>)" by simp
  show "enqueue demo_input 0 ''1'' 0 (\<lambda>t. t) (\<lambda>t. t) (queue_tab \<lparr>queue_tab = [], claims = []\<rparr>) =
      ([demo_row], Inr (demo_row, Created))"
    by (simp add: enqueue_def demo_valid demo_insert)
  have "queue_step \<lparr>queue_tab = [demo_row], claims = []\<rparr> (\<lparr>queue_tab = [demo_row], claims = []\<rparr>\<lparr>
      queue_tab := [leased 0 ''t'' 1000 demo_row], claims := [] @ map (\<lambda>r. (job_id r, ''t'')) [leased 0 ''t'' 1000 demo_row]\<rparr>)"
    using queue_step.claim [of "''t''" "\<lparr>queue_tab = [demo_row], claims = []\<rparr>"] demo_claim by fastforce
  then have "queue_step \<lparr>queue_tab = [demo_row], claims = []\<rparr> demo_running"
    by (simp add: demo_running_def leased_def demo_row_def new_row_def)
  then show "queue_step\<^sup>*\<^sup>* (\<lparr>queue_tab = [], claims = []\<rparr>\<lparr>queue_tab := [demo_row]\<rparr>) demo_running" by simp
  show "leased 0 ''t'' 1000 demo_row \<in> set (queue_tab demo_running)" by (simp add: demo_running_def)
  show "job_id (leased 0 ''t'' 1000 demo_row) = ''1''" "live (leased 0 ''t'' 1000 demo_row)"
    by (simp_all add: leased_def demo_row_def new_row_def live_def)
  show "validateEnqueue (demo_input\<lparr>in_payload := JObj [(''b'', JNull), (''a'', JNull)], in_run_after := Some 40\<rparr>) 9 =
      Inr (demo_values\<lparr>v_payload := JObj [(''b'', JNull), (''a'', JNull)], v_run_after := 40\<rparr>)"
    by code_simp
  show "json_same (in_payload demo_input) (JObj [(''b'', JNull), (''a'', JNull)])"
    unfolding demo_input_def enqueue_input.simps by (rule same_order) simp_all
qed

end
