(* ===== verification/MaintenanceRunner.thy ===== *)
theory MaintenanceRunner
  imports MaintenanceQueue
begin

text \<open>
  The queue runner (\<open>server/maintenance/maintenance-queue-runner.ts\<close>) over any \<open>MaintenanceQueuePort\<close>:
  its settings, one run of a claimed job with its heartbeat, and the poll loop with its shutdown.
  The locale \<open>lease_port\<close> states what a run relies on; the table of \<open>MaintenanceQueue\<close> provides it,
  also while its database refuses single statements.

  What a handler and the rest of the server do to the shared state while a run awaits is a list of
  happenings. The reads of the clock are arguments. A timer tick while a renewal is in flight is
  skipped by the code, so the beats of a run are the renewals that happen.
\<close>

subsection \<open>Settings\<close>

definition MAX_CONCURRENCY :: rat where "MAX_CONCURRENCY = 16"
definition LEASE_RENEW_DIVISOR :: rat where "LEASE_RENEW_DIVISOR = 3"
definition IDLE_LOG_INTERVAL_MS :: int where "IDLE_LOG_INTERVAL_MS = 1800000"

record runner_options =
  o_concurrency :: "rat option"
  o_pollIntervalMs :: "rat option"
  o_leaseMs :: "rat option"
  o_leaseRenewMs :: "rat option"

record runner_config =
  concurrency :: rat
  pollIntervalMs :: rat
  leaseMs :: rat
  leaseRenewMs :: rat

definition or_else :: "'a option \<Rightarrow> 'a \<Rightarrow> 'a" where
  "or_else v d = (case v of Some x \<Rightarrow> x | None \<Rightarrow> d)"

definition runner_config_of :: "runner_options \<Rightarrow> runner_config" where
  "runner_config_of opts =
     (let lease = max (or_else (o_leaseMs opts) 30000) 1;
          renewDefault = max (of_int \<lfloor>lease / LEASE_RENEW_DIVISOR\<rfloor>) 1
      in \<lparr>concurrency = min (max (or_else (o_concurrency opts) 2) 1) MAX_CONCURRENCY,
          pollIntervalMs = max (or_else (o_pollIntervalMs opts) 5000) 1,
          leaseMs = lease,
          leaseRenewMs = min (max (or_else (o_leaseRenewMs opts) renewDefault) 1) (max (lease - 1) 1)\<rparr>)"

subsection \<open>The port and the log\<close>

text \<open>Each operation may throw; the state is whatever the port keeps.\<close>

record 's queue_port =
  port_renew :: "(string \<Rightarrow> string \<Rightarrow> rat \<Rightarrow> int \<Rightarrow> 's \<Rightarrow> (thrown + bool) \<times> 's) option"
  port_complete :: "string \<Rightarrow> string \<Rightarrow> int \<Rightarrow> 's \<Rightarrow> (thrown + bool) \<times> 's"
  port_fail :: "job_row \<Rightarrow> thrown \<Rightarrow> error_category \<Rightarrow> bool \<Rightarrow> int \<Rightarrow> 's \<Rightarrow> (thrown + job_state option) \<times> 's"

datatype run_log =
  Renewal_lost string string
| Renewal_failed string string error_category
| Run_completed string string bool int
| Run_failed string string "job_state option" error_category "string option \<times> string option" int
| Recording_failed string string error_category int

subsection \<open>The heartbeat\<close>

datatype 's happening = Work "'s \<Rightarrow> 's" | Beat int

text \<open>The claim is captured before the handler runs: id, kind, lease token.\<close>

type_synonym claim = "string \<times> string \<times> string option"

text \<open>\<open>renewOnce\<close>, as the interval fires it; \<open>stopped\<close> is the heartbeat's own flag.\<close>

definition renewOnce ::
  "(string \<Rightarrow> string \<Rightarrow> rat \<Rightarrow> int \<Rightarrow> 's \<Rightarrow> (thrown + bool) \<times> 's) \<Rightarrow> string \<Rightarrow> string \<Rightarrow> string \<Rightarrow> rat \<Rightarrow> int \<Rightarrow>
     bool \<Rightarrow> 's \<Rightarrow> bool \<times> run_log list \<times> 's" where
  "renewOnce rn ident kind token ms now stopped s =
     (if stopped then (stopped, [], s)
      else case rn ident token ms now s of
          (Inr True, s') \<Rightarrow> (False, [], s')
        | (Inr False, s') \<Rightarrow> (True, [Renewal_lost ident kind], s')
        | (Inl e, s') \<Rightarrow> (False, [Renewal_failed ident kind (safeMaintenanceErrorCategory e)], s'))"

fun startHeartbeat :: "'s queue_port \<Rightarrow> claim \<Rightarrow> rat \<Rightarrow> bool \<Rightarrow> 's happening list \<Rightarrow> 's \<Rightarrow> run_log list \<times> 's" where
  "startHeartbeat port (ident, kind, token) ms stopped [] s = ([], s)"
| "startHeartbeat port (ident, kind, token) ms stopped (Work f # hs) s =
     startHeartbeat port (ident, kind, token) ms stopped hs (f s)"
| "startHeartbeat port (ident, kind, token) ms stopped (Beat now # hs) s =
     (case (port_renew port, token) of
        (Some rn, Some t) \<Rightarrow>
          (case renewOnce rn ident kind t ms now stopped s of
             (stopped', lg, s') \<Rightarrow>
               (case startHeartbeat port (ident, kind, token) ms stopped' hs s' of (lg', s'') \<Rightarrow> (lg @ lg', s'')))
      | _ \<Rightarrow> startHeartbeat port (ident, kind, token) ms stopped hs s)"

subsection \<open>One run\<close>

text \<open>\<open>clk k\<close> is the \<open>k\<close>-th read of the clock of a run: 0 at its start, 1 and 2 around the completion, 3 and
  4 around the failure.\<close>

definition fail_run ::
  "'s queue_port \<Rightarrow> job_row \<Rightarrow> claim \<Rightarrow> thrown \<Rightarrow> (nat \<Rightarrow> int) \<Rightarrow> 's \<Rightarrow> run_log list \<times> 's" where
  "fail_run port job c e clk s =
     (case c of (ident, kind, token) \<Rightarrow>
        let terminal = isMaintenanceTerminalError e;
            category = (if e = String_thrown ''unsupported_job_kind'' then Unsupported_job_kind
              else if terminal then Terminal else safeMaintenanceErrorCategory e)
        in case port_fail port (job\<lparr>job_id := ident, lease_token := token\<rparr>) e category terminal (clk 3) s of
             (Inr left, s') \<Rightarrow>
               ([Run_failed ident kind left category (safeMaintenanceErrorIdentity e) (clk 4 - clk 0)], s')
           | (Inl e', s') \<Rightarrow> ([Recording_failed ident kind (safeMaintenanceErrorCategory e') (clk 4 - clk 0)], s'))"

definition missing_token :: thrown where
  "missing_token = Error_thrown Plain_class ''Error'' None"

text \<open>What \<open>execute\<close> does after the handler: \<open>job'\<close> is the job object as the handler left it.\<close>

definition settle_run ::
  "'s queue_port \<Rightarrow> job_row \<Rightarrow> claim \<Rightarrow> thrown option \<Rightarrow> (nat \<Rightarrow> int) \<Rightarrow> 's \<Rightarrow> run_log list \<times> 's" where
  "settle_run port job' c outcome clk s =
     (case outcome of
        Some e \<Rightarrow> fail_run port job' c e clk s
      | None \<Rightarrow> (case c of
            (ident, kind, None) \<Rightarrow> fail_run port job' c missing_token clk s
          | (ident, kind, Some token) \<Rightarrow>
              (case port_complete port ident token (clk 1) s of
                 (Inr ok, s') \<Rightarrow> ([Run_completed ident kind ok (clk 2 - clk 0)], s')
               | (Inl e, s') \<Rightarrow> fail_run port job' c e clk s')))"

text \<open>A handler: what happens while it runs, the job object it leaves and what it throws.\<close>

type_synonym 's handler = "job_row \<Rightarrow> 's happening list \<times> job_row \<times> thrown option"

definition execute_job ::
  "'s queue_port \<Rightarrow> (string \<rightharpoonup> 's handler) \<Rightarrow> rat \<Rightarrow> (nat \<Rightarrow> int) \<Rightarrow> job_row \<Rightarrow> 's \<Rightarrow> run_log list \<times> 's" where
  "execute_job port handlers ms clk job s =
     (let c = (job_id job, job_kind job, lease_token job)
      in case handlers (job_kind job) of
           None \<Rightarrow> fail_run port job c (String_thrown ''unsupported_job_kind'') clk s
         | Some handler \<Rightarrow>
             (case handler job of (happenings, job', outcome) \<Rightarrow>
                (case startHeartbeat port c ms False happenings s of (lg, s') \<Rightarrow>
                   (case settle_run port job' c outcome clk s' of (lg', s'') \<Rightarrow> (lg @ lg', s'')))))"

subsection \<open>What a run relies on\<close>

text \<open>\<open>owns s i t\<close>: job \<open>i\<close> is leased under the token \<open>t\<close>. An operation that throws may have taken effect.\<close>

locale lease_port =
  fixes port :: "'s queue_port"
    and inv :: "'s \<Rightarrow> bool"
    and owns :: "'s \<Rightarrow> string \<Rightarrow> string \<Rightarrow> bool"
  assumes renew_law: "port_renew port = Some rn \<Longrightarrow> inv s \<Longrightarrow> rn i t ms now s = (res, s') \<Longrightarrow>
      inv s' \<and> (\<forall>j u. owns s' j u = owns s j u) \<and> (case res of Inr b \<Rightarrow> b = owns s i t | Inl e \<Rightarrow> True)"
    and complete_law: "inv s \<Longrightarrow> port_complete port i t now s = (res, s') \<Longrightarrow>
      inv s' \<and> (\<forall>j u. (j, u) \<noteq> (i, t) \<longrightarrow> owns s' j u = owns s j u) \<and>
      (case res of Inr b \<Rightarrow> b = owns s i t \<and> \<not> owns s' i t | Inl e \<Rightarrow> True)"
    and fail_law: "inv s \<Longrightarrow> port_fail port job e category terminal now s = (ans, s') \<Longrightarrow>
      inv s' \<and> (\<forall>j u. (j, Some u) \<noteq> (job_id job, lease_token job) \<longrightarrow> owns s' j u = owns s j u) \<and>
      (case ans of Inr left \<Rightarrow> (\<forall>u. lease_token job = Some u \<longrightarrow> \<not> owns s' (job_id job) u) | Inl e \<Rightarrow> True)"
begin

lemma renewOnce_owns:
  assumes "port_renew port = Some rn" "inv s" "renewOnce rn i kind t ms now stopped s = (stopped', lg, s')"
  shows "inv s' \<and> (\<forall>j u. owns s' j u = owns s j u)"
proof (cases stopped)
  case True
  with assms(2,3) show ?thesis by (simp add: renewOnce_def)
next
  case False
  obtain res s1 where r: "rn i t ms now s = (res, s1)" by (cases "rn i t ms now s")
  with assms(3) False have "s' = s1" by (auto simp: renewOnce_def split: sum.splits bool.splits)
  with renew_law [OF assms(1,2) r] show ?thesis by simp
qed

lemma heartbeat_inv:
  "inv s \<Longrightarrow> \<forall>f. Work f \<in> set hs \<longrightarrow> (\<forall>s. inv s \<longrightarrow> inv (f s)) \<Longrightarrow> startHeartbeat port (i, kind, tok) ms stopped hs s = (lg, s') \<Longrightarrow>
     inv s'"
proof (induction hs arbitrary: s stopped lg)
  case (Cons h hs)
  show ?case
  proof (cases h)
    case (Work f)
    with Cons.prems(1,2) have "inv (f s)" by (metis list.set_intros(1))
    moreover have "\<forall>f. Work f \<in> set hs \<longrightarrow> (\<forall>s. inv s \<longrightarrow> inv (f s))" using Cons.prems(2) by simp
    moreover have "startHeartbeat port (i, kind, tok) ms stopped hs (f s) = (lg, s')" using Cons.prems(3) Work by simp
    ultimately show ?thesis by (rule Cons.IH)
  next
    case (Beat now)
    show ?thesis
    proof (cases "port_renew port = None \<or> tok = None")
      case True
      with Cons Beat show ?thesis by (auto split: option.splits)
    next
      case False
      then obtain rn t where rt: "port_renew port = Some rn" "tok = Some t" by auto
      obtain st1 log1 s1 where r: "renewOnce rn i kind t ms now stopped s = (st1, log1, s1)" by (metis prod_cases3)
      from renewOnce_owns [OF rt(1) Cons.prems(1) r] have "inv s1" by simp
      with Cons Beat rt r show ?thesis by (auto split: prod.splits)
    qed
  qed
qed simp

lemma fail_run_owns:
  assumes "inv s" "fail_run port job' (i, kind, tok) e clk s = (lg, s')"
  shows "inv s' \<and> (\<forall>j u. (j, Some u) \<noteq> (i, tok) \<longrightarrow> owns s' j u = owns s j u) \<and>
    ((\<exists>cat d. lg = [Recording_failed i kind cat d]) \<or> (\<forall>u. tok = Some u \<longrightarrow> \<not> owns s' i u))"
proof -
  let ?job = "job'\<lparr>job_id := i, lease_token := tok\<rparr>"
  from assms(2) obtain cat res where f: "port_fail port ?job e cat (isMaintenanceTerminalError e) (clk 3) s = (res, s')"
    and l: "(case res of Inr left \<Rightarrow> True | Inl x \<Rightarrow> (\<exists>cat d. lg = [Recording_failed i kind cat d]))"
    unfolding fail_run_def Let_def by (fastforce split: prod.splits sum.splits)
  from fail_law [OF assms(1) f] l show ?thesis by (cases res) simp_all
qed

text \<open>Whatever the handler did and whatever the port refused: after the run the job is not leased under the
  run's token any more, unless recording the failure failed, and every other lease is as it was.\<close>

lemma settle_run_owns:
  assumes "inv s" "settle_run port job' (i, kind, tok) outcome clk s = (lg, s')"
  shows "inv s' \<and> (\<forall>j u. (j, Some u) \<noteq> (i, tok) \<longrightarrow> owns s' j u = owns s j u) \<and>
    ((\<exists>cat d. lg = [Recording_failed i kind cat d]) \<or> (\<forall>u. tok = Some u \<longrightarrow> \<not> owns s' i u))"
proof (cases "outcome = None \<and> tok \<noteq> None")
  case False
  then show ?thesis using assms fail_run_owns by (auto simp: settle_run_def split: option.splits)
next
  case True
  then obtain t where t: "tok = Some t" by auto
  obtain res s1 where c: "port_complete port i t (clk 1) s = (res, s1)" by (cases "port_complete port i t (clk 1) s")
  note law = complete_law [OF assms(1) c]
  show ?thesis
  proof (cases res)
    case (Inr ok)
    with True t c assms(2) law show ?thesis by (auto simp: settle_run_def)
  next
    case (Inl e)
    with True t c assms(2) have "fail_run port job' (i, kind, tok) e clk s1 = (lg, s')" by (simp add: settle_run_def)
    from fail_run_owns [OF conjunct1 [OF law] this] law t show ?thesis by auto
  qed
qed

lemma execute_owns:
  assumes "inv s" and "execute_job port handlers ms clk job s = (lg, s')"
    and "\<forall>h f s. handlers (job_kind job) = Some h \<and> Work f \<in> set (fst (h job)) \<and> inv s \<longrightarrow> inv (f s)"
  shows "inv s' \<and> ((\<exists>cat d. Recording_failed (job_id job) (job_kind job) cat d \<in> set lg) \<or>
    (\<forall>u. lease_token job = Some u \<longrightarrow> \<not> owns s' (job_id job) u))"
proof (cases "handlers (job_kind job)")
  case None
  with assms(2) have "fail_run port job (job_id job, job_kind job, lease_token job) (String_thrown ''unsupported_job_kind'') clk s
      = (lg, s')"
    by (simp add: execute_job_def Let_def)
  from fail_run_owns [OF assms(1) this] show ?thesis by auto
next
  case (Some h)
  obtain hs job' out where h: "h job = (hs, job', out)" by (metis prod_cases3)
  let ?c = "(job_id job, job_kind job, lease_token job)"
  obtain log1 s1 where b: "startHeartbeat port ?c ms False hs s = (log1, s1)" by (metis surj_pair)
  obtain log2 s2 where st: "settle_run port job' ?c out clk s1 = (log2, s2)" by (metis surj_pair)
  from assms(2) Some h b st have e: "lg = log1 @ log2" "s' = s2" by (simp_all add: execute_job_def Let_def)
  have "inv s1" by (rule heartbeat_inv [OF assms(1) _ b]) (use assms(3) Some h in simp)
  from settle_run_owns [OF this st] have "inv s2"
    "(\<exists>cat d. log2 = [Recording_failed (job_id job) (job_kind job) cat d]) \<or>
     (\<forall>u. lease_token job = Some u \<longrightarrow> \<not> owns s2 (job_id job) u)" by simp_all
  then show ?thesis unfolding e by fastforce
qed

end

subsection \<open>The table as a port\<close>

text \<open>A statement may be refused, or take effect while its answer is lost. \<open>typed\<close> turns the validation
  errors of \<open>MaintenanceQueue\<close> into the plain errors they are.\<close>

datatype fault = No_fault | Refused thrown | Answer_lost thrown

fun with_fault :: "fault \<Rightarrow> (thrown + 'a) \<times> 's \<Rightarrow> 's \<Rightarrow> (thrown + 'a) \<times> 's" where
  "with_fault No_fault r s = r"
| "with_fault (Refused e) r s = (Inl e, s)"
| "with_fault (Answer_lost e) r s = (Inl e, snd r)"

definition typed :: "'a result \<Rightarrow> thrown + 'a" where
  "typed r = (case r of Inl m \<Rightarrow> Inl (Error_thrown Plain_class ''Error'' None) | Inr x \<Rightarrow> Inr x)"

definition table_port :: "fault \<Rightarrow> fault \<Rightarrow> fault \<Rightarrow> job_table queue_port" where
  "table_port fr fc ff = \<lparr>
     port_renew = Some (\<lambda>i t ms now s. with_fault fr (map_prod typed (\<lambda>x. x) (renew i t ms now s)) s),
     port_complete = (\<lambda>i t now s. with_fault fc (map_prod Inr (\<lambda>x. x) (complete_job i t now s)) s),
     port_fail = (\<lambda>job e category terminal now s.
       with_fault ff (map_prod (\<lambda>q. Inr (map_option job_state q)) (\<lambda>x. x)
         (fail_job (job_id job) (lease_token job) e (Some category) terminal now s)) s)\<rparr>"

definition unique_ids :: "job_table \<Rightarrow> bool" where
  "unique_ids tab = distinct (map job_id tab)"

definition owns_lease :: "job_table \<Rightarrow> string \<Rightarrow> string \<Rightarrow> bool" where
  "owns_lease tab i t = list_ex (held i (Some t)) tab"

lemma held_other: "held i tok r \<Longrightarrow> held j tok' r \<longleftrightarrow> j = i \<and> tok' = tok"
  by (auto simp: held_def)

lemma update_held_ids:
  assumes "\<And>r. live r \<Longrightarrow> same_job r (f r)"
  shows "map job_id (update_held i tok f tab) = map job_id tab"
  unfolding update_held_def by (rule map_same_job(1)) (rule update_held_same, rule assms)

lemma list_ex_map: "list_ex P (map f xs) = list_ex (\<lambda>x. P (f x)) xs"
  by (induction xs) simp_all

lemma owns_update_other:
  assumes "\<And>r. live r \<Longrightarrow> same_job r (f r)" and "\<And>r. job_state (f r) = Running \<Longrightarrow> lease_token (f r) = lease_token r"
    and "(j, Some u) \<noteq> (i, tok)"
  shows "owns_lease (update_held i tok f tab) j u = owns_lease tab j u"
proof -
  have "held j (Some u) (if held i tok r then f r else r) = held j (Some u) r" for r
  proof (cases "held i tok r")
    case True
    then have "\<not> held j (Some u) r" using assms(3) held_other by blast
    moreover have "\<not> held j (Some u) (f r)"
      using True assms(1) [OF held_live [OF True]] assms(2) [of r] assms(3) by (auto simp: held_def same_job_def)
    ultimately show ?thesis using True by simp
  qed simp
  then show ?thesis by (simp add: owns_lease_def update_held_def list_ex_map comp_def del: if_image_distrib)
qed

lemma owns_update_done:
  assumes "\<And>r. job_state (f r) \<noteq> Running"
  shows "\<not> owns_lease (update_held i tok f tab) i u \<or> tok \<noteq> Some u"
  using assms by (auto simp: owns_lease_def list_ex_iff update_held_def held_def)

lemma count_held:
  assumes "unique_ids tab"
  shows "(length (filter (held i tok) tab) = 1) = list_ex (held i tok) tab"
proof (cases "list_ex (held i tok) tab")
  case True
  then obtain r where "r \<in> set tab" "held i tok r" by (auto simp: list_ex_iff)
  moreover have "distinct (map job_id tab)" using assms by (simp add: unique_ids_def)
  ultimately have "filter (held i tok) tab = [r]" by (rule held_row_unique(1))
  with True show ?thesis by simp
next
  case False
  then show ?thesis by (auto simp: list_ex_iff filter_empty_conv)
qed

lemma not_running: "job_state (completed now r) \<noteq> Running" "job_state (failed now c t r) \<noteq> Running"
  by (simp_all add: completed_def failed_def)

lemma unique_ids_update: "(\<And>r. live r \<Longrightarrow> same_job r (f r)) \<Longrightarrow> unique_ids tab \<Longrightarrow> unique_ids (update_held i tok f tab)"
  by (simp add: unique_ids_def update_held_ids)

lemma renew_port_law:
  assumes "unique_ids s" "renew i t ms now s = (res, s')"
  shows "unique_ids s' \<and> (\<forall>j u. owns_lease s' j u = owns_lease s j u) \<and> (case res of Inr b \<Rightarrow> b = owns_lease s i t | Inl e \<Rightarrow> True)"
proof (cases "assertPositiveInteger ms ''lease duration''")
  case (Inl e)
  with assms show ?thesis by (auto simp: renew_def)
next
  case (Inr x)
  with assms have s': "s' = update_held i (Some t) (renewed now \<lfloor>ms\<rfloor>) s" "res = Inr (owns_lease s i t)"
    by (simp_all add: renew_def owns_lease_def count_held [symmetric])
  have "held j u (if held i (Some t) r then renewed now \<lfloor>ms\<rfloor> r else r) = held j u r" for j u r
    by (simp add: held_def renewed_def)
  then have "owns_lease s' j u = owns_lease s j u" for j u
    by (simp add: s' owns_lease_def update_held_def list_ex_map)
  moreover have "unique_ids s'" unfolding s' by (rule unique_ids_update) (simp_all add: same_job_trans assms)
  ultimately show ?thesis by (simp add: s')
qed

lemma complete_port_law:
  assumes "unique_ids s" "complete_job i t now s = (b, s')"
  shows "unique_ids s' \<and> (\<forall>j u. (j, u) \<noteq> (i, t) \<longrightarrow> owns_lease s' j u = owns_lease s j u) \<and> b = owns_lease s i t \<and>
    \<not> owns_lease s' i t"
proof -
  from assms have s': "s' = update_held i (Some t) (completed now) s" "b = owns_lease s i t"
    by (simp_all add: complete_job_def owns_lease_def count_held [symmetric])
  have "unique_ids s'" unfolding s' by (rule unique_ids_update) (simp_all add: same_job_trans assms)
  moreover have "owns_lease s' j u = owns_lease s j u" if "(j, u) \<noteq> (i, t)" for j u
    unfolding s' by (rule owns_update_other) (use that in \<open>simp_all add: same_job_trans not_running\<close>)
  moreover have "\<not> owns_lease s' i t" unfolding s'
    using owns_update_done [of "completed now" i "Some t" s t] by (simp add: not_running)
  ultimately show ?thesis using s'(2) by simp
qed

lemma fail_port_law:
  assumes "unique_ids s" "fail_job i tok e category terminal now s = (left, s')"
  shows "unique_ids s' \<and> (\<forall>j u. (j, Some u) \<noteq> (i, tok) \<longrightarrow> owns_lease s' j u = owns_lease s j u) \<and>
    (\<forall>u. tok = Some u \<longrightarrow> \<not> owns_lease s' i u)"
proof -
  from assms obtain c where s': "s' = update_held i tok (failed now c terminal) s" by (auto simp: fail_job_def Let_def)
  have "unique_ids s'" unfolding s' by (rule unique_ids_update) (simp_all add: same_job_trans assms)
  moreover have "owns_lease s' j u = owns_lease s j u" if "(j, Some u) \<noteq> (i, tok)" for j u
    unfolding s' by (rule owns_update_other) (use that in \<open>simp_all add: same_job_trans not_running\<close>)
  moreover have "\<not> owns_lease s' i u" if "tok = Some u" for u unfolding s'
    using owns_update_done [of "failed now c terminal" i tok s u] that by (simp add: not_running)
  ultimately show ?thesis by simp
qed

interpretation table: lease_port "table_port fr fc ff" unique_ids owns_lease for fr fc ff
proof
  show "unique_ids s' \<and> (\<forall>j u. owns_lease s' j u = owns_lease s j u) \<and> (case res of Inr b \<Rightarrow> b = owns_lease s i t | Inl e \<Rightarrow> True)"
    if "port_renew (table_port fr fc ff) = Some rn" "unique_ids s" "rn i t ms now s = (res, s')" for rn s i t ms now res s'
  proof -
    obtain r s1 where r: "renew i t ms now s = (r, s1)" by (cases "renew i t ms now s")
    from that r show ?thesis using renew_port_law [OF that(2) r]
      by (cases fr) (auto simp: table_port_def typed_def split: sum.splits)
  qed
  show "unique_ids s' \<and> (\<forall>j u. (j, u) \<noteq> (i, t) \<longrightarrow> owns_lease s' j u = owns_lease s j u) \<and>
      (case res of Inr b \<Rightarrow> b = owns_lease s i t \<and> \<not> owns_lease s' i t | Inl e \<Rightarrow> True)"
    if "unique_ids s" "port_complete (table_port fr fc ff) i t now s = (res, s')" for s i t now res s'
  proof -
    obtain b s1 where r: "complete_job i t now s = (b, s1)" by (cases "complete_job i t now s")
    from that r show ?thesis using complete_port_law [OF that(1) r] by (cases fc) (auto simp: table_port_def)
  qed
  show "unique_ids s' \<and> (\<forall>j u. (j, Some u) \<noteq> (job_id job, lease_token job) \<longrightarrow> owns_lease s' j u = owns_lease s j u) \<and>
      (case ans of Inr left \<Rightarrow> (\<forall>u. lease_token job = Some u \<longrightarrow> \<not> owns_lease s' (job_id job) u) | Inl e \<Rightarrow> True)"
    if "unique_ids s" "port_fail (table_port fr fc ff) job e category terminal now s = (ans, s')"
    for s job e category terminal now ans s'
  proof -
    obtain q s1 where r: "fail_job (job_id job) (lease_token job) e (Some category) terminal now s = (q, s1)"
      by (cases "fail_job (job_id job) (lease_token job) e (Some category) terminal now s")
    from that r show ?thesis using fail_port_law [OF that(1) r] by (cases ff) (auto simp: table_port_def)
  qed
qed

subsection \<open>The poll loop\<close>

text \<open>The runner's fields beside the queue it shares with everyone else. \<open>claiming\<close> is the \<open>available\<close> of the
  tick that is in flight, \<open>active\<close> the jobs being run. \<open>mine\<close> and \<open>stranded\<close> record the tokens the runner
  minted and the leases it can no longer settle.\<close>

record runner_sys =
  queue :: queue_sys
  claiming :: "rat option"
  active :: "job_row list"
  stopping :: bool
  ticks :: nat
  lastIdleLogAt :: int
  mine :: "string list"
  stranded :: "(string \<times> string) list"

datatype tick_log = Claim_failed error_category | Claimed_jobs nat rat nat "string list" nat | Queue_idle nat rat rat nat

text \<open>\<open>new Set(kinds)\<close>: first occurrences, in order.\<close>

definition distinct_kinds :: "job_row list \<Rightarrow> string list" where
  "distinct_kinds js = foldl (\<lambda>acc k. if k \<in> set acc then acc else acc @ [k]) [] (map job_kind js)"

definition available :: "runner_config \<Rightarrow> runner_sys \<Rightarrow> rat" where
  "available cfg s = concurrency cfg - of_nat (length (active s))"

text \<open>\<open>runOnce\<close> and \<open>tick\<close> up to the claim.\<close>

definition tick_start :: "runner_config \<Rightarrow> runner_sys \<Rightarrow> runner_sys" where
  "tick_start cfg s =
     (if stopping s \<or> claiming s \<noteq> None \<or> available cfg s \<le> 0 then s else s\<lparr>claiming := Some (available cfg s)\<rparr>)"

definition tick_log_of :: "runner_config \<Rightarrow> rat \<Rightarrow> int \<Rightarrow> job_row list \<Rightarrow> runner_sys \<Rightarrow> tick_log list \<times> int" where
  "tick_log_of cfg av now js s =
     (if js \<noteq> [] then
        ([Claimed_jobs (length js) av (length (active s)) (distinct_kinds js) (Suc (ticks s))], 0)
      else if lastIdleLogAt s = 0 \<or> now - lastIdleLogAt s \<ge> IDLE_LOG_INTERVAL_MS then
        ([Queue_idle (Suc (ticks s)) (pollIntervalMs cfg) (concurrency cfg) (length (active s))], now)
      else ([], lastIdleLogAt s))"

text \<open>\<open>tick\<close> from the answer of the claim on; \<open>now2\<close> is its second read of the clock.\<close>

definition tick_answer ::
  "runner_config \<Rightarrow> int \<Rightarrow> int \<Rightarrow> string \<Rightarrow> string set \<Rightarrow> fault \<Rightarrow> runner_sys \<Rightarrow> tick_log list \<times> runner_sys" where
  "tick_answer cfg now now2 token locked flt s =
     (case claiming s of None \<Rightarrow> ([], s)
      | Some av \<Rightarrow>
          (case claimDueJobs av now (leaseMs cfg) token locked (queue_tab (queue s)) of (res, tab') \<Rightarrow>
             let js = (case res of Inl m \<Rightarrow> [] | Inr rows \<Rightarrow> rows);
                 leases = map (\<lambda>r. (job_id r, token)) js;
                 s1 = s\<lparr>claiming := None\<rparr>;
                 s2 = s1\<lparr>queue := \<lparr>queue_tab = tab', claims = claims (queue s) @ leases\<rparr>, mine := mine s @ map snd leases\<rparr>
             in case (flt, res) of
                  (Refused e, _) \<Rightarrow> ([Claim_failed (safeMaintenanceErrorCategory e)], s1)
                | (Answer_lost e, _) \<Rightarrow>
                    ([Claim_failed (safeMaintenanceErrorCategory e)], s2\<lparr>stranded := stranded s @ leases\<rparr>)
                | (No_fault, Inl m) \<Rightarrow> ([Claim_failed Plain_error], s1)
                | (No_fault, Inr rows) \<Rightarrow>
                    (case tick_log_of cfg av now2 rows s of (lg, idle) \<Rightarrow>
                       (lg, s2\<lparr>ticks := Suc (ticks s), lastIdleLogAt := idle,
                               active := active s @ take (nat \<lfloor>av\<rfloor>) rows\<rparr>))))"

definition lost_record :: "run_log \<Rightarrow> bool" where
  "lost_record l = (case l of Recording_failed i k c d \<Rightarrow> True | _ \<Rightarrow> False)"

text \<open>The end of one run: settling it and leaving \<open>active\<close>.\<close>

definition run_finished ::
  "fault \<Rightarrow> fault \<Rightarrow> job_row \<Rightarrow> job_row \<Rightarrow> thrown option \<Rightarrow> (nat \<Rightarrow> int) \<Rightarrow> runner_sys \<Rightarrow> run_log list \<times> runner_sys" where
  "run_finished fc ff job job' outcome clk s =
     (case settle_run (table_port No_fault fc ff) job' (job_id job, job_kind job, lease_token job) outcome clk (queue_tab (queue s)) of
        (lg, tab') \<Rightarrow>
          (lg, s\<lparr>queue := (queue s)\<lparr>queue_tab := tab'\<rparr>, active := remove1 job (active s),
             stranded := stranded s @ (if list_ex lost_record lg then [(job_id job, the (lease_token job))] else [])\<rparr>))"

inductive runner_step :: "runner_config \<Rightarrow> runner_sys \<Rightarrow> runner_sys \<Rightarrow> bool" for cfg where
  start: "runner_step cfg s (tick_start cfg s)"
| answer: "token \<notin> snd ` set (claims (queue s)) \<Longrightarrow> tick_answer cfg now now2 token locked flt s = (lg, s') \<Longrightarrow>
     runner_step cfg s s'"
| finish: "job \<in> set (active s) \<Longrightarrow> run_finished fc ff job job' outcome clk s = (lg, s') \<Longrightarrow> runner_step cfg s s'"
| stop: "runner_step cfg s (s\<lparr>stopping := True\<rparr>)"
| others: "queue_step (queue s) q \<Longrightarrow> runner_step cfg s (s\<lparr>queue := q\<rparr>)"

inductive runner_reach :: "runner_config \<Rightarrow> runner_sys \<Rightarrow> bool" for cfg where
  boot: "queue_reach q \<Longrightarrow> runner_reach cfg \<lparr>queue = q, claiming = None, active = [], stopping = False, ticks = 0,
     lastIdleLogAt = 0, mine = [], stranded = []\<rparr>"
| step: "runner_reach cfg s \<Longrightarrow> runner_step cfg s s' \<Longrightarrow> runner_reach cfg s'"

text \<open>\<open>stop\<close> has returned.\<close>

definition runner_stopped :: "runner_sys \<Rightarrow> bool" where
  "runner_stopped s \<longleftrightarrow> stopping s \<and> claiming s = None \<and> active s = []"

text \<open>A lease of the runner that is neither being run nor given up.\<close>

definition covered :: "runner_sys \<Rightarrow> string \<Rightarrow> string \<Rightarrow> bool" where
  "covered s i t \<longleftrightarrow> (\<exists>job \<in> set (active s). job_id job = i \<and> lease_token job = Some t) \<or> (i, t) \<in> set (stranded s)"

definition runner_inv :: "runner_config \<Rightarrow> runner_sys \<Rightarrow> bool" where
  "runner_inv cfg s \<longleftrightarrow> queue_reach (queue s) \<and> of_nat (length (active s)) \<le> concurrency cfg \<and>
     (case claiming s of Some av \<Rightarrow> of_nat (length (active s)) + av \<le> concurrency cfg | None \<Rightarrow> True) \<and>
     set (mine s) \<subseteq> snd ` set (claims (queue s)) \<and>
     (\<forall>job \<in> set (active s). lease_token job \<noteq> None) \<and>
     (\<forall>i. \<forall>t \<in> set (mine s). owns_lease (queue_tab (queue s)) i t \<longrightarrow> covered s i t)"

subsection \<open>What the loop does to leases\<close>

lemma claimDueJobs_Inr:
  assumes "claimDueJobs av now ms token locked tab = (Inr rows, tab')"
  shows "claim_rows now \<lfloor>av\<rfloor> token \<lfloor>ms\<rfloor> locked tab = (rows, tab')"
  using assms by (auto simp: claimDueJobs_def split: sum.splits prod.splits)

lemma claimDueJobs_Inl: "claimDueJobs av now ms token locked tab = (Inl m, tab') \<Longrightarrow> tab' = tab"
  by (auto simp: claimDueJobs_def split: sum.splits prod.splits)

lemma claim_rows_leased:
  assumes "claim_rows now limit token ms locked tab = (rows, tab')" "r \<in> set rows"
  shows "lease_token r = Some token"
  using assms by (auto simp: claim_rows_def Let_def leased_def)

lemma claim_rows_length:
  assumes "distinct (map job_id tab)" "claim_rows now limit token ms locked tab = (rows, tab')"
  shows "length rows \<le> nat limit"
proof -
  let ?e = "eligible now limit locked tab"
  let ?f = "filter (\<lambda>r. job_id r \<in> job_id ` set ?e \<and> reclaimable r) tab"
  have "rows = map (leased now token ms) ?f" using assms(2) by (simp add: claim_rows_def Let_def)
  then have "length rows = card (set (map job_id ?f))"
    using assms(1) distinct_card [of "map job_id ?f"] by (simp add: distinct_map_filter)
  also have "\<dots> \<le> card (set (map job_id ?e))" by (rule card_mono) auto
  also have "\<dots> \<le> length ?e" using card_length [of "map job_id ?e"] by simp
  also have "\<dots> \<le> nat limit" by (simp add: eligible_def)
  finally show ?thesis .
qed

lemma claim_rows_owns:
  assumes "claim_rows now limit token ms locked tab = (rows, tab')" "owns_lease tab' i t"
  shows "owns_lease tab i t \<or> (t = token \<and> i \<in> job_id ` set rows)"
proof -
  let ?ids = "job_id ` set (eligible now limit locked tab)"
  from assms(2) obtain r' where "r' \<in> set tab'" "held i (Some t) r'" by (auto simp: owns_lease_def list_ex_iff)
  with assms(1) obtain r where r: "r \<in> set tab" "held i (Some t) (claim_row now token ms ?ids r)"
    by (auto simp: claim_rows_map)
  show ?thesis
  proof (cases "job_id r \<in> ?ids \<and> reclaimable r")
    case True
    with r(2) have "t = token" "job_id r = i" by (auto simp: claim_row_def held_def leased_def)
    moreover have "leased now token ms r \<in> set rows" using assms(1) True r(1) by (auto simp: claim_rows_def Let_def)
    moreover have "job_id (leased now token ms r) = i" using \<open>job_id r = i\<close> by (simp add: leased_def)
    ultimately show ?thesis by (metis imageI)
  next
    case False
    with r(2) have "held i (Some t) r" by (auto simp: claim_row_def held_def expired_dead_def split: if_splits)
    with r(1) show ?thesis by (auto simp: owns_lease_def list_ex_iff)
  qed
qed

lemma owned_token_claimed:
  assumes "queue_inv q" "owns_lease (queue_tab q) i t"
  shows "t \<in> snd ` set (claims q)"
proof -
  from assms(2) obtain r where r: "r \<in> set (queue_tab q)" "held i (Some t) r" by (auto simp: owns_lease_def list_ex_iff)
  with assms(1) have "row_inv (claims q) r" by (simp add: queue_inv_def)
  with r(2) have "claims_of (job_id r) (claims q) \<noteq> []" "t = last (claims_of (job_id r) (claims q))"
    by (auto simp: row_inv_def held_def)
  then have "t \<in> set (claims_of (job_id r) (claims q))" by simp
  then show ?thesis by (auto simp: claims_of_def)
qed

lemma queue_step_owns:
  assumes step: "queue_step q q'" and inv: "queue_inv q" and own: "owns_lease (queue_tab q') i t"
    and t: "t \<in> snd ` set (claims q)"
  shows "owns_lease (queue_tab q) i t"
  using step
proof cases
  case (insert inp now v ident clock made tab')
  then show ?thesis using own by (auto simp: insertJob_def Let_def owns_lease_def held_def new_row_def split: if_splits)
next
  case (claim token limit now leaseMs locked rows tab')
  with claim_rows_owns [OF claimDueJobs_Inr [OF claim(3)]] own t show ?thesis by auto
next
  case (renew ident token leaseMs now res tab')
  have "unique_ids (queue_tab q)" using inv by (simp add: queue_inv_def unique_ids_def)
  from renew_port_law [OF this renew(2)] own show ?thesis by (simp add: renew(1))
next
  case (complete ident token now res tab')
  have "unique_ids (queue_tab q)" using inv by (simp add: queue_inv_def unique_ids_def)
  from complete_port_law [OF this complete(2)] own show ?thesis by (cases "(i, t) = (ident, token)") (auto simp: complete(1))
next
  case (fail ident tok e category terminal now left tab')
  have "unique_ids (queue_tab q)" using inv by (simp add: queue_inv_def unique_ids_def)
  from fail_port_law [OF this fail(2)] own show ?thesis by (cases "(i, Some t) = (ident, tok)") (auto simp: fail(1))
qed

lemma queue_step_claims: "queue_step q q' \<Longrightarrow> set (claims q) \<subseteq> set (claims q')"
  by (erule queue_step.cases) auto

lemma table_port_fail:
  assumes "port_fail (table_port fr fc ff) job e cat tm now tab = (res, tab')"
  shows "tab' = tab \<or> (\<exists>left. fail_job (job_id job) (lease_token job) e (Some cat) tm now tab = (left, tab'))"
proof -
  obtain left s1 where "fail_job (job_id job) (lease_token job) e (Some cat) tm now tab = (left, s1)" by (metis surj_pair)
  with assms show ?thesis by (cases ff) (auto simp: table_port_def)
qed

lemma fail_run_steps:
  assumes "fail_run (table_port fr fc ff) job' c e clk (queue_tab q) = (lg, tab')"
  shows "queue_step\<^sup>*\<^sup>* q (q\<lparr>queue_tab := tab'\<rparr>)"
proof -
  obtain i k tok where c: "c = (i, k, tok)" by (metis prod_cases3)
  from assms c obtain cat tm res where
    "port_fail (table_port fr fc ff) (job'\<lparr>job_id := i, lease_token := tok\<rparr>) e cat tm (clk 3) (queue_tab q) = (res, tab')"
    unfolding fail_run_def Let_def by (fastforce split: prod.splits sum.splits)
  then have "tab' = queue_tab q \<or> (\<exists>left. fail_job i tok e (Some cat) tm (clk 3) (queue_tab q) = (left, tab'))"
    using table_port_fail by fastforce
  then show ?thesis
  proof
    assume "\<exists>left. fail_job i tok e (Some cat) tm (clk 3) (queue_tab q) = (left, tab')"
    then show ?thesis using queue_step.fail by blast
  qed simp
qed

lemma settle_run_steps:
  assumes "settle_run (table_port fr fc ff) job' (i, k, tok) outcome clk (queue_tab q) = (lg, tab')"
  shows "queue_step\<^sup>*\<^sup>* q (q\<lparr>queue_tab := tab'\<rparr>)"
proof (cases "outcome = None \<and> tok \<noteq> None")
  case False
  then show ?thesis using assms fail_run_steps by (auto simp: settle_run_def split: option.splits)
next
  case True
  then obtain t where t: "tok = Some t" by auto
  obtain b tab1 where c: "complete_job i t (clk 1) (queue_tab q) = (b, tab1)" by (cases "complete_job i t (clk 1) (queue_tab q)")
  then have one: "queue_step q (q\<lparr>queue_tab := tab1\<rparr>)" by (rule queue_step.complete)
  show ?thesis
  proof (cases fc)
    case No_fault
    with assms True t c have "tab' = tab1" by (simp add: settle_run_def table_port_def)
    with one show ?thesis by simp
  next
    case (Refused e)
    with assms True t c have "fail_run (table_port fr fc ff) job' (i, k, tok) e clk (queue_tab q) = (lg, tab')"
      by (simp add: settle_run_def table_port_def)
    then show ?thesis by (rule fail_run_steps)
  next
    case (Answer_lost e)
    with assms True t c have "fail_run (table_port fr fc ff) job' (i, k, tok) e clk (queue_tab (q\<lparr>queue_tab := tab1\<rparr>)) = (lg, tab')"
      by (simp add: settle_run_def table_port_def)
    from fail_run_steps [OF this] one show ?thesis by simp
  qed
qed

lemma queue_steps_reach: "queue_step\<^sup>*\<^sup>* q q' \<Longrightarrow> queue_reach q \<Longrightarrow> queue_reach q'"
  by (induction rule: rtranclp_induct) (auto intro: queue_reach.step)

subsection \<open>The loop's invariant\<close>

lemma reach_unique: "queue_reach q \<Longrightarrow> unique_ids (queue_tab q)"
  using queue_reach_inv by (auto simp: queue_inv_def unique_ids_def)

lemma runner_inv_start: "runner_inv cfg s \<Longrightarrow> runner_inv cfg (tick_start cfg s)"
  by (auto simp: runner_inv_def tick_start_def available_def covered_def split: option.splits)

lemma runner_inv_finish:
  assumes inv: "runner_inv cfg s" and job: "job \<in> set (active s)" and fin: "run_finished fc ff job job' outcome clk s = (lg, s')"
  shows "runner_inv cfg s'"
proof -
  obtain l tab' where st: "settle_run (table_port No_fault fc ff) job' (job_id job, job_kind job, lease_token job) outcome clk
      (queue_tab (queue s)) = (l, tab')" by (metis surj_pair)
  have q: "queue_reach (queue s)" using inv by (simp add: runner_inv_def)
  obtain t where t: "lease_token job = Some t" using inv job by (auto simp: runner_inv_def)
  note law = table.settle_run_owns [OF reach_unique [OF q] st]
  define gone where "gone = (if list_ex lost_record l then [(job_id job, t)] else [])"
  have s': "s' = s\<lparr>queue := (queue s)\<lparr>queue_tab := tab'\<rparr>, active := remove1 job (active s), stranded := stranded s @ gone\<rparr>"
    using fin st t by (auto simp: run_finished_def gone_def)
  have "queue_reach (queue s')"
    using queue_steps_reach [OF settle_run_steps [OF st] q] by (simp add: s')
  moreover have len: "length (remove1 job (active s)) \<le> length (active s)" by (simp add: length_remove1)
  then have "(of_nat (length (remove1 job (active s))) :: rat) \<le> of_nat (length (active s))" by (simp only: of_nat_le_iff)
  moreover have "covered s' i u" if "u \<in> set (mine s)" "owns_lease tab' i u" for i u
  proof (cases "(i, Some u) = (job_id job, lease_token job)")
    case True
    with that law t have "\<exists>cat d. l = [Recording_failed (job_id job) (job_kind job) cat d]" by auto
    then have "gone = [(job_id job, t)]" by (auto simp: gone_def lost_record_def)
    with True t show ?thesis by (simp add: covered_def s')
  next
    case False
    with that law have "owns_lease (queue_tab (queue s)) i u" by blast
    with inv that have "covered s i u" by (simp add: runner_inv_def)
    then show ?thesis unfolding covered_def
    proof
      assume "\<exists>j \<in> set (active s). job_id j = i \<and> lease_token j = Some u"
      then obtain j where j: "j \<in> set (active s)" "job_id j = i" "lease_token j = Some u" by blast
      with False have "j \<noteq> job" by auto
      with j have "j \<in> set (active s')" by (simp add: s' in_set_remove1)
      with j show "(\<exists>j \<in> set (active s'). job_id j = i \<and> lease_token j = Some u) \<or> (i, u) \<in> set (stranded s')" by blast
    qed (simp add: s')
  qed
  moreover have "\<forall>j \<in> set (remove1 job (active s)). lease_token j \<noteq> None"
    using inv set_remove1_subset [of job "active s"] by (auto simp: runner_inv_def)
  ultimately show ?thesis using inv unfolding runner_inv_def
    by (auto simp: s' split: option.splits)
qed

lemma runner_inv_others:
  assumes inv: "runner_inv cfg s" and step: "queue_step (queue s) q"
  shows "runner_inv cfg (s\<lparr>queue := q\<rparr>)"
proof -
  have r: "queue_reach (queue s)" and m: "set (mine s) \<subseteq> snd ` set (claims (queue s))" using inv by (simp_all add: runner_inv_def)
  have "owns_lease (queue_tab (queue s)) i t" if "t \<in> set (mine s)" "owns_lease (queue_tab q) i t" for i t
    using queue_step_owns [OF step queue_reach_inv [OF r] that(2)] that(1) m by blast
  moreover have "queue_reach q" using r step by (rule queue_reach.step)
  moreover have "set (mine s) \<subseteq> snd ` set (claims q)" using m queue_step_claims [OF step] by blast
  ultimately show ?thesis using inv by (auto simp: runner_inv_def covered_def split: option.splits)
qed

lemma tick_answer_cases:
  assumes "tick_answer cfg now now2 token locked flt s = (lg, s')" "claiming s = Some av"
  obtains (unclaimed) "s' = s\<lparr>claiming := None\<rparr>"
  | (leased) rows tab' ticks' idle lost where
      "claimDueJobs av now (leaseMs cfg) token locked (queue_tab (queue s)) = (Inr rows, tab')"
      "s' = s\<lparr>claiming := None,
        queue := \<lparr>queue_tab = tab', claims = claims (queue s) @ map (\<lambda>r. (job_id r, token)) rows\<rparr>,
        mine := mine s @ map (\<lambda>r. token) rows, ticks := ticks', lastIdleLogAt := idle,
        active := active s @ (if lost then [] else take (nat \<lfloor>av\<rfloor>) rows),
        stranded := stranded s @ (if lost then map (\<lambda>r. (job_id r, token)) rows else [])\<rparr>"
proof -
  obtain res tab' where c: "claimDueJobs av now (leaseMs cfg) token locked (queue_tab (queue s)) = (res, tab')"
    by (metis surj_pair)
  show thesis
  proof (cases res)
    case (Inl m)
    then have "tab' = queue_tab (queue s)" using claimDueJobs_Inl c by blast
    with assms c Inl have "s' = s\<lparr>claiming := None\<rparr>" by (cases flt) (auto simp: tick_answer_def)
    then show thesis by (rule unclaimed)
  next
    case (Inr rows)
    show thesis
    proof (cases flt)
      case No_fault
      obtain lg1 idle where "tick_log_of cfg av now2 rows s = (lg1, idle)" by (metis surj_pair)
      with assms c Inr No_fault have "s' = s\<lparr>claiming := None,
          queue := \<lparr>queue_tab = tab', claims = claims (queue s) @ map (\<lambda>r. (job_id r, token)) rows\<rparr>,
          mine := mine s @ map (\<lambda>r. token) rows, ticks := Suc (ticks s), lastIdleLogAt := idle,
          active := active s @ (if False then [] else take (nat \<lfloor>av\<rfloor>) rows),
          stranded := stranded s @ (if False then map (\<lambda>r. (job_id r, token)) rows else [])\<rparr>"
        by (auto simp: tick_answer_def Let_def comp_def)
      then show thesis by (rule leased [OF c [unfolded Inr]])
    next
      case (Refused e)
      with assms c Inr have "s' = s\<lparr>claiming := None\<rparr>" by (simp add: tick_answer_def)
      then show thesis by (rule unclaimed)
    next
      case (Answer_lost e)
      with assms c Inr have "s' = s\<lparr>claiming := None,
          queue := \<lparr>queue_tab = tab', claims = claims (queue s) @ map (\<lambda>r. (job_id r, token)) rows\<rparr>,
          mine := mine s @ map (\<lambda>r. token) rows, ticks := ticks s, lastIdleLogAt := lastIdleLogAt s,
          active := active s @ (if True then [] else take (nat \<lfloor>av\<rfloor>) rows),
          stranded := stranded s @ (if True then map (\<lambda>r. (job_id r, token)) rows else [])\<rparr>"
        by (auto simp: tick_answer_def Let_def comp_def)
      then show thesis by (rule leased [OF c [unfolded Inr]])
    qed
  qed
qed

lemma runner_inv_answer:
  assumes inv: "runner_inv cfg s" and fresh: "token \<notin> snd ` set (claims (queue s))"
    and ans: "tick_answer cfg now now2 token locked flt s = (lg, s')"
  shows "runner_inv cfg s'"
proof (cases "claiming s")
  case None
  with ans have "s' = s" by (simp add: tick_answer_def)
  with inv show ?thesis by simp
next
  case (Some av)
  with ans show ?thesis
  proof (cases rule: tick_answer_cases)
    case unclaimed
    with inv show ?thesis by (simp add: runner_inv_def covered_def)
  next
    case (leased rows tab' ticks' idle lost)
    let ?new = "map (\<lambda>r. (job_id r, token)) rows"
    have r: "queue_reach (queue s)" using inv by (simp add: runner_inv_def)
    have q: "queue s' = (queue s)\<lparr>queue_tab := tab', claims := claims (queue s) @ ?new\<rparr>" by (simp add: leased(2))
    have "queue_step (queue s) (queue s')" unfolding q using fresh leased(1) by (rule queue_step.claim)
    with r have r': "queue_reach (queue s')" by (rule queue_reach.step)
    note cl = claimDueJobs_Inr [OF leased(1)]
    have len: "length rows \<le> nat \<lfloor>av\<rfloor>"
      using reach_unique [OF r] claim_rows_length [OF _ cl] by (simp add: unique_ids_def)
    then have all: "take (nat \<lfloor>av\<rfloor>) rows = rows" by simp
    have bound: "of_nat (length (active s)) + av \<le> concurrency cfg" using inv Some by (simp add: runner_inv_def)
    have "(of_nat (length rows) :: rat) \<le> av \<or> rows = []"
    proof (cases "rows = []")
      case False
      then have "0 < length rows" by simp
      from this len have "0 < nat \<lfloor>av\<rfloor>" by (rule less_le_trans)
      with len have "int (length rows) \<le> \<lfloor>av\<rfloor>" by (simp only: zero_less_nat_eq nat_0_le le_nat_iff order_less_imp_le)
      then have "(of_int (int (length rows)) :: rat) \<le> of_int \<lfloor>av\<rfloor>" by (simp only: of_int_le_iff)
      from this of_int_floor_le have "(of_int (int (length rows)) :: rat) \<le> av" by (rule order_trans)
      then show ?thesis by simp
    qed simp
    moreover have "of_nat (length (active s)) \<le> concurrency cfg" using inv by (simp add: runner_inv_def)
    ultimately have act: "of_nat (length (active s')) \<le> concurrency cfg" using bound by (auto simp: leased(2) all)
    have tok: "\<forall>job \<in> set (active s'). lease_token job \<noteq> None"
      using inv claim_rows_leased [OF cl] by (auto simp: leased(2) all runner_inv_def)
    have mine: "set (mine s') \<subseteq> snd ` set (claims (queue s'))"
    proof -
      have "set (mine s) \<subseteq> snd ` set (claims (queue s))" using inv by (simp add: runner_inv_def)
      moreover have "set (mine s') = set (mine s) \<union> (\<lambda>r. token) ` set rows" by (simp add: leased(2))
      moreover have "snd ` set (claims (queue s')) = snd ` set (claims (queue s)) \<union> (\<lambda>r. token) ` set rows"
        by (simp add: leased(2) image_Un image_image)
      ultimately show ?thesis by blast
    qed
    have "covered s' i t" if "t \<in> set (mine s')" "owns_lease (queue_tab (queue s')) i t" for i t
    proof -
      from claim_rows_owns [OF cl] that(2) consider "owns_lease (queue_tab (queue s)) i t" |
        "t = token" "i \<in> job_id ` set rows" by (auto simp: leased(2))
      then show ?thesis
      proof cases
        case 1
        then have "t \<in> snd ` set (claims (queue s))" by (rule owned_token_claimed [OF queue_reach_inv [OF r]])
        with fresh have "t \<noteq> token" by blast
        with that(1) have "t \<in> set (mine s)" by (auto simp: leased(2))
        with inv 1 have "covered s i t" by (simp add: runner_inv_def)
        then show ?thesis by (auto simp: covered_def leased(2))
      next
        case 2
        then show ?thesis using claim_rows_leased [OF cl] by (auto simp: covered_def leased(2) all)
      qed
    qed
    moreover have "claiming s' = None" by (simp add: leased(2))
    ultimately show ?thesis using r' act tok mine by (simp add: runner_inv_def)
  qed
qed

lemma runner_inv_step: "runner_step cfg s s' \<Longrightarrow> runner_inv cfg s \<Longrightarrow> runner_inv cfg s'"
proof (induction rule: runner_step.induct)
  case (stop s)
  then show ?case by (auto simp: runner_inv_def covered_def split: option.splits)
qed (auto intro: runner_inv_start runner_inv_answer runner_inv_finish runner_inv_others)

lemma runner_reach_inv: "runner_reach cfg s \<Longrightarrow> 0 \<le> concurrency cfg \<Longrightarrow> runner_inv cfg s"
proof (induction rule: runner_reach.induct)
  case (boot q)
  then show ?case by (simp add: runner_inv_def)
qed (rule runner_inv_step)

subsection \<open>What the runner promises\<close>

lemma runner_config_bounds:
  "1 \<le> concurrency (runner_config_of opts) \<and> concurrency (runner_config_of opts) \<le> 16"
  by (simp add: runner_config_of_def Let_def MAX_CONCURRENCY_def)

text \<open>Whatever the options, the concurrency lies between 1 and 16 and the poll interval, the lease and the
  heartbeat are at least one millisecond; the heartbeat comes strictly before the lease's end exactly when
  the lease is longer than one millisecond.\<close>

theorem runner_settings_bounded:
  "1 \<le> concurrency (runner_config_of opts) \<and> concurrency (runner_config_of opts) \<le> 16 \<and>
   1 \<le> pollIntervalMs (runner_config_of opts) \<and> 1 \<le> leaseMs (runner_config_of opts) \<and> 1 \<le> leaseRenewMs (runner_config_of opts) \<and>
   (leaseRenewMs (runner_config_of opts) < leaseMs (runner_config_of opts) \<longleftrightarrow> 1 < leaseMs (runner_config_of opts))"
  using runner_config_bounds [of opts]
  by (auto simp: runner_config_of_def Let_def min_less_iff_disj le_max_iff_disj)

text \<open>The runner never runs more jobs at once than its concurrency, and never more than 16, however ticks,
  claims, failures of the database and other workers interleave.\<close>

theorem concurrency_respected:
  assumes "runner_reach (runner_config_of opts) s"
  shows "of_nat (length (active s)) \<le> concurrency (runner_config_of opts) \<and> length (active s) \<le> 16"
proof -
  have "0 \<le> concurrency (runner_config_of opts)" using runner_config_bounds [of opts] by linarith
  from runner_reach_inv [OF assms this] have "of_nat (length (active s)) \<le> concurrency (runner_config_of opts)"
    by (simp add: runner_inv_def)
  moreover from this have "(of_nat (length (active s)) :: rat) \<le> of_nat 16" using runner_config_bounds [of opts] by simp
  then have "length (active s) \<le> 16" by (simp only: of_nat_le_iff)
  ultimately show ?thesis by simp
qed

lemma stopped_step:
  assumes "runner_step cfg s s'" "runner_stopped s"
  shows "runner_stopped s' \<and> mine s' = mine s \<and> stranded s' = stranded s"
  using assms by (induction rule: runner_step.induct) (auto simp: runner_stopped_def tick_start_def tick_answer_def)

lemma stopped_steps:
  assumes "(runner_step cfg)\<^sup>*\<^sup>* s s'" "runner_reach cfg s" "runner_stopped s"
  shows "runner_reach cfg s' \<and> runner_stopped s' \<and> mine s' = mine s \<and> stranded s' = stranded s"
  using assms
proof (induction rule: rtranclp_induct)
  case (step a b)
  then show ?case using stopped_step [OF step(2)] runner_reach.step by metis
qed simp

text \<open>C17: shutdown strands no lease. Once \<open>stop\<close> has returned the runner claims nothing more, and no job is
  leased under any token it ever minted, except where the database refused to record a failure or the
  answer to a claim was lost.\<close>

theorem shutdown_strands_no_lease:
  assumes reach: "runner_reach (runner_config_of opts) s" and stopped: "runner_stopped s"
    and steps: "(runner_step (runner_config_of opts))\<^sup>*\<^sup>* s s'"
    and t: "t \<in> set (mine s')" and own: "owns_lease (queue_tab (queue s')) i t"
  shows "mine s' = mine s \<and> active s' = [] \<and> (i, t) \<in> set (stranded s)"
proof -
  note later = stopped_steps [OF steps reach stopped]
  have "0 \<le> concurrency (runner_config_of opts)" using runner_config_bounds [of opts] by linarith
  with later have "runner_inv (runner_config_of opts) s'" using runner_reach_inv by blast
  with t own have "covered s' i t" by (simp add: runner_inv_def)
  with later show ?thesis by (simp add: covered_def runner_stopped_def)
qed

text \<open>C18: a run gives up its lease however it ends: the handler returns, throws, loses the lease, is not
  registered, or rewrites the job it was given, and whichever statement the database refuses or answers
  too late. Only a failure that could not be recorded, which is logged, leaves the job leased.\<close>

theorem run_gives_up_its_lease:
  assumes "unique_ids tab" and "execute_job (table_port fr fc ff) handlers ms clk job tab = (lg, tab')"
    and "\<forall>h f s. handlers (job_kind job) = Some h \<and> Work f \<in> set (fst (h job)) \<and> unique_ids s \<longrightarrow> unique_ids (f s)"
    and "lease_token job = Some t"
  shows "list_ex lost_record lg \<or> \<not> owns_lease tab' (job_id job) t"
proof -
  from table.execute_owns [OF assms(1,2,3)] assms(4)
  consider c d where "Recording_failed (job_id job) (job_kind job) c d \<in> set lg" | "\<not> owns_lease tab' (job_id job) t"
    by blast
  then show ?thesis
  proof cases
    case (1 c d)
    have "lost_record (Recording_failed (job_id job) (job_kind job) c d)" by (simp add: lost_record_def)
    with 1 have "list_ex lost_record lg" unfolding list_ex_iff by blast
    then show ?thesis ..
  qed simp
qed

lemma update_held_comp:
  assumes "\<And>r. held i tok r \<Longrightarrow> held i tok (g r)"
  shows "update_held i tok f (update_held i tok g tab) = update_held i tok (\<lambda>r. f (g r)) tab"
  unfolding update_held_def using assms by auto

lemma held_until: "held i tok (r\<lparr>lease_until := u\<rparr>) = held i tok r"
  by (simp add: held_def)

lemma owns_until: "owns_lease (update_held i (Some t) (\<lambda>r. r\<lparr>lease_until := u r\<rparr>) tab) i t = owns_lease tab i t"
proof -
  have "held i (Some t) (if held i (Some t) r then r\<lparr>lease_until := u r\<rparr> else r) = held i (Some t) r" for r
    by (simp add: held_until)
  then show ?thesis unfolding owns_lease_def update_held_def list_ex_map by (simp only:)
qed

lemma heartbeat_renews:
  assumes "unique_ids tab" "owns_lease tab i t" "1 \<le> m"
  shows "\<exists>u. startHeartbeat (table_port No_fault fc ff) (i, k, Some t) (of_int m) False (map Beat beats) tab =
    ([], update_held i (Some t) (\<lambda>r. r\<lparr>lease_until := u r\<rparr>) tab)"
  using assms
proof (induction beats arbitrary: tab)
  case Nil
  have "update_held i (Some t) (\<lambda>r. r\<lparr>lease_until := lease_until r\<rparr>) tab = tab" by (simp add: update_held_def map_idI)
  then show ?case by (metis list.simps(8) startHeartbeat.simps(1))
next
  case (Cons n beats)
  let ?tab = "update_held i (Some t) (renewed n m) tab"
  have "assertPositiveInteger (of_int m) ''lease duration'' = Inr ()"
    using Cons.prems(3) by (simp add: assertPositiveInteger_def whole_def)
  then have r: "renew i t (of_int m) n tab = (Inr True, ?tab)"
    using Cons.prems(2) count_held [OF Cons.prems(1)] by (simp add: renew_def owns_lease_def)
  have "renewed n m = (\<lambda>r. r\<lparr>lease_until := Some (n + m)\<rparr>)" by (simp add: renewed_def [abs_def])
  then have own: "owns_lease ?tab i t" using Cons.prems(2) owns_until [of i t "\<lambda>_. Some (n + m)" tab] by simp
  have "unique_ids ?tab" by (rule unique_ids_update) (simp_all add: same_job_trans Cons.prems(1))
  from Cons.IH [OF this own Cons.prems(3)] obtain u where
    "startHeartbeat (table_port No_fault fc ff) (i, k, Some t) (of_int m) False (map Beat beats) ?tab =
      ([], update_held i (Some t) (\<lambda>r. r\<lparr>lease_until := u r\<rparr>) ?tab)" by blast
  moreover have "update_held i (Some t) (\<lambda>r. r\<lparr>lease_until := u r\<rparr>) ?tab =
      update_held i (Some t) (\<lambda>r. (renewed n m r)\<lparr>lease_until := u (renewed n m r)\<rparr>) tab"
    by (rule update_held_comp) (simp add: renewed_def held_until)
  moreover have "(\<lambda>r. (renewed n m r)\<lparr>lease_until := u (renewed n m r)\<rparr>) = (\<lambda>r. r\<lparr>lease_until := u (renewed n m r)\<rparr>)"
    by (simp add: renewed_def)
  ultimately have "startHeartbeat (table_port No_fault fc ff) (i, k, Some t) (of_int m) False (map Beat (n # beats)) tab =
      ([], update_held i (Some t) (\<lambda>r. r\<lparr>lease_until := u (renewed n m r)\<rparr>) tab)"
    using r by (simp add: table_port_def renewOnce_def typed_def)
  then show ?case by (rule exI [of _ "\<lambda>r. u (renewed n m r)"])
qed

lemma update_held_unique:
  assumes "unique_ids tab" "r \<in> set tab" "held i tok r"
  shows "update_held i tok f tab = map (\<lambda>p. if p = r then f r else p) tab"
proof -
  have "filter (held i tok) tab = [r]" by (rule held_row_unique(1) [OF assms(2,3)]) (use assms(1) in \<open>simp add: unique_ids_def\<close>)
  then have "held i tok p \<longleftrightarrow> p = r" if "p \<in> set tab" for p
    using that assms(3) by (metis (mono_tags, lifting) filter_set list.set(1,2) mem_Collect_eq set_filter singletonD)
  then show ?thesis unfolding update_held_def by simp
qed

definition failure_category :: "thrown \<Rightarrow> error_category" where
  "failure_category e = (if e = String_thrown ''unsupported_job_kind'' then Unsupported_job_kind
     else if isMaintenanceTerminalError e then Terminal else safeMaintenanceErrorCategory e)"

text \<open>Without faults the outcome of a handler is recorded exactly once and truthfully, whatever it did to
  the job object and however often the lease was renewed: the row becomes succeeded when it returned, and
  otherwise queued again or dead-lettered under the category of what it threw; every other row is left
  alone, and the one line logged carries the state the row now has.\<close>

theorem handler_outcome_recorded:
  assumes "unique_ids tab" and r: "r \<in> set tab" "held (job_id job) (Some t) r" and t: "lease_token job = Some t"
    and h: "handlers (job_kind job) = Some h" "h job = (map Beat beats, job', outcome)" and m: "1 \<le> m"
  shows "execute_job (table_port No_fault No_fault No_fault) handlers (of_int m) clk job tab =
    (case outcome of
       None \<Rightarrow> ([Run_completed (job_id job) (job_kind job) True (clk 2 - clk 0)],
          map (\<lambda>p. if p = r then completed (clk 1) r else p) tab)
     | Some e \<Rightarrow>
         (let q = failed (clk 3) (failure_category e) (isMaintenanceTerminalError e) r
          in ([Run_failed (job_id job) (job_kind job) (Some (job_state q)) (failure_category e)
                (safeMaintenanceErrorIdentity e) (clk 4 - clk 0)], map (\<lambda>p. if p = r then q else p) tab)))"
proof -
  let ?i = "job_id job" and ?p = "table_port No_fault No_fault No_fault"
  have own: "owns_lease tab ?i t" using r by (auto simp: owns_lease_def list_ex_iff)
  from heartbeat_renews [OF assms(1) own m] obtain u where hb:
    "startHeartbeat ?p (?i, job_kind job, Some t) (of_int m) False (map Beat beats) tab =
      ([], update_held ?i (Some t) (\<lambda>r. r\<lparr>lease_until := u r\<rparr>) tab)" by blast
  let ?tab = "update_held ?i (Some t) (\<lambda>r. r\<lparr>lease_until := u r\<rparr>) tab"
  have uq: "unique_ids ?tab" by (rule unique_ids_update) (simp_all add: same_job_def live_def assms(1))
  have own1: "owns_lease ?tab ?i t" using own owns_until by blast
  have comp: "update_held ?i (Some t) (completed n) ?tab = map (\<lambda>p. if p = r then completed n r else p) tab" for n
  proof -
    have "(\<lambda>r. completed n (r\<lparr>lease_until := u r\<rparr>)) = completed n" by (rule ext) (simp add: completed_def)
    then show ?thesis using update_held_comp [of ?i "Some t" "\<lambda>r. r\<lparr>lease_until := u r\<rparr>" "completed n" tab]
        update_held_unique [OF assms(1) r, of "completed n"] by (simp add: held_until)
  qed
  have fl: "update_held ?i (Some t) (failed n c b) ?tab = map (\<lambda>p. if p = r then failed n c b r else p) tab" for n c b
  proof -
    have "(\<lambda>r. failed n c b (r\<lparr>lease_until := u r\<rparr>)) = failed n c b" by (rule ext) (simp add: failed_def spent_def)
    then show ?thesis using update_held_comp [of ?i "Some t" "\<lambda>r. r\<lparr>lease_until := u r\<rparr>" "failed n c b" tab]
        update_held_unique [OF assms(1) r, of "failed n c b"] by (simp add: held_until)
  qed
  have "find (held ?i (Some t)) ?tab = Some (r\<lparr>lease_until := u r\<rparr>)"
    using held_row_unique(2) [of "r\<lparr>lease_until := u r\<rparr>" ?tab ?i "Some t"] uq r
    by (force simp: unique_ids_def held_until update_held_def)
  then have fj: "fail_job ?i (Some t) e (Some c) b n ?tab =
      (Some (failed n c b (r\<lparr>lease_until := u r\<rparr>)), map (\<lambda>p. if p = r then failed n c b r else p) tab)" for e c b n
    using fl by (simp add: fail_job_def Let_def)
  have st: "job_state (failed n c b (r\<lparr>lease_until := x\<rparr>)) = job_state (failed n c b r)" for n c b x
    by (simp add: failed_def spent_def)
  show ?thesis
  proof (cases outcome)
    case None
    have "complete_job ?i t (clk 1) ?tab = (True, map (\<lambda>p. if p = r then completed (clk 1) r else p) tab)"
      using own1 count_held [OF uq] comp by (simp add: complete_job_def owns_lease_def)
    with None t h hb show ?thesis
      by (simp add: execute_job_def Let_def settle_run_def) (simp add: table_port_def)
  next
    case (Some e)
    with t h hb show ?thesis
      by (simp add: execute_job_def Let_def settle_run_def fail_run_def failure_category_def)
        (simp add: table_port_def fj st)
  qed
qed

subsection \<open>Witnesses\<close>

definition demo_options :: runner_options where
  "demo_options = \<lparr>o_concurrency = None, o_pollIntervalMs = None, o_leaseMs = Some 1000, o_leaseRenewMs = None\<rparr>"

definition demo_config :: runner_config where "demo_config = runner_config_of demo_options"

lemma demo_config: "leaseMs demo_config = 1000" "concurrency demo_config = 2"
  by (simp_all add: demo_config_def runner_config_of_def demo_options_def or_else_def Let_def MAX_CONCURRENCY_def)

definition demo_job :: job_row where "demo_job = leased 0 ''t'' 1000 demo_row"

definition demo_boot :: runner_sys where
  "demo_boot = \<lparr>queue = \<lparr>queue_tab = [demo_row], claims = []\<rparr>, claiming = None, active = [], stopping = False, ticks = 0,
     lastIdleLogAt = 0, mine = [], stranded = []\<rparr>"

definition demo_busy :: runner_sys where
  "demo_busy = \<lparr>queue = \<lparr>queue_tab = [demo_job], claims = [(''1'', ''t'')]\<rparr>, claiming = None, active = [demo_job],
     stopping = False, ticks = 1, lastIdleLogAt = 0, mine = [''t''], stranded = []\<rparr>"

lemma demo_claim2: "claimDueJobs 2 0 1000 ''t'' {} [demo_row] = (Inr [demo_job], [demo_job])"
  unfolding demo_job_def by code_simp

lemma demo_job_fields: "job_id demo_job = ''1''" "job_kind demo_job = ''k''" "lease_token demo_job = Some ''t''"
    "job_state demo_job = Running"
  by (simp_all add: demo_job_def leased_def demo_row_def new_row_def demo_values_def)

lemma demo_busy_reach: "runner_reach demo_config demo_busy"
proof -
  have boot: "runner_reach demo_config demo_boot" unfolding demo_boot_def by (rule runner_reach.boot) (rule demo_queued)
  have start: "runner_step demo_config demo_boot (demo_boot\<lparr>claiming := Some 2\<rparr>)"
    using runner_step.start [of demo_config demo_boot]
    by (simp add: tick_start_def demo_boot_def available_def demo_config)
  have "snd (tick_answer demo_config 0 0 ''t'' {} No_fault (demo_boot\<lparr>claiming := Some 2\<rparr>)) = demo_busy"
    by (simp add: tick_answer_def demo_boot_def demo_config demo_claim2 tick_log_of_def demo_busy_def demo_job_fields)
  then obtain l where "tick_answer demo_config 0 0 ''t'' {} No_fault (demo_boot\<lparr>claiming := Some 2\<rparr>) = (l, demo_busy)"
    by (metis surj_pair snd_conv)
  moreover have "''t'' \<notin> snd ` set (claims (queue (demo_boot\<lparr>claiming := Some 2\<rparr>)))" by (simp add: demo_boot_def)
  ultimately have "runner_step demo_config (demo_boot\<lparr>claiming := Some 2\<rparr>) demo_busy" using runner_step.answer by blast
  then show ?thesis using runner_reach.step [OF runner_reach.step [OF boot start]] by blast
qed

theorem concurrency_respected_witness: "length (active demo_busy) = 1 \<and> length (active demo_busy) \<le> 16"
  using concurrency_respected [OF demo_busy_reach [unfolded demo_config_def]] by (simp add: demo_busy_def)

definition demo_clock :: "nat \<Rightarrow> int" where "demo_clock k = int k"

definition db_down :: thrown where "db_down = Error_thrown Plain_class ''Error'' (Some ''08006'')"

definition demo_stopped :: runner_sys where
  "demo_stopped = \<lparr>queue = \<lparr>queue_tab = [demo_job], claims = [(''1'', ''t'')]\<rparr>, claiming = None, active = [],
     stopping = True, ticks = 1, lastIdleLogAt = 0, mine = [''t''], stranded = [(''1'', ''t'')]\<rparr>"

text \<open>The database goes down while the job runs: neither its completion nor its failure can be recorded.\<close>

theorem shutdown_strands_no_lease_witness:
  "runner_stopped demo_stopped \<and> owns_lease (queue_tab (queue demo_stopped)) ''1'' ''t'' \<and> (''1'', ''t'') \<in> set (stranded demo_stopped)"
proof -
  have "runner_reach demo_config (demo_busy\<lparr>stopping := True\<rparr>)"
    by (rule runner_reach.step [OF demo_busy_reach]) (rule runner_step.stop)
  moreover have "run_finished (Refused db_down) (Refused db_down) demo_job demo_job None demo_clock (demo_busy\<lparr>stopping := True\<rparr>) =
      ([Recording_failed ''1'' ''k'' Plain_error 4], demo_stopped)"
    by (simp add: run_finished_def settle_run_def fail_run_def table_port_def demo_job_fields demo_busy_def demo_stopped_def
        db_down_def demo_clock_def lost_record_def Let_def)
  ultimately have reach: "runner_reach demo_config demo_stopped"
    using runner_reach.step runner_step.finish [of demo_job "demo_busy\<lparr>stopping := True\<rparr>"] by (fastforce simp: demo_busy_def)
  have st: "runner_stopped demo_stopped" by (simp add: runner_stopped_def demo_stopped_def)
  have own: "owns_lease (queue_tab (queue demo_stopped)) ''1'' ''t''"
    by (simp add: owns_lease_def demo_stopped_def held_def demo_job_fields)
  have "''t'' \<in> set (mine demo_stopped)" by (simp add: demo_stopped_def)
  from shutdown_strands_no_lease [OF reach [unfolded demo_config_def] st rtranclp.rtrancl_refl this own] st own
  show ?thesis by simp
qed

definition demo_handler :: "job_table handler" where
  "demo_handler j = ([Beat 300, Beat 600], j\<lparr>job_id := ''other''\<rparr>, Some (Error_thrown Terminal_class ''MaintenanceTerminalError'' None))"

theorem handler_outcome_recorded_witness:
  "snd (execute_job (table_port No_fault No_fault No_fault) [''k'' \<mapsto> demo_handler] 1000 demo_clock demo_job [demo_job]) =
     [demo_job\<lparr>job_state := Dead_letter, lease_token := None, lease_until := None, last_error := Some Terminal,
        terminal_at := Some 3, dead_lettered_at := Some 3\<rparr>]"
proof -
  have "unique_ids [demo_job]" "held (job_id demo_job) (Some ''t'') demo_job"
    by (simp_all add: unique_ids_def held_def demo_job_fields)
  moreover have "[''k'' \<mapsto> demo_handler] (job_kind demo_job) = Some demo_handler" by (simp add: demo_job_fields)
  moreover have "demo_handler demo_job = (map Beat [300, 600], demo_job\<lparr>job_id := ''other''\<rparr>,
      Some (Error_thrown Terminal_class ''MaintenanceTerminalError'' None))" by (simp add: demo_handler_def)
  ultimately show ?thesis
    using handler_outcome_recorded [of "[demo_job]" demo_job demo_job "''t''" "[''k'' \<mapsto> demo_handler]" demo_handler "[300, 600]"
        "demo_job\<lparr>job_id := ''other''\<rparr>" "Some (Error_thrown Terminal_class ''MaintenanceTerminalError'' None)" 1000 demo_clock]
    by (simp add: demo_job_fields failure_category_def isMaintenanceTerminalError_def failed_def spent_def demo_clock_def Let_def)
qed

text \<open>The completion takes effect while its answer is lost: the failure recorded instead finds no lease.\<close>

theorem run_gives_up_its_lease_witness:
  "\<exists>tab'. execute_job (table_port No_fault (Answer_lost db_down) No_fault) [''k'' \<mapsto> \<lambda>j. ([], j, None)] 1000 demo_clock demo_job
     [demo_job] = ([Run_failed ''1'' ''k'' None Plain_error (Some ''Error'', Some ''08006'') 4], tab') \<and> \<not> owns_lease tab' ''1'' ''t''"
proof -
  have h: "held ''1'' (Some ''t'') demo_job" by (simp add: held_def demo_job_fields)
  have "held ''1'' (Some ''t'') (completed 1 demo_job) = False" by (simp add: held_def completed_def)
  moreover have "complete_job ''1'' ''t'' 1 [demo_job] = (True, [completed 1 demo_job])"
    using h by (simp add: complete_job_def update_held_def)
  moreover have "MAINTENANCE_ERROR_CODE_PATTERN ''08006''" by code_simp
  ultimately have e: "execute_job (table_port No_fault (Answer_lost db_down) No_fault) [''k'' \<mapsto> \<lambda>j. ([], j, None)] 1000 demo_clock
      demo_job [demo_job] = ([Run_failed ''1'' ''k'' None Plain_error (Some ''Error'', Some ''08006'') 4], [completed 1 demo_job])"
    by (simp add: execute_job_def settle_run_def fail_run_def table_port_def fail_job_def update_held_def demo_job_fields
        demo_clock_def db_down_def safeMaintenanceErrorIdentity_def isMaintenanceTerminalError_def Let_def)
  have "unique_ids [demo_job]" by (simp add: unique_ids_def)
  from run_gives_up_its_lease [OF this e _ demo_job_fields(3)] e show ?thesis
    by (auto simp: demo_job_fields lost_record_def)
qed

end
