(* ===== verification/ContextPackBudget.thy ===== *)
theory ContextPackBudget
  imports Complex_Main Json
begin

text \<open>
  The budget of a context pack (\<open>server/tools/context-pack-budget.ts\<close>): how a section is fitted into the
  characters that are left, measured on the JSON that is sent. A section is a JSON object; a caller
  without a budget leaves \<open>None\<close>, JavaScript's \<open>Infinity\<close>. What TypeScript declares an array is one; the
  model reads anything else as empty. \<open>JSON.stringify\<close> is \<open>stringify\<close> of \<open>Json\<close>.
\<close>

type_synonym chars = "int option"

definition CHARS_PER_TOKEN :: int where "CHARS_PER_TOKEN = 4"

definition CONTEXT_PACK_SECTION_PRIORITY :: "string list" where
  "CONTEXT_PACK_SECTION_PRIORITY = [''working_set'', ''recovery'', ''durable_lane_context'', ''durable_memory'',
     ''profile_guidance'', ''process_guidance'', ''repo_facts'', ''pointers'', ''candidate_memory'']"

definition serializedLength :: "json \<Rightarrow> int" where
  "serializedLength j = int (json_length j)"

definition sectionFrameCost :: "string \<Rightarrow> bool \<Rightarrow> int" where
  "sectionFrameCost key isFirstAdmitted = int (length key) + 3 + (if isFirstAdmitted then 0 else 1)"

definition fits :: "json_object \<Rightarrow> chars \<Rightarrow> bool" where
  "fits sec remaining = (case remaining of None \<Rightarrow> True | Some n \<Rightarrow> serializedLength (JObj sec) \<le> n)"

definition array_of :: "json option \<Rightarrow> json list" where
  "array_of v = (case v of Some (JArr xs) \<Rightarrow> xs | _ \<Rightarrow> [])"

definition items_of :: "json_object \<Rightarrow> json list" where
  "items_of sec = array_of (get_member ''items'' sec)"

definition member_of :: "string \<Rightarrow> json \<Rightarrow> json option" where
  "member_of k j = (case j of JObj kvs \<Rightarrow> get_member k kvs | _ \<Rightarrow> None)"

definition string_of :: "json option \<Rightarrow> string option" where
  "string_of v = (case v of Some (JStr s) \<Rightarrow> Some s | _ \<Rightarrow> None)"

subsection \<open>Dropping entries until the section fits\<close>

text \<open>The loop the fitters share: drop one entry from one end, rebuild, measure; \<open>None\<close> when even the
  section without entries does not fit.\<close>

definition drop_one :: "bool \<Rightarrow> 'a list \<Rightarrow> 'a list" where
  "drop_one from_tail kept = (if from_tail then butlast kept else tl kept)"

function shed :: "(json list \<Rightarrow> json_object) \<Rightarrow> chars \<Rightarrow> bool \<Rightarrow> json list \<Rightarrow> json list option" where
  "shed build remaining from_tail kept =
     (if kept = [] then None
      else let rest = drop_one from_tail kept
           in if fits (build rest) remaining then Some rest else shed build remaining from_tail rest)"
  by pat_completeness auto
termination
  by (relation "measure (\<lambda>(build, remaining, from_tail, kept). length kept)") (auto simp: drop_one_def)

declare shed.simps [simp del]

definition with_items :: "json_object \<Rightarrow> string list \<Rightarrow> json list \<Rightarrow> json_object" where
  "with_items sec countKeys kept =
     fold (\<lambda>k s. set_member k (jnat (length kept)) s) countKeys (set_member ''items'' (JArr kept) sec)"

record fitted =
  fit_section :: json_object
  fit_truncated :: bool
  fit_starved :: bool

definition fitItemSection :: "json_object \<Rightarrow> string list \<Rightarrow> chars \<Rightarrow> bool \<Rightarrow> fitted" where
  "fitItemSection sec countKeys remaining from_tail =
     (if fits sec remaining then \<lparr>fit_section = sec, fit_truncated = False, fit_starved = False\<rparr>
      else case shed (with_items sec countKeys) remaining from_tail (items_of sec) of
          Some kept \<Rightarrow> \<lparr>fit_section = with_items sec countKeys kept, fit_truncated = True, fit_starved = (kept = [])\<rparr>
        | None \<Rightarrow> \<lparr>fit_section = with_items sec countKeys [], fit_truncated = True, fit_starved = True\<rparr>)"

text \<open>\<open>reconcile\<close> of the ranked fitter: it stamps the section after it was measured.\<close>

definition stamp :: "json_object \<Rightarrow> json_object" where
  "stamp sec =
     (let marked = set_member ''truncated'' (JBool True) sec
      in if items_of sec = [] then set_member ''empty_reason'' (JStr ''whole_pack_budget'') marked else marked)"

definition fitRankedItemSection :: "json_object \<Rightarrow> string list \<Rightarrow> chars \<Rightarrow> fitted" where
  "fitRankedItemSection sec countKeys remaining =
     (let f = fitItemSection sec countKeys remaining True
      in if fit_truncated f then f\<lparr>fit_section := stamp (fit_section f)\<rparr> else f)"

subsection \<open>The durable lane\<close>

text \<open>A lane section: its \<open>lane\<close> object, its events, oldest first, and the checkpoint inside the lane.\<close>

definition lane_of :: "json_object \<Rightarrow> json_object option" where
  "lane_of sec = (case get_member ''lane'' sec of Some (JObj kvs) \<Rightarrow> Some kvs | _ \<Rightarrow> None)"

definition context_md :: "json_object option \<Rightarrow> json" where
  "context_md lane = (case lane of None \<Rightarrow> JNull
     | Some kvs \<Rightarrow> (case get_member ''current_context_md'' kvs of None \<Rightarrow> JNull | Some v \<Rightarrow> v))"

definition rebuildDurableLaneSection :: "json_object \<Rightarrow> json_object option \<Rightarrow> json \<Rightarrow> json list \<Rightarrow> json_object" where
  "rebuildDurableLaneSection sec lane md keptEvents =
     (let counted = set_member ''event_count'' (jnat (length keptEvents)) (set_member ''events'' (JArr keptEvents) sec);
          laned = (case lane of Some kvs \<Rightarrow> set_member ''lane'' (JObj (set_member ''current_context_md'' md kvs)) counted
            | None \<Rightarrow> counted)
      in set_member ''truncated'' (JBool True) laned)"

definition dropOldestDurableLaneEvents ::
  "json_object \<Rightarrow> json_object option \<Rightarrow> json list \<Rightarrow> json \<Rightarrow> chars \<Rightarrow> json list option" where
  "dropOldestDurableLaneEvents sec lane events md remaining =
     shed (rebuildDurableLaneSection sec lane md) remaining False events"

text \<open>The binary search; \<open>ok mid\<close> is the measurement of the prefix of length \<open>mid\<close>.\<close>

function largest_prefix :: "(nat \<Rightarrow> bool) \<Rightarrow> nat \<Rightarrow> nat \<Rightarrow> nat" where
  "largest_prefix ok low high =
     (if low < high then
        let mid = (low + high + 1) div 2
        in if ok mid then largest_prefix ok mid high else largest_prefix ok low (mid - 1)
      else low)"
  by pat_completeness auto
termination
  by (relation "measure (\<lambda>(ok, low, high). high - low)") auto

declare largest_prefix.simps [simp del]

definition shrinkDurableLaneCheckpoint :: "json_object \<Rightarrow> json_object option \<Rightarrow> json \<Rightarrow> chars \<Rightarrow> json" where
  "shrinkDurableLaneCheckpoint sec lane md remaining =
     (case md of
        JStr s \<Rightarrow>
          if s = [] then md
          else let low = largest_prefix (\<lambda>mid. fits (rebuildDurableLaneSection sec lane (JStr (take mid s)) []) remaining)
                 0 (length s)
               in if low > 0 then JStr (take low s) else JNull
      | _ \<Rightarrow> md)"

type_synonym citations = "json list"

definition kept_citation_ids :: "json list \<Rightarrow> string set" where
  "kept_citation_ids xs = set (List.map_filter (\<lambda>x. string_of (member_of ''citation_id'' x)) xs)"

definition reconcileDurableCitations :: "citations \<Rightarrow> json list \<Rightarrow> citations" where
  "reconcileDurableCitations cs keptEvents =
     filter (\<lambda>c. if member_of ''kind'' c = Some (JStr ''session_event'')
                 then (case string_of (member_of ''id'' c) of Some s \<Rightarrow> s \<in> kept_citation_ids keptEvents | None \<Rightarrow> False)
                 else True) cs"

definition fitDurableLaneSection :: "json_object \<Rightarrow> citations \<Rightarrow> chars \<Rightarrow> json_object \<times> citations \<times> bool" where
  "fitDurableLaneSection sec cs remaining =
     (if fits sec remaining then (sec, cs, False)
      else let events = array_of (get_member ''events'' sec); lane = lane_of sec; md = context_md lane
           in case dropOldestDurableLaneEvents sec lane events md remaining of
                Some kept \<Rightarrow> (rebuildDurableLaneSection sec lane md kept, reconcileDurableCitations cs kept, True)
              | None \<Rightarrow> (rebuildDurableLaneSection sec lane (shrinkDurableLaneCheckpoint sec lane md remaining) [],
                  reconcileDurableCitations cs [], True))"

text \<open>The two reconcilers of items with a \<open>citation_id\<close> are one function.\<close>

definition reconcileCitedItemCitations :: "citations \<Rightarrow> json_object \<Rightarrow> citations" where
  "reconcileCitedItemCitations cs sec =
     filter (\<lambda>c. case string_of (member_of ''id'' c) of
        Some s \<Rightarrow> s \<in> kept_citation_ids (items_of sec) | None \<Rightarrow> False) cs"

definition body_chars :: "string \<Rightarrow> json \<Rightarrow> int" where
  "body_chars k j = (case string_of (member_of k j) of Some s \<Rightarrow> int (length s) | None \<Rightarrow> 0)"

definition durableLaneContentChars :: "json_object \<Rightarrow> int" where
  "durableLaneContentChars sec =
     (case lane_of sec of Some kvs \<Rightarrow> body_chars ''current_context_md'' (JObj kvs) | None \<Rightarrow> 0) +
     sum_list (map (body_chars ''content'') (array_of (get_member ''events'' sec)))"

definition durableMemoryContentChars :: "json_object \<Rightarrow> int" where
  "durableMemoryContentChars sec = sum_list (map (body_chars ''content'') (items_of sec))"

subsection \<open>What a member costs\<close>

definition member_length :: "string \<times> json \<Rightarrow> nat" where
  "member_length m = length (quote (fst m)) + 1 + json_length (snd m)"

lemma json_length_object:
  "json_length (JObj kvs) = 2 + sum_list (map member_length kvs) + (length kvs - 1)"
  by (simp add: json_length_def length_join comp_def member_length_def [abs_def])

lemma json_length_pos: "1 \<le> json_length (JObj kvs)" "json_length (JStr s) = length (quote s)"
  by (simp_all add: json_length_object json_length_def)

lemma update_present:
  "map_of kvs k = Some w \<Longrightarrow> sum_list (map member_length (AList.update k v kvs)) + json_length w =
     sum_list (map member_length kvs) + json_length v \<and> length (AList.update k v kvs) = length kvs"
  by (induction kvs) (auto simp: member_length_def split: if_splits)

lemma update_absent: "map_of kvs k = None \<Longrightarrow> AList.update k v kvs = kvs @ [(k, v)]"
  by (induction kvs) (auto split: if_splits)

lemma set_member_present:
  assumes "get_member k sec = Some w"
  shows "serializedLength (JObj (set_member k v sec)) = serializedLength (JObj sec) - serializedLength w + serializedLength v"
proof -
  have "map_of sec k = Some w" using assms by (simp add: get_member_def)
  from update_present [OF this, of v] show ?thesis
    by (simp add: serializedLength_def json_length_object set_member_def)
qed

lemma set_member_absent:
  assumes "get_member k sec = None"
  shows "serializedLength (JObj (set_member k v sec)) =
    serializedLength (JObj sec) + int (length (quote k)) + 1 + serializedLength v + (if sec = [] then 0 else 1)"
proof -
  have "map_of sec k = None" using assms by (simp add: get_member_def)
  from update_absent [OF this, of v] show ?thesis
    by (cases sec) (simp_all add: serializedLength_def json_length_object set_member_def member_length_def)
qed

text \<open>So a section's length depends on one member through that member's length only.\<close>

lemma set_member_length:
  "\<exists>c. \<forall>v. serializedLength (JObj (set_member k v sec)) = c + serializedLength v"
proof (cases "get_member k sec")
  case None
  then show ?thesis using set_member_absent by (intro exI allI) (simp add: algebra_simps)
next
  case (Some w)
  then show ?thesis using set_member_present [OF Some]
    by (intro exI [of _ "serializedLength (JObj sec) - serializedLength w"]) simp
qed

lemma get_set_member: "get_member k (set_member l v sec) = (if k = l then Some v else get_member k sec)"
  by (simp add: get_member_def set_member_def update_conv')

lemma items_with_items:
  assumes "''items'' \<notin> set countKeys"
  shows "items_of (with_items sec countKeys kept) = kept"
proof -
  have "get_member ''items'' (fold (\<lambda>k s. set_member k (jnat n) s) countKeys s0) = get_member ''items'' s0" for n s0
    using assms by (induction countKeys arbitrary: s0) (auto simp: get_set_member)
  then show ?thesis by (simp add: items_of_def with_items_def get_set_member array_of_def)
qed

subsection \<open>Shedding keeps the longest part that fits\<close>

definition part :: "bool \<Rightarrow> nat \<Rightarrow> 'a list \<Rightarrow> 'a list" where
  "part from_tail n xs = (if from_tail then take n xs else drop (length xs - n) xs)"

lemma part_drop_one: "xs \<noteq> [] \<Longrightarrow> n < length xs \<Longrightarrow> part from_tail n (drop_one from_tail xs) = part from_tail n xs"
  by (auto simp: part_def drop_one_def butlast_conv_take min_def drop_Suc [symmetric] drop_drop Suc_diff_Suc)

lemma drop_one_part: "xs \<noteq> [] \<Longrightarrow> drop_one from_tail xs = part from_tail (length xs - 1) xs"
  by (cases xs) (simp_all add: part_def drop_one_def butlast_conv_take)

text \<open>\<open>shed\<close> returns the longest proper part, dropped from its end, that fits, and \<open>None\<close> if not even the
  empty one does.\<close>

lemma shed_longest:
  "case shed build remaining from_tail kept of
     Some rest \<Rightarrow> \<exists>n < length kept. rest = part from_tail n kept \<and> fits (build rest) remaining \<and>
       (\<forall>m. n < m \<and> m < length kept \<longrightarrow> \<not> fits (build (part from_tail m kept)) remaining)
   | None \<Rightarrow> \<forall>m < length kept. \<not> fits (build (part from_tail m kept)) remaining"
proof (induction build remaining from_tail kept rule: shed.induct)
  case (1 build remaining from_tail kept)
  show ?case
  proof (cases "kept = []")
    case True
    then show ?thesis by (simp add: shed.simps)
  next
    case ne: False
    let ?rest = "drop_one from_tail kept"
    have len: "length ?rest = length kept - 1" by (simp add: drop_one_def)
    show ?thesis
    proof (cases "fits (build ?rest) remaining")
      case True
      with ne have "shed build remaining from_tail kept = Some ?rest" by (simp add: shed.simps)
      then show ?thesis using ne True drop_one_part [OF ne] by (auto intro!: exI [of _ "length kept - 1"])
    next
      case False
      with ne have s: "shed build remaining from_tail kept = shed build remaining from_tail ?rest" by (subst shed.simps) simp
      have part: "part from_tail m ?rest = part from_tail m kept" if "m < length ?rest" for m
        using part_drop_one [OF ne, of m] that len by simp
      have top: "m < length kept \<Longrightarrow> m < length ?rest \<or> part from_tail m kept = ?rest" for m
        using drop_one_part [OF ne, of from_tail] len by (cases "m = length kept - 1") auto
      note IH = 1 [OF ne refl False]
      have all: "\<not> fits (build (part from_tail m kept)) remaining"
        if "m < length kept" "\<And>k. k = m \<Longrightarrow> k < length ?rest \<Longrightarrow> \<not> fits (build (part from_tail k ?rest)) remaining" for m
        using top [OF that(1)] that(2) [OF refl] part [of m] False by auto
      show ?thesis
      proof (cases "shed build remaining from_tail ?rest")
        case None
        with IH have "\<forall>m < length ?rest. \<not> fits (build (part from_tail m ?rest)) remaining" by simp
        with all have "\<forall>m < length kept. \<not> fits (build (part from_tail m kept)) remaining" by blast
        then show ?thesis unfolding s None by simp
      next
        case (Some r)
        with IH obtain n where n: "n < length ?rest" "r = part from_tail n ?rest" "fits (build r) remaining"
          "\<forall>m. n < m \<and> m < length ?rest \<longrightarrow> \<not> fits (build (part from_tail m ?rest)) remaining" by auto
        have "\<not> fits (build (part from_tail m kept)) remaining" if "n < m" "m < length kept" for m
          using all [OF that(2)] n(4) that(1) by blast
        moreover have "n < length kept" using n(1) len by simp
        moreover have "r = part from_tail n kept" using n(2) part [OF n(1)] by simp
        ultimately show ?thesis unfolding s Some using n(3) by auto
      qed
    qed
  qed
qed

subsection \<open>The binary search finds the largest prefix\<close>

lemma largest_prefix_spec:
  assumes "low \<le> high" and "\<And>m n. m \<le> n \<Longrightarrow> n \<le> high \<Longrightarrow> ok n \<Longrightarrow> ok m"
  shows "low \<le> largest_prefix ok low high \<and> largest_prefix ok low high \<le> high \<and>
    (low < largest_prefix ok low high \<longrightarrow> ok (largest_prefix ok low high)) \<and>
    (\<forall>n. largest_prefix ok low high < n \<and> n \<le> high \<longrightarrow> \<not> ok n)"
  using assms
proof (induction ok low high rule: largest_prefix.induct)
  case (1 ok low high)
  show ?case
  proof (cases "low < high")
    case False
    with 1(3) show ?thesis by (auto simp: largest_prefix.simps)
  next
    case lt: True
    let ?mid = "(low + high + 1) div 2"
    have mid: "low < ?mid" "?mid \<le> high" using lt by auto
    show ?thesis
    proof (cases "ok ?mid")
      case True
      then have r: "largest_prefix ok low high = largest_prefix ok ?mid high" using lt by (subst largest_prefix.simps) (simp add: Let_def)
      note IH = 1(1) [OF lt refl True mid(2) 1(4)]
      show ?thesis
      proof (cases "?mid < largest_prefix ok ?mid high")
        case True
        with IH r mid show ?thesis by auto
      next
        case False
        with IH have "largest_prefix ok ?mid high = ?mid" by auto
        with IH r mid \<open>ok ?mid\<close> show ?thesis by auto
      qed
    next
      case False
      then have r: "largest_prefix ok low high = largest_prefix ok low (?mid - 1)" using lt by (subst largest_prefix.simps) (simp add: Let_def)
      have le: "low \<le> ?mid - 1" using mid by simp
      have mono: "m \<le> n \<Longrightarrow> n \<le> ?mid - 1 \<Longrightarrow> ok n \<Longrightarrow> ok m" for m n using 1(4) mid(2) by (meson diff_le_self le_trans)
      let ?l = "largest_prefix ok low (?mid - 1)"
      have IH: "low \<le> ?l \<and> ?l \<le> ?mid - 1 \<and> (low < ?l \<longrightarrow> ok ?l) \<and> (\<forall>n. ?l < n \<and> n \<le> ?mid - 1 \<longrightarrow> \<not> ok n)"
        by (rule 1(2) [OF lt refl False le]) (rule mono)
      have "\<not> ok n" if "?mid \<le> n" "n \<le> high" for n using 1(4) [OF that] False by blast
      then have "\<not> ok n" if "largest_prefix ok low (?mid - 1) < n" "n \<le> high" for n
        using IH that by (cases "?mid \<le> n") auto
      moreover have "?l \<le> high" using IH mid by (meson diff_le_self le_trans)
      ultimately show ?thesis unfolding r using IH by blast
    qed
  qed
qed

subsection \<open>What the fitters return\<close>

lemma set_member_ne: "set_member k v sec \<noteq> []"
  by (cases sec) (auto simp: set_member_def)

lemma set_member_shift:
  assumes "get_member k X = get_member k Y" "X = [] \<longleftrightarrow> Y = []"
  shows "serializedLength (JObj (set_member k v X)) - serializedLength (JObj X) =
    serializedLength (JObj (set_member k v Y)) - serializedLength (JObj Y)"
  using assms set_member_absent [of k X v] set_member_absent [of k Y v]
    set_member_present [of k X _ v] set_member_present [of k Y _ v]
  by (cases "get_member k Y") auto

lemma rebuild_length:
  "\<exists>c. \<forall>md. serializedLength (JObj (rebuildDurableLaneSection sec lane md ev)) = c + (if lane = None then 0 else serializedLength md)"
proof (cases lane)
  case None
  then show ?thesis by (auto simp: rebuildDurableLaneSection_def Let_def)
next
  case (Some kvs)
  let ?counted = "set_member ''event_count'' (jnat (length ev)) (set_member ''events'' (JArr ev) sec)"
  let ?X = "\<lambda>md. set_member ''lane'' (JObj (set_member ''current_context_md'' md kvs)) ?counted"
  obtain c1 where c1: "\<And>v. serializedLength (JObj (set_member ''lane'' v ?counted)) = c1 + serializedLength v"
    using set_member_length by blast
  obtain c2 where c2: "\<And>v. serializedLength (JObj (set_member ''current_context_md'' v kvs)) = c2 + serializedLength v"
    using set_member_length by blast
  define d where "d = serializedLength (JObj (set_member ''truncated'' (JBool True) (?X JNull))) - serializedLength (JObj (?X JNull))"
  have dif: "serializedLength (JObj (set_member ''truncated'' (JBool True) (?X md))) - serializedLength (JObj (?X md)) = d" for md
    unfolding d_def by (rule set_member_shift) (simp_all add: get_set_member set_member_ne)
  have X: "serializedLength (JObj (?X md)) = c1 + c2 + serializedLength md" for md by (simp only: c1 c2 add.assoc)
  have "serializedLength (JObj (set_member ''truncated'' (JBool True) (?X md))) = (d + c1 + c2) + serializedLength md" for md
    using dif [of md] X [of md] by linarith
  then show ?thesis unfolding rebuildDurableLaneSection_def Let_def Some
    by (intro exI [of _ "d + c1 + c2"]) simp
qed

lemma quote_take_mono: "m \<le> n \<Longrightarrow> serializedLength (JStr (take m s)) \<le> serializedLength (JStr (take n s))"
proof -
  assume "m \<le> n"
  then have "take n s = take m s @ take (n - m) (drop m s)" by (metis le_add_diff_inverse take_add)
  then show ?thesis by (simp add: serializedLength_def json_length_pos quote_def)
qed

lemma prefix_fits_mono:
  assumes "m \<le> n" "fits (rebuildDurableLaneSection sec lane (JStr (take n s)) ev) remaining"
  shows "fits (rebuildDurableLaneSection sec lane (JStr (take m s)) ev) remaining"
proof -
  obtain c where c: "\<And>md. serializedLength (JObj (rebuildDurableLaneSection sec lane md ev)) =
      c + (if lane = None then 0 else serializedLength md)" using rebuild_length by blast
  show ?thesis using assms(2) quote_take_mono [OF assms(1), of s] by (auto simp: fits_def c split: option.splits)
qed

text \<open>Trimming a lane's checkpoint keeps as much of it as the budget allows: the binary search returns the
  longest prefix with which the section fits, and nothing only when not even one character fits.\<close>

theorem checkpoint_is_longest_fitting_prefix:
  assumes "s \<noteq> []"
  shows "\<exists>n \<le> length s. shrinkDurableLaneCheckpoint sec lane (JStr s) remaining = (if n = 0 then JNull else JStr (take n s)) \<and>
    (n = 0 \<or> fits (rebuildDurableLaneSection sec lane (JStr (take n s)) []) remaining) \<and>
    (\<forall>m. n < m \<and> m \<le> length s \<longrightarrow> \<not> fits (rebuildDurableLaneSection sec lane (JStr (take m s)) []) remaining)"
proof -
  let ?ok = "\<lambda>mid. fits (rebuildDurableLaneSection sec lane (JStr (take mid s)) []) remaining"
  have mono: "\<And>m n. m \<le> n \<Longrightarrow> n \<le> length s \<Longrightarrow> ?ok n \<Longrightarrow> ?ok m" by (rule prefix_fits_mono)
  have "0 \<le> largest_prefix ?ok 0 (length s) \<and> largest_prefix ?ok 0 (length s) \<le> length s \<and>
      (0 < largest_prefix ?ok 0 (length s) \<longrightarrow> ?ok (largest_prefix ?ok 0 (length s))) \<and>
      (\<forall>n. largest_prefix ?ok 0 (length s) < n \<and> n \<le> length s \<longrightarrow> \<not> ?ok n)"
    by (rule largest_prefix_spec) (auto intro: mono)
  then show ?thesis using assms by (intro exI [of _ "largest_prefix ?ok 0 (length s)"]) (simp add: shrinkDurableLaneCheckpoint_def Let_def)
qed

lemma fitItemSection_fits:
  "fit_starved (fitItemSection sec ks remaining tail) \<or> fits (fit_section (fitItemSection sec ks remaining tail)) remaining"
  using shed_longest [where build = "with_items sec ks" and remaining = remaining and from_tail = tail and kept = "items_of sec"]
  by (auto simp: fitItemSection_def split: option.splits)

lemma fitItemSection_untouched:
  "\<not> fit_truncated (fitItemSection sec ks remaining tail) \<Longrightarrow> fit_section (fitItemSection sec ks remaining tail) = sec \<and>
     fits sec remaining \<and> \<not> fit_starved (fitItemSection sec ks remaining tail)"
  by (auto simp: fitItemSection_def split: if_splits option.splits)

text \<open>Which items survive.\<close>

lemma fitItemSection_items:
  assumes "''items'' \<notin> set ks" "fit_truncated (fitItemSection sec ks remaining tail)"
  shows "\<exists>n. n \<le> length (items_of sec) \<and> fit_section (fitItemSection sec ks remaining tail) =
      with_items sec ks (part tail n (items_of sec)) \<and>
    items_of (fit_section (fitItemSection sec ks remaining tail)) = part tail n (items_of sec) \<and>
    (fit_starved (fitItemSection sec ks remaining tail) \<longleftrightarrow> n = 0) \<and>
    (\<forall>m. n < m \<and> m < length (items_of sec) \<longrightarrow> \<not> fits (with_items sec ks (part tail m (items_of sec))) remaining)"
proof (cases "shed (with_items sec ks) remaining tail (items_of sec)")
  case None
  with assms shed_longest [where build = "with_items sec ks" and remaining = remaining and from_tail = tail and kept = "items_of sec"]
  show ?thesis by (intro exI [of _ 0]) (auto simp: fitItemSection_def items_with_items part_def)
next
  case (Some kept)
  with shed_longest [where build = "with_items sec ks" and remaining = remaining and from_tail = tail and kept = "items_of sec"] obtain n where
    n: "n < length (items_of sec)" "kept = part tail n (items_of sec)"
      "\<forall>m. n < m \<and> m < length (items_of sec) \<longrightarrow> \<not> fits (with_items sec ks (part tail m (items_of sec))) remaining" by auto
  have "kept = [] \<longleftrightarrow> n = 0" using n(1,2) by (cases tail) (auto simp: part_def)
  with Some n assms show ?thesis by (intro exI [of _ n]) (auto simp: fitItemSection_def items_with_items split: if_splits)
qed

lemma get_with_items:
  "k \<noteq> ''items'' \<Longrightarrow> k \<notin> set ks \<Longrightarrow> get_member k (with_items sec ks kept) = get_member k sec"
proof -
  assume k: "k \<noteq> ''items''" "k \<notin> set ks"
  have "get_member k (fold (\<lambda>k s. set_member k (jnat n) s) ks s0) = get_member k s0" for n s0
    using k(2) by (induction ks arbitrary: s0) (auto simp: get_set_member)
  with k(1) show ?thesis by (simp add: with_items_def get_set_member)
qed

text \<open>A lane of one checkpoint of ten characters: with 83 characters for the section, four of them stay.\<close>

definition small_checkpoint_section :: json_object where
  "small_checkpoint_section = [(''lane'', JObj [(''current_context_md'', JStr ''abcdefghij'')]), (''events'', JArr []),
     (''event_count'', jnat 0), (''truncated'', JBool False)]"

theorem checkpoint_is_longest_fitting_prefix_witness:
  "(\<exists>n \<le> 10. shrinkDurableLaneCheckpoint small_checkpoint_section (lane_of small_checkpoint_section) (JStr ''abcdefghij'') (Some 83) =
     (if n = 0 then JNull else JStr (take n ''abcdefghij''))) \<and>
   shrinkDurableLaneCheckpoint small_checkpoint_section (lane_of small_checkpoint_section) (JStr ''abcdefghij'') (Some 83) =
     JStr ''abcd''"
proof
  show "\<exists>n \<le> 10. shrinkDurableLaneCheckpoint small_checkpoint_section (lane_of small_checkpoint_section) (JStr ''abcdefghij'') (Some 83) =
     (if n = 0 then JNull else JStr (take n ''abcdefghij''))"
    using checkpoint_is_longest_fitting_prefix [of "''abcdefghij''" small_checkpoint_section "lane_of small_checkpoint_section" "Some 83"]
    by auto
  show "shrinkDurableLaneCheckpoint small_checkpoint_section (lane_of small_checkpoint_section) (JStr ''abcdefghij'') (Some 83) =
     JStr ''abcd''" by code_simp
qed

end
