(* ===== verification/ContextPack.thy ===== *)
theory ContextPack
  imports ContextPackBudget "HOL-Library.Sublist"
begin

text \<open>
  The assembly of a context pack: the allocator (\<open>server/tools/context-pack-allocator.ts\<close>), the admission
  of its sections in priority order (\<open>context-pack-append-sections.ts\<close>,
  \<open>context-pack-recall-sections.ts\<close>, \<open>context-pack-structured-sections.ts\<close>) and the map of sections
  that is sent (\<open>context-pack-payload.ts\<close>, \<open>context-pack-assembly.ts\<close>, \<open>agent-context-pack.ts\<close>).
  The loaders read the database; they are functions of the content allowance they are given.
\<close>

subsection \<open>The allocator\<close>

definition CONTEXT_PACK_ENVELOPE_CHAR_RESERVE :: int where
  "CONTEXT_PACK_ENVELOPE_CHAR_RESERVE = 1200"

record pack_allocator =
  wholePackBudget :: chars
  remainingChars :: chars
  firstSectionAdmitted :: bool
  truncation :: "json list"

definition wholePackBudgetFor :: "int option \<Rightarrow> chars" where
  "wholePackBudgetFor maxTokens =
     map_option (\<lambda>t. max 0 (t * CHARS_PER_TOKEN - CONTEXT_PACK_ENVELOPE_CHAR_RESERVE)) maxTokens"

definition wholePackSerializedLimitFor :: "chars \<Rightarrow> chars" where
  "wholePackSerializedLimitFor b = map_option (max 2) b"

definition createAllocator :: "chars \<Rightarrow> pack_allocator" where
  "createAllocator b = \<lparr>wholePackBudget = b, remainingChars = map_option (\<lambda>n. max 0 (n - 2)) b,
     firstSectionAdmitted = True, truncation = []\<rparr>"

definition servingChars :: "pack_allocator \<Rightarrow> int \<Rightarrow> chars" where
  "servingChars a frame = map_option (\<lambda>n. max 0 (n - frame)) (remainingChars a)"

definition chargeAdmitted :: "pack_allocator \<Rightarrow> json_object \<Rightarrow> int \<Rightarrow> pack_allocator" where
  "chargeAdmitted a body frame =
     a\<lparr>remainingChars := map_option (\<lambda>n. max 0 (n - serializedLength (JObj body) - frame)) (remainingChars a),
       firstSectionAdmitted := False\<rparr>"

definition chars_json :: "chars \<Rightarrow> json" where
  "chars_json b = (case b of None \<Rightarrow> JNull | Some n \<Rightarrow> jnat (nat n))"

definition budget_marker :: "chars \<Rightarrow> string \<Rightarrow> bool \<Rightarrow> json" where
  "budget_marker b source starved =
     JObj ([(''source'', JStr source), (''reason'', JStr ''whole_pack_budget''), (''max_chars'', chars_json b)] @
       (if starved then [(''starved'', JBool True)] else []))"

definition noteBudgetTruncation :: "pack_allocator \<Rightarrow> string \<Rightarrow> bool \<Rightarrow> pack_allocator" where
  "noteBudgetTruncation a source starved =
     a\<lparr>truncation := truncation a @ [budget_marker (wholePackBudget a) source starved]\<rparr>"

definition sectionServing :: "pack_allocator \<Rightarrow> string \<Rightarrow> int \<times> chars \<times> chars" where
  "sectionServing a key =
     (let frame = sectionFrameCost key (firstSectionAdmitted a);
          serving = (if wholePackBudget a = None then None else servingChars a frame)
      in (frame, serving, if wholePackBudget a = None then None else serving))"

definition charsUsed :: "pack_allocator \<Rightarrow> int" where
  "charsUsed a = (case wholePackBudget a of None \<Rightarrow> 0
     | Some b \<Rightarrow> b - (case remainingChars a of Some n \<Rightarrow> max 0 n | None \<Rightarrow> 0))"

subsection \<open>Admission\<close>

definition too_long :: "json_object \<Rightarrow> chars \<Rightarrow> bool" where
  "too_long sec serving = (\<not> fits sec serving)"

definition admitAppendSection ::
  "pack_allocator \<Rightarrow> string \<Rightarrow> json_object option \<Rightarrow> string list \<Rightarrow> json_object option \<times> pack_allocator" where
  "admitAppendSection a key loaded reconciledCounts =
     (case loaded of None \<Rightarrow> (None, a)
      | Some sec \<Rightarrow>
          (let frame = sectionFrameCost key (firstSectionAdmitted a);
               serving = servingChars a frame;
               f = fitItemSection sec reconciledCounts serving False;
               starvedOut = (fit_starved f \<and> too_long (fit_section f) serving);
               a1 = (if starvedOut then a else chargeAdmitted a (fit_section f) frame);
               a2 = (if fit_truncated f then noteBudgetTruncation a1 key (fit_starved f) else a1)
           in (if starvedOut then None else Some (fit_section f), a2)))"

record admission =
  adm_section :: "json_object option"
  adm_citations :: citations
  adm_starvedOut :: bool

definition admitDurableLaneSection ::
  "pack_allocator \<Rightarrow> json_object option \<Rightarrow> citations \<Rightarrow> int \<Rightarrow> chars \<Rightarrow> admission \<times> pack_allocator" where
  "admitDurableLaneSection a loaded cs frame serving =
     (case loaded of None \<Rightarrow> (\<lparr>adm_section = None, adm_citations = [], adm_starvedOut = False\<rparr>, a)
      | Some sec \<Rightarrow>
          if wholePackBudget a = None
          then (\<lparr>adm_section = Some sec, adm_citations = cs, adm_starvedOut = False\<rparr>, chargeAdmitted a sec frame)
          else case fitDurableLaneSection sec cs serving of (sec', cs', truncated) \<Rightarrow>
            if truncated \<and> too_long sec' serving
            then (\<lparr>adm_section = None, adm_citations = [], adm_starvedOut = True\<rparr>,
              noteBudgetTruncation a ''durable_lane_context'' True)
            else (\<lparr>adm_section = Some sec', adm_citations = cs', adm_starvedOut = False\<rparr>,
              (let a1 = chargeAdmitted a sec' frame
               in if truncated then noteBudgetTruncation a1 ''durable_lane_context'' False else a1)))"

definition admitDurableMemorySection ::
  "pack_allocator \<Rightarrow> json_object option \<Rightarrow> citations \<Rightarrow> int \<Rightarrow> chars \<Rightarrow> admission \<times> pack_allocator" where
  "admitDurableMemorySection a loaded cs frame serving =
     (case loaded of None \<Rightarrow> (\<lparr>adm_section = None, adm_citations = [], adm_starvedOut = False\<rparr>, a)
      | Some sec \<Rightarrow>
          if wholePackBudget a = None
          then (\<lparr>adm_section = Some sec, adm_citations = cs, adm_starvedOut = False\<rparr>, chargeAdmitted a sec frame)
          else let f = fitRankedItemSection sec [''item_count''] serving
            in if fit_starved f \<and> too_long (fit_section f) serving
               then (\<lparr>adm_section = None, adm_citations = [], adm_starvedOut = True\<rparr>,
                 noteBudgetTruncation a ''durable_memory'' True)
               else (\<lparr>adm_section = Some (fit_section f), adm_citations = reconcileCitedItemCitations cs (fit_section f),
                      adm_starvedOut = False\<rparr>,
                 (let a1 = chargeAdmitted a (fit_section f) frame
                  in if fit_truncated f then noteBudgetTruncation a1 ''durable_memory'' False else a1)))"

definition reconcileSectionBudget ::
  "pack_allocator \<Rightarrow> json_object option \<Rightarrow> json_object option \<Rightarrow> bool \<Rightarrow> (json_object \<Rightarrow> int) \<Rightarrow> json_object option" where
  "reconcileSectionBudget a loaded sec starvedOut contentChars =
     (case (wholePackBudget a, loaded) of
        (Some b, Some l) \<Rightarrow>
          (case sec of Some s \<Rightarrow> Some (set_member ''content_chars_used'' (jnat (nat (contentChars s))) l)
           | None \<Rightarrow> if starvedOut then Some (set_member ''content_chars_used'' (jnat 0) l) else Some l)
      | _ \<Rightarrow> loaded)"

text \<open>What a structured loader returns, and what they contribute together.\<close>

record fragment =
  frag_section :: "json_object option"
  frag_scopeDenials :: "json list"
  frag_truncation :: "json list"
  frag_degraded :: "json list"
  frag_citations :: citations

record structured =
  st_scopeDenials :: "json list"
  st_degraded :: "json list"
  st_truncation :: "json list"
  st_citations :: citations
  st_sections :: "(string \<times> json_object) list"

definition createStructuredAccumulator :: structured where
  "createStructuredAccumulator = \<lparr>st_scopeDenials = [], st_degraded = [], st_truncation = [], st_citations = [], st_sections = []\<rparr>"

definition stampTrimmedBody :: "json_object \<Rightarrow> json_object" where
  "stampTrimmedBody body =
     (let b = set_member ''truncated'' (JBool True) body
      in if get_member ''item_count'' body = Some (jnat 0) then set_member ''empty_reason'' (JStr ''whole_pack_budget'') b else b)"

definition pushOverflowMarker :: "structured \<Rightarrow> pack_allocator \<Rightarrow> string \<Rightarrow> bool \<Rightarrow> structured" where
  "pushOverflowMarker acc a key starved =
     acc\<lparr>st_truncation := st_truncation acc @ [budget_marker (wholePackBudget a) key starved]\<rparr>"

definition admitStructuredSection ::
  "structured \<Rightarrow> pack_allocator \<Rightarrow> string \<Rightarrow> fragment \<Rightarrow> structured \<times> pack_allocator" where
  "admitStructuredSection acc a key frag =
     (let acc1 = acc\<lparr>st_scopeDenials := st_scopeDenials acc @ frag_scopeDenials frag,
                     st_degraded := st_degraded acc @ frag_degraded frag\<rparr>
      in case frag_section frag of
           None \<Rightarrow> (acc1, a)
         | Some body \<Rightarrow>
             if wholePackBudget a = None
             then (acc1\<lparr>st_sections := st_sections acc1 @ [(key, body)], st_truncation := st_truncation acc1 @ frag_truncation frag,
                     st_citations := st_citations acc1 @ frag_citations frag\<rparr>, a\<lparr>firstSectionAdmitted := False\<rparr>)
             else let frame = sectionFrameCost key (firstSectionAdmitted a);
                      serving = servingChars a frame;
                      f = fitItemSection body [''item_count''] serving True;
                      sec = (if fit_truncated f then stampTrimmedBody (fit_section f) else fit_section f)
                  in if fit_starved f \<and> too_long sec serving then (pushOverflowMarker acc1 a key True, a)
                     else let acc2 = acc1\<lparr>st_sections := st_sections acc1 @ [(key, sec)],
                                st_citations := st_citations acc1 @ reconcileCitedItemCitations (frag_citations frag) sec,
                                st_truncation := st_truncation acc1 @ frag_truncation frag\<rparr>
                          in (if fit_truncated f then pushOverflowMarker acc2 a key False else acc2, chargeAdmitted a sec frame))"

fun admit_all :: "structured \<Rightarrow> pack_allocator \<Rightarrow> (string \<times> fragment) list \<Rightarrow> structured \<times> pack_allocator" where
  "admit_all acc a [] = (acc, a)"
| "admit_all acc a ((key, frag) # rest) =
     (case admitStructuredSection acc a key frag of (acc', a') \<Rightarrow> admit_all acc' a' rest)"

subsection \<open>The finished pack\<close>

definition assembleSections ::
  "json_object option \<Rightarrow> json_object option \<Rightarrow> json_object option \<Rightarrow> json_object option \<Rightarrow>
     (string \<times> json_object) list \<Rightarrow> json_object" where
  "assembleSections ws rcv lane memory structured =
     (let put = (\<lambda>k v obj. case v of Some s \<Rightarrow> set_member k (JObj s) obj | None \<Rightarrow> obj);
          recall = put ''durable_memory'' memory (put ''durable_lane_context'' lane (put ''recovery'' rcv (put ''working_set'' ws [])))
      in fold (\<lambda>(k, s) obj. set_member k (JObj s) obj) structured recall)"

record receipt =
  rc_requested :: "string list option"
  rc_served :: "string list"
  rc_requested_not_served :: "string list"
  rc_not_consulted :: "string list"

definition SECTION_NAMES :: "string list" where
  "SECTION_NAMES = [''working_set'', ''recovery'', ''durable_lane_context'', ''durable_memory'', ''profile_guidance'',
     ''process_guidance'', ''repo_facts'', ''pointers'', ''candidate_memory'']"

definition sectionsReceipt :: "string list option \<Rightarrow> string list \<Rightarrow> receipt" where
  "sectionsReceipt requested served = \<lparr>rc_requested = requested, rc_served = served,
     rc_requested_not_served = (case requested of None \<Rightarrow> [] | Some r \<Rightarrow> filter (\<lambda>n. n \<notin> set served) r),
     rc_not_consulted = (case requested of None \<Rightarrow> filter (\<lambda>n. n \<notin> set served) SECTION_NAMES | Some r \<Rightarrow> [])\<rparr>"

record whole_pack_report =
  wp_content_char_limit :: chars
  wp_content_chars_used :: int
  wp_allocation_order :: "string list"

definition wholePackReport :: "pack_allocator \<Rightarrow> whole_pack_report option" where
  "wholePackReport a = (case wholePackBudget a of None \<Rightarrow> None
     | Some b \<Rightarrow> Some \<lparr>wp_content_char_limit = wholePackSerializedLimitFor (Some b), wp_content_chars_used = charsUsed a,
         wp_allocation_order = CONTEXT_PACK_SECTION_PRIORITY\<rparr>)"

record selection =
  sel_workingSet :: bool
  sel_recovery :: bool
  sel_durableLaneContext :: bool
  sel_durableMemorySection :: bool
  sel_durableMemory :: bool
  sel_profileGuidance :: bool
  sel_processGuidance :: bool
  sel_repoFacts :: bool
  sel_pointers :: bool
  sel_candidateMemory :: bool

definition selectSections :: "string list option \<Rightarrow> bool \<Rightarrow> selection" where
  "selectSections requested include_unreviewed_recovery =
     (let optIn = (\<lambda>name. case requested of Some r \<Rightarrow> name \<in> set r | None \<Rightarrow> False);
          byDefault = (\<lambda>name. case requested of Some r \<Rightarrow> name \<in> set r | None \<Rightarrow> True)
      in \<lparr>sel_workingSet = byDefault ''working_set'',
          sel_recovery = (include_unreviewed_recovery \<and> byDefault ''recovery''),
          sel_durableLaneContext = optIn ''durable_lane_context'',
          sel_durableMemorySection = byDefault ''durable_memory'',
          sel_durableMemory = (byDefault ''durable_memory'' \<or> optIn ''pointers''),
          sel_profileGuidance = optIn ''profile_guidance'', sel_processGuidance = optIn ''process_guidance'',
          sel_repoFacts = optIn ''repo_facts'', sel_pointers = optIn ''pointers'', sel_candidateMemory = optIn ''candidate_memory''\<rparr>)"

text \<open>What the loaders of one request return: the stores read memory, the others the database. A recall loader
  is given its content allowance. \<open>ld_pointers\<close> sees the recall and the section that survived the fit.\<close>

record recall_context =
  ctx_section :: "json_object option"
  ctx_scopeDenials :: "json list"
  ctx_degraded :: "json list"
  ctx_truncation :: "json list"
  ctx_budget :: "json_object option"
  ctx_citations :: citations

record 'p loaders =
  ld_workingSet :: "json_object \<times> json list"
  ld_recovery :: "json_object \<times> json list"
  ld_lane :: "chars \<Rightarrow> recall_context"
  ld_memory :: "chars \<Rightarrow> recall_context \<times> 'p list"
  ld_profile :: fragment
  ld_process :: fragment
  ld_repoFacts :: fragment
  ld_pointers :: "'p list \<Rightarrow> json_object option \<Rightarrow> fragment"
  ld_candidates :: fragment

definition recall_section :: "recall_context option \<Rightarrow> json_object option" where
  "recall_section c = (case c of Some x \<Rightarrow> ctx_section x | None \<Rightarrow> None)"

definition recall_citations :: "recall_context option \<Rightarrow> citations" where
  "recall_citations c = (case c of Some x \<Rightarrow> (case ctx_section x of Some s \<Rightarrow> ctx_citations x | None \<Rightarrow> []) | None \<Rightarrow> [])"

text \<open>\<open>foldSharedRecallWarnings\<close>: the warnings of a recall whose section was not requested.\<close>

definition fold_warnings :: "bool \<Rightarrow> recall_context option \<Rightarrow> fragment \<Rightarrow> fragment" where
  "fold_warnings pending c frag =
     (case (pending, c) of
        (True, Some x) \<Rightarrow> frag\<lparr>frag_scopeDenials := frag_scopeDenials frag @ ctx_scopeDenials x,
          frag_degraded := frag_degraded frag @ ctx_degraded x\<rparr>
      | _ \<Rightarrow> frag)"

definition structured_requests ::
  "'p loaders \<Rightarrow> selection \<Rightarrow> recall_context option \<Rightarrow> 'p list \<Rightarrow> json_object option \<Rightarrow> (string \<times> fragment) list" where
  "structured_requests ld sel c pool memory =
     (let pending = (sel_durableMemory sel \<and> \<not> sel_durableMemorySection sel)
      in (if sel_profileGuidance sel then [(''profile_guidance'', ld_profile ld)] else []) @
         (if sel_processGuidance sel then [(''process_guidance'', ld_process ld)] else []) @
         (if sel_repoFacts sel then [(''repo_facts'', ld_repoFacts ld)] else []) @
         (if sel_pointers sel then [(''pointers'', fold_warnings pending c (ld_pointers ld pool memory))] else []) @
         (if sel_candidateMemory sel
          then [(''candidate_memory'', fold_warnings (pending \<and> \<not> sel_pointers sel) c (ld_candidates ld))] else []))"

record pack_payload =
  pk_sections :: json_object
  pk_receipt :: receipt
  pk_scope_denials :: "json list"
  pk_degraded :: "json list"
  pk_truncation :: "json list"
  pk_whole_pack :: "whole_pack_report option"
  pk_lane_budget :: "json_object option"
  pk_memory_budget :: "json_object option"
  pk_citations :: citations

definition buildAgentContextPackPayload ::
  "string list option \<Rightarrow> bool \<Rightarrow> int option \<Rightarrow> 'p loaders \<Rightarrow> pack_payload" where
  "buildAgentContextPackPayload requested include_recovery max_tokens ld =
     (let sel = selectSections requested include_recovery;
          a0 = createAllocator (wholePackBudgetFor max_tokens);
          (ws, a1) = admitAppendSection a0 ''working_set'' (if sel_workingSet sel then Some (fst (ld_workingSet ld)) else None)
            [''item_count''];
          (rcv, a2) = admitAppendSection a1 ''recovery'' (if sel_recovery sel then Some (fst (ld_recovery ld)) else None)
            [''item_count'', ''pending_count''];
          (lframe, lserving, llimit) = sectionServing a2 ''durable_lane_context'';
          lctx = (if sel_durableLaneContext sel then Some (ld_lane ld llimit) else None);
          (lane, a3) = admitDurableLaneSection a2 (recall_section lctx) (recall_citations lctx) lframe lserving;
          (mframe, mserving, mlimit) = sectionServing a3 ''durable_memory'';
          recalled = (if sel_durableMemory sel then Some (ld_memory ld mlimit) else None);
          mctx = map_option fst recalled;
          requestedMemory = (if sel_durableMemorySection sel then recall_section mctx else None);
          (memory, a4) = admitDurableMemorySection a3 requestedMemory
            (if sel_durableMemorySection sel then recall_citations mctx else []) mframe mserving;
          (st, a5) = admit_all createStructuredAccumulator a4
            (structured_requests ld sel mctx (case recalled of Some (c, pool) \<Rightarrow> pool | None \<Rightarrow> []) (adm_section memory));
          sections = assembleSections ws rcv (adm_section lane) (adm_section memory) (st_sections st)
      in \<lparr>pk_sections = sections,
          pk_receipt = sectionsReceipt requested (map fst sections),
          pk_scope_denials = (if sel_workingSet sel then snd (ld_workingSet ld) else []) @
            (if sel_recovery sel then snd (ld_recovery ld) else []) @
            (case lctx of Some c \<Rightarrow> ctx_scopeDenials c | None \<Rightarrow> []) @
            (case mctx of Some c \<Rightarrow> if sel_durableMemorySection sel then ctx_scopeDenials c else [] | None \<Rightarrow> []) @
            st_scopeDenials st,
          pk_degraded = (case lctx of Some c \<Rightarrow> ctx_degraded c | None \<Rightarrow> []) @
            (case mctx of Some c \<Rightarrow> if sel_durableMemorySection sel then ctx_degraded c else [] | None \<Rightarrow> []) @ st_degraded st,
          pk_truncation = (case (adm_section lane, lctx) of (Some s, Some c) \<Rightarrow> ctx_truncation c | _ \<Rightarrow> []) @
            (case (adm_section memory, mctx) of (Some s, Some c) \<Rightarrow> ctx_truncation c | _ \<Rightarrow> []) @
            truncation a5 @ st_truncation st,
          pk_whole_pack = wholePackReport a5,
          pk_lane_budget = reconcileSectionBudget a5 (case lctx of Some c \<Rightarrow> ctx_budget c | None \<Rightarrow> None) (adm_section lane)
            (adm_starvedOut lane) durableLaneContentChars,
          pk_memory_budget = (if sel_durableMemorySection sel
            then reconcileSectionBudget a5 (case mctx of Some c \<Rightarrow> ctx_budget c | None \<Rightarrow> None) (adm_section memory)
              (adm_starvedOut memory) durableMemoryContentChars else None),
          pk_citations = adm_citations lane @ adm_citations memory @ st_citations st\<rparr>)"

subsection \<open>The running total is the serialized length\<close>

definition plain_key :: "string \<Rightarrow> bool" where
  "plain_key k \<longleftrightarrow> length (quote k) = length k + 2"

definition as_members :: "(string \<times> json_object) list \<Rightarrow> json_object" where
  "as_members secs = map (\<lambda>(k, s). (k, JObj s)) secs"

definition members_length :: "(string \<times> json_object) list \<Rightarrow> int" where
  "members_length secs = sum_list (map (\<lambda>(k, s). int (length k) + 3 + serializedLength (JObj s)) secs) + int (length secs - 1)"

lemma members_length_object:
  "\<forall>(k, s) \<in> set secs. plain_key k \<Longrightarrow> serializedLength (JObj (as_members secs)) = 2 + members_length secs"
proof -
  assume "\<forall>(k, s) \<in> set secs. plain_key k"
  then have "int (sum_list (map member_length (as_members secs))) =
      sum_list (map (\<lambda>(k, s). int (length k) + 3 + serializedLength (JObj s)) secs)"
    by (induction secs) (auto simp: as_members_def member_length_def plain_key_def serializedLength_def)
  then show ?thesis by (simp add: serializedLength_def json_length_object members_length_def as_members_def)
qed

lemma members_length_snoc:
  "members_length (secs @ [(k, s)]) = members_length secs + sectionFrameCost k (secs = []) + serializedLength (JObj s)"
  by (cases secs) (simp_all add: members_length_def sectionFrameCost_def)

definition alloc_ok :: "int \<Rightarrow> pack_allocator \<Rightarrow> (string \<times> json_object) list \<Rightarrow> bool" where
  "alloc_ok B a secs \<longleftrightarrow> wholePackBudget a = Some B \<and> firstSectionAdmitted a = (secs = []) \<and>
     remainingChars a = Some (max 0 (B - 2) - members_length secs) \<and> members_length secs \<le> max 0 (B - 2) \<and>
     (\<forall>(k, s) \<in> set secs. plain_key k)"

lemma alloc_ok_create: "alloc_ok B (createAllocator (Some B)) []"
  by (simp add: alloc_ok_def createAllocator_def members_length_def)

lemma alloc_ok_note [simp]: "alloc_ok B (noteBudgetTruncation a k b) secs = alloc_ok B a secs"
  by (simp add: alloc_ok_def noteBudgetTruncation_def)

lemma object_length_ge_2: "2 \<le> serializedLength (JObj s)"
  by (simp add: serializedLength_def json_length_object)

lemma alloc_ok_charge:
  assumes "alloc_ok B a secs" "frame = sectionFrameCost k (firstSectionAdmitted a)" "fits s (servingChars a frame)" "plain_key k"
  shows "alloc_ok B (chargeAdmitted a s frame) (secs @ [(k, s)])"
  using assms object_length_ge_2 [of s]
  by (auto simp: alloc_ok_def chargeAdmitted_def servingChars_def fits_def members_length_snoc)

definition opt_member :: "string \<Rightarrow> json_object option \<Rightarrow> (string \<times> json_object) list" where
  "opt_member k v = (case v of Some s \<Rightarrow> [(k, s)] | None \<Rightarrow> [])"

lemma alloc_ok_append:
  assumes ok: "alloc_ok B a secs" and k: "plain_key k" and adm: "admitAppendSection a k loaded ks = (out, a')"
  shows "alloc_ok B a' (secs @ opt_member k out)"
proof (cases loaded)
  case None
  with adm ok show ?thesis by (simp add: admitAppendSection_def opt_member_def)
next
  case (Some sec)
  let ?frame = "sectionFrameCost k (firstSectionAdmitted a)"
  let ?f = "fitItemSection sec ks (servingChars a ?frame) False"
  show ?thesis
  proof (cases "fit_starved ?f \<and> too_long (fit_section ?f) (servingChars a ?frame)")
    case True
    with adm Some ok show ?thesis by (auto simp: admitAppendSection_def Let_def opt_member_def)
  next
    case False
    then have "fits (fit_section ?f) (servingChars a ?frame)"
      using fitItemSection_fits [of sec ks "servingChars a ?frame" False] by (auto simp: too_long_def)
    with alloc_ok_charge [OF ok refl this k] False adm Some show ?thesis
      by (auto simp: admitAppendSection_def Let_def opt_member_def)
  qed
qed

lemma serving_bounded: "alloc_ok B a secs \<Longrightarrow> sectionServing a k = (frame, serving, limit) \<Longrightarrow>
    frame = sectionFrameCost k (firstSectionAdmitted a) \<and> serving = servingChars a frame"
  by (auto simp: sectionServing_def Let_def alloc_ok_def)

lemma alloc_ok_lane:
  assumes ok: "alloc_ok B a secs" and srv: "sectionServing a ''durable_lane_context'' = (frame, serving, limit)"
    and adm: "admitDurableLaneSection a loaded cs frame serving = (out, a')"
  shows "alloc_ok B a' (secs @ opt_member ''durable_lane_context'' (adm_section out))"
proof (cases loaded)
  case None
  with adm ok show ?thesis by (auto simp: admitDurableLaneSection_def opt_member_def)
next
  case (Some sec)
  have B: "wholePackBudget a = Some B" using ok by (simp add: alloc_ok_def)
  note s = serving_bounded [OF ok srv]
  have key: "plain_key ''durable_lane_context''" by code_simp
  obtain sec' cs' tr where f: "fitDurableLaneSection sec cs serving = (sec', cs', tr)" by (metis prod_cases3)
  show ?thesis
  proof (cases "tr \<and> too_long sec' serving")
    case True
    with adm Some f B ok show ?thesis by (auto simp: admitDurableLaneSection_def opt_member_def)
  next
    case False
    have "\<not> tr \<Longrightarrow> fits sec' serving" using f by (auto simp: fitDurableLaneSection_def Let_def split: if_splits option.splits)
    with False have "fits sec' (servingChars a frame)" using s by (auto simp: too_long_def)
    with alloc_ok_charge [OF ok conjunct1 [OF s] this key] False adm Some f B show ?thesis
      by (auto simp: admitDurableLaneSection_def opt_member_def Let_def split: if_splits)
  qed
qed

subsection \<open>Stamping a section that says whether it is truncated\<close>

definition says_truncated :: "json_object \<Rightarrow> bool" where
  "says_truncated sec \<longleftrightarrow> (\<exists>b. get_member ''truncated'' sec = Some (JBool b))"

lemma stamp_fits:
  assumes "says_truncated sec" "fits sec serving"
  shows "fits (set_member ''truncated'' (JBool True) sec) serving"
proof -
  obtain b where b: "get_member ''truncated'' sec = Some (JBool b)" using assms(1) by (auto simp: says_truncated_def)
  have "serializedLength (JBool True) \<le> serializedLength (JBool b)" by (cases b) (simp_all add: serializedLength_def json_length_def)
  with set_member_present [OF b, of "JBool True"] assms(2) show ?thesis by (auto simp: fits_def split: option.splits)
qed

lemma says_truncated_with_items: "says_truncated sec \<Longrightarrow> says_truncated (with_items sec [''item_count''] kept)"
  by (simp add: says_truncated_def get_with_items)

lemma jnat_inj: "jnat m = jnat n \<longleftrightarrow> m = n"
  by (simp add: jnat_def show_nat_inj)

text \<open>A trimmed section that is not starved fits after its stamp too: the stamp only flips \<open>truncated\<close>.\<close>

abbreviation counted_fit :: "json_object \<Rightarrow> chars \<Rightarrow> fitted" where
  "counted_fit sec serving \<equiv> fitItemSection sec [''item_count''] serving True"

lemma trimmed_section:
  assumes "fit_truncated (counted_fit sec serving)"
  obtains kept where "fit_section (counted_fit sec serving) = with_items sec [''item_count''] kept"
    "items_of (fit_section (counted_fit sec serving)) = kept" "fit_starved (counted_fit sec serving) \<longleftrightarrow> kept = []"
    "set kept \<subseteq> set (items_of sec)"
proof -
  from fitItemSection_items [OF _ assms] obtain n where n: "n \<le> length (items_of sec)"
    "fit_section (counted_fit sec serving) = with_items sec [''item_count''] (part True n (items_of sec))"
    "items_of (fit_section (counted_fit sec serving)) = part True n (items_of sec)"
    "fit_starved (counted_fit sec serving) \<longleftrightarrow> n = 0" by auto
  show ?thesis
    by (rule that [of "part True n (items_of sec)"]) (use n in \<open>auto simp: part_def dest: in_set_takeD\<close>)
qed

lemma stampTrimmedBody_stamp:
  assumes "fit_truncated (counted_fit sec serving)"
  shows "stampTrimmedBody (fit_section (counted_fit sec serving)) = stamp (fit_section (counted_fit sec serving))"
proof -
  obtain kept where k: "fit_section (counted_fit sec serving) = with_items sec [''item_count''] kept"
    "items_of (fit_section (counted_fit sec serving)) = kept" using trimmed_section [OF assms] by metis
  have "get_member ''item_count'' (with_items sec [''item_count''] kept) = Some (jnat (length kept))"
    by (simp add: with_items_def get_set_member)
  with k show ?thesis by (simp add: stampTrimmedBody_def stamp_def Let_def jnat_inj)
qed

lemma trimmed_stamp_fits:
  assumes "says_truncated sec" "fit_truncated (counted_fit sec serving)" "\<not> fit_starved (counted_fit sec serving)"
  shows "fits (stamp (fit_section (counted_fit sec serving))) serving"
proof -
  obtain kept where k: "fit_section (counted_fit sec serving) = with_items sec [''item_count''] kept"
    "items_of (fit_section (counted_fit sec serving)) = kept" "fit_starved (counted_fit sec serving) \<longleftrightarrow> kept = []"
    using trimmed_section [OF assms(2)] by metis
  have "fits (fit_section (counted_fit sec serving)) serving" using fitItemSection_fits assms(3) by blast
  then have "fits (set_member ''truncated'' (JBool True) (fit_section (counted_fit sec serving))) serving"
    using stamp_fits says_truncated_with_items [OF assms(1)] k(1) by metis
  with k assms(3) show ?thesis by (simp add: stamp_def)
qed

lemma alloc_ok_memory:
  assumes ok: "alloc_ok B a secs" and srv: "sectionServing a ''durable_memory'' = (frame, serving, limit)"
    and says: "\<And>sec. loaded = Some sec \<Longrightarrow> says_truncated sec"
    and adm: "admitDurableMemorySection a loaded cs frame serving = (out, a')"
  shows "alloc_ok B a' (secs @ opt_member ''durable_memory'' (adm_section out))"
proof (cases loaded)
  case None
  with adm ok show ?thesis by (auto simp: admitDurableMemorySection_def opt_member_def)
next
  case (Some sec)
  have B: "wholePackBudget a = Some B" using ok by (simp add: alloc_ok_def)
  note s = serving_bounded [OF ok srv]
  have key: "plain_key ''durable_memory''" by code_simp
  let ?f = "fitRankedItemSection sec [''item_count''] serving"
  show ?thesis
  proof (cases "fit_starved ?f \<and> too_long (fit_section ?f) serving")
    case True
    with adm Some B ok show ?thesis by (auto simp: admitDurableMemorySection_def opt_member_def Let_def)
  next
    case False
    have "fits (fit_section ?f) serving"
    proof (cases "fit_truncated (counted_fit sec serving)")
      case True
      with False trimmed_stamp_fits [OF says [OF Some] True] show ?thesis
        by (auto simp: fitRankedItemSection_def Let_def too_long_def)
    next
      case F: False
      with fitItemSection_untouched [OF F] show ?thesis by (simp add: fitRankedItemSection_def Let_def)
    qed
    with s have "fits (fit_section ?f) (servingChars a frame)" by simp
    with alloc_ok_charge [OF ok conjunct1 [OF s] this key] False adm Some B show ?thesis
      by (auto simp: admitDurableMemorySection_def opt_member_def Let_def split: if_splits)
  qed
qed

lemma alloc_ok_structured:
  assumes ok: "alloc_ok B a secs" and k: "plain_key key"
    and says: "\<And>sec. frag_section frag = Some sec \<Longrightarrow> says_truncated sec"
    and adm: "admitStructuredSection acc a key frag = (acc', a')"
  shows "\<exists>new. st_sections acc' = st_sections acc @ new \<and> alloc_ok B a' (secs @ new) \<and> subseq (map fst new) [key]"
proof (cases "frag_section frag")
  case None
  with adm ok show ?thesis by (intro exI [of _ "[]"]) (auto simp: admitStructuredSection_def Let_def)
next
  case (Some sec)
  have B: "wholePackBudget a = Some B" using ok by (simp add: alloc_ok_def)
  let ?frame = "sectionFrameCost key (firstSectionAdmitted a)"
  let ?serving = "servingChars a ?frame"
  let ?f = "counted_fit sec ?serving"
  let ?sec = "if fit_truncated ?f then stamp (fit_section ?f) else fit_section ?f"
  have sec: "(if fit_truncated ?f then stampTrimmedBody (fit_section ?f) else fit_section ?f) = ?sec"
    using stampTrimmedBody_stamp by simp
  show ?thesis
  proof (cases "fit_starved ?f \<and> too_long ?sec ?serving")
    case True
    with adm Some B ok show ?thesis
      by (intro exI [of _ "[]"]) (auto simp: admitStructuredSection_def Let_def sec pushOverflowMarker_def)
  next
    case False
    have "fits ?sec ?serving"
      using False trimmed_stamp_fits [OF says [OF Some]] fitItemSection_untouched [of sec "[''item_count'']" ?serving True]
      by (auto simp: too_long_def)
    from alloc_ok_charge [OF ok refl this k] False adm Some B show ?thesis
      by (intro exI [of _ "[(key, ?sec)]"]) (auto simp: admitStructuredSection_def Let_def stampTrimmedBody_stamp pushOverflowMarker_def split: if_splits)
  qed
qed

lemma alloc_ok_all:
  assumes "alloc_ok B a secs" "\<forall>(k, frag) \<in> set reqs. plain_key k \<and> (\<forall>sec. frag_section frag = Some sec \<longrightarrow> says_truncated sec)"
    "admit_all acc a reqs = (acc', a')"
  shows "\<exists>new. st_sections acc' = st_sections acc @ new \<and> alloc_ok B a' (secs @ new) \<and> subseq (map fst new) (map fst reqs)"
  using assms
proof (induction acc a reqs arbitrary: secs rule: admit_all.induct)
  case (1 acc a)
  then show ?case by (intro exI [of _ "[]"]) simp
next
  case (2 acc a key frag rest)
  obtain acc1 a1 where one: "admitStructuredSection acc a key frag = (acc1, a1)" by (metis surj_pair)
  have head: "plain_key key" "\<And>sec. frag_section frag = Some sec \<Longrightarrow> says_truncated sec" using 2(3) by auto
  obtain new1 where n1: "st_sections acc1 = st_sections acc @ new1" "alloc_ok B a1 (secs @ new1)" "subseq (map fst new1) [key]"
    using alloc_ok_structured [OF 2(2) head one] by blast
  have "\<exists>new. st_sections acc' = st_sections acc1 @ new \<and> alloc_ok B a' ((secs @ new1) @ new) \<and> subseq (map fst new) (map fst rest)"
    by (rule 2(1) [OF one [symmetric] n1(2)]) (use 2(3,4) one in auto)
  then obtain new2 where n2: "st_sections acc' = st_sections acc1 @ new2" "alloc_ok B a' ((secs @ new1) @ new2)"
    "subseq (map fst new2) (map fst rest)" by blast
  have "subseq (map fst new1 @ map fst new2) ([key] @ map fst rest)" by (rule list_emb_append_mono [OF n1(3) n2(3)])
  then show ?case using n1(1) n2(1,2) by (intro exI [of _ "new1 @ new2"]) simp
qed

text \<open>Keys set once each are appended in order, so the map that is sent is the list the allocator was charged for.\<close>

lemma set_member_append: "k \<notin> fst ` set kvs \<Longrightarrow> set_member k v kvs = kvs @ [(k, v)]"
  unfolding set_member_def by (rule update_absent) (simp add: map_of_eq_None_iff)

lemma fold_set_members:
  "distinct (map fst (kvs @ as_members secs)) \<Longrightarrow> fold (\<lambda>(k, s) obj. set_member k (JObj s) obj) secs kvs = kvs @ as_members secs"
  by (induction secs arbitrary: kvs) (auto simp: as_members_def set_member_append)

lemma as_members_append [simp]: "as_members (xs @ ys) = as_members xs @ as_members ys" by (simp add: as_members_def)
lemma as_members_keys: "map fst (as_members secs) = map fst secs" by (induction secs) (auto simp: as_members_def)

definition recall_keys :: "string list" where
  "recall_keys = [''working_set'', ''recovery'', ''durable_lane_context'', ''durable_memory'']"

lemma assembleSections_members:
  assumes "distinct (map fst structured)" "set (map fst structured) \<inter> set recall_keys = {}"
  shows "assembleSections ws rcv lane memory structured =
    as_members (opt_member ''working_set'' ws @ opt_member ''recovery'' rcv @ opt_member ''durable_lane_context'' lane @
      opt_member ''durable_memory'' memory @ structured)"
proof -
  define kvs where "kvs = as_members (opt_member ''working_set'' ws @ opt_member ''recovery'' rcv @
    opt_member ''durable_lane_context'' lane @ opt_member ''durable_memory'' memory)"
  have "assembleSections ws rcv lane memory structured = fold (\<lambda>(k, s) obj. set_member k (JObj s) obj) structured kvs"
    unfolding assembleSections_def Let_def kvs_def
    by (cases ws; cases rcv; cases lane; cases memory) (simp_all add: opt_member_def as_members_def set_member_append)
  moreover have "map fst kvs = map fst (opt_member ''working_set'' ws @ opt_member ''recovery'' rcv @
      opt_member ''durable_lane_context'' lane @ opt_member ''durable_memory'' memory)"
    unfolding kvs_def by (rule as_members_keys)
  then have "distinct (map fst kvs) \<and> set (map fst kvs) \<subseteq> set recall_keys"
    by (cases ws; cases rcv; cases lane; cases memory) (simp_all add: opt_member_def recall_keys_def)
  with assms have d: "distinct (map fst (kvs @ as_members structured))" by (auto simp only: as_members_keys map_append distinct_append)
  ultimately have "assembleSections ws rcv lane memory structured = kvs @ as_members structured"
    using fold_set_members [OF d] by simp
  then show ?thesis unfolding kvs_def by simp
qed

subsection \<open>A pack keeps its budget\<close>

text \<open>The steps of one request.\<close>

lemma payload_steps:
  obtains sel ws a1 rcv a2 lframe lserving llimit lctx lane a3 mframe mserving mlimit recalled mctx requestedMemory memory a4 st a5 where
    "sel = selectSections requested include_recovery"
    "admitAppendSection (createAllocator (wholePackBudgetFor max_tokens)) ''working_set''
       (if sel_workingSet sel then Some (fst (ld_workingSet ld)) else None) [''item_count''] = (ws, a1)"
    "admitAppendSection a1 ''recovery'' (if sel_recovery sel then Some (fst (ld_recovery ld)) else None)
       [''item_count'', ''pending_count''] = (rcv, a2)"
    "sectionServing a2 ''durable_lane_context'' = (lframe, lserving, llimit)"
    "lctx = (if sel_durableLaneContext sel then Some (ld_lane ld llimit) else None)"
    "admitDurableLaneSection a2 (recall_section lctx) (recall_citations lctx) lframe lserving = (lane, a3)"
    "sectionServing a3 ''durable_memory'' = (mframe, mserving, mlimit)"
    "recalled = (if sel_durableMemory sel then Some (ld_memory ld mlimit) else None)"
    "mctx = map_option fst recalled"
    "requestedMemory = (if sel_durableMemorySection sel then recall_section mctx else None)"
    "admitDurableMemorySection a3 requestedMemory (if sel_durableMemorySection sel then recall_citations mctx else [])
       mframe mserving = (memory, a4)"
    "admit_all createStructuredAccumulator a4 (structured_requests ld sel mctx
       (case recalled of Some (c, pool) \<Rightarrow> pool | None \<Rightarrow> []) (adm_section memory)) = (st, a5)"
    "pk_sections (buildAgentContextPackPayload requested include_recovery max_tokens ld) =
       assembleSections ws rcv (adm_section lane) (adm_section memory) (st_sections st)"
    "pk_whole_pack (buildAgentContextPackPayload requested include_recovery max_tokens ld) = wholePackReport a5"
    "pk_truncation (buildAgentContextPackPayload requested include_recovery max_tokens ld) =
       (case (adm_section lane, lctx) of (Some s, Some c) \<Rightarrow> ctx_truncation c | _ \<Rightarrow> []) @
       (case (adm_section memory, mctx) of (Some s, Some c) \<Rightarrow> ctx_truncation c | _ \<Rightarrow> []) @ truncation a5 @ st_truncation st"
    "pk_citations (buildAgentContextPackPayload requested include_recovery max_tokens ld) =
       adm_citations lane @ adm_citations memory @ st_citations st"
proof -
  let ?sel = "selectSections requested include_recovery"
  obtain ws a1 where 1: "admitAppendSection (createAllocator (wholePackBudgetFor max_tokens)) ''working_set''
      (if sel_workingSet ?sel then Some (fst (ld_workingSet ld)) else None) [''item_count''] = (ws, a1)" by (metis surj_pair)
  obtain rcv a2 where 2: "admitAppendSection a1 ''recovery'' (if sel_recovery ?sel then Some (fst (ld_recovery ld)) else None)
      [''item_count'', ''pending_count''] = (rcv, a2)" by (metis surj_pair)
  obtain lframe lserving llimit where 3: "sectionServing a2 ''durable_lane_context'' = (lframe, lserving, llimit)"
    by (metis prod_cases3)
  define lctx where "lctx = (if sel_durableLaneContext ?sel then Some (ld_lane ld llimit) else None)"
  obtain lane a3 where 4: "admitDurableLaneSection a2 (recall_section lctx) (recall_citations lctx) lframe lserving = (lane, a3)"
    by (metis surj_pair)
  obtain mframe mserving mlimit where 5: "sectionServing a3 ''durable_memory'' = (mframe, mserving, mlimit)"
    by (metis prod_cases3)
  define recalled where "recalled = (if sel_durableMemory ?sel then Some (ld_memory ld mlimit) else None)"
  define mctx where "mctx = map_option fst recalled"
  define requestedMemory where "requestedMemory = (if sel_durableMemorySection ?sel then recall_section mctx else None)"
  obtain memory a4 where 6: "admitDurableMemorySection a3 requestedMemory
      (if sel_durableMemorySection ?sel then recall_citations mctx else []) mframe mserving = (memory, a4)" by (metis surj_pair)
  obtain st a5 where 7: "admit_all createStructuredAccumulator a4 (structured_requests ld ?sel mctx
      (case recalled of Some (c, pool) \<Rightarrow> pool | None \<Rightarrow> []) (adm_section memory)) = (st, a5)" by (metis surj_pair)
  note run = 1 2 3 4 [unfolded lctx_def] 5 6 [unfolded requestedMemory_def mctx_def recalled_def]
    7 [unfolded mctx_def recalled_def]
  show ?thesis
    by (rule that [OF refl 1 2 3 lctx_def 4 5 recalled_def mctx_def requestedMemory_def 6 7])
      (simp_all add: buildAgentContextPackPayload_def Let_def run lctx_def mctx_def recalled_def)
qed

definition fragment_says_truncated :: "fragment \<Rightarrow> bool" where
  "fragment_says_truncated frag \<longleftrightarrow> (\<forall>sec. frag_section frag = Some sec \<longrightarrow> says_truncated sec)"

definition sections_say_truncated :: "'p loaders \<Rightarrow> bool" where
  "sections_say_truncated ld \<longleftrightarrow>
     (\<forall>limit sec. ctx_section (fst (ld_memory ld limit)) = Some sec \<longrightarrow> says_truncated sec) \<and>
     fragment_says_truncated (ld_profile ld) \<and> fragment_says_truncated (ld_process ld) \<and>
     fragment_says_truncated (ld_repoFacts ld) \<and> (\<forall>pool memory. fragment_says_truncated (ld_pointers ld pool memory)) \<and>
     fragment_says_truncated (ld_candidates ld)"

lemma fold_warnings_section [simp]: "frag_section (fold_warnings pending c frag) = frag_section frag"
  by (simp add: fold_warnings_def split: bool.splits option.splits)

definition structured_keys :: "string list" where
  "structured_keys = [''profile_guidance'', ''process_guidance'', ''repo_facts'', ''pointers'', ''candidate_memory'']"

lemma structured_keys_plain: "k \<in> set structured_keys \<Longrightarrow> plain_key k"
proof -
  have "list_all plain_key structured_keys" by code_simp
  then show "k \<in> set structured_keys \<Longrightarrow> plain_key k" by (simp add: list_all_iff)
qed

lemma structured_keys_facts: "distinct structured_keys" "set structured_keys \<inter> set recall_keys = {}"
proof -
  show "distinct structured_keys" by code_simp
  have "list_all (\<lambda>k. k \<notin> set recall_keys) structured_keys" by code_simp
  then show "set structured_keys \<inter> set recall_keys = {}" by (auto simp: list_all_iff)
qed

lemma structured_requests_keys: "subseq (map fst (structured_requests ld sel c pool memory)) structured_keys"
  by (simp add: structured_requests_def Let_def structured_keys_def)

lemma structured_requests_say_truncated:
  assumes "sections_say_truncated ld" "(k, frag) \<in> set (structured_requests ld sel c pool memory)"
  shows "frag_section frag = Some sec \<Longrightarrow> says_truncated sec"
  using assms
  by (auto simp: structured_requests_def Let_def sections_say_truncated_def fragment_says_truncated_def split: if_splits)

lemma subseq_keeps_distinct: "subseq xs ys \<Longrightarrow> distinct ys \<Longrightarrow> distinct xs"
  by (metis distinct_nthsI subseq_conv_nths)

lemma subseq_set: "subseq xs ys \<Longrightarrow> set xs \<subseteq> set ys"
  by (induction rule: list_emb.induct) auto

lemma priority_distinct: "distinct CONTEXT_PACK_SECTION_PRIORITY" by code_simp

text \<open>The map of sections, for any admitted parts.\<close>

lemma assembled:
  assumes "subseq (map fst new) structured_keys"
    and "p = opt_member ''working_set'' ws @ opt_member ''recovery'' rcv @ opt_member ''durable_lane_context'' lane @
      opt_member ''durable_memory'' memory @ new"
  shows "assembleSections ws rcv lane memory new = as_members p \<and> distinct (map fst p) \<and>
    subseq (map fst p) CONTEXT_PACK_SECTION_PRIORITY"
proof -
  have ds: "distinct (map fst new)" "set (map fst new) \<inter> set recall_keys = {}"
    using structured_keys_facts subseq_set [OF assms(1)] subseq_keeps_distinct [OF assms(1)] by auto
  have opt: "subseq (map fst (opt_member k v)) [k]" for k v by (simp add: opt_member_def split: option.splits)
  have "subseq (map fst p) ([''working_set''] @ [''recovery''] @ [''durable_lane_context''] @ [''durable_memory''] @ structured_keys)"
    unfolding assms(2) map_append by (intro list_emb_append_mono opt assms(1))
  moreover have "[''working_set''] @ [''recovery''] @ [''durable_lane_context''] @ [''durable_memory''] @ structured_keys =
      CONTEXT_PACK_SECTION_PRIORITY" by (simp add: structured_keys_def CONTEXT_PACK_SECTION_PRIORITY_def)
  ultimately have sub: "subseq (map fst p) CONTEXT_PACK_SECTION_PRIORITY" by simp
  then have "distinct (map fst p)" by (rule subseq_keeps_distinct) (rule priority_distinct)
  with sub assembleSections_members [OF ds] assms(2) show ?thesis by simp
qed

lemma recall_keys_plain: "k \<in> set recall_keys \<Longrightarrow> plain_key k"
proof -
  have "list_all plain_key recall_keys" by code_simp
  then show "k \<in> set recall_keys \<Longrightarrow> plain_key k" by (simp add: list_all_iff)
qed

lemma recall_section_says:
  "sections_say_truncated ld \<Longrightarrow> requested = (if b then recall_section (map_option fst (if c then Some (ld_memory ld l) else None)) else None) \<Longrightarrow>
     requested = Some sec \<Longrightarrow> says_truncated sec"
  by (auto simp: sections_say_truncated_def recall_section_def split: if_splits)

text \<open>After the last admission the allocator's running total is the length of the sections that are sent.\<close>

lemma payload_alloc_ok:
  assumes says: "sections_say_truncated ld" and B: "wholePackBudgetFor max_tokens = Some B"
  shows "\<exists>a secs. alloc_ok B a secs \<and> pk_sections (buildAgentContextPackPayload requested include_recovery max_tokens ld) = as_members secs \<and>
    pk_whole_pack (buildAgentContextPackPayload requested include_recovery max_tokens ld) = wholePackReport a \<and>
    subseq (map fst secs) CONTEXT_PACK_SECTION_PRIORITY"
  apply (rule payload_steps [of requested include_recovery max_tokens ld])
  subgoal premises s for sel ws a1 rcv a2 lframe lserving llimit lctx lane a3 mframe mserving mlimit recalled mctx requestedMemory memory a4 st a5
proof -
  have plain: "plain_key ''working_set''" "plain_key ''recovery''" by (simp_all add: recall_keys_plain recall_keys_def)
  note ok1 = alloc_ok_append [OF alloc_ok_create plain(1) s(2) [unfolded B]]
  note ok2 = alloc_ok_append [OF ok1 plain(2) s(3)]
  note ok3 = alloc_ok_lane [OF ok2 s(4) s(6)]
  have mem: "\<And>sec. requestedMemory = Some sec \<Longrightarrow> says_truncated sec"
    using recall_section_says [OF says s(10) [unfolded s(9) s(8)]] by blast
  note ok4 = alloc_ok_memory [OF ok3 s(7) mem s(11)]
  let ?reqs = "structured_requests ld sel mctx (case recalled of Some (c, pool) \<Rightarrow> pool | None \<Rightarrow> []) (adm_section memory)"
  have keys: "subseq (map fst ?reqs) structured_keys" by (rule structured_requests_keys)
  have reqs: "\<forall>(k, frag) \<in> set ?reqs. plain_key k \<and> (\<forall>sec. frag_section frag = Some sec \<longrightarrow> says_truncated sec)"
    using subseq_set [OF keys] structured_keys_plain structured_requests_say_truncated [OF says] by fastforce
  from alloc_ok_all [OF ok4 reqs s(12)] obtain new where new: "st_sections st = new"
    "alloc_ok B a5 (((([] @ opt_member ''working_set'' ws) @ opt_member ''recovery'' rcv) @
       opt_member ''durable_lane_context'' (adm_section lane)) @ opt_member ''durable_memory'' (adm_section memory) @ new)"
    "subseq (map fst new) (map fst ?reqs)" by (auto simp: createStructuredAccumulator_def)
  have sub: "subseq (map fst new) structured_keys" using new(3) keys by (rule subseq_order.order_trans)
  note asm = assembled [OF sub refl, of ws rcv "adm_section lane" "adm_section memory"]
  from asm new(2) show ?thesis unfolding s(13) s(14) new(1) by (intro exI [of _ a5] exI conjI) (auto simp only: append_assoc append_Nil)
qed
  done

text \<open>C19: when a request bounds its pack, the JSON of the sections that are sent is within the bound whatever the
  loaders returned, the number of characters the report says were used is exactly that length, and the sections
  come in the order of priority.\<close>

theorem pack_within_budget:
  assumes "sections_say_truncated ld" "wholePackBudgetFor max_tokens = Some B"
    and "p = buildAgentContextPackPayload requested include_recovery max_tokens ld"
  shows "serializedLength (JObj (pk_sections p)) \<le> max 2 B \<and>
    (\<exists>report. pk_whole_pack p = Some report \<and> wp_content_char_limit report = Some (max 2 B) \<and>
       wp_content_chars_used report = min B (serializedLength (JObj (pk_sections p)))) \<and>
    subseq (map fst (pk_sections p)) CONTEXT_PACK_SECTION_PRIORITY"
proof -
  obtain a secs where a: "alloc_ok B a secs" "pk_sections p = as_members secs" "pk_whole_pack p = wholePackReport a"
    "subseq (map fst secs) CONTEXT_PACK_SECTION_PRIORITY" using payload_alloc_ok [OF assms(1,2)] assms(3) by blast
  have ok: "wholePackBudget a = Some B" "remainingChars a = Some (max 0 (B - 2) - members_length secs)"
    "members_length secs \<le> max 0 (B - 2)" using a(1) by (simp_all add: alloc_ok_def)
  have len: "serializedLength (JObj (pk_sections p)) = 2 + members_length secs"
    unfolding a(2) by (rule members_length_object) (use a(1) in \<open>simp add: alloc_ok_def\<close>)
  have nonneg: "0 \<le> members_length secs" unfolding members_length_def
    by (intro add_nonneg_nonneg sum_list_nonneg) (auto simp: serializedLength_def)
  have B: "0 \<le> B" using assms(2) by (auto simp: wholePackBudgetFor_def)
  have "charsUsed a = min B (2 + members_length secs)" using ok nonneg B by (simp add: charsUsed_def)
  then show ?thesis using ok len a(3,4) by (simp add: wholePackReport_def wholePackSerializedLimitFor_def a(2) as_members_keys)
qed

subsection \<open>No section is lost silently\<close>

text \<open>What becomes of a section a loader returned: it is sent as it is, or a marker in the truncation channel
  names it.\<close>

definition marked :: "chars \<Rightarrow> string \<Rightarrow> json list \<Rightarrow> bool" where
  "marked b k ms \<longleftrightarrow> budget_marker b k True \<in> set ms \<or> budget_marker b k False \<in> set ms"

lemma marked_mono: "marked b k ms \<Longrightarrow> set ms \<subseteq> set ns \<Longrightarrow> marked b k ns"
  by (auto simp: marked_def)

lemma marked_noted: "b = wholePackBudget a \<Longrightarrow> marked b k (truncation (noteBudgetTruncation a k st))"
  by (cases st) (simp_all add: marked_def noteBudgetTruncation_def)

definition grows :: "pack_allocator \<Rightarrow> pack_allocator \<Rightarrow> bool" where
  "grows a a' \<longleftrightarrow> wholePackBudget a' = wholePackBudget a \<and> set (truncation a) \<subseteq> set (truncation a')"

lemma grows_trans: "grows a b \<Longrightarrow> grows b c \<Longrightarrow> grows a c" by (auto simp: grows_def)
lemma grows_steps [simp]: "grows a a" "grows a (chargeAdmitted a s f)" "grows a (noteBudgetTruncation a k st)"
  "grows a (noteBudgetTruncation (chargeAdmitted a s f) k st)"
  by (auto simp: grows_def chargeAdmitted_def noteBudgetTruncation_def)

lemma marked_after_charge:
  "b = wholePackBudget a \<Longrightarrow> marked b k (truncation (noteBudgetTruncation (chargeAdmitted a s f) k st))"
  by (rule marked_noted) (simp add: chargeAdmitted_def)

lemma append_fate:
  assumes "admitAppendSection a k loaded ks = (out, a')"
  shows "grows a a' \<and> (\<forall>s. loaded = Some s \<longrightarrow> out = Some s \<or> marked (wholePackBudget a) k (truncation a'))"
proof (cases loaded)
  case None
  with assms show ?thesis by (simp add: admitAppendSection_def)
next
  case (Some s)
  let ?serving = "servingChars a (sectionFrameCost k (firstSectionAdmitted a))"
  let ?f = "fitItemSection s ks ?serving False"
  show ?thesis
  proof (cases "fit_truncated ?f")
    case True
    with assms Some show ?thesis by (auto simp: admitAppendSection_def Let_def marked_noted marked_after_charge)
  next
    case False
    with assms Some fitItemSection_untouched [OF False] show ?thesis by (auto simp: admitAppendSection_def Let_def)
  qed
qed

lemma lane_fate:
  assumes "admitDurableLaneSection a loaded cs frame serving = (out, a')"
  shows "grows a a' \<and> (\<forall>s. loaded = Some s \<longrightarrow> adm_section out = Some s \<or> marked (wholePackBudget a) ''durable_lane_context'' (truncation a'))"
proof (cases loaded)
  case None
  with assms show ?thesis by (auto simp: admitDurableLaneSection_def)
next
  case (Some s)
  obtain sec' cs' tr where f: "fitDurableLaneSection s cs serving = (sec', cs', tr)" by (metis prod_cases3)
  show ?thesis
  proof (cases tr)
    case True
    with assms Some f show ?thesis
      by (auto simp: admitDurableLaneSection_def Let_def marked_noted marked_after_charge split: if_splits)
  next
    case False
    then have "sec' = s" using f by (auto simp: fitDurableLaneSection_def Let_def split: if_splits option.splits)
    with False assms Some f show ?thesis by (auto simp: admitDurableLaneSection_def Let_def split: if_splits)
  qed
qed

lemma memory_fate:
  assumes "admitDurableMemorySection a loaded cs frame serving = (out, a')"
  shows "grows a a' \<and> (\<forall>s. loaded = Some s \<longrightarrow> adm_section out = Some s \<or> marked (wholePackBudget a) ''durable_memory'' (truncation a'))"
proof (cases loaded)
  case None
  with assms show ?thesis by (auto simp: admitDurableMemorySection_def)
next
  case (Some s)
  show ?thesis
  proof (cases "fit_truncated (counted_fit s serving)")
    case True
    with assms Some show ?thesis
      by (auto simp: admitDurableMemorySection_def fitRankedItemSection_def Let_def marked_noted marked_after_charge split: if_splits)
  next
    case False
    with assms Some fitItemSection_untouched [OF False] show ?thesis
      by (auto simp: admitDurableMemorySection_def fitRankedItemSection_def Let_def split: if_splits)
  qed
qed

lemma structured_fate:
  assumes "admitStructuredSection acc a k frag = (acc', a')"
  shows "wholePackBudget a' = wholePackBudget a \<and> set (st_truncation acc) \<subseteq> set (st_truncation acc') \<and>
    (\<exists>new. st_sections acc' = st_sections acc @ new \<and> subseq (map fst new) [k] \<and>
      (\<forall>s. frag_section frag = Some s \<longrightarrow> new = [(k, s)] \<or> marked (wholePackBudget a) k (st_truncation acc')))"
proof (cases "frag_section frag")
  case None
  with assms show ?thesis by (auto simp: admitStructuredSection_def Let_def)
next
  case (Some s)
  let ?serving = "servingChars a (sectionFrameCost k (firstSectionAdmitted a))"
  show ?thesis
  proof (cases "fit_truncated (counted_fit s ?serving)")
    case True
    with assms Some show ?thesis
      by (auto simp: admitStructuredSection_def Let_def pushOverflowMarker_def marked_def chargeAdmitted_def split: if_splits)
  next
    case False
    with assms Some fitItemSection_untouched [OF False] show ?thesis
      by (auto simp: admitStructuredSection_def Let_def chargeAdmitted_def split: if_splits)
  qed
qed

lemma all_fate:
  assumes "admit_all acc a reqs = (acc', a')"
  shows "set (st_truncation acc) \<subseteq> set (st_truncation acc') \<and>
    (\<exists>new. st_sections acc' = st_sections acc @ new \<and> subseq (map fst new) (map fst reqs) \<and>
      (\<forall>k frag s. (k, frag) \<in> set reqs \<longrightarrow> frag_section frag = Some s \<longrightarrow>
         (k, s) \<in> set new \<or> marked (wholePackBudget a) k (st_truncation acc')))"
  using assms
proof (induction acc a reqs rule: admit_all.induct)
  case (1 acc a)
  then show ?case by simp
next
  case (2 acc a key frag rest)
  obtain acc1 a1 where one: "admitStructuredSection acc a key frag = (acc1, a1)" by (metis surj_pair)
  then have rest: "admit_all acc1 a1 rest = (acc', a')" using 2(2) by simp
  obtain new1 where n1: "wholePackBudget a1 = wholePackBudget a" "set (st_truncation acc) \<subseteq> set (st_truncation acc1)"
    "st_sections acc1 = st_sections acc @ new1" "subseq (map fst new1) [key]"
    "\<And>s. frag_section frag = Some s \<Longrightarrow> new1 = [(key, s)] \<or> marked (wholePackBudget a) key (st_truncation acc1)"
    using structured_fate [OF one] by blast
  obtain new2 where n2: "set (st_truncation acc1) \<subseteq> set (st_truncation acc')" "st_sections acc' = st_sections acc1 @ new2"
    "subseq (map fst new2) (map fst rest)"
    "\<And>k frag s. (k, frag) \<in> set rest \<Longrightarrow> frag_section frag = Some s \<Longrightarrow>
       (k, s) \<in> set new2 \<or> marked (wholePackBudget a) k (st_truncation acc')"
    using 2(1) [OF one [symmetric] rest] unfolding n1(1) by blast
  have "subseq (map fst new1 @ map fst new2) ([key] @ map fst rest)" by (rule list_emb_append_mono [OF n1(4) n2(3)])
  moreover have "(k, s) \<in> set (new1 @ new2) \<or> marked (wholePackBudget a) k (st_truncation acc')"
    if "(k, fr) \<in> set ((key, frag) # rest)" "frag_section fr = Some s" for k fr s
  proof (cases "(k, fr) \<in> set rest")
    case True
    with n2(4) that(2) show ?thesis by auto
  next
    case False
    with that have "k = key" "frag_section frag = Some s" by auto
    with n1(5) n2(1) marked_mono show ?thesis by fastforce
  qed
  ultimately show ?case using n1(2,3) n2(1,2) by (intro conjI exI [of _ "new1 @ new2"]) auto
qed

definition accounted :: "pack_payload \<Rightarrow> chars \<Rightarrow> string \<Rightarrow> json_object \<Rightarrow> bool" where
  "accounted p b k sec \<longleftrightarrow> get_member k (pk_sections p) = Some (JObj sec) \<or> marked b k (pk_truncation p)"

lemma get_as_members:
  assumes "distinct (map fst secs)" "(k, s) \<in> set secs"
  shows "get_member k (as_members secs) = Some (JObj s)"
proof -
  have "distinct (map fst (as_members secs))" using assms(1) by (simp add: as_members_keys)
  moreover have "(k, JObj s) \<in> set (as_members secs)" using assms(2) by (force simp: as_members_def)
  ultimately show ?thesis unfolding get_member_def by (rule map_of_is_SomeI)
qed

lemma admit_all_truncation: "admit_all acc a reqs = (acc', a') \<Longrightarrow> truncation a' = truncation a"
proof (induction acc a reqs rule: admit_all.induct)
  case (2 acc a key frag rest)
  obtain acc1 a1 where one: "admitStructuredSection acc a key frag = (acc1, a1)" by (metis surj_pair)
  then have "truncation a1 = truncation a"
    by (auto simp: admitStructuredSection_def Let_def chargeAdmitted_def split: option.splits if_splits)
  with 2(1) [OF one [symmetric]] 2(2) one show ?case by simp
qed simp

text \<open>C20: no section a request asked for and a loader returned disappears silently: it is sent unchanged, or the
  truncation channel of the answer has a \<open>whole_pack_budget\<close> marker with its name and the budget. Lane, memory
  and pointers are the sections their loaders returned for what they were given.\<close>

theorem no_section_lost_silently:
  assumes "p = buildAgentContextPackPayload requested include_recovery max_tokens ld"
    and "b = wholePackBudgetFor max_tokens" and "sel = selectSections requested include_recovery"
  shows "(sel_workingSet sel \<longrightarrow> accounted p b ''working_set'' (fst (ld_workingSet ld))) \<and>
    (sel_recovery sel \<longrightarrow> accounted p b ''recovery'' (fst (ld_recovery ld))) \<and>
    (sel_durableLaneContext sel \<longrightarrow> (\<exists>limit. \<forall>s. ctx_section (ld_lane ld limit) = Some s \<longrightarrow> accounted p b ''durable_lane_context'' s)) \<and>
    (sel_durableMemorySection sel \<longrightarrow>
       (\<exists>limit. \<forall>s. ctx_section (fst (ld_memory ld limit)) = Some s \<longrightarrow> accounted p b ''durable_memory'' s)) \<and>
    (\<exists>c pool memory. \<forall>k frag s. (k, frag) \<in> set (structured_requests ld sel c pool memory) \<longrightarrow>
       frag_section frag = Some s \<longrightarrow> accounted p b k s)"
  apply (rule payload_steps [of requested include_recovery max_tokens ld])
  subgoal premises s for sel' ws a1 rcv a2 lframe lserving llimit lctx lane a3 mframe mserving mlimit recalled mctx requestedMemory memory a4 st a5
  proof -
    note f1 = append_fate [OF s(2)] and f2 = append_fate [OF s(3)] and f3 = lane_fate [OF s(6)] and f4 = memory_fate [OF s(11)]
      and f5 = all_fate [OF s(12)]
    have b: "wholePackBudget (createAllocator (wholePackBudgetFor max_tokens)) = b" by (simp add: createAllocator_def assms(2))
    have sel: "sel' = sel" using s(1) assms(3) by simp
    have bs: "wholePackBudget a1 = b" "wholePackBudget a2 = b" "wholePackBudget a3 = b" "wholePackBudget a4 = b"
      using f1 f2 f3 f4 b by (auto simp: grows_def)
    obtain new where new: "st_sections st = new" "subseq (map fst new) (map fst (structured_requests ld sel mctx
        (case recalled of Some (c, pool) \<Rightarrow> pool | None \<Rightarrow> []) (adm_section memory)))"
      "\<And>k frag x. (k, frag) \<in> set (structured_requests ld sel mctx (case recalled of Some (c, pool) \<Rightarrow> pool | None \<Rightarrow> []) (adm_section memory)) \<Longrightarrow>
         frag_section frag = Some x \<Longrightarrow> (k, x) \<in> set new \<or> marked b k (st_truncation st)"
      using f5 unfolding bs sel by (auto simp: createStructuredAccumulator_def)
    define secs where "secs = opt_member ''working_set'' ws @ opt_member ''recovery'' rcv @
      opt_member ''durable_lane_context'' (adm_section lane) @ opt_member ''durable_memory'' (adm_section memory) @ new"
    have asm: "pk_sections p = as_members secs" "distinct (map fst secs)"
      using assembled [OF subseq_order.order_trans [OF new(2) structured_requests_keys] secs_def] s(13) new(1) assms(1) by auto
    have kept: "truncation a5 = truncation a4" using admit_all_truncation [OF s(12)] .
    have got: "accounted p b k x" if "(k, x) \<in> set secs \<or> marked b k (truncation a4) \<or> marked b k (st_truncation st)" for k x
      using that
    proof (elim disjE)
      assume "(k, x) \<in> set secs"
      with get_as_members [OF asm(2)] asm(1) show ?thesis by (simp add: accounted_def)
    next
      assume "marked b k (truncation a4)"
      then show ?thesis unfolding accounted_def assms(1) s(15) kept by (intro disjI2) (erule marked_mono, auto)
    next
      assume "marked b k (st_truncation st)"
      then show ?thesis unfolding accounted_def assms(1) s(15) by (intro disjI2) (erule marked_mono, auto)
    qed
    have g: "set (truncation a1) \<subseteq> set (truncation a4)" "set (truncation a2) \<subseteq> set (truncation a4)"
      "set (truncation a3) \<subseteq> set (truncation a4)" using f2 f3 f4 by (auto simp: grows_def)
    have m1: "marked b k (truncation a1) \<Longrightarrow> marked b k (truncation a4)" and m2: "marked b k (truncation a2) \<Longrightarrow> marked b k (truncation a4)"
      and m3: "marked b k (truncation a3) \<Longrightarrow> marked b k (truncation a4)" for k
      using marked_mono g by blast+
    have ws: "sel_workingSet sel \<longrightarrow> accounted p b ''working_set'' (fst (ld_workingSet ld))"
      using f1 unfolding b sel by (auto simp: secs_def opt_member_def intro!: got m1)
    have rcv: "sel_recovery sel \<longrightarrow> accounted p b ''recovery'' (fst (ld_recovery ld))"
      using f2 unfolding bs sel by (auto simp: secs_def opt_member_def intro!: got m2)
    have lane: "sel_durableLaneContext sel \<longrightarrow> (\<forall>x. ctx_section (ld_lane ld llimit) = Some x \<longrightarrow> accounted p b ''durable_lane_context'' x)"
      using f3 unfolding bs s(5) sel by (auto simp: secs_def opt_member_def recall_section_def intro!: got m3)
    have "sel_durableMemorySection sel \<Longrightarrow> sel_durableMemory sel" using assms(3) by (auto simp: selectSections_def Let_def)
    then have mem: "sel_durableMemorySection sel \<longrightarrow>
        (\<forall>x. ctx_section (fst (ld_memory ld mlimit)) = Some x \<longrightarrow> accounted p b ''durable_memory'' x)"
      using f4 unfolding bs s(10) s(9) s(8) sel by (auto simp: secs_def opt_member_def recall_section_def intro!: got)
    have st: "\<forall>k frag x. (k, frag) \<in> set (structured_requests ld sel mctx
        (case recalled of Some (c, pool) \<Rightarrow> pool | None \<Rightarrow> []) (adm_section memory)) \<longrightarrow>
       frag_section frag = Some x \<longrightarrow> accounted p b k x"
    proof (intro allI impI)
      fix k frag x
      assume "(k, frag) \<in> set (structured_requests ld sel mctx
        (case recalled of Some (c, pool) \<Rightarrow> pool | None \<Rightarrow> []) (adm_section memory))" "frag_section frag = Some x"
      from new(3) [OF this] show "accounted p b k x" by (intro got) (auto simp: secs_def)
    qed
    show ?thesis using ws rcv lane mem st by blast
  qed
  done

subsection \<open>Citations follow what is sent\<close>

lemma mem_map_filter: "y \<in> set (List.map_filter f xs) \<longleftrightarrow> (\<exists>x \<in> set xs. f x = Some y)"
  by (induction xs) (auto simp: List.map_filter_simps split: option.splits)

definition cited_ids :: "citations \<Rightarrow> string set" where
  "cited_ids cs = set (List.map_filter (\<lambda>c. string_of (member_of ''id'' c)) cs)"

definition event_citations :: "citations \<Rightarrow> citations" where
  "event_citations cs = filter (\<lambda>c. member_of ''kind'' c = Some (JStr ''session_event'')) cs"

lemma kept_citation_ids_mono: "set xs \<subseteq> set ys \<Longrightarrow> kept_citation_ids xs \<subseteq> kept_citation_ids ys"
  by (auto simp: kept_citation_ids_def mem_map_filter) blast

lemma set_part: "set (part tail n xs) \<subseteq> set xs"
  by (auto simp: part_def dest: in_set_takeD in_set_dropD)

lemma cited_after_items: "cited_ids (reconcileCitedItemCitations cs sec) = cited_ids cs \<inter> kept_citation_ids (items_of sec)"
  by (fastforce simp: cited_ids_def mem_map_filter reconcileCitedItemCitations_def split: option.splits) 

lemma cited_after_events:
  "cited_ids (event_citations (reconcileDurableCitations cs ev)) = cited_ids (event_citations cs) \<inter> kept_citation_ids ev"
  by (fastforce simp: cited_ids_def mem_map_filter event_citations_def reconcileDurableCitations_def split: option.splits)

lemma rebuilt_events: "array_of (get_member ''events'' (rebuildDurableLaneSection sec lane md kept)) = kept"
  by (simp add: rebuildDurableLaneSection_def Let_def get_set_member array_of_def split: option.splits)

lemma lane_keeps_part:
  assumes "fitDurableLaneSection sec cs serving = (sec', cs', True)"
  shows "\<exists>kept. set kept \<subseteq> set (array_of (get_member ''events'' sec)) \<and> array_of (get_member ''events'' sec') = kept \<and>
    cs' = reconcileDurableCitations cs kept"
proof -
  let ?ev = "array_of (get_member ''events'' sec)"
  let ?drop = "dropOldestDurableLaneEvents sec (lane_of sec) ?ev (context_md (lane_of sec)) serving"
  have unfit: "\<not> fits sec serving" using assms by (auto simp: fitDurableLaneSection_def)
  show ?thesis
  proof (cases ?drop)
    case None
    with assms unfit have "array_of (get_member ''events'' sec') = []" "cs' = reconcileDurableCitations cs []"
      by (auto simp: fitDurableLaneSection_def Let_def rebuilt_events)
    then show ?thesis by (intro exI [of _ "[]"]) simp
  next
    case (Some kept)
    with assms unfit have "array_of (get_member ''events'' sec') = kept" "cs' = reconcileDurableCitations cs kept"
      by (auto simp: fitDurableLaneSection_def Let_def rebuilt_events)
    moreover have "set kept \<subseteq> set ?ev"
      using shed_longest [where build = "rebuildDurableLaneSection sec (lane_of sec) (context_md (lane_of sec))" and remaining = serving
          and from_tail = False and kept = ?ev] Some set_part unfolding dropOldestDurableLaneEvents_def by fastforce
    ultimately show ?thesis by blast
  qed
qed

lemma memory_keeps_part:
  "set (items_of (fit_section (fitRankedItemSection sec [''item_count''] serving))) \<subseteq> set (items_of sec)"
proof (cases "fit_truncated (counted_fit sec serving)")
  case True
  obtain kept where "items_of (fit_section (counted_fit sec serving)) = kept" "set kept \<subseteq> set (items_of sec)"
    using trimmed_section [OF True] by metis
  then show ?thesis using True by (simp add: fitRankedItemSection_def Let_def stamp_def items_of_def get_set_member)
next
  case False
  then show ?thesis using fitItemSection_untouched [OF False] by (simp add: fitRankedItemSection_def Let_def)
qed

text \<open>Under a budget the citations of the answer keep matching the text that is sent: when a recall section's
  citations name exactly its cited records, those of the section after the fit name exactly the records that are
  still in it, and a section left out has none.\<close>

theorem citations_name_what_is_sent:
  assumes B: "wholePackBudget a = Some B"
    and lane: "admitDurableLaneSection a (Some sec) cs frame serving = (lane, a1)"
    and memory: "admitDurableMemorySection a (Some mem) ms frame' serving' = (memory, a2)"
    and exact: "cited_ids (event_citations cs) = kept_citation_ids (array_of (get_member ''events'' sec))"
      "cited_ids ms = kept_citation_ids (items_of mem)"
  shows "cited_ids (event_citations (adm_citations lane)) =
      (case adm_section lane of Some s \<Rightarrow> kept_citation_ids (array_of (get_member ''events'' s)) | None \<Rightarrow> {}) \<and>
    cited_ids (adm_citations memory) = (case adm_section memory of Some s \<Rightarrow> kept_citation_ids (items_of s) | None \<Rightarrow> {})"
proof
  have none: "cited_ids (event_citations []) = {}" "cited_ids [] = {}" by (simp_all add: cited_ids_def event_citations_def List.map_filter_simps)
  obtain sec' cs' tr where f: "fitDurableLaneSection sec cs serving = (sec', cs', tr)" by (metis prod_cases3)
  have "cited_ids (event_citations cs') = kept_citation_ids (array_of (get_member ''events'' sec'))"
  proof (cases tr)
    case True
    with lane_keeps_part [of sec cs serving sec' cs'] f obtain kept where
      "set kept \<subseteq> set (array_of (get_member ''events'' sec))" "array_of (get_member ''events'' sec') = kept"
      "cs' = reconcileDurableCitations cs kept" by auto
    with exact(1) kept_citation_ids_mono show ?thesis by (simp add: cited_after_events) blast
  next
    case False
    with f have "sec' = sec" "cs' = cs" by (auto simp: fitDurableLaneSection_def Let_def split: if_splits option.splits)
    with exact(1) show ?thesis by simp
  qed
  with lane B f none show "cited_ids (event_citations (adm_citations lane)) =
      (case adm_section lane of Some s \<Rightarrow> kept_citation_ids (array_of (get_member ''events'' s)) | None \<Rightarrow> {})"
    by (auto simp: admitDurableLaneSection_def split: if_splits)
  let ?f = "fit_section (fitRankedItemSection mem [''item_count''] serving')"
  have "cited_ids (reconcileCitedItemCitations ms ?f) = kept_citation_ids (items_of ?f)"
    using exact(2) kept_citation_ids_mono [OF memory_keeps_part] by (simp add: cited_after_items) blast
  with memory B none show "cited_ids (adm_citations memory) =
      (case adm_section memory of Some s \<Rightarrow> kept_citation_ids (items_of s) | None \<Rightarrow> {})"
    by (auto simp: admitDurableMemorySection_def Let_def split: if_splits)
qed

subsection \<open>The properties on a small pack\<close>

definition small_item :: "string \<Rightarrow> json" where
  "small_item i = JObj [(''citation_id'', JStr i), (''content'', JStr ''alpha beta'')]"

definition small_section :: "json list \<Rightarrow> json_object" where
  "small_section xs = [(''items'', JArr xs), (''item_count'', jnat (length xs)), (''truncated'', JBool False)]"

definition no_fragment :: fragment where
  "no_fragment = \<lparr>frag_section = None, frag_scopeDenials = [], frag_truncation = [], frag_degraded = [], frag_citations = []\<rparr>"

definition small_citations :: citations where
  "small_citations = [JObj [(''id'', JStr ''m1'')], JObj [(''id'', JStr ''m2'')]]"

definition small_memory :: json_object where
  "small_memory = small_section [small_item ''m1'', small_item ''m2'']"

definition small_loaders :: "unit loaders" where
  "small_loaders = \<lparr>ld_workingSet = (small_section [small_item ''w1''], []), ld_recovery = (small_section [], []),
     ld_lane = (\<lambda>limit. \<lparr>ctx_section = None, ctx_scopeDenials = [], ctx_degraded = [], ctx_truncation = [], ctx_budget = None, ctx_citations = []\<rparr>),
     ld_memory = (\<lambda>limit. (\<lparr>ctx_section = Some small_memory, ctx_scopeDenials = [],
       ctx_degraded = [], ctx_truncation = [], ctx_budget = None, ctx_citations = small_citations\<rparr>, [])),
     ld_profile = no_fragment, ld_process = no_fragment, ld_repoFacts = no_fragment,
     ld_pointers = (\<lambda>pool memory. no_fragment), ld_candidates = no_fragment\<rparr>"

lemma small_says: "sections_say_truncated small_loaders"
  by (auto simp: sections_say_truncated_def small_loaders_def small_memory_def small_section_def says_truncated_def
    fragment_says_truncated_def no_fragment_def get_member_def intro: exI [of _ False])

text \<open>240 characters for the sections: the working set is sent whole, the memory with its first item.\<close>

theorem pack_within_budget_witness:
  "serializedLength (JObj (pk_sections (buildAgentContextPackPayload None False (Some 360) small_loaders))) \<le> 240"
proof -
  have "wholePackBudgetFor (Some 360) = Some 240" by code_simp
  from pack_within_budget [OF small_says this refl, of None False] show ?thesis by simp
qed

lemma small_pack_serves_both:
  "map fst (pk_sections (buildAgentContextPackPayload None False (Some 360) small_loaders)) = [''working_set'', ''durable_memory'']"
  by code_simp

text \<open>The trimmed memory is not the one that was loaded: the marker accounts for it.\<close>

theorem no_section_lost_silently_witness:
  "accounted (buildAgentContextPackPayload None False (Some 360) small_loaders) (Some 240) ''durable_memory'' small_memory \<and>
   get_member ''durable_memory'' (pk_sections (buildAgentContextPackPayload None False (Some 360) small_loaders)) \<noteq>
     Some (JObj small_memory)"
proof
  have b: "Some 240 = wholePackBudgetFor (Some 360)" by code_simp
  have s: "sel_durableMemorySection (selectSections None False)" by code_simp
  have m: "ctx_section (fst (ld_memory small_loaders limit)) = Some small_memory" for limit by (simp add: small_loaders_def)
  from no_section_lost_silently [OF refl b refl, of None False small_loaders] s m
  show "accounted (buildAgentContextPackPayload None False (Some 360) small_loaders) (Some 240) ''durable_memory'' small_memory"
    by blast
  show "get_member ''durable_memory'' (pk_sections (buildAgentContextPackPayload None False (Some 360) small_loaders)) \<noteq>
     Some (JObj small_memory)" by code_simp
qed

definition small_lane :: json_object where
  "small_lane = [(''lane'', JObj [(''current_context_md'', JStr ''abcdefghij'')]),
     (''events'', JArr [small_item ''e1'', small_item ''e2'']), (''event_count'', jnat 2), (''truncated'', JBool False)]"

definition small_lane_citations :: citations where
  "small_lane_citations = map (\<lambda>i. JObj [(''kind'', JStr ''session_event''), (''id'', JStr i)]) [''e1'', ''e2'']"

theorem citations_name_what_is_sent_witness:
  "cited_ids (event_citations (adm_citations (fst (admitDurableLaneSection (createAllocator (Some 300)) (Some small_lane)
     small_lane_citations 20 (Some 160))))) = {''e2''} \<and>
   cited_ids (adm_citations (fst (admitDurableMemorySection (createAllocator (Some 300)) (Some small_memory)
     small_citations 20 (Some 100)))) = {''m1''}"
proof -
  let ?a = "createAllocator (Some 300)"
  obtain lane a1 where l: "admitDurableLaneSection ?a (Some small_lane) small_lane_citations 20 (Some 160) = (lane, a1)" by (metis surj_pair)
  obtain memory a2 where m: "admitDurableMemorySection ?a (Some small_memory) small_citations 20 (Some 100) = (memory, a2)"
    by (metis surj_pair)
  have e: "cited_ids (event_citations small_lane_citations) = kept_citation_ids (array_of (get_member ''events'' small_lane))"
    "cited_ids small_citations = kept_citation_ids (items_of small_memory)" by code_simp+
  have B: "wholePackBudget ?a = Some 300" by (simp add: createAllocator_def)
  have v: "map_option (\<lambda>s. kept_citation_ids (array_of (get_member ''events'' s)))
      (adm_section (fst (admitDurableLaneSection ?a (Some small_lane) small_lane_citations 20 (Some 160)))) = Some {''e2''}"
    "map_option (\<lambda>s. kept_citation_ids (items_of s))
      (adm_section (fst (admitDurableMemorySection ?a (Some small_memory) small_citations 20 (Some 100)))) = Some {''m1''}"
    by code_simp+
  from citations_name_what_is_sent [OF B l m e] v l m show ?thesis by auto
qed

end
