(* ===== verification/DurableMemory.thy ===== *)
theory DurableMemory
  imports ContextPack ReadScope
begin

text \<open>
  The recall behind a context pack: \<open>server/tools/context-pack-durable-memory.ts\<close>, what the model was given
  already (\<open>prior-context-suppression.ts\<close>), the two views over the same recall
  (\<open>context-pack-pointers.ts\<close>) and the bounds they share (\<open>context-pack-shared.ts\<close>,
  \<open>context-pack-sections.ts\<close>). \<open>executeSearch\<close> is a parameter: the rows it returns in rank order, or
  \<open>Inl\<close> when it throws. A parse that throws is \<open>Inl\<close> too.
\<close>

subsection \<open>Rows and their identity\<close>

record source_ref =
  ref_source :: string
  ref_type :: string
  ref_id :: string
  ref_namespace :: "string option"
  ref_extra :: json_object
  ref_label :: string
  ref_preview :: string

record recalled_row =
  rr_source_type :: string
  rr_id :: string
  rr_namespace :: "string option"
  rr_content_preview :: "string option"
  rr_created_at :: string
  rr_updated_at :: "string option"
  rr_tier :: "string option"
  rr_source_ref :: "source_ref option"

definition recordCitationId :: "recalled_row \<Rightarrow> string" where
  "recordCitationId row = ''brain_record:'' @ rr_source_type row @ '':'' @ rr_id row"

definition recordSourceRef :: "recalled_row \<Rightarrow> source_ref" where
  "recordSourceRef row = (case rr_source_ref row of Some ref \<Rightarrow> ref
     | None \<Rightarrow> (let p = (case rr_content_preview row of Some s \<Rightarrow> s | None \<Rightarrow> [])
        in \<lparr>ref_source = ''brain'', ref_type = rr_source_type row, ref_id = rr_id row, ref_namespace = rr_namespace row,
            ref_extra = [], ref_label = take 120 p, ref_preview = take 300 p\<rparr>))"

definition namespace_member :: "string option \<Rightarrow> json_object" where
  "namespace_member ns = (case ns of Some n \<Rightarrow> [(''namespace'', JStr n)] | None \<Rightarrow> [])"

definition ref_json :: "source_ref \<Rightarrow> json" where
  "ref_json r = JObj ([(''source'', JStr (ref_source r)), (''type'', JStr (ref_type r)), (''id'', JStr (ref_id r))] @
     namespace_member (ref_namespace r) @ ref_extra r @ [(''label'', JStr (ref_label r)), (''preview'', JStr (ref_preview r))])"

definition recordStructuralSourceRef :: "recalled_row \<Rightarrow> json" where
  "recordStructuralSourceRef row =
     (let full = recordSourceRef row
      in JObj ([(''source'', JStr (ref_source full)), (''type'', JStr (ref_type full)), (''id'', JStr (ref_id full))] @
           namespace_member (ref_namespace full)))"

subsection \<open>Prior context\<close>

datatype source_ref_value = RefString string | RefObject string string string "string option"

record recall_identity =
  canonical_id :: "string option"
  citation_id :: "string option"
  identity_ref :: "source_ref_value option"

definition canonicalSourceRefKey :: "source_ref_value \<Rightarrow> string" where
  "canonicalSourceRefKey r = (case r of
     RefString s \<Rightarrow> ''s:'' @ s
   | RefObject source typ i ns \<Rightarrow>
       (let sep = [CHR 0x1F] in ''o:'' @ source @ sep @ typ @ sep @ i @ sep @ (case ns of Some n \<Rightarrow> n | None \<Rightarrow> [])))"

text \<open>\<open>z.string().trim().min(1).max(n)\<close>, and the same where the member is optional.\<close>

definition bounded_string :: "nat \<Rightarrow> string \<Rightarrow> string option" where
  "bounded_string n s = (let t = trim s in if 1 \<le> length t \<and> length t \<le> n then Some t else None)"

definition optional_string :: "nat \<Rightarrow> string option \<Rightarrow> string option option" where
  "optional_string n v = (case v of None \<Rightarrow> Some None | Some s \<Rightarrow> map_option Some (bounded_string n s))"

definition sourceRefSchema :: "source_ref_value \<Rightarrow> source_ref_value option" where
  "sourceRefSchema r = (case r of
     RefString s \<Rightarrow> map_option RefString (bounded_string 1000 s)
   | RefObject source typ i ns \<Rightarrow>
       (case (bounded_string 200 source, bounded_string 200 typ, bounded_string 500 i, optional_string 200 ns) of
          (Some a, Some b, Some c, Some d) \<Rightarrow> Some (RefObject a b c d) | _ \<Rightarrow> None))"

definition recallIdentitySchema :: "recall_identity \<Rightarrow> recall_identity option" where
  "recallIdentitySchema i =
     (case (optional_string 500 (canonical_id i), optional_string 500 (citation_id i),
            (case identity_ref i of None \<Rightarrow> Some None | Some r \<Rightarrow> map_option Some (sourceRefSchema r))) of
        (Some a, Some b, Some c) \<Rightarrow>
          if a = None \<and> b = None \<and> c = None then None
          else Some \<lparr>canonical_id = a, citation_id = b, identity_ref = c\<rparr>
      | _ \<Rightarrow> None)"

definition suppressionKeys :: "recall_identity \<Rightarrow> string list" where
  "suppressionKeys i =
     (case canonical_id i of Some s \<Rightarrow> [''canonical:'' @ s] | None \<Rightarrow> []) @
     (case citation_id i of Some s \<Rightarrow> [''citation:'' @ s] | None \<Rightarrow> []) @
     (case identity_ref i of Some r \<Rightarrow> [''source_ref:'' @ canonicalSourceRefKey r] | None \<Rightarrow> [])"

fun buildSuppressionSet :: "recall_identity list \<Rightarrow> string list result" where
  "buildSuppressionSet [] = Inr []"
| "buildSuppressionSet (reference # rest) =
     (case recallIdentitySchema reference of
        None \<Rightarrow> Inl ''invalid recall identity''
      | Some parsed \<Rightarrow> res_bind (buildSuppressionSet rest) (\<lambda>keys. Inr (suppressionKeys parsed @ keys)))"

record suppression =
  sup_recalled :: nat
  sup_suppressed :: nat
  sup_net_new :: nat

fun keep_unreferenced :: "('a \<Rightarrow> recall_identity) \<Rightarrow> string list \<Rightarrow> 'a list \<Rightarrow> 'a list result" where
  "keep_unreferenced identify suppressed [] = Inr []"
| "keep_unreferenced identify suppressed (record # rest) =
     (let raw = identify record
      in if citation_id raw = None \<and> identity_ref raw = None
         then res_bind (keep_unreferenced identify suppressed rest) (\<lambda>kept. Inr (record # kept))
         else case recallIdentitySchema raw of
                None \<Rightarrow> Inl ''invalid recall identity''
              | Some i \<Rightarrow> res_bind (keep_unreferenced identify suppressed rest)
                  (\<lambda>kept. Inr (if list_ex (\<lambda>k. k \<in> set suppressed) (suppressionKeys i) then kept else record # kept)))"

definition suppressReferencedRecords ::
  "'a list \<Rightarrow> ('a \<Rightarrow> recall_identity) \<Rightarrow> recall_identity list \<Rightarrow> ('a list \<times> suppression) result" where
  "suppressReferencedRecords records identify priorContext =
     res_bind (buildSuppressionSet priorContext) (\<lambda>suppressed.
       res_bind (keep_unreferenced identify suppressed records) (\<lambda>kept.
         Inr (kept, \<lparr>sup_recalled = length records, sup_suppressed = length records - length kept, sup_net_new = length kept\<rparr>)))"

definition row_identity :: "recalled_row \<Rightarrow> recall_identity" where
  "row_identity row =
     (let ref = recordSourceRef row
      in \<lparr>canonical_id = None, citation_id = Some (recordCitationId row),
          identity_ref = Some (RefObject (ref_source ref) (ref_type ref) (ref_id ref) (ref_namespace ref))\<rparr>)"

subsection \<open>One burst\<close>

definition UNBOUNDED :: int where "UNBOUNDED = 9007199254740991"
definition DURABLE_MEMORY_MAX_CONTENT_CHARS :: int where "DURABLE_MEMORY_MAX_CONTENT_CHARS = UNBOUNDED"
definition DURABLE_MEMORY_MAX_ITEM_CHARS :: int where "DURABLE_MEMORY_MAX_ITEM_CHARS = UNBOUNDED"
definition DURABLE_MEMORY_BURST_ITEMS :: nat where "DURABLE_MEMORY_BURST_ITEMS = 10"

definition resolveContentChars :: "int option \<Rightarrow> chars \<Rightarrow> int \<Rightarrow> int" where
  "resolveContentChars max_tokens contentCharLimit ceil =
     (case contentCharLimit of
        Some n \<Rightarrow> max 0 (min ceil n)
      | None \<Rightarrow> (case max_tokens of
          Some t \<Rightarrow> max 0 (min ceil (t * 4 - CONTEXT_PACK_ENVELOPE_CHAR_RESERVE)) | None \<Rightarrow> ceil))"

definition boundedText :: "string option \<Rightarrow> int \<Rightarrow> string option \<times> bool" where
  "boundedText v maxChars = (case v of
     None \<Rightarrow> (None, False)
   | Some s \<Rightarrow>
       if s = [] \<or> maxChars \<le> 0 then (None, s \<noteq> [])
       else if int (length s) \<le> maxChars then (Some s, False)
       else (Some (take (nat maxChars) s), True))"

record burst =
  burst_items :: "json list"
  burst_citations :: citations
  remaining_chars :: int
  items_truncated :: bool

definition item_json :: "recalled_row \<Rightarrow> string \<Rightarrow> json" where
  "item_json row content =
     JObj [(''id'', JStr (rr_id row)), (''source_type'', JStr (rr_source_type row)), (''namespace'', jopt (rr_namespace row)),
       (''content'', JStr content), (''created_at'', JStr (rr_created_at row)), (''updated_at'', jopt (rr_updated_at row)),
       (''tier'', jopt (rr_tier row)), (''citation_id'', JStr (recordCitationId row)), (''source_ref'', ref_json (recordSourceRef row))]"

definition citation_json :: "recalled_row \<Rightarrow> json" where
  "citation_json row = JObj [(''id'', JStr (recordCitationId row)), (''kind'', JStr ''brain_record''),
     (''source_ref'', ref_json (recordSourceRef row))]"

definition burst_step :: "recalled_row \<Rightarrow> burst \<Rightarrow> burst" where
  "burst_step row b =
     (case boundedText (rr_content_preview row) (min DURABLE_MEMORY_MAX_ITEM_CHARS (remaining_chars b)) of
        (Some text, truncated) \<Rightarrow>
          \<lparr>burst_items = burst_items b @ [item_json row text], burst_citations = burst_citations b @ [citation_json row],
           remaining_chars = remaining_chars b - int (length text), items_truncated = (items_truncated b \<or> truncated)\<rparr>
      | (None, truncated) \<Rightarrow>
          if rr_content_preview row \<noteq> None \<and> rr_content_preview row \<noteq> Some [] then b\<lparr>items_truncated := True\<rparr> else b)"

definition buildBurstItems :: "recalled_row list \<Rightarrow> int \<Rightarrow> burst" where
  "buildBurstItems rows startingChars =
     fold burst_step rows \<lparr>burst_items = [], burst_citations = [], remaining_chars = startingChars, items_truncated = False\<rparr>"

record burst_window =
  bw_offset :: nat
  bw_rows :: "recalled_row list"
  bw_end :: nat
  bw_more :: bool

definition burstWindow :: "recalled_row list \<Rightarrow> int option \<Rightarrow> burst_window" where
  "burstWindow netNewRows requestedOffset =
     (let offset = nat (max 0 (case requestedOffset of Some k \<Rightarrow> k | None \<Rightarrow> 0));
          rows = slice offset (offset + DURABLE_MEMORY_BURST_ITEMS) netNewRows;
          burstEnd = offset + length rows
      in \<lparr>bw_offset = offset, bw_rows = rows, bw_end = burstEnd, bw_more = (length netNewRows > burstEnd)\<rparr>)"

definition jint :: "int \<Rightarrow> json" where
  "jint n = jnat (nat n)"

definition memoryTruncationEntries :: "burst \<Rightarrow> nat \<Rightarrow> nat \<Rightarrow> int \<Rightarrow> json list" where
  "memoryTruncationEntries b burstRowCount netNew maxContentChars =
     (let unemittable = (burst_items b = [] \<and> burstRowCount > 0 \<and> netNew > 0)
      in if \<not> items_truncated b \<and> \<not> unemittable then []
         else [JObj [(''source'', JStr ''durable_memory.items''), (''burst_items'', jnat DURABLE_MEMORY_BURST_ITEMS),
           (''max_item_chars'', jint DURABLE_MEMORY_MAX_ITEM_CHARS), (''content_char_limit'', jint maxContentChars)]])"

definition resolveEmptyReason :: "nat \<Rightarrow> nat \<Rightarrow> nat \<Rightarrow> suppression \<Rightarrow> nat \<Rightarrow> string option" where
  "resolveEmptyReason itemCount burstRowCount burstOffset s recalledRowCount =
     (if itemCount > 0 then None
      else if burstRowCount = 0 \<and> burstOffset > 0 then Some ''walk_complete''
      else if sup_net_new s > 0 then Some ''content_unavailable''
      else if recalledRowCount > 0 \<and> sup_suppressed s = recalledRowCount then Some ''all_suppressed''
      else Some ''no_matches'')"

subsection \<open>The loader\<close>

datatype search_source = SearchTable resource_table | SessionEvents

definition ALL_TABLES :: "resource_table list" where
  "ALL_TABLES = [Thoughts, Decisions, Relationships, Projects, Sessions]"

definition readableSearchSources :: "role \<Rightarrow> search_source list" where
  "readableSearchSources r = map SearchTable (filter (canRead r) ALL_TABLES) @ (if canRead r Sessions then [SessionEvents] else [])"

record memory_request =
  mr_query :: "string option"
  mr_arg_namespace :: "string option"
  mr_namespace :: string
  mr_max_tokens :: "int option"
  mr_prior_context :: "recall_identity list"
  mr_continue_from :: "int option"

type_synonym search_engine = "search_source list \<Rightarrow> string \<Rightarrow> namespace_filter option \<Rightarrow> recalled_row list result"

definition emptySection :: "json \<Rightarrow> string \<Rightarrow> json_object" where
  "emptySection query why = [(''label'', JStr ''durable_memory''), (''namespace_scoped'', JBool True), (''query'', query),
     (''empty_reason'', JStr why), (''items'', JArr []), (''item_count'', jnat 0), (''truncated'', JBool False)]"

definition emptyBudget :: "int \<Rightarrow> json_object" where
  "emptyBudget maxContentChars = [(''content_char_limit'', jint maxContentChars), (''content_chars_used'', jnat 0),
     (''burst_items'', jnat DURABLE_MEMORY_BURST_ITEMS), (''max_item_chars'', jint DURABLE_MEMORY_MAX_ITEM_CHARS)]"

definition emptyFragment :: "json_object \<Rightarrow> int \<Rightarrow> json list \<Rightarrow> json list \<Rightarrow> recall_context" where
  "emptyFragment sec maxContentChars denials degraded =
     \<lparr>ctx_section = Some sec, ctx_scopeDenials = denials, ctx_degraded = degraded, ctx_truncation = [],
      ctx_budget = Some (emptyBudget maxContentChars), ctx_citations = []\<rparr>"

definition prepareRecall ::
  "auth_identity \<Rightarrow> shared_names option \<Rightarrow> memory_request \<Rightarrow> string \<Rightarrow> int \<Rightarrow>
     (recall_context + search_source list \<times> namespace_filter option) result" where
  "prepareRecall auth names rq query maxContentChars =
     (if query = [] then Inr (Inl (emptyFragment (emptySection JNull ''no_query'') maxContentChars [] []))
      else let tables = readableSearchSources (role_of auth)
        in if tables = [] then Inr (Inl (emptyFragment (emptySection (JStr query) ''no_readable_tables'') maxContentChars
               [JObj [(''source'', JStr ''durable_memory''), (''reasons'', JArr [JStr ''no_readable_tables''])]] []))
           else res_bind (namespaceFilterFor auth
                  (case mr_arg_namespace rq of None \<Rightarrow> None | Some n \<Rightarrow> if n = [] then None else Some (mr_namespace rq)) False names)
                (\<lambda>ns. Inr (Inr (tables, ns))))"

definition next_member :: "burst_window \<Rightarrow> json_object" where
  "next_member w = (if bw_more w
     then [(''next'', JObj [(''offset'', jnat (bw_end w)), (''delivered_through'', jnat (bw_end w))])] else [])"

definition memory_section :: "string \<Rightarrow> string option \<Rightarrow> burst \<Rightarrow> json list \<Rightarrow> burst_window \<Rightarrow> suppression \<Rightarrow> json_object" where
  "memory_section query emptyReason b trunc w s =
     [(''label'', JStr ''durable_memory''), (''namespace_scoped'', JBool True), (''query'', JStr query)] @
     (case emptyReason of Some r \<Rightarrow> [(''empty_reason'', JStr r)] | None \<Rightarrow> []) @
     [(''items'', JArr (burst_items b)), (''item_count'', jnat (length (burst_items b))), (''truncated'', JBool (trunc \<noteq> []))] @
     next_member w @
     [(''prior_context_suppression'', JObj [(''recalled'', jnat (sup_recalled s)), (''suppressed'', jnat (sup_suppressed s)),
        (''net_new'', jnat (sup_net_new s)), (''emitted'', jnat (length (burst_items b)))])]"

definition memory_context :: "string \<Rightarrow> int option \<Rightarrow> int \<Rightarrow> recalled_row list \<Rightarrow> suppression \<Rightarrow> nat \<Rightarrow> recall_context" where
  "memory_context query continueFrom maxContentChars netNewRows s recalledRowCount =
     (let w = burstWindow netNewRows continueFrom;
          b = buildBurstItems (bw_rows w) maxContentChars;
          trunc = memoryTruncationEntries b (length (bw_rows w)) (sup_net_new s) maxContentChars;
          emptyReason = resolveEmptyReason (length (burst_items b)) (length (bw_rows w)) (bw_offset w) s recalledRowCount
      in \<lparr>ctx_section = Some (memory_section query emptyReason b trunc w s), ctx_scopeDenials = [], ctx_degraded = [],
          ctx_truncation = trunc,
          ctx_budget = Some [(''content_char_limit'', jint maxContentChars),
            (''content_chars_used'', jint (maxContentChars - remaining_chars b)), (''burst_items'', jnat DURABLE_MEMORY_BURST_ITEMS),
            (''burst_offset'', jnat (bw_offset w)), (''recalled_net_new'', jnat (length netNewRows)),
            (''max_item_chars'', jint DURABLE_MEMORY_MAX_ITEM_CHARS)],
          ctx_citations = burst_citations b\<rparr>)"

definition loadDurableMemoryContext ::
  "search_engine \<Rightarrow> auth_identity \<Rightarrow> shared_names option \<Rightarrow> memory_request \<Rightarrow> chars \<Rightarrow> (recall_context \<times> recalled_row list) result" where
  "loadDurableMemoryContext search auth names rq contentCharLimit =
     (let maxContentChars = resolveContentChars (mr_max_tokens rq) contentCharLimit DURABLE_MEMORY_MAX_CONTENT_CHARS;
          query = (case mr_query rq of Some q \<Rightarrow> trim q | None \<Rightarrow> [])
      in res_bind (prepareRecall auth names rq query maxContentChars) (\<lambda>prepared. case prepared of
           Inl fragment \<Rightarrow> Inr (fragment, [])
         | Inr (tables, ns) \<Rightarrow> (case search tables query ns of
             Inl _ \<Rightarrow> Inr (emptyFragment (emptySection (JStr query) ''recall_failed'') maxContentChars []
               [JObj [(''source'', JStr ''durable_memory''), (''reason'', JStr ''recall_failed'')]], [])
           | Inr rows \<Rightarrow> res_bind (suppressReferencedRecords rows row_identity (mr_prior_context rq)) (\<lambda>(netNewRows, s).
               Inr (memory_context query (mr_continue_from rq) maxContentChars netNewRows s (length rows), netNewRows)))))"

subsection \<open>Pointers and candidates\<close>

definition POINTERS_MAX_ITEMS :: nat where "POINTERS_MAX_ITEMS = 20"

definition resolveItemBudget :: "int option \<times> int option \<Rightarrow> int \<times> int \<Rightarrow> int \<times> int" where
  "resolveItemBudget supplied defaults =
     (let pick = (\<lambda>d v. max 0 (min d (case v of Some n \<Rightarrow> n | None \<Rightarrow> d)))
      in (pick (fst defaults) (fst supplied), pick (snd defaults) (snd supplied)))"

definition retainedDurableIdentities :: "json_object option \<Rightarrow> string list" where
  "retainedDurableIdentities sec = (case sec of None \<Rightarrow> []
     | Some s \<Rightarrow> List.map_filter (\<lambda>x. string_of (member_of ''citation_id'' x)) (items_of s))"

definition pointer_json :: "recalled_row \<Rightarrow> json" where
  "pointer_json row = JObj [(''id'', JStr (rr_id row)), (''source_type'', JStr (rr_source_type row)),
     (''namespace'', jopt (rr_namespace row)), (''tier'', jopt (rr_tier row)), (''created_at'', JStr (rr_created_at row)),
     (''updated_at'', jopt (rr_updated_at row)), (''citation_id'', JStr (recordCitationId row)),
     (''source_ref'', recordStructuralSourceRef row)]"

definition pointer_citation :: "recalled_row \<Rightarrow> json" where
  "pointer_citation row = JObj [(''id'', JStr (recordCitationId row)), (''kind'', JStr ''pointer''),
     (''source_ref'', recordStructuralSourceRef row)]"

text \<open>The loop over the pool: the rows pointed at, and whether the ceiling ended it.\<close>

fun pointer_rows :: "nat \<Rightarrow> string list \<Rightarrow> string list \<Rightarrow> recalled_row list \<Rightarrow> recalled_row list \<Rightarrow> recalled_row list \<times> bool" where
  "pointer_rows maxItems durable seen acc [] = (acc, False)"
| "pointer_rows maxItems durable seen acc (row # pool) =
     (let identity = recordCitationId row
      in if identity \<in> set durable then pointer_rows maxItems durable seen acc pool
         else if identity \<in> set seen then pointer_rows maxItems durable seen acc pool
         else if length acc \<ge> maxItems then (acc, True)
         else pointer_rows maxItems durable (identity # seen) (acc @ [row]) pool)"

definition buildPointerSection :: "recalled_row list \<Rightarrow> string list \<Rightarrow> fragment" where
  "buildPointerSection pool durableIdentities =
     (let maxItems = nat (fst (resolveItemBudget (None, None) (int POINTERS_MAX_ITEMS, 0)));
          (rows, truncated) = pointer_rows maxItems durableIdentities [] [] pool
      in \<lparr>frag_section = Some [(''label'', JStr ''pointers''), (''namespace_scoped'', JBool True),
            (''resolvable_reference_only'', JBool True), (''items'', JArr (map pointer_json rows)),
            (''item_count'', jnat (length rows)), (''truncated'', JBool truncated)],
          frag_scopeDenials = [],
          frag_truncation = (if truncated then [JObj [(''source'', JStr ''pointers.items''), (''max_items'', jnat maxItems)]] else []),
          frag_degraded = [], frag_citations = map pointer_citation rows\<rparr>)"

definition buildCandidateSection :: fragment where
  "buildCandidateSection = \<lparr>frag_section = Some [(''label'', JStr ''candidate_memory''), (''namespace_scoped'', JBool True),
       (''confidence'', JStr ''unconfirmed''), (''auto_promotable'', JBool False), (''items'', JArr []), (''item_count'', jnat 0),
       (''empty_reason'', JStr ''candidate_predicate_unavailable''), (''truncated'', JBool False)],
     frag_scopeDenials = [], frag_truncation = [], frag_degraded = [], frag_citations = []\<rparr>"

definition databaseUnavailableFragment :: "string \<Rightarrow> fragment" where
  "databaseUnavailableFragment source = \<lparr>frag_section = None, frag_scopeDenials = [], frag_truncation = [],
     frag_degraded = [JObj [(''source'', JStr source), (''reason'', JStr ''database_unavailable'')]], frag_citations = []\<rparr>"

subsection \<open>The walk of a caller\<close>

text \<open>What a caller does with \<open>next\<close>: it sends the same request with the offset it was given until a reply has none;
  \<open>None\<close> when a reply fails or the walk does not end.\<close>

definition next_offset :: "json_object \<Rightarrow> int option" where
  "next_offset sec = (case get_member ''next'' sec of
     Some (JObj kvs) \<Rightarrow> (case get_member ''offset'' kvs of Some (JNum n) \<Rightarrow> Some (int (read_nat n)) | _ \<Rightarrow> None) | _ \<Rightarrow> None)"

partial_function (option) walk :: "(int option \<Rightarrow> json_object option) \<Rightarrow> int option \<Rightarrow> json list option" where
  "walk reply continueFrom =
     (case reply continueFrom of
        None \<Rightarrow> None
      | Some sec \<Rightarrow> (case next_offset sec of
          None \<Rightarrow> Some (items_of sec)
        | Some k \<Rightarrow> Option.bind (walk reply (Some k)) (\<lambda>later. Some (items_of sec @ later))))"

definition reply_of :: "search_engine \<Rightarrow> auth_identity \<Rightarrow> shared_names option \<Rightarrow> memory_request \<Rightarrow> int option \<Rightarrow> json_object option" where
  "reply_of search auth names rq continueFrom =
     (case loadDurableMemoryContext search auth names (rq\<lparr>mr_continue_from := continueFrom\<rparr>) None of
        Inl _ \<Rightarrow> None | Inr (ctx, pool) \<Rightarrow> ctx_section ctx)"

subsection \<open>Suppression is pure removal\<close>

definition referenced :: "string list \<Rightarrow> recall_identity \<Rightarrow> bool" where
  "referenced suppressed i = (case recallIdentitySchema i of None \<Rightarrow> False
     | Some p \<Rightarrow> \<not> (citation_id i = None \<and> identity_ref i = None) \<and> list_ex (\<lambda>k. k \<in> set suppressed) (suppressionKeys p))"

lemma keep_unreferenced_filter:
  "keep_unreferenced identify suppressed records = Inr kept \<Longrightarrow> kept = filter (\<lambda>r. \<not> referenced suppressed (identify r)) records"
proof (induction records arbitrary: kept)
  case (Cons r rest)
  show ?case
  proof (cases "citation_id (identify r) = None \<and> identity_ref (identify r) = None")
    case True
    with Cons.prems obtain k where "keep_unreferenced identify suppressed rest = Inr k" "kept = r # k"
      by (auto simp: Let_def res_bind_Inr)
    moreover have "\<not> referenced suppressed (identify r)" using True by (simp add: referenced_def split: option.splits)
    ultimately show ?thesis using Cons.IH by simp
  next
    case False
    with Cons.prems obtain i k where i: "recallIdentitySchema (identify r) = Some i"
      "keep_unreferenced identify suppressed rest = Inr k"
      "kept = (if list_ex (\<lambda>k. k \<in> set suppressed) (suppressionKeys i) then k else r # k)"
      by (simp only: keep_unreferenced.simps Let_def if_False split: option.splits) (auto simp: res_bind_Inr)
    have "referenced suppressed (identify r) = list_ex (\<lambda>k. k \<in> set suppressed) (suppressionKeys i)"
      using False i(1) by (simp only: referenced_def option.case simp_thms)
    with i(3) Cons.IH [OF i(2)] show ?thesis by simp
  qed
qed simp

lemma suppress_filter:
  assumes "suppressReferencedRecords records identify prior = Inr (kept, s)"
  obtains suppressed where "buildSuppressionSet prior = Inr suppressed"
    "kept = filter (\<lambda>r. \<not> referenced suppressed (identify r)) records" "sup_net_new s = length kept"
    "sup_recalled s = length records" "sup_suppressed s = length records - length kept"
  using assms by (auto simp: suppressReferencedRecords_def res_bind_Inr dest: keep_unreferenced_filter)

subsection \<open>A burst delivers the bodies that fit\<close>

definition body_of :: "recalled_row \<Rightarrow> string" where
  "body_of row = (case rr_content_preview row of Some s \<Rightarrow> s | None \<Rightarrow> [])"

definition delivered :: "recalled_row list \<Rightarrow> json list" where
  "delivered rows = map (\<lambda>r. item_json r (body_of r)) (filter (\<lambda>r. body_of r \<noteq> []) rows)"

definition body_total :: "recalled_row list \<Rightarrow> int" where
  "body_total rows = sum_list (map (\<lambda>r. int (length (body_of r))) rows)"

lemma body_total_nonneg: "0 \<le> body_total rows"
  unfolding body_total_def by (rule sum_list_nonneg) auto

lemma body_total_append: "body_total (xs @ ys) = body_total xs + body_total ys" by (simp add: body_total_def)

lemma boundedText_whole:
  "int (length s) \<le> n \<Longrightarrow> boundedText (Some s) n = (if s = [] then (None, False) else (Some s, False))"
  by (cases s) (auto simp: boundedText_def)

lemma burst_step_whole:
  assumes "int (length (body_of row)) \<le> remaining_chars b" "int (length (body_of row)) \<le> UNBOUNDED"
  shows "burst_items (burst_step row b) = burst_items b @ delivered [row] \<and>
    remaining_chars (burst_step row b) = remaining_chars b - int (length (body_of row))"
proof (cases "rr_content_preview row")
  case None
  then show ?thesis by (simp add: burst_step_def boundedText_def delivered_def body_of_def)
next
  case (Some s)
  with assms have "int (length s) \<le> min DURABLE_MEMORY_MAX_ITEM_CHARS (remaining_chars b)"
    by (simp add: body_of_def DURABLE_MEMORY_MAX_ITEM_CHARS_def)
  from boundedText_whole [OF this] Some show ?thesis
    by (simp add: burst_step_def delivered_def body_of_def)
qed

lemma fold_burst_whole:
  "body_total rows \<le> remaining_chars b \<Longrightarrow> body_total rows \<le> UNBOUNDED \<Longrightarrow>
     burst_items (fold burst_step rows b) = burst_items b @ delivered rows"
proof (induction rows arbitrary: b)
  case Nil
  then show ?case by (simp add: delivered_def)
next
  case (Cons row rows)
  have "body_total (row # rows) = int (length (body_of row)) + body_total rows" by (simp add: body_total_def)
  with Cons.prems body_total_nonneg [of rows] have "int (length (body_of row)) \<le> remaining_chars b"
    "int (length (body_of row)) \<le> UNBOUNDED" and le: "body_total rows \<le> remaining_chars b - int (length (body_of row))"
    "body_total rows \<le> UNBOUNDED" by auto
  from burst_step_whole [OF this(1,2)] have s: "burst_items (burst_step row b) = burst_items b @ delivered [row]"
    "remaining_chars (burst_step row b) = remaining_chars b - int (length (body_of row))" by auto
  have "burst_items (fold burst_step rows (burst_step row b)) = burst_items (burst_step row b) @ delivered rows"
    by (rule Cons.IH) (use le s in auto)
  then show ?case using s by (simp add: delivered_def)
qed

lemma burst_whole: "body_total rows \<le> maxChars \<Longrightarrow> body_total rows \<le> UNBOUNDED \<Longrightarrow>
    burst_items (buildBurstItems rows maxChars) = delivered rows"
  using fold_burst_whole [of rows "\<lparr>burst_items = [], burst_citations = [], remaining_chars = maxChars, items_truncated = False\<rparr>"]
  by (simp add: buildBurstItems_def)

lemma burst_step_count: "length (burst_items (burst_step row b)) \<le> Suc (length (burst_items b))"
  by (simp add: burst_step_def split: prod.splits option.splits)

lemma fold_burst_count: "length (burst_items (fold burst_step rows b)) \<le> length (burst_items b) + length rows"
proof (induction rows arbitrary: b)
  case (Cons row rows)
  from Cons [of "burst_step row b"] burst_step_count [of row b] show ?case by simp
qed simp

lemma burst_count: "length (burst_items (buildBurstItems rows n)) \<le> length rows"
  using fold_burst_count [of rows "\<lparr>burst_items = [], burst_citations = [], remaining_chars = n, items_truncated = False\<rparr>"]
  by (simp add: buildBurstItems_def)

subsection \<open>What a reply says\<close>

lemma memory_section_members:
  "items_of (memory_section q e b t w s) = burst_items b"
  "get_member ''next'' (memory_section q e b t w s) =
     (if bw_more w then Some (JObj [(''offset'', jnat (bw_end w)), (''delivered_through'', jnat (bw_end w))]) else None)"
  "says_truncated (memory_section q e b t w s)"
  by (simp_all add: memory_section_def next_member_def items_of_def get_member_def array_of_def says_truncated_def
    map_of_append map_add_def split: option.splits)

lemma next_offset_memory: "next_offset (memory_section q e b t w s) = (if bw_more w then Some (int (bw_end w)) else None)"
proof -
  have "get_member ''offset'' [(''offset'', jnat (bw_end w)), (''delivered_through'', jnat (bw_end w))] = Some (JNum (show_nat (bw_end w)))"
    by (simp add: get_member_def jnat_def)
  then show ?thesis by (simp add: next_offset_def memory_section_members read_show_nat)
qed

lemma empty_section_members: "items_of (emptySection q why) = []" "next_offset (emptySection q why) = None"
  "says_truncated (emptySection q why)"
  by (auto simp: emptySection_def items_of_def next_offset_def get_member_def array_of_def says_truncated_def)

lemma prepare_empty:
  assumes "prepareRecall auth names rq q n = Inr (Inl fragment)"
  shows "\<exists>q why. ctx_section fragment = Some (emptySection q why)"
proof (cases "q = []")
  case True
  with assms have "fragment = emptyFragment (emptySection JNull ''no_query'') n [] []" by (simp add: prepareRecall_def)
  then show ?thesis by (auto simp only: emptyFragment_def recall_context.simps)
next
  case False
  with assms have "fragment = emptyFragment (emptySection (JStr q) ''no_readable_tables'') n
      [JObj [(''source'', JStr ''durable_memory''), (''reasons'', JArr [JStr ''no_readable_tables''])]] []"
    by (auto simp: prepareRecall_def Let_def res_bind_Inr split: if_splits)
  then show ?thesis by (auto simp only: emptyFragment_def recall_context.simps)
qed

text \<open>The three outcomes of a load.\<close>

lemma load_cases:
  assumes "loadDurableMemoryContext search auth names rq limit = Inr (ctx, net)"
  shows "(net = [] \<and> (\<exists>q why. ctx_section ctx = Some (emptySection q why))) \<or>
    (\<exists>tables ns rows s. prepareRecall auth names rq (trim (the (mr_query rq)))
         (resolveContentChars (mr_max_tokens rq) limit DURABLE_MEMORY_MAX_CONTENT_CHARS) = Inr (Inr (tables, ns)) \<and>
       search tables (trim (the (mr_query rq))) ns = Inr rows \<and>
       suppressReferencedRecords rows row_identity (mr_prior_context rq) = Inr (net, s) \<and>
       ctx = memory_context (trim (the (mr_query rq))) (mr_continue_from rq)
         (resolveContentChars (mr_max_tokens rq) limit DURABLE_MEMORY_MAX_CONTENT_CHARS) net s (length rows))"
proof -
  let ?max = "resolveContentChars (mr_max_tokens rq) limit DURABLE_MEMORY_MAX_CONTENT_CHARS"
  let ?q = "case mr_query rq of Some q \<Rightarrow> trim q | None \<Rightarrow> []"
  obtain prepared where p: "prepareRecall auth names rq ?q ?max = Inr prepared"
    and rest: "(case prepared of Inl fragment \<Rightarrow> Inr (fragment, [])
         | Inr (tables, ns) \<Rightarrow> (case search tables ?q ns of
             Inl _ \<Rightarrow> Inr (emptyFragment (emptySection (JStr ?q) ''recall_failed'') ?max []
               [JObj [(''source'', JStr ''durable_memory''), (''reason'', JStr ''recall_failed'')]], [])
           | Inr rows \<Rightarrow> res_bind (suppressReferencedRecords rows row_identity (mr_prior_context rq)) (\<lambda>(netNewRows, s).
               Inr (memory_context ?q (mr_continue_from rq) ?max netNewRows s (length rows), netNewRows)))) = Inr (ctx, net)"
    using assms by (auto simp: loadDurableMemoryContext_def Let_def res_bind_Inr)
  show ?thesis
  proof (cases prepared)
    case (Inl fragment)
    from prepare_empty [OF p [unfolded Inl]] have "\<exists>q why. ctx_section fragment = Some (emptySection q why)" .
    with Inl rest show ?thesis by simp
  next
    case (Inr tn)
    obtain tables ns where tn: "tn = (tables, ns)" by (metis surj_pair)
    have q: "?q = trim (the (mr_query rq))" using p unfolding Inr by (cases "mr_query rq") (simp_all add: prepareRecall_def)
    show ?thesis
    proof (cases "search tables ?q ns")
      case (Inl e)
      with Inr tn rest have "ctx_section ctx = Some (emptySection (JStr ?q) ''recall_failed'')" "net = []"
        by (auto simp: emptyFragment_def)
      then show ?thesis by blast
    next
      case rows: (Inr rows)
      with Inr tn rest obtain s where "suppressReferencedRecords rows row_identity (mr_prior_context rq) = Inr (net, s)"
        "ctx = memory_context ?q (mr_continue_from rq) ?max net s (length rows)" by (auto simp: res_bind_Inr)
      with p [unfolded Inr tn] rows show ?thesis unfolding q by blast
    qed
  qed
qed

text \<open>Only the window moves with the offset.\<close>

lemma prepare_continue: "prepareRecall auth names (rq\<lparr>mr_continue_from := off\<rparr>) q n = prepareRecall auth names rq q n"
  by (cases "mr_arg_namespace rq") (simp_all add: prepareRecall_def Let_def)

lemma reply_of_memory:
  assumes "loadDurableMemoryContext search auth names rq None = Inr (ctx, net)" "mr_max_tokens rq = None"
  shows "(net = [] \<and> (\<exists>q why. \<forall>off. reply_of search auth names rq off = Some (emptySection q why))) \<or>
    (\<exists>q e t s. \<forall>off. reply_of search auth names rq off =
      Some (memory_section q (e off) (buildBurstItems (bw_rows (burstWindow net off)) UNBOUNDED) (t off) (burstWindow net off) s))"
proof -
  let ?q = "case mr_query rq of Some q \<Rightarrow> trim q | None \<Rightarrow> []"
  obtain prepared where p: "prepareRecall auth names rq ?q UNBOUNDED = Inr prepared"
    using assms by (auto simp: loadDurableMemoryContext_def Let_def res_bind_Inr resolveContentChars_def DURABLE_MEMORY_MAX_CONTENT_CHARS_def)
  have load: "loadDurableMemoryContext search auth names (rq\<lparr>mr_continue_from := off\<rparr>) None =
     (case prepared of Inl fragment \<Rightarrow> Inr (fragment, [])
         | Inr (tables, ns) \<Rightarrow> (case search tables ?q ns of
             Inl _ \<Rightarrow> Inr (emptyFragment (emptySection (JStr ?q) ''recall_failed'') UNBOUNDED []
               [JObj [(''source'', JStr ''durable_memory''), (''reason'', JStr ''recall_failed'')]], [])
           | Inr rows \<Rightarrow> res_bind (suppressReferencedRecords rows row_identity (mr_prior_context rq)) (\<lambda>(netNewRows, s).
               Inr (memory_context ?q off UNBOUNDED netNewRows s (length rows), netNewRows))))" for off
    using p assms(2)
    by (simp add: loadDurableMemoryContext_def Let_def prepare_continue resolveContentChars_def DURABLE_MEMORY_MAX_CONTENT_CHARS_def
      split: sum.split prod.split)
  have mine: "rq = rq\<lparr>mr_continue_from := mr_continue_from rq\<rparr>" by simp
  note whole = assms(1) [unfolded arg_cong [OF mine, of "\<lambda>r. loadDurableMemoryContext search auth names r None"] load]
  show ?thesis
  proof (cases prepared)
    case (Inl fragment)
    from prepare_empty [OF p [unfolded Inl]] have "\<exists>q why. ctx_section fragment = Some (emptySection q why)" .
    with whole Inl show ?thesis by (auto simp: reply_of_def load)
  next
    case (Inr tn)
    obtain tables ns where tn: "tn = (tables, ns)" by (metis surj_pair)
    show ?thesis
    proof (cases "search tables ?q ns")
      case (Inl e)
      have "reply_of search auth names rq off = Some (emptySection (JStr ?q) ''recall_failed'')" for off
        by (simp add: reply_of_def load Inr tn Inl emptyFragment_def)
      moreover have "net = []" using whole Inr tn Inl by simp
      ultimately show ?thesis by blast
    next
      case rows: (Inr rows)
      with whole Inr tn obtain s where s: "suppressReferencedRecords rows row_identity (mr_prior_context rq) = Inr (net, s)"
        by (auto simp: res_bind_Inr)
      have r: "reply_of search auth names rq off = ctx_section (memory_context ?q off UNBOUNDED net s (length rows))" for off
        by (simp add: reply_of_def load Inr tn rows s)
      show ?thesis
        by (intro disjI2 exI allI) (rule trans [OF r], unfold memory_context_def Let_def recall_context.simps, rule refl)
    qed
  qed
qed

lemma window_rows: "bw_rows (burstWindow net (Some (int k))) = take 10 (drop k net)" "bw_rows (burstWindow net None) = take 10 net"
  by (simp_all add: burstWindow_def Let_def slice_def DURABLE_MEMORY_BURST_ITEMS_def)

lemma window_end: "bw_end (burstWindow net (Some (int k))) = k + min 10 (length net - k)" "bw_end (burstWindow net None) = min 10 (length net)"
  by (simp_all add: burstWindow_def Let_def slice_def DURABLE_MEMORY_BURST_ITEMS_def min.commute)

lemma window_more: "bw_more (burstWindow net off) = (bw_end (burstWindow net off) < length net)"
  by (simp add: burstWindow_def Let_def)

lemma body_total_take: "body_total (take n xs) \<le> body_total xs"
  using body_total_append [of "take n xs" "drop n xs"] body_total_nonneg [of "drop n xs"] by simp
lemma body_total_drop: "body_total (drop n xs) \<le> body_total xs"
  using body_total_append [of "take n xs" "drop n xs"] body_total_nonneg [of "take n xs"] by simp

lemma delivered_append: "delivered (xs @ ys) = delivered xs @ delivered ys" by (simp add: delivered_def)

lemma walk_windows:
  assumes reply: "\<And>off. reply off = Some (memory_section q (e off) (buildBurstItems (bw_rows (burstWindow net off)) UNBOUNDED)
      (t off) (burstWindow net off) s)"
    and total: "body_total net \<le> UNBOUNDED" and start: "burstWindow net off = burstWindow net (Some (int k))"
  shows "walk reply off = Some (delivered (drop k net))"
  using start
proof (induction "length net - k" arbitrary: k off rule: less_induct)
  case less
  let ?w = "burstWindow net (Some (int k))"
  have le: "body_total (take 10 (drop k net)) \<le> UNBOUNDED"
    using body_total_take [of 10 "drop k net"] body_total_drop [of k net] total by linarith
  have here: "burst_items (buildBurstItems (bw_rows ?w) UNBOUNDED) = delivered (take 10 (drop k net))"
    unfolding window_rows by (rule burst_whole [OF le le])
  show ?case
  proof (cases "bw_more ?w")
    case False
    then have "length net \<le> k + 10" unfolding window_more window_end by (simp add: min_def split: if_splits)
    then have "take 10 (drop k net) = drop k net" by simp
    with False here show ?thesis
      by (subst walk.simps) (simp add: reply less.prems next_offset_memory memory_section_members)
  next
    case True
    then have k: "k + 10 < length net" and e: "bw_end ?w = k + 10" unfolding window_more window_end by (auto simp: min_def split: if_splits)
    have "walk reply (Some (int (k + 10))) = Some (delivered (drop (k + 10) net))" by (rule less.hyps) (use k in simp_all)
    moreover have "drop k net = take 10 (drop k net) @ drop (k + 10) net" by (metis add.commute append_take_drop_id drop_drop)
    then have "delivered (drop k net) = delivered (take 10 (drop k net)) @ delivered (drop (k + 10) net)"
      by (metis delivered_append)
    ultimately show ?thesis using True here e
      by (subst walk.simps) (simp add: reply less.prems next_offset_memory memory_section_members)
  qed
qed

lemma reply_count:
  assumes "reply_of search auth names rq off = Some sec"
  shows "length (items_of sec) \<le> DURABLE_MEMORY_BURST_ITEMS"
proof -
  obtain ctx net where l: "loadDurableMemoryContext search auth names (rq\<lparr>mr_continue_from := off\<rparr>) None = Inr (ctx, net)"
    "ctx_section ctx = Some sec" using assms by (auto simp: reply_of_def split: sum.splits)
  from load_cases [OF l(1)] show ?thesis
  proof (elim disjE exE conjE)
    fix q why
    assume "ctx_section ctx = Some (emptySection q why)"
    with l(2) have "sec = emptySection q why" by simp
    then show ?thesis by (simp add: empty_section_members)
  next
    fix tables ns rows s
    assume "ctx = memory_context (trim (the (mr_query (rq\<lparr>mr_continue_from := off\<rparr>)))) (mr_continue_from (rq\<lparr>mr_continue_from := off\<rparr>))
         (resolveContentChars (mr_max_tokens (rq\<lparr>mr_continue_from := off\<rparr>)) None DURABLE_MEMORY_MAX_CONTENT_CHARS) net s (length rows)"
    with l(2) have "items_of sec = burst_items (buildBurstItems (bw_rows (burstWindow net off))
        (resolveContentChars (mr_max_tokens rq) None DURABLE_MEMORY_MAX_CONTENT_CHARS))"
      by (auto simp: memory_context_def Let_def memory_section_members)
    moreover have "length (bw_rows (burstWindow net off)) \<le> DURABLE_MEMORY_BURST_ITEMS"
      by (simp add: burstWindow_def Let_def slice_def)
    ultimately show ?thesis by (metis burst_count le_trans)
  qed
qed

text \<open>C21: a caller that sets no budget and follows \<open>next\<close> until a reply has none gets an end, and by then it has
  received every net-new record of the recall that has a body, each exactly once, whole and in rank order, although no
  reply carries more than ten.\<close>

theorem walk_delivers_every_record:
  assumes load: "loadDurableMemoryContext search auth names rq None = Inr (ctx, net)"
    and budget: "mr_max_tokens rq = None" and total: "body_total net \<le> UNBOUNDED"
  shows "walk (reply_of search auth names rq) None = Some (delivered net) \<and>
    (\<forall>off sec. reply_of search auth names rq off = Some sec \<longrightarrow> length (items_of sec) \<le> 10)"
proof
  from reply_of_memory [OF load budget]
  show "walk (reply_of search auth names rq) None = Some (delivered net)"
  proof (elim disjE exE conjE)
    fix q why
    assume "net = []" "\<forall>off. reply_of search auth names rq off = Some (emptySection q why)"
    then show ?thesis by (subst walk.simps) (simp add: empty_section_members delivered_def)
  next
    fix q e t s
    assume r: "\<forall>off. reply_of search auth names rq off = Some (memory_section q (e off)
      (buildBurstItems (bw_rows (burstWindow net off)) UNBOUNDED) (t off) (burstWindow net off) s)"
    have "burstWindow net None = burstWindow net (Some (int 0))" by (simp add: burstWindow_def)
    from walk_windows [OF spec [OF r] total this] show ?thesis by simp
  qed
  show "\<forall>off sec. reply_of search auth names rq off = Some sec \<longrightarrow> length (items_of sec) \<le> 10"
    using reply_count by (simp add: DURABLE_MEMORY_BURST_ITEMS_def)
qed

subsection \<open>Prior context removes what it names and nothing else\<close>

lemma key_in_set: "buildSuppressionSet prior = Inr suppressed \<Longrightarrow>
    k \<in> set suppressed \<longleftrightarrow> (\<exists>r \<in> set prior. \<exists>p. recallIdentitySchema r = Some p \<and> k \<in> set (suppressionKeys p))"
proof (induction prior arbitrary: suppressed)
  case (Cons r rest)
  then obtain p ks where p: "recallIdentitySchema r = Some p" "buildSuppressionSet rest = Inr ks" "suppressed = suppressionKeys p @ ks"
    by (auto simp: res_bind_Inr split: option.splits)
  with Cons.IH [OF p(2)] show ?case by simp
qed simp

lemma keys_by_family:
  "''citation:'' @ s \<in> set (suppressionKeys p) \<longleftrightarrow> citation_id p = Some s"
  "''source_ref:'' @ s \<in> set (suppressionKeys p) \<longleftrightarrow> map_option canonicalSourceRefKey (identity_ref p) = Some s"
  by (cases "identity_ref p"; auto simp: suppressionKeys_def split: option.splits)+

lemma row_keys:
  assumes "recallIdentitySchema (row_identity row) = Some p"
  shows "\<exists>c r. citation_id p = Some c \<and> bounded_string 500 (recordCitationId row) = Some c \<and> identity_ref p = Some r \<and>
    sourceRefSchema (the (identity_ref (row_identity row))) = Some r \<and>
    suppressionKeys p = [''citation:'' @ c, ''source_ref:'' @ canonicalSourceRefKey r]"
  using assms
  by (auto simp: recallIdentitySchema_def row_identity_def Let_def optional_string_def suppressionKeys_def split: option.splits if_splits)

text \<open>A reference names a row by its citation id or by its source coordinates, both sides read by one schema.\<close>

definition names_row :: "recall_identity \<Rightarrow> recalled_row \<Rightarrow> bool" where
  "names_row reference row =
     (case (recallIdentitySchema (row_identity row), recallIdentitySchema reference) of
        (Some p, Some q) \<Rightarrow> citation_id q = citation_id p \<or>
          map_option canonicalSourceRefKey (identity_ref q) = map_option canonicalSourceRefKey (identity_ref p)
      | _ \<Rightarrow> False)"

lemma referenced_names:
  assumes b: "buildSuppressionSet prior = Inr suppressed"
  shows "referenced suppressed (row_identity row) = list_ex (\<lambda>r. names_row r row) prior"
proof (cases "recallIdentitySchema (row_identity row)")
  case None
  then show ?thesis by (simp add: referenced_def names_row_def list_ex_iff)
next
  case (Some p)
  obtain c r where k: "citation_id p = Some c" "identity_ref p = Some r"
    "suppressionKeys p = [''citation:'' @ c, ''source_ref:'' @ canonicalSourceRefKey r]" using row_keys [OF Some] by blast
  have some: "citation_id (row_identity row) \<noteq> None" by (simp add: row_identity_def Let_def)
  have "referenced suppressed (row_identity row) =
      (''citation:'' @ c \<in> set suppressed \<or> ''source_ref:'' @ canonicalSourceRefKey r \<in> set suppressed)"
    using Some some k(3) by (simp add: referenced_def)
  also have "\<dots> = (\<exists>reference \<in> set prior. \<exists>q. recallIdentitySchema reference = Some q \<and>
       (citation_id q = Some c \<or> map_option canonicalSourceRefKey (identity_ref q) = Some (canonicalSourceRefKey r)))"
    unfolding key_in_set [OF b] keys_by_family by blast
  also have "\<dots> = (\<exists>reference \<in> set prior. names_row reference row)"
    by (rule bex_cong [OF refl]) (simp add: names_row_def Some k split: option.split)
  finally show ?thesis by (simp add: list_ex_iff)
qed

text \<open>Prior context is pure removal: the records that stay are those of the recall, in its order, that no reference
  of the request names by citation or by source; a record that cannot be named stays, and the counters add up.\<close>

theorem prior_context_removes_exactly:
  assumes ok: "suppressReferencedRecords rows row_identity prior = Inr (kept, s)"
  shows "kept = filter (\<lambda>row. \<not> list_ex (\<lambda>r. names_row r row) prior) rows \<and>
    sup_recalled s = sup_suppressed s + sup_net_new s"
proof -
  obtain suppressed where b: "buildSuppressionSet prior = Inr suppressed"
    "kept = filter (\<lambda>r. \<not> referenced suppressed (row_identity r)) rows" "sup_net_new s = length kept"
    "sup_recalled s = length rows" "sup_suppressed s = length rows - length kept" using suppress_filter [OF ok] .
  have "length kept \<le> length rows" unfolding b(2) by (rule length_filter_le)
  with b referenced_names [OF b(1)] show ?thesis by simp
qed

text \<open>The separator of the source key may stand inside a field, so two sources can share a key.\<close>

lemma source_keys_collide:
  "let us = [CHR 0x1F]; a = RefObject (''a'' @ us @ ''b'') ''c'' ''d'' None; b = RefObject ''a'' (''b'' @ us @ ''c'') ''d'' None
   in sourceRefSchema a = Some a \<and> sourceRefSchema b = Some b \<and> a \<noteq> b \<and> canonicalSourceRefKey a = canonicalSourceRefKey b"
  by code_simp

subsection \<open>Pointers\<close>

fun first_by :: "('a \<Rightarrow> 'k) \<Rightarrow> 'k set \<Rightarrow> 'a list \<Rightarrow> 'a list" where
  "first_by key seen [] = []"
| "first_by key seen (x # xs) = (if key x \<in> seen then first_by key seen xs else x # first_by key (insert (key x) seen) xs)"

lemma first_by_keys:
  "distinct (map key (first_by key seen xs))" "set (map key (first_by key seen xs)) = set (map key xs) - seen"
proof -
  have "distinct (map key (first_by key seen xs)) \<and> set (map key (first_by key seen xs)) = set (map key xs) - seen"
  proof (induction xs arbitrary: seen)
    case (Cons x xs)
    from Cons [of seen] Cons [of "insert (key x) seen"] show ?case by auto
  qed simp
  then show "distinct (map key (first_by key seen xs))" "set (map key (first_by key seen xs)) = set (map key xs) - seen" by auto
qed

lemma pointer_rows_take:
  "length acc \<le> n \<Longrightarrow> pointer_rows n durable seen acc pool =
     (let F = first_by recordCitationId (set seen) (filter (\<lambda>r. recordCitationId r \<notin> set durable) pool)
      in (acc @ take (n - length acc) F, n - length acc < length F))"
proof (induction n durable seen acc pool rule: pointer_rows.induct)
  case (1 n durable seen acc)
  then show ?case by simp
next
  case (2 n durable seen acc row pool)
  show ?case
  proof (cases "recordCitationId row \<in> set durable \<or> recordCitationId row \<in> set seen")
    case True
    with 2 show ?thesis by (auto simp: Let_def)
  next
    case False
    show ?thesis
    proof (cases "n \<le> length acc")
      case True
      with False 2(4) show ?thesis by (simp add: Let_def)
    next
      case lt: False
      then have d: "n - length acc = Suc (n - Suc (length acc))" by simp
      from 2(3) [OF refl] False lt show ?thesis by (simp add: Let_def d)
    qed
  qed
qed

definition pointer_ids :: "fragment \<Rightarrow> string list" where
  "pointer_ids frag = (case frag_section frag of None \<Rightarrow> []
     | Some sec \<Rightarrow> List.map_filter (\<lambda>x. string_of (member_of ''citation_id'' x)) (items_of sec))"

definition bodiless :: "json \<Rightarrow> bool" where
  "bodiless j = list_all (\<lambda>k. member_of k j = None) [''content'', ''content_preview'', ''label'', ''preview'']"

definition bodiless_item :: "json \<Rightarrow> bool" where
  "bodiless_item j = (bodiless j \<and> (case member_of ''source_ref'' j of Some r \<Rightarrow> bodiless r | None \<Rightarrow> False))"

lemma pointer_section:
  assumes "F = first_by recordCitationId {} (filter (\<lambda>r. recordCitationId r \<notin> set durable) pool)"
  shows "frag_section (buildPointerSection pool durable) = Some [(''label'', JStr ''pointers''), (''namespace_scoped'', JBool True),
      (''resolvable_reference_only'', JBool True), (''items'', JArr (map pointer_json (take 20 F))),
      (''item_count'', jnat (length (take 20 F))), (''truncated'', JBool (20 < length F))]"
    "frag_truncation (buildPointerSection pool durable) = [] \<longleftrightarrow> length F \<le> 20"
proof -
  have "nat (fst (resolveItemBudget (None, None) (int POINTERS_MAX_ITEMS, 0))) = 20"
    by (simp add: resolveItemBudget_def Let_def POINTERS_MAX_ITEMS_def)
  moreover have "pointer_rows 20 durable [] [] pool = (take 20 F, 20 < length F)"
    by (simp add: pointer_rows_take Let_def assms)
  ultimately show "frag_section (buildPointerSection pool durable) = Some [(''label'', JStr ''pointers''), (''namespace_scoped'', JBool True),
      (''resolvable_reference_only'', JBool True), (''items'', JArr (map pointer_json (take 20 F))),
      (''item_count'', jnat (length (take 20 F))), (''truncated'', JBool (20 < length F))]"
    "frag_truncation (buildPointerSection pool durable) = [] \<longleftrightarrow> length F \<le> 20"
    by (simp_all add: buildPointerSection_def Let_def not_less)
qed

lemma pointer_json_id: "string_of (member_of ''citation_id'' (pointer_json r)) = Some (recordCitationId r)"
  by (simp add: pointer_json_def member_of_def get_member_def string_of_def)

lemma pointer_json_bodiless: "bodiless_item (pointer_json r)"
  by (cases "ref_namespace (recordSourceRef r)")
    (simp_all add: bodiless_item_def bodiless_def pointer_json_def member_of_def get_member_def recordStructuralSourceRef_def
      namespace_member_def Let_def)

lemma map_filter_Some: "List.map_filter (\<lambda>x. Some (f x)) xs = map f xs"
  by (induction xs) (simp_all add: List.map_filter_simps)

lemma pointer_ids_take:
  assumes "F = first_by recordCitationId {} (filter (\<lambda>r. recordCitationId r \<notin> set durable) pool)"
  shows "pointer_ids (buildPointerSection pool durable) = take 20 (map recordCitationId F)"
proof -
  have "List.map_filter (\<lambda>x. string_of (member_of ''citation_id'' x)) (map pointer_json rows) = map recordCitationId rows" for rows
    by (induction rows) (simp_all add: List.map_filter_simps pointer_json_id)
  then show ?thesis
    by (simp add: pointer_ids_def pointer_section(1) [OF assms] items_of_def get_member_def array_of_def take_map)
qed

text \<open>Beside a memory section the pointers account for the rest of the recall without repeating a body: they are
  distinct, point at nothing the section still holds, number at most twenty and carry no text; unless the twenty are
  used up and the fragment says so, every net-new record is either in the section that is sent or pointed at.\<close>

theorem recalled_records_stay_reachable:
  assumes frag: "frag = buildPointerSection pool (retainedDurableIdentities memory)"
  shows "distinct (pointer_ids frag) \<and> set (pointer_ids frag) \<inter> set (retainedDurableIdentities memory) = {} \<and>
    length (pointer_ids frag) \<le> 20 \<and> list_all bodiless_item (items_of (the (frag_section frag))) \<and>
    (if frag_truncation frag = []
     then recordCitationId ` set pool \<subseteq> set (retainedDurableIdentities memory) \<union> set (pointer_ids frag)
     else length (pointer_ids frag) = 20)"
proof -
  let ?D = "set (retainedDurableIdentities memory)"
  define F where "F = first_by recordCitationId {} (filter (\<lambda>r. recordCitationId r \<notin> ?D) pool)"
  note ids = pointer_ids_take [OF F_def, folded frag] and sec = pointer_section [OF F_def, folded frag]
  have keys: "distinct (map recordCitationId F)" "set (map recordCitationId F) = recordCitationId ` {r \<in> set pool. recordCitationId r \<notin> ?D}"
    using first_by_keys [of recordCitationId "{}" "filter (\<lambda>r. recordCitationId r \<notin> ?D) pool"] by (auto simp: F_def)
  have "distinct (pointer_ids frag)" "set (pointer_ids frag) \<inter> ?D = {}" "length (pointer_ids frag) \<le> 20"
    unfolding ids using keys by (auto dest: in_set_takeD simp del: set_map)
  moreover have "list_all bodiless_item (items_of (the (frag_section frag)))"
    by (simp add: sec(1) items_of_def get_member_def array_of_def list_all_iff pointer_json_bodiless)
  moreover have "if frag_truncation frag = [] then recordCitationId ` set pool \<subseteq> ?D \<union> set (pointer_ids frag) else length (pointer_ids frag) = 20"
  proof (cases "length F \<le> 20")
    case True
    then have "pointer_ids frag = map recordCitationId F" unfolding ids by simp
    with keys(2) have "recordCitationId ` set pool \<subseteq> ?D \<union> set (pointer_ids frag)" by auto
    with True sec(2) show ?thesis by simp
  next
    case False
    then show ?thesis unfolding ids using sec(2) by simp
  qed
  ultimately show ?thesis by blast
qed

subsection \<open>A budgeted walk skips what the fit trimmed\<close>

definition budgeted_reply ::
  "search_engine \<Rightarrow> auth_identity \<Rightarrow> shared_names option \<Rightarrow> memory_request \<Rightarrow> pack_allocator \<Rightarrow> int option \<Rightarrow> json_object option" where
  "budgeted_reply search auth names rq a continueFrom =
     (case sectionServing a ''durable_memory'' of (frame, serving, limit) \<Rightarrow>
        (case loadDurableMemoryContext search auth names (rq\<lparr>mr_continue_from := continueFrom\<rparr>) limit of
           Inl _ \<Rightarrow> None
         | Inr (ctx, pool) \<Rightarrow>
             adm_section (fst (admitDurableMemorySection a (ctx_section ctx) (ctx_citations ctx) frame serving))))"

lemma ranked_fit_keeps:
  assumes "k \<notin> {''items'', ''item_count'', ''truncated'', ''empty_reason''}"
  shows "get_member k (fit_section (fitRankedItemSection sec [''item_count''] serving)) = get_member k sec"
proof (cases "fit_truncated (counted_fit sec serving)")
  case True
  obtain kept where "fit_section (counted_fit sec serving) = with_items sec [''item_count''] kept"
    using trimmed_section [OF True] by metis
  with True assms show ?thesis
    by (simp add: fitRankedItemSection_def Let_def stamp_def get_set_member get_with_items)
next
  case False
  then show ?thesis using fitItemSection_untouched [OF False] by (simp add: fitRankedItemSection_def Let_def)
qed

lemma ranked_fit_prefix:
  "\<exists>n. items_of (fit_section (fitRankedItemSection sec [''item_count''] serving)) = take n (items_of sec)"
proof (cases "fit_truncated (counted_fit sec serving)")
  case True
  obtain n where "items_of (fit_section (counted_fit sec serving)) = part True n (items_of sec)"
    using fitItemSection_items [OF _ True] by auto
  then show ?thesis using True
    by (auto simp: fitRankedItemSection_def Let_def stamp_def items_of_def get_set_member part_def)
next
  case False
  then show ?thesis using fitItemSection_untouched [OF False]
    by (intro exI [of _ "length (items_of sec)"]) (simp add: fitRankedItemSection_def Let_def)
qed

lemma admitted_memory:
  assumes "adm_section (fst (admitDurableMemorySection a (Some sec) cs frame serving)) = Some s"
  shows "s = sec \<or> s = fit_section (fitRankedItemSection sec [''item_count''] serving)"
  using assms by (auto simp: admitDurableMemorySection_def Let_def split: if_splits)

lemma next_offset_kept: "get_member ''next'' s = get_member ''next'' sec \<Longrightarrow> next_offset s = next_offset sec"
  by (simp add: next_offset_def)

lemma context_section:
  "\<exists>e b t. ctx_section (memory_context query off m net s n) = Some (memory_section query e b t (burstWindow net off) s)"
  unfolding memory_context_def Let_def recall_context.simps by blast

text \<open>C22: under a budget the walk loses records. A recall that fits one burst has no \<open>next\<close>, and the fit of the pack
  drops lowest-ranked records without adding one: the walk ends with that reply, which holds a prefix of the burst.
  The handle is documented to disappear only when every record was delivered.\<close>

theorem budgeted_walk_ends_short:
  assumes srv: "sectionServing a ''durable_memory'' = (frame, serving, limit)"
    and load: "loadDurableMemoryContext search auth names (rq\<lparr>mr_continue_from := None\<rparr>) limit = Inr (ctx, net)"
    and one: "length net \<le> 10" and reply: "budgeted_reply search auth names rq a None = Some sec"
  shows "walk (budgeted_reply search auth names rq a) None = Some (items_of sec) \<and>
    (\<exists>n. items_of sec = take n (items_of (the (ctx_section ctx))))"
proof -
  obtain loaded where l: "ctx_section ctx = Some loaded" "next_offset loaded = None"
  proof -
    from load_cases [OF load] show ?thesis
    proof (elim disjE exE conjE)
      fix q why
      assume "ctx_section ctx = Some (emptySection q why)"
      then show ?thesis by (rule that) (simp add: empty_section_members)
    next
      fix tables ns rows s
      assume c: "ctx = memory_context (trim (the (mr_query (rq\<lparr>mr_continue_from := None\<rparr>))))
          (mr_continue_from (rq\<lparr>mr_continue_from := None\<rparr>))
          (resolveContentChars (mr_max_tokens (rq\<lparr>mr_continue_from := None\<rparr>)) limit DURABLE_MEMORY_MAX_CONTENT_CHARS) net s (length rows)"
      have "\<not> bw_more (burstWindow net None)" using one by (simp add: window_more window_end min_def)
      then have "next_offset (memory_section q e b t (burstWindow net None) s) = None" for q e b t s by (simp add: next_offset_memory)
      moreover obtain q e b t where "ctx_section ctx = Some (memory_section q e b t (burstWindow net None) s)"
        using context_section [of "trim (the (mr_query rq))" None "resolveContentChars (mr_max_tokens rq) limit DURABLE_MEMORY_MAX_CONTENT_CHARS" net s "length rows"]
        unfolding c by auto
      ultimately show ?thesis using that by blast
    qed
  qed
  have "adm_section (fst (admitDurableMemorySection a (Some loaded) (ctx_citations ctx) frame serving)) = Some sec"
    using reply by (simp add: budgeted_reply_def srv load l)
  from admitted_memory [OF this] have s: "get_member ''next'' sec = get_member ''next'' loaded" "\<exists>n. items_of sec = take n (items_of loaded)"
    using ranked_fit_keeps [of "''next''" loaded serving] ranked_fit_prefix [of loaded serving] by (auto intro: exI [of _ "length (items_of loaded)"])
  have "walk (budgeted_reply search auth names rq a) None = Some (items_of sec)"
    by (subst walk.simps) (simp add: reply next_offset_kept [OF s(1)] l)
  with s(2) l show ?thesis by simp
qed

subsection \<open>The properties on a small recall\<close>

definition demo_row :: "char \<Rightarrow> recalled_row" where
  "demo_row c = \<lparr>rr_source_type = ''thought'', rr_id = [c], rr_namespace = None, rr_content_preview = Some ''abc'', rr_created_at = ''t'',
     rr_updated_at = None, rr_tier = None, rr_source_ref = None\<rparr>"

definition demo_search :: "recalled_row list \<Rightarrow> search_engine" where
  "demo_search rows tables query ns = Inr rows"

definition demo_request :: "recall_identity list \<Rightarrow> memory_request" where
  "demo_request prior = \<lparr>mr_query = Some ''abc'', mr_arg_namespace = None, mr_namespace = ''bilby'', mr_max_tokens = None,
     mr_prior_context = prior, mr_continue_from = None\<rparr>"

definition demo_names :: shared_names where
  "demo_names = sharedNamespaceConfig empty_env"

lemma demo_prepare: "\<exists>tables ns. \<forall>n. prepareRecall demo_agent (Some demo_names) (demo_request prior) ''abc'' n = Inr (Inr (tables, ns))"
proof -
  have "readableSearchSources (role_of demo_agent) \<noteq> []" by code_simp
  moreover have "case namespaceFilterFor demo_agent None False (Some demo_names) of Inl e \<Rightarrow> False | Inr ns \<Rightarrow> True" by code_simp
  then obtain ns where "namespaceFilterFor demo_agent None False (Some demo_names) = Inr ns" by (auto split: sum.splits)
  ultimately show ?thesis by (simp add: prepareRecall_def demo_request_def Let_def)
qed

lemma demo_load:
  assumes "suppressReferencedRecords rows row_identity prior = Inr (net, s)"
  shows "loadDurableMemoryContext (demo_search rows) demo_agent (Some demo_names) (demo_request prior) limit =
    Inr (memory_context ''abc'' None (resolveContentChars None limit DURABLE_MEMORY_MAX_CONTENT_CHARS) net s (length rows), net)"
proof -
  obtain tables ns where p: "\<And>n. prepareRecall demo_agent (Some demo_names) (demo_request prior) ''abc'' n = Inr (Inr (tables, ns))"
    using demo_prepare by blast
  have "trim ''abc'' = ''abc''" by code_simp
  then show ?thesis using p assms
    by (simp add: loadDurableMemoryContext_def Let_def demo_search_def) (simp add: demo_request_def)
qed

definition eleven_rows :: "recalled_row list" where
  "eleven_rows = map demo_row ''0123456789a''"

theorem walk_delivers_every_record_witness:
  "map_option length (walk (reply_of (demo_search eleven_rows) demo_agent (Some demo_names) (demo_request [])) None) = Some 11"
proof -
  have "map_option (map rr_id \<circ> fst) (case suppressReferencedRecords eleven_rows row_identity [] of Inr r \<Rightarrow> Some r | Inl e \<Rightarrow> None) =
      Some (map rr_id eleven_rows)" by code_simp
  have kept: "case suppressReferencedRecords eleven_rows row_identity [] of Inl e \<Rightarrow> False | Inr (net, s) \<Rightarrow> net = eleven_rows" by code_simp
  then obtain s where s: "suppressReferencedRecords eleven_rows row_identity [] = Inr (eleven_rows, s)"
    by (cases "suppressReferencedRecords eleven_rows row_identity []") auto
  have t: "body_total eleven_rows \<le> UNBOUNDED" by code_simp
  have d: "length (delivered eleven_rows) = 11" by code_simp
  from walk_delivers_every_record [OF demo_load [OF s] _ t] d show ?thesis by (simp add: demo_request_def)
qed

theorem prior_context_removes_exactly_witness:
  "(case suppressReferencedRecords [demo_row CHR ''0'', demo_row CHR ''1''] row_identity
      [\<lparr>canonical_id = None, citation_id = Some ''brain_record:thought:0'', identity_ref = None\<rparr>] of
      Inr (kept, s) \<Rightarrow> kept = [demo_row CHR ''1''] \<and> sup_suppressed s = 1 | Inl e \<Rightarrow> False)"
proof -
  let ?rows = "[demo_row CHR ''0'', demo_row CHR ''1'']"
  let ?prior = "[\<lparr>canonical_id = None, citation_id = Some ''brain_record:thought:0'', identity_ref = None\<rparr>]"
  have "case suppressReferencedRecords ?rows row_identity ?prior of Inl e \<Rightarrow> False | Inr (net, s) \<Rightarrow> sup_suppressed s = 1" by code_simp
  then obtain kept s where s: "suppressReferencedRecords ?rows row_identity ?prior = Inr (kept, s)" "sup_suppressed s = 1"
    by (cases "suppressReferencedRecords ?rows row_identity ?prior") auto
  have "filter (\<lambda>row. \<not> list_ex (\<lambda>r. names_row r row) ?prior) ?rows = [demo_row CHR ''1'']" by code_simp
  with prior_context_removes_exactly [OF s(1)] s show ?thesis by simp
qed

definition demo_memory :: json_object where
  "demo_memory = [(''items'', JArr [item_json (demo_row CHR ''0'') ''abc'']), (''item_count'', jnat 1)]"

theorem recalled_records_stay_reachable_witness:
  "let frag = buildPointerSection [demo_row CHR ''0'', demo_row CHR ''1''] (retainedDurableIdentities (Some demo_memory))
   in frag_truncation frag = [] \<and> set (pointer_ids frag) \<inter> set (retainedDurableIdentities (Some demo_memory)) = {} \<and>
      pointer_ids frag = [''brain_record:thought:1'']"
proof -
  let ?frag = "buildPointerSection [demo_row CHR ''0'', demo_row CHR ''1''] (retainedDurableIdentities (Some demo_memory))"
  have "frag_truncation ?frag = []" "pointer_ids ?frag = [''brain_record:thought:1'']" by code_simp+
  with recalled_records_stay_reachable [OF refl, of "[demo_row CHR ''0'', demo_row CHR ''1'']" "Some demo_memory"]
  show ?thesis by (simp add: Let_def)
qed

definition two_rows :: "recalled_row list" where
  "two_rows = [demo_row CHR ''0'', demo_row CHR ''1'']"

definition two_section :: json_object where
  "two_section = memory_section ''abc'' None (buildBurstItems two_rows 531) [] (burstWindow two_rows None)
     \<lparr>sup_recalled = 2, sup_suppressed = 0, sup_net_new = 2\<rparr>"

text \<open>Two records in one burst, 531 characters for the section: the walk of the caller ends with one of them.\<close>

theorem budgeted_walk_ends_short_witness:
  "map_option length (walk (budgeted_reply (demo_search two_rows) demo_agent (Some demo_names) (demo_request [])
     (createAllocator (Some 550))) None) = Some 1 \<and>
   map_option length (walk (reply_of (demo_search two_rows) demo_agent (Some demo_names) (demo_request [])) None) \<noteq> Some 1"
proof -
  let ?a = "createAllocator (Some 550)" and ?s = "\<lparr>sup_recalled = 2, sup_suppressed = 0, sup_net_new = 2\<rparr> :: suppression"
  let ?ctx = "memory_context ''abc'' None 531 two_rows ?s (length two_rows)"
  have srv: "sectionServing ?a ''durable_memory'' = (17, Some 531, Some 531)" by code_simp
  have sup: "suppressReferencedRecords two_rows row_identity [] = Inr (two_rows, ?s)" by code_simp
  have max: "resolveContentChars None (Some 531) DURABLE_MEMORY_MAX_CONTENT_CHARS = 531" by code_simp
  have rq: "demo_request [] \<lparr>mr_continue_from := None\<rparr> = demo_request []" by (simp add: demo_request_def)
  have load: "loadDurableMemoryContext (demo_search two_rows) demo_agent (Some demo_names)
      (demo_request [] \<lparr>mr_continue_from := None\<rparr>) (Some 531) = Inr (?ctx, two_rows)"
    unfolding rq using demo_load [OF sup, of "Some 531"] by (simp only: max)
  have b: "bw_rows (burstWindow two_rows None) = two_rows" "\<not> items_truncated (buildBurstItems two_rows 531)"
    "length (burst_items (buildBurstItems two_rows 531)) = 2" by code_simp+
  have emits: "resolveEmptyReason 2 i j r k = None" for i j r k by (simp add: resolveEmptyReason_def)
  from b have "memoryTruncationEntries (buildBurstItems two_rows 531) n m k = []" for n m k
    by (auto simp: memoryTruncationEntries_def)
  then have ctx: "ctx_section ?ctx = Some two_section"
    using b by (simp add: memory_context_def Let_def two_section_def emits)
  have B: "wholePackBudget ?a \<noteq> None" by (simp add: createAllocator_def)
  have f: "map_option (length \<circ> items_of) (adm_section (fst (admitDurableMemorySection ?a (Some two_section) [] 17 (Some 531)))) = Some 1"
    by code_simp
  have cs: "adm_section (fst (admitDurableMemorySection ?a (Some two_section) cs 17 (Some 531))) =
      adm_section (fst (admitDurableMemorySection ?a (Some two_section) [] 17 (Some 531)))" for cs
    by (simp add: admitDurableMemorySection_def Let_def)
  obtain sec where sec: "budgeted_reply (demo_search two_rows) demo_agent (Some demo_names) (demo_request []) ?a None = Some sec"
    "length (items_of sec) = 1"
  proof -
    have "budgeted_reply (demo_search two_rows) demo_agent (Some demo_names) (demo_request []) ?a None =
        adm_section (fst (admitDurableMemorySection ?a (Some two_section) (ctx_citations ?ctx) 17 (Some 531)))"
      by (simp add: budgeted_reply_def srv load ctx)
    also note cs
    finally show ?thesis using f that by auto
  qed
  have "length two_rows \<le> 10" by code_simp
  from budgeted_walk_ends_short [OF srv load this sec(1)] sec(2)
  have "map_option length (walk (budgeted_reply (demo_search two_rows) demo_agent (Some demo_names) (demo_request []) ?a) None) = Some 1"
    by simp
  moreover have "map_option length (walk (reply_of (demo_search two_rows) demo_agent (Some demo_names) (demo_request [])) None) = Some 2"
  proof -
    have r: "reply_of (demo_search two_rows) demo_agent (Some demo_names) (demo_request []) None = ctx_section
        (memory_context ''abc'' None (resolveContentChars None None DURABLE_MEMORY_MAX_CONTENT_CHARS) two_rows ?s (length two_rows))"
      unfolding reply_of_def rq using demo_load [OF sup, of None] by simp
    have m: "resolveContentChars None None DURABLE_MEMORY_MAX_CONTENT_CHARS = UNBOUNDED" by code_simp
    have n: "length (burst_items (buildBurstItems two_rows UNBOUNDED)) = 2" "\<not> bw_more (burstWindow two_rows None)" by code_simp+
    obtain t where "reply_of (demo_search two_rows) demo_agent (Some demo_names) (demo_request []) None =
        Some (memory_section ''abc'' None (buildBurstItems two_rows UNBOUNDED) t (burstWindow two_rows None) ?s)"
      unfolding r m memory_context_def Let_def recall_context.simps b(1) using n(1) by (auto simp: emits)
    then show ?thesis using n by (subst walk.simps) (simp add: next_offset_memory memory_section_members)
  qed
  ultimately show ?thesis by force
qed

end
