(* ===== verification/Chunking.thy ===== *)
theory Chunking
  imports Prelude
begin

text \<open>
  The chunker of the embedding pipeline (\<open>server/embedding/chunking.ts\<close>): where a chunk ends, the loop that
  walks the text, and its overlap. Sizes are natural numbers. The regular expression
  \<open>[.!?\n]\s+[A-Z]\<close> is read as what it matches; \<open>\s\<close> is the white space of \<open>trim\<close>. The log line is not modelled.
\<close>

definition DEFAULT_CHUNK_SIZE :: nat where "DEFAULT_CHUNK_SIZE = 2000"
definition DEFAULT_OVERLAP :: nat where "DEFAULT_OVERLAP = 200"
definition CHUNK_THRESHOLD :: nat where "CHUNK_THRESHOLD = 2000"

record chunk =
  chunk_text :: string
  chunk_index :: nat

record break_window =
  win_start :: nat
  win_end :: nat
  win_chunkSize :: nat
  win_overlap :: nat

definition is_upper :: "char \<Rightarrow> bool" where
  "is_upper c = (let n = (of_char c :: nat) in 65 \<le> n \<and> n \<le> 90)"

definition ends_sentence :: "char \<Rightarrow> bool" where
  "ends_sentence c = (c = CHR ''.'' \<or> c = CHR ''!'' \<or> c = CHR ''?'' \<or> c = CHR 0x0A)"

text \<open>A match at the front: a terminator, white space, and the first character after it is a capital.\<close>

definition matches_here :: "string \<Rightarrow> bool" where
  "matches_here s = (case s of [] \<Rightarrow> False
     | c # rest \<Rightarrow> ends_sentence c \<and> takeWhile js_ws rest \<noteq> [] \<and>
         (case dropWhile js_ws rest of [] \<Rightarrow> False | u # _ \<Rightarrow> is_upper u))"

fun sentence_break :: "string \<Rightarrow> nat option" where
  "sentence_break [] = None"
| "sentence_break (c # s) = (if matches_here (c # s) then Some 0 else map_option Suc (sentence_break s))"

text \<open>\<open>text.lastIndexOf(" ", end)\<close>: the last space at or before \<open>end\<close>.\<close>

fun last_space :: "string \<Rightarrow> nat option" where
  "last_space [] = None"
| "last_space (c # s) = (case last_space s of Some k \<Rightarrow> Some (Suc k) | None \<Rightarrow> if c = CHR '' '' then Some 0 else None)"

definition lastIndexOf_space :: "string \<Rightarrow> nat \<Rightarrow> nat option" where
  "lastIndexOf_space s e = last_space (take (Suc e) s)"

text \<open>\<open>lastSpace > start + chunkSize / 2\<close> is a comparison of rationals.\<close>

definition findBreakPoint :: "string \<Rightarrow> break_window \<Rightarrow> nat" where
  "findBreakPoint s w =
     (let zoneStart = max (win_start w) (win_end w - win_overlap w)
      in case sentence_break (slice zoneStart (win_end w) s) of
           Some k \<Rightarrow> zoneStart + k + 1
         | None \<Rightarrow> (case lastIndexOf_space s (win_end w) of
             Some k \<Rightarrow> if 2 * k > 2 * win_start w + win_chunkSize w then k else win_end w
           | None \<Rightarrow> win_end w))"

definition chunk_end :: "string \<Rightarrow> nat \<Rightarrow> nat \<Rightarrow> nat \<Rightarrow> nat" where
  "chunk_end s chunkSize overlap start =
     (let e = min (start + chunkSize) (length s)
      in if e < length s
         then findBreakPoint s \<lparr>win_start = start, win_end = e, win_chunkSize = chunkSize, win_overlap = overlap\<rparr> else e)"

text \<open>The loop, as the intervals it cuts: it stops with the chunk that reaches the end.\<close>

function cuts :: "string \<Rightarrow> nat \<Rightarrow> nat \<Rightarrow> nat \<Rightarrow> (nat \<times> nat) list" where
  "cuts s chunkSize overlap start =
     (if start < length s then
        let e = chunk_end s chunkSize overlap start
        in (start, e) # (if e \<ge> length s then [] else cuts s chunkSize overlap (max (e - overlap) (start + 1)))
      else [])"
  by pat_completeness auto
termination
  by (relation "measure (\<lambda>(s, chunkSize, overlap, start). length s - start)") auto

declare cuts.simps [simp del]

fun number_chunks :: "nat \<Rightarrow> string list \<Rightarrow> chunk list" where
  "number_chunks i [] = []"
| "number_chunks i (t # ts) = (if t = [] then number_chunks i ts else \<lparr>chunk_text = t, chunk_index = i\<rparr> # number_chunks (i + 1) ts)"

definition chunkText :: "string \<Rightarrow> nat \<Rightarrow> nat \<Rightarrow> chunk list" where
  "chunkText s chunkSize overlap =
     (if s = [] \<or> length s \<le> chunkSize then [\<lparr>chunk_text = s, chunk_index = 0\<rparr>]
      else number_chunks 0 (map (\<lambda>(a, e). trim (slice a e s)) (cuts s chunkSize overlap 0)))"

definition shouldChunk :: "string \<Rightarrow> bool" where
  "shouldChunk content = (length content > CHUNK_THRESHOLD)"

subsection \<open>Where a chunk ends\<close>

lemma sentence_break_less: "sentence_break s = Some k \<Longrightarrow> Suc k < length s"
proof (induction s arbitrary: k)
  case (Cons c s)
  show ?case
  proof (cases "matches_here (c # s)")
    case True
    with Cons.prems have "k = 0" "s \<noteq> []" by (auto simp: matches_here_def)
    then show ?thesis by (cases s) auto
  next
    case False
    with Cons show ?thesis by auto
  qed
qed simp

lemma last_space_less: "last_space s = Some k \<Longrightarrow> k < length s"
  by (induction s arbitrary: k) (auto split: option.splits if_splits)

lemma lastIndexOf_space_le: "lastIndexOf_space s e = Some k \<Longrightarrow> k \<le> e"
  using last_space_less [of "take (Suc e) s"] by (auto simp: lastIndexOf_space_def)

lemma findBreakPoint_bounds:
  assumes "win_end w < length s" "win_start w \<le> win_end w"
  shows "findBreakPoint s w \<le> win_end w \<and>
    (findBreakPoint s w = win_end w \<or> win_end w - win_overlap w < findBreakPoint s w \<and> win_start w < findBreakPoint s w \<or>
     2 * win_start w + win_chunkSize w < 2 * findBreakPoint s w)"
proof -
  let ?z = "max (win_start w) (win_end w - win_overlap w)"
  show ?thesis
  proof (cases "sentence_break (slice ?z (win_end w) s)")
    case (Some k)
    have "Suc k < win_end w - ?z" using sentence_break_less [OF Some] by (simp add: slice_def)
    moreover have "findBreakPoint s w = ?z + k + 1" using Some by (simp add: findBreakPoint_def Let_def)
    moreover have "win_start w \<le> ?z" "win_end w - win_overlap w \<le> ?z" by simp_all
    ultimately show ?thesis by linarith
  next
    case None
    then show ?thesis using lastIndexOf_space_le [of s "win_end w"]
      by (auto simp: findBreakPoint_def Let_def split: option.splits)
  qed
qed

lemma chunk_end_bounds:
  assumes "start < length s" "0 < chunkSize"
  shows "start < chunk_end s chunkSize overlap start" "chunk_end s chunkSize overlap start \<le> start + chunkSize"
    "chunk_end s chunkSize overlap start \<le> length s"
    "chunk_end s chunkSize overlap start < length s \<Longrightarrow>
       min (chunkSize - overlap) (chunkSize div 2) < chunk_end s chunkSize overlap start - start \<or>
       chunk_end s chunkSize overlap start = start + chunkSize"
proof -
  let ?e = "min (start + chunkSize) (length s)"
  let ?w = "\<lparr>win_start = start, win_end = ?e, win_chunkSize = chunkSize, win_overlap = overlap\<rparr>"
  have b: "?e < length s \<Longrightarrow> findBreakPoint s ?w \<le> ?e \<and>
    (findBreakPoint s ?w = ?e \<or> ?e - overlap < findBreakPoint s ?w \<and> start < findBreakPoint s ?w \<or>
     2 * start + chunkSize < 2 * findBreakPoint s ?w)"
    using findBreakPoint_bounds [of ?w s] assms by simp
  have e: "chunk_end s chunkSize overlap start = (if ?e < length s then findBreakPoint s ?w else ?e)"
    by (simp add: chunk_end_def Let_def)
  show "start < chunk_end s chunkSize overlap start" "chunk_end s chunkSize overlap start \<le> start + chunkSize"
    "chunk_end s chunkSize overlap start \<le> length s"
    "chunk_end s chunkSize overlap start < length s \<Longrightarrow>
       min (chunkSize - overlap) (chunkSize div 2) < chunk_end s chunkSize overlap start - start \<or>
       chunk_end s chunkSize overlap start = start + chunkSize"
    unfolding e using b assms by (auto simp: min_def split: if_splits)
qed

subsection \<open>The cuts\<close>

definition stride :: "nat \<Rightarrow> nat \<Rightarrow> nat" where
  "stride chunkSize overlap = min (chunkSize - overlap) (chunkSize div 2) - overlap + 1"

lemma next_start:
  assumes "start < length s" "0 < chunkSize" "chunk_end s chunkSize overlap start < length s"
  shows "start + stride chunkSize overlap \<le> max (chunk_end s chunkSize overlap start - overlap) (start + 1)"
    "max (chunk_end s chunkSize overlap start - overlap) (start + 1) \<le> chunk_end s chunkSize overlap start"
proof -
  let ?e = "chunk_end s chunkSize overlap start"
  define m where "m = min (chunkSize - overlap) (chunkSize div 2)"
  have b: "start < ?e" "?e \<le> start + chunkSize" "m < ?e - start \<or> ?e = start + chunkSize"
    using chunk_end_bounds [OF assms(1,2), of overlap] assms(3) by (simp_all add: m_def)
  have m: "m \<le> chunkSize div 2" by (simp add: m_def)
  have "start + (m - overlap + 1) \<le> max (?e - overlap) (start + 1)"
  proof (cases "m \<le> overlap")
    case False
    have "m < ?e - start" using b m assms(2) by auto
    then have "Suc (start + m) - overlap \<le> ?e - overlap" by (intro diff_le_mono) simp
    with False show ?thesis by (simp add: le_max_iff_disj)
  qed simp
  then show "start + stride chunkSize overlap \<le> max (?e - overlap) (start + 1)" by (simp add: stride_def m_def)
  show "max (?e - overlap) (start + 1) \<le> ?e" using b(1) by simp
qed

lemma cuts_cover: "start \<le> i \<Longrightarrow> i < length s \<Longrightarrow> 0 < chunkSize \<Longrightarrow>
    \<exists>(a, e) \<in> set (cuts s chunkSize overlap start). a \<le> i \<and> i < e"
proof (induction s chunkSize overlap start rule: cuts.induct)
  case (1 s chunkSize overlap start)
  let ?e = "chunk_end s chunkSize overlap start"
  have start: "start < length s" using 1 by simp
  note b = chunk_end_bounds [OF start 1(4), of overlap]
  show ?case
  proof (cases "i < ?e")
    case True
    with start 1(2) show ?thesis by (subst cuts.simps) (simp add: Let_def)
  next
    case False
    with 1(3) have e: "?e < length s" by simp
    have "max (?e - overlap) (start + 1) \<le> i" using next_start(2) [OF start 1(4) e] False by simp
    from 1(1) [OF start refl _ this 1(3,4)] e start show ?thesis
      by (subst cuts.simps) (auto simp: Let_def not_le)
  qed
qed

lemma cuts_within: "(a, e) \<in> set (cuts s chunkSize overlap start) \<Longrightarrow> 0 < chunkSize \<Longrightarrow> a < e \<and> e \<le> length s \<and> e \<le> a + chunkSize"
proof (induction s chunkSize overlap start rule: cuts.induct)
  case (1 s chunkSize overlap start)
  show ?case
  proof (cases "start < length s")
    case True
    with 1 chunk_end_bounds [OF True 1(3), of overlap] show ?thesis
      by (subst (asm) (2) cuts.simps) (auto simp: Let_def split: if_splits)
  next
    case False
    with 1(2) show ?thesis by (subst (asm) cuts.simps) simp
  qed
qed

lemma cuts_count: "0 < chunkSize \<Longrightarrow> length (cuts s chunkSize overlap start) \<le> 1 + (length s - start) div stride chunkSize overlap"
proof (induction s chunkSize overlap start rule: cuts.induct)
  case (1 s chunkSize overlap start)
  let ?e = "chunk_end s chunkSize overlap start"
  show ?case
  proof (cases "start < length s \<and> ?e < length s")
    case True
    then have start: "start < length s" and e: "?e < length s" by auto
    let ?next = "max (?e - overlap) (start + 1)"
    note n = next_start [OF start 1(2) e]
    have pos: "0 < stride chunkSize overlap" by (simp add: stride_def)
    have le: "length s - ?next \<le> length s - start - stride chunkSize overlap" "stride chunkSize overlap \<le> length s - start"
      using n e by linarith+
    have "length (cuts s chunkSize overlap ?next) \<le> 1 + (length s - ?next) div stride chunkSize overlap"
      by (rule 1(1) [OF start refl _ 1(2)]) (use e in simp)
    also have "\<dots> \<le> 1 + (length s - start - stride chunkSize overlap) div stride chunkSize overlap"
      using div_le_mono [OF le(1)] by simp
    also have "\<dots> = (length s - start) div stride chunkSize overlap"
      using le_div_geq [OF pos le(2)] by simp
    finally show ?thesis using start e by (subst cuts.simps) (simp add: Let_def)
  next
    case False
    then show ?thesis by (subst cuts.simps) (auto simp: Let_def)
  qed
qed

subsection \<open>The chunks\<close>

lemma number_chunks_texts:
  "map chunk_text (number_chunks i ts) = filter (\<lambda>t. t \<noteq> []) ts"
  "map chunk_index (number_chunks i ts) = [i ..< i + length (filter (\<lambda>t. t \<noteq> []) ts)]"
  by (induction ts arbitrary: i) (auto simp: upt_rec)

lemma trim_length: "length (trim s) \<le> length s"
  by (simp add: trim_def) (metis length_rev length_trim_start le_trans)

text \<open>C23: chunking ends and loses nothing: every character of the text lies in one of the slices, each chunk is a
  trimmed slice of at most the chunk size, in order and numbered from 0, and a slice is left out only when it is blank.\<close>

theorem chunks_cover_the_text:
  assumes "0 < chunkSize" "chunkSize < length s"
  shows "map chunk_text (chunkText s chunkSize overlap) =
      filter (\<lambda>t. t \<noteq> []) (map (\<lambda>(a, e). trim (slice a e s)) (cuts s chunkSize overlap 0)) \<and>
    map chunk_index (chunkText s chunkSize overlap) = [0 ..< length (chunkText s chunkSize overlap)] \<and>
    (\<forall>c \<in> set (chunkText s chunkSize overlap). length (chunk_text c) \<le> chunkSize) \<and>
    (\<forall>i < length s. \<exists>(a, e) \<in> set (cuts s chunkSize overlap 0). a \<le> i \<and> i < e)"
proof -
  let ?ts = "map (\<lambda>(a, e). trim (slice a e s)) (cuts s chunkSize overlap 0)"
  have c: "chunkText s chunkSize overlap = number_chunks 0 ?ts" using assms by (auto simp: chunkText_def)
  note t = number_chunks_texts [of 0 ?ts, folded c]
  have "length (chunkText s chunkSize overlap) = length (filter (\<lambda>t. t \<noteq> []) ?ts)" using t(1) by (metis length_map)
  moreover have "length u \<le> chunkSize" if inside: "u \<in> set ?ts" for u
  proof -
    obtain a e where u: "(a, e) \<in> set (cuts s chunkSize overlap 0)" "u = trim (slice a e s)" using inside by auto
    have "length (slice a e s) \<le> e - a" by (simp add: slice_def)
    with cuts_within [OF u(1) assms(1)] trim_length [of "slice a e s"] show ?thesis unfolding u(2) by linarith
  qed
  then have "length (chunk_text k) \<le> chunkSize" if "k \<in> set (chunkText s chunkSize overlap)" for k
  proof -
    have "chunk_text k \<in> set (map chunk_text (chunkText s chunkSize overlap))" using that by simp
    then show ?thesis unfolding t(1) using \<open>\<And>u. u \<in> set ?ts \<Longrightarrow> length u \<le> chunkSize\<close> by (meson filter_is_subset subsetD)
  qed
  ultimately show ?thesis using t cuts_cover [of 0 _ s chunkSize overlap] assms(1) by simp
qed

text \<open>The number of chunks is linear in the text: with the default sizes a text has at most one chunk more than
  its length divided by 801, so the tail is not crawled character by character.\<close>

theorem chunk_count_bounded:
  assumes "0 < chunkSize"
  shows "length (chunkText s chunkSize overlap) \<le> 1 + length s div stride chunkSize overlap \<and>
    stride DEFAULT_CHUNK_SIZE DEFAULT_OVERLAP = 801"
proof -
  have "length (number_chunks i ts) \<le> length ts" for i ts by (induction i ts rule: number_chunks.induct) auto
  then show ?thesis using cuts_count [OF assms, of s overlap 0]
    by (auto simp: chunkText_def stride_def DEFAULT_CHUNK_SIZE_def DEFAULT_OVERLAP_def intro: le_trans)
      (metis length_map le_trans)
qed

definition small_text :: string where
  "small_text = ''One two. Three four five. Six''"

theorem chunks_cover_the_text_witness:
  "map chunk_text (chunkText small_text 12 6) = [''One two.'', ''e two. Three'', ''Three four'', ''e four five.'', ''five. Six''] \<and>
   map chunk_index (chunkText small_text 12 6) = [0, 1, 2, 3, 4]"
proof -
  have c: "filter (\<lambda>t. t \<noteq> []) (map (\<lambda>(a, e). trim (slice a e small_text)) (cuts small_text 12 6 0)) =
    [''One two.'', ''e two. Three'', ''Three four'', ''e four five.'', ''five. Six'']" by code_simp
  have "12 < length small_text" by code_simp
  from chunks_cover_the_text [OF _ this, of 6] c have t: "map chunk_text (chunkText small_text 12 6) =
      [''One two.'', ''e two. Three'', ''Three four'', ''e four five.'', ''five. Six'']"
    "map chunk_index (chunkText small_text 12 6) = [0 ..< length (chunkText small_text 12 6)]" by simp_all
  have "length (chunkText small_text 12 6) = 5" using arg_cong [OF t(1), of length] by simp
  with t show ?thesis by (simp add: upt_rec)
qed

theorem chunk_count_bounded_witness: "length (chunkText small_text 12 2) \<le> 1 + 29 div 5"
proof -
  have "length small_text = 29" "stride 12 2 = 5" by code_simp+
  with chunk_count_bounded [of 12 small_text 2] show ?thesis by simp
qed

end
