(* ===== verification/MaintenanceConfig.thy ===== *)
theory MaintenanceConfig
  imports Complex_Main SharedNamespace
begin

text \<open>
  The settings of the maintenance tier (\<open>server/config/maintenance.ts\<close>). An environment maps a variable to its
  text. \<open>Number\<close> of a text is the rational it denotes; \<open>None\<close> stands for \<open>NaN\<close> and the infinities, which every
  check here refuses alike. The rounding of \<open>Number\<close> to a double is not modelled; \<open>parseInt\<close> is that of \<open>JsNumber\<close>.
\<close>

type_synonym environment = "string \<Rightarrow> string option"

subsection \<open>\<open>Number\<close> of a text\<close>

definition hex_value :: "char \<Rightarrow> nat" where
  "hex_value c = (let n = (of_char c :: nat) in
     if 48 \<le> n \<and> n \<le> 57 then n - 48 else if 97 \<le> n \<and> n \<le> 102 then n - 87 else if 65 \<le> n \<and> n \<le> 70 then n - 55 else 99)"

definition radix_literal :: "nat \<Rightarrow> string \<Rightarrow> rat option" where
  "radix_literal b s =
     (if s = [] \<or> list_ex (\<lambda>c. b \<le> hex_value c) s then None
      else Some (of_nat (foldl (\<lambda>a c. b * a + hex_value c) 0 s)))"

definition signed_digits :: "string \<Rightarrow> int option" where
  "signed_digits s =
     (let neg = starts_with ''-'' s; ds = (if neg \<or> starts_with ''+'' s then tl s else s)
      in if ds = [] \<or> \<not> list_all is_digit ds then None
         else Some (if neg then - int (read_nat ds) else int (read_nat ds)))"

definition exponent_part :: "string \<Rightarrow> int option" where
  "exponent_part s = (case s of [] \<Rightarrow> Some 0
     | c # ds \<Rightarrow> if c = CHR ''e'' \<or> c = CHR ''E'' then signed_digits ds else None)"

definition decimal_literal :: "string \<Rightarrow> rat option" where
  "decimal_literal s =
     (let whole_part = takeWhile is_digit s; rest = dropWhile is_digit s;
          dot = starts_with ''.'' rest;
          fraction = (if dot then takeWhile is_digit (tl rest) else []);
          tail = (if dot then dropWhile is_digit (tl rest) else rest)
      in if whole_part = [] \<and> fraction = [] then None
         else map_option (\<lambda>e. let m = of_nat (read_nat (whole_part @ fraction)); x = e - int (length fraction)
                              in if 0 \<le> x then m * 10 ^ nat x else m / 10 ^ nat (- x)) (exponent_part tail))"

definition js_Number :: "string \<Rightarrow> rat option" where
  "js_Number raw =
     (let s = trim raw; prefix = map js_lower (take 2 s)
      in if s = [] then Some 0
         else if prefix = ''0x'' then radix_literal 16 (drop 2 s)
         else if prefix = ''0o'' then radix_literal 8 (drop 2 s)
         else if prefix = ''0b'' then radix_literal 2 (drop 2 s)
         else if starts_with ''-'' s then map_option uminus (decimal_literal (tl s))
         else decimal_literal (if starts_with ''+'' s then tl s else s))"

definition isSafeInteger :: "rat \<Rightarrow> bool" where
  "isSafeInteger v = (of_int \<lfloor>v\<rfloor> = v \<and> \<bar>v\<bar> \<le> 9007199254740991)"

subsection \<open>Single settings\<close>

definition positiveInteger :: "string option \<Rightarrow> int option" where
  "positiveInteger raw =
     (case raw of None \<Rightarrow> None
      | Some s \<Rightarrow> if trim s = [] then None
          else (case parseInt s of None \<Rightarrow> None | Some n \<Rightarrow> if 0 < n then Some n else None))"

definition strictPositiveInteger :: "string option \<Rightarrow> int option" where
  "strictPositiveInteger raw =
     (case raw of None \<Rightarrow> None
      | Some s \<Rightarrow> if trim s = [] then None
          else (case js_Number (trim s) of None \<Rightarrow> None
                | Some v \<Rightarrow> if isSafeInteger v \<and> 0 < v then Some \<lfloor>v\<rfloor> else None))"

definition MAX_REM_FORCED_SLICE_SIZE :: int where "MAX_REM_FORCED_SLICE_SIZE = 300"
definition DEFAULT_REM_MIN_GAP_MS :: int where "DEFAULT_REM_MIN_GAP_MS = 900000"
definition MAX_REM_MIN_GAP_MS :: int where "MAX_REM_MIN_GAP_MS = 6 * 60 * 60 * 1000"
definition MAX_ROUTE_SLICE_SIZE :: int where "MAX_ROUTE_SLICE_SIZE = 200"
definition DEFAULT_ROUTE_MIN_GAP_MS :: int where "DEFAULT_ROUTE_MIN_GAP_MS = 60000"
definition MAX_ROUTE_MIN_GAP_MS :: int where "MAX_ROUTE_MIN_GAP_MS = 86400000"
definition MAX_ROUTE_USD_PER_RUN :: rat where "MAX_ROUTE_USD_PER_RUN = 1"

definition minGapMs :: "string option \<Rightarrow> int \<Rightarrow> int \<Rightarrow> int option" where
  "minGapMs raw defaultMs maxMs =
     (case raw of None \<Rightarrow> Some defaultMs
      | Some s \<Rightarrow> if trim s = [] then Some defaultMs
          else (case js_Number (trim s) of None \<Rightarrow> None
                | Some v \<Rightarrow> if isSafeInteger v \<and> 0 \<le> v \<and> v \<le> of_int maxMs then Some \<lfloor>v\<rfloor> else None))"

subsection \<open>The producers\<close>

record rem_settings =
  backlogHighWater :: int
  maxRequestsPerMinute :: int
  minHeadroomBytes :: int
  forcedSliceSize :: int
  rem_minGapMs :: int

datatype rem_config = Rem_disabled | Rem_enabled rem_settings

datatype route_backend = Fake_backend | Jev_backend

record route_settings =
  route_backend :: route_backend
  sliceSize :: int
  route_minGapMs :: int
  maxUsdPerRun :: rat

datatype route_config = Route_disabled | Route_enabled route_settings

record config_error =
  error_message :: string
  error_path :: string

definition rem_config_error :: config_error where
  "rem_config_error = \<lparr>error_message = ''REM configuration requires explicit positive integers for backlog high-water, max requests per minute, minimum headroom bytes, and forced slice size (maximum 300), and an optional minimum gap of 0 to 21600000 ms'',
     error_path = ''OPEN_BRAIN_MAINTENANCE_REM''\<rparr>"

definition route_config_error :: config_error where
  "route_config_error = \<lparr>error_message = ''DREAM route configuration requires backend fake or jev, a positive integer slice size (maximum 200), a max USD per run above 0 and at most 1, and an optional minimum gap of 0 to 86400000 ms'',
     error_path = ''OPEN_BRAIN_MAINTENANCE_ROUTE''\<rparr>"

definition parseRemProducerConfig :: "environment \<Rightarrow> config_error + rem_config" where
  "parseRemProducerConfig env =
     (if env ''OPEN_BRAIN_MAINTENANCE_REM_ENABLED'' \<noteq> Some ''1'' then Inr Rem_disabled
      else (case (strictPositiveInteger (env ''OPEN_BRAIN_MAINTENANCE_REM_BACKLOG_HIGH_WATER''),
                  strictPositiveInteger (env ''OPEN_BRAIN_MAINTENANCE_REM_MAX_REQUESTS_PER_MINUTE''),
                  strictPositiveInteger (env ''OPEN_BRAIN_MAINTENANCE_REM_MIN_HEADROOM_BYTES''),
                  strictPositiveInteger (env ''OPEN_BRAIN_MAINTENANCE_REM_FORCED_SLICE_SIZE''),
                  minGapMs (env ''OPEN_BRAIN_MAINTENANCE_REM_MIN_GAP_MS'') DEFAULT_REM_MIN_GAP_MS MAX_REM_MIN_GAP_MS) of
              (Some water, Some rate, Some headroom, Some slice_size, Some gap) \<Rightarrow>
                if slice_size > MAX_REM_FORCED_SLICE_SIZE then Inl rem_config_error
                else Inr (Rem_enabled \<lparr>backlogHighWater = water, maxRequestsPerMinute = rate, minHeadroomBytes = headroom,
                                       forcedSliceSize = slice_size, rem_minGapMs = gap\<rparr>)
            | _ \<Rightarrow> Inl rem_config_error))"

definition parseRouteBackend :: "string option \<Rightarrow> route_backend option" where
  "parseRouteBackend raw =
     (case map_option trim raw of
        Some t \<Rightarrow> if t = ''fake'' then Some Fake_backend else if t = ''jev'' then Some Jev_backend else None
      | None \<Rightarrow> None)"

definition parseUsdPerRun :: "string option \<Rightarrow> rat option" where
  "parseUsdPerRun raw =
     (case raw of None \<Rightarrow> None
      | Some s \<Rightarrow> if trim s = [] then None
          else (case js_Number (trim s) of None \<Rightarrow> None
                | Some v \<Rightarrow> if 0 < v \<and> v \<le> MAX_ROUTE_USD_PER_RUN then Some v else None))"

definition parseRouteProducerConfig :: "environment \<Rightarrow> config_error + route_config" where
  "parseRouteProducerConfig env =
     (if env ''OPEN_BRAIN_MAINTENANCE_ROUTE_ENABLED'' \<noteq> Some ''1'' then Inr Route_disabled
      else (case (parseRouteBackend (env ''OPEN_BRAIN_MAINTENANCE_ROUTE_BACKEND''),
                  strictPositiveInteger (env ''OPEN_BRAIN_MAINTENANCE_ROUTE_SLICE_SIZE''),
                  minGapMs (env ''OPEN_BRAIN_MAINTENANCE_ROUTE_MIN_GAP_MS'') DEFAULT_ROUTE_MIN_GAP_MS MAX_ROUTE_MIN_GAP_MS,
                  parseUsdPerRun (env ''OPEN_BRAIN_MAINTENANCE_ROUTE_MAX_USD_PER_RUN'')) of
              (Some backend, Some slice_size, Some gap, Some usd) \<Rightarrow>
                if slice_size > MAX_ROUTE_SLICE_SIZE then Inl route_config_error
                else Inr (Route_enabled \<lparr>route_backend = backend, sliceSize = slice_size, route_minGapMs = gap, maxUsdPerRun = usd\<rparr>)
            | _ \<Rightarrow> Inl route_config_error))"

record maintenance_config =
  maintenance_enabled :: bool
  cfg_rem :: rem_config
  cfg_route :: route_config
  cfg_concurrency :: "int option"
  cfg_pollIntervalMs :: "int option"
  cfg_leaseMs :: "int option"
  cfg_distillBatchSize :: "int option"
  cfg_maxDistillBatchesPerTick :: "int option"
  cfg_graphDerivationLimit :: "int option"

definition parseMaintenanceConfig :: "environment \<Rightarrow> config_error + maintenance_config" where
  "parseMaintenanceConfig env =
     (let raw = map_option (\<lambda>s. map js_lower (trim s)) (env ''OPEN_BRAIN_MAINTENANCE_ENABLED'');
          concurrency = positiveInteger (env ''OPEN_BRAIN_MAINTENANCE_CONCURRENCY'');
          poll = positiveInteger (env ''OPEN_BRAIN_MAINTENANCE_POLL_MS'');
          lease = positiveInteger (env ''OPEN_BRAIN_MAINTENANCE_LEASE_MS'');
          batch = positiveInteger (env ''OPEN_BRAIN_MAINTENANCE_DISTILL_BATCH_SIZE'');
          batches = positiveInteger (env ''OPEN_BRAIN_MAINTENANCE_MAX_DISTILL_BATCHES'');
          graph = positiveInteger (env ''OPEN_BRAIN_MAINTENANCE_GRAPH_LIMIT'')
      in res_bind (parseRemProducerConfig env) (\<lambda>rem_part.
         res_bind (parseRouteProducerConfig env) (\<lambda>route_part.
           Inr \<lparr>maintenance_enabled = (raw \<noteq> Some ''0'' \<and> raw \<noteq> Some ''false''), cfg_rem = rem_part, cfg_route = route_part,
                cfg_concurrency = concurrency, cfg_pollIntervalMs = poll, cfg_leaseMs = lease, cfg_distillBatchSize = batch,
                cfg_maxDistillBatchesPerTick = batches, cfg_graphDerivationLimit = graph\<rparr>)))"

subsection \<open>Bounds of what is accepted\<close>

definition rem_within_bounds :: "rem_settings \<Rightarrow> bool" where
  "rem_within_bounds r \<longleftrightarrow>
     1 \<le> backlogHighWater r \<and> backlogHighWater r \<le> 9007199254740991 \<and>
     1 \<le> maxRequestsPerMinute r \<and> maxRequestsPerMinute r \<le> 9007199254740991 \<and>
     1 \<le> minHeadroomBytes r \<and> minHeadroomBytes r \<le> 9007199254740991 \<and>
     1 \<le> forcedSliceSize r \<and> forcedSliceSize r \<le> 300 \<and> 0 \<le> rem_minGapMs r \<and> rem_minGapMs r \<le> 21600000"

lemma strictPositiveInteger_bounds:
  "strictPositiveInteger raw = Some n \<Longrightarrow> 1 \<le> n \<and> n \<le> 9007199254740991"
  by (auto simp: strictPositiveInteger_def isSafeInteger_def abs_le_iff le_floor_iff floor_le_iff
      split: option.splits if_splits)

lemma minGapMs_bounds: "minGapMs raw d m = Some n \<Longrightarrow> 0 \<le> d \<Longrightarrow> d \<le> m \<Longrightarrow> 0 \<le> n \<and> n \<le> m"
  by (auto simp: minGapMs_def floor_le_iff split: option.splits if_splits)

lemma positiveInteger_pos: "positiveInteger raw = Some n \<Longrightarrow> 0 < n"
  by (auto simp: positiveInteger_def split: option.splits if_splits)

lemma parsed_rem_bounds: "parseRemProducerConfig env = Inr (Rem_enabled r) \<Longrightarrow> rem_within_bounds r"
  by (auto simp: parseRemProducerConfig_def rem_within_bounds_def MAX_REM_FORCED_SLICE_SIZE_def DEFAULT_REM_MIN_GAP_MS_def
      MAX_REM_MIN_GAP_MS_def dest: strictPositiveInteger_bounds minGapMs_bounds split: option.splits if_splits)

lemma parsed_route_bounds:
  "parseRouteProducerConfig env = Inr (Route_enabled r) \<Longrightarrow>
    1 \<le> sliceSize r \<and> sliceSize r \<le> 200 \<and> 0 \<le> route_minGapMs r \<and> route_minGapMs r \<le> 86400000 \<and> 0 < maxUsdPerRun r \<and> maxUsdPerRun r \<le> 1"
  by (auto simp: parseRouteProducerConfig_def MAX_ROUTE_SLICE_SIZE_def DEFAULT_ROUTE_MIN_GAP_MS_def parseUsdPerRun_def
      MAX_ROUTE_MIN_GAP_MS_def MAX_ROUTE_USD_PER_RUN_def dest: strictPositiveInteger_bounds minGapMs_bounds split: option.splits if_splits)

text \<open>Every natural number within the bounds has a text that is read back.\<close>

lemma show_nat_not_ws: "c \<in> set (show_nat n) \<Longrightarrow> \<not> js_ws c"
  using is_digit_show_nat is_digit_not_ws by blast

lemma trim_show_nat [simp]: "trim (show_nat n) = show_nat n"
proof -
  have "dropWhile js_ws s = s" if "set s \<subseteq> set (show_nat n)" "s \<noteq> []" for s
    using that show_nat_not_ws by (subst dropWhile_eq_self_iff) (metis hd_in_set subsetD)
  from this [of "show_nat n"] this [of "rev (show_nat n)"] show ?thesis by (simp add: trim_def trim_start_def)
qed

lemma no_radix_prefix:
  assumes "c \<notin> set ''xob''" "\<forall>d \<in> set s. is_digit d"
  shows "map js_lower (take 2 s) \<noteq> [b, CHR ''x'']" "map js_lower (take 2 s) \<noteq> [b, CHR ''o'']" "map js_lower (take 2 s) \<noteq> [b, CHR ''b'']"
proof -
  have "js_lower d = d \<and> d \<notin> set ''xob''" if "is_digit d" for d
    using that by (auto simp: js_lower_def is_digit_def Let_def)
  moreover have "is_digit d" if "map js_lower (take 2 s) = [e, f]" "d = s ! 1" for d e f
    using that assms(2) by (cases s; cases "tl s") auto
  ultimately show "map js_lower (take 2 s) \<noteq> [b, CHR ''x'']" "map js_lower (take 2 s) \<noteq> [b, CHR ''o'']" "map js_lower (take 2 s) \<noteq> [b, CHR ''b'']"
    by (cases s; cases "tl s"; force)+
qed

lemma js_Number_show_nat: "js_Number (show_nat n) = Some (of_nat n)"
proof -
  have d: "\<forall>c \<in> set (show_nat n). is_digit c" using is_digit_show_nat by blast
  have tw: "takeWhile is_digit (show_nat n) = show_nat n" "dropWhile is_digit (show_nat n) = []" using d by simp_all
  have dec: "decimal_literal (show_nat n) = Some (of_nat n)"
    by (simp add: decimal_literal_def tw starts_with_def exponent_part_def read_show_nat Let_def)
  show ?thesis unfolding js_Number_def Let_def trim_show_nat
    using no_radix_prefix [OF _ d, of "CHR ''y''"] show_nat_head_not_sign [of n] by (simp add: dec)
qed

lemma settings_read_back:
  "1 \<le> n \<Longrightarrow> n \<le> 9007199254740991 \<Longrightarrow> strictPositiveInteger (Some (show_nat (nat n))) = Some n"
  "0 \<le> n \<Longrightarrow> n \<le> m \<Longrightarrow> m \<le> 9007199254740991 \<Longrightarrow> minGapMs (Some (show_nat (nat n))) d m = Some n"
  by (simp_all add: strictPositiveInteger_def minGapMs_def js_Number_show_nat isSafeInteger_def)

text \<open>The accepted REM settings are exactly those within the bounds the error message names: every accepted
  configuration has a slice of 1 to 300, positive safe integers for the other three and a gap of 0 to 6 hours, and
  each such configuration is the reading of some environment.\<close>

theorem rem_settings_accepted_iff_within_bounds:
  "(\<exists>env. parseRemProducerConfig env = Inr (Rem_enabled r)) \<longleftrightarrow> rem_within_bounds r"
proof
  assume "\<exists>env. parseRemProducerConfig env = Inr (Rem_enabled r)"
  then show "rem_within_bounds r" using parsed_rem_bounds by blast
next
  assume b: "rem_within_bounds r"
  let ?env = "map_of [(''OPEN_BRAIN_MAINTENANCE_REM_ENABLED'', ''1''),
    (''OPEN_BRAIN_MAINTENANCE_REM_BACKLOG_HIGH_WATER'', show_nat (nat (backlogHighWater r))),
    (''OPEN_BRAIN_MAINTENANCE_REM_MAX_REQUESTS_PER_MINUTE'', show_nat (nat (maxRequestsPerMinute r))),
    (''OPEN_BRAIN_MAINTENANCE_REM_MIN_HEADROOM_BYTES'', show_nat (nat (minHeadroomBytes r))),
    (''OPEN_BRAIN_MAINTENANCE_REM_FORCED_SLICE_SIZE'', show_nat (nat (forcedSliceSize r))),
    (''OPEN_BRAIN_MAINTENANCE_REM_MIN_GAP_MS'', show_nat (nat (rem_minGapMs r)))]"
  have "parseRemProducerConfig ?env = Inr (Rem_enabled r)"
    using b by (simp add: parseRemProducerConfig_def rem_within_bounds_def settings_read_back MAX_REM_FORCED_SLICE_SIZE_def
        MAX_REM_MIN_GAP_MS_def)
  then show "\<exists>env. parseRemProducerConfig env = Inr (Rem_enabled r)" by blast
qed

definition demo_env :: environment where
  "demo_env = map_of [(''OPEN_BRAIN_MAINTENANCE_REM_ENABLED'', ''1''), (''OPEN_BRAIN_MAINTENANCE_REM_BACKLOG_HIGH_WATER'', '' 1e3''),
     (''OPEN_BRAIN_MAINTENANCE_REM_MAX_REQUESTS_PER_MINUTE'', ''0x1E''), (''OPEN_BRAIN_MAINTENANCE_REM_MIN_HEADROOM_BYTES'', ''5.0''),
     (''OPEN_BRAIN_MAINTENANCE_REM_FORCED_SLICE_SIZE'', ''30''), (''OPEN_BRAIN_MAINTENANCE_REM_MIN_GAP_MS'', ''0''),
     (''OPEN_BRAIN_MAINTENANCE_ROUTE_ENABLED'', ''1''), (''OPEN_BRAIN_MAINTENANCE_ROUTE_BACKEND'', '' jev ''),
     (''OPEN_BRAIN_MAINTENANCE_ROUTE_SLICE_SIZE'', ''200''), (''OPEN_BRAIN_MAINTENANCE_ROUTE_MAX_USD_PER_RUN'', ''.25''),
     (''OPEN_BRAIN_MAINTENANCE_ENABLED'', ''False''), (''OPEN_BRAIN_MAINTENANCE_POLL_MS'', ''5000ms'')]"

end
