(* ===== verification/DistillWindow.thy ===== *)
theory DistillWindow
  imports SharedNamespace
begin

text \<open>
  The store of raw turns and what the distillation stages read of it (\<open>server/domain/distill-window.ts\<close>, the statements of
  \<open>server/db/distill-persist-repository.ts\<close> and \<open>distill-backlog-repository.ts\<close> on it, and \<open>maintenance/distill-backlog.ts\<close>):
  the order of the turns, the units with their context, the claim of a batch, its stamp, and the report of an empty claim.

  A statement is read as what it returns of the table, a list of rows with distinct ids; text is ordered by its
  characters.
\<close>

subsection \<open>Turns\<close>

record distill_turn =
  turn_id :: string
  turn_namespace :: string
  turn_session_ref :: "string option"
  turn_session_seq :: "int option"
  turn_role :: string
  turn_content :: string
  turn_repo :: "string option"
  turn_occurred_at :: "int option"
  is_human_prompt :: bool

definition DEFAULT_CONTEXT_WINDOW :: int where "DEFAULT_CONTEXT_WINDOW = 3"

definition NON_SPEECH_ROLES :: "string list" where
  "NON_SPEECH_ROLES = [''tool'', ''system'']"

definition isSpeech :: "string \<Rightarrow> bool" where
  "isSpeech role = (role \<notin> set NON_SPEECH_ROLES)"

record distill_unit =
  unit_current :: distill_turn
  unit_context :: "distill_turn list"

text \<open>\<open>seen\<close> holds the turns before the current one, the newest first.\<close>

fun build_units :: "nat \<Rightarrow> distill_turn list \<Rightarrow> distill_turn list \<Rightarrow> distill_unit list" where
  "build_units window seen [] = []"
| "build_units window seen (t # ts) =
     (if \<not> isSpeech (turn_role t) then build_units window (t # seen) ts
      else \<lparr>unit_current = t,
            unit_context = rev (take window (takeWhile (\<lambda>p. turn_session_ref p = turn_session_ref t) seen))\<rparr>
           # build_units window (t # seen) ts)"

definition buildUnits :: "distill_turn list \<Rightarrow> int \<Rightarrow> distill_unit list" where
  "buildUnits turns contextWindow = build_units (nat (max 0 contextWindow)) [] turns"

subsection \<open>The store\<close>

record raw_turn =
  raw_of :: distill_turn
  raw_live :: bool
  raw_lane :: "string option"
  raw_distilled :: "int option"

abbreviation raw_id :: "raw_turn \<Rightarrow> string" where "raw_id r \<equiv> turn_id (raw_of r)"

text \<open>\<open>DISTILL_ORDER_BY\<close>: session, then time, nulls behind, then id.\<close>

definition text_or_empty :: "string option \<Rightarrow> string" where
  "text_or_empty s = (case s of None \<Rightarrow> [] | Some t \<Rightarrow> t)"

definition turn_le :: "raw_turn \<Rightarrow> raw_turn \<Rightarrow> bool" where
  "turn_le =
     lex_le (\<lambda>r. turn_session_ref (raw_of r) = None)
    (lex_le (\<lambda>r. text_or_empty (turn_session_ref (raw_of r)))
    (lex_le (\<lambda>r. turn_occurred_at (raw_of r) = None)
    (lex_le (\<lambda>r. case turn_occurred_at (raw_of r) of None \<Rightarrow> 0 | Some n \<Rightarrow> n)
            (\<lambda>a b. raw_id a \<le> raw_id b))))"

subsection \<open>The claim\<close>

text \<open>An absent lane puts no condition; \<open>null\<close> asks for turns of no lane.\<close>

record claim_options =
  opt_namespace :: "string option"
  opt_lane :: "string option option"
  opt_max_sessions :: "int option"
  opt_max_turns :: "int option"
  opt_context_window :: "int option"

definition in_scope :: "claim_options \<Rightarrow> raw_turn \<Rightarrow> bool" where
  "in_scope opt r \<longleftrightarrow> raw_live r \<and>
     (case opt_namespace opt of None \<Rightarrow> True | Some ns \<Rightarrow> turn_namespace (raw_of r) = ns) \<and>
     (case opt_lane opt of None \<Rightarrow> True | Some l \<Rightarrow> raw_lane r = l)"

definition is_due :: "claim_options \<Rightarrow> raw_turn \<Rightarrow> bool" where
  "is_due opt r \<longleftrightarrow> in_scope opt r \<and> raw_distilled r = None"

definition DEFAULT_MAX_DISTILL_SESSIONS :: int where "DEFAULT_MAX_DISTILL_SESSIONS = 4"

definition bound_of :: "int option \<Rightarrow> int \<Rightarrow> int \<Rightarrow> int \<Rightarrow> int" where
  "bound_of v d lo hi = min (max (case v of None \<Rightarrow> d | Some n \<Rightarrow> n) lo) hi"

definition session_limit :: "claim_options \<Rightarrow> nat" where
  "session_limit opt = nat (bound_of (opt_max_sessions opt) DEFAULT_MAX_DISTILL_SESSIONS 1 64)"

definition turn_limit :: "claim_options \<Rightarrow> nat" where
  "turn_limit opt = nat (bound_of (opt_max_turns opt) 1500 1 20000)"

definition context_limit :: "claim_options \<Rightarrow> int" where
  "context_limit opt = bound_of (opt_context_window opt) DEFAULT_CONTEXT_WINDOW 0 64"

text \<open>The statement. \<open>first_due\<close> is the least time of a session's due turns, if one of them has a time; the UNION of due and
  context turns has every row once.\<close>

definition first_due :: "raw_turn list \<Rightarrow> string option \<Rightarrow> int option" where
  "first_due rows s =
     (let ts = List.map_filter (\<lambda>r. turn_occurred_at (raw_of r)) (filter (\<lambda>r. turn_session_ref (raw_of r) = s) rows)
      in if ts = [] then None else Some (foldr min ts (hd ts)))"

definition session_le :: "raw_turn list \<Rightarrow> string option \<Rightarrow> string option \<Rightarrow> bool" where
  "session_le rows = lex_le (\<lambda>s. first_due rows s = None)
     (\<lambda>s t. (case first_due rows s of None \<Rightarrow> 0 | Some n \<Rightarrow> n) \<le> (case first_due rows t of None \<Rightarrow> 0 | Some n \<Rightarrow> n))"

definition due_sessions :: "claim_options \<Rightarrow> raw_turn list \<Rightarrow> string option list" where
  "due_sessions opt store =
     (let rows = filter (is_due opt) store
      in take (session_limit opt) (sort_by (session_le rows) (remdups (map (\<lambda>r. turn_session_ref (raw_of r)) rows))))"

definition due_turns :: "claim_options \<Rightarrow> raw_turn list \<Rightarrow> raw_turn list" where
  "due_turns opt store =
     take (turn_limit opt)
       (sort_by turn_le (filter (\<lambda>r. is_due opt r \<and> turn_session_ref (raw_of r) \<in> set (due_sessions opt store)) store))"

definition due_seqs :: "raw_turn list \<Rightarrow> string option \<Rightarrow> int list" where
  "due_seqs dues s = List.map_filter (\<lambda>r. turn_session_seq (raw_of r)) (filter (\<lambda>r. turn_session_ref (raw_of r) = s) dues)"

definition is_context :: "claim_options \<Rightarrow> raw_turn list \<Rightarrow> raw_turn \<Rightarrow> bool" where
  "is_context opt dues r \<longleftrightarrow> in_scope opt r \<and>
     (case turn_session_seq (raw_of r) of None \<Rightarrow> False
      | Some n \<Rightarrow> let seqs = due_seqs dues (turn_session_ref (raw_of r))
          in seqs \<noteq> [] \<and> foldr min seqs (hd seqs) - context_limit opt \<le> n \<and> n \<le> foldr max seqs (hd seqs))"

definition claimed_turns :: "claim_options \<Rightarrow> raw_turn list \<Rightarrow> raw_turn list" where
  "claimed_turns opt store =
     (let dues = due_turns opt store
      in sort_by turn_le (filter (\<lambda>r. r \<in> set dues \<or> is_context opt dues r) store))"

record claimed_batch =
  batch_units :: "distill_unit list"
  consumedTurnIds :: "string list"
  missingSessionSeq :: nat

definition claimDistillBatch :: "claim_options \<Rightarrow> raw_turn list \<Rightarrow> claimed_batch" where
  "claimDistillBatch opt store =
     (let rows = claimed_turns opt store;
          turns = map raw_of rows;
          dueIds = map raw_id (filter (\<lambda>r. raw_distilled r = None) rows);
          window = (case opt_context_window opt of None \<Rightarrow> DEFAULT_CONTEXT_WINDOW | Some n \<Rightarrow> n)
      in \<lparr>batch_units = filter (\<lambda>u. turn_id (unit_current u) \<in> set dueIds) (buildUnits turns window),
          consumedTurnIds = map turn_id (filter (\<lambda>t. turn_id t \<in> set dueIds) turns),
          missingSessionSeq = length (filter (\<lambda>t. turn_session_seq t = None) turns)\<rparr>)"

subsection \<open>The stamp\<close>

definition stampConsumedTurns :: "int \<Rightarrow> string list \<Rightarrow> raw_turn list \<Rightarrow> raw_turn list \<times> nat" where
  "stampConsumedTurns now ids store =
     (let hit = (\<lambda>r. raw_id r \<in> set ids \<and> raw_distilled r = None)
      in (map (\<lambda>r. if hit r then r\<lparr>raw_distilled := Some now\<rparr> else r) store, length (filter hit store)))"

subsection \<open>The report of an empty claim\<close>

definition countOutstandingTurns :: "string option \<Rightarrow> raw_turn list \<Rightarrow> nat" where
  "countOutstandingTurns ns store =
     length (filter (\<lambda>r. raw_distilled r = None \<and> raw_live r \<and> (case ns of None \<Rightarrow> True | Some n \<Rightarrow> turn_namespace (raw_of r) = n)) store)"

text \<open>\<open>claim_empty_with_backlog\<close> of the summary; the flag is whether the probe failed.\<close>

definition reportEmptyClaim :: "bool \<Rightarrow> claim_options \<Rightarrow> raw_turn list \<Rightarrow> nat option" where
  "reportEmptyClaim probeFailed opt store =
     (if probeFailed then None
      else let outstanding = countOutstandingTurns (opt_namespace opt) store
           in if outstanding > 0 then Some outstanding else None)"

subsection \<open>What a claim takes\<close>

definition store_ok :: "raw_turn list \<Rightarrow> bool" where
  "store_ok store \<longleftrightarrow> distinct (map raw_id store)"

lemma store_ok_inj: "store_ok store \<Longrightarrow> a \<in> set store \<Longrightarrow> b \<in> set store \<Longrightarrow> raw_id a = raw_id b \<Longrightarrow> a = b"
  by (auto simp: store_ok_def distinct_map dest: inj_onD)

lemma bound_of_range: "lo \<le> hi \<Longrightarrow> lo \<le> bound_of v d lo hi \<and> bound_of v d lo hi \<le> hi"
  by (auto simp: bound_of_def)

lemma limits_positive: "session_limit opt \<noteq> 0" "turn_limit opt \<noteq> 0"
  using bound_of_range [of 1 64 "opt_max_sessions opt" DEFAULT_MAX_DISTILL_SESSIONS] bound_of_range [of 1 20000 "opt_max_turns opt" 1500]
  by (simp_all add: session_limit_def turn_limit_def)

lemma due_turns_due: "r \<in> set (due_turns opt store) \<Longrightarrow> r \<in> set store \<and> is_due opt r"
  unfolding due_turns_def by (auto dest: in_set_takeD)

lemma claimed_turns_set: "set (claimed_turns opt store) = {r \<in> set store. r \<in> set (due_turns opt store) \<or> is_context opt (due_turns opt store) r}"
  by (auto simp: claimed_turns_def Let_def)

lemma claimed_turns_scope: "r \<in> set (claimed_turns opt store) \<Longrightarrow> r \<in> set store \<and> in_scope opt r"
  using due_turns_due by (auto simp: claimed_turns_set is_context_def is_due_def)

lemma claimed_turns_distinct: "store_ok store \<Longrightarrow> distinct (map raw_id (claimed_turns opt store))"
proof -
  assume ok: "store_ok store"
  then have "distinct store" by (simp add: store_ok_def distinct_map)
  then have "distinct (claimed_turns opt store)" by (simp add: claimed_turns_def Let_def)
  moreover have "inj_on raw_id (set (claimed_turns opt store))"
    using store_ok_inj [OF ok] claimed_turns_scope by (intro inj_onI) blast
  ultimately show ?thesis by (simp add: distinct_map)
qed

definition consumed_rows :: "claim_options \<Rightarrow> raw_turn list \<Rightarrow> raw_turn list" where
  "consumed_rows opt store = filter (\<lambda>r. raw_distilled r = None) (claimed_turns opt store)"

lemma due_id:
  assumes "store_ok store" "r \<in> set (claimed_turns opt store)"
  shows "raw_id r \<in> raw_id ` set (consumed_rows opt store) \<longleftrightarrow> raw_distilled r = None"
proof
  assume "raw_id r \<in> raw_id ` set (consumed_rows opt store)"
  then obtain q where q: "q \<in> set (claimed_turns opt store)" "raw_distilled q = None" "raw_id r = raw_id q"
    by (auto simp: consumed_rows_def)
  then have "r = q" using store_ok_inj [OF assms(1)] claimed_turns_scope assms(2) by blast
  then show "raw_distilled r = None" using q(2) by simp
next
  assume "raw_distilled r = None"
  then show "raw_id r \<in> raw_id ` set (consumed_rows opt store)" using assms(2) by (simp add: consumed_rows_def)
qed

lemma consumed_alt: "store_ok store \<Longrightarrow> consumedTurnIds (claimDistillBatch opt store) = map raw_id (consumed_rows opt store)"
proof -
  assume ok: "store_ok store"
  have "filter (\<lambda>r. raw_id r \<in> raw_id ` set (consumed_rows opt store)) (claimed_turns opt store) = consumed_rows opt store"
    unfolding consumed_rows_def using due_id [OF ok] by (intro filter_cong) (auto simp: consumed_rows_def)
  then show ?thesis by (simp add: claimDistillBatch_def Let_def filter_map comp_def consumed_rows_def)
qed

lemma due_turns_consumed: "set (due_turns opt store) \<subseteq> set (consumed_rows opt store)"
  using due_turns_due by (auto simp: consumed_rows_def claimed_turns_set is_due_def)

lemma consumed_due: "r \<in> set (consumed_rows opt store) \<Longrightarrow> r \<in> set store \<and> is_due opt r"
  using claimed_turns_scope by (auto simp: consumed_rows_def is_due_def)

lemma due_turns_not_Nil:
  assumes "r \<in> set store" "is_due opt r"
  shows "due_turns opt store \<noteq> []"
proof -
  let ?rows = "filter (is_due opt) store"
  let ?refs = "remdups (map (\<lambda>r. turn_session_ref (raw_of r)) ?rows)"
  have "r \<in> set ?rows" using assms by simp
  then have "set ?refs \<noteq> {}" by auto
  then have "sort_by (session_le ?rows) ?refs \<noteq> []" by (metis set_empty set_sort_by)
  then obtain s where s: "s \<in> set (due_sessions opt store)"
    using limits_positive(1) [of opt] unfolding due_sessions_def Let_def by (metis list.set_intros(1) neq_Nil_conv take_eq_Nil)
  then have "s \<in> set ?refs" unfolding due_sessions_def Let_def by (metis in_set_takeD set_sort_by)
  then obtain q where "q \<in> set store" "is_due opt q" "turn_session_ref (raw_of q) \<in> set (due_sessions opt store)" using s by auto
  then have "set (filter (\<lambda>r. is_due opt r \<and> turn_session_ref (raw_of r) \<in> set (due_sessions opt store)) store) \<noteq> {}" by auto
  then show ?thesis unfolding due_turns_def using limits_positive(2) [of opt] by (metis set_empty set_sort_by take_eq_Nil)
qed

lemma consumed_Nil: "consumed_rows opt store = [] \<longleftrightarrow> filter (is_due opt) store = []"
proof
  assume none: "consumed_rows opt store = []"
  then have "due_turns opt store = []" using due_turns_consumed [of opt store] by simp
  then show "filter (is_due opt) store = []" using due_turns_not_Nil by (auto simp: filter_empty_conv)
next
  assume "filter (is_due opt) store = []"
  then show "consumed_rows opt store = []" using consumed_due [of _ opt store] by (cases "consumed_rows opt store") (auto simp: filter_empty_conv)
qed

lemma build_units_current: "map unit_current (build_units w seen ts) = filter (\<lambda>t. isSpeech (turn_role t)) ts"
  by (induction w seen ts rule: build_units.induct) auto

lemma batch_units_current:
  assumes "store_ok store"
  shows "map unit_current (batch_units (claimDistillBatch opt store)) =
    map raw_of (filter (\<lambda>r. isSpeech (turn_role (raw_of r))) (consumed_rows opt store))"
proof -
  let ?rows = "claimed_turns opt store" and ?sp = "\<lambda>r. isSpeech (turn_role (raw_of r))"
  let ?due = "\<lambda>i. i \<in> raw_id ` set (consumed_rows opt store)"
  have "batch_units (claimDistillBatch opt store) = filter (\<lambda>u. ?due (turn_id (unit_current u)))
      (buildUnits (map raw_of ?rows) (case opt_context_window opt of None \<Rightarrow> DEFAULT_CONTEXT_WINDOW | Some n \<Rightarrow> n))"
    by (simp add: claimDistillBatch_def Let_def consumed_rows_def)
  then have "map unit_current (batch_units (claimDistillBatch opt store)) =
      filter (\<lambda>t. ?due (turn_id t)) (filter (\<lambda>t. isSpeech (turn_role t)) (map raw_of ?rows))"
    unfolding buildUnits_def by (metis (no_types, lifting) build_units_current filter_map comp_def filter_cong)
  also have "\<dots> = map raw_of (filter (\<lambda>r. ?due (raw_id r) \<and> ?sp r) ?rows)"
    by (simp add: filter_map comp_def conj_commute)
  also have "filter (\<lambda>r. ?due (raw_id r) \<and> ?sp r) ?rows = filter ?sp (consumed_rows opt store)"
    unfolding consumed_rows_def filter_filter using due_id [OF assms] by (intro filter_cong) (auto simp: consumed_rows_def)
  finally show ?thesis .
qed

text \<open>C31: a claim takes due turns only, each once, and is empty only when nothing is due: history that is already distilled
  cannot crowd the work out. Its units stand for the claimed turns that are speech, in their order.\<close>

theorem claim_takes_due_work:
  assumes "store_ok store"
  shows "distinct (consumedTurnIds (claimDistillBatch opt store)) \<and>
    set (consumedTurnIds (claimDistillBatch opt store)) \<subseteq> raw_id ` set (filter (is_due opt) store) \<and>
    (consumedTurnIds (claimDistillBatch opt store) = []) = (filter (is_due opt) store = []) \<and>
    map (\<lambda>u. turn_id (unit_current u)) (batch_units (claimDistillBatch opt store)) =
      filter (\<lambda>i. i \<in> raw_id ` set (filter (\<lambda>r. isSpeech (turn_role (raw_of r))) store)) (consumedTurnIds (claimDistillBatch opt store))"
proof -
  let ?rows = "claimed_turns opt store" and ?sp = "\<lambda>r. isSpeech (turn_role (raw_of r))"
  let ?due = "\<lambda>i. i \<in> raw_id ` set (consumed_rows opt store)"
  note c = consumed_alt [OF assms, of opt]
  have "map turn_id (map unit_current (batch_units (claimDistillBatch opt store))) = map raw_id (filter ?sp (consumed_rows opt store))"
    unfolding batch_units_current [OF assms] by simp
  also have "filter ?sp (consumed_rows opt store) = filter (\<lambda>r. raw_id r \<in> raw_id ` set (filter ?sp store)) (consumed_rows opt store)"
  proof (intro filter_cong refl)
    fix r assume r: "r \<in> set (consumed_rows opt store)"
    show "?sp r = (raw_id r \<in> raw_id ` set (filter ?sp store))"
    proof
      assume "raw_id r \<in> raw_id ` set (filter ?sp store)"
      then obtain q where "q \<in> set store" "?sp q" "raw_id r = raw_id q" by auto
      then show "?sp r" using store_ok_inj [OF assms] consumed_due [OF r] by metis
    qed (use consumed_due [OF r] in auto)
  qed
  finally have u: "map (\<lambda>u. turn_id (unit_current u)) (batch_units (claimDistillBatch opt store)) =
      filter (\<lambda>i. i \<in> raw_id ` set (filter ?sp store)) (map raw_id (consumed_rows opt store))"
    by (simp add: filter_map comp_def)
  have "distinct (map raw_id (consumed_rows opt store))"
    unfolding consumed_rows_def using claimed_turns_distinct [OF assms] by (rule distinct_map_filter)
  moreover have "raw_id ` set (consumed_rows opt store) \<subseteq> raw_id ` set (filter (is_due opt) store)" using consumed_due by fastforce
  ultimately show ?thesis using u consumed_Nil [of opt store] by (simp add: c)
qed

definition claim_sample :: "string \<Rightarrow> string \<Rightarrow> int \<Rightarrow> raw_turn" where
  "claim_sample i role n =
     \<lparr>raw_of = \<lparr>turn_id = i, turn_namespace = ''ana'', turn_session_ref = Some ''s'', turn_session_seq = Some n, turn_role = role,
        turn_content = i, turn_repo = None, turn_occurred_at = Some n, is_human_prompt = False\<rparr>,
      raw_live = True, raw_lane = None, raw_distilled = None\<rparr>"

abbreviation any_options :: claim_options where
  "any_options \<equiv> \<lparr>opt_namespace = None, opt_lane = None, opt_max_sessions = None, opt_max_turns = None, opt_context_window = None\<rparr>"

lemma claim_takes_due_work_witness:
  "distinct (consumedTurnIds (claimDistillBatch any_options [claim_sample ''t2'' ''tool'' 2, claim_sample ''t1'' ''user'' 1]))"
  using claim_takes_due_work [of "[claim_sample ''t2'' ''tool'' 2, claim_sample ''t1'' ''user'' 1]" any_options]
  by (simp add: store_ok_def claim_sample_def)

subsection \<open>Draining\<close>

text \<open>One sweep on the store: claim, then stamp.\<close>

definition sweep_store :: "int \<Rightarrow> claim_options \<Rightarrow> raw_turn list \<Rightarrow> raw_turn list" where
  "sweep_store now opt store = fst (stampConsumedTurns now (consumedTurnIds (claimDistillBatch opt store)) store)"

lemma stamp_in_place:
  assumes "store_ok store"
  shows "sweep_store now opt store = map (\<lambda>r. if r \<in> set (consumed_rows opt store) then r\<lparr>raw_distilled := Some now\<rparr> else r) store"
proof -
  have "(raw_id r \<in> set (map raw_id (consumed_rows opt store)) \<and> raw_distilled r = None) = (r \<in> set (consumed_rows opt store))"
    if r: "r \<in> set store" for r
  proof
    assume "raw_id r \<in> set (map raw_id (consumed_rows opt store)) \<and> raw_distilled r = None"
    then obtain q where "q \<in> set (consumed_rows opt store)" "raw_id r = raw_id q" by auto
    then show "r \<in> set (consumed_rows opt store)" using store_ok_inj [OF assms r] consumed_due by metis
  next
    assume "r \<in> set (consumed_rows opt store)"
    then show "raw_id r \<in> set (map raw_id (consumed_rows opt store)) \<and> raw_distilled r = None" by (auto simp: consumed_rows_def)
  qed
  then show ?thesis
    unfolding sweep_store_def stampConsumedTurns_def Let_def consumed_alt [OF assms] fst_conv by (intro map_cong refl) presburger
qed

lemma sweep_keeps_ok: "store_ok store \<Longrightarrow> store_ok (sweep_store now opt store)"
proof -
  assume ok: "store_ok store"
  have "map raw_id (sweep_store now opt store) = map raw_id store" unfolding stamp_in_place [OF ok] by (simp add: comp_def if_distrib)
  then show ?thesis using ok by (simp add: store_ok_def)
qed

lemma sweep_due:
  assumes "store_ok store"
  shows "filter (is_due opt) (sweep_store now opt store) = filter (\<lambda>r. is_due opt r \<and> r \<notin> set (consumed_rows opt store)) store"
proof -
  have "filter (is_due opt) (map (\<lambda>r. if P r then r\<lparr>raw_distilled := Some now\<rparr> else r) rs) = filter (\<lambda>r. is_due opt r \<and> \<not> P r) rs"
    for P and rs :: "raw_turn list"
    by (induction rs) (simp_all add: is_due_def)
  then show ?thesis unfolding stamp_in_place [OF assms] .
qed

lemma sweep_progress:
  assumes "store_ok store" "filter (is_due opt) store \<noteq> []"
  shows "length (filter (is_due opt) (sweep_store now opt store)) < length (filter (is_due opt) store)"
proof -
  obtain r where r: "r \<in> set (consumed_rows opt store)" using consumed_Nil [of opt store] assms(2) by (cases "consumed_rows opt store") auto
  then have d: "r \<in> set (filter (is_due opt) store)" using consumed_due by simp
  have "filter (\<lambda>r. is_due opt r \<and> r \<notin> set (consumed_rows opt store)) store = filter (\<lambda>r. r \<notin> set (consumed_rows opt store)) (filter (is_due opt) store)"
    by (simp add: conj_commute)
  also have "length \<dots> < length (filter (is_due opt) store)" using r d by (intro length_filter_less) auto
  finally show ?thesis unfolding sweep_due [OF assms(1)] .
qed

text \<open>Sweeping drains. Whatever the bounds on sessions and turns, as many sweeps as there are due turns leave none, and
  no sweep touches a turn that was not due.\<close>

theorem sweeping_drains:
  assumes "store_ok store" "length (filter (is_due opt) store) \<le> n"
  shows "filter (is_due opt) ((sweep_store now opt ^^ n) store) = [] \<and>
    filter (\<lambda>r. raw_id r \<notin> raw_id ` set (filter (is_due opt) store)) ((sweep_store now opt ^^ n) store) =
      filter (\<lambda>r. raw_id r \<notin> raw_id ` set (filter (is_due opt) store)) store"
  using assms
proof (induction n arbitrary: store)
  case (Suc n)
  let ?next = "sweep_store now opt store"
  note ok = sweep_keeps_ok [OF Suc.prems(1), of now opt]
  have le: "length (filter (is_due opt) ?next) \<le> n"
    using Suc.prems(2) sweep_progress [OF Suc.prems(1), of opt now] sweep_due [OF Suc.prems(1), of opt now]
    by (cases "filter (is_due opt) store = []") (auto simp: filter_empty_conv)
  let ?K = "\<lambda>s r. raw_id r \<notin> raw_id ` set (filter (is_due opt) s)"
  have sub: "raw_id ` set (filter (is_due opt) ?next) \<subseteq> raw_id ` set (filter (is_due opt) store)" unfolding sweep_due [OF Suc.prems(1)] by auto
  have eq: "(sweep_store now opt ^^ Suc n) store = (sweep_store now opt ^^ n) ?next" by (simp add: funpow_swap1)
  have "filter (?K store) ((sweep_store now opt ^^ n) ?next) = filter (?K store) (filter (?K ?next) ((sweep_store now opt ^^ n) ?next))"
    unfolding filter_filter using sub by (intro filter_cong) auto
  also have "\<dots> = filter (?K store) (filter (?K ?next) ?next)" using Suc.IH [OF ok le] by simp
  also have "\<dots> = filter (?K store) ?next" unfolding filter_filter using sub by (intro filter_cong) auto
  also have "\<dots> = filter (?K store) store"
  proof -
    have "filter (?K store) (map (\<lambda>r. if P r then r\<lparr>raw_distilled := Some now\<rparr> else r) rs) = filter (?K store) rs"
      if "\<And>r. P r \<Longrightarrow> \<not> ?K store r" for P and rs :: "raw_turn list"
      by (induction rs) (use that in auto)
    then show ?thesis unfolding stamp_in_place [OF Suc.prems(1)] using consumed_due [of _ opt store] by force
  qed
  finally show ?case unfolding eq using Suc.IH [OF ok le] by simp
qed simp

lemma sweeping_drains_witness:
  "filter (is_due any_options) ((sweep_store 9 any_options ^^ 2) [claim_sample ''t2'' ''tool'' 2, claim_sample ''t1'' ''user'' 1]) = []"
  using sweeping_drains [of "[claim_sample ''t2'' ''tool'' 2, claim_sample ''t1'' ''user'' 1]" any_options 2 9]
  by (simp add: store_ok_def claim_sample_def is_due_def in_scope_def)

subsection \<open>Empty claims\<close>

text \<open>C33: the starvation signal only ever cries wolf. A claim of any lane that comes back empty has nothing due in that lane,
  so a sweep that reports an empty claim with a backlog is one bound to a lane - and everything it counts lies in other
  lanes.\<close>

theorem reported_backlog_is_of_other_lanes:
  assumes "store_ok store" "consumedTurnIds (claimDistillBatch opt store) = []" "reportEmptyClaim probeFailed opt store = Some n"
  shows "opt_lane opt \<noteq> None \<and> filter (is_due opt) store = [] \<and>
    n = length (filter (\<lambda>r. is_due (opt\<lparr>opt_lane := None\<rparr>) r \<and> Some (raw_lane r) \<noteq> opt_lane opt) store) \<and> 0 < n"
proof -
  have none: "filter (is_due opt) store = []" using assms(1,2) consumed_Nil [of opt store] by (simp add: consumed_alt)
  have n: "n = countOutstandingTurns (opt_namespace opt) store" "0 < n"
    using assms(3) by (auto simp: reportEmptyClaim_def Let_def split: if_splits)
  have "countOutstandingTurns (opt_namespace opt) store = length (filter (is_due (opt\<lparr>opt_lane := None\<rparr>)) store)"
    by (auto simp: countOutstandingTurns_def is_due_def in_scope_def intro!: arg_cong [of _ _ length] filter_cong)
  moreover have "filter (is_due (opt\<lparr>opt_lane := None\<rparr>)) store = filter (\<lambda>r. is_due (opt\<lparr>opt_lane := None\<rparr>) r \<and> Some (raw_lane r) \<noteq> opt_lane opt) store"
    using none by (intro filter_cong) (auto simp: filter_empty_conv is_due_def in_scope_def split: option.splits)
  moreover have "opt_lane opt \<noteq> None"
  proof
    assume "opt_lane opt = None"
    then have "opt\<lparr>opt_lane := None\<rparr> = opt" by simp
    with calculation(1) none n show False by simp
  qed
  ultimately show ?thesis using none n by simp
qed

lemma reported_backlog_is_of_other_lanes_witness:
  "opt_lane (any_options\<lparr>opt_lane := Some (Some ''lane'')\<rparr>) \<noteq> None \<and>
   reportEmptyClaim False (any_options\<lparr>opt_lane := Some (Some ''lane'')\<rparr>) [claim_sample ''t1'' ''user'' 1] = Some 1"
proof -
  let ?o = "any_options\<lparr>opt_lane := Some (Some ''lane'')\<rparr>" and ?s = "[claim_sample ''t1'' ''user'' 1]"
  have r: "reportEmptyClaim False ?o ?s = Some 1"
    by (simp add: reportEmptyClaim_def countOutstandingTurns_def claim_sample_def)
  have ok: "store_ok ?s" by (simp add: store_ok_def)
  have "consumedTurnIds (claimDistillBatch ?o ?s) = []"
    unfolding consumed_alt [OF ok] map_is_Nil_conv consumed_Nil by (simp add: is_due_def in_scope_def claim_sample_def)
  then show ?thesis using reported_backlog_is_of_other_lanes [OF ok _ r] r by simp
qed

subsection \<open>The bounded read\<close>

text \<open>All the turns a claim may see, in order; and sessions numbered in that order without a gap.\<close>

definition scoped_turns :: "claim_options \<Rightarrow> raw_turn list \<Rightarrow> raw_turn list" where
  "scoped_turns opt store = sort_by turn_le (filter (in_scope opt) store)"

abbreviation same_session :: "raw_turn \<Rightarrow> raw_turn \<Rightarrow> bool" where
  "same_session a b \<equiv> turn_session_ref (raw_of a) = turn_session_ref (raw_of b)"

definition next_in_session :: "raw_turn \<Rightarrow> raw_turn \<Rightarrow> bool" where
  "next_in_session a b \<longleftrightarrow> (same_session a b \<longrightarrow>
     (case turn_session_seq (raw_of a) of None \<Rightarrow> False | Some n \<Rightarrow> turn_session_seq (raw_of b) = Some (n + 1)))"

definition gap_free :: "raw_turn list \<Rightarrow> bool" where
  "gap_free rows = successively next_in_session rows"

definition context_window :: "claim_options \<Rightarrow> int" where
  "context_window opt = (case opt_context_window opt of None \<Rightarrow> DEFAULT_CONTEXT_WINDOW | Some n \<Rightarrow> n)"

lemma turn_le_order: "sort_order turn_le"
  unfolding turn_le_def by (intro lex_sort_order key_sort_order)

interpretation turn_order: sort_order turn_le
  by (rule turn_le_order)

lemma turn_le_session:
  assumes "turn_le a b" "turn_le b c" "same_session a c"
  shows "same_session b c"
  using assms unfolding turn_le_def lex_le_def text_or_empty_def by (auto split: option.splits)

lemma scoped_sorted: "sorted_wrt turn_le (scoped_turns opt store)"
  by (simp add: scoped_turns_def turn_order.sorted_sort_by)

lemma scoped_set: "set (scoped_turns opt store) = {r \<in> set store. in_scope opt r}"
  by (auto simp: scoped_turns_def)

lemma claimed_turns_filter:
  "claimed_turns opt store = filter (\<lambda>r. r \<in> set (due_turns opt store) \<or> is_context opt (due_turns opt store) r) (scoped_turns opt store)"
  using due_turns_due by (auto simp: claimed_turns_def Let_def scoped_turns_def turn_order.filter_sort_by is_context_def is_due_def
      intro!: arg_cong [of _ _ "sort_by turn_le"] filter_cong)

lemma due_turns_filter:
  "due_turns opt store =
     take (turn_limit opt) (filter (\<lambda>r. is_due opt r \<and> turn_session_ref (raw_of r) \<in> set (due_sessions opt store)) (scoped_turns opt store))"
  by (auto simp: due_turns_def scoped_turns_def turn_order.filter_sort_by is_due_def
      intro!: arg_cong [of _ _ "take (turn_limit opt)"] arg_cong [of _ _ "sort_by turn_le"] filter_cong)

text \<open>A session lies together.\<close>

lemma session_block:
  assumes "sorted_wrt turn_le (pre @ [t])"
  shows "takeWhile (\<lambda>p. same_session p t) (rev pre) = filter (\<lambda>p. same_session p t) (rev pre)"
  using assms
proof (induction pre rule: rev_induct)
  case (snoc y ys)
  then have IH: "takeWhile (\<lambda>p. same_session p t) (rev ys) = filter (\<lambda>p. same_session p t) (rev ys)" by (simp add: sorted_wrt_append)
  have "\<not> same_session z t" if "z \<in> set ys" "\<not> same_session y t" for z
    using that snoc.prems turn_le_session [of z y t] by (auto simp: sorted_wrt_append)
  then have "filter (\<lambda>p. same_session p t) (rev ys) = []" if "\<not> same_session y t" using that by (simp add: filter_empty_conv)
  with IH show ?case by auto
qed simp

lemma session_between:
  assumes "sorted_wrt turn_le L" "i \<le> j" "j \<le> k" "k < length L" "same_session (L ! i) (L ! k)"
  shows "same_session (L ! j) (L ! k)"
proof (cases "i = j \<or> j = k")
  case True
  with assms(5) show ?thesis by auto
next
  case False
  then have "turn_le (L ! i) (L ! j)" "turn_le (L ! j) (L ! k)" using assms by (auto intro: sorted_wrt_nth_less)
  then show ?thesis using assms(5) by (rule turn_le_session)
qed

lemma gap_free_seq:
  assumes "sorted_wrt turn_le L" "gap_free L" "i < j" "j < length L" "same_session (L ! i) (L ! j)"
  shows "\<exists>n. turn_session_seq (raw_of (L ! i)) = Some n \<and> turn_session_seq (raw_of (L ! j)) = Some (n + int (j - i))"
  using assms(3-5)
proof (induction j)
  case (Suc j)
  have step: "next_in_session (L ! j) (L ! Suc j)" using assms(2) Suc.prems(2) by (simp add: gap_free_def successively_conv_nth)
  have "same_session (L ! j) (L ! Suc j)" by (rule session_between [OF assms(1) _ _ Suc.prems(2,3)]) (use Suc.prems(1) in simp_all)
  with step obtain m where m: "turn_session_seq (raw_of (L ! j)) = Some m" "turn_session_seq (raw_of (L ! Suc j)) = Some (m + 1)"
    by (auto simp: next_in_session_def split: option.splits)
  show ?case
  proof (cases "i = j")
    case True
    with m show ?thesis by simp
  next
    case False
    with Suc.IH Suc.prems \<open>same_session (L ! j) (L ! Suc j)\<close>
    obtain n where "turn_session_seq (raw_of (L ! i)) = Some n" "turn_session_seq (raw_of (L ! j)) = Some (n + int (j - i))" by auto
    with m Suc.prems(1) False show ?thesis by (auto simp: of_nat_diff)
  qed
qed simp

lemma foldr_min_max:
  fixes xs :: "int list"
  assumes "x \<in> set xs"
  shows "foldr min xs (hd xs) \<le> x" "x \<le> foldr max xs (hd xs)" "foldr max xs (hd xs) \<in> set xs"
proof -
  have "x \<in> set ys \<Longrightarrow> foldr min ys a \<le> x \<and> x \<le> foldr max ys a" "foldr max ys a \<in> insert a (set ys)" for ys and a :: int
    by (induction ys) (auto simp: max_def min_def)
  then show "foldr min xs (hd xs) \<le> x" "x \<le> foldr max xs (hd xs)" "foldr max xs (hd xs) \<in> set xs" using assms
    by (metis insert_absorb list.set_sel(1) empty_iff list.set(1))+
qed

lemma due_seqs_set: "n \<in> set (due_seqs dues s) \<longleftrightarrow> (\<exists>r \<in> set dues. turn_session_ref (raw_of r) = s \<and> turn_session_seq (raw_of r) = Some n)"
  by (induction dues) (auto simp: due_seqs_def map_filter_simps split: option.splits)

lemma filter_set_take:
  assumes "distinct xs"
  shows "filter (\<lambda>x. x \<in> set (take k (filter D xs))) xs = take k (filter D xs)"
proof -
  have "filter (\<lambda>x. x \<in> set (take k (filter D xs))) xs = filter (\<lambda>x. x \<in> set (take k (filter D xs))) (filter D xs)"
    by (auto simp: dest: in_set_takeD intro!: filter_cong)
  moreover have "filter (\<lambda>x. x \<in> set (take k ys)) ys = take k ys" if "distinct ys" for ys :: "'a list"
  proof -
    have "filter (\<lambda>x. x \<in> set (take k ys)) (take k ys @ drop k ys) = take k ys"
      using set_take_disj_set_drop_if_distinct [OF that, of k k] unfolding filter_append by (auto simp: filter_empty_conv filter_id_conv)
    then show ?thesis by (simp only: append_take_drop_id)
  qed
  ultimately show ?thesis using assms by (metis distinct_filter)
qed

lemma take_filter_prefix: "\<forall>x \<in> set (take w xs). M x \<Longrightarrow> take w (filter M xs) = take w xs"
  by (induction xs arbitrary: w) (auto simp: take_Cons' split: if_splits)

lemma take_filter_before:
  assumes "distinct L" "i < k" "k < length L" "D (L ! i)" "L ! k \<in> set (take m (filter D L))"
  shows "L ! i \<in> set (take m (filter D L))"
proof -
  let ?a = "filter D (take (Suc i) L)" and ?b = "filter D (drop (Suc i) L)"
  have ab: "filter D L = ?a @ ?b" by (metis append_take_drop_id filter_append)
  have x: "L ! i \<in> set ?a" using assms(2-4) by (auto simp: in_set_conv_nth intro!: exI [of _ i])
  have y: "L ! k \<notin> set ?a" using assms(1-3) by (auto simp: in_set_conv_nth nth_eq_iff_index_eq)
  show ?thesis
  proof (cases "length ?a \<le> m")
    case True
    then show ?thesis using x unfolding ab by simp
  next
    case False
    then have "take m (filter D L) = take m ?a" unfolding ab by simp
    then show ?thesis using assms(5) y by (metis in_set_takeD)
  qed
qed

lemma gap_free_consumed:
  assumes "store_ok store" "gap_free (scoped_turns opt store)" "r \<in> set (consumed_rows opt store)"
  shows "r \<in> set (due_turns opt store)"
proof (rule ccontr)
  assume no: "r \<notin> set (due_turns opt store)"
  let ?L = "scoped_turns opt store" and ?dues = "due_turns opt store"
  let ?D = "\<lambda>r. is_due opt r \<and> turn_session_ref (raw_of r) \<in> set (due_sessions opt store)"
  have ctx: "is_context opt ?dues r" using assms(3) no by (simp add: consumed_rows_def claimed_turns_set)
  then obtain n where n: "turn_session_seq (raw_of r) = Some n" "due_seqs ?dues (turn_session_ref (raw_of r)) \<noteq> []"
      "n \<le> foldr max (due_seqs ?dues (turn_session_ref (raw_of r))) (hd (due_seqs ?dues (turn_session_ref (raw_of r))))"
    by (auto simp: is_context_def Let_def split: option.splits)
  then obtain q m where q: "q \<in> set ?dues" "same_session q r" "turn_session_seq (raw_of q) = Some m" "n \<le> m"
    using foldr_min_max(3) [of "hd (due_seqs ?dues (turn_session_ref (raw_of r)))" "due_seqs ?dues (turn_session_ref (raw_of r))"]
    by (metis due_seqs_set hd_in_set)
  have "distinct store" using assms(1) by (simp add: store_ok_def distinct_map)
  then have dL: "distinct ?L" by (simp add: scoped_turns_def)
  have "r \<in> set ?L" "q \<in> set ?L" using consumed_due [OF assms(3)] due_turns_due [OF q(1)] by (auto simp: scoped_set is_due_def)
  then obtain i k where i: "i < length ?L" "?L ! i = r" and k: "k < length ?L" "?L ! k = q" by (metis in_set_conv_nth)
  have qD: "q \<in> set (take (turn_limit opt) (filter ?D ?L))" using q(1) unfolding due_turns_filter .
  then have "?D q" by (auto dest: in_set_takeD)
  then have rD: "?D r" using consumed_due [OF assms(3)] q(2) by simp
  show False
  proof (cases rule: linorder_cases [of i k])
    case less
    have "r \<in> set ?dues"
      using take_filter_before [OF dL less k(1), of ?D "turn_limit opt"] rD qD i(2) k(2) unfolding due_turns_filter by simp
    with no show False ..
  next
    case equal
    with i k q(1) no show False by simp
  next
    case greater
    have "\<exists>a. turn_session_seq (raw_of q) = Some a \<and> turn_session_seq (raw_of r) = Some (a + int (i - k))"
      using gap_free_seq [OF scoped_sorted assms(2) greater i(1)] q(2) i(2) k(2) by simp
    with n(1) q(3,4) greater show False by auto
  qed
qed

lemma gap_free_context:
  assumes "gap_free (scoped_turns opt store)" "scoped_turns opt store = pre @ t # post" "t \<in> set (due_turns opt store)"
    "int w \<le> context_limit opt" "x \<in> set (take w (takeWhile (\<lambda>p. same_session p t) (rev pre)))"
  shows "is_context opt (due_turns opt store) x"
proof -
  let ?L = "scoped_turns opt store" and ?p = "length pre" and ?seqs = "due_seqs (due_turns opt store) (turn_session_ref (raw_of t))"
  obtain j where j: "j < w" "j < length (takeWhile (\<lambda>p. same_session p t) (rev pre))" "x = takeWhile (\<lambda>p. same_session p t) (rev pre) ! j"
    using assms(5) by (auto simp: in_set_conv_nth)
  have jp: "j < ?p" using j(2) length_takeWhile_le [of _ "rev pre"] by (metis le_trans length_rev linorder_not_less)
  have x: "x = ?L ! (?p - 1 - j)" using j jp by (simp add: takeWhile_nth rev_nth assms(2) nth_append)
  have t: "t = ?L ! ?p" by (simp add: assms(2))
  have ss: "same_session x t" using assms(5) by (metis (mono_tags, lifting) in_set_takeD set_takeWhileD)
  obtain n where n: "turn_session_seq (raw_of x) = Some n" "turn_session_seq (raw_of t) = Some (n + int (j + 1))"
  proof -
    have "?p - 1 - j < ?p" "?p < length ?L" "?p - (?p - 1 - j) = j + 1" using jp by (simp_all add: assms(2))
    then show thesis using gap_free_seq [OF scoped_sorted assms(1), of "?p - 1 - j" ?p] ss that unfolding x [symmetric] t [symmetric] by auto
  qed
  have "n + int (j + 1) \<in> set ?seqs" using assms(3) n(2) by (auto simp: due_seqs_set)
  note mm = foldr_min_max(1,2) [OF this]
  have "?p - 1 - j < length ?L" using jp by (simp add: assms(2))
  then have "x \<in> set ?L" unfolding x by (rule nth_mem)
  then have "in_scope opt x" by (simp add: scoped_set)
  moreover have "?seqs \<noteq> []" using \<open>n + int (j + 1) \<in> set ?seqs\<close> by auto
  moreover have "foldr min ?seqs (hd ?seqs) - context_limit opt \<le> n" using mm(1) j(1) assms(4) by linarith
  moreover have "n \<le> foldr max ?seqs (hd ?seqs)" using mm(2) by linarith
  ultimately show ?thesis using n(1) ss by (simp add: is_context_def Let_def)
qed

lemma build_units_filter:
  assumes "\<And>a t b. pre @ ts = a @ t # b \<Longrightarrow> K (raw_of t) \<Longrightarrow> M t \<and>
      take w (takeWhile (\<lambda>p. same_session p t) (rev (filter M a))) = take w (takeWhile (\<lambda>p. same_session p t) (rev a))"
  shows "filter (\<lambda>u. K (unit_current u)) (build_units w (map raw_of (rev (filter M pre))) (map raw_of (filter M ts))) =
    filter (\<lambda>u. K (unit_current u)) (build_units w (map raw_of (rev pre)) (map raw_of ts))"
  using assms
proof (induction ts arbitrary: pre)
  case (Cons t ts)
  have IH: "filter (\<lambda>u. K (unit_current u)) (build_units w (map raw_of (rev (filter M (pre @ [t])))) (map raw_of (filter M ts))) =
      filter (\<lambda>u. K (unit_current u)) (build_units w (map raw_of (rev (pre @ [t]))) (map raw_of ts))"
    by (rule Cons.IH) (use Cons.prems in simp)
  have ctx: "K (raw_of t) \<Longrightarrow> M t \<and>
      take w (takeWhile (\<lambda>p. same_session p t) (rev (filter M pre))) = take w (takeWhile (\<lambda>p. same_session p t) (rev pre))"
    using Cons.prems [of pre t ts] by simp
  show ?case
  proof (cases "M t")
    case True
    then show ?thesis using IH ctx by (auto simp: takeWhile_map comp_def take_map rev_map)
  next
    case False
    with ctx have "\<not> K (raw_of t)" by blast
    with False IH show ?thesis by simp
  qed
qed simp

text \<open>C32: the bounded read is enough. Where a session's turns are numbered without a gap in the order of time, the units of a
  claim are those that reading every turn in full would give for the claimed turns - the same context, cut from the same
  session - and the claim takes exactly the first due turns within its bound.\<close>

theorem bounded_read_is_enough:
  assumes "store_ok store" "gap_free (scoped_turns opt store)" "context_window opt \<le> 64"
  shows "batch_units (claimDistillBatch opt store) =
      filter (\<lambda>u. turn_id (unit_current u) \<in> set (consumedTurnIds (claimDistillBatch opt store)))
        (buildUnits (map raw_of (scoped_turns opt store)) (context_window opt)) \<and>
    consumedTurnIds (claimDistillBatch opt store) = map raw_id (due_turns opt store) \<and>
    length (consumedTurnIds (claimDistillBatch opt store)) \<le> turn_limit opt"
proof -
  let ?L = "scoped_turns opt store" and ?dues = "due_turns opt store"
  let ?M = "\<lambda>r. r \<in> set ?dues \<or> is_context opt ?dues r" and ?w = "nat (max 0 (context_window opt))"
  let ?K = "\<lambda>t. turn_id t \<in> raw_id ` set (consumed_rows opt store)"
  have "distinct store" using assms(1) by (simp add: store_ok_def distinct_map)
  then have dL: "distinct ?L" by (simp add: scoped_turns_def)
  have set_eq: "set (consumed_rows opt store) = set ?dues"
    using due_turns_consumed gap_free_consumed [OF assms(1,2)] by blast
  have "consumed_rows opt store = filter (\<lambda>r. r \<in> set ?dues) ?L"
    unfolding consumed_rows_def claimed_turns_filter filter_filter
    using set_eq by (intro filter_cong) (auto simp: consumed_rows_def claimed_turns_filter)
  also have "\<dots> = ?dues" unfolding due_turns_filter by (rule filter_set_take [OF dL])
  finally have cons: "consumed_rows opt store = ?dues" .
  have w: "int ?w \<le> context_limit opt" using assms(3) by (auto simp: context_limit_def bound_of_def context_window_def split: option.splits)
  have ctx: "?M t \<and> take ?w (takeWhile (\<lambda>p. same_session p t) (rev (filter ?M a))) = take ?w (takeWhile (\<lambda>p. same_session p t) (rev a))"
    if split: "[] @ ?L = a @ t # b" and K: "?K (raw_of t)" for a t b
  proof -
    have L: "?L = a @ t # b" using split by simp
    have "t \<in> set store" using scoped_set [of opt store] by (simp add: L) blast
    moreover obtain q where q: "q \<in> set ?dues" "raw_id t = raw_id q" using K unfolding cons by blast
    ultimately have "t = q" using store_ok_inj [OF assms(1)] due_turns_due by blast
    with q have t: "t \<in> set ?dues" by simp
    have sorted: "sorted_wrt turn_le (a @ [t])" using scoped_sorted [of opt store] unfolding L by (simp add: sorted_wrt_append)
    then have "sorted_wrt turn_le (filter ?M a @ [t])" by (simp add: sorted_wrt_append sorted_wrt_filter)
    then have "takeWhile (\<lambda>p. same_session p t) (rev (filter ?M a)) = filter (\<lambda>p. same_session p t) (rev (filter ?M a))" by (rule session_block)
    also have "\<dots> = filter ?M (filter (\<lambda>p. same_session p t) (rev a))" unfolding rev_filter filter_filter by (intro filter_cong) auto
    also have "\<dots> = filter ?M (takeWhile (\<lambda>p. same_session p t) (rev a))" using session_block [OF sorted] by simp
    also have "take ?w \<dots> = take ?w (takeWhile (\<lambda>p. same_session p t) (rev a))"
      using gap_free_context [OF assms(2) L t w] by (intro take_filter_prefix) blast
    finally show ?thesis using t by simp
  qed
  have "filter (\<lambda>u. ?K (unit_current u)) (build_units ?w [] (map raw_of (filter ?M ?L))) =
      filter (\<lambda>u. ?K (unit_current u)) (build_units ?w [] (map raw_of ?L))"
    using build_units_filter [of "[]" ?L ?K ?M ?w, OF ctx] by simp
  then have "batch_units (claimDistillBatch opt store) = filter (\<lambda>u. ?K (unit_current u)) (buildUnits (map raw_of ?L) (context_window opt))"
    by (simp add: claimDistillBatch_def Let_def consumed_rows_def buildUnits_def claimed_turns_filter context_window_def)
  then show ?thesis unfolding consumed_alt [OF assms(1)] cons using due_turns_filter [of opt store] by simp
qed

lemma bounded_read_is_enough_witness:
  "consumedTurnIds (claimDistillBatch any_options [claim_sample ''t2'' ''tool'' 2, claim_sample ''t1'' ''user'' 1]) =
    map raw_id (due_turns any_options [claim_sample ''t2'' ''tool'' 2, claim_sample ''t1'' ''user'' 1]) \<and>
   gap_free (scoped_turns any_options [claim_sample ''t2'' ''tool'' 2, claim_sample ''t1'' ''user'' 1])"
proof -
  let ?s = "[claim_sample ''t2'' ''tool'' 2, claim_sample ''t1'' ''user'' 1]"
  have ok: "store_ok ?s" by (simp add: store_ok_def claim_sample_def)
  have gap: "gap_free (scoped_turns any_options ?s)" by code_simp
  show ?thesis using bounded_read_is_enough [OF ok gap] gap by (simp add: context_window_def DEFAULT_CONTEXT_WINDOW_def)
qed

text \<open>Neither half holds of a session whose numbers leave the order of time, or have a hole: then a claim bounded to one turn
  takes two, and a reply is read without the prompt before it.\<close>

definition turn_at :: "string \<Rightarrow> int \<Rightarrow> int \<Rightarrow> bool \<Rightarrow> raw_turn" where
  "turn_at i time n distilled =
     (claim_sample i ''user'' n)\<lparr>raw_of := (raw_of (claim_sample i ''user'' n))\<lparr>turn_occurred_at := Some time\<rparr>,
        raw_distilled := (if distilled then Some 0 else None)\<rparr>"

lemma bound_on_turns_exceeded:
  "turn_limit (any_options\<lparr>opt_max_turns := Some 1\<rparr>) = 1 \<and>
   consumedTurnIds (claimDistillBatch (any_options\<lparr>opt_max_turns := Some 1\<rparr>) [turn_at ''t1'' 1 5 False, turn_at ''t2'' 2 3 False]) = [''t1'', ''t2'']"
  by code_simp

lemma context_lost_across_a_gap:
  "map (\<lambda>u. map turn_id (unit_context u)) (batch_units (claimDistillBatch any_options [turn_at ''t1'' 1 1 True, turn_at ''t2'' 2 9 False])) = [[]] \<and>
   map (\<lambda>u. map turn_id (unit_context u)) (buildUnits (map raw_of (scoped_turns any_options [turn_at ''t1'' 1 1 True, turn_at ''t2'' 2 9 False])) 3) =
     [[], [''t1'']]"
  by code_simp

end
