(* ===== verification/MaintenanceSweep.thy ===== *)
theory MaintenanceSweep
  imports MaintenanceConfig MaintenanceQueue DistillWindow
begin

text \<open>
  The producer half of the maintenance tier (\<open>server/maintenance/maintenance-sweep.ts\<close>, \<open>route-producer.ts\<close>, the
  enqueue builders of \<open>distill-handler.ts\<close>, \<open>dream-light.ts\<close>, \<open>dream-rem.ts\<close>, \<open>dream-route.ts\<close> and
  \<open>graph-derivation-handler.ts\<close>, and \<open>rem-signal-source.ts\<close>): what one sweep enqueues, and the recurring loop.

  What a sweep reads (the rows its statements select, the signals) is an argument, \<open>Inl\<close> when the read throws. A
  signal is \<open>None\<close> when it is \<open>NaN\<close> or infinite. The queue is an argument \<open>enq\<close> that passes its state \<open>'q\<close>; the
  durable table is its instance, with one reading of the clock for a sweep. The log is not modelled.
\<close>

subsection \<open>The jobs\<close>

definition DEFAULT_DISTILL_BATCH_SIZE :: int where "DEFAULT_DISTILL_BATCH_SIZE = 1500"
definition MAX_DISTILL_BATCH_SIZE :: int where "MAX_DISTILL_BATCH_SIZE = 20000"
definition DEFAULT_MAX_DISTILL_BATCHES :: int where "DEFAULT_MAX_DISTILL_BATCHES = 4"
definition MAX_DISTILL_BATCHES :: int where "MAX_DISTILL_BATCHES = 64"
definition DEFAULT_GRAPH_DERIVATION_LIMIT :: int where "DEFAULT_GRAPH_DERIVATION_LIMIT = 100"
definition MAX_GRAPH_DERIVATION_LIMIT :: int where "MAX_GRAPH_DERIVATION_LIMIT = 256"
definition DEFAULT_REM_BATCH :: int where "DEFAULT_REM_BATCH = 300"
definition REM_STARVATION_CEILING_MS :: int where "REM_STARVATION_CEILING_MS = 6 * 60 * 60 * 1000"

definition show_int :: "int \<Rightarrow> string" where
  "show_int i = (if i < 0 then CHR ''-'' # show_nat (nat (- i)) else show_nat (nat i))"

definition job_request :: "string \<Rightarrow> json \<Rightarrow> string \<Rightarrow> string option \<Rightarrow> json option \<Rightarrow> enqueue_input" where
  "job_request kind body key namespace prov =
     \<lparr>in_kind = kind, in_version = 1, in_payload = body, in_key = key, in_run_after = None, in_max_attempts = None,
      in_backoff_base = None, in_backoff_max = None, in_namespace = namespace, in_provenance = prov\<rparr>"

definition buildDreamLightEnqueue :: enqueue_input where
  "buildDreamLightEnqueue = job_request ''dream.light'' (JObj []) ''dream.light'' None None"

definition buildDreamRemEnqueue :: "string \<Rightarrow> int \<Rightarrow> enqueue_input" where
  "buildDreamRemEnqueue sweepLabel batchSize =
     job_request ''dream.rem'' (JObj [(''batch_size'', JNum (show_int batchSize))]) (take 200 (''dream.rem:'' @ sweepLabel)) None None"

definition buildDreamRouteEnqueue :: "string \<Rightarrow> int \<Rightarrow> enqueue_input" where
  "buildDreamRouteEnqueue sweepLabel batchSize =
     job_request ''dream.route'' (JObj [(''batch_size'', JNum (show_int batchSize))]) (take 200 (''dream.route:'' @ sweepLabel)) None None"

record distill_batch =
  laneId :: "string option"
  batch_namespace :: string
  batchHash :: string
  pendingTurns :: int
  processableTurns :: int
  totalBatches :: int

definition buildMemoryDistillEnqueue :: "string \<Rightarrow> string \<Rightarrow> string option \<Rightarrow> int \<Rightarrow> int \<Rightarrow> enqueue_input" where
  "buildMemoryDistillEnqueue sweepLabel namespace lane maxSessions maxTurns =
     job_request ''memory.distill''
       (JObj [(''lane_id'', case lane of Some l \<Rightarrow> JStr l | None \<Rightarrow> JNull), (''max_sessions'', JNum (show_int maxSessions)),
              (''max_turns'', JNum (show_int maxTurns))])
       (take 200 (''memory.distill:'' @ sweepLabel)) (Some namespace) None"

record source_row =
  source_id :: string
  source_namespace :: string
  source_kind :: string
  external_id :: string
  source_content_hash :: string
  source_revision :: int

text \<open>The sweep passes no resolver of metadata.\<close>

definition SOURCE_CONTENT_HASH_VERSION :: string where "SOURCE_CONTENT_HASH_VERSION = ''sha256.v1''"

definition buildGraphDerivationEnqueue :: "source_row \<Rightarrow> enqueue_input" where
  "buildGraphDerivationEnqueue s =
     job_request ''graph.derive''
       (JObj [(''source_id'', JStr (source_id s)), (''source_kind'', JStr (source_kind s)), (''external_id'', JStr (external_id s)),
              (''content_hash'', JStr (source_content_hash s)), (''revision'', JNum (show_int (source_revision s)))])
       (''graph.derive:'' @ source_id s @ '':'' @ source_content_hash s) (Some (source_namespace s))
       (Some (JObj [(''hash_version'', JStr SOURCE_CONTENT_HASH_VERSION)]))"

subsection \<open>REM\<close>

type_synonym 'q enqueue_port = "enqueue_input \<Rightarrow> 'q \<Rightarrow> 'q \<times> (job_row \<times> enqueue_outcome) result"

record rem_signals =
  nowMs :: "int option"
  schedulerStartedAtMs :: "int option"
  lastRemCompletedAtMs :: "int option option"
  requestsPerMinute :: "int option"
  headroomBytes :: "int option"
  lightBacklog :: "int option"

datatype producer_reason = Disabled | Invalid_config | Invalid_signals | Headroom | Cooldown | Busy | Low_rate | Backlog | Forced
  | Nothing_unrouted | Due

record producer_result =
  res_eligible :: bool
  res_enqueued :: bool
  res_reason :: producer_reason

abbreviation not_eligible :: "producer_reason \<Rightarrow> producer_result" where
  "not_eligible why \<equiv> \<lparr>res_eligible = False, res_enqueued = False, res_reason = why\<rparr>"

definition validSignal :: "int option \<Rightarrow> bool" where
  "validSignal v = (case v of None \<Rightarrow> False | Some i \<Rightarrow> 0 \<le> i)"

definition remSignalsValid :: "rem_signals \<Rightarrow> bool" where
  "remSignalsValid s \<longleftrightarrow>
     list_all validSignal [nowMs s, schedulerStartedAtMs s, requestsPerMinute s, headroomBytes s, lightBacklog s] \<and>
     (lastRemCompletedAtMs s = None \<or> validSignal (the (lastRemCompletedAtMs s))) \<and>
     the (schedulerStartedAtMs s) \<le> the (nowMs s) \<and>
     (lastRemCompletedAtMs s = None \<or> the (the (lastRemCompletedAtMs s)) \<le> the (nowMs s))"

text \<open>The signals after validation: finite numbers.\<close>

definition completionIdentity :: "rem_signals \<Rightarrow> int" where
  "completionIdentity s = (case lastRemCompletedAtMs s of Some t \<Rightarrow> the t | None \<Rightarrow> the (schedulerStartedAtMs s))"

definition remEligibilityReason :: "rem_settings \<Rightarrow> rem_signals \<Rightarrow> producer_reason" where
  "remEligibilityReason cfg s =
     (let since = the (nowMs s) - completionIdentity s
      in if since \<ge> REM_STARVATION_CEILING_MS then Forced
         else if the (lightBacklog s) \<ge> backlogHighWater cfg then Backlog
         else if the (requestsPerMinute s) \<le> maxRequestsPerMinute cfg then Low_rate
         else Busy)"

definition remInCooldown :: "rem_settings \<Rightarrow> rem_signals \<Rightarrow> bool" where
  "remInCooldown cfg s = (case lastRemCompletedAtMs s of None \<Rightarrow> False | Some t \<Rightarrow> the (nowMs s) - the t < rem_minGapMs cfg)"

definition enqueue_eligible ::
  "'q enqueue_port \<Rightarrow> enqueue_input \<Rightarrow> producer_reason \<Rightarrow> 'q \<Rightarrow> 'q \<times> producer_result result" where
  "enqueue_eligible enq request why q =
     (case enq request q of
        (q', Inl e) \<Rightarrow> (q', Inl e)
      | (q', Inr (job, outcome)) \<Rightarrow> (q', Inr \<lparr>res_eligible = True, res_enqueued = (outcome \<noteq> Deduped), res_reason = why\<rparr>))"

definition enqueueDreamRemIfEligible :: "rem_config \<Rightarrow> rem_signals \<Rightarrow> 'q enqueue_port \<Rightarrow> 'q \<Rightarrow> 'q \<times> producer_result result" where
  "enqueueDreamRemIfEligible config s enq q =
     (case config of Rem_disabled \<Rightarrow> (q, Inr (not_eligible Disabled))
      | Rem_enabled cfg \<Rightarrow>
          if \<bar>forcedSliceSize cfg\<bar> > 9007199254740991 \<or> forcedSliceSize cfg < 1 \<or> forcedSliceSize cfg > DEFAULT_REM_BATCH
            then (q, Inr (not_eligible Invalid_config))
          else if \<not> remSignalsValid s then (q, Inr (not_eligible Invalid_signals))
          else if the (headroomBytes s) < minHeadroomBytes cfg then (q, Inr (not_eligible Headroom))
          else if remInCooldown cfg s then (q, Inr (not_eligible Cooldown))
          else let why = remEligibilityReason cfg s
               in if why = Busy then (q, Inr (not_eligible Busy))
                  else enqueue_eligible enq (buildDreamRemEnqueue (''auto:'' @ show_int (completionIdentity s)) (forcedSliceSize cfg)) why q)"

text \<open>A throw of the read or of the enqueue is reported as invalid signals.\<close>

definition caught :: "'q \<times> producer_result result \<Rightarrow> 'q \<times> producer_result" where
  "caught r = (fst r, case snd r of Inr x \<Rightarrow> x | Inl e \<Rightarrow> not_eligible Invalid_signals)"

definition produceRem :: "rem_config option \<Rightarrow> rem_signals result option \<Rightarrow> 'q enqueue_port \<Rightarrow> 'q \<Rightarrow> 'q \<times> producer_result" where
  "produceRem config readRemSignals enq q =
     (if config = None \<or> config = Some Rem_disabled then (q, not_eligible Disabled)
      else (case readRemSignals of None \<Rightarrow> (q, not_eligible Invalid_signals)
        | Some signals \<Rightarrow> caught (case signals of Inl e \<Rightarrow> (q, Inl e)
             | Inr s \<Rightarrow> enqueueDreamRemIfEligible (the config) s enq q)))"

subsection \<open>Route\<close>

record route_signals =
  route_nowMs :: "int option"
  lastRouteTerminalAtMs :: "int option option"
  hasUnrouted :: bool

definition routeSignalsValid :: "route_signals \<Rightarrow> bool" where
  "routeSignalsValid s \<longleftrightarrow> validSignal (route_nowMs s) \<and>
     (case lastRouteTerminalAtMs s of None \<Rightarrow> True | Some t \<Rightarrow> validSignal t \<and> the t \<le> the (route_nowMs s))"

definition enqueueDreamRouteIfEligible ::
  "route_config \<Rightarrow> route_signals \<Rightarrow> 'q enqueue_port \<Rightarrow> 'q \<Rightarrow> 'q \<times> producer_result result" where
  "enqueueDreamRouteIfEligible config s enq q =
     (case config of Route_disabled \<Rightarrow> (q, Inr (not_eligible Disabled))
      | Route_enabled cfg \<Rightarrow>
          if \<not> routeSignalsValid s then (q, Inr (not_eligible Invalid_signals))
          else if (case lastRouteTerminalAtMs s of None \<Rightarrow> False | Some t \<Rightarrow> the (route_nowMs s) - the t < route_minGapMs cfg)
            then (q, Inr (not_eligible Cooldown))
          else if \<not> hasUnrouted s then (q, Inr (not_eligible Nothing_unrouted))
          else enqueue_eligible enq
                 (buildDreamRouteEnqueue (''auto:'' @ (case lastRouteTerminalAtMs s of Some t \<Rightarrow> show_int (the t) | None \<Rightarrow> ''first''))
                    (sliceSize cfg)) Due q)"

definition produceRoute :: "route_config option \<Rightarrow> route_signals result option \<Rightarrow> 'q enqueue_port \<Rightarrow> 'q \<Rightarrow> 'q \<times> producer_result" where
  "produceRoute config readRouteSignals enq q =
     (if config = None \<or> config = Some Route_disabled then (q, not_eligible Disabled)
      else (case readRouteSignals of None \<Rightarrow> (q, not_eligible Invalid_signals)
        | Some signals \<Rightarrow> caught (case signals of Inl e \<Rightarrow> (q, Inl e)
             | Inr s \<Rightarrow> enqueueDreamRouteIfEligible (the config) s enq q)))"

subsection \<open>One sweep\<close>

definition boundedInteger :: "rat option \<Rightarrow> int \<Rightarrow> int \<Rightarrow> int" where
  "boundedInteger v fallback upper =
     min (max (case v of None \<Rightarrow> fallback | Some r \<Rightarrow> if 0 \<le> r then \<lfloor>r\<rfloor> else \<lceil>r\<rceil>) 1) upper"

record sweep_options =
  opt_distillBatchSize :: "rat option"
  opt_maxDistillBatchesPerTick :: "rat option"
  opt_graphDerivationLimit :: "rat option"
  opt_rem :: "rem_config option"
  opt_route :: "route_config option"

text \<open>What the sweep reads, statement by statement; the third to fifth argument of the first is what it binds.\<close>

record sweep_reads =
  selectDistillLaneBatches :: "int \<Rightarrow> int \<Rightarrow> int \<Rightarrow> distill_batch list result"
  hasUnsweptTurns :: "bool result"
  readRemSignals :: "rem_signals result option"
  readRouteSignals :: "route_signals result option"
  readEnqueueSources :: "int \<Rightarrow> source_row list result"

record distill_outcome =
  distill_jobs :: nat
  deferredTurns :: int
  dedupedJobs :: nat

fun enqueueDistillBatches ::
  "'q enqueue_port \<Rightarrow> int \<Rightarrow> int \<Rightarrow> distill_batch list \<Rightarrow> distill_outcome \<Rightarrow> 'q \<Rightarrow> 'q \<times> distill_outcome result" where
  "enqueueDistillBatches enq maxSessions maxTurns [] acc q = (q, Inr acc)"
| "enqueueDistillBatches enq maxSessions maxTurns (batch # batches) acc q =
     (let acc = acc\<lparr>deferredTurns := deferredTurns acc + max (pendingTurns batch - processableTurns batch) 0\<rparr>
      in case enq (buildMemoryDistillEnqueue (batchHash batch @ '':s'' @ show_int maxSessions @ '':t'' @ show_int maxTurns)
                     (batch_namespace batch) (laneId batch) maxSessions maxTurns) q of
           (q', Inl e) \<Rightarrow> (q', Inl e)
         | (q', Inr (job, outcome)) \<Rightarrow>
             enqueueDistillBatches enq maxSessions maxTurns batches
               (if outcome = Deduped then acc\<lparr>dedupedJobs := dedupedJobs acc + 1\<rparr> else acc\<lparr>distill_jobs := distill_jobs acc + 1\<rparr>) q')"

definition enqueueLightBatches :: "bool result \<Rightarrow> 'q enqueue_port \<Rightarrow> 'q \<Rightarrow> 'q" where
  "enqueueLightBatches unswept enq q =
     (case unswept of Inl e \<Rightarrow> q | Inr some \<Rightarrow> if some then fst (enq buildDreamLightEnqueue q) else q)"

definition MAX_ENQUEUE_LIMIT :: int where "MAX_ENQUEUE_LIMIT = 256"
definition MAX_SELECT_LIMIT :: int where "MAX_SELECT_LIMIT = MAX_ENQUEUE_LIMIT + 1"

fun enqueue_sources :: "'q enqueue_port \<Rightarrow> source_row list \<Rightarrow> nat \<Rightarrow> 'q \<Rightarrow> 'q \<times> nat result" where
  "enqueue_sources enq [] n q = (q, Inr n)"
| "enqueue_sources enq (s # rest) n q =
     (case enq (buildGraphDerivationEnqueue s) q of
        (q', Inl e) \<Rightarrow> (q', Inl e)
      | (q', Inr (job, outcome)) \<Rightarrow> enqueue_sources enq rest (if outcome = Deduped then n else n + 1) q')"

definition enqueueGraphDerivationJobs ::
  "(int \<Rightarrow> source_row list result) \<Rightarrow> 'q enqueue_port \<Rightarrow> int \<Rightarrow> 'q \<Rightarrow> 'q \<times> (nat \<times> bool) result" where
  "enqueueGraphDerivationJobs sources enq limit q =
     (let enqueueLimit = min (max limit 1) MAX_ENQUEUE_LIMIT
      in case sources (min (max (enqueueLimit + 1) 1) MAX_SELECT_LIMIT) of
           Inl e \<Rightarrow> (q, Inl e)
         | Inr rows \<Rightarrow>
             (case enqueue_sources enq (take (nat enqueueLimit) rows) 0 q of
                (q', Inl e) \<Rightarrow> (q', Inl e)
              | (q', Inr n) \<Rightarrow> (q', Inr (n, int (length rows) > enqueueLimit))))"

record sweep_summary =
  distillBatchesSelected :: nat
  distillJobsEnqueued :: nat
  distillJobsDeduped :: nat
  distillBatchesDeferred :: int
  distillTurnsDeferred :: int
  graphJobsEnqueued :: nat
  graphLimitReached :: bool
  sum_rem :: producer_result
  sum_route :: producer_result

definition runMaintenanceSweep ::
  "sweep_options \<Rightarrow> sweep_reads \<Rightarrow> 'q enqueue_port \<Rightarrow> 'q \<Rightarrow> 'q \<times> sweep_summary result" where
  "runMaintenanceSweep options reads enq q0 =
     (let distillBatchSize = boundedInteger (opt_distillBatchSize options) DEFAULT_DISTILL_BATCH_SIZE MAX_DISTILL_BATCH_SIZE;
          maxDistillBatches = boundedInteger (opt_maxDistillBatchesPerTick options) DEFAULT_MAX_DISTILL_BATCHES MAX_DISTILL_BATCHES;
          graphLimit = boundedInteger (opt_graphDerivationLimit options) DEFAULT_GRAPH_DERIVATION_LIMIT MAX_GRAPH_DERIVATION_LIMIT
      in case selectDistillLaneBatches reads DEFAULT_MAX_DISTILL_SESSIONS distillBatchSize maxDistillBatches of
           Inl e \<Rightarrow> (q0, Inl e)
         | Inr batches \<Rightarrow>
             let total = (case batches of [] \<Rightarrow> 0 | b # _ \<Rightarrow> totalBatches b)
             in case enqueueDistillBatches enq DEFAULT_MAX_DISTILL_SESSIONS distillBatchSize batches
                       \<lparr>distill_jobs = 0, deferredTurns = 0, dedupedJobs = 0\<rparr> q0 of
                  (q1, Inl e) \<Rightarrow> (q1, Inl e)
                | (q1, Inr distill) \<Rightarrow>
                    let q2 = enqueueLightBatches (hasUnsweptTurns reads) enq q1;
                        (q3, rem_result) = produceRem (opt_rem options) (readRemSignals reads) enq q2;
                        (q4, route_result) = produceRoute (opt_route options) (readRouteSignals reads) enq q3
                    in case enqueueGraphDerivationJobs (readEnqueueSources reads) enq graphLimit q4 of
                         (q5, Inl e) \<Rightarrow> (q5, Inl e)
                       | (q5, Inr (graph_jobs, limitReached)) \<Rightarrow>
                           (q5, Inr \<lparr>distillBatchesSelected = length batches, distillJobsEnqueued = distill_jobs distill,
                             distillJobsDeduped = dedupedJobs distill,
                             distillBatchesDeferred = max (total - int (length batches)) 0,
                             distillTurnsDeferred = deferredTurns distill, graphJobsEnqueued = graph_jobs,
                             graphLimitReached = limitReached, sum_rem = rem_result, sum_route = route_result\<rparr>))"

subsection \<open>What a sweep relies on of a queue\<close>

text \<open>The contract of the idempotency keys: while a job lives, its request is answered as a duplicate and changes
  nothing. \<open>grows q q'\<close>: \<open>q'\<close> is reached from \<open>q\<close> by enqueues; \<open>holds\<close>: a live job has the kind and the key.
  The argument \<open>t\<close> of \<open>enq\<close> is what a queue draws from its surroundings, the clock and fresh identifiers.\<close>

locale idempotent_queue =
  fixes enq :: "'t \<Rightarrow> 'q enqueue_port" and grows :: "'q \<Rightarrow> 'q \<Rightarrow> bool" and holds :: "string \<Rightarrow> string \<Rightarrow> 'q \<Rightarrow> bool"
  assumes grows_refl: "grows q q"
    and grows_trans: "grows q q1 \<Longrightarrow> grows q1 q2 \<Longrightarrow> grows q q2"
    and grows_enq: "grows q (fst (enq t inp q))"
    and holds_grows: "holds k key q \<Longrightarrow> grows q q1 \<Longrightarrow> holds k key q1"
    and holds_enq: "enq t inp q = (q1, Inr r) \<Longrightarrow> holds (in_kind inp) (in_key inp) q1"
    and enq_again: "enq t inp q = (q1, Inr r) \<Longrightarrow> grows q1 q2 \<Longrightarrow> \<exists>job. enq u inp q2 = (q2, Inr (job, Deduped))"
    and enq_refused: "enq t inp q = (q1, Inl e) \<Longrightarrow> grows q1 q2 \<Longrightarrow> \<exists>f. enq u inp q2 = (q2, Inl f)"
begin

lemma grows_eligible: "grows q (fst (enqueue_eligible (enq t) inp why q))"
  using grows_enq [of q t inp] by (auto simp: enqueue_eligible_def split: prod.splits sum.splits)

lemma eligible_again:
  assumes "grows (fst (enqueue_eligible (enq t) inp why q)) q2"
  shows "fst (enqueue_eligible (enq u) inp why q2) = q2"
    "snd (enqueue_eligible (enq u) inp why q2) = Inr p \<Longrightarrow> \<not> res_enqueued p"
proof -
  obtain q1 x where e: "enq t inp q = (q1, x)" by fastforce
  with assms have g: "grows q1 q2" by (auto simp: enqueue_eligible_def split: sum.splits prod.splits)
  have "\<exists>y. enqueue_eligible (enq u) inp why q2 = (q2, y) \<and> (\<forall>p. y = Inr p \<longrightarrow> \<not> res_enqueued p)"
  proof (cases x)
    case (Inl a)
    then obtain f where "enq u inp q2 = (q2, Inl f)" using e enq_refused g by blast
    then show ?thesis by (simp add: enqueue_eligible_def)
  next
    case (Inr a)
    then obtain job where "enq u inp q2 = (q2, Inr (job, Deduped))" using e enq_again g by blast
    then show ?thesis by (simp add: enqueue_eligible_def)
  qed
  then show "fst (enqueue_eligible (enq u) inp why q2) = q2"
    "snd (enqueue_eligible (enq u) inp why q2) = Inr p \<Longrightarrow> \<not> res_enqueued p" by auto
qed

lemma producers_grow: "grows q (fst (produceRem c s (enq t) q))" "grows q (fst (produceRoute d r (enq t) q))"
  by (auto simp: produceRem_def produceRoute_def caught_def enqueueDreamRemIfEligible_def enqueueDreamRouteIfEligible_def
      Let_def grows_refl grows_eligible split: option.splits sum.splits rem_config.splits route_config.splits)

lemma rem_again:
  "grows (fst (produceRem c s (enq t) q)) q2 \<Longrightarrow>
     fst (produceRem c s (enq u) q2) = q2 \<and> \<not> res_enqueued (snd (produceRem c s (enq u) q2))"
  by (auto simp: produceRem_def caught_def enqueueDreamRemIfEligible_def Let_def eligible_again
      split: option.splits sum.splits rem_config.splits if_splits)

lemma route_again:
  "grows (fst (produceRoute c s (enq t) q)) q2 \<Longrightarrow>
     fst (produceRoute c s (enq u) q2) = q2 \<and> \<not> res_enqueued (snd (produceRoute c s (enq u) q2))"
  by (auto simp: produceRoute_def caught_def enqueueDreamRouteIfEligible_def Let_def eligible_again
      split: option.splits sum.splits route_config.splits if_splits)

lemma light_again:
  "grows q (enqueueLightBatches r (enq t) q)"
  "grows (enqueueLightBatches r (enq t) q) q2 \<Longrightarrow> enqueueLightBatches r (enq u) q2 = q2"
proof -
  show "grows q (enqueueLightBatches r (enq t) q)" 
    by (simp add: enqueueLightBatches_def grows_refl grows_enq split: sum.splits)
  assume g: "grows (enqueueLightBatches r (enq t) q) q2"
  have "fst (enq u buildDreamLightEnqueue q2) = q2" if due: "r = Inr True"
  proof -
    obtain q1 x where e: "enq t buildDreamLightEnqueue q = (q1, x)" by fastforce
    with g due have "grows q1 q2" by (simp add: enqueueLightBatches_def)
    then show ?thesis using e enq_refused [of t _ q q1 _ q2 u] enq_again [of t _ q q1 _ q2 u] by (cases x) fastforce+
  qed
  then show "enqueueLightBatches r (enq u) q2 = q2" by (auto simp: enqueueLightBatches_def split: sum.splits)
qed

lemma grows_then: "enq t inp q = (q1, r) \<Longrightarrow> grows q1 q2 \<Longrightarrow> grows q q2"
  using grows_enq [of q t inp] grows_trans by simp

lemma distill_grows: "grows q (fst (enqueueDistillBatches (enq t) k n bs acc q))"
proof (induction bs arbitrary: acc q)
  case (Cons b bs)
  let ?inp = "buildMemoryDistillEnqueue (batchHash b @ '':s'' @ show_int k @ '':t'' @ show_int n) (batch_namespace b) (laneId b) k n"
  obtain q' x where e: "enq t ?inp q = (q', x)" by fastforce
  show ?case
  proof (cases x)
    case (Inl f)
    with e grows_then [OF e grows_refl] show ?thesis by (simp add: Let_def)
  next
    case (Inr r)
    with e grows_then [OF e Cons.IH] show ?thesis by (cases r) (simp add: Let_def)
  qed
qed (simp add: grows_refl)

lemma sources_grow: "grows q (fst (enqueue_sources (enq t) ss n q))"
proof (induction ss arbitrary: n q)
  case (Cons b bs)
  obtain q' x where e: "enq t (buildGraphDerivationEnqueue b) q = (q', x)" by fastforce
  show ?case
  proof (cases x)
    case (Inl f)
    with e grows_then [OF e grows_refl] show ?thesis by simp
  next
    case (Inr r)
    with e grows_then [OF e Cons.IH] show ?thesis by (cases r) simp
  qed
qed (simp add: grows_refl)

text \<open>A second pass over batches that were all accepted adds nothing and counts only duplicates.\<close>

lemma distill_again:
  assumes "enqueueDistillBatches (enq t) k n bs acc q = (q1, Inr d)" "grows q1 q2"
  shows "\<exists>e. enqueueDistillBatches (enq u) k n bs acc' q2 = (q2, Inr e) \<and> distill_jobs e = distill_jobs acc' \<and>
    dedupedJobs e = dedupedJobs acc' + length bs \<and> deferredTurns e = deferredTurns acc' + (deferredTurns d - deferredTurns acc)"
  using assms
proof (induction bs arbitrary: acc acc' q)
  case (Cons b bs)
  let ?inp = "buildMemoryDistillEnqueue (batchHash b @ '':s'' @ show_int k @ '':t'' @ show_int n) (batch_namespace b) (laneId b) k n"
  obtain q' job outcome where e: "enq t ?inp q = (q', Inr (job, outcome))"
    using Cons.prems(1) by (fastforce simp: Let_def split: prod.splits sum.splits)
  let ?mid = "acc\<lparr>deferredTurns := deferredTurns acc + max (pendingTurns b - processableTurns b) 0\<rparr>"
  let ?next = "if outcome = Deduped then ?mid\<lparr>dedupedJobs := dedupedJobs ?mid + 1\<rparr> else ?mid\<lparr>distill_jobs := distill_jobs ?mid + 1\<rparr>"
  have rest: "enqueueDistillBatches (enq t) k n bs ?next q' = (q1, Inr d)" using Cons.prems(1) e by (simp add: Let_def)
  have "grows q' q1" using distill_grows [of q' t k n bs ?next] by (simp add: rest)
  then obtain job' where again: "enq u ?inp q2 = (q2, Inr (job', Deduped))"
    using enq_again [OF e] Cons.prems(2) grows_trans by blast
  let ?mid' = "acc'\<lparr>deferredTurns := deferredTurns acc' + max (pendingTurns b - processableTurns b) 0\<rparr>"
  from Cons.IH [OF rest Cons.prems(2), of "?mid'\<lparr>dedupedJobs := dedupedJobs ?mid' + 1\<rparr>"] again show ?case
    by (auto simp: Let_def)
qed simp

lemma sources_again:
  assumes "enqueue_sources (enq t) ss n q = (q1, Inr m)" "grows q1 q2"
  shows "enqueue_sources (enq u) ss n' q2 = (q2, Inr n')"
  using assms
proof (induction ss arbitrary: n n' q)
  case (Cons s ss)
  obtain q' job outcome where e: "enq t (buildGraphDerivationEnqueue s) q = (q', Inr (job, outcome))"
    using Cons.prems(1) by (fastforce split: prod.splits sum.splits)
  have rest: "enqueue_sources (enq t) ss (if outcome = Deduped then n else n + 1) q' = (q1, Inr m)"
    using Cons.prems(1) e by simp
  have "grows q' q1" using sources_grow [of q' t ss "if outcome = Deduped then n else n + 1"] by (simp only: rest fst_conv)
  then obtain job' where "enq u (buildGraphDerivationEnqueue s) q2 = (q2, Inr (job', Deduped))"
    using enq_again [OF e] Cons.prems(2) grows_trans by blast
  with Cons.IH [OF rest Cons.prems(2)] show ?case by simp
qed simp

lemma graph_grows: "grows q (fst (enqueueGraphDerivationJobs rd (enq t) n q))"
  using sources_grow by (auto simp: enqueueGraphDerivationJobs_def Let_def grows_refl split: sum.splits prod.splits)
    (metis fst_conv)+

lemma sweep_parts:
  assumes "runMaintenanceSweep opts reads (enq t) q = (q5, Inr s)"
  obtains batches d q1 q2 q3 q4 rem_result route_result g l
    where "selectDistillLaneBatches reads DEFAULT_MAX_DISTILL_SESSIONS
        (boundedInteger (opt_distillBatchSize opts) DEFAULT_DISTILL_BATCH_SIZE MAX_DISTILL_BATCH_SIZE)
        (boundedInteger (opt_maxDistillBatchesPerTick opts) DEFAULT_MAX_DISTILL_BATCHES MAX_DISTILL_BATCHES) = Inr batches"
      "enqueueDistillBatches (enq t) DEFAULT_MAX_DISTILL_SESSIONS
        (boundedInteger (opt_distillBatchSize opts) DEFAULT_DISTILL_BATCH_SIZE MAX_DISTILL_BATCH_SIZE) batches
        \<lparr>distill_jobs = 0, deferredTurns = 0, dedupedJobs = 0\<rparr> q = (q1, Inr d)"
      "enqueueLightBatches (hasUnsweptTurns reads) (enq t) q1 = q2"
      "produceRem (opt_rem opts) (readRemSignals reads) (enq t) q2 = (q3, rem_result)"
      "produceRoute (opt_route opts) (readRouteSignals reads) (enq t) q3 = (q4, route_result)"
      "enqueueGraphDerivationJobs (readEnqueueSources reads) (enq t)
        (boundedInteger (opt_graphDerivationLimit opts) DEFAULT_GRAPH_DERIVATION_LIMIT MAX_GRAPH_DERIVATION_LIMIT) q4 = (q5, Inr (g, l))"
  using assms by (auto simp: runMaintenanceSweep_def Let_def split: sum.splits prod.splits)

lemma graph_again:
  assumes "enqueueGraphDerivationJobs rd (enq t) n q = (q1, Inr (g, l))" "grows q1 q2"
  shows "enqueueGraphDerivationJobs rd (enq u) n q2 = (q2, Inr (0, l))"
proof -
  let ?lim = "min (max n 1) MAX_ENQUEUE_LIMIT"
  obtain rows where r: "rd (min (max (?lim + 1) 1) MAX_SELECT_LIMIT) = Inr rows"
    and e: "enqueue_sources (enq t) (take (nat ?lim) rows) 0 q = (q1, Inr g)" and l: "l = (int (length rows) > ?lim)"
    using assms(1) by (auto simp: enqueueGraphDerivationJobs_def Let_def split: sum.splits prod.splits)
  from sources_again [OF e assms(2), of u 0] show ?thesis by (simp add: enqueueGraphDerivationJobs_def Let_def r l)
qed

text \<open>What REM's step put into the queue is still there when the sweep ends.\<close>

lemma rem_job_stays:
  assumes "runMaintenanceSweep opts reads (enq t) q = (q5, Inr s)"
    and "\<And>q. holds k key (fst (produceRem (opt_rem opts) (readRemSignals reads) (enq t) q))"
  shows "holds k key q5"
proof -
  obtain q2 q3 q4 rem_result route_result g l where
    rem: "produceRem (opt_rem opts) (readRemSignals reads) (enq t) q2 = (q3, rem_result)"
    and route: "produceRoute (opt_route opts) (readRouteSignals reads) (enq t) q3 = (q4, route_result)"
    and graph: "enqueueGraphDerivationJobs (readEnqueueSources reads) (enq t)
        (boundedInteger (opt_graphDerivationLimit opts) DEFAULT_GRAPH_DERIVATION_LIMIT MAX_GRAPH_DERIVATION_LIMIT) q4 = (q5, Inr (g, l))"
    using assms(1) by (rule sweep_parts)
  have "grows q4 q5" using graph_grows [of q4 "readEnqueueSources reads" t] graph by (metis fst_conv)
  then have "grows q3 q5" using producers_grow(2) [of q3 "opt_route opts" "readRouteSignals reads" t] route grows_trans by (metis fst_conv)
  moreover have "holds k key q3" using assms(2) [of q2] rem by simp
  ultimately show ?thesis using holds_grows by blast
qed

lemma sweep_again:
  assumes "runMaintenanceSweep opts reads (enq t) q = (q5, Inr s)"
  shows "\<exists>s'. runMaintenanceSweep opts reads (enq u) q5 = (q5, Inr s') \<and> distillJobsEnqueued s' = 0 \<and>
    distillJobsDeduped s' = distillBatchesSelected s' \<and> graphJobsEnqueued s' = 0 \<and>
    \<not> res_enqueued (sum_rem s') \<and> \<not> res_enqueued (sum_route s')"
proof -
  obtain batches d q1 q2 q3 q4 rem_result route_result g l where
    sel: "selectDistillLaneBatches reads DEFAULT_MAX_DISTILL_SESSIONS
        (boundedInteger (opt_distillBatchSize opts) DEFAULT_DISTILL_BATCH_SIZE MAX_DISTILL_BATCH_SIZE)
        (boundedInteger (opt_maxDistillBatchesPerTick opts) DEFAULT_MAX_DISTILL_BATCHES MAX_DISTILL_BATCHES) = Inr batches"
    and dis: "enqueueDistillBatches (enq t) DEFAULT_MAX_DISTILL_SESSIONS
        (boundedInteger (opt_distillBatchSize opts) DEFAULT_DISTILL_BATCH_SIZE MAX_DISTILL_BATCH_SIZE) batches
        \<lparr>distill_jobs = 0, deferredTurns = 0, dedupedJobs = 0\<rparr> q = (q1, Inr d)"
    and light: "enqueueLightBatches (hasUnsweptTurns reads) (enq t) q1 = q2"
    and rem: "produceRem (opt_rem opts) (readRemSignals reads) (enq t) q2 = (q3, rem_result)"
    and route: "produceRoute (opt_route opts) (readRouteSignals reads) (enq t) q3 = (q4, route_result)"
    and graph: "enqueueGraphDerivationJobs (readEnqueueSources reads) (enq t)
        (boundedInteger (opt_graphDerivationLimit opts) DEFAULT_GRAPH_DERIVATION_LIMIT MAX_GRAPH_DERIVATION_LIMIT) q4 = (q5, Inr (g, l))"
    using assms by (rule sweep_parts)
  have g45: "grows q4 q5" using graph_grows [of q4 "readEnqueueSources reads" t] graph by (metis fst_conv)
  have g35: "grows q3 q5" using producers_grow(2) [of q3 "opt_route opts" "readRouteSignals reads" t] route g45 grows_trans by (metis fst_conv)
  have g25: "grows q2 q5" using producers_grow(1) [of q2 "opt_rem opts" "readRemSignals reads" t] rem g35 grows_trans by (metis fst_conv)
  have g15: "grows q1 q5" using light_again(1) [of q1 "hasUnsweptTurns reads" t] light g25 grows_trans by metis
  have rem': "fst (produceRem (opt_rem opts) (readRemSignals reads) (enq u) q5) = q5"
    "\<not> res_enqueued (snd (produceRem (opt_rem opts) (readRemSignals reads) (enq u) q5))"
    using rem_again [of "opt_rem opts" "readRemSignals reads" t q2 q5 u] rem g35 by simp_all
  have route': "fst (produceRoute (opt_route opts) (readRouteSignals reads) (enq u) q5) = q5"
    "\<not> res_enqueued (snd (produceRoute (opt_route opts) (readRouteSignals reads) (enq u) q5))"
    using route_again [of "opt_route opts" "readRouteSignals reads" t q3 q5 u] route g45 by simp_all
  have light': "enqueueLightBatches (hasUnsweptTurns reads) (enq u) q5 = q5"
    using light_again(2) [of "hasUnsweptTurns reads" t q1 q5 u] light g25 by simp
  obtain rr where r: "produceRem (opt_rem opts) (readRemSignals reads) (enq u) q5 = (q5, rr)" "\<not> res_enqueued rr"
    using rem' by (metis prod.collapse)
  obtain ro where o: "produceRoute (opt_route opts) (readRouteSignals reads) (enq u) q5 = (q5, ro)" "\<not> res_enqueued ro"
    using route' by (metis prod.collapse)
  note graph' = graph_again [OF graph grows_refl, of u]
  from distill_again [OF dis g15, of u "\<lparr>distill_jobs = 0, deferredTurns = 0, dedupedJobs = 0\<rparr>"]
  obtain e where "enqueueDistillBatches (enq u) DEFAULT_MAX_DISTILL_SESSIONS
        (boundedInteger (opt_distillBatchSize opts) DEFAULT_DISTILL_BATCH_SIZE MAX_DISTILL_BATCH_SIZE) batches
        \<lparr>distill_jobs = 0, deferredTurns = 0, dedupedJobs = 0\<rparr> q5 = (q5, Inr e)" "distill_jobs e = 0" "dedupedJobs e = length batches"
    by auto
  then show ?thesis unfolding runMaintenanceSweep_def Let_def sel by (simp add: light' r o graph')
qed

end

subsection \<open>The durable table keeps the contract\<close>

definition table_enqueue :: "int \<times> (job_table \<Rightarrow> string) \<Rightarrow> job_table enqueue_port" where
  "table_enqueue t inp tab = enqueue inp (fst t) (snd t tab) (fst t) (\<lambda>x. x) (\<lambda>x. x) tab"

definition appended :: "job_table \<Rightarrow> job_table \<Rightarrow> bool" where
  "appended tab tab' \<longleftrightarrow> (\<exists>added. tab' = tab @ added)"

definition holds_live_key :: "string \<Rightarrow> string \<Rightarrow> job_table \<Rightarrow> bool" where
  "holds_live_key k key tab = list_ex (holds_key k key) tab"

lemma enqueue_alone:
  "enqueue inp now ident clock (\<lambda>x. x) (\<lambda>x. x) tab =
     (case validateEnqueue inp now of Inl e \<Rightarrow> (tab, Inl e)
      | Inr v \<Rightarrow>
          if \<not> row_checks (new_row v ident clock) then (tab, Inl ''new row for relation maintenance_jobs violates a constraint'')
          else (case find (holds_key (v_kind v) (v_key v)) tab of
                  None \<Rightarrow> (tab @ [new_row v ident clock], Inr (new_row v ident clock, Created))
                | Some r \<Rightarrow> if enqueueSemanticsDiverge v r
                    then (tab, Inl ''maintenance queue idempotency key reused with divergent job semantics'')
                    else (tab, Inr (r, Deduped))))"
proof -
  have "list_ex (holds_key k key) tab \<longleftrightarrow> find (holds_key k key) tab \<noteq> None" for k key
    by (auto simp: list_ex_iff find_None_iff)
  then show ?thesis
    by (auto simp: enqueue_def insertJob_def Let_def selectLiveJobByIdempotencyKey_def split: sum.splits option.splits)
qed

lemma validate_other_time:
  "validateEnqueue inp now = Inl e \<Longrightarrow> validateEnqueue inp now' = Inl e"
  "validateEnqueue inp now = Inr v \<Longrightarrow> \<exists>tm. validateEnqueue inp now' = Inr (v\<lparr>v_run_after := tm\<rparr>)"
  by (auto simp: validateEnqueue_def res_bind_Inr res_bind_Inl split: prod.splits)

lemma new_row_shape:
  "row_checks (new_row (v\<lparr>v_run_after := tm\<rparr>) ident' clock') = row_checks (new_row v ident clock)"
  "enqueueSemanticsDiverge (v\<lparr>v_run_after := tm\<rparr>) r = enqueueSemanticsDiverge v r"
  "holds_key (v_kind v) (v_key v) (new_row v ident clock)" "\<not> enqueueSemanticsDiverge v (new_row v ident clock)"
  by (simp_all add: row_checks_def new_row_def lease_shape_def terminal_shape_def dead_letter_shape_def live_def
      enqueueSemanticsDiverge_def holds_key_def)

lemma find_append: "find P (xs @ ys) = (case find P xs of None \<Rightarrow> find P ys | Some x \<Rightarrow> Some x)"
  by (induction xs) auto

lemma table_settled:
  assumes "table_enqueue t inp tab = (tab1, r)" "appended tab1 tab2"
  shows "\<exists>r'. table_enqueue u inp tab2 = (tab2, r') \<and> (case r of Inl e \<Rightarrow> r' = Inl e | Inr x \<Rightarrow> \<exists>job. r' = Inr (job, Deduped))"
proof (cases "validateEnqueue inp (fst t)")
  case (Inl e)
  with assms validate_other_time(1) [OF Inl, of "fst u"] show ?thesis by (auto simp: table_enqueue_def enqueue_alone)
next
  case (Inr v)
  obtain tm where v': "validateEnqueue inp (fst u) = Inr (v\<lparr>v_run_after := tm\<rparr>)"
    using validate_other_time(2) [OF Inr] by blast
  obtain added where tab2: "tab2 = tab1 @ added" using assms(2) by (auto simp: appended_def)
  let ?row = "new_row v (snd t tab) (fst t)"
  have checks: "row_checks (new_row (v\<lparr>v_run_after := tm\<rparr>) (snd u tab2) (fst u)) = row_checks ?row"
    by (rule new_row_shape(1))
  show ?thesis
  proof (cases "row_checks ?row")
    case False
    with assms(1) Inr v' checks show ?thesis by (auto simp: table_enqueue_def enqueue_alone)
  next
    case ok: True
    show ?thesis
    proof (cases "find (holds_key (v_kind v) (v_key v)) tab")
      case None
      with assms(1) Inr ok have r: "tab1 = tab @ [?row]" "r = Inr (?row, Created)"
        by (auto simp: table_enqueue_def enqueue_alone)
      have "find (holds_key (v_kind v) (v_key v)) tab2 = Some ?row"
        unfolding tab2 r(1) by (simp add: find_append None new_row_shape(3))
      then show ?thesis using v' checks ok r(2) by (simp add: table_enqueue_def enqueue_alone new_row_shape)
    next
      case (Some ex)
      with assms(1) Inr ok have tab1: "tab1 = tab" by (auto simp: table_enqueue_def enqueue_alone split: if_splits)
      have "find (holds_key (v_kind v) (v_key v)) tab2 = Some ex" unfolding tab2 tab1 by (simp add: find_append Some)
      then show ?thesis using assms(1) Inr v' checks ok Some
        by (auto simp: table_enqueue_def enqueue_alone new_row_shape split: if_splits)
    qed
  qed
qed

lemma table_holds:
  assumes "table_enqueue t inp tab = (tab1, Inr x)"
  shows "holds_live_key (in_kind inp) (in_key inp) tab1"
proof -
  obtain v where v: "validateEnqueue inp (fst t) = Inr v"
    using assms by (auto simp: table_enqueue_def enqueue_def split: sum.splits)
  note f = validateEnqueue_fields(1,3) [OF v]
  show ?thesis
  proof (cases "find (holds_key (v_kind v) (v_key v)) tab")
    case None
    with assms v have "tab1 = tab @ [new_row v (snd t tab) (fst t)]"
      by (auto simp: table_enqueue_def enqueue_alone split: if_splits)
    then show ?thesis using new_row_shape(3) [of v "snd t tab" "fst t"] by (simp add: holds_live_key_def f)
  next
    case (Some r)
    with assms v have "tab1 = tab" by (auto simp: table_enqueue_def enqueue_alone split: if_splits)
    with find_Some_iff' [OF Some] show ?thesis by (auto simp: holds_live_key_def list_ex_iff f)
  qed
qed

interpretation table_queue: idempotent_queue table_enqueue appended holds_live_key
proof unfold_locales
  show "appended q q" for q by (simp add: appended_def)
  show "appended q q2" if "appended q q1" "appended q1 q2" for q q1 q2 using that by (auto simp: appended_def)
  show "appended q (fst (table_enqueue t inp q))" for q t inp
    by (auto simp: table_enqueue_def enqueue_alone appended_def split: sum.splits option.splits)
  show "holds_live_key k key q1" if "holds_live_key k key q" "appended q q1" for k key q q1
    using that by (auto simp: holds_live_key_def appended_def)
  show "holds_live_key (in_kind inp) (in_key inp) q1" if "table_enqueue t inp q = (q1, Inr r)" for t inp q q1 r
    using that by (rule table_holds)
  show "\<exists>job. table_enqueue u inp q2 = (q2, Inr (job, Deduped))"
    if "table_enqueue t inp q = (q1, Inr r)" "appended q1 q2" for t inp q q1 r q2 u
    using table_settled [OF that, of u] by auto
  show "\<exists>f. table_enqueue u inp q2 = (q2, Inl f)"
    if "table_enqueue t inp q = (q1, Inl e)" "appended q1 q2" for t inp q q1 e q2 u
    using table_settled [OF that, of u] by auto
qed

subsection \<open>Properties of a sweep\<close>

text \<open>C15: repeated sweeps over an unchanged backlog converge. After a sweep that did not throw, a second sweep that
  reads the same leaves the table as it is, whatever its clock says: it enqueues nothing, reports each lane as a
  duplicate, and neither REM nor the route pass is scheduled twice.\<close>

theorem sweep_converges:
  assumes "runMaintenanceSweep opts reads (table_enqueue t) tab = (tab1, Inr s)"
  shows "\<exists>s'. runMaintenanceSweep opts reads (table_enqueue u) tab1 = (tab1, Inr s') \<and> distillJobsEnqueued s' = 0 \<and>
    distillJobsDeduped s' = distillBatchesSelected s' \<and> graphJobsEnqueued s' = 0 \<and>
    \<not> res_enqueued (sum_rem s') \<and> \<not> res_enqueued (sum_route s')"
  by (rule table_queue.sweep_again [OF assms])

lemma plain_request_valid:
  assumes "job_kind_re kind" "key \<noteq> []" "length key \<le> 256" "is_object body"
  obtains v where "validateEnqueue (job_request kind body key None None) now = Inr v" "v_kind v = kind" "v_key v = key"
    "\<And>i c. row_checks (new_row v i c)"
proof -
  let ?v = "\<lparr>v_kind = kind, v_version = 1, v_payload = body, v_key = key, v_run_after = now, v_max_attempts = 3,
    v_backoff_base = 1000, v_backoff_max = 300000, v_namespace = None, v_provenance = None\<rparr>"
  have w: "whole 3" "whole 1000" "whole 300000" "whole 1" by (simp_all add: whole_def)
  have "validateEnqueue (job_request kind body key None None) now = Inr ?v"
    using assms by (auto simp: validateEnqueue_def job_request_def validateJobIdentity_def assertPositiveInteger_def assertObject_def
        validateRetryPolicy_def validateScope_def DEFAULT_MAX_ATTEMPTS_def DEFAULT_BACKOFF_BASE_MS_def DEFAULT_BACKOFF_MAX_MS_def
        is_object_def w split: json.splits)
  moreover have "row_checks (new_row ?v i c)" for i c
    using assms by (simp add: row_checks_def new_row_def int4_def lease_shape_def terminal_shape_def dead_letter_shape_def live_def
        Suc_le_eq)
  ultimately show ?thesis using that by simp
qed

lemma plain_enqueue:
  assumes "job_kind_re kind" "key \<noteq> []" "length key \<le> 256" "is_object body"
  shows "holds_live_key kind key (fst (table_enqueue t (job_request kind body key None None) tab))"
    "\<not> holds_live_key kind key tab \<Longrightarrow>
      \<exists>r. table_enqueue t (job_request kind body key None None) tab = (tab @ [r], Inr (r, Created)) \<and> holds_key kind key r"
proof -
  obtain v where v: "validateEnqueue (job_request kind body key None None) (fst t) = Inr v" "v_kind v = kind" "v_key v = key"
    "\<And>i c. row_checks (new_row v i c)"
    using plain_request_valid [OF assms] by blast
  have none: "find (holds_key kind key) tab = None \<longleftrightarrow> \<not> holds_live_key kind key tab"
    by (auto simp: holds_live_key_def list_ex_iff find_None_iff)
  have row: "holds_key kind key (new_row v i c)" for i c using new_row_shape(3) [of v i c] v(2,3) by simp
  show "\<exists>r. table_enqueue t (job_request kind body key None None) tab = (tab @ [r], Inr (r, Created)) \<and> holds_key kind key r"
    if "\<not> holds_live_key kind key tab"
    using that none v row by (simp add: table_enqueue_def enqueue_alone)
  show "holds_live_key kind key (fst (table_enqueue t (job_request kind body key None None) tab))"
    using none v row by (auto simp: table_enqueue_def enqueue_alone holds_live_key_def split: option.splits)
qed

definition rem_key :: "rem_signals \<Rightarrow> string" where
  "rem_key s = take 200 (''dream.rem:auto:'' @ show_int (completionIdentity s))"

lemma rem_request: "buildDreamRemEnqueue (''auto:'' @ show_int (completionIdentity s)) n =
    job_request ''dream.rem'' (JObj [(''batch_size'', JNum (show_int n))]) (rem_key s) None None"
  by (simp add: buildDreamRemEnqueue_def rem_key_def)

lemma dream_kinds: "job_kind_re ''dream.rem''" "job_kind_re ''dream.route''"
  by code_simp+

lemma rem_key_fits: "rem_key s \<noteq> []" "length (rem_key s) \<le> 256"
  by (simp_all add: rem_key_def)

lemma rem_within: "rem_within_bounds cfg \<Longrightarrow>
    \<not> (\<bar>forcedSliceSize cfg\<bar> > 9007199254740991 \<or> forcedSliceSize cfg < 1 \<or> forcedSliceSize cfg > DEFAULT_REM_BATCH)"
  by (auto simp: rem_within_bounds_def DEFAULT_REM_BATCH_def)

lemma is_object_JObj [simp]: "is_object (JObj kvs)"
  by (simp add: is_object_def)

lemma rem_eligible_run:
  assumes "rem_within_bounds cfg" "remSignalsValid s" "the (headroomBytes s) \<ge> minHeadroomBytes cfg"
    "\<not> remInCooldown cfg s" "remEligibilityReason cfg s \<noteq> Busy"
  shows "produceRem (Some (Rem_enabled cfg)) (Some (Inr s)) enq q =
    caught (enqueue_eligible enq (buildDreamRemEnqueue (''auto:'' @ show_int (completionIdentity s)) (forcedSliceSize cfg))
      (remEligibilityReason cfg s) q)"
  using assms(2-5) rem_within [OF assms(1)] by (auto simp: produceRem_def enqueueDreamRemIfEligible_def Let_def)

lemma fst_eligible: "fst (caught (enqueue_eligible enq inp why q)) = fst (enq inp q)"
  by (simp add: caught_def enqueue_eligible_def split: prod.splits sum.splits)

lemma starved_rem_request:
  assumes "parseRemProducerConfig env = Inr (Rem_enabled cfg)" "remSignalsValid s"
    and "the (headroomBytes s) \<ge> minHeadroomBytes cfg"
    and "the (nowMs s) - completionIdentity s \<ge> 21600000"
  shows "holds_live_key ''dream.rem'' (rem_key s)
    (fst (produceRem (Some (Rem_enabled cfg)) (Some (Inr s)) (table_enqueue t) tab))"
proof -
  have b: "rem_within_bounds cfg" using assms(1) by (rule parsed_rem_bounds)
  have "\<not> remInCooldown cfg s" using assms(4) b
    by (auto simp: remInCooldown_def completionIdentity_def rem_within_bounds_def split: option.splits)
  moreover have "remEligibilityReason cfg s = Forced" using assms(4)
    by (simp add: remEligibilityReason_def REM_STARVATION_CEILING_MS_def Let_def)
  ultimately have "produceRem (Some (Rem_enabled cfg)) (Some (Inr s)) (table_enqueue t) tab =
      caught (enqueue_eligible (table_enqueue t)
        (buildDreamRemEnqueue (''auto:'' @ show_int (completionIdentity s)) (forcedSliceSize cfg)) Forced tab)"
    using rem_eligible_run [OF b assms(2,3)] by simp
  then show ?thesis by (simp only: fst_eligible rem_request) (rule plain_enqueue(1), simp_all add: dream_kinds rem_key_fits)
qed

text \<open>C16: REM does not starve. Under any accepted configuration, a maintenance sweep that reads valid signals, finds at
  least the configured memory headroom and comes six hours or more after the last completed run (or the start of the
  process) ends with a live REM job for that window in the table, however busy the server is and however long the
  configured gap: the largest accepted gap is exactly the ceiling. With less headroom than configured there is no such
  promise: the same sweep schedules no REM at all and says so.\<close>

theorem starved_rem_gets_a_job:
  assumes "parseRemProducerConfig env = Inr (Rem_enabled cfg)" "opt_rem opts = Some (Rem_enabled cfg)"
    and "readRemSignals reads = Some (Inr s)" "remSignalsValid s" "the (nowMs s) - completionIdentity s \<ge> 21600000"
    and "runMaintenanceSweep opts reads (table_enqueue t) tab = (tab', Inr summary)"
  shows "if the (headroomBytes s) \<ge> minHeadroomBytes cfg then holds_live_key ''dream.rem'' (rem_key s) tab'
    else sum_rem summary = not_eligible Headroom"
proof (cases "the (headroomBytes s) \<ge> minHeadroomBytes cfg")
  case True
  have "holds_live_key ''dream.rem'' (rem_key s) (fst (produceRem (opt_rem opts) (readRemSignals reads) (table_enqueue t) q))" for q
    unfolding assms(2,3) by (rule starved_rem_request [OF assms(1,4) True assms(5)])
  from table_queue.rem_job_stays [OF assms(6) this] True show ?thesis by simp
next
  case False
  have "snd (produceRem (opt_rem opts) (readRemSignals reads) (table_enqueue t) q) = not_eligible Headroom" for q
    using False rem_within [OF parsed_rem_bounds [OF assms(1)]] assms(4) unfolding assms(2,3)
    by (auto simp: produceRem_def caught_def enqueueDreamRemIfEligible_def)
  then have "sum_rem summary = not_eligible Headroom"
    using assms(6) by (auto simp: runMaintenanceSweep_def Let_def split: sum.splits prod.splits) (metis snd_conv)+
  then show ?thesis using False by simp
qed

text \<open>The converse: what a sweep adds for REM is one job, and only when the ladder allows it.\<close>

lemma rem_enqueues_only_when_due:
  assumes "fst (produceRem (Some (Rem_enabled cfg)) (Some (Inr s)) enq q) \<noteq> q"
  shows "the (headroomBytes s) \<ge> minHeadroomBytes cfg \<and>
    (case lastRemCompletedAtMs s of None \<Rightarrow> True | Some t \<Rightarrow> the (nowMs s) - the t \<ge> rem_minGapMs cfg) \<and>
    (the (nowMs s) - completionIdentity s \<ge> REM_STARVATION_CEILING_MS \<or> the (lightBacklog s) \<ge> backlogHighWater cfg \<or>
     the (requestsPerMinute s) \<le> maxRequestsPerMinute cfg)"
  using assms
  by (auto simp: produceRem_def caught_def enqueueDreamRemIfEligible_def Let_def remInCooldown_def remEligibilityReason_def
      split: if_splits option.splits)

subsection \<open>The gap between two runs\<close>

text \<open>\<open>max(terminal_at)\<close> over the rows of a kind in the given states; SQL's \<open>max\<close> skips NULL and is NULL of nothing.\<close>

definition max_terminal_at :: "string \<Rightarrow> job_state list \<Rightarrow> job_table \<Rightarrow> int option" where
  "max_terminal_at kind states tab =
     (case List.map_filter (\<lambda>r. if job_kind r = kind \<and> job_state r \<in> set states then terminal_at r else None) tab of
        [] \<Rightarrow> None | t # ts \<Rightarrow> Some (foldl max t ts))"

definition last_rem_completed_at :: "job_table \<Rightarrow> int option" where
  "last_rem_completed_at tab = max_terminal_at ''dream.rem'' [Succeeded] tab"

definition last_route_terminal_at :: "job_table \<Rightarrow> int option" where
  "last_route_terminal_at tab = max_terminal_at ''dream.route'' [Succeeded, Dead_letter] tab"

definition read_route_signals :: "int \<Rightarrow> bool \<Rightarrow> job_table \<Rightarrow> route_signals" where
  "read_route_signals now unrouted tab =
     \<lparr>route_nowMs = Some now, lastRouteTerminalAtMs = map_option Some (last_route_terminal_at tab), hasUnrouted = unrouted\<rparr>"

lemma foldl_max_ge: "x \<in> set (t # ts) \<Longrightarrow> x \<le> foldl max t (ts :: int list)"
proof (induction ts arbitrary: t x)
  case (Cons a ts)
  have "max t a \<le> foldl max (max t a) ts" by (rule Cons.IH) simp
  then show ?case using Cons.IH [of x "max t a"] Cons.prems by auto
qed simp

lemma max_terminal_at_ge:
  assumes "r \<in> set tab" "job_kind r = kind" "job_state r \<in> set states" "terminal_at r = Some t"
  shows "\<exists>m \<ge> t. max_terminal_at kind states tab = Some m"
proof -
  let ?f = "\<lambda>r. if job_kind r = kind \<and> job_state r \<in> set states then terminal_at r else None"
  have "t \<in> set (List.map_filter ?f tab)" using assms by (force simp: List.map_filter_def)
  then show ?thesis unfolding max_terminal_at_def
    by (cases "List.map_filter ?f tab") (use foldl_max_ge in auto)
qed

text \<open>The gap of the route pass covers every run, however it ended. While less than the gap has passed since any
  \<open>dream.route\<close> job of the table succeeded or was dead-lettered, a sweep enqueues no route job.\<close>

theorem route_gap_covers_every_run:
  assumes "r \<in> set tab" "job_kind r = ''dream.route''" "\<not> live r" "terminal_at r = Some t"
    and "now - t < route_minGapMs cfg"
  shows "fst (produceRoute (Some (Route_enabled cfg)) (Some (Inr (read_route_signals now unrouted tab))) enq tab) = tab"
proof -
  have "job_state r \<in> set [Succeeded, Dead_letter]" using assms(3) by (cases "job_state r") (auto simp: live_def)
  then obtain m where "t \<le> m" "last_route_terminal_at tab = Some m"
    using max_terminal_at_ge [OF assms(1,2) _ assms(4)] unfolding last_route_terminal_at_def by blast
  with assms(5) show ?thesis
    by (simp add: produceRoute_def caught_def enqueueDreamRouteIfEligible_def read_route_signals_def)
qed

lemma failed_job_frees_its_key:
  assumes "queue_reach q" "r \<in> set (queue_tab q)" "held ident (Some token) r" "spent terminal r"
  shows "\<not> holds_live_key (job_kind r) (idempotency_key r) (snd (fail_job ident (Some token) e category terminal now (queue_tab q)))"
proof
  have inv: "queue_inv q" by (rule queue_reach_inv [OF assms(1)])
  define c where "c = (case category of Some c \<Rightarrow> c | None \<Rightarrow> if terminal then Terminal else safeMaintenanceErrorCategory e)"
  have tab: "snd (fail_job ident (Some token) e category terminal now (queue_tab q)) =
      map (\<lambda>p. if p = r then failed now c terminal r else p) (queue_tab q)"
    using update_held_one [OF inv assms(2,3)] by (simp add: fail_job_def Let_def c_def)
  have rl: "live r" using assms(3) by (rule held_live)
  have dead: "\<not> live (failed now c terminal r)" using assms(4) by (simp add: failed_def live_def)
  assume "holds_live_key (job_kind r) (idempotency_key r) (snd (fail_job ident (Some token) e category terminal now (queue_tab q)))"
  then obtain p where p: "p \<in> set (queue_tab q)" "p \<noteq> r" "live p" "job_kind p = job_kind r" "idempotency_key p = idempotency_key r"
    using dead unfolding tab holds_live_key_def list_ex_iff by (auto simp: holds_key_def split: if_splits)
  moreover have "inj_on (\<lambda>r. (job_kind r, idempotency_key r)) (set (filter live (queue_tab q)))"
    using inv by (simp add: queue_inv_def distinct_map)
  ultimately show False using assms(2) rl by (auto simp: inj_on_def)
qed

text \<open>The gap of REM does not cover a failed run. The signals read succeeded jobs only, so when a REM job fails its
  last attempt, the next sweep of an idle server, at the same instant and however long the configured gap, adds a new
  job for the same window.\<close>

theorem failed_rem_is_scheduled_again:
  assumes "queue_reach q" "r \<in> set (queue_tab q)" "held ident (Some token) r" "spent terminal r"
    and "job_kind r = ''dream.rem''" "idempotency_key r = rem_key s"
    and "tab = snd (fail_job ident (Some token) e category terminal now (queue_tab q))"
    and "remSignalsValid s" "nowMs s = Some now" "lastRemCompletedAtMs s = map_option Some (last_rem_completed_at tab)"
    and "rem_within_bounds cfg" "\<not> remInCooldown cfg s"
    and "the (headroomBytes s) \<ge> minHeadroomBytes cfg" "the (requestsPerMinute s) \<le> maxRequestsPerMinute cfg"
  shows "\<exists>made. fst (produceRem (Some (Rem_enabled cfg)) (Some (Inr s)) (table_enqueue t) tab) = tab @ [made] \<and>
    holds_key ''dream.rem'' (rem_key s) made \<and>
    res_enqueued (snd (produceRem (Some (Rem_enabled cfg)) (Some (Inr s)) (table_enqueue t) tab))"
proof -
  let ?inp = "buildDreamRemEnqueue (''auto:'' @ show_int (completionIdentity s)) (forcedSliceSize cfg)"
  have free: "\<not> holds_live_key ''dream.rem'' (rem_key s) tab"
    using failed_job_frees_its_key [OF assms(1-4), of e category now] assms(5-7) by simp
  have "remEligibilityReason cfg s \<noteq> Busy" using assms(14) by (simp add: remEligibilityReason_def Let_def)
  then have run: "produceRem (Some (Rem_enabled cfg)) (Some (Inr s)) (table_enqueue t) tab =
      caught (enqueue_eligible (table_enqueue t) ?inp (remEligibilityReason cfg s) tab)"
    using rem_eligible_run [OF assms(11,8,13,12)] by simp
  obtain made where "table_enqueue t ?inp tab = (tab @ [made], Inr (made, Created))" "holds_key ''dream.rem'' (rem_key s) made"
    unfolding rem_request using plain_enqueue(2) [OF dream_kinds(1) rem_key_fits is_object_JObj free] by blast
  then show ?thesis unfolding run by (simp add: caught_def enqueue_eligible_def)
qed

subsection \<open>The request rate\<close>

text \<open>The linked list of arrivals from the oldest to the newest, and its counter.\<close>

definition RATE_WINDOW_MS :: int where "RATE_WINDOW_MS = 60000"

record rem_source =
  source_startedAtMs :: int
  request_times :: "int list"
  requestCount :: int

definition createRemSignalSource :: "int \<Rightarrow> rem_source" where
  "createRemSignalSource now = \<lparr>source_startedAtMs = now, request_times = [], requestCount = 0\<rparr>"

definition prune :: "int \<Rightarrow> rem_source \<Rightarrow> rem_source" where
  "prune atMs src =
     (let cutoff = atMs - RATE_WINDOW_MS; old = takeWhile (\<lambda>t. t < cutoff) (request_times src)
      in src\<lparr>request_times := dropWhile (\<lambda>t. t < cutoff) (request_times src), requestCount := requestCount src - int (length old)\<rparr>)"

definition observeMcpRequest :: "int \<Rightarrow> rem_source \<Rightarrow> rem_source" where
  "observeMcpRequest atMs src =
     (let src = prune atMs src in src\<lparr>request_times := request_times src @ [atMs], requestCount := requestCount src + 1\<rparr>)"

definition read_signals :: "int \<Rightarrow> int option \<Rightarrow> int \<Rightarrow> int \<Rightarrow> rem_source \<Rightarrow> rem_source \<times> rem_signals" where
  "read_signals now lastCompleted backlog freeMemory src =
     (let src = prune now src
      in (src, \<lparr>nowMs = Some now, schedulerStartedAtMs = Some (source_startedAtMs src),
                lastRemCompletedAtMs = map_option Some lastCompleted, requestsPerMinute = Some (requestCount src),
                headroomBytes = Some freeMemory, lightBacklog = Some backlog\<rparr>))"

datatype source_op = Observe int | Read_at int

fun op_time :: "source_op \<Rightarrow> int" where
  "op_time (Observe t) = t"
| "op_time (Read_at t) = t"

fun source_do :: "source_op \<Rightarrow> rem_source \<Rightarrow> rem_source" where
  "source_do (Observe t) src = observeMcpRequest t src"
| "source_do (Read_at t) src = prune t src"

fun observed :: "source_op list \<Rightarrow> int list" where
  "observed [] = []"
| "observed (Observe t # ops) = t # observed ops"
| "observed (Read_at t # ops) = observed ops"

lemma observed_append: "observed (xs @ ys) = observed xs @ observed ys"
  by (induction xs rule: observed.induct) auto

lemma observed_times: "set (observed ops) \<subseteq> op_time ` set ops"
  by (induction ops rule: observed.induct) auto

lemma dropWhile_filter: "sorted xs \<Longrightarrow> dropWhile (\<lambda>t. t < c) xs = filter (\<lambda>t. c \<le> t) (xs :: int list)"
proof (induction xs)
  case (Cons x xs)
  then have "filter (\<lambda>t. c \<le> t) xs = xs" if "c \<le> x" using that by (auto intro!: filter_True)
  with Cons show ?case by auto
qed simp

definition window_of :: "int \<Rightarrow> int list \<Rightarrow> int list" where
  "window_of now ts = filter (\<lambda>t. now - RATE_WINDOW_MS \<le> t) ts"

lemma prune_window:
  assumes "sorted ts" "request_times src = window_of before ts" "requestCount src = int (length (window_of before ts))" "before \<le> now"
  shows "request_times (prune now src) = window_of now ts" "requestCount (prune now src) = int (length (window_of now ts))"
proof -
  have sorted: "sorted (window_of before ts)" unfolding window_of_def using assms(1) by (rule sorted_wrt_filter)
  have "window_of now (window_of before ts) = window_of now ts" using assms(4) by (auto simp: window_of_def intro!: filter_cong)
  then have drop: "dropWhile (\<lambda>t. t < now - RATE_WINDOW_MS) (window_of before ts) = window_of now ts"
    using dropWhile_filter [OF sorted, of "now - RATE_WINDOW_MS"] by (simp only: window_of_def)
  have "length (window_of before ts) = length (takeWhile (\<lambda>t. t < now - RATE_WINDOW_MS) (window_of before ts)) +
      length (dropWhile (\<lambda>t. t < now - RATE_WINDOW_MS) (window_of before ts))"
    by (metis length_append takeWhile_dropWhile_id)
  then show "request_times (prune now src) = window_of now ts" "requestCount (prune now src) = int (length (window_of now ts))"
    by (simp_all add: prune_def Let_def assms(2,3) drop)
qed

definition source_after :: "int \<Rightarrow> source_op list \<Rightarrow> rem_source" where
  "source_after start ops = foldl (\<lambda>src p. source_do p src) (createRemSignalSource start) ops"

lemma source_after_window:
  assumes "sorted (start # map op_time ops)"
  shows "request_times (source_after start ops) = window_of (last (start # map op_time ops)) (observed ops) \<and>
    requestCount (source_after start ops) = int (length (window_of (last (start # map op_time ops)) (observed ops))) \<and>
    source_startedAtMs (source_after start ops) = start"
  using assms
proof (induction ops rule: rev_induct)
  case Nil
  then show ?case by (simp add: source_after_def createRemSignalSource_def window_of_def)
next
  case (snoc p ops)
  let ?prev = "last (start # map op_time ops)"
  have s: "sorted (start # map op_time ops)" using snoc.prems by (simp add: sorted_append)
  have "?prev \<in> set (start # map op_time ops)" by (rule last_in_set) simp
  then have le: "?prev \<le> op_time p" using snoc.prems by (auto simp: sorted_append)
  have so: "sorted (observed ops)"
    using s by (induction ops rule: observed.induct) (use observed_times in fastforce)+
  note w = prune_window [OF so _ _ le, of "source_after start ops"]
  have step: "source_after start (ops @ [p]) = source_do p (source_after start ops)" by (simp add: source_after_def)
  have start: "source_startedAtMs (prune now src) = source_startedAtMs src" for now src by (simp add: prune_def Let_def)
  have now: "last (start # map op_time (ops @ [p])) = op_time p" by simp
  show ?case
  proof (cases p)
    case (Observe t)
    have "window_of t (observed (ops @ [Observe t])) = window_of t (observed ops) @ [t]"
      by (simp add: observed_append window_of_def RATE_WINDOW_MS_def)
    then show ?thesis unfolding now using w snoc.IH [OF s] unfolding step unfolding Observe
      by (simp add: observeMcpRequest_def Let_def start)
  next
    case (Read_at t)
    then show ?thesis unfolding now using w snoc.IH [OF s] unfolding step unfolding Read_at
      by (simp add: observed_append start)
  qed
qed

text \<open>Under a clock that does not go back, the rate REM decides on is exactly the number of requests of the last
  minute, whatever was observed and read before, and the memory of the source is those requests and no others.\<close>

theorem request_rate_is_exact:
  assumes "sorted (start # map op_time ops @ [now])"
  shows "requestsPerMinute (snd (read_signals now lastCompleted backlog free (source_after start ops))) =
      Some (int (length (filter (\<lambda>t. now - 60000 \<le> t) (observed ops)))) \<and>
    request_times (fst (read_signals now lastCompleted backlog free (source_after start ops))) =
      filter (\<lambda>t. now - 60000 \<le> t) (observed ops)"
proof -
  have "sorted (start # map op_time ops)" using assms by (simp add: sorted_append)
  moreover have "sorted (start # map op_time (ops @ [Read_at now]))" using assms by simp
  note source_after_window [OF this]
  ultimately show ?thesis
    by (simp add: read_signals_def Let_def source_after_def observed_append window_of_def RATE_WINDOW_MS_def)
qed

subsection \<open>The recurring loop\<close>

text \<open>\<open>startRecurringMaintenanceSweep\<close> as a machine. Its steps are the pieces that run without interruption: a tick of
  the interval, the settling of the running sweep, a call of \<open>stop\<close>; each reads the clock. A sweep that fails settles
  like one that succeeds, after a log line. The trace records what happened, with the times.\<close>

definition DEFAULT_QUIET_THRESHOLD_MS :: int where "DEFAULT_QUIET_THRESHOLD_MS = 60000"

record sweep_loop =
  interval_set :: bool
  active_sweep :: bool
  loop_stopping :: bool
  lastCompletedAt :: int
  overlappedTicks :: nat
  completedTicks :: nat
  warnedForCurrentStall :: bool

datatype loop_event = Loop_created int | Sweep_started int | Tick_skipped int bool | Sweep_settled int bool bool | Stop_called

text \<open>\<open>Tick_skipped t w\<close>: a warning was logged when \<open>w\<close>. \<open>Sweep_settled t f r\<close>: the sweep threw when \<open>f\<close>, and the
  recovery was logged when \<open>r\<close>.\<close>

definition runOnce :: "int \<Rightarrow> sweep_loop \<Rightarrow> sweep_loop \<times> loop_event list" where
  "runOnce now st =
     (if loop_stopping st then (st, [])
      else if active_sweep st then
        (st\<lparr>overlappedTicks := overlappedTicks st + 1, warnedForCurrentStall := True\<rparr>, [Tick_skipped now (\<not> warnedForCurrentStall st)])
      else (st\<lparr>active_sweep := True\<rparr>, [Sweep_started now]))"

definition sweep_settles :: "int \<Rightarrow> bool \<Rightarrow> sweep_loop \<Rightarrow> sweep_loop \<times> loop_event list" where
  "sweep_settles now threw st =
     (st\<lparr>lastCompletedAt := now, completedTicks := completedTicks st + 1, active_sweep := False, warnedForCurrentStall := False\<rparr>,
      [Sweep_settled now threw (warnedForCurrentStall st)])"

definition loop_created :: "int \<Rightarrow> sweep_loop" where
  "loop_created now = \<lparr>interval_set = False, active_sweep = False, loop_stopping = False, lastCompletedAt = now,
     overlappedTicks = 0, completedTicks = 0, warnedForCurrentStall = False\<rparr>"

definition startRecurringMaintenanceSweep :: "int \<Rightarrow> sweep_loop \<times> loop_event list" where
  "startRecurringMaintenanceSweep now =
     (let (st, ev) = runOnce now (loop_created now) in (st\<lparr>interval_set := True\<rparr>, Loop_created now # ev))"

definition stop_called :: "sweep_loop \<Rightarrow> sweep_loop" where
  "stop_called st = st\<lparr>loop_stopping := True, interval_set := False\<rparr>"

record sweep_liveness =
  quietMs :: int
  stale :: bool
  quietThresholdMs :: int
  live_overlappedTicks :: nat
  live_completedTicks :: nat

definition sweep_liveness_at :: "int option \<Rightarrow> int \<Rightarrow> sweep_loop \<Rightarrow> sweep_liveness" where
  "sweep_liveness_at configured now st =
     (let threshold = max (case configured of Some t \<Rightarrow> t | None \<Rightarrow> DEFAULT_QUIET_THRESHOLD_MS) 1; quiet = now - lastCompletedAt st
      in \<lparr>quietMs = quiet, stale = (quiet > threshold), quietThresholdMs = threshold,
          live_overlappedTicks = overlappedTicks st, live_completedTicks = completedTicks st\<rparr>)"

inductive loop_step :: "sweep_loop \<times> loop_event list \<Rightarrow> sweep_loop \<times> loop_event list \<Rightarrow> bool" where
  tick: "interval_set st \<Longrightarrow> runOnce now st = (st', ev) \<Longrightarrow> loop_step (st, tr) (st', tr @ ev)"
| settle: "active_sweep st \<Longrightarrow> sweep_settles now threw st = (st', ev) \<Longrightarrow> loop_step (st, tr) (st', tr @ ev)"
| stop: "loop_step (st, tr) (stop_called st, tr @ [Stop_called])"

inductive loop_reach :: "sweep_loop \<times> loop_event list \<Rightarrow> bool" where
  created: "loop_reach (startRecurringMaintenanceSweep now)"
| stepped: "loop_reach s \<Longrightarrow> loop_step s s' \<Longrightarrow> loop_reach s'"

fun completions :: "loop_event list \<Rightarrow> int list" where
  "completions [] = []"
| "completions (Loop_created t # tr) = t # completions tr"
| "completions (Sweep_settled t f r # tr) = t # completions tr"
| "completions (e # tr) = completions tr"

definition started :: "loop_event list \<Rightarrow> nat" where
  "started tr = length (filter (\<lambda>e. case e of Sweep_started t \<Rightarrow> True | _ \<Rightarrow> False) tr)"
definition settled :: "loop_event list \<Rightarrow> nat" where
  "settled tr = length (filter (\<lambda>e. case e of Sweep_settled t f r \<Rightarrow> True | _ \<Rightarrow> False) tr)"
definition skipped :: "loop_event list \<Rightarrow> nat" where
  "skipped tr = length (filter (\<lambda>e. case e of Tick_skipped t w \<Rightarrow> True | _ \<Rightarrow> False) tr)"
definition stall_warnings :: "loop_event list \<Rightarrow> nat" where
  "stall_warnings tr = length (filter (\<lambda>e. case e of Tick_skipped t w \<Rightarrow> w | _ \<Rightarrow> False) tr)"
definition recoveries :: "loop_event list \<Rightarrow> nat" where
  "recoveries tr = length (filter (\<lambda>e. case e of Sweep_settled t f r \<Rightarrow> r | _ \<Rightarrow> False) tr)"

lemmas trace_counts = started_def settled_def skipped_def stall_warnings_def recoveries_def

lemma completions_append [simp]: "completions (xs @ ys) = completions xs @ completions ys"
  by (induction xs rule: completions.induct) auto

lemma trace_counts_append [simp]:
  "started (xs @ ys) = started xs + started ys" "settled (xs @ ys) = settled xs + settled ys"
  "skipped (xs @ ys) = skipped xs + skipped ys" "stall_warnings (xs @ ys) = stall_warnings xs + stall_warnings ys"
  "recoveries (xs @ ys) = recoveries xs + recoveries ys"
  by (simp_all add: trace_counts)

definition loop_inv :: "sweep_loop \<times> loop_event list \<Rightarrow> bool" where
  "loop_inv s \<longleftrightarrow> (case s of (st, tr) \<Rightarrow>
     started tr = settled tr + (if active_sweep st then 1 else 0) \<and>
     stall_warnings tr = recoveries tr + (if warnedForCurrentStall st then 1 else 0) \<and>
     stall_warnings tr \<le> started tr \<and> (warnedForCurrentStall st \<longrightarrow> active_sweep st) \<and> recoveries tr \<le> settled tr \<and>
     completedTicks st = settled tr \<and> overlappedTicks st = skipped tr \<and>
     completions tr \<noteq> [] \<and> lastCompletedAt st = last (completions tr) \<and> (loop_stopping st \<longrightarrow> \<not> interval_set st))"

lemma loop_reach_inv: "loop_reach s \<Longrightarrow> loop_inv s"
proof (induction rule: loop_reach.induct)
  case (created now)
  show ?case by (simp add: loop_inv_def startRecurringMaintenanceSweep_def runOnce_def loop_created_def trace_counts)
next
  case (stepped s s')
  from stepped(2) stepped.IH show ?case
  proof cases
    case (tick st now st' ev tr)
    then show ?thesis using stepped.IH by (auto simp: loop_inv_def runOnce_def trace_counts split: if_splits)
  next
    case (settle st now threw st' ev tr)
    then show ?thesis using stepped.IH by (auto simp: loop_inv_def sweep_settles_def trace_counts split: if_splits)
  next
    case (stop st tr)
    then show ?thesis using stepped.IH by (auto simp: loop_inv_def stop_called_def trace_counts)
  qed
qed

text \<open>Ticks never overlap and a stall is reported once. At any moment every sweep started but the running one has
  settled, so at most one runs; each stalled sweep is warned about once, however many ticks it swallows, and each
  warning is closed by exactly one recovery when the sweep settles.\<close>

theorem sweep_ticks_never_overlap:
  assumes "loop_reach (st, tr)"
  shows "started tr = settled tr + (if active_sweep st then 1 else 0) \<and>
    stall_warnings tr \<le> started tr \<and> stall_warnings tr = recoveries tr + (if warnedForCurrentStall st then 1 else 0)"
  using loop_reach_inv [OF assms] by (simp add: loop_inv_def)

text \<open>What the health reader is told is the history. The quiet time counts from the last sweep that settled, failed
  ones included, or from the start; ticks that were swallowed do not shorten it, so a producer whose sweep hangs turns
  stale once the threshold has passed and stays stale until a sweep settles.\<close>

theorem liveness_reports_the_history:
  assumes "loop_reach (st, tr)"
  shows "sweep_liveness_at configured now st =
    \<lparr>quietMs = now - last (completions tr),
     stale = (now - last (completions tr) > max (case configured of Some t \<Rightarrow> t | None \<Rightarrow> 60000) 1),
     quietThresholdMs = max (case configured of Some t \<Rightarrow> t | None \<Rightarrow> 60000) 1,
     live_overlappedTicks = skipped tr, live_completedTicks = settled tr\<rparr>"
  using loop_reach_inv [OF assms]
  by (cases configured) (simp_all add: loop_inv_def sweep_liveness_at_def Let_def DEFAULT_QUIET_THRESHOLD_MS_def)

lemma stopped_loop_step:
  assumes "loop_step s s'" "loop_inv s" "loop_stopping (fst s)"
  shows "loop_stopping (fst s') \<and> started (snd s') = started (snd s) \<and> (active_sweep (fst s') \<longrightarrow> active_sweep (fst s))"
  using assms
  by cases (auto simp: loop_inv_def runOnce_def sweep_settles_def stop_called_def trace_counts)

text \<open>A stopped producer adds nothing. After \<open>stop\<close> was called no sweep starts, whatever else happens; when the call
  returns, that is when no sweep is running any more, every sweep ever started has settled and none will run again.\<close>

theorem stopped_producer_adds_nothing:
  assumes "loop_reach (st, tr)" "loop_step\<^sup>*\<^sup>* (stop_called st, tr @ [Stop_called]) (st', tr')"
  shows "started tr' = started tr \<and> settled tr' + (if active_sweep st' then 1 else 0) = started tr"
proof -
  have r: "loop_reach (stop_called st, tr @ [Stop_called])" by (rule loop_reach.stepped [OF assms(1) loop_step.stop])
  have s0: "loop_stopping (stop_called st)" "started (tr @ [Stop_called]) = started tr" by (simp_all add: stop_called_def trace_counts)
  have "loop_reach s' \<and> loop_stopping (fst s') \<and> started (snd s') = started tr"
    if "loop_step\<^sup>*\<^sup>* (stop_called st, tr @ [Stop_called]) s'" for s'
    using that
  proof (induction rule: rtranclp_induct)
    case base
    then show ?case using r s0 by simp
  next
    case (step s1 s2)
    then show ?case using stopped_loop_step [OF step(2) loop_reach_inv] loop_reach.stepped by metis
  qed
  from this [OF assms(2)] have "loop_reach (st', tr')" "started tr' = started tr" by simp_all
  with loop_reach_inv [OF this(1)] show ?thesis by (simp add: loop_inv_def)
qed

subsection \<open>Witnesses\<close>

definition demo_opts :: sweep_options where
  "demo_opts = \<lparr>opt_distillBatchSize = Some 50, opt_maxDistillBatchesPerTick = None, opt_graphDerivationLimit = Some (1 / 2),
     opt_rem = None, opt_route = Some (Route_enabled \<lparr>route_backend = Fake_backend, sliceSize = 9, route_minGapMs = 60000, maxUsdPerRun = 1\<rparr>)\<rparr>"

definition demo_lane :: distill_batch where
  "demo_lane = \<lparr>laneId = None, batch_namespace = ''n'', batchHash = ''h'', pendingTurns = 9, processableTurns = 7, totalBatches = 2\<rparr>"

definition demo_source :: source_row where
  "demo_source = \<lparr>source_id = ''u'', source_namespace = ''n'', source_kind = ''repo'', external_id = ''e'',
     source_content_hash = ''c'', source_revision = 1\<rparr>"

definition demo_reads :: sweep_reads where
  "demo_reads = \<lparr>selectDistillLaneBatches = (\<lambda>sessions turns batches. Inr [demo_lane]), hasUnsweptTurns = Inr True,
     readRemSignals = None,
     readRouteSignals = Some (Inr \<lparr>route_nowMs = Some 70000, lastRouteTerminalAtMs = Some (Some 5), hasUnrouted = True\<rparr>),
     readEnqueueSources = (\<lambda>n. Inr [demo_source, demo_source])\<rparr>"

definition demo_draw :: "int \<times> (job_table \<Rightarrow> string)" where
  "demo_draw = (7, \<lambda>tab. show_nat (length tab))"

definition demo_sweep :: "job_table \<times> sweep_summary result" where
  "demo_sweep = runMaintenanceSweep demo_opts demo_reads (table_enqueue demo_draw) []"

lemma demo_sweep_runs:
  "map idempotency_key (fst demo_sweep) = [''memory.distill:h:s4:t50'', ''dream.light'', ''dream.route:auto:5'', ''graph.derive:u:c'']"
  "snd demo_sweep = Inr \<lparr>distillBatchesSelected = 1, distillJobsEnqueued = 1, distillJobsDeduped = 0, distillBatchesDeferred = 1,
     distillTurnsDeferred = 2, graphJobsEnqueued = 1, graphLimitReached = True, sum_rem = not_eligible Disabled,
     sum_route = \<lparr>res_eligible = True, res_enqueued = True, res_reason = Due\<rparr>\<rparr>"
  by code_simp+

theorem sweep_converges_witness:
  "map idempotency_key (fst demo_sweep) = [''memory.distill:h:s4:t50'', ''dream.light'', ''dream.route:auto:5'', ''graph.derive:u:c''] \<and>
   fst (runMaintenanceSweep demo_opts demo_reads (table_enqueue (9, \<lambda>tab. ''new'')) (fst demo_sweep)) = fst demo_sweep"
proof -
  have "runMaintenanceSweep demo_opts demo_reads (table_enqueue demo_draw) [] = (fst demo_sweep, Inr (projr (snd demo_sweep)))"
    unfolding demo_sweep_def [symmetric] using demo_sweep_runs(2) by (metis prod.collapse sum.sel(2))
  from sweep_converges [OF this, of "(9, \<lambda>tab. ''new'')"] demo_sweep_runs(1) show ?thesis by auto
qed

definition demo_rem :: rem_settings where
  "demo_rem = \<lparr>backlogHighWater = 1000, maxRequestsPerMinute = 30, minHeadroomBytes = 5, forcedSliceSize = 30, rem_minGapMs = 0\<rparr>"

definition demo_signals :: "int \<Rightarrow> int \<Rightarrow> rem_signals" where
  "demo_signals now rate = \<lparr>nowMs = Some now, schedulerStartedAtMs = Some 0, lastRemCompletedAtMs = None, requestsPerMinute = Some rate,
     headroomBytes = Some 100, lightBacklog = Some 0\<rparr>"

abbreviation demo_rem_opts :: sweep_options where
  "demo_rem_opts \<equiv> demo_opts\<lparr>opt_rem := Some (Rem_enabled demo_rem)\<rparr>"

abbreviation demo_rem_reads :: sweep_reads where
  "demo_rem_reads \<equiv> demo_reads\<lparr>readRemSignals := Some (Inr (demo_signals 21600000 99999))\<rparr>"

theorem starved_rem_gets_a_job_witness:
  "holds_live_key ''dream.rem'' ''dream.rem:auto:0''
     (fst (runMaintenanceSweep demo_rem_opts demo_rem_reads (table_enqueue demo_draw) []))"
proof -
  have "parseRemProducerConfig demo_env = Inr (Rem_enabled demo_rem)" by code_simp
  moreover have "remSignalsValid (demo_signals 21600000 99999)" "rem_key (demo_signals 21600000 99999) = ''dream.rem:auto:0''"
    by code_simp+
  moreover obtain tab' summary where "runMaintenanceSweep demo_rem_opts demo_rem_reads (table_enqueue demo_draw) [] = (tab', Inr summary)"
  proof -
    have "\<not> isl (snd (runMaintenanceSweep demo_rem_opts demo_rem_reads (table_enqueue demo_draw) []))" by code_simp
    then show thesis using that by (metis isl_def prod.collapse sum.exhaust_sel)
  qed
  ultimately show ?thesis
    using starved_rem_gets_a_job [of demo_env demo_rem demo_rem_opts demo_rem_reads "demo_signals 21600000 99999" demo_draw "[]" tab' summary]
    by (simp add: demo_rem_def demo_signals_def completionIdentity_def)
qed

definition demo_rem_values :: job_values where
  "demo_rem_values = \<lparr>v_kind = ''dream.rem'', v_version = 1, v_payload = JObj [(''batch_size'', JNum ''30'')], v_key = ''dream.rem:auto:0'',
     v_run_after = 0, v_max_attempts = 3, v_backoff_base = 1000, v_backoff_max = 300000, v_namespace = None, v_provenance = None\<rparr>"

definition demo_rem_row :: job_row where "demo_rem_row = new_row demo_rem_values ''1'' 0"

definition demo_rem_running :: queue_sys where
  "demo_rem_running = \<lparr>queue_tab = [leased 0 ''t'' 1000 demo_rem_row], claims = [(''1'', ''t'')]\<rparr>"

lemma demo_rem_reach: "queue_reach demo_rem_running"
proof -
  have v: "validateEnqueue (buildDreamRemEnqueue ''auto:0'' 30) 0 = Inr demo_rem_values" by code_simp
  have i: "insertJob demo_rem_values ''1'' 0 [] = Inr (Some demo_rem_row, [demo_rem_row])" by code_simp
  have c: "claimDueJobs 5 0 1000 ''t'' {} [demo_rem_row] = (Inr [leased 0 ''t'' 1000 demo_rem_row], [leased 0 ''t'' 1000 demo_rem_row])"
    by code_simp
  have "queue_reach \<lparr>queue_tab = [demo_rem_row], claims = []\<rparr>"
    using queue_reach.step [OF queue_reach.empty queue_step.insert [OF v]] i by fastforce
  moreover have "queue_step \<lparr>queue_tab = [demo_rem_row], claims = []\<rparr> demo_rem_running"
    using queue_step.claim [of "''t''" "\<lparr>queue_tab = [demo_rem_row], claims = []\<rparr>" 5 0 1000 "{}"] c
    by (simp add: demo_rem_running_def leased_def demo_rem_row_def new_row_def)
  ultimately show ?thesis by (rule queue_reach.step)
qed

definition demo_rem_failed :: job_table where
  "demo_rem_failed = snd (fail_job ''1'' (Some ''t'') Other_thrown None True 5 (queue_tab demo_rem_running))"

theorem failed_rem_is_scheduled_again_witness:
  "map job_state demo_rem_failed = [Dead_letter] \<and>
   map job_state (fst (produceRem (Some (Rem_enabled (demo_rem\<lparr>rem_minGapMs := 21600000\<rparr>))) (Some (Inr (demo_signals 5 0)))
     (table_enqueue demo_draw) demo_rem_failed)) = [Dead_letter, Queued]"
proof -
  let ?cfg = "demo_rem\<lparr>rem_minGapMs := 21600000\<rparr>" and ?r = "leased 0 ''t'' 1000 demo_rem_row"
  have r: "?r \<in> set (queue_tab demo_rem_running)" by (simp add: demo_rem_running_def)
  have facts: "held ''1'' (Some ''t'') ?r" "spent True ?r" "job_kind ?r = ''dream.rem''" "idempotency_key ?r = rem_key (demo_signals 5 0)"
    "remSignalsValid (demo_signals 5 0)" "rem_within_bounds ?cfg" "\<not> remInCooldown ?cfg (demo_signals 5 0)"
    "map job_state demo_rem_failed = [Dead_letter]" "last_rem_completed_at demo_rem_failed = None"
    by code_simp+
  have sig: "nowMs (demo_signals 5 0) = Some 5" "lastRemCompletedAtMs (demo_signals 5 0) = None"
    "the (headroomBytes (demo_signals 5 0)) \<ge> minHeadroomBytes ?cfg" "the (requestsPerMinute (demo_signals 5 0)) \<le> maxRequestsPerMinute ?cfg"
    by (simp_all add: demo_signals_def demo_rem_def)
  obtain made where made: "fst (produceRem (Some (Rem_enabled ?cfg)) (Some (Inr (demo_signals 5 0))) (table_enqueue demo_draw) demo_rem_failed)
      = demo_rem_failed @ [made]"
    using failed_rem_is_scheduled_again [where t = demo_draw, OF demo_rem_reach r facts(1-4) demo_rem_failed_def facts(5) sig(1) _ facts(6,7)]
      sig(2-4) facts(9) by auto
  moreover have "map job_state (fst (produceRem (Some (Rem_enabled ?cfg)) (Some (Inr (demo_signals 5 0))) (table_enqueue demo_draw) demo_rem_failed))
      = [Dead_letter, Queued]" by code_simp
  ultimately show ?thesis using facts(8) by simp
qed

definition demo_route_row :: job_row where
  "demo_route_row = (completed 5 demo_rem_row)\<lparr>job_kind := ''dream.route''\<rparr>"

theorem route_gap_covers_every_run_witness:
  "fst (produceRoute (Some (Route_enabled \<lparr>route_backend = Fake_backend, sliceSize = 9, route_minGapMs = 60000, maxUsdPerRun = 1\<rparr>))
     (Some (Inr (read_route_signals 60004 True [demo_route_row]))) (table_enqueue demo_draw) [demo_route_row]) = [demo_route_row]"
proof -
  have "job_kind demo_route_row = ''dream.route''" "\<not> live demo_route_row" "terminal_at demo_route_row = Some 5" by code_simp+
  from route_gap_covers_every_run [OF _ this] show ?thesis by simp
qed

theorem request_rate_is_exact_witness:
  "requestsPerMinute (snd (read_signals 70000 None 0 0 (source_after 0 [Observe 1, Observe 10000, Read_at 60001, Observe 60002]))) = Some 2"
  using request_rate_is_exact [of 0 "[Observe 1, Observe 10000, Read_at 60001, Observe 60002]" 70000 None 0 0] by simp

definition demo_loop :: "sweep_loop \<times> loop_event list" where
  "demo_loop = (\<lparr>interval_set = True, active_sweep = True, loop_stopping = False, lastCompletedAt = 0, overlappedTicks = 2,
     completedTicks = 0, warnedForCurrentStall = True\<rparr>,
     [Loop_created 0, Sweep_started 0, Tick_skipped 5 True, Tick_skipped 9 False])"

lemma demo_loop_reach: "loop_reach demo_loop"
proof -
  let ?s0 = "\<lparr>interval_set = True, active_sweep = True, loop_stopping = False, lastCompletedAt = 0, overlappedTicks = 0,
     completedTicks = 0, warnedForCurrentStall = False\<rparr>"
  let ?s1 = "\<lparr>interval_set = True, active_sweep = True, loop_stopping = False, lastCompletedAt = 0, overlappedTicks = 1,
     completedTicks = 0, warnedForCurrentStall = True\<rparr>"
  have "loop_reach (?s0, [Loop_created 0, Sweep_started 0])"
    using loop_reach.created [of 0] by (simp add: startRecurringMaintenanceSweep_def runOnce_def loop_created_def)
  moreover have "loop_step (?s0, [Loop_created 0, Sweep_started 0]) (?s1, [Loop_created 0, Sweep_started 0, Tick_skipped 5 True])"
    using loop_step.tick [of ?s0 5 ?s1 "[Tick_skipped 5 True]" "[Loop_created 0, Sweep_started 0]"] by (simp add: runOnce_def)
  moreover have "loop_step (?s1, [Loop_created 0, Sweep_started 0, Tick_skipped 5 True]) demo_loop"
    using loop_step.tick [of ?s1 9 _ "[Tick_skipped 9 False]" "[Loop_created 0, Sweep_started 0, Tick_skipped 5 True]"]
    by (simp add: runOnce_def demo_loop_def numeral_2_eq_2)
  ultimately show ?thesis by (metis loop_reach.stepped)
qed

theorem sweep_ticks_never_overlap_witness: "started (snd demo_loop) = 1 \<and> stall_warnings (snd demo_loop) \<le> 1"
  using sweep_ticks_never_overlap [OF demo_loop_reach [unfolded demo_loop_def]] by (simp add: demo_loop_def trace_counts)

theorem liveness_reports_the_history_witness: "stale (sweep_liveness_at None 60001 (fst demo_loop))"
  using liveness_reports_the_history [OF demo_loop_reach [unfolded demo_loop_def], of None 60001] by (simp add: demo_loop_def)

theorem stopped_producer_adds_nothing_witness:
  "started (snd demo_loop @ [Stop_called] @ [Sweep_settled 12 True True]) = 1"
proof -
  let ?st = "stop_called (fst demo_loop)"
  have "loop_step (?st, snd demo_loop @ [Stop_called]) (fst (sweep_settles 12 True ?st), (snd demo_loop @ [Stop_called]) @ [Sweep_settled 12 True True])"
    by (rule loop_step.settle) (simp_all add: sweep_settles_def demo_loop_def stop_called_def)
  then have "loop_step\<^sup>*\<^sup>* (?st, snd demo_loop @ [Stop_called])
    (fst (sweep_settles 12 True ?st), (snd demo_loop @ [Stop_called]) @ [Sweep_settled 12 True True])" by (rule r_into_rtranclp)
  from stopped_producer_adds_nothing [OF _ this] demo_loop_reach
  show ?thesis by (simp add: demo_loop_def trace_counts)
qed

end
