(* ===== verification/CandidateDedupe.thy ===== *)
theory CandidateDedupe
  imports Complex_Main Prelude
begin

text \<open>
  The near-duplicate merge of candidates (\<open>server/domain/candidate-dedupe.ts\<close>): the pairing query, the transaction
  that merges, and the receipt. The tables are lists of rows; a UUID is its number, a time its milliseconds. The
  foreign keys are those of migrations 038 and 044; the table of grades is not modelled. The
  vector index is an argument: \<open>pick\<close> answers with one of the rows it is offered, or misses; \<open>distance_of\<close> is the distance.
  The order in which the query returns its rows is unspecified and an argument too. Row locks and the log are not
  modelled; a statement that violates a constraint is \<open>Inl\<close> and rolls the transaction back.
\<close>

subsection \<open>The tables\<close>

record 'e candidate =
  cand_id :: nat
  cand_namespace :: string
  content_hash :: string
  embedding :: "'e option"
  cand_model :: "string option"
  first_said_at :: "int option"
  last_said_at :: "int option"
  cand_created_at :: int
  reviewed_at :: "int option"
  source_turn_ids :: "string list"
  cand_parent :: "nat option"

record reinforcement =
  reinf_namespace :: string
  candidate_id :: nat
  dup_content_hash :: string
  dup_occurred_at :: int
  dup_source_turn_ids :: "string list"
  similarity :: rat
  reinf_model :: "string option"

record 'e dedupe_store =
  candidate_memory :: "'e candidate list"
  candidate_reinforcement :: "reinforcement list"

definition CANDIDATE_DUP_DISTANCE :: rat where "CANDIDATE_DUP_DISTANCE = 9 / 100"
definition DEFAULT_DEDUPE_BATCH :: nat where "DEFAULT_DEDUPE_BATCH = 200"

subsection \<open>The pairing query\<close>

definition said_at :: "'e candidate \<Rightarrow> int" where
  "said_at c = (case first_said_at c of Some t \<Rightarrow> t | None \<Rightarrow> cand_created_at c)"

definition last_at :: "'e candidate \<Rightarrow> int" where
  "last_at c = (case last_said_at c of Some t \<Rightarrow> t | None \<Rightarrow> said_at c)"

definition strictly_older :: "'e candidate \<Rightarrow> 'e candidate \<Rightarrow> bool" where
  "strictly_older c d \<longleftrightarrow> said_at c < said_at d \<or> said_at c = said_at d \<and> cand_id c < cand_id d"

definition mergeable :: "'e candidate \<Rightarrow> bool" where
  "mergeable c \<longleftrightarrow> reviewed_at c = None \<and> embedding c \<noteq> None"

definition scoped :: "string option \<Rightarrow> 'e candidate list \<Rightarrow> 'e candidate list" where
  "scoped ns mem = filter (\<lambda>c. mergeable c \<and> (ns = None \<or> ns = Some (cand_namespace c))) mem"

definition dups :: "string option \<Rightarrow> nat \<Rightarrow> 'e candidate list \<Rightarrow> 'e candidate list" where
  "dups ns batch mem = take batch (sort_by (\<lambda>a b. \<not> strictly_older a b) (scoped ns mem))"

type_synonym 'e vector_index = "'e candidate \<Rightarrow> 'e candidate list \<Rightarrow> 'e candidate option"

definition nearest ::
  "'e vector_index \<Rightarrow> ('e candidate \<Rightarrow> 'e candidate \<Rightarrow> rat) \<Rightarrow> rat \<Rightarrow> 'e candidate list \<Rightarrow> 'e candidate list \<Rightarrow>
     ('e candidate \<times> nat \<times> rat) list" where
  "nearest pick distance_of limit mem ds =
     List.map_filter (\<lambda>d. case pick d (filter (\<lambda>c. mergeable c \<and> cand_namespace c = cand_namespace d \<and> strictly_older c d) mem) of
         None \<Rightarrow> None
       | Some s \<Rightarrow> if distance_of s d \<le> limit then Some (d, cand_id s, distance_of s d) else None) ds"

definition survivor_edge :: "('e candidate \<times> nat \<times> rat) list \<Rightarrow> nat \<Rightarrow> nat option" where
  "survivor_edge ns = map_of (map (\<lambda>(d, s, x). (cand_id d, s)) ns)"

text \<open>The recursive term: it follows an edge while \<open>steps < 32\<close>; the terminal is the deepest node reached.\<close>

fun chain_walk :: "(nat \<Rightarrow> nat option) \<Rightarrow> nat \<Rightarrow> nat \<Rightarrow> nat" where
  "chain_walk e 0 x = x"
| "chain_walk e (Suc n) x = (case e x of None \<Rightarrow> x | Some y \<Rightarrow> chain_walk e n y)"

record merge_row =
  dup_id :: nat
  survivor_id :: nat
  pair_namespace :: string
  pair_content_hash :: string
  pair_occurred_at :: int
  pair_source_turn_ids :: "string list"
  pair_model :: "string option"
  pair_distance :: rat

definition selectMergePairs ::
  "'e vector_index \<Rightarrow> ('e candidate \<Rightarrow> 'e candidate \<Rightarrow> rat) \<Rightarrow> string option \<Rightarrow> nat \<Rightarrow> rat \<Rightarrow> 'e candidate list \<Rightarrow> merge_row list" where
  "selectMergePairs pick distance_of ns batch limit mem =
     (let near = nearest pick distance_of limit mem (dups ns batch mem); e = survivor_edge near
      in filter (\<lambda>p. survivor_id p \<noteq> dup_id p)
           (map (\<lambda>(d, s, x). \<lparr>dup_id = cand_id d, survivor_id = chain_walk e 32 s, pair_namespace = cand_namespace d,
              pair_content_hash = content_hash d, pair_occurred_at = last_at d, pair_source_turn_ids = source_turn_ids d,
              pair_model = cand_model d, pair_distance = x\<rparr>) near))"

subsection \<open>One merge\<close>

record dedupe_summary =
  examined :: nat
  merged :: nat
  reinforced :: nat
  skipped_no_embedding :: nat

definition reinforcement_row :: "merge_row \<Rightarrow> reinforcement" where
  "reinforcement_row p = \<lparr>reinf_namespace = pair_namespace p, candidate_id = survivor_id p, dup_content_hash = pair_content_hash p,
     dup_occurred_at = pair_occurred_at p, dup_source_turn_ids = pair_source_turn_ids p, similarity = pair_distance p,
     reinf_model = pair_model p\<rparr>"

definition insert_reinforcement :: "merge_row \<Rightarrow> 'e dedupe_store \<Rightarrow> ('e dedupe_store \<times> nat) result" where
  "insert_reinforcement p st =
     (if pair_source_turn_ids p = [] \<or> pair_distance p < 0 \<or> pair_distance p > 2
        then Inl ''new row for relation candidate_reinforcement violates check constraint''
      else if list_ex (\<lambda>r. candidate_id r = survivor_id p \<and> dup_content_hash r = pair_content_hash p) (candidate_reinforcement st)
        then Inr (st, 0)
      else if \<not> list_ex (\<lambda>c. cand_id c = survivor_id p) (candidate_memory st)
        then Inl ''insert or update on table candidate_reinforcement violates foreign key constraint''
      else Inr (st\<lparr>candidate_reinforcement := candidate_reinforcement st @ [reinforcement_row p]\<rparr>, 1))"

definition advance_last_said :: "merge_row \<Rightarrow> 'e dedupe_store \<Rightarrow> 'e dedupe_store" where
  "advance_last_said p st = st\<lparr>candidate_memory :=
     map (\<lambda>c. if cand_id c = survivor_id p then c\<lparr>last_said_at := Some (max (last_at c) (pair_occurred_at p))\<rparr> else c) (candidate_memory st)\<rparr>"

text \<open>\<open>ON DELETE CASCADE\<close> of \<open>parent_id\<close> (migration 044): the parts of a deleted row are deleted, whatever their review state,
  then theirs. The rows that stay, and the ids of all that went.\<close>

function cascade :: "'e candidate list \<Rightarrow> nat list \<Rightarrow> 'e candidate list \<times> nat list" where
  "cascade mem [] = (mem, [])"
| "cascade mem (i # ids) =
     (let parts = filter (\<lambda>c. cand_parent c = Some i) mem;
          (rest, gone) = cascade (filter (\<lambda>c. cand_parent c \<noteq> Some i) mem) (ids @ map cand_id parts)
      in (rest, i # gone))"
  by pat_completeness auto

termination
proof (relation "measure (\<lambda>(mem, ids). length mem + length ids)")
  fix mem :: "'e candidate list" and i ids parts
  assume "parts = filter (\<lambda>c. cand_parent c = Some i) mem"
  then show "((filter (\<lambda>c. cand_parent c \<noteq> Some i) mem, ids @ map cand_id parts), mem, i # ids) \<in>
      measure (\<lambda>(mem, ids). length mem + length ids)"
    using sum_length_filter_compl [of "\<lambda>c. cand_parent c = Some i" mem] by simp
qed simp

text \<open>The DELETE, with the cascades of migration 044 to the parts and of migration 038 to the reinforcements.\<close>

definition delete_duplicate :: "merge_row \<Rightarrow> 'e dedupe_store \<Rightarrow> 'e dedupe_store \<times> nat" where
  "delete_duplicate p st =
     (let gone = filter (\<lambda>c. cand_id c = dup_id p \<and> reviewed_at c = None) (candidate_memory st);
          (rest, ids) = cascade (filter (\<lambda>c. \<not> (cand_id c = dup_id p \<and> reviewed_at c = None)) (candidate_memory st)) (map cand_id gone)
      in (st\<lparr>candidate_memory := rest,
             candidate_reinforcement := filter (\<lambda>r. candidate_id r \<notin> set ids) (candidate_reinforcement st)\<rparr>, length gone))"

definition applyMerge :: "merge_row \<Rightarrow> 'e dedupe_store \<times> dedupe_summary \<Rightarrow> ('e dedupe_store \<times> dedupe_summary) result" where
  "applyMerge p s =
     res_bind (insert_reinforcement p (fst s)) (\<lambda>(st1, written).
       let (st2, removed) = delete_duplicate p (advance_last_said p st1)
       in Inr (st2, (snd s)\<lparr>reinforced := reinforced (snd s) + (if written > 0 then 1 else 0),
                            merged := merged (snd s) + (if removed > 0 then 1 else 0)\<rparr>))"

fun applyMerges :: "merge_row list \<Rightarrow> 'e dedupe_store \<times> dedupe_summary \<Rightarrow> ('e dedupe_store \<times> dedupe_summary) result" where
  "applyMerges [] s = Inr s"
| "applyMerges (p # ps) s = res_bind (applyMerge p s) (applyMerges ps)"

subsection \<open>A pass\<close>

definition runCandidateDedupe ::
  "'e vector_index \<Rightarrow> ('e candidate \<Rightarrow> 'e candidate \<Rightarrow> rat) \<Rightarrow> (merge_row list \<Rightarrow> merge_row list) \<Rightarrow> string option \<Rightarrow>
     nat option \<Rightarrow> rat option \<Rightarrow> 'e dedupe_store \<Rightarrow> 'e dedupe_store \<times> dedupe_summary result" where
  "runCandidateDedupe pick distance_of arrange ns batchSize distance st =
     (let batch = (case batchSize of Some b \<Rightarrow> b | None \<Rightarrow> DEFAULT_DEDUPE_BATCH);
          limit = (case distance of Some d \<Rightarrow> d | None \<Rightarrow> CANDIDATE_DUP_DISTANCE);
          missing = length (filter (\<lambda>c. reviewed_at c = None \<and> embedding c = None \<and> (ns = None \<or> ns = Some (cand_namespace c)))
            (candidate_memory st));
          pairs = arrange (selectMergePairs pick distance_of ns batch limit (candidate_memory st))
      in case applyMerges pairs (st, \<lparr>examined = length pairs, merged = 0, reinforced = 0, skipped_no_embedding = missing\<rparr>) of
           Inl e \<Rightarrow> (st, Inl e)
         | Inr (st', summary) \<Rightarrow> (st', Inr summary))"

record reinforcement_receipt =
  receipt_count :: nat
  receipt_first_at :: "int option"
  receipt_last_at :: "int option"

definition readReinforcement :: "reinforcement list \<Rightarrow> nat list \<Rightarrow> (nat \<times> reinforcement_receipt) list" where
  "readReinforcement rs ids =
     map (\<lambda>k. let ts = map dup_occurred_at (filter (\<lambda>r. candidate_id r = k) rs)
              in (k, \<lparr>receipt_count = length ts, receipt_first_at = Some (foldl min (hd ts) (tl ts)),
                      receipt_last_at = Some (foldl max (hd ts) (tl ts))\<rparr>))
       (remdups (filter (\<lambda>k. k \<in> set ids) (map candidate_id rs)))"

subsection \<open>The walk\<close>

lemma walk_visits:
  assumes less: "\<And>x y. e x = Some y \<Longrightarrow> lt y x" and tr: "\<And>x y z. lt x y \<Longrightarrow> lt y z \<Longrightarrow> lt x z" and ir: "\<And>x. \<not> lt x x"
  shows "e (chain_walk e n x) \<noteq> None \<Longrightarrow> \<exists>S. finite S \<and> card S = Suc n \<and> S \<subseteq> dom e \<and> x \<in> S \<and> (\<forall>y \<in> S. y = x \<or> lt y x)"
proof (induction n arbitrary: x)
  case 0
  then show ?case by (intro exI [of _ "{x}"]) auto
next
  case (Suc n)
  obtain y where y: "e x = Some y" using Suc.prems by (cases "e x") auto
  with Suc.prems have "e (chain_walk e n y) \<noteq> None" by simp
  from Suc.IH [OF this] obtain S where S: "finite S" "card S = Suc n" "S \<subseteq> dom e" "\<forall>z \<in> S. z = y \<or> lt z y" by blast
  have below: "lt z x" if "z \<in> S" for z using S(4) that less [OF y] tr [of z y x] by auto
  then have "x \<notin> S" using ir by blast
  with S y below show ?case by (intro exI [of _ "insert x S"]) auto
qed

text \<open>Fewer edges than the bound: the walk ends at a node without an edge.\<close>

lemma short_walk_ends:
  assumes "\<And>x y. e x = Some y \<Longrightarrow> lt y x" "\<And>x y z. lt x y \<Longrightarrow> lt y z \<Longrightarrow> lt x z" "\<And>x. \<not> lt x x"
    and "finite (dom e)" "card (dom e) \<le> n"
  shows "e (chain_walk e n x) = None"
proof (rule ccontr)
  assume "e (chain_walk e n x) \<noteq> None"
  then have "\<exists>S. finite S \<and> card S = Suc n \<and> S \<subseteq> dom e \<and> x \<in> S \<and> (\<forall>y \<in> S. y = x \<or> lt y x)"
    using assms(1-3) by (intro walk_visits)
  then obtain S where "card S = Suc n" "S \<subseteq> dom e" by blast
  with card_mono [OF assms(4)] assms(5) show False by (metis Suc_n_not_le_n le_trans)
qed

lemma walk_Some: "e x = Some y \<Longrightarrow> chain_walk e (Suc n) x = chain_walk e n y"
  by simp

lemma walk_in: "x \<in> A \<Longrightarrow> (\<And>u v. e u = Some v \<Longrightarrow> v \<in> A) \<Longrightarrow> chain_walk e n x \<in> A"
  by (induction n arbitrary: x) (auto split: option.splits)

subsection \<open>The pairs\<close>

definition index_sound :: "'e vector_index \<Rightarrow> bool" where
  "index_sound pick \<longleftrightarrow> (\<forall>d cs c. pick d cs = Some c \<longrightarrow> c \<in> set cs)"

lemma older_trans: "strictly_older a b \<Longrightarrow> strictly_older b c \<Longrightarrow> strictly_older a c"
  by (auto simp: strictly_older_def)

lemma older_irrefl: "\<not> strictly_older a a"
  by (simp add: strictly_older_def)

lemma dups_in: "d \<in> set (dups ns batch mem) \<Longrightarrow> d \<in> set mem \<and> mergeable d"
proof -
  assume "d \<in> set (dups ns batch mem)"
  then have "d \<in> set (sort_by (\<lambda>a b. \<not> strictly_older a b) (scoped ns mem))" unfolding dups_def by (rule in_set_takeD)
  then show ?thesis by (simp add: scoped_def)
qed

lemma nearest_edge:
  assumes "index_sound pick" "(d, s, x) \<in> set (nearest pick distance_of limit mem ds)"
  shows "d \<in> set ds \<and> x \<le> limit \<and> (\<exists>c \<in> set mem. cand_id c = s \<and> mergeable c \<and> cand_namespace c = cand_namespace d \<and> strictly_older c d \<and> x = distance_of c d)"
  using assms by (fastforce simp: nearest_def List.map_filter_def index_sound_def split: option.splits if_splits)

lemma nearest_ids:
  assumes "distinct (map cand_id ds)"
  shows "distinct (map (\<lambda>t. cand_id (fst t)) (nearest pick distance_of limit mem ds))"
  using assms
proof (induction ds)
  case (Cons d ds)
  have "set (map (\<lambda>t. cand_id (fst t)) (nearest pick distance_of limit mem ds)) \<subseteq> cand_id ` set ds"
    by (auto simp: nearest_def List.map_filter_def split: option.splits if_splits)
  with Cons show ?case by (auto simp: nearest_def List.map_filter_simps split: option.splits)
qed (simp add: nearest_def List.map_filter_simps)

lemma dups_ids: "distinct (map cand_id mem) \<Longrightarrow> distinct (map cand_id (dups ns batch mem))"
proof -
  assume "distinct (map cand_id mem)"
  then have "distinct (map cand_id (scoped ns mem))" by (simp add: scoped_def distinct_map_filter)
  then have "distinct (map cand_id (sort_by (\<lambda>a b. \<not> strictly_older a b) (scoped ns mem)))"
    by (metis distinct_sort_by distinct_map set_sort_by)
  then show ?thesis unfolding dups_def by (simp add: take_map distinct_take flip: take_map)
qed

definition id_older :: "'e candidate list \<Rightarrow> nat \<Rightarrow> nat \<Rightarrow> bool" where
  "id_older mem x y \<longleftrightarrow> (\<exists>c \<in> set mem. \<exists>d \<in> set mem. cand_id c = x \<and> cand_id d = y \<and> strictly_older c d)"

lemma same_id: "distinct (map cand_id mem) \<Longrightarrow> c \<in> set mem \<Longrightarrow> d \<in> set mem \<Longrightarrow> cand_id c = cand_id d \<Longrightarrow> c = d"
  by (metis distinct_map inj_onD)

lemma id_older_order:
  assumes "distinct (map cand_id mem)"
  shows "id_older mem x y \<Longrightarrow> id_older mem y z \<Longrightarrow> id_older mem x z" "\<not> id_older mem x x"
proof -
  assume "id_older mem x y" "id_older mem y z"
  then obtain a b c d where "a \<in> set mem" "b \<in> set mem" "c \<in> set mem" "d \<in> set mem"
    "cand_id a = x" "cand_id b = y" "strictly_older a b" "cand_id c = y" "cand_id d = z" "strictly_older c d"
    by (auto simp: id_older_def)
  moreover from this have "b = c" using same_id [OF assms] by simp
  ultimately show "id_older mem x z" using older_trans unfolding id_older_def by blast
next
  show "\<not> id_older mem x x" using same_id [OF assms] older_irrefl unfolding id_older_def by metis
qed

lemma walk_below:
  assumes "\<And>u v. e u = Some v \<Longrightarrow> lt v u" "\<And>x y z. lt x y \<Longrightarrow> lt y z \<Longrightarrow> lt x z"
  shows "chain_walk e n x = x \<or> lt (chain_walk e n x) x"
proof (induction n arbitrary: x)
  case (Suc n)
  show ?case
  proof (cases "e x")
    case (Some y)
    with assms(1) Suc.IH [of y] assms(2) [of "chain_walk e n y" y x] show ?thesis by auto
  qed simp
qed simp

abbreviation near_of ::
  "'e vector_index \<Rightarrow> ('e candidate \<Rightarrow> 'e candidate \<Rightarrow> rat) \<Rightarrow> string option \<Rightarrow> nat \<Rightarrow> rat \<Rightarrow> 'e candidate list \<Rightarrow>
     ('e candidate \<times> nat \<times> rat) list" where
  "near_of pick distance_of ns batch limit mem \<equiv> nearest pick distance_of limit mem (dups ns batch mem)"

lemma edges:
  assumes "index_sound pick" "survivor_edge (near_of pick distance_of ns batch limit mem) u = Some v"
  shows "id_older mem v u"
proof -
  obtain d x where "(d, v, x) \<in> set (near_of pick distance_of ns batch limit mem)" "cand_id d = u"
    using assms(2) by (auto simp: survivor_edge_def dest!: map_of_SomeD)
  with nearest_edge [OF assms(1) this(1)] dups_in [of d ns batch mem] show ?thesis by (auto simp: id_older_def)
qed

lemma edge_of:
  assumes "distinct (map cand_id mem)" "(d, s, x) \<in> set (near_of pick distance_of ns batch limit mem)"
  shows "survivor_edge (near_of pick distance_of ns batch limit mem) (cand_id d) = Some s"
  unfolding survivor_edge_def using nearest_ids [OF dups_ids [OF assms(1), of ns batch], of pick distance_of limit mem] assms(2)
  by (intro map_of_is_SomeI) (simp add: comp_def case_prod_beta, force simp: image_iff)

lemma pairs_map:
  assumes "index_sound pick" "distinct (map cand_id mem)"
  shows "selectMergePairs pick distance_of ns batch limit mem =
     (let near = near_of pick distance_of ns batch limit mem
      in map (\<lambda>(d, s, x). \<lparr>dup_id = cand_id d, survivor_id = chain_walk (survivor_edge near) 32 s, pair_namespace = cand_namespace d,
           pair_content_hash = content_hash d, pair_occurred_at = last_at d, pair_source_turn_ids = source_turn_ids d,
           pair_model = cand_model d, pair_distance = x\<rparr>) near)"
proof -
  let ?near = "near_of pick distance_of ns batch limit mem"
  have "chain_walk (survivor_edge ?near) 32 s \<noteq> cand_id d" if inside: "(d, s, x) \<in> set ?near" for d s x
  proof -
    have "id_older mem s (cand_id d)" by (rule edges [OF assms(1) edge_of [OF assms(2) inside]])
    moreover have "chain_walk (survivor_edge ?near) 32 s = s \<or> id_older mem (chain_walk (survivor_edge ?near) 32 s) s"
      using edges [OF assms(1)] id_older_order(1) [OF assms(2)] by (intro walk_below)
    ultimately show ?thesis using id_older_order [OF assms(2)] by metis
  qed
  then show ?thesis unfolding selectMergePairs_def Let_def by (subst filter_True) auto
qed

lemma pair_facts:
  assumes "index_sound pick" "distinct (map cand_id mem)" "p \<in> set (selectMergePairs pick distance_of ns batch limit mem)"
  shows "\<exists>d \<in> set mem. mergeable d \<and> cand_id d = dup_id p \<and> content_hash d = pair_content_hash p \<and>
      source_turn_ids d = pair_source_turn_ids p"
    "\<exists>c d. pair_distance p = distance_of c d" "survivor_id p \<in> cand_id ` set mem"
proof -
  let ?near = "near_of pick distance_of ns batch limit mem"
  obtain d s x where near: "(d, s, x) \<in> set ?near" and p: "dup_id p = cand_id d" "content_hash d = pair_content_hash p"
    "source_turn_ids d = pair_source_turn_ids p" "pair_distance p = x" "survivor_id p = chain_walk (survivor_edge ?near) 32 s"
    using assms(3) unfolding pairs_map [OF assms(1,2)] Let_def by auto
  note n = nearest_edge [OF assms(1) near]
  from n p dups_in [of d ns batch mem] show "\<exists>d \<in> set mem. mergeable d \<and> cand_id d = dup_id p \<and> content_hash d = pair_content_hash p \<and>
      source_turn_ids d = pair_source_turn_ids p" by auto
  from n p show "\<exists>c d. pair_distance p = distance_of c d" by auto
  have "v \<in> cand_id ` set mem" if "survivor_edge ?near u = Some v" for u v using edges [OF assms(1) that] by (auto simp: id_older_def)
  moreover have "s \<in> cand_id ` set mem" using n by auto
  ultimately show "survivor_id p \<in> cand_id ` set mem" unfolding p(5) by (intro walk_in)
qed

lemma pair_ids:
  assumes "index_sound pick" "distinct (map cand_id mem)"
  shows "distinct (map dup_id (selectMergePairs pick distance_of ns batch limit mem))"
  unfolding pairs_map [OF assms] Let_def using nearest_ids [OF dups_ids [OF assms(2), of ns batch], of pick distance_of limit mem]
  by (simp add: comp_def case_prod_beta)

lemma few_pairs_terminal:
  assumes "index_sound pick" "distinct (map cand_id mem)" "length (selectMergePairs pick distance_of ns batch limit mem) \<le> 33"
    and "p \<in> set (selectMergePairs pick distance_of ns batch limit mem)"
  shows "survivor_id p \<notin> dup_id ` set (selectMergePairs pick distance_of ns batch limit mem)"
proof -
  let ?near = "near_of pick distance_of ns batch limit mem" and ?pairs = "selectMergePairs pick distance_of ns batch limit mem"
  let ?e = "survivor_edge ?near"
  obtain d s x where near: "(d, s, x) \<in> set ?near" and p: "survivor_id p = chain_walk ?e 32 s"
    using assms(4) unfolding pairs_map [OF assms(1,2)] Let_def by auto
  have dom: "dom ?e = dup_id ` set ?pairs"
    unfolding pairs_map [OF assms(1,2)] Let_def survivor_edge_def
    by (simp add: dom_map_of_conv_image_fst image_image case_prod_beta)
  have "card (dup_id ` set ?pairs) \<le> card (set ?pairs)" by (rule card_image_le) simp
  then have card: "card (dom ?e) \<le> 33" unfolding dom using assms(3) card_length [of ?pairs] by linarith
  have "?e (chain_walk ?e 33 (cand_id d)) = None"
    by (rule short_walk_ends [of ?e "id_older mem"]) (use edges [OF assms(1)] id_older_order [OF assms(2)] card dom in auto)
  moreover have "chain_walk ?e 33 (cand_id d) = chain_walk ?e 32 s" using edge_of [OF assms(2) near] by (simp add: eval_nat_numeral)
  ultimately have "survivor_id p \<notin> dom ?e" by (simp add: p domIff)
  then show ?thesis by (simp only: dom not_False_eq_True)
qed

subsection \<open>What a deletion takes with it\<close>

definition row_keys :: "'e dedupe_store \<Rightarrow> (nat \<times> int option \<times> nat option) list" where
  "row_keys st = map (\<lambda>c. (cand_id c, reviewed_at c, cand_parent c)) (candidate_memory st)"

definition links_of :: "(nat \<times> int option \<times> nat option) list \<Rightarrow> (nat \<times> nat option) list" where
  "links_of ks = map (\<lambda>(i, v, p). (i, p)) ks"

abbreviation links :: "'e dedupe_store \<Rightarrow> (nat \<times> nat option) list" where
  "links st \<equiv> links_of (row_keys st)"

text \<open>A row falls with the rows \<open>D\<close> when it is one of them or a part of a row that falls.\<close>

inductive falls :: "(nat \<times> nat option) list \<Rightarrow> nat set \<Rightarrow> nat \<Rightarrow> bool" for L D where
  root: "i \<in> D \<Longrightarrow> falls L D i"
| part: "(i, Some j) \<in> set L \<Longrightarrow> falls L D j \<Longrightarrow> falls L D i"

inductive_cases fallsE: "falls L D i"

definition hangs_below :: "(nat \<times> nat option) list \<Rightarrow> nat set \<Rightarrow> nat \<Rightarrow> bool" where
  "hangs_below L D i \<longleftrightarrow> (\<exists>j. (i, Some j) \<in> set L \<and> falls L D j)"

lemma falls_iff: "falls L D i \<longleftrightarrow> i \<in> D \<or> hangs_below L D i"
  by (auto simp: hangs_below_def intro: falls.intros elim: fallsE)

lemma falls_mono: "falls L D i \<Longrightarrow> set L \<subseteq> set L' \<Longrightarrow> D \<subseteq> D' \<Longrightarrow> falls L' D' i"
  by (induction rule: falls.induct) (auto intro: falls.intros)

lemma hangs_mono: "hangs_below L D i \<Longrightarrow> set L \<subseteq> set L' \<Longrightarrow> D \<subseteq> D' \<Longrightarrow> hangs_below L' D' i"
  by (auto simp: hangs_below_def intro: falls_mono)

lemma in_links: "(i, p) \<in> set (links st) \<longleftrightarrow> (\<exists>c \<in> set (candidate_memory st). cand_id c = i \<and> cand_parent c = p)"
  by (force simp: links_of_def row_keys_def)

lemma links_ids: "fst ` set (links st) = cand_id ` set (candidate_memory st)"
  by (force simp: links_of_def row_keys_def)

text \<open>Deleting in two steps is deleting at once.\<close>

lemma falls_insert:
  assumes "falls L (insert d D) i" "L' = filter (\<lambda>k. \<not> falls L {d} (fst k)) L"
  shows "falls L {d} i \<or> falls L' D i"
  using assms(1)
proof (induction rule: falls.induct)
  case (part i j)
  show ?case
  proof (cases "falls L {d} i")
    case False
    then have "\<not> falls L {d} j" using part(1) by (blast intro: falls.part)
    moreover have "(i, Some j) \<in> set L'" using part(1) False by (simp add: assms(2))
    ultimately show ?thesis using part.IH by (blast intro: falls.part)
  qed simp
qed (auto intro: falls.root)

lemma falls_step:
  assumes "L' = filter (\<lambda>k. \<not> falls L {d} (fst k)) L"
  shows "\<not> falls L {d} i \<Longrightarrow> falls L' D i \<longleftrightarrow> falls L (insert d D) i"
  using falls_insert [of L d D i L'] falls_mono [of L' D i L "insert d D"] assms by auto

abbreviation mem_links :: "'e candidate list \<Rightarrow> (nat \<times> nat option) list" where
  "mem_links mem \<equiv> map (\<lambda>c. (cand_id c, cand_parent c)) mem"

lemma falls_queue:
  assumes "mem' = filter (\<lambda>c. cand_parent c \<noteq> Some i) mem" "parts = filter (\<lambda>c. cand_parent c = Some i) mem"
  shows "falls (mem_links mem) (set (i # ids)) j \<longleftrightarrow> j = i \<or> falls (mem_links mem') (set (ids @ map cand_id parts)) j"
proof
  assume "falls (mem_links mem) (set (i # ids)) j"
  then show "j = i \<or> falls (mem_links mem') (set (ids @ map cand_id parts)) j"
  proof (induction rule: falls.induct)
    case (part a b)
    then obtain c where c: "c \<in> set mem" "cand_id c = a" "cand_parent c = Some b" by auto
    show ?case
    proof (cases "b = i")
      case True
      then have "a \<in> set (ids @ map cand_id parts)" using c by (auto simp: assms(2))
      then show ?thesis by (blast intro: falls.root)
    next
      case False
      then have "(a, Some b) \<in> set (mem_links mem')" using c by (force simp: assms(1))
      then show ?thesis using part.IH False by (blast intro: falls.part)
    qed
  qed (auto intro: falls.root)
next
  have i: "falls (mem_links mem) (set (i # ids)) i" by (simp add: falls.root)
  assume "j = i \<or> falls (mem_links mem') (set (ids @ map cand_id parts)) j"
  then show "falls (mem_links mem) (set (i # ids)) j"
  proof
    assume "falls (mem_links mem') (set (ids @ map cand_id parts)) j"
    then show ?thesis
    proof (induction rule: falls.induct)
      case (root a)
      then consider "a \<in> set ids" | c where "c \<in> set mem" "cand_id c = a" "cand_parent c = Some i" by (auto simp: assms(2))
      then show ?case
      proof cases
        case 2
        then have "(a, Some i) \<in> set (mem_links mem)" by force
        then show ?thesis using i by (rule falls.part)
      qed (simp add: falls.root)
    next
      case (part a b)
      have "(a, Some b) \<in> set (mem_links mem)" using part(1) by (auto simp: assms(1))
      then show ?case using part.IH by (rule falls.part)
    qed
  qed (use i in simp)
qed

lemma cascade_falls:
  "fst (cascade mem ids) = filter (\<lambda>c. \<not> (\<exists>j. cand_parent c = Some j \<and> falls (mem_links mem) (set ids) j)) mem \<and>
   set (snd (cascade mem ids)) = {i. falls (mem_links mem) (set ids) i}"
proof (induction mem ids rule: cascade.induct)
  case (1 mem)
  have "\<not> falls (mem_links mem) {} i" for i
  proof
    assume "falls (mem_links mem) {} i"
    then show False by (induction rule: falls.induct) auto
  qed
  then show ?case by simp
next
  case (2 mem i ids)
  let ?mem = "filter (\<lambda>c. cand_parent c \<noteq> Some i) mem" and ?parts = "filter (\<lambda>c. cand_parent c = Some i) mem"
  note q = falls_queue [of ?mem i mem ?parts ids, OF refl refl]
  have IH: "fst (cascade ?mem (ids @ map cand_id ?parts)) =
      filter (\<lambda>c. \<not> (\<exists>j. cand_parent c = Some j \<and> falls (mem_links ?mem) (set (ids @ map cand_id ?parts)) j)) ?mem"
    "set (snd (cascade ?mem (ids @ map cand_id ?parts))) = {j. falls (mem_links ?mem) (set (ids @ map cand_id ?parts)) j}"
    using 2 by simp_all
  have "fst (cascade mem (i # ids)) = fst (cascade ?mem (ids @ map cand_id ?parts))"
    "snd (cascade mem (i # ids)) = i # snd (cascade ?mem (ids @ map cand_id ?parts))"
    by (simp_all add: Let_def case_prod_beta)
  then show ?case unfolding IH q by (auto simp: IH(2) filter_filter intro!: filter_cong)
qed

declare cascade.simps [simp del]

text \<open>The foreign keys and the primary key.\<close>

definition store_ok :: "'e dedupe_store \<Rightarrow> bool" where
  "store_ok st \<longleftrightarrow> distinct (map fst (row_keys st)) \<and> (\<forall>i j. (i, Some j) \<in> set (links st) \<longrightarrow> j \<in> fst ` set (row_keys st)) \<and>
     (\<forall>r \<in> set (candidate_reinforcement st). candidate_id r \<in> fst ` set (row_keys st))"

lemma row_ids: "map fst (row_keys st) = map cand_id (candidate_memory st)"
  by (simp add: row_keys_def)

definition unreviewed :: "'e dedupe_store \<Rightarrow> nat \<Rightarrow> bool" where
  "unreviewed st d \<longleftrightarrow> (\<forall>v p. (d, v, p) \<in> set (row_keys st) \<longrightarrow> v = None)"

lemma row_falls:
  assumes "distinct (map cand_id mem)" "c \<in> set mem"
  shows "falls (mem_links mem) {d} (cand_id c) \<longleftrightarrow> cand_id c = d \<or> (\<exists>j. cand_parent c = Some j \<and> falls (mem_links mem) {d} j)"
proof -
  have "cand_parent c = Some j" if "(cand_id c, Some j) \<in> set (mem_links mem)" for j
    using that same_id [OF assms(1) assms(2)] by auto
  moreover have "(cand_id c, Some j) \<in> set (mem_links mem)" if "cand_parent c = Some j" for j using assms(2) that by force
  ultimately have "(cand_id c, Some j) \<in> set (mem_links mem) \<longleftrightarrow> cand_parent c = Some j" for j by blast
  then show ?thesis unfolding falls_iff [of _ _ "cand_id c"] hangs_below_def by simp
qed

lemma absent_takes_none:
  assumes "falls L {d} i" "\<And>k. (k, Some d) \<notin> set L"
  shows "i = d"
  using assms(1) by (induction rule: falls.induct) (use assms(2) in auto)

lemma delete_effect:
  assumes ok: "store_ok st" and un: "unreviewed st (dup_id p)"
  shows "row_keys (fst (delete_duplicate p st)) = filter (\<lambda>k. \<not> falls (links st) {dup_id p} (fst k)) (row_keys st)"
    "candidate_reinforcement (fst (delete_duplicate p st)) =
       filter (\<lambda>r. \<not> falls (links st) {dup_id p} (candidate_id r)) (candidate_reinforcement st)"
    "0 < snd (delete_duplicate p st) \<longleftrightarrow> dup_id p \<in> fst ` set (row_keys st)"
proof -
  let ?mem = "candidate_memory st" and ?d = "dup_id p"
  have dist: "distinct (map cand_id ?mem)" using ok by (simp add: store_ok_def row_ids)
  have links: "links st = mem_links ?mem" by (simp add: links_of_def row_keys_def)
  have rv: "reviewed_at c = None" if "c \<in> set ?mem" "cand_id c = ?d" for c
    using un that by (force simp: unreviewed_def row_keys_def)
  have gone: "filter (\<lambda>c. cand_id c = ?d \<and> reviewed_at c = None) ?mem = filter (\<lambda>c. cand_id c = ?d) ?mem"
    and stay: "filter (\<lambda>c. \<not> (cand_id c = ?d \<and> reviewed_at c = None)) ?mem = filter (\<lambda>c. cand_id c \<noteq> ?d) ?mem"
    using rv by (auto intro!: filter_cong)
  have present: "?d \<in> fst ` set (row_keys st) \<longleftrightarrow> (\<exists>c \<in> set ?mem. cand_id c = ?d)" by (force simp: row_keys_def)
  show "0 < snd (delete_duplicate p st) \<longleftrightarrow> ?d \<in> fst ` set (row_keys st)"
    unfolding present by (auto simp: delete_duplicate_def Let_def gone case_prod_beta filter_empty_conv)
  have "candidate_memory (fst (delete_duplicate p st)) = filter (\<lambda>c. \<not> falls (links st) {?d} (cand_id c)) ?mem \<and>
    candidate_reinforcement (fst (delete_duplicate p st)) = filter (\<lambda>r. \<not> falls (links st) {?d} (candidate_id r)) (candidate_reinforcement st)"
  proof (cases "\<exists>c \<in> set ?mem. cand_id c = ?d")
    case True
    let ?rest = "filter (\<lambda>c. cand_id c \<noteq> ?d) ?mem"
    have ids: "set (map cand_id (filter (\<lambda>c. cand_id c = ?d) ?mem)) = {?d}" using True by auto
    have same: "falls (mem_links ?rest) {?d} j \<longleftrightarrow> falls (mem_links ?mem) {?d} j" for j
    proof
      assume "falls (mem_links ?mem) {?d} j"
      then show "falls (mem_links ?rest) {?d} j"
      proof (induction rule: falls.induct)
        case (part a b)
        show ?case
        proof (cases "a = ?d")
          case False
          then have "(a, Some b) \<in> set (mem_links ?rest)" using part(1) by force
          then show ?thesis using part.IH by (rule falls.part)
        qed (simp add: falls.root)
      qed (rule falls.root)
    qed (rule falls_mono, auto)
    have fst: "fst (cascade ?rest (map cand_id (filter (\<lambda>c. cand_id c = ?d) ?mem))) =
        filter (\<lambda>c. \<not> (\<exists>j. cand_parent c = Some j \<and> falls (mem_links ?mem) {?d} j)) ?rest"
      and snd: "set (snd (cascade ?rest (map cand_id (filter (\<lambda>c. cand_id c = ?d) ?mem)))) = {i. falls (mem_links ?mem) {?d} i}"
      using cascade_falls [of ?rest "map cand_id (filter (\<lambda>c. cand_id c = ?d) ?mem)"] unfolding ids same by simp_all
    have "filter (\<lambda>c. \<not> (\<exists>j. cand_parent c = Some j \<and> falls (mem_links ?mem) {?d} j)) ?rest =
        filter (\<lambda>c. \<not> falls (mem_links ?mem) {?d} (cand_id c)) ?mem"
      unfolding filter_filter using row_falls [OF dist] by (intro filter_cong) auto
    then show ?thesis unfolding links delete_duplicate_def Let_def gone stay case_prod_beta fst_conv by (simp add: fst snd)
  next
    case False
    have "(k, Some ?d) \<notin> set (links st)" for k using ok False present by (auto simp: store_ok_def)
    then have only: "i = ?d" if "falls (links st) {?d} i" for i using absent_takes_none [OF that] by blast
    have none: "filter (\<lambda>c. cand_id c = ?d) ?mem = []" "filter (\<lambda>c. cand_id c \<noteq> ?d) ?mem = ?mem"
      using False by (auto simp: filter_empty_conv intro!: filter_True)
    have "\<not> falls (links st) {?d} (candidate_id r)" if "r \<in> set (candidate_reinforcement st)" for r
      using only [of "candidate_id r"] that ok False present by (metis store_ok_def)
    moreover have "\<not> falls (links st) {?d} (cand_id c)" if "c \<in> set ?mem" for c using only that False by blast
    ultimately show ?thesis unfolding delete_duplicate_def Let_def gone stay none
      by (simp add: cascade.simps filter_id_conv [THEN iffD2])
  qed
  then show "row_keys (fst (delete_duplicate p st)) = filter (\<lambda>k. \<not> falls (links st) {?d} (fst k)) (row_keys st)"
    "candidate_reinforcement (fst (delete_duplicate p st)) = filter (\<lambda>r. \<not> falls (links st) {?d} (candidate_id r)) (candidate_reinforcement st)"
    by (simp_all add: row_keys_def filter_map comp_def)
qed

subsection \<open>The merges\<close>

definition row_ok :: "merge_row \<Rightarrow> bool" where
  "row_ok p \<longleftrightarrow> pair_source_turn_ids p \<noteq> [] \<and> 0 \<le> pair_distance p \<and> pair_distance p \<le> 2"

lemma advance_keys: "row_keys (advance_last_said p st) = row_keys st"
  "candidate_reinforcement (advance_last_said p st) = candidate_reinforcement st"
  by (simp_all add: row_keys_def advance_last_said_def)

lemma in_ids: "i \<in> fst ` set (row_keys st) \<longleftrightarrow> (\<exists>c \<in> set (candidate_memory st). cand_id c = i)"
  by (force simp: row_keys_def)

lemma insert_effect:
  assumes "insert_reinforcement p st = Inr (st1, n)"
  shows "row_keys st1 = row_keys st"
    "set (candidate_reinforcement st) \<subseteq> set (candidate_reinforcement st1)"
    "set (candidate_reinforcement st1) \<subseteq> insert (reinforcement_row p) (set (candidate_reinforcement st))"
    "\<exists>r \<in> set (candidate_reinforcement st1). candidate_id r = survivor_id p \<and> dup_content_hash r = pair_content_hash p"
    "reinforcement_row p \<in> set (candidate_reinforcement st1) \<Longrightarrow> reinforcement_row p \<in> set (candidate_reinforcement st) \<or>
       survivor_id p \<in> fst ` set (row_keys st)"
  using assms unfolding in_ids
  by (auto simp: insert_reinforcement_def row_keys_def list_ex_iff reinforcement_row_def split: if_splits; metis)+

lemma insert_works:
  assumes "row_ok p" "survivor_id p \<in> fst ` set (row_keys st)"
  shows "\<exists>st1 n. insert_reinforcement p st = Inr (st1, n)"
  using assms unfolding in_ids by (auto simp: insert_reinforcement_def row_ok_def list_ex_iff)

lemma applyMerge_split:
  "applyMerge p (st, sm) = Inr (st', sm') \<longleftrightarrow>
    (\<exists>st1 n. insert_reinforcement p st = Inr (st1, n) \<and> st' = fst (delete_duplicate p (advance_last_said p st1)) \<and>
      sm' = sm\<lparr>reinforced := reinforced sm + (if n > 0 then 1 else 0),
               merged := merged sm + (if snd (delete_duplicate p (advance_last_said p st1)) > 0 then 1 else 0)\<rparr>)"
  by (auto simp: applyMerge_def res_bind_Inr Let_def case_prod_beta split del: if_split)

lemma links_filter:
  "row_keys st' = filter (\<lambda>k. P (fst k)) (row_keys st) \<Longrightarrow> links st' = filter (\<lambda>k. P (fst k)) (links st)"
  by (auto simp: links_of_def filter_map comp_def case_prod_beta)

lemma store_ok_filter:
  assumes ok: "store_ok st" and keys: "row_keys st' = filter (\<lambda>k. \<not> falls (links st) D (fst k)) (row_keys st)"
    and reinf: "\<forall>r \<in> set (candidate_reinforcement st'). candidate_id r \<in> fst ` set (row_keys st) \<and> \<not> falls (links st) D (candidate_id r)"
  shows "store_ok st'"
proof -
  have ids: "fst ` set (row_keys st') = {i \<in> fst ` set (row_keys st). \<not> falls (links st) D i}" unfolding keys by force
  have "j \<in> fst ` set (row_keys st')" if "(i, Some j) \<in> set (links st')" for i j
  proof -
    have "(i, Some j) \<in> set (links st)" "\<not> falls (links st) D i" using that links_filter [OF keys] by auto
    then have "\<not> falls (links st) D j" "j \<in> fst ` set (row_keys st)" using ok by (auto simp: store_ok_def intro: falls.part)
    then show ?thesis unfolding ids by simp
  qed
  moreover have "distinct (map fst (row_keys st'))" unfolding keys using ok by (auto simp: store_ok_def intro: distinct_map_filter)
  ultimately show ?thesis using reinf unfolding store_ok_def ids by blast
qed

lemma applyMerge_effect:
  assumes one: "applyMerge p (st, sm) = Inr (st', sm')" and ok: "store_ok st" and un: "unreviewed st (dup_id p)"
  shows "row_keys st' = filter (\<lambda>k. \<not> falls (links st) {dup_id p} (fst k)) (row_keys st)" "store_ok st'"
    "set (candidate_reinforcement st') \<subseteq> insert (reinforcement_row p) (set (candidate_reinforcement st))"
    "\<forall>r \<in> set (candidate_reinforcement st). \<not> falls (links st) {dup_id p} (candidate_id r) \<longrightarrow> r \<in> set (candidate_reinforcement st')"
    "\<not> falls (links st) {dup_id p} (survivor_id p) \<Longrightarrow>
      \<exists>r \<in> set (candidate_reinforcement st'). candidate_id r = survivor_id p \<and> dup_content_hash r = pair_content_hash p"
    "merged sm' = merged sm + (if dup_id p \<in> fst ` set (row_keys st) then 1 else 0)" "examined sm' = examined sm"
proof -
  obtain st1 n where i: "insert_reinforcement p st = Inr (st1, n)" and st': "st' = fst (delete_duplicate p (advance_last_said p st1))"
    and sm': "sm' = sm\<lparr>reinforced := reinforced sm + (if n > 0 then 1 else 0),
               merged := merged sm + (if snd (delete_duplicate p (advance_last_said p st1)) > 0 then 1 else 0)\<rparr>"
    using one unfolding applyMerge_split by blast
  note ie = insert_effect [OF i]
  let ?st = "advance_last_said p st1"
  have keys: "row_keys ?st = row_keys st" using ie(1) by (simp add: advance_keys)
  have targets: "candidate_id r \<in> fst ` set (row_keys st)" if r: "r \<in> set (candidate_reinforcement st1)" for r
  proof (cases "r \<in> set (candidate_reinforcement st)")
    case False
    then have "r = reinforcement_row p" using r ie(3) by auto
    with False ie(5) r show ?thesis by (auto simp: reinforcement_row_def)
  qed (use ok in \<open>simp add: store_ok_def\<close>)
  have ok1: "store_ok ?st" using ok targets unfolding store_ok_def keys by (simp add: advance_keys)
  have un1: "unreviewed ?st (dup_id p)" using un by (simp add: unreviewed_def keys)
  note de = delete_effect [OF ok1 un1, folded st', unfolded keys]
  show k: "row_keys st' = filter (\<lambda>k. \<not> falls (links st) {dup_id p} (fst k)) (row_keys st)" by (rule de(1))
  show "store_ok st'" using de(2) targets by (intro store_ok_filter [OF ok k]) (auto simp: advance_keys)
  show "set (candidate_reinforcement st') \<subseteq> insert (reinforcement_row p) (set (candidate_reinforcement st))"
    using de(2) ie(3) by (auto simp: advance_keys)
  show "\<forall>r \<in> set (candidate_reinforcement st). \<not> falls (links st) {dup_id p} (candidate_id r) \<longrightarrow> r \<in> set (candidate_reinforcement st')"
    using de(2) ie(2) by (auto simp: advance_keys)
  show "\<exists>r \<in> set (candidate_reinforcement st'). candidate_id r = survivor_id p \<and> dup_content_hash r = pair_content_hash p"
    if "\<not> falls (links st) {dup_id p} (survivor_id p)" using de(2) ie(4) that by (auto simp: advance_keys)
  show "merged sm' = merged sm + (if dup_id p \<in> fst ` set (row_keys st) then 1 else 0)" "examined sm' = examined sm"
    using de(3) by (simp_all add: sm')
qed

abbreviation dup_ids :: "merge_row list \<Rightarrow> nat set" where
  "dup_ids ps \<equiv> dup_id ` set ps"

lemma unreviewed_filter:
  "row_keys st' = filter P (row_keys st) \<Longrightarrow> unreviewed st d \<Longrightarrow> unreviewed st' d"
  by (auto simp: unreviewed_def)

text \<open>A pass that commits: what is left, and what it can have written.\<close>

lemma applyMerges_effect:
  assumes "applyMerges ps (st, sm) = Inr (st', sm')" "store_ok st" "\<forall>p \<in> set ps. unreviewed st (dup_id p)"
  shows "row_keys st' = filter (\<lambda>k. \<not> falls (links st) (dup_ids ps) (fst k)) (row_keys st) \<and> store_ok st' \<and>
    set (candidate_reinforcement st') \<subseteq> set (candidate_reinforcement st) \<union> reinforcement_row ` set ps \<and>
    (\<forall>r \<in> set (candidate_reinforcement st). \<not> falls (links st) (dup_ids ps) (candidate_id r) \<longrightarrow> r \<in> set (candidate_reinforcement st')) \<and>
    examined sm' = examined sm"
  using assms
proof (induction ps arbitrary: st sm)
  case Nil
  have "\<not> falls L {} i" for L i
  proof
    assume "falls L {} i"
    then show False by (induction rule: falls.induct) auto
  qed
  with Nil show ?case by simp
next
  case (Cons p ps)
  obtain st1 sm1 where one: "applyMerge p (st, sm) = Inr (st1, sm1)" and rest: "applyMerges ps (st1, sm1) = Inr (st', sm')"
    using Cons.prems(1) by (auto simp: res_bind_Inr)
  have un: "unreviewed st (dup_id p)" using Cons.prems(3) by simp
  note e = applyMerge_effect [OF one Cons.prems(2) un]
  have "\<forall>q \<in> set ps. unreviewed st1 (dup_id q)" using Cons.prems(3) unreviewed_filter [OF e(1)] by simp
  note IH = Cons.IH [OF rest e(2) this]
  note step = falls_step [OF links_filter [OF e(1)], of _ "dup_ids ps"]
  have split: "falls (links st) {dup_id p} i \<Longrightarrow> falls (links st) (dup_ids (p # ps)) i" for i by (rule falls_mono) auto
  have keep: "\<not> falls (links st) (dup_ids (p # ps)) i \<longleftrightarrow> \<not> falls (links st) {dup_id p} i \<and> \<not> falls (links st1) (dup_ids ps) i" for i
    using step [of i] split [of i] by auto
  have "row_keys st' = filter (\<lambda>k. \<not> falls (links st) (dup_ids (p # ps)) (fst k)) (row_keys st)"
    using IH unfolding e(1) keep by (simp add: filter_filter conj_commute)
  moreover have "\<forall>r \<in> set (candidate_reinforcement st). \<not> falls (links st) (dup_ids (p # ps)) (candidate_id r) \<longrightarrow>
      r \<in> set (candidate_reinforcement st')" using IH e(4) unfolding keep by blast
  ultimately show ?case using IH e(3,7) by auto
qed

text \<open>A pass whose survivors all stay commits and keeps every restatement.\<close>

lemma merges_work:
  assumes "\<forall>p \<in> set ps. row_ok p \<and> survivor_id p \<in> fst ` set (row_keys st) \<and> \<not> falls (links st) (dup_ids ps) (survivor_id p) \<and>
      unreviewed st (dup_id p)" and "store_ok st"
  shows "\<exists>st' sm'. applyMerges ps (st, sm) = Inr (st', sm') \<and>
    (\<forall>p \<in> set ps. \<exists>r \<in> set (candidate_reinforcement st'). candidate_id r = survivor_id p \<and> dup_content_hash r = pair_content_hash p)"
  using assms
proof (induction ps arbitrary: st sm)
  case (Cons p ps)
  have p: "row_ok p" "survivor_id p \<in> fst ` set (row_keys st)" "unreviewed st (dup_id p)" using Cons.prems(1) by auto
  obtain st1 sm1 where one: "applyMerge p (st, sm) = Inr (st1, sm1)"
    using insert_works [OF p(1,2)] unfolding applyMerge_split by blast
  note e = applyMerge_effect [OF one Cons.prems(2) p(3)]
  note step = falls_step [OF links_filter [OF e(1)], of _ "dup_ids ps"]
  have split: "falls (links st) {dup_id p} i \<Longrightarrow> falls (links st) (dup_ids (p # ps)) i" for i by (rule falls_mono) auto
  have keep: "\<not> falls (links st) (dup_ids (p # ps)) i \<longleftrightarrow> \<not> falls (links st) {dup_id p} i \<and> \<not> falls (links st1) (dup_ids ps) i" for i
    using step [of i] split [of i] by auto
  have ids: "fst ` set (row_keys st1) = {i \<in> fst ` set (row_keys st). \<not> falls (links st) {dup_id p} i}" unfolding e(1) by force
  have prems: "\<forall>q \<in> set ps. row_ok q \<and> survivor_id q \<in> fst ` set (row_keys st1) \<and> \<not> falls (links st1) (dup_ids ps) (survivor_id q) \<and>
      unreviewed st1 (dup_id q)"
    using Cons.prems(1) unreviewed_filter [OF e(1)] unfolding ids keep by auto
  from Cons.IH [OF prems e(2), of sm1] obtain st' sm' where rest: "applyMerges ps (st1, sm1) = Inr (st', sm')"
    "\<forall>q \<in> set ps. \<exists>r \<in> set (candidate_reinforcement st'). candidate_id r = survivor_id q \<and> dup_content_hash r = pair_content_hash q" by blast
  have stays: "\<not> falls (links st) {dup_id p} (survivor_id p)" "\<not> falls (links st1) (dup_ids ps) (survivor_id p)"
    using Cons.prems(1) unfolding keep by auto
  obtain r where "r \<in> set (candidate_reinforcement st1)" "candidate_id r = survivor_id p" "dup_content_hash r = pair_content_hash p"
    using e(5) [OF stays(1)] by blast
  moreover have "\<forall>q \<in> set ps. unreviewed st1 (dup_id q)" using prems by blast
  note applyMerges_effect [OF rest(1) e(2) this]
  ultimately have "\<exists>r \<in> set (candidate_reinforcement st'). candidate_id r = survivor_id p \<and> dup_content_hash r = pair_content_hash p"
    using stays(2) by metis
  moreover have "applyMerges (p # ps) (st, sm) = Inr (st', sm')" using one rest(1) by simp
  ultimately show ?case using rest(2) by auto
qed simp

text \<open>Each duplicate that is no part below another one is counted.\<close>

lemma merges_counted:
  assumes "applyMerges ps (st, sm) = Inr (st', sm')" "store_ok st" "distinct (map dup_id ps)"
    and "\<forall>p \<in> set ps. unreviewed st (dup_id p) \<and> dup_id p \<in> fst ` set (row_keys st) \<and> \<not> hangs_below (links st) (dup_ids ps) (dup_id p)"
  shows "merged sm' = merged sm + length ps"
  using assms
proof (induction ps arbitrary: st sm)
  case (Cons p ps)
  obtain st1 sm1 where one: "applyMerge p (st, sm) = Inr (st1, sm1)" and rest: "applyMerges ps (st1, sm1) = Inr (st', sm')"
    using Cons.prems(1) by (auto simp: res_bind_Inr)
  have p: "unreviewed st (dup_id p)" "dup_id p \<in> fst ` set (row_keys st)" using Cons.prems(4) by simp_all
  note e = applyMerge_effect [OF one Cons.prems(2) p(1)]
  have sub: "set (links st1) \<subseteq> set (links st)" using links_filter [OF e(1)] by auto
  have "unreviewed st1 (dup_id q) \<and> dup_id q \<in> fst ` set (row_keys st1) \<and> \<not> hangs_below (links st1) (dup_ids ps) (dup_id q)" if q: "q \<in> set ps" for q
  proof -
    have "\<not> hangs_below (links st) (dup_ids (p # ps)) (dup_id q)" using Cons.prems(4) q by simp
    then have "\<not> hangs_below (links st) {dup_id p} (dup_id q)" "\<not> hangs_below (links st1) (dup_ids ps) (dup_id q)"
      using hangs_mono [of "links st" "{dup_id p}" "dup_id q" "links st" "dup_ids (p # ps)"]
        hangs_mono [OF _ sub, of "dup_ids ps" "dup_id q" "dup_ids (p # ps)"] by auto
    moreover have "dup_id q \<noteq> dup_id p" using Cons.prems(3) q by (auto simp: image_iff)
    ultimately have "\<not> falls (links st) {dup_id p} (dup_id q)" by (simp add: falls_iff)
    moreover have "dup_id q \<in> fst ` set (row_keys st)" "unreviewed st (dup_id q)" using Cons.prems(4) q by simp_all
    ultimately show ?thesis using \<open>\<not> hangs_below (links st1) (dup_ids ps) (dup_id q)\<close> unreviewed_filter [OF e(1)] unfolding e(1) by force
  qed
  with Cons.IH [OF rest e(2)] Cons.prems(3) e(6) p(2) show ?case by simp
qed simp

subsection \<open>A pass as a whole\<close>

text \<open>What the constraints and the index promise: ids are unique, every candidate has a source turn, a parent and the
  target of a reinforcement are rows of the table, a cosine distance is between 0 and 2, the index answers with a row it
  was offered, and the query returns its rows in some order.\<close>

definition pass_input ::
  "'e vector_index \<Rightarrow> ('e candidate \<Rightarrow> 'e candidate \<Rightarrow> rat) \<Rightarrow> (merge_row list \<Rightarrow> merge_row list) \<Rightarrow> 'e dedupe_store \<Rightarrow> bool" where
  "pass_input pick distance_of arrange st \<longleftrightarrow> index_sound pick \<and> store_ok st \<and>
     (\<forall>c \<in> set (candidate_memory st). source_turn_ids c \<noteq> []) \<and> (\<forall>c d. 0 \<le> distance_of c d \<and> distance_of c d \<le> 2) \<and>
     (\<forall>ps. mset (arrange ps) = mset ps)"

lemma pass_input_ids: "pass_input pick distance_of arrange st \<Longrightarrow> index_sound pick \<and> distinct (map cand_id (candidate_memory st))"
  by (simp add: pass_input_def store_ok_def row_ids)

lemma pass_pairs:
  assumes "pass_input pick distance_of arrange st"
    and "ps = arrange (selectMergePairs pick distance_of ns batch limit (candidate_memory st))"
  shows "set ps = set (selectMergePairs pick distance_of ns batch limit (candidate_memory st))"
    "distinct (map dup_id ps)" "store_ok st"
    "\<forall>p \<in> set ps. row_ok p \<and> survivor_id p \<in> fst ` set (row_keys st) \<and> unreviewed st (dup_id p) \<and> dup_id p \<in> fst ` set (row_keys st)"
proof -
  let ?ps = "selectMergePairs pick distance_of ns batch limit (candidate_memory st)"
  have i: "index_sound pick" "distinct (map cand_id (candidate_memory st))" using pass_input_ids [OF assms(1)] by simp_all
  have m: "mset ps = mset ?ps" using assms by (simp add: pass_input_def)
  show set: "set ps = set ?ps" by (rule mset_eq_setD [OF m])
  have "mset (map dup_id ps) = mset (map dup_id ?ps)" using m by simp
  then show "distinct (map dup_id ps)" using pair_ids [OF i] mset_eq_imp_distinct_iff by metis
  show "store_ok st" using assms(1) by (simp add: pass_input_def)
  show "\<forall>p \<in> set ps. row_ok p \<and> survivor_id p \<in> fst ` set (row_keys st) \<and> unreviewed st (dup_id p) \<and> dup_id p \<in> fst ` set (row_keys st)"
  proof
    fix p assume "p \<in> set ps"
    then have p: "p \<in> set ?ps" by (simp add: set)
    note f = pair_facts [OF i p]
    have "row_ok p" using f(1,2) assms(1) by (auto simp: row_ok_def pass_input_def)
    moreover have "survivor_id p \<in> fst ` set (row_keys st)" using f(3) unfolding in_ids by auto
    moreover obtain d where d: "d \<in> set (candidate_memory st)" "mergeable d" "cand_id d = dup_id p" using f(1) by blast
    have "unreviewed st (dup_id p)"
      unfolding unreviewed_def row_keys_def using d(2) same_id [OF i(2) d(1)] d(3) by (auto simp: mergeable_def)
    moreover have "dup_id p \<in> fst ` set (row_keys st)" using d(1,3) unfolding in_ids by auto
    ultimately show "row_ok p \<and> survivor_id p \<in> fst ` set (row_keys st) \<and> unreviewed st (dup_id p) \<and> dup_id p \<in> fst ` set (row_keys st)"
      by blast
  qed
qed

definition first_summary :: "string option \<Rightarrow> merge_row list \<Rightarrow> 'e dedupe_store \<Rightarrow> dedupe_summary" where
  "first_summary ns ps st = \<lparr>examined = length ps, merged = 0, reinforced = 0,
     skipped_no_embedding = length (filter (\<lambda>c. reviewed_at c = None \<and> embedding c = None \<and> (ns = None \<or> ns = Some (cand_namespace c)))
       (candidate_memory st))\<rparr>"

lemma pass_runs:
  assumes "ps = selectMergePairs pick distance_of ns batch limit (candidate_memory st)"
  shows "runCandidateDedupe pick distance_of arrange ns (Some batch) (Some limit) st =
    (case applyMerges (arrange ps) (st, first_summary ns (arrange ps) st) of
       Inl e \<Rightarrow> (st, Inl e) | Inr (st', summary) \<Rightarrow> (st', Inr summary))"
  by (simp add: runCandidateDedupe_def Let_def first_summary_def assms)

lemma committed_pass:
  assumes "pass_input pick distance_of arrange st"
    and "ps = selectMergePairs pick distance_of ns batch limit (candidate_memory st)"
    and "runCandidateDedupe pick distance_of arrange ns (Some batch) (Some limit) st = (st', Inr summary)"
  shows "row_keys st' = filter (\<lambda>k. \<not> falls (links st) (dup_ids ps) (fst k)) (row_keys st)" "store_ok st'"
    "set (candidate_reinforcement st') \<subseteq> set (candidate_reinforcement st) \<union> reinforcement_row ` set ps"
    "\<And>r. r \<in> set (candidate_reinforcement st') \<Longrightarrow> \<not> falls (links st) (dup_ids ps) (candidate_id r)"
proof -
  note q = pass_pairs [OF assms(1), of "arrange ps" ns batch limit, folded assms(2), OF refl]
  have u: "\<forall>p \<in> set (arrange ps). unreviewed st (dup_id p)" using q(4) by blast
  have "applyMerges (arrange ps) (st, first_summary ns (arrange ps) st) = Inr (st', summary)"
    using assms(3) unfolding pass_runs [OF assms(2)] by (simp split: sum.splits prod.splits)
  note e = applyMerges_effect [OF this q(3) u, unfolded q(1)]
  from e show k: "row_keys st' = filter (\<lambda>k. \<not> falls (links st) (dup_ids ps) (fst k)) (row_keys st)"
    and ok: "store_ok st'" and "set (candidate_reinforcement st') \<subseteq> set (candidate_reinforcement st) \<union> reinforcement_row ` set ps"
    by simp_all
  show "\<not> falls (links st) (dup_ids ps) (candidate_id r)" if "r \<in> set (candidate_reinforcement st')" for r
    using ok that unfolding store_ok_def k by force
qed

text \<open>C39: what a pass of at most 33 merges does. Let no survivor be a part, directly or through others, of a row that the
  pass merges. Then, whatever the vector index answers and in whatever order the rows come, the transaction commits; exactly
  the duplicates and the rows that are parts of them are deleted; and the restatement of each duplicate is kept as a
  reinforcement of a row that survives. When no duplicate is a part of another one, all of them are counted as merged.
  The parts that go are merged into nothing: no pair names them.\<close>

theorem merge_pass_outcome:
  assumes "pass_input pick distance_of arrange st"
    and "ps = selectMergePairs pick distance_of ns batch limit (candidate_memory st)" "length ps \<le> 33"
    and "\<And>p. p \<in> set ps \<Longrightarrow> \<not> hangs_below (links st) (dup_ids ps) (survivor_id p)"
  shows "\<exists>st' summary. runCandidateDedupe pick distance_of arrange ns (Some batch) (Some limit) st = (st', Inr summary) \<and>
    examined summary = length ps \<and>
    map cand_id (candidate_memory st') =
      filter (\<lambda>i. \<not> (i \<in> dup_ids ps \<or> hangs_below (links st) (dup_ids ps) i)) (map cand_id (candidate_memory st)) \<and>
    (\<forall>p \<in> set ps. survivor_id p \<in> cand_id ` set (candidate_memory st') \<and>
       (\<exists>r \<in> set (candidate_reinforcement st'). candidate_id r = survivor_id p \<and> dup_content_hash r = pair_content_hash p)) \<and>
    ((\<forall>p \<in> set ps. \<not> hangs_below (links st) (dup_ids ps) (dup_id p)) \<longrightarrow> merged summary = length ps)"
proof -
  let ?qs = "arrange ps"
  have i: "index_sound pick" "distinct (map cand_id (candidate_memory st))" using pass_input_ids [OF assms(1)] by simp_all
  note q = pass_pairs [OF assms(1), of ?qs ns batch limit, folded assms(2), OF refl]
  have len: "length ?qs = length ps" using assms(1) by (metis pass_input_def size_mset)
  have stays: "\<not> falls (links st) (dup_ids ps) (survivor_id p)" if "p \<in> set ps" for p
    using few_pairs_terminal [OF i, of distance_of ns batch limit, folded assms(2)] assms(3,4) that unfolding falls_iff by blast
  then have "\<forall>p \<in> set ?qs. row_ok p \<and> survivor_id p \<in> fst ` set (row_keys st) \<and> \<not> falls (links st) (dup_ids ?qs) (survivor_id p) \<and>
      unreviewed st (dup_id p)" using q(1,4) by simp
  from merges_work [OF this q(3), of "first_summary ns ?qs st"] obtain st' sm where
    run: "applyMerges ?qs (st, first_summary ns ?qs st) = Inr (st', sm)"
    "\<forall>p \<in> set ?qs. \<exists>r \<in> set (candidate_reinforcement st'). candidate_id r = survivor_id p \<and> dup_content_hash r = pair_content_hash p" by blast
  have pass: "runCandidateDedupe pick distance_of arrange ns (Some batch) (Some limit) st = (st', Inr sm)"
    unfolding pass_runs [OF assms(2)] using run(1) by simp
  note keys = committed_pass(1) [OF assms(1,2) pass]
  have ids: "map cand_id (candidate_memory st') = filter (\<lambda>i. \<not> falls (links st) (dup_ids ps) i) (map cand_id (candidate_memory st))"
    using arg_cong [OF keys, of "map fst"] by (simp add: row_ids flip: filter_map [unfolded comp_def]) (simp add: row_keys_def filter_map comp_def)
  have "survivor_id p \<in> cand_id ` set (candidate_memory st')" if p: "p \<in> set ps" for p
  proof -
    have "survivor_id p \<in> set (map cand_id (candidate_memory st))" using q(1,4) p unfolding row_ids [symmetric] by simp
    then have "survivor_id p \<in> set (map cand_id (candidate_memory st'))" unfolding ids using stays [OF p] by simp
    then show ?thesis by simp
  qed
  moreover have "\<forall>p \<in> set ?qs. unreviewed st (dup_id p)" using q(4) by blast
  with applyMerges_effect [OF run(1) q(3)] have "examined sm = length ps" by (simp add: first_summary_def len)
  moreover have "merged sm = length ps" if "\<forall>p \<in> set ps. \<not> hangs_below (links st) (dup_ids ps) (dup_id p)"
    using merges_counted [OF run(1) q(3,2)] that q(1,4) by (simp add: first_summary_def len)
  ultimately show ?thesis using pass ids run(2) q(1) by (intro exI [of _ st'] exI [of _ sm]) (simp add: falls_iff)
qed

text \<open>A duplicate that is the head of a split exchange takes its parts with it: the rows that hang below it are deleted,
  reviewed or not, and neither they nor what reinforced them is kept anywhere. The comment on the pass says that only
  unreviewed candidates are touched and that nothing is lost.\<close>

theorem merged_head_loses_its_parts:
  assumes "pass_input pick distance_of arrange st"
    and "ps = selectMergePairs pick distance_of ns batch limit (candidate_memory st)"
    and "runCandidateDedupe pick distance_of arrange ns (Some batch) (Some limit) st = (st', Inr summary)"
    and "c \<in> set (candidate_memory st)" "hangs_below (links st) (dup_ids ps) (cand_id c)"
  shows "cand_id c \<notin> cand_id ` set (candidate_memory st')" "cand_id c \<notin> candidate_id ` set (candidate_reinforcement st')"
    "content_hash c \<notin> dup_content_hash ` set (candidate_reinforcement st) \<union> pair_content_hash ` set ps \<Longrightarrow>
      content_hash c \<notin> dup_content_hash ` set (candidate_reinforcement st')"
proof -
  note m = committed_pass [OF assms(1-3)]
  have f: "falls (links st) (dup_ids ps) (cand_id c)" using assms(5) by (simp add: falls_iff)
  have "cand_id c \<notin> fst ` set (row_keys st')" using f unfolding m(1) by auto
  then show "cand_id c \<notin> cand_id ` set (candidate_memory st')" unfolding in_ids by auto
  show "cand_id c \<notin> candidate_id ` set (candidate_reinforcement st')" using m(4) f by auto
  assume "content_hash c \<notin> dup_content_hash ` set (candidate_reinforcement st) \<union> pair_content_hash ` set ps"
  then show "content_hash c \<notin> dup_content_hash ` set (candidate_reinforcement st')"
    using m(3) by (fastforce simp: reinforcement_row_def)
qed

text \<open>An absorbed candidate takes its own reinforcements with it. When a candidate that absorbed a restatement in an
  earlier pass is itself merged, the row of that restatement is deleted by the cascade and not moved to the survivor:
  no row of the table after the pass carries its hash.\<close>

theorem absorbed_candidate_loses_its_reinforcements:
  assumes "pass_input pick distance_of arrange st"
    and "ps = selectMergePairs pick distance_of ns batch limit (candidate_memory st)"
    and "runCandidateDedupe pick distance_of arrange ns (Some batch) (Some limit) st = (st', Inr summary)"
    and "p \<in> set ps" "r \<in> set (candidate_reinforcement st)" "candidate_id r = dup_id p"
    and "dup_content_hash r \<notin> pair_content_hash ` set ps"
    and "\<And>x. x \<in> set (candidate_reinforcement st) \<Longrightarrow> dup_content_hash x = dup_content_hash r \<Longrightarrow> candidate_id x = dup_id p"
  shows "dup_content_hash r \<notin> dup_content_hash ` set (candidate_reinforcement st')"
proof
  note m = committed_pass [OF assms(1-3)]
  assume "dup_content_hash r \<in> dup_content_hash ` set (candidate_reinforcement st')"
  then obtain x where x: "x \<in> set (candidate_reinforcement st')" "dup_content_hash x = dup_content_hash r" by auto
  show False
  proof (cases "x \<in> set (candidate_reinforcement st)")
    case True
    then have "candidate_id x = dup_id p" using assms(8) x by blast
    then have "falls (links st) (dup_ids ps) (candidate_id x)" using assms(4) by (auto intro: falls.root)
    with m(4) [OF x(1)] show False by simp
  next
    case False
    with x(1) m(3) obtain p' where "p' \<in> set ps" "x = reinforcement_row p'" by blast
    then have "dup_content_hash r \<in> pair_content_hash ` set ps" using x(2) by (force simp: reinforcement_row_def)
    with assms(7) show False by simp
  qed
qed

text \<open>A survivor that goes breaks the pass. When the survivor the walk reaches is itself a duplicate of the pass, which takes
  34 edges, or a part of one, either the pass throws and is rolled back, or it commits and no row points at that
  survivor any more: the restatement is in neither table.\<close>

theorem lost_survivor_loses_the_restatement:
  assumes "pass_input pick distance_of arrange st"
    and "ps = selectMergePairs pick distance_of ns batch limit (candidate_memory st)"
    and "p \<in> set ps" "survivor_id p \<in> dup_ids ps \<or> hangs_below (links st) (dup_ids ps) (survivor_id p)"
  shows "case runCandidateDedupe pick distance_of arrange ns (Some batch) (Some limit) st of
      (st', Inl e) \<Rightarrow> st' = st
    | (st', Inr summary) \<Rightarrow> dup_id p \<notin> cand_id ` set (candidate_memory st') \<and> survivor_id p \<notin> candidate_id ` set (candidate_reinforcement st')"
proof (cases "applyMerges (arrange ps) (st, first_summary ns (arrange ps) st)")
  case (Inl e)
  then show ?thesis unfolding pass_runs [OF assms(2)] by simp
next
  case (Inr x)
  obtain st' summary where x: "x = (st', summary)" by fastforce
  have run: "runCandidateDedupe pick distance_of arrange ns (Some batch) (Some limit) st = (st', Inr summary)"
    unfolding pass_runs [OF assms(2)] using Inr x by simp
  note m = committed_pass [OF assms(1,2) run]
  have "falls (links st) (dup_ids ps) (dup_id p)" using assms(3) by (auto intro: falls.root)
  then have "dup_id p \<notin> fst ` set (row_keys st')" unfolding m(1) by auto
  then have "dup_id p \<notin> cand_id ` set (candidate_memory st')" unfolding in_ids by auto
  moreover have "falls (links st) (dup_ids ps) (survivor_id p)" using assms(4) by (simp only: falls_iff)
  then have "survivor_id p \<notin> candidate_id ` set (candidate_reinforcement st')" using m(4) by auto
  ultimately show ?thesis unfolding run by simp
qed

subsection \<open>Witnesses\<close>

definition demo_candidate :: "nat \<Rightarrow> int candidate" where
  "demo_candidate n = \<lparr>cand_id = n, cand_namespace = ''n'', content_hash = replicate n (CHR ''h''), embedding = Some 0, cand_model = None,
     first_said_at = Some (int n), last_said_at = None, cand_created_at = 0, reviewed_at = None, source_turn_ids = [''t''],
     cand_parent = None\<rparr>"

definition demo_memory :: "nat \<Rightarrow> int dedupe_store" where
  "demo_memory n = \<lparr>candidate_memory = map demo_candidate [1 ..< n + 1], candidate_reinforcement = []\<rparr>"

text \<open>An exact index over equal embeddings that prefers the newest of the older rows.\<close>

definition demo_pick :: "int vector_index" where
  "demo_pick d cs = (if cs = [] then None else Some (last cs))"

definition demo_distance :: "int candidate \<Rightarrow> int candidate \<Rightarrow> rat" where
  "demo_distance c d = (case (embedding c, embedding d) of (Some a, Some b) \<Rightarrow> if a = b then 0 else 1 | _ \<Rightarrow> 1)"

lemma demo_memory_input: "pass_input demo_pick demo_distance (\<lambda>ps. ps) (demo_memory n)"
  by (auto simp: pass_input_def store_ok_def row_keys_def links_of_def index_sound_def demo_pick_def demo_distance_def demo_memory_def
      demo_candidate_def comp_def split: option.splits)

definition demo_pass :: "nat \<Rightarrow> int dedupe_store \<Rightarrow> int dedupe_store \<times> dedupe_summary result" where
  "demo_pass batch st = runCandidateDedupe demo_pick demo_distance (\<lambda>ps. ps) None (Some batch) (Some CANDIDATE_DUP_DISTANCE) st"

text \<open>Three equal candidates, the second of them the head of an exchange with another part.\<close>

definition demo_part :: "int candidate" where
  "demo_part = (demo_candidate 90)\<lparr>content_hash := ''part'', embedding := None, reviewed_at := Some 5, cand_parent := Some 2\<rparr>"

definition demo_split :: "int dedupe_store" where
  "demo_split = \<lparr>candidate_memory = [demo_candidate 1, demo_candidate 2, demo_candidate 3, demo_part], candidate_reinforcement = []\<rparr>"

lemma demo_split_links: "links demo_split = [(1, None), (2, None), (3, None), (90, Some 2)]"
  by (simp add: links_of_def row_keys_def demo_split_def demo_candidate_def demo_part_def)

lemma demo_split_input: "pass_input demo_pick demo_distance (\<lambda>ps. ps) demo_split"
proof -
  have "store_ok demo_split"
    by (simp add: store_ok_def demo_split_links) (simp add: row_keys_def demo_split_def demo_candidate_def demo_part_def)
  then show ?thesis using demo_memory_input [of 0]
    by (auto simp: pass_input_def demo_split_def demo_candidate_def demo_part_def)
qed

lemma demo_split_hangs: "hangs_below (links demo_split) D i \<longleftrightarrow> i = 90 \<and> 2 \<in> D"
proof -
  have "\<not> hangs_below (links demo_split) D 2" by (simp add: hangs_below_def demo_split_links)
  then have "falls (links demo_split) D 2 \<longleftrightarrow> 2 \<in> D" by (simp add: falls_iff [of _ _ 2])
  then show ?thesis unfolding hangs_below_def by (auto simp: demo_split_links)
qed

lemma demo_split_pairs:
  obtains p q where "selectMergePairs demo_pick demo_distance None 200 CANDIDATE_DUP_DISTANCE (candidate_memory demo_split) = [p, q]"
    "dup_id p = 3" "dup_id q = 2" "survivor_id p = 1" "survivor_id q = 1"
proof -
  have "map (\<lambda>p. (dup_id p, survivor_id p))
      (selectMergePairs demo_pick demo_distance None 200 CANDIDATE_DUP_DISTANCE (candidate_memory demo_split)) = [(3, 1), (2, 1)]"
    by code_simp
  then show thesis using that by auto
qed

lemma demo_split_ids: "map cand_id (candidate_memory demo_split) = [1, 2, 3, 90]"
  by (simp add: demo_split_def demo_candidate_def demo_part_def)

theorem merge_pass_outcome_witness:
  "map cand_id (candidate_memory (fst (demo_pass 200 demo_split))) = [1] \<and>
   (\<exists>summary. snd (demo_pass 200 demo_split) = Inr summary \<and> merged summary = 2)"
proof -
  obtain p q where ps: "selectMergePairs demo_pick demo_distance None 200 CANDIDATE_DUP_DISTANCE (candidate_memory demo_split) = [p, q]"
    "dup_id p = 3" "dup_id q = 2" "survivor_id p = 1" "survivor_id q = 1" by (rule demo_split_pairs)
  have "\<not> hangs_below (links demo_split) (dup_ids [p, q]) (survivor_id x)" if "x \<in> set [p, q]" for x
    using that ps(4,5) by (auto simp: demo_split_hangs)
  from merge_pass_outcome [OF demo_split_input ps(1) [symmetric] _ this] obtain st' summary where
    "demo_pass 200 demo_split = (st', Inr summary)"
    "map cand_id (candidate_memory st') = filter (\<lambda>i. \<not> (i \<in> dup_ids [p, q] \<or> hangs_below (links demo_split) (dup_ids [p, q]) i)) [1, 2, 3, 90]"
    "(\<forall>x \<in> set [p, q]. \<not> hangs_below (links demo_split) (dup_ids [p, q]) (dup_id x)) \<longrightarrow> merged summary = 2"
    unfolding demo_pass_def demo_split_ids by auto
  then show ?thesis using ps(2,3) by (simp add: demo_split_hangs)
qed

theorem merged_head_loses_its_parts_witness:
  "90 \<notin> cand_id ` set (candidate_memory (fst (demo_pass 200 demo_split)))"
proof -
  obtain p q where ps: "selectMergePairs demo_pick demo_distance None 200 CANDIDATE_DUP_DISTANCE (candidate_memory demo_split) = [p, q]"
    "dup_id p = 3" "dup_id q = 2" "survivor_id p = 1" "survivor_id q = 1" by (rule demo_split_pairs)
  have "\<not> isl (snd (demo_pass 200 demo_split))" by code_simp
  then obtain st' summary where run: "demo_pass 200 demo_split = (st', Inr summary)" by (metis isl_def prod.collapse sum.exhaust_sel)
  have "demo_part \<in> set (candidate_memory demo_split)" "cand_id demo_part = 90"
    by (simp_all add: demo_split_def demo_part_def demo_candidate_def)
  with merged_head_loses_its_parts(1) [OF demo_split_input ps(1) [symmetric] run [unfolded demo_pass_def], of demo_part]
  show ?thesis by (simp add: demo_split_hangs ps(3) run)
qed

definition demo_second :: "int dedupe_store" where
  "demo_second = fst (demo_pass 1 (demo_memory 3))"

theorem absorbed_candidate_loses_its_reinforcements_witness:
  "map dup_content_hash (candidate_reinforcement demo_second) = [''hhh''] \<and>
   map cand_id (candidate_memory (fst (demo_pass 1 demo_second))) = [1] \<and>
   ''hhh'' \<notin> dup_content_hash ` set (candidate_reinforcement (fst (demo_pass 1 demo_second)))"
proof -
  let ?ps = "selectMergePairs demo_pick demo_distance None 1 CANDIDATE_DUP_DISTANCE (candidate_memory demo_second)"
  have mem: "candidate_memory demo_second = [demo_candidate 1, demo_candidate 2\<lparr>last_said_at := Some 3\<rparr>]" by code_simp
  obtain r where r: "candidate_reinforcement demo_second = [r]" "dup_content_hash r = ''hhh''" "candidate_id r = 2"
  proof -
    have "map (\<lambda>r. (dup_content_hash r, candidate_id r)) (candidate_reinforcement demo_second) = [(''hhh'', 2)]" by code_simp
    then show thesis using that by auto
  qed
  have input: "pass_input demo_pick demo_distance (\<lambda>ps. ps) demo_second"
    using demo_memory_input [of 0] r by (auto simp: pass_input_def store_ok_def row_keys_def links_of_def mem demo_candidate_def)
  have ps: "map (\<lambda>p. (dup_id p, pair_content_hash p)) ?ps = [(2, ''hh'')]" by code_simp
  then obtain p where p: "?ps = [p]" "dup_id p = 2" "pair_content_hash p = ''hh''" by auto
  have run: "map cand_id (candidate_memory (fst (demo_pass 1 demo_second))) = [1] \<and> isl (snd (demo_pass 1 demo_second)) = False"
    by code_simp
  then obtain st' summary where st': "demo_pass 1 demo_second = (st', Inr summary)"
    by (metis isl_def prod.collapse sum.exhaust_sel)
  from absorbed_candidate_loses_its_reinforcements [OF input refl st' [unfolded demo_pass_def], of p r] p r run st'
  show ?thesis by simp
qed

text \<open>The memory of \<open>n\<close> equal candidates is one chain of \<open>n - 1\<close> edges.\<close>

lemma demo_near:
  assumes "2 \<le> k" "k \<le> n" "n \<le> batch" "0 \<le> limit"
  shows "(demo_candidate k, k - 1, 0) \<in> set (near_of demo_pick demo_distance None batch limit (candidate_memory (demo_memory n)))"
proof -
  let ?mem = "candidate_memory (demo_memory n)"
  have strictly_older: "strictly_older (demo_candidate i) (demo_candidate j) \<longleftrightarrow> i < j" for i j
    by (auto simp: strictly_older_def said_at_def demo_candidate_def)
  have m: "mergeable (demo_candidate i)" for i by (simp add: mergeable_def demo_candidate_def)
  have "scoped None ?mem = ?mem" by (simp add: scoped_def demo_memory_def m)
  then have "set (dups None batch ?mem) = set ?mem" using assms(3) by (simp add: dups_def demo_memory_def)
  moreover have "k \<in> set [1 ..< n + 1]" unfolding set_upt using assms(1,2) by auto
  then have "demo_candidate k \<in> set ?mem" unfolding demo_memory_def by (simp only: dedupe_store.select_convs set_map) (rule imageI)
  ultimately have d: "demo_candidate k \<in> set (dups None batch ?mem)" by simp
  have split: "[1 ..< n + 1] = [1 ..< k] @ [k ..< n + 1]" using assms(1,2) by (metis le_add1 upt_add_eq_append le_add_diff_inverse
      Suc_eq_plus1 le_SucI one_le_numeral order_trans)
  have "filter (\<lambda>c. mergeable c \<and> cand_namespace c = cand_namespace (demo_candidate k) \<and> strictly_older c (demo_candidate k)) ?mem =
      map demo_candidate (filter (\<lambda>i. i < k) [1 ..< n + 1])"
    by (simp add: demo_memory_def filter_map comp_def strictly_older m) (simp add: demo_candidate_def)
  also have "filter (\<lambda>i. i < k) [1 ..< n + 1] = [1 ..< k]" unfolding split by (auto simp: filter_empty_conv filter_id_conv)
  finally have f: "demo_pick (demo_candidate k)
      (filter (\<lambda>c. mergeable c \<and> cand_namespace c = cand_namespace (demo_candidate k) \<and> strictly_older c (demo_candidate k)) ?mem) =
      Some (demo_candidate (k - 1))"
    using assms(1) by (simp add: demo_pick_def last_map)
  have "demo_distance (demo_candidate (k - 1)) (demo_candidate k) = 0" "cand_id (demo_candidate (k - 1)) = k - 1"
    by (simp_all add: demo_distance_def demo_candidate_def)
  then show ?thesis unfolding nearest_def List.map_filter_def using d f assms(4) by force
qed

lemma descending_walk:
  "(\<And>k. 2 \<le> k \<Longrightarrow> k \<le> n \<Longrightarrow> e k = Some (k - 1)) \<Longrightarrow> x \<le> n \<Longrightarrow> j < x \<Longrightarrow> chain_walk e j x = x - j"
  by (induction j arbitrary: x) auto

theorem lost_survivor_loses_the_restatement_witness:
  "case demo_pass 200 (demo_memory 35) of
      (st', Inl e) \<Rightarrow> st' = demo_memory 35
    | (st', Inr summary) \<Rightarrow> 35 \<notin> cand_id ` set (candidate_memory st') \<and> 2 \<notin> candidate_id ` set (candidate_reinforcement st')"
proof -
  let ?mem = "candidate_memory (demo_memory 35)"
  let ?near = "near_of demo_pick demo_distance None 200 CANDIDATE_DUP_DISTANCE ?mem"
  let ?ps = "selectMergePairs demo_pick demo_distance None 200 CANDIDATE_DUP_DISTANCE ?mem"
  have i: "index_sound demo_pick" "distinct (map cand_id ?mem)" using pass_input_ids [OF demo_memory_input [of 35]] by simp_all
  have near: "(demo_candidate k, k - 1, 0) \<in> set ?near" if "2 \<le> k" "k \<le> 35" for k
    using demo_near [OF that, of 200] by (simp add: CANDIDATE_DUP_DISTANCE_def)
  have ident: "cand_id (demo_candidate k) = k" for k by (simp add: demo_candidate_def)
  have "survivor_edge ?near k = Some (k - 1)" if "2 \<le> k" "k \<le> 35" for k
    using edge_of [OF i(2) near [OF that]] by (simp add: ident)
  then have chain_walk: "chain_walk (survivor_edge ?near) 32 34 = 2" using descending_walk [of 35 "survivor_edge ?near" 34 32] by simp
  have "\<exists>p \<in> set ?ps. dup_id p = k \<and> survivor_id p = chain_walk (survivor_edge ?near) 32 (k - 1)" if "2 \<le> k" "k \<le> 35" for k
    unfolding pairs_map [OF i] Let_def using near [OF that] by (force simp: ident)
  from this [of 35] this [of 2] chain_walk obtain p p' where "p \<in> set ?ps" "dup_id p = 35" "survivor_id p = 2" "p' \<in> set ?ps" "dup_id p' = 2"
    by auto
  with lost_survivor_loses_the_restatement [OF demo_memory_input refl, of p None 200 CANDIDATE_DUP_DISTANCE 35] show ?thesis
    by (simp add: demo_pass_def)
qed

end
