(* ===== verification/DistillExchange.thy ===== *)
theory DistillExchange
  imports DistillWindow
begin

text \<open>
  Exchange distillation (\<open>server/maintenance/distill-exchange.ts\<close>, \<open>distill-exchange-run.ts\<close>): turns are cut into
  exchanges headed by the operator, rendered in parts, classified and written. With it the turns of
  \<open>domain/distill-window.ts\<close> and the noise filter of \<open>capture/ingest-raw-turn.ts\<close>.

  Regular expressions are read as what they match, over the 8-bit characters; the dash of the harness trailer is its
  ASCII form. The content hash, the embedding provider and the database identifiers are arguments.
\<close>

subsection \<open>Operator turns\<close>

definition nl :: char where "nl = CHR 0x0A"
definition tab :: char where "tab = CHR 0x09"
definition quote :: char where "quote = CHR 0x22"

definition AUQ_ANSWER_PREFIX :: string where
  "AUQ_ANSWER_PREFIX = ''The user answered:''"

definition isAskUserQuestionAnswer :: "distill_turn \<Rightarrow> bool" where
  "isAskUserQuestionAnswer t = (turn_role t = ''tool'' \<and> starts_with AUQ_ANSWER_PREFIX (trim_start (turn_content t)))"

definition isOperatorTurn :: "distill_turn \<Rightarrow> bool" where
  "isOperatorTurn t = (is_human_prompt t \<or> isAskUserQuestionAnswer t)"

datatype anchorKind = Typed | Askuserquestion | Orphan

definition anchorKindOf :: "distill_turn option \<Rightarrow> anchorKind" where
  "anchorKindOf a = (case a of None \<Rightarrow> Orphan | Some t \<Rightarrow> if is_human_prompt t then Typed else Askuserquestion)"

subsection \<open>Text\<close>

fun find_sub :: "string \<Rightarrow> string \<Rightarrow> nat option" where
  "find_sub needle [] = (if needle = [] then Some 0 else None)"
| "find_sub needle (c # cs) = (if starts_with needle (c # cs) then Some 0 else map_option Suc (find_sub needle cs))"

text \<open>\<open>s.indexOf(needle, i)\<close>.\<close>

definition index_from :: "string \<Rightarrow> nat \<Rightarrow> string \<Rightarrow> nat option" where
  "index_from needle i s = map_option (\<lambda>k. i + k) (find_sub needle (drop i s))"

text \<open>\<open>replace(/[ \t]+/g, " ")\<close>, then \<open>replace(/\n{3,}/g, "\n\n")\<close>: the argument counts the line feeds kept in the run.\<close>

fun collapse_blanks :: "bool \<Rightarrow> string \<Rightarrow> string" where
  "collapse_blanks inside [] = []"
| "collapse_blanks inside (c # cs) =
     (if c = CHR '' '' \<or> c = tab then (if inside then collapse_blanks True cs else CHR '' '' # collapse_blanks True cs)
      else c # collapse_blanks False cs)"

fun collapse_lines :: "nat \<Rightarrow> string \<Rightarrow> string" where
  "collapse_lines n [] = []"
| "collapse_lines n (c # cs) =
     (if c = nl then (if n \<ge> 2 then collapse_lines n cs else c # collapse_lines (n + 1) cs) else c # collapse_lines 0 cs)"

definition normalizeWhitespace :: "string \<Rightarrow> string" where
  "normalizeWhitespace s = trim (collapse_lines 0 (collapse_blanks False s))"

subsection \<open>AskUserQuestion\<close>

text \<open>The trailer matches from here to the end of the text.\<close>

definition skip_ws_then :: "string \<Rightarrow> string \<Rightarrow> string option" where
  "skip_ws_then word s = (let r = dropWhile js_ws s in if starts_with word r then Some (drop (length word) r) else None)"

definition auq_trailer_here :: "string \<Rightarrow> bool" where
  "auq_trailer_here s =
     (case Option.bind (skip_ws_then ''Read the answers carefully'' s) (\<lambda>a.
           Option.bind (skip_ws_then ''--'' a) (\<lambda>b.
           Option.bind (skip_ws_then ''they may request clarification, changes, or that you not proceed'' b) (\<lambda>c.
           Option.bind (skip_ws_then ''--'' c) (\<lambda>d.
             skip_ws_then ''and follow what they actually say.'' d)))) of
        None \<Rightarrow> False | Some r \<Rightarrow> list_all js_ws r)"

fun strip_auq_trailer :: "string \<Rightarrow> string" where
  "strip_auq_trailer [] = []"
| "strip_auq_trailer (c # cs) = (if auq_trailer_here (c # cs) then [] else c # strip_auq_trailer cs)"

record auq_pair =
  auq_question :: string
  auq_answer :: "string option"
  auq_notes :: "string option"

definition AUQ_NO_OPTION :: string where "AUQ_NO_OPTION = ''(no option selected)''"

definition auqBodyOf :: "string \<Rightarrow> string option" where
  "auqBodyOf content =
     (let trimmed = trim_start content
      in if \<not> starts_with AUQ_ANSWER_PREFIX trimmed then None
         else let body = trim (strip_auq_trailer (drop (length AUQ_ANSWER_PREFIX) trimmed))
              in if body = [] then None else Some body)"

definition or_null :: "string \<Rightarrow> string option" where
  "or_null s = (if s = [] then None else Some s)"

definition pair_separator :: string where
  "pair_separator = [CHR '','', CHR '' '', quote]"

definition scanAuqAnswer :: "string \<Rightarrow> nat \<Rightarrow> (string option \<times> nat) option" where
  "scanAuqAnswer body cursor =
     (if starts_with [quote] (drop cursor body) then
        (case index_from [quote] (cursor + 1) body of None \<Rightarrow> None
         | Some aEnd \<Rightarrow> Some (Some (slice (cursor + 1) aEnd body), aEnd + 1))
      else if starts_with AUQ_NO_OPTION (drop cursor body) then Some (None, cursor + length AUQ_NO_OPTION)
      else let stop = (case index_from pair_separator cursor body of None \<Rightarrow> length body | Some n \<Rightarrow> n)
           in Some (or_null (trim (slice cursor stop body)), stop))"

definition scanAuqNotes :: "string \<Rightarrow> nat \<Rightarrow> string option \<times> nat" where
  "scanAuqNotes body cursor =
     (let rest = drop cursor body
      in case skip_ws_then ''notes:'' rest of None \<Rightarrow> (None, cursor)
         | Some r \<Rightarrow>
             let after = dropWhile js_ws r;
                 span = (case find_sub pair_separator after of None \<Rightarrow> length after | Some n \<Rightarrow> n)
             in (or_null (trim (take span after)), cursor + (length rest - length after) + span))"

text \<open>The scan of the pairs. The cursor only moves forward.\<close>

lemma find_sub_le: "find_sub needle s = Some k \<Longrightarrow> k + length needle \<le> length s"
proof (induction s arbitrary: k)
  case (Cons c cs)
  show ?case
  proof (cases "starts_with needle (c # cs)")
    case True
    with Cons.prems have "k = 0" by simp
    moreover have "length needle \<le> length (c # cs)" using True by (metis nat_le_linear starts_with_def take_all length_take min.cobounded1 order_refl)
    ultimately show ?thesis by simp
  next
    case False
    with Cons show ?thesis by auto
  qed
qed (auto split: if_splits)

lemma index_from_bounds:
  assumes "index_from needle i s = Some k" "needle \<noteq> []"
  shows "i \<le> k" "k + length needle \<le> length s"
proof -
  obtain n where n: "find_sub needle (drop i s) = Some n" "k = i + n" using assms(1) by (auto simp: index_from_def)
  then show "i \<le> k" by simp
  have "n + length needle \<le> length s - i" using find_sub_le [OF n(1)] by simp
  moreover have "0 < length needle" using assms(2) by simp
  ultimately show "k + length needle \<le> length s" using n(2) by linarith
qed

lemma scanAuqAnswer_forward: "scanAuqAnswer body cursor = Some (v, c) \<Longrightarrow> cursor \<le> length body \<Longrightarrow> cursor \<le> c"
  by (auto simp: scanAuqAnswer_def Let_def pair_separator_def dest: index_from_bounds(1) split: if_splits option.splits)

lemma scanAuqNotes_forward: "scanAuqNotes body cursor = (v, c) \<Longrightarrow> cursor \<le> c"
  by (auto simp: scanAuqNotes_def Let_def split: option.splits)

function parse_pairs :: "string \<Rightarrow> nat \<Rightarrow> auq_pair list" where
  "parse_pairs body i =
     (case index_from [quote] i body of None \<Rightarrow> []
      | Some qStart \<Rightarrow>
        (case index_from [quote] (qStart + 1) body of None \<Rightarrow> []
         | Some qEnd \<Rightarrow>
           if \<not> starts_with ''='' (drop (qEnd + 1) body) then parse_pairs body (qEnd + 1)
           else (case scanAuqAnswer body (qEnd + 2) of None \<Rightarrow> []
             | Some (answer, afterAnswer) \<Rightarrow>
               (case scanAuqNotes body afterAnswer of (noted, afterNotes) \<Rightarrow>
                  \<lparr>auq_question = slice (qStart + 1) qEnd body, auq_answer = answer, auq_notes = noted\<rparr>
                  # (case index_from pair_separator afterNotes body of None \<Rightarrow> []
                     | Some nextPair \<Rightarrow> parse_pairs body (nextPair + 2))))))"
  by pat_completeness auto
termination
proof (relation "measure (\<lambda>(body, i). length body - i)", goal_cases)
  case (2 body i qStart qEnd)
  with index_from_bounds [of "[quote]" i body qStart] index_from_bounds [of "[quote]" "qStart + 1" body qEnd]
  show ?case by simp
next
  case (3 body i qStart qEnd x answer afterAnswer noted afterNotes nextPair)
  have "qEnd + 2 \<le> length body" using 3(3) by (auto simp: starts_with_def) (metis Suc_leI leI length_drop list.size(3) diff_is_0_eq drop_all take_Nil neq_Nil_conv not_Cons_self2 Suc_eq_plus1)
  with 3 index_from_bounds [of "[quote]" i body qStart] index_from_bounds [of "[quote]" "qStart + 1" body qEnd]
    scanAuqAnswer_forward [of body "qEnd + 2" answer afterAnswer] scanAuqNotes_forward [of body afterAnswer noted afterNotes]
    index_from_bounds [of pair_separator afterNotes body nextPair]
  show ?case by (simp add: pair_separator_def)
qed simp

declare parse_pairs.simps [simp del]

definition parseAskUserQuestion :: "string \<Rightarrow> auq_pair list" where
  "parseAskUserQuestion content = (case auqBodyOf content of None \<Rightarrow> [] | Some body \<Rightarrow> parse_pairs body 0)"

definition auq_lines :: "auq_pair \<Rightarrow> string list" where
  "auq_lines p = [''CHOSE: '' @ (case auq_answer p of Some a \<Rightarrow> a | None \<Rightarrow> ''(none of the options offered)'')] @
     (case auq_notes p of Some n \<Rightarrow> if n = [] then [] else [''NOTED: '' @ n] | None \<Rightarrow> []) @
     [''(agent asked: '' @ auq_question p @ '')'']"

definition renderAskUserQuestionHead :: "string \<Rightarrow> string" where
  "renderAskUserQuestionHead content =
     (let pairs = parseAskUserQuestion content
      in if pairs = [] then
           normalizeWhitespace (let t = trim_start content
             in strip_auq_trailer (if starts_with AUQ_ANSWER_PREFIX t then drop (length AUQ_ANSWER_PREFIX) t else t))
         else normalizeWhitespace (''[AskUserQuestion -- the operator chose from options the agent offered]'' @ [nl] @
                join [nl, nl] (map (\<lambda>p. join [nl] (auq_lines p)) pairs)))"

definition operatorTextOf :: "distill_turn \<Rightarrow> string" where
  "operatorTextOf a =
     (if isAskUserQuestionAnswer a then renderAskUserQuestionHead (turn_content a) else normalizeWhitespace (turn_content a))"

subsection \<open>Cutting turns into exchanges\<close>

record exchange =
  exch_anchor :: "distill_turn option"
  exch_body :: "distill_turn list"
  exch_session_ref :: "string option"
  exch_anchor_kind :: anchorKind

type_synonym open_exchange = "(distill_turn option \<times> distill_turn list) option"

definition flush :: "open_exchange \<Rightarrow> string option \<Rightarrow> exchange list" where
  "flush current session = (case current of None \<Rightarrow> []
     | Some (a, body) \<Rightarrow> [\<lparr>exch_anchor = a, exch_body = body, exch_session_ref = session, exch_anchor_kind = anchorKindOf a\<rparr>])"

fun cut_exchanges :: "bool \<Rightarrow> string option \<Rightarrow> open_exchange \<Rightarrow> distill_turn list \<Rightarrow> exchange list" where
  "cut_exchanges started session current [] = flush current session"
| "cut_exchanges started session current (t # ts) =
     (let boundary = (\<not> started \<or> turn_session_ref t \<noteq> session);
          closed = (if boundary then flush current session else []);
          current = (if boundary then None else current);
          session = (if boundary then turn_session_ref t else session)
      in closed @
         (if isOperatorTurn t then flush current session @ cut_exchanges True session (Some (Some t, [])) ts
          else cut_exchanges True session
                 (case current of None \<Rightarrow> Some (None, [t]) | Some (a, body) \<Rightarrow> Some (a, body @ [t])) ts))"

definition buildExchanges :: "distill_turn list \<Rightarrow> exchange list" where
  "buildExchanges turns = cut_exchanges False None None turns"

subsection \<open>Rendering\<close>

definition HEAD_PACKING_ESTIMATE :: nat where "HEAD_PACKING_ESTIMATE = 1200"
definition CANDIDATE_PART_CHARS :: nat where "CANDIDATE_PART_CHARS = 4000"
definition MARKER_RESERVE :: nat where "MARKER_RESERVE = 64"

definition orphan_head :: string where
  "orphan_head = ''OPERATOR: (no operator turn -- agent activity before the first prompt of this session)''"

text \<open>The first sentence: the shortest run without a line feed that ends in a terminator before white space or the end.\<close>

fun first_sentence :: "string \<Rightarrow> string option" where
  "first_sentence [] = None"
| "first_sentence (c # cs) =
     (if (c = CHR ''.'' \<or> c = CHR ''!'' \<or> c = CHR ''?'') \<and> (cs = [] \<or> js_ws (hd cs)) then Some (c # take 1 cs)
      else if c = nl \<or> c = CHR 0x0D then None
      else map_option ((#) c) (first_sentence cs))"

definition trim_end :: "string \<Rightarrow> string" where
  "trim_end s = rev (dropWhile js_ws (rev s))"

definition continuationSignpost :: "string \<Rightarrow> string" where
  "continuationSignpost line =
     (let firstLine = takeWhile (\<lambda>c. c \<noteq> nl) line;
          fallback = (if length firstLine \<le> HEAD_PACKING_ESTIMATE then trim_end firstLine
                      else ''(operator's words in full on part 1)'')
      in case first_sentence line of
           Some sentence \<Rightarrow> if length sentence \<le> HEAD_PACKING_ESTIMATE then trim_end sentence else fallback
         | None \<Rightarrow> fallback)"

definition bodyLabel :: "distill_turn \<Rightarrow> string" where
  "bodyLabel t =
     (if turn_role t = ''tool'' then ''tool'' else if turn_role t = ''assistant'' then ''agent''
      else if turn_role t = [] then ''unknown'' else turn_role t)"

definition headLineOf :: "exchange \<Rightarrow> string" where
  "headLineOf x =
     (case map_option operatorTextOf (exch_anchor x) of
        Some head \<Rightarrow> if head \<noteq> [] then ''OPERATOR: '' @ head else orphan_head
      | None \<Rightarrow> orphan_head)"

definition bodyLinesOf :: "exchange \<Rightarrow> string list" where
  "bodyLinesOf x =
     map (\<lambda>t. bodyLabel t @ '': '' @ normalizeWhitespace (turn_content t))
       (filter (\<lambda>t. normalizeWhitespace (turn_content t) \<noteq> []) (exch_body x))"

definition renderExchange :: "exchange \<Rightarrow> string" where
  "renderExchange x = join [nl] (headLineOf x # (if bodyLinesOf x = [] then [] else [] # bodyLinesOf x))"

fun pack_lines :: "nat \<Rightarrow> string list \<Rightarrow> nat \<Rightarrow> string list \<Rightarrow> string list list" where
  "pack_lines budget current used [] = (if current = [] then [] else [current])"
| "pack_lines budget current used (line # rest) =
     (if used > 0 \<and> used + length line + 1 > budget then current # pack_lines budget [line] (length line + 1) rest
      else pack_lines budget (current @ [line]) (used + length line + 1) rest)"

definition packBodyLines :: "string list \<Rightarrow> nat \<Rightarrow> string list" where
  "packBodyLines ls budget = map (join [nl]) (pack_lines budget [] 0 ls)"

definition continuation_head :: "exchange \<Rightarrow> string" where
  "continuation_head x =
     (let head = headLineOf x
      in if length head > HEAD_PACKING_ESTIMATE then ''OPERATOR (continued): '' @ continuationSignpost head else head)"

definition part_budget :: "exchange \<Rightarrow> nat" where
  "part_budget x = max 1 (CANDIDATE_PART_CHARS - length (continuation_head x) - 2 - MARKER_RESERVE)"

definition part_marker :: "nat \<Rightarrow> nat \<Rightarrow> string" where
  "part_marker index n = ''[part '' @ show_nat (index + 1) @ '' of '' @ show_nat n @ '']''"

definition renderExchangeParts :: "exchange \<Rightarrow> string list" where
  "renderExchangeParts x =
     (let head = headLineOf x; body = bodyLinesOf x; parts = packBodyLines body (part_budget x)
      in if body = [] then [head]
         else if length parts = 1 then [head @ [nl, nl] @ hd parts]
         else map (\<lambda>(index, part). (if index = 0 then head else continuation_head x) @ [nl, nl] @ part_marker index (length parts) @ [nl] @ part)
                (List.enumerate 0 parts))"

subsection \<open>Classification\<close>

definition word_char :: "char \<Rightarrow> bool" where
  "word_char c = (let n = (of_char c :: nat) in (48 \<le> n \<and> n \<le> 57) \<or> (65 \<le> n \<and> n \<le> 90) \<or> (97 \<le> n \<and> n \<le> 122) \<or> n = 95)"

text \<open>\<open>\b\<close> between a prefix that ends in \<open>prev\<close> and the rest.\<close>

definition at_boundary :: "char option \<Rightarrow> string \<Rightarrow> bool" where
  "at_boundary prev rest =
     ((case prev of None \<Rightarrow> False | Some c \<Rightarrow> word_char c) \<noteq> (case rest of [] \<Rightarrow> False | c # _ \<Rightarrow> word_char c))"

text \<open>A pattern \<open>\b(?:w1|w2|...)\<close> with a final \<open>\b\<close> where the flag says so; the text is in lower case for \<open>/i\<close>.\<close>

type_synonym markers = "(string \<times> bool) list"

definition marker_here :: "markers \<Rightarrow> string \<Rightarrow> bool" where
  "marker_here ms s = list_ex (\<lambda>(w, closed). starts_with w s \<and> (\<not> closed \<or> at_boundary (Some (last w)) (drop (length w) s))) ms"

fun has_marker :: "markers \<Rightarrow> char option \<Rightarrow> string \<Rightarrow> bool" where
  "has_marker ms prev [] = False"
| "has_marker ms prev (c # cs) = (at_boundary prev (c # cs) \<and> marker_here ms (c # cs) \<or> has_marker ms (Some c) cs)"

definition test_markers :: "markers \<Rightarrow> string \<Rightarrow> bool" where
  "test_markers ms s = has_marker ms None (map js_lower s)"

definition closed_markers :: "string list \<Rightarrow> markers" where
  "closed_markers ws = map (\<lambda>w. (w, True)) ws"

text \<open>The alternatives with the optional letters written out.\<close>

definition CORRECTION_RE :: markers where
  "CORRECTION_RE = closed_markers
     [''no,'', ''nope'', ''wrong'', ''incorrect'', ''not that'', ''not what'', ''not it'', ''not right'', ''not true'', ''don't'', ''dont'',
      ''do not'', ''never'', ''stop'', ''actually'', ''instead'', ''rather than'', ''that's not'', ''thats not'', ''isn't'', ''isnt'',
      ''shouldn't'', ''shouldnt'', ''mistake'', ''fix that'', ''undo'', ''revert'', ''i said'', ''you didn't'', ''you didnt'',
      ''you missed'', ''you broke'', ''you forgot'']"

definition PREFERENCE_RE :: markers where
  "PREFERENCE_RE = closed_markers
     [''i prefer'', ''i like'', ''i love'', ''i hate'', ''i don't like'', ''i dont like'', ''i dislike'', ''i want'', ''prefer''] @
     map (\<lambda>w. (w, False)) [''rather have'', ''my preference'', ''i'm not a fan'', ''im not a fan'', ''pet peeve'', ''drives me nuts'', ''drives me crazy'']"

definition DECISION_RE :: markers where
  "DECISION_RE = closed_markers
     [''decid'', ''decision'', ''were going with'', ''we're going with'', ''we are going with'', ''going with'', ''let's'', ''lets'', ''lets '',
      ''i want'', ''i'd like'', ''id like'', ''from now on'', ''going forward'', ''the rule is'', ''must'', ''should'', ''use '', ''switch'',
      ''move it to'', ''move that to'', ''move this to'', ''make it'', ''make that'', ''make this'', ''set '', ''always'', ''by design'',
      ''on purpose'', ''deliberat'']"

definition ack_words :: "string list" where
  "ack_words = [''ok'', ''okay'', ''k'', ''yes'', ''yep'', ''yeah'', ''ya'', ''sure'', ''go'', ''go ahead'', ''go for it'', ''do it'', ''try it'', ''run it'',
     ''proceed'', ''continue'', ''correct'', ''right'', ''exactly'', ''perfect'', ''nice'', ''great'', ''good'', ''thanks'', ''thank you'', ''ty'',
     ''got it'', ''understood'', ''agreed'', ''approved'', ''lgtm'', ''ship it'', ''send it'', ''yup'', ''sounds good'', ''makes sense'', ''.'', ''+1'']"

definition ACK_RE :: "string \<Rightarrow> bool" where
  "ACK_RE s = (let t = map js_lower s in
     list_ex (\<lambda>w. starts_with w t \<and> at_boundary (Some (last w)) (drop (length w) t) \<and>
       list_all (\<lambda>c. js_ws c \<or> c \<in> set ''.!,'') (drop (length w) t)) ack_words)"

datatype candidateType = Decision | Correction | Fact | Preference

datatype uncertainty = Orphan_exchange | Ack_with_body | Ack_alone | Correction_marker | No_marker

definition uncertainty_text :: "uncertainty \<Rightarrow> string" where
  "uncertainty_text u = (case u of
       Orphan_exchange \<Rightarrow> ''orphan exchange -- agent activity before the first operator turn of the session, so no operator intent classifies it and nobody asked for it''
     | Ack_with_body \<Rightarrow> ''short acknowledgement heading the exchange -- reads as authorization of the agent activity below it, but assent and doubt are the same string and only the reviewer can tell which''
     | Ack_alone \<Rightarrow> ''short acknowledgement with nothing following it in the session -- what it authorized never happened, or happened elsewhere''
     | Correction_marker \<Rightarrow> ''the operator's turn matched a correction marker -- the exchange is arguing with something, but a rule cannot tell whether the correction stuck''
     | No_marker \<Rightarrow> ''operator turn with no decision, correction, or preference marker -- captured because operator speech is authoritative, but the kind of claim is unresolved'')"

text \<open>The reason is given exactly for the uncertain types, so it carries the flag.\<close>

record classified =
  class_type :: candidateType
  class_reason :: "uncertainty option"

definition class_uncertain :: "classified \<Rightarrow> bool" where
  "class_uncertain c = (class_reason c \<noteq> None)"

definition classifyExchange :: "exchange \<Rightarrow> classified" where
  "classifyExchange x =
     (case exch_anchor x of
        None \<Rightarrow> \<lparr>class_type = Fact, class_reason = Some Orphan_exchange\<rparr>
      | Some a \<Rightarrow>
          let s = operatorTextOf a
          in if ACK_RE s then \<lparr>class_type = Decision, class_reason = Some (if exch_body x \<noteq> [] then Ack_with_body else Ack_alone)\<rparr>
             else if test_markers CORRECTION_RE s then \<lparr>class_type = Correction, class_reason = Some Correction_marker\<rparr>
             else if test_markers PREFERENCE_RE s then \<lparr>class_type = Preference, class_reason = None\<rparr>
             else if test_markers DECISION_RE s then \<lparr>class_type = Decision, class_reason = None\<rparr>
             else \<lparr>class_type = Decision, class_reason = Some No_marker\<rparr>)"

subsection \<open>Candidate rows\<close>

definition EXCHANGE_DISTILLER_NAME :: string where "EXCHANGE_DISTILLER_NAME = ''exchange-distiller/v1''"

record exchange_candidate =
  xc_namespace :: string
  xc_candidate_type :: candidateType
  xc_content :: string
  xc_content_hash :: string
  xc_source_turn_ids :: "string list"
  xc_anchor_turn_id :: "string option"
  xc_operator_text :: "string option"
  xc_anchor_kind :: anchorKind
  xc_uncertain :: bool
  xc_uncertainty_reason :: "string option"
  xc_model :: string
  xc_session_ref :: "string option"
  xc_chunk_index :: "nat option"

definition isHarnessNoise :: "string \<Rightarrow> bool" where
  "isHarnessNoise content =
     (let s = trim content; interrupted = ''[Request interrupted by user''
      in s = [] \<or>
         (starts_with interrupted s \<and> takeWhile (\<lambda>c. c \<noteq> CHR '']'') (drop (length interrupted) s) @ '']'' = drop (length interrupted) s) \<or>
         list_ex (\<lambda>p. starts_with p s)
           [''<local-command-caveat>'', ''<local-command-stdout>'', ''<local-command-stderr>'', ''<command-name>'', ''<command-message>'',
            ''<command-args>'', ''<bash-input>'', ''<bash-stdout>'', ''<bash-stderr>'', ''The user doesn't want to proceed with this tool use.''] \<or>
         s = ''Continue from where you left off.'')"

definition effectiveExchange :: "exchange \<Rightarrow> exchange" where
  "effectiveExchange x =
     (case exch_anchor x of None \<Rightarrow> x
      | Some a \<Rightarrow> let s = operatorTextOf a
          in if s \<noteq> [] \<and> \<not> isHarnessNoise s then x
             else \<lparr>exch_anchor = None, exch_body = exch_body x, exch_session_ref = exch_session_ref x, exch_anchor_kind = Orphan\<rparr>)"

definition sourceTurnIdsOf :: "exchange \<Rightarrow> string list" where
  "sourceTurnIdsOf x = (case exch_anchor x of None \<Rightarrow> [] | Some a \<Rightarrow> [turn_id a]) @ map turn_id (exch_body x)"

definition candidateRowsOf :: "(string \<Rightarrow> string) \<Rightarrow> exchange \<Rightarrow> string list \<Rightarrow> classified \<Rightarrow> string \<Rightarrow> string option \<Rightarrow> exchange_candidate list" where
  "candidateRowsOf normalizedContentHash effective contents cls namespace operatorText =
     map (\<lambda>(index, content). \<lparr>xc_namespace = namespace, xc_candidate_type = class_type cls, xc_content = content,
        xc_content_hash = normalizedContentHash content, xc_source_turn_ids = sourceTurnIdsOf effective,
        xc_anchor_turn_id = map_option turn_id (exch_anchor effective),
        xc_operator_text = (if exch_anchor effective \<noteq> None then operatorText else None),
        xc_anchor_kind = exch_anchor_kind effective, xc_uncertain = class_uncertain cls,
        xc_uncertainty_reason = map_option uncertainty_text (class_reason cls), xc_model = EXCHANGE_DISTILLER_NAME,
        xc_session_ref = exch_session_ref effective,
        xc_chunk_index = (if length contents = 1 \<or> index = 0 then None else Some index)\<rparr>)
       (List.enumerate 0 contents)"

definition prepareExchange :: "(string \<Rightarrow> string) \<Rightarrow> exchange \<Rightarrow> exchange_candidate list" where
  "prepareExchange normalizedContentHash x =
     (let effective = effectiveExchange x;
          operatorText = map_option operatorTextOf (exch_anchor effective);
          hasBodyContent = list_ex (\<lambda>t. normalizeWhitespace (turn_content t) \<noteq> []) (exch_body effective)
      in if exch_anchor effective = None \<and> \<not> hasBodyContent then []
         else let contents = filter (\<lambda>part. trim part \<noteq> []) (renderExchangeParts effective)
              in if contents = [] then []
                 else case (case exch_anchor effective of Some a \<Rightarrow> Some (turn_namespace a)
                            | None \<Rightarrow> (case exch_body effective of [] \<Rightarrow> None | t # _ \<Rightarrow> Some (turn_namespace t))) of
                        None \<Rightarrow> []
                      | Some namespace \<Rightarrow>
                          if sourceTurnIdsOf effective = [] then []
                          else candidateRowsOf normalizedContentHash effective contents (classifyExchange effective) namespace operatorText)"

definition extractExchanges :: "(string \<Rightarrow> string) \<Rightarrow> distill_turn list \<Rightarrow> exchange_candidate list" where
  "extractExchanges normalizedContentHash turns = concat (map (prepareExchange normalizedContentHash) (buildExchanges turns))"

subsection \<open>The cut\<close>

definition turns_of :: "exchange \<Rightarrow> distill_turn list" where
  "turns_of x = (case exch_anchor x of None \<Rightarrow> [] | Some a \<Rightarrow> [a]) @ exch_body x"

definition open_turns :: "open_exchange \<Rightarrow> distill_turn list" where
  "open_turns c = (case c of None \<Rightarrow> [] | Some (a, body) \<Rightarrow> (case a of None \<Rightarrow> [] | Some t \<Rightarrow> [t]) @ body)"

definition exchange_ok :: "exchange \<Rightarrow> bool" where
  "exchange_ok x \<longleftrightarrow> exch_anchor_kind x = anchorKindOf (exch_anchor x) \<and>
     (\<forall>t \<in> set (turns_of x). turn_session_ref t = exch_session_ref x) \<and>
     (case exch_anchor x of None \<Rightarrow> exch_body x \<noteq> [] | Some a \<Rightarrow> isOperatorTurn a) \<and>
     (\<forall>t \<in> set (exch_body x). \<not> isOperatorTurn t)"

definition open_ok :: "string option \<Rightarrow> open_exchange \<Rightarrow> bool" where
  "open_ok session c \<longleftrightarrow> (case c of None \<Rightarrow> True
     | Some (a, body) \<Rightarrow> exchange_ok \<lparr>exch_anchor = a, exch_body = body, exch_session_ref = session, exch_anchor_kind = anchorKindOf a\<rparr>)"

lemma flush_facts:
  "concat (map turns_of (flush c session)) = open_turns c"
  "open_ok session c \<Longrightarrow> x \<in> set (flush c session) \<Longrightarrow> exchange_ok x \<and> exch_session_ref x = session"
  by (auto simp: flush_def open_turns_def turns_of_def open_ok_def split: option.splits prod.splits)

lemma cut_step:
  "cut_exchanges started session c (t # ts) =
     (if \<not> started \<or> turn_session_ref t \<noteq> session
      then flush c session @ cut_exchanges True (turn_session_ref t) (Some (if isOperatorTurn t then (Some t, []) else (None, [t]))) ts
      else if isOperatorTurn t then flush c session @ cut_exchanges True session (Some (Some t, [])) ts
      else cut_exchanges True session (Some (case c of None \<Rightarrow> (None, [t]) | Some (a, body) \<Rightarrow> (a, body @ [t]))) ts)"
  by (auto simp: Let_def flush_def split: option.splits)

declare cut_exchanges.simps(2) [simp del]

lemma cut_keeps_turns:
  "concat (map turns_of (cut_exchanges started session c ts)) = open_turns c @ ts"
proof (induction ts arbitrary: started session c)
  case (Cons t ts)
  then show ?case by (auto simp: cut_step flush_facts(1) open_turns_def split: option.splits)
qed (simp add: flush_facts)

lemma open_ok_new: "isOperatorTurn t \<Longrightarrow> open_ok (turn_session_ref t) (Some (Some t, []))"
  "\<not> isOperatorTurn t \<Longrightarrow> open_ok (turn_session_ref t) (Some (None, [t]))"
  by (simp_all add: open_ok_def exchange_ok_def turns_of_def)

lemma open_ok_add: "open_ok session (Some (a, body)) \<Longrightarrow> turn_session_ref t = session \<Longrightarrow> \<not> isOperatorTurn t \<Longrightarrow>
    open_ok session (Some (a, body @ [t]))"
  by (auto simp: open_ok_def exchange_ok_def turns_of_def split: option.splits)

lemma cut_ok:
  "open_ok session c \<Longrightarrow> x \<in> set (cut_exchanges started session c ts) \<Longrightarrow> exchange_ok x"
proof (induction ts arbitrary: started session c)
  case Nil
  then show ?case using flush_facts(2) by simp
next
  case (Cons t ts)
  note fl = flush_facts(2) [OF Cons.prems(1), of x]
  have new: "open_ok (turn_session_ref t) (Some (if isOperatorTurn t then (Some t, []) else (None, [t])))"
    using open_ok_new by simp
  show ?case
  proof (cases "\<not> started \<or> turn_session_ref t \<noteq> session")
    case True
    with Cons.prems(2) have "x \<in> set (flush c session) \<or>
        x \<in> set (cut_exchanges True (turn_session_ref t) (Some (if isOperatorTurn t then (Some t, []) else (None, [t]))) ts)"
      by (simp add: cut_step)
    with fl Cons.IH [OF new] show ?thesis by blast
  next
    case False
    then have ses: "turn_session_ref t = session" by simp
    show ?thesis
    proof (cases "isOperatorTurn t")
      case True
      with False Cons.prems(2) have "x \<in> set (flush c session) \<or> x \<in> set (cut_exchanges True session (Some (Some t, [])) ts)"
        by (simp add: cut_step)
      moreover have "open_ok session (Some (Some t, []))" using new True ses by simp
      ultimately show ?thesis using fl Cons.IH by blast
    next
      case nop: False
      with False Cons.prems(2) have "x \<in> set (cut_exchanges True session (Some (case c of None \<Rightarrow> (None, [t]) | Some (a, body) \<Rightarrow> (a, body @ [t]))) ts)"
        by (simp add: cut_step)
      moreover have "open_ok session (Some (case c of None \<Rightarrow> (None, [t]) | Some (a, body) \<Rightarrow> (a, body @ [t])))"
        using new nop ses open_ok_add [OF _ ses nop] Cons.prems(1) by (auto split: option.splits)
      ultimately show ?thesis using Cons.IH by blast
    qed
  qed
qed

text \<open>An orphan opens its session.\<close>

definition opens_session :: "exchange \<Rightarrow> exchange \<Rightarrow> bool" where
  "opens_session x y \<longleftrightarrow> (exch_anchor y = None \<longrightarrow> exch_session_ref x \<noteq> exch_session_ref y)"

lemma flush_Some: "flush (Some (a, b)) session = [\<lparr>exch_anchor = a, exch_body = b, exch_session_ref = session, exch_anchor_kind = anchorKindOf a\<rparr>]"
  by (simp add: flush_def)

lemma cut_head:
  "cut_exchanges True session (Some (a, b)) ts \<noteq> [] \<and>
    exch_anchor (hd (cut_exchanges True session (Some (a, b)) ts)) = a \<and> exch_session_ref (hd (cut_exchanges True session (Some (a, b)) ts)) = session"
proof (induction ts arbitrary: b)
  case Nil
  show ?case by (simp add: flush_Some)
next
  case (Cons t ts)
  then show ?case by (simp add: cut_step flush_Some)
qed

lemma successively_Cons': "successively P (x # ys) \<longleftrightarrow> ys = [] \<or> P x (hd ys) \<and> successively P ys"
  by (cases ys) auto

lemma cut_opens: "successively opens_session (cut_exchanges True session (Some (a, b)) ts)"
proof (induction ts arbitrary: session a b)
  case (Cons t ts)
  show ?case
  proof (cases "turn_session_ref t \<noteq> session")
    case True
    let ?new = "if isOperatorTurn t then (Some t, []) else (None, [t])"
    obtain a' b' where n: "?new = (a', b')" by fastforce
    show ?thesis using True Cons [of "turn_session_ref t" a' b'] cut_head [of "turn_session_ref t" a' b' ts]
      by (auto simp: cut_step n flush_Some successively_Cons' opens_session_def)
  next
    case False
    then show ?thesis using Cons cut_head [of session "Some t" "[]" ts]
      by (simp add: cut_step flush_Some successively_Cons' opens_session_def)
  qed
qed (simp add: flush_Some)

text \<open>C34: the cut loses no turn, reorders none and crosses no session. The exchanges, head and body, spell the turns
  in order; each lies in one session, is headed by an operator turn or by nobody and holds no other operator turn; and an
  exchange without a head is the first of its session.\<close>

theorem exchanges_partition_the_turns:
  "concat (map turns_of (buildExchanges ts)) = ts \<and>
   list_all exchange_ok (buildExchanges ts) \<and> successively opens_session (buildExchanges ts)"
proof -
  have "open_ok None None" by (simp add: open_ok_def)
  moreover have "successively opens_session (buildExchanges ts)"
  proof (cases ts)
    case (Cons t us)
    obtain a b where "(if isOperatorTurn t then (Some t, []) else (None, [t])) = (a, b)" by fastforce
    with cut_opens [of "turn_session_ref t" a b us] show ?thesis by (simp add: buildExchanges_def Cons cut_step flush_def)
  qed (simp add: buildExchanges_def flush_def)
  ultimately show ?thesis using cut_keeps_turns [of False None None ts] cut_ok by (auto simp: buildExchanges_def open_turns_def list_all_iff)
qed

subsection \<open>The parts\<close>

lemma pack_concat: "concat (pack_lines budget current used ls) = current @ ls"
  by (induction budget current used ls rule: pack_lines.induct) auto

lemma pack_nonempty: "used > 0 \<longrightarrow> current \<noteq> [] \<Longrightarrow> g \<in> set (pack_lines budget current used ls) \<Longrightarrow> g \<noteq> []"
  by (induction budget current used ls rule: pack_lines.induct) (auto split: if_splits)

definition packed_size :: "string list \<Rightarrow> nat" where
  "packed_size ls = sum_list (map (\<lambda>l. length l + 1) ls)"

lemma packed_size_simps [simp]: "packed_size [] = 0" "packed_size (l # ls) = length l + 1 + packed_size ls"
  "packed_size (xs @ ys) = packed_size xs + packed_size ys"
  by (simp_all add: packed_size_def)

lemma pack_fits:
  assumes "packed_size current \<le> budget \<or> length current \<le> 1" "used = packed_size current" "g \<in> set (pack_lines budget current used ls)"
  shows "packed_size g \<le> budget \<or> length g \<le> 1"
  using assms
proof (induction budget current used ls rule: pack_lines.induct)
  case (1 budget current used)
  then show ?case by (auto split: if_splits)
next
  case (2 budget current used line rest)
  have "used = 0 \<Longrightarrow> current = []" using 2(4) by (cases current) auto
  with 2 show ?case by (auto split: if_splits)
qed

lemma join_nl_length: "ls \<noteq> [] \<Longrightarrow> length (join [nl] ls) + 1 = packed_size ls"
  by (induction "[nl]" ls rule: join.induct) auto

lemma length_show_nat: "n < 10 ^ k \<Longrightarrow> 0 < k \<Longrightarrow> length (show_nat n) \<le> k"
proof (induction k arbitrary: n)
  case (Suc k)
  show ?case
  proof (cases "n < 10")
    case True
    then show ?thesis by (subst show_nat.simps) simp
  next
    case False
    have "n div 10 < 10 ^ k" using Suc.prems(1) by (simp add: less_mult_imp_div_less mult.commute)
    moreover have "0 < k" using False Suc.prems(1) by (cases k) auto
    ultimately show ?thesis using Suc.IH False by (subst show_nat.simps) simp
  qed
qed simp

lemma marker_length:
  assumes "index < n" "n < 10 ^ 20"
  shows "length (part_marker index n) \<le> 51"
proof -
  have "length (show_nat (index + 1)) \<le> 20" "length (show_nat n) \<le> 20" using assms by (intro length_show_nat, simp_all)+
  then show ?thesis by (simp add: part_marker_def)
qed

lemma trim_end_length: "length (trim_end s) \<le> length s"
  by (metis trim_end_def length_rev length_dropWhile_le)

lemma signpost_length: "length (continuationSignpost s) \<le> HEAD_PACKING_ESTIMATE"
  by (auto simp: continuationSignpost_def Let_def HEAD_PACKING_ESTIMATE_def intro: le_trans [OF trim_end_length] split: option.splits)

lemma continuation_length: "length (continuation_head x) \<le> 1222"
  using signpost_length [of "headLineOf x"] by (simp add: continuation_head_def Let_def HEAD_PACKING_ESTIMATE_def)

lemma budget_value: "part_budget x = 3934 - length (continuation_head x)"
  using continuation_length [of x] by (simp add: part_budget_def CANDIDATE_PART_CHARS_def MARKER_RESERVE_def)

lemma enumerate_map: "map f (List.enumerate 0 xs) = map (\<lambda>i. f (i, xs ! i)) [0 ..< length xs]"
  by (rule nth_equalityI) (simp_all add: nth_enumerate_eq)

lemma length_le_concat: "\<forall>g \<in> set gs. g \<noteq> [] \<Longrightarrow> length gs \<le> length (concat gs)"
proof (induction gs)
  case (Cons g gs)
  then have "0 < length g" "length gs \<le> length (concat gs)" by simp_all
  then show ?case unfolding concat.simps length_append list.size by linarith
qed simp

text \<open>The groups of lines behind the parts.\<close>

definition part_groups :: "exchange \<Rightarrow> string list list" where
  "part_groups x = pack_lines (part_budget x) [] 0 (bodyLinesOf x)"

definition part_text :: "exchange \<Rightarrow> nat \<Rightarrow> string" where
  "part_text x i =
     (if i = 0 then headLineOf x else continuation_head x) @ [nl, nl] @
     (if length (part_groups x) \<le> 1 then [] else part_marker i (length (part_groups x)) @ [nl]) @ join [nl] (part_groups x ! i)"

lemma parts_are_groups:
  assumes "bodyLinesOf x \<noteq> []"
  shows "renderExchangeParts x = map (part_text x) [0 ..< length (part_groups x)]" "part_groups x \<noteq> []"
proof -
  show ne: "part_groups x \<noteq> []" using assms pack_concat [of "part_budget x" "[]" 0 "bodyLinesOf x"] by (auto simp: part_groups_def)
  have p: "packBodyLines (bodyLinesOf x) (part_budget x) = map (join [nl]) (part_groups x)" by (simp add: packBodyLines_def part_groups_def)
  show "renderExchangeParts x = map (part_text x) [0 ..< length (part_groups x)]"
  proof (cases "length (part_groups x) = 1")
    case True
    then obtain g where "part_groups x = [g]" by (metis length_0_conv length_Suc_conv One_nat_def)
    then show ?thesis using assms by (simp add: renderExchangeParts_def Let_def p part_text_def)
  next
    case False
    with ne have "\<not> length (part_groups x) \<le> 1" by (cases "part_groups x") auto
    then show ?thesis using assms False unfolding renderExchangeParts_def Let_def p enumerate_map by (simp add: part_text_def)
  qed
qed

text \<open>C35: rendering cuts nothing. The body lines of an exchange, whole and in order, are exactly what its parts hold;
  the first part opens with the operator's words in full; and a later part is at most 4000 characters long unless it is a
  single line that is too long on its own.\<close>

theorem parts_hold_every_line:
  assumes "bodyLinesOf x \<noteq> []" "length (bodyLinesOf x) < 10 ^ 20"
  shows "renderExchangeParts x = map (part_text x) [0 ..< length (part_groups x)] \<and> concat (part_groups x) = bodyLinesOf x \<and>
    take (length (headLineOf x)) (hd (renderExchangeParts x)) = headLineOf x \<and>
    (\<forall>i \<in> {1 ..< length (part_groups x)}. length (part_groups x ! i) = 1 \<or> length (part_text x i) \<le> 4000)"
proof -
  note r = parts_are_groups [OF assms(1)]
  have c: "concat (part_groups x) = bodyLinesOf x" by (simp add: part_groups_def pack_concat)
  have ne: "g \<noteq> []" if "g \<in> set (part_groups x)" for g
    using that pack_nonempty [of 0 "[]"] by (simp add: part_groups_def)
  have "length (part_groups x) \<le> length (bodyLinesOf x)" using length_le_concat [of "part_groups x"] ne unfolding c by blast
  then have n: "length (part_groups x) < 10 ^ 20" using assms(2) by (rule le_less_trans)
  have "length (part_groups x ! i) = 1 \<or> length (part_text x i) \<le> 4000" if i: "i \<in> {1 ..< length (part_groups x)}" for i
  proof -
    let ?g = "part_groups x ! i"
    have mem: "?g \<in> set (part_groups x)" using i by simp
    have "packed_size ?g \<le> part_budget x \<or> length ?g \<le> 1"
      using mem pack_fits [of "[]" "part_budget x" 0 ?g "bodyLinesOf x"] unfolding part_groups_def by simp
    moreover have "length ?g \<noteq> 0" using ne [OF mem] by simp
    moreover have "length (part_text x i) \<le> 4000" if fits: "packed_size ?g \<le> part_budget x"
    proof -
      have less: "i < length (part_groups x)" using i by simp
      note mk = marker_length [OF less n]
      have "length (join [nl] ?g) + 1 \<le> 3934 - length (continuation_head x)"
        using fits unfolding budget_value join_nl_length [OF ne [OF mem]] .
      moreover have "length (part_text x i) \<le> length (continuation_head x) + 2 + length (part_marker i (length (part_groups x))) + 1 + length (join [nl] ?g)"
        using i by (simp add: part_text_def)
      ultimately show ?thesis using mk continuation_length [of x] by linarith
    qed
    ultimately show ?thesis by linarith
  qed
  moreover have "take (length (headLineOf x)) (hd (renderExchangeParts x)) = headLineOf x"
    unfolding r(1) using r(2) by (simp add: hd_map hd_upt part_text_def)
  ultimately show ?thesis using r(1) c by (intro conjI ballI)
qed

subsection \<open>The rows\<close>

definition btrim :: "string \<Rightarrow> string" where
  "btrim s = (let strip = dropWhile (\<lambda>c. c = CHR '' '') in rev (strip (rev (strip s))))"

text \<open>The constraints of \<open>candidate_memory\<close> on the columns of a row.\<close>

definition passes_checks :: "exchange_candidate \<Rightarrow> bool" where
  "passes_checks r \<longleftrightarrow> btrim (xc_content r) \<noteq> [] \<and> xc_source_turn_ids r \<noteq> [] \<and>
     (xc_anchor_turn_id r = None \<or> (\<exists>s. xc_operator_text r = Some s \<and> btrim s \<noteq> []))"

lemma btrim_not_Nil: "c \<in> set s \<Longrightarrow> c \<noteq> CHR '' '' \<Longrightarrow> btrim s \<noteq> []"
proof -
  assume c: "c \<in> set s" "c \<noteq> CHR '' ''"
  let ?P = "\<lambda>c. c = CHR '' ''"
  have "c \<in> set (takeWhile ?P s @ dropWhile ?P s)" using c(1) by simp
  then have "c \<in> set (dropWhile ?P s)" using c(2) set_takeWhileD [of c ?P s] unfolding set_append by blast
  then have "dropWhile ?P (rev (dropWhile ?P s)) \<noteq> []" using c(2) unfolding dropWhile_eq_Nil_conv set_rev by blast
  then show ?thesis by (simp add: btrim_def Let_def)
qed

lemma trim_not_Nil: "c \<in> set s \<Longrightarrow> \<not> js_ws c \<Longrightarrow> trim s \<noteq> []"
  by (auto simp: trim_eq_Nil_iff)

lemma trimmed_has_char: "trim s = s \<Longrightarrow> s \<noteq> [] \<Longrightarrow> \<exists>c \<in> set s. \<not> js_ws c"
  using trim_eq_Nil_iff [of s] by auto

lemma operatorTextOf_trimmed: "trim (operatorTextOf a) = operatorTextOf a"
  by (simp add: operatorTextOf_def renderAskUserQuestionHead_def normalizeWhitespace_def Let_def)

lemma head_letter: "CHR ''O'' \<in> set (headLineOf x)" "CHR ''O'' \<in> set (continuation_head x)"
proof -
  show h: "CHR ''O'' \<in> set (headLineOf x)" by (simp add: headLineOf_def orphan_head_def split: option.splits)
  show "CHR ''O'' \<in> set (continuation_head x)" using h by (simp add: continuation_head_def Let_def)
qed

lemma part_letter:
  assumes "p \<in> set (renderExchangeParts x)"
  shows "CHR ''O'' \<in> set p"
proof (cases "bodyLinesOf x = []")
  case True
  with assms head_letter(1) show ?thesis by (simp add: renderExchangeParts_def Let_def)
next
  case False
  with assms obtain i where "p = part_text x i" unfolding parts_are_groups(1) [OF False] by auto
  then show ?thesis using head_letter [of x] by (simp add: part_text_def)
qed

lemma renderExchangeParts_not_Nil: "renderExchangeParts x \<noteq> []"
proof (cases "bodyLinesOf x = []")
  case True
  then show ?thesis by (simp add: renderExchangeParts_def Let_def)
next
  case False
  then show ?thesis using parts_are_groups [OF False] by simp
qed

lemma has_body_content: "list_ex (\<lambda>t. normalizeWhitespace (turn_content t) \<noteq> []) (exch_body x) \<longleftrightarrow> bodyLinesOf x \<noteq> []"
  by (auto simp: bodyLinesOf_def list_ex_iff filter_empty_conv)

lemma not_blank_O: "\<not> js_ws (CHR ''O'')"
  by (simp add: js_ws_def)

definition written_rows :: "(string \<Rightarrow> string) \<Rightarrow> exchange \<Rightarrow> exchange_candidate list" where
  "written_rows h e = candidateRowsOf h e (renderExchangeParts e) (classifyExchange e) (turn_namespace (hd (turns_of e)))
     (map_option operatorTextOf (exch_anchor e))"

lemma prepareExchange_alt:
  "prepareExchange h x =
     (let e = effectiveExchange x in if exch_anchor e = None \<and> bodyLinesOf e = [] then [] else written_rows h e)"
proof -
  let ?e = "effectiveExchange x"
  have f: "filter (\<lambda>part. trim part \<noteq> []) (renderExchangeParts ?e) = renderExchangeParts ?e"
    using trim_not_Nil [OF part_letter not_blank_O] by (simp add: filter_id_conv)
  show ?thesis
  proof (cases "exch_anchor ?e")
    case None
    then show ?thesis
      using renderExchangeParts_not_Nil [of ?e]
      by (cases "exch_body ?e")
        (simp_all add: prepareExchange_def Let_def f has_body_content written_rows_def turns_of_def sourceTurnIdsOf_def bodyLinesOf_def)
  next
    case (Some a)
    then show ?thesis
      using renderExchangeParts_not_Nil [of ?e]
      by (simp add: prepareExchange_def Let_def f has_body_content written_rows_def turns_of_def sourceTurnIdsOf_def)
  qed
qed

lemma written_rows_columns:
  "map xc_content (written_rows h e) = renderExchangeParts e"
  "map xc_content_hash (written_rows h e) = map h (renderExchangeParts e)"
  "map xc_chunk_index (written_rows h e) = None # map Some [1 ..< length (renderExchangeParts e)]"
  "length (written_rows h e) = length (renderExchangeParts e)"
  "r \<in> set (written_rows h e) \<Longrightarrow> xc_namespace r = turn_namespace (hd (turns_of e)) \<and> xc_source_turn_ids r = map turn_id (turns_of e) \<and>
     xc_anchor_turn_id r = map_option turn_id (exch_anchor e) \<and> xc_operator_text r = map_option operatorTextOf (exch_anchor e) \<and>
     xc_anchor_kind r = exch_anchor_kind e \<and> xc_session_ref r = exch_session_ref e \<and> xc_candidate_type r = class_type (classifyExchange e) \<and>
     xc_uncertain r = class_uncertain (classifyExchange e) \<and> (xc_uncertain r \<longleftrightarrow> xc_uncertainty_reason r \<noteq> None) \<and>
     xc_content_hash r = h (xc_content r) \<and> xc_content r \<in> set (renderExchangeParts e)"
proof -
  let ?n = "length (renderExchangeParts e)"
  show "map xc_content (written_rows h e) = renderExchangeParts e"
    "map xc_content_hash (written_rows h e) = map h (renderExchangeParts e)"
    "length (written_rows h e) = ?n"
    by (simp_all add: written_rows_def candidateRowsOf_def enumerate_map comp_def map_nth)
      (metis map_map map_nth comp_def map_cong)
  have "map xc_chunk_index (written_rows h e) = map (\<lambda>i. if ?n = 1 \<or> i = 0 then None else Some i) [0 ..< ?n]"
    by (simp add: written_rows_def candidateRowsOf_def enumerate_map)
  also have "[0 ..< ?n] = 0 # [1 ..< ?n]"
    using renderExchangeParts_not_Nil [of e] by (simp add: upt_conv_Cons)
  also have "map (\<lambda>i. if ?n = 1 \<or> i = 0 then None else Some i) (0 # [1 ..< ?n]) = None # map Some [1 ..< ?n]"
    by simp
  finally show "map xc_chunk_index (written_rows h e) = None # map Some [1 ..< ?n]" .
  show "xc_namespace r = turn_namespace (hd (turns_of e)) \<and> xc_source_turn_ids r = map turn_id (turns_of e) \<and>
     xc_anchor_turn_id r = map_option turn_id (exch_anchor e) \<and> xc_operator_text r = map_option operatorTextOf (exch_anchor e) \<and>
     xc_anchor_kind r = exch_anchor_kind e \<and> xc_session_ref r = exch_session_ref e \<and> xc_candidate_type r = class_type (classifyExchange e) \<and>
     xc_uncertain r = class_uncertain (classifyExchange e) \<and> (xc_uncertain r \<longleftrightarrow> xc_uncertainty_reason r \<noteq> None) \<and>
     xc_content_hash r = h (xc_content r) \<and> xc_content r \<in> set (renderExchangeParts e)" if "r \<in> set (written_rows h e)"
    using that
    by (auto simp: written_rows_def candidateRowsOf_def sourceTurnIdsOf_def turns_of_def class_uncertain_def in_set_enumerate_eq split: option.splits)
qed

lemma effective_body [simp]:
  "exch_body (effectiveExchange x) = exch_body x" "bodyLinesOf (effectiveExchange x) = bodyLinesOf x"
  "exch_session_ref (effectiveExchange x) = exch_session_ref x"
  by (simp_all add: effectiveExchange_def bodyLinesOf_def Let_def split: option.splits)

lemma effective_anchor:
  "exch_anchor (effectiveExchange x) = Some a \<Longrightarrow> exch_anchor x = Some a \<and> operatorTextOf a \<noteq> [] \<and> effectiveExchange x = x"
  by (auto simp: effectiveExchange_def Let_def split: option.splits if_splits)

lemma effective_turns: "set (turns_of (effectiveExchange x)) \<subseteq> set (turns_of x)"
  by (auto simp: turns_of_def effectiveExchange_def Let_def split: option.splits)

definition renderable :: "exchange \<Rightarrow> bool" where
  "renderable x \<longleftrightarrow> exch_anchor (effectiveExchange x) \<noteq> None \<or> bodyLinesOf x \<noteq> []"

lemma prepareExchange_renderable:
  "prepareExchange h x = (if renderable x then written_rows h (effectiveExchange x) else [])"
  by (simp add: prepareExchange_alt Let_def renderable_def)

lemma renderable_turns: "renderable x \<Longrightarrow> turns_of (effectiveExchange x) \<noteq> []"
  by (auto simp: renderable_def turns_of_def bodyLinesOf_def split: option.splits)

lemma written_row_passes:
  assumes "renderable x" "r \<in> set (written_rows h (effectiveExchange x))"
  shows "passes_checks r"
proof -
  let ?e = "effectiveExchange x"
  note cols = written_rows_columns(5) [OF assms(2)]
  have "btrim (xc_content r) \<noteq> []" using cols by (intro btrim_not_Nil [OF part_letter]) auto
  moreover have "xc_source_turn_ids r \<noteq> []" using cols renderable_turns [OF assms(1)] by simp
  moreover have "\<exists>s. xc_operator_text r = Some s \<and> btrim s \<noteq> []" if anch: "xc_anchor_turn_id r \<noteq> None"
  proof -
    obtain a where a: "exch_anchor ?e = Some a" using anch cols by auto
    obtain c where c: "c \<in> set (operatorTextOf a)" "\<not> js_ws c"
      using trimmed_has_char [OF operatorTextOf_trimmed] effective_anchor [OF a] by blast
    then have "c \<noteq> CHR '' ''" by (auto simp: js_ws_def)
    with c(1) have "btrim (operatorTextOf a) \<noteq> []" by (rule btrim_not_Nil)
    then show ?thesis using cols a by simp
  qed
  ultimately show ?thesis unfolding passes_checks_def by blast
qed

text \<open>An exchange with an operator's words or any words below is always written, whole: its rows are its parts in
  order, the first without an index and the others numbered from 1, each naming every turn of the exchange, and no row
  breaks a constraint of the table. Only an exchange with neither gives no row.\<close>

theorem every_exchange_is_written:
  assumes "renderable x"
  shows "map xc_content (prepareExchange h x) = renderExchangeParts (effectiveExchange x) \<and>
    map xc_chunk_index (prepareExchange h x) = None # map Some [1 ..< length (prepareExchange h x)] \<and>
    list_all passes_checks (prepareExchange h x) \<and>
    map xc_source_turn_ids (prepareExchange h x) = replicate (length (prepareExchange h x)) (map turn_id (turns_of (effectiveExchange x))) \<and>
    (prepareExchange h y = []) = (\<not> renderable y)"
proof -
  have p: "prepareExchange h x = written_rows h (effectiveExchange x)" using assms by (simp add: prepareExchange_renderable)
  have "map xc_source_turn_ids (written_rows h (effectiveExchange x)) =
      replicate (length (written_rows h (effectiveExchange x))) (map turn_id (turns_of (effectiveExchange x)))"
    using written_rows_columns(5) [of _ h "effectiveExchange x"] by (intro replicate_eqI) auto
  moreover have "written_rows h (effectiveExchange y) \<noteq> []"
    using written_rows_columns(4) [of h "effectiveExchange y"] renderExchangeParts_not_Nil [of "effectiveExchange y"] by auto
  then have "(prepareExchange h y = []) = (\<not> renderable y)" by (simp add: prepareExchange_renderable)
  ultimately show ?thesis
    unfolding p using written_rows_columns(1,3,4) [of h "effectiveExchange x"] written_row_passes [OF assms] by (auto simp: list_all_iff)
qed

text \<open>Turns for the witnesses: a prompt and an agent's reply.\<close>

definition sample_turn :: "string \<Rightarrow> string \<Rightarrow> bool \<Rightarrow> string \<Rightarrow> distill_turn" where
  "sample_turn i ns human words =
     \<lparr>turn_id = i, turn_namespace = ns, turn_session_ref = None, turn_session_seq = None,
      turn_role = (if human then ''user'' else ''assistant''), turn_content = words, turn_repo = None, turn_occurred_at = None,
      is_human_prompt = human\<rparr>"

definition sample_exchange :: exchange where
  "sample_exchange = \<lparr>exch_anchor = Some (sample_turn ''t1'' ''ana'' True ''go''), exch_body = [sample_turn ''t2'' ''ana'' False ''built it''],
     exch_session_ref = None, exch_anchor_kind = Typed\<rparr>"

lemmas text_simps = normalizeWhitespace_def trim_def trim_start_def js_ws_def nl_def tab_def isAskUserQuestionAnswer_def operatorTextOf_def

lemma sample_facts:
  "operatorTextOf (sample_turn ''t1'' ''ana'' True ''go'') = ''go''" "bodyLinesOf sample_exchange = [''agent: built it'']"
  by (simp_all add: sample_turn_def sample_exchange_def bodyLinesOf_def bodyLabel_def text_simps)

lemma every_exchange_is_written_witness:
  "map xc_content (prepareExchange rev sample_exchange) = renderExchangeParts (effectiveExchange sample_exchange)"
  using every_exchange_is_written [of sample_exchange rev sample_exchange] sample_facts(2) by (simp add: renderable_def)

lemma parts_hold_every_line_witness: "concat (part_groups sample_exchange) = [''agent: built it'']"
  using parts_hold_every_line [of sample_exchange] sample_facts(2) by simp

text \<open>Evidence stays in its namespace when sessions do. Provided no session holds turns of two namespaces, every row
  names turns of its own namespace only.\<close>

theorem rows_keep_the_namespace:
  assumes "\<forall>t \<in> set ts. \<forall>u \<in> set ts. turn_session_ref t = turn_session_ref u \<longrightarrow> turn_namespace t = turn_namespace u"
    "r \<in> set (extractExchanges h ts)"
  shows "\<exists>us. xc_source_turn_ids r = map turn_id us \<and> set us \<subseteq> set ts \<and> turn_namespace ` set us = {xc_namespace r}"
proof -
  obtain x where x: "x \<in> set (buildExchanges ts)" and r: "r \<in> set (prepareExchange h x)"
    using assms(2) by (auto simp: extractExchanges_def)
  then have ren: "renderable x" and rw: "r \<in> set (written_rows h (effectiveExchange x))"
    by (auto simp: prepareExchange_renderable split: if_splits)
  let ?us = "turns_of (effectiveExchange x)"
  have "open_ok None None" by (simp add: open_ok_def)
  with x have "exchange_ok x" unfolding buildExchanges_def by (rule cut_ok [rotated])
  then have "turn_session_ref t = exch_session_ref x" if "t \<in> set ?us" for t
    using that effective_turns [of x] by (auto simp: exchange_ok_def)
  moreover have sub: "set ?us \<subseteq> set ts"
  proof -
    have "set (turns_of x) \<subseteq> set (concat (map turns_of (buildExchanges ts)))" using x by auto
    then show ?thesis using effective_turns [of x] cut_keeps_turns [of False None None ts] by (auto simp: buildExchanges_def open_turns_def)
  qed
  moreover have hd: "hd ?us \<in> set ?us" using renderable_turns [OF ren] by simp
  ultimately have "turn_namespace t = turn_namespace (hd ?us)" if "t \<in> set ?us" for t
    using that assms(1) by (metis subsetD)
  then have "turn_namespace ` set ?us = {turn_namespace (hd ?us)}" using hd by (intro equalityI subsetI) (blast intro: imageI)+
  then show ?thesis using written_rows_columns(5) [OF rw] sub by metis
qed

lemma rows_keep_the_namespace_witness:
  "\<exists>us. xc_source_turn_ids (hd (extractExchanges rev [sample_turn ''t1'' ''ana'' True ''go''])) = map turn_id us \<and>
     set us \<subseteq> {sample_turn ''t1'' ''ana'' True ''go''} \<and>
     turn_namespace ` set us = {xc_namespace (hd (extractExchanges rev [sample_turn ''t1'' ''ana'' True ''go'']))}"
proof -
  let ?t = "sample_turn ''t1'' ''ana'' True ''go''"
  let ?x = "\<lparr>exch_anchor = Some ?t, exch_body = [], exch_session_ref = None, exch_anchor_kind = Typed\<rparr>"
  have b: "buildExchanges [?t] = [?x]"
    by (simp add: buildExchanges_def cut_step flush_def isOperatorTurn_def anchorKindOf_def) (simp add: sample_turn_def)
  have "renderable ?x" by (simp add: renderable_def effectiveExchange_def sample_facts Let_def isHarnessNoise_def) (simp add: text_simps starts_with_def)
  then have "prepareExchange rev ?x \<noteq> []" using prepareExchange_renderable [of rev ?x] written_rows_columns(4) [of rev "effectiveExchange ?x"] renderExchangeParts_not_Nil [of "effectiveExchange ?x"] by auto
  then have "hd (extractExchanges rev [?t]) \<in> set (extractExchanges rev [?t])" by (simp add: extractExchanges_def b)
  then show ?thesis using rows_keep_the_namespace [of "[?t]" "hd (extractExchanges rev [?t])" rev] by simp
qed

text \<open>What the namespace of a row rests on. A prompt and a reply with one session reference - or with none, as turns
  without a session have - form one exchange whatever their namespaces, and its row, in the namespace of the prompt, holds
  the text of the reply.\<close>

theorem one_row_mixes_namespaces:
  assumes "turn_session_ref a = turn_session_ref b" "isOperatorTurn a" "\<not> isOperatorTurn b"
    "operatorTextOf a \<noteq> []" "\<not> isHarnessNoise (operatorTextOf a)" "normalizeWhitespace (turn_content b) \<noteq> []"
  shows "map xc_namespace (extractExchanges h [a, b]) = [turn_namespace a] \<and>
    map xc_source_turn_ids (extractExchanges h [a, b]) = [[turn_id a, turn_id b]] \<and>
    map xc_content (extractExchanges h [a, b]) =
      [''OPERATOR: '' @ operatorTextOf a @ [nl, nl] @ bodyLabel b @ '': '' @ normalizeWhitespace (turn_content b)]"
proof -
  let ?x = "\<lparr>exch_anchor = Some a, exch_body = [b], exch_session_ref = turn_session_ref a, exch_anchor_kind = anchorKindOf (Some a)\<rparr>"
  have b: "buildExchanges [a, b] = [?x]" using assms(1-3) by (simp add: buildExchanges_def cut_step flush_def)
  have e: "effectiveExchange ?x = ?x" using assms(4,5) by (simp add: effectiveExchange_def Let_def)
  have rows: "extractExchanges h [a, b] = written_rows h ?x"
    by (simp add: extractExchanges_def b prepareExchange_renderable renderable_def e)
  have parts: "renderExchangeParts ?x = [''OPERATOR: '' @ operatorTextOf a @ [nl, nl] @ bodyLabel b @ '': '' @ normalizeWhitespace (turn_content b)]"
    using assms(4,6) by (simp add: renderExchangeParts_def Let_def bodyLinesOf_def packBodyLines_def headLineOf_def)
  then have "length (written_rows h ?x) = 1" using written_rows_columns(4) [of h ?x] by simp
  then obtain r where r: "written_rows h ?x = [r]" by (metis length_0_conv length_Suc_conv One_nat_def)
  show ?thesis
    using written_rows_columns(1) [of h ?x] written_rows_columns(5) [of r h ?x] unfolding rows parts r by (simp add: turns_of_def)
qed

lemma one_row_mixes_namespaces_witness:
  "map xc_namespace (extractExchanges rev [sample_turn ''t1'' ''ana'' True ''go'', sample_turn ''t2'' ''bob'' False ''the merger closes'']) = [''ana''] \<and>
   map xc_content (extractExchanges rev [sample_turn ''t1'' ''ana'' True ''go'', sample_turn ''t2'' ''bob'' False ''the merger closes'']) =
     [''OPERATOR: go'' @ [nl, nl] @ ''agent: the merger closes'']"
proof -
  let ?a = "sample_turn ''t1'' ''ana'' True ''go''" and ?b = "sample_turn ''t2'' ''bob'' False ''the merger closes''"
  have b: "normalizeWhitespace (turn_content ?b) = ''the merger closes''" by (simp add: sample_turn_def text_simps)
  have "isOperatorTurn ?a" "\<not> isOperatorTurn ?b" "turn_session_ref ?a = turn_session_ref ?b"
    by (simp_all add: sample_turn_def isOperatorTurn_def isAskUserQuestionAnswer_def)
  moreover have "\<not> isHarnessNoise (operatorTextOf ?a)" unfolding sample_facts by (simp add: isHarnessNoise_def starts_with_def text_simps)
  ultimately show ?thesis
    using one_row_mixes_namespaces [of ?a ?b rev] b sample_facts(1) by (simp add: sample_turn_def bodyLabel_def)
qed

subsection \<open>Markers that never match\<close>

text \<open>An alternative closed by \<open>\b\<close> that ends in no word character needs a word character next.\<close>

lemma closed_punctuation: "\<not> word_char (last w) \<Longrightarrow> marker_here [(w, True)] (w @ rest) \<Longrightarrow> rest \<noteq> [] \<and> word_char (hd rest)"
  by (cases rest) (simp_all add: marker_here_def at_boundary_def)

lemma closed_stem: "word_char (last w) \<Longrightarrow> marker_here [(w, True)] (w @ rest) \<Longrightarrow> rest = [] \<or> \<not> word_char (hd rest)"
  by (cases rest) (simp_all add: marker_here_def at_boundary_def)

lemma unmatched_markers:
  "\<not> test_markers CORRECTION_RE ''No, use the other port'' \<and> \<not> test_markers DECISION_RE ''We decided on the queue'' \<and> \<not> ACK_RE ''.''"
  by code_simp

end
