(* ===== verification/ExchangeSweep.thy ===== *)
theory ExchangeSweep
  imports DistillExchange
begin

text \<open>
  The sweep over exchanges (\<open>server/maintenance/distill-exchange-run.ts\<close> with the statements of
  \<open>server/db/distill-exchange-repository.ts\<close>): read the turns, cut and render them, embedFn, and write the rows in one
  transaction, each part linked to the head of its exchange; and the backfill of missing embeddings.

  The table \<open>candidate_memory\<close> is the list of its rows in the order of writing, with its unique index and its checks; the
  ids it gives and the embedding provider are arguments.
\<close>

subsection \<open>The table\<close>

record 'v candidate_row =
  row_id :: string
  row_is_exchange :: bool
  row_candidate :: exchange_candidate
  row_vector :: "'v option"
  row_parent :: "string option"

type_synonym 'v candidate_table = "'v candidate_row list"

datatype db_error = Check_violation | Foreign_key_violation

definition key_of :: "exchange_candidate \<Rightarrow> string \<times> string" where
  "key_of c = (xc_namespace c, xc_content_hash c)"

abbreviation row_key :: "'v candidate_row \<Rightarrow> string \<times> string" where
  "row_key r \<equiv> key_of (row_candidate r)"

text \<open>\<open>readTurnWindow\<close>.\<close>

definition readTurnWindow :: "string option \<Rightarrow> nat \<Rightarrow> raw_turn list \<Rightarrow> distill_turn list" where
  "readTurnWindow ns maxTurns store =
     map raw_of (take maxTurns (sort_by turn_le
       (filter (\<lambda>r. raw_live r \<and> (case ns of None \<Rightarrow> True | Some n \<Rightarrow> turn_namespace (raw_of r) = n)) store)))"

text \<open>The insert: the checks first, then the conflict on namespace and hash, then the parent.\<close>

definition insertCandidate ::
    "('v candidate_table \<Rightarrow> string) \<Rightarrow> 'v candidate_table \<Rightarrow> exchange_candidate \<Rightarrow> 'v option \<Rightarrow> string option \<Rightarrow>
     db_error + ('v candidate_table \<times> string option)" where
  "insertCandidate newId mem c vector parent =
     (if \<not> passes_checks c \<or> (parent = None) \<noteq> (xc_chunk_index c = None) then Inl Check_violation
      else if key_of c \<in> row_key ` set mem then Inr (mem, None)
      else case parent of
             Some p \<Rightarrow> if p \<in> row_id ` set mem
               then Inr (mem @ [\<lparr>row_id = newId mem, row_is_exchange = True, row_candidate = c, row_vector = vector, row_parent = parent\<rparr>], Some (newId mem))
               else Inl Foreign_key_violation
           | None \<Rightarrow> Inr (mem @ [\<lparr>row_id = newId mem, row_is_exchange = True, row_candidate = c, row_vector = vector, row_parent = None\<rparr>], Some (newId mem)))"

definition readUnembeddedCandidates :: "string option \<Rightarrow> nat \<Rightarrow> 'v candidate_table \<Rightarrow> 'v candidate_row list" where
  "readUnembeddedCandidates ns limit mem =
     take limit (filter (\<lambda>r. row_is_exchange r \<and> row_vector r = None \<and>
       (case ns of None \<Rightarrow> True | Some n \<Rightarrow> xc_namespace (row_candidate r) = n)) mem)"

definition setCandidateEmbedding :: "string \<Rightarrow> string \<Rightarrow> 'v \<Rightarrow> 'v candidate_table \<Rightarrow> 'v candidate_table" where
  "setCandidateEmbedding i ns embedding mem =
     map (\<lambda>r. if row_id r = i \<and> xc_namespace (row_candidate r) = ns \<and> row_vector r = None then r\<lparr>row_vector := Some embedding\<rparr> else r) mem"

subsection \<open>Embeddings\<close>

text \<open>The map by content hash. The result also says how many texts the provider refused.\<close>

fun resolve_embeddings :: "(string \<Rightarrow> 'v option) \<Rightarrow> (string \<Rightarrow> 'v option option) \<Rightarrow> nat \<Rightarrow> exchange_candidate list \<Rightarrow>
    (string \<Rightarrow> 'v option option) \<times> nat" where
  "resolve_embeddings embedFn byHash failures [] = (byHash, failures)"
| "resolve_embeddings embedFn byHash failures (c # cs) =
     (if byHash (xc_content_hash c) \<noteq> None then resolve_embeddings embedFn byHash failures cs
      else case embedFn (xc_content c) of
             Some v \<Rightarrow> resolve_embeddings embedFn (byHash(xc_content_hash c := Some (Some v))) failures cs
           | None \<Rightarrow> resolve_embeddings embedFn (byHash(xc_content_hash c := Some None)) (failures + 1) cs)"

definition resolveEmbeddings :: "(string \<Rightarrow> 'v option) \<Rightarrow> exchange_candidate list \<Rightarrow> (string \<Rightarrow> 'v option option) \<times> nat" where
  "resolveEmbeddings embedFn cs = resolve_embeddings embedFn (\<lambda>_. None) 0 cs"

definition vector_for :: "(string \<Rightarrow> 'v option option) \<Rightarrow> exchange_candidate \<Rightarrow> 'v option" where
  "vector_for byHash c = (case byHash (xc_content_hash c) of None \<Rightarrow> None | Some v \<Rightarrow> v)"

subsection \<open>Writing\<close>

record exchange_summary =
  turns_read :: nat
  sessions :: nat
  exchanges :: nat
  operator_anchored :: nat
  auq_anchored :: nat
  orphans :: nat
  written :: nat
  duplicate :: nat
  uncertain_rows :: nat
  embeddings_missing :: nat
  missing_session_seq :: nat

definition emptySummary :: exchange_summary where
  "emptySummary = \<lparr>turns_read = 0, sessions = 0, exchanges = 0, operator_anchored = 0, auq_anchored = 0, orphans = 0, written = 0,
     duplicate = 0, uncertain_rows = 0, embeddings_missing = 0, missing_session_seq = 0\<rparr>"

definition countWritten :: "exchange_candidate \<Rightarrow> 'v option \<Rightarrow> exchange_summary \<Rightarrow> exchange_summary" where
  "countWritten c vector s =
     s\<lparr>written := written s + 1, embeddings_missing := embeddings_missing s + (if vector = None then 1 else 0),
       uncertain_rows := uncertain_rows s + (if xc_uncertain c then 1 else 0)\<rparr>"

definition persistOne ::
    "('v candidate_table \<Rightarrow> string) \<Rightarrow> exchange_candidate \<Rightarrow> 'v option \<Rightarrow> string option \<Rightarrow> 'v candidate_table \<Rightarrow> exchange_summary \<Rightarrow>
     db_error + ('v candidate_table \<times> exchange_summary \<times> string option)" where
  "persistOne newId c vector head mem s =
     (let isPart = xc_chunk_index c \<noteq> None
      in if isPart \<and> head = None then Inr (mem, s\<lparr>duplicate := duplicate s + 1\<rparr>, head)
         else case insertCandidate newId mem c vector (if isPart then head else None) of
                Inl e \<Rightarrow> Inl e
              | Inr (mem, inserted) \<Rightarrow>
                  Inr (mem, if inserted \<noteq> None then countWritten c vector s else s\<lparr>duplicate := duplicate s + 1\<rparr>,
                       if isPart then head else inserted))"

fun persist :: "('v candidate_table \<Rightarrow> string) \<Rightarrow> (string \<Rightarrow> 'v option option) \<Rightarrow> string option \<Rightarrow> exchange_candidate list \<Rightarrow>
    'v candidate_table \<Rightarrow> exchange_summary \<Rightarrow> db_error + ('v candidate_table \<times> exchange_summary)" where
  "persist newId embeddings head [] mem s = Inr (mem, s)"
| "persist newId embeddings head (c # cs) mem s =
     (case persistOne newId c (vector_for embeddings c) head mem s of
        Inl e \<Rightarrow> Inl e
      | Inr (mem, s, head) \<Rightarrow> persist newId embeddings head cs mem s)"

subsection \<open>The sweep\<close>

record 'v sweep_deps =
  sweep_namespace :: "string option"
  sweep_embed :: "string \<Rightarrow> 'v option"
  skip_embeddings :: bool
  max_turns :: "int option"

text \<open>A failed write rolls back and the error is thrown on.\<close>

definition runExchangeSweep :: "('v candidate_table \<Rightarrow> string) \<Rightarrow> (string \<Rightarrow> string) \<Rightarrow> 'v sweep_deps \<Rightarrow> raw_turn list \<Rightarrow> 'v candidate_table \<Rightarrow>
    'v candidate_table \<times> (db_error + exchange_summary)" where
  "runExchangeSweep newId contentHash deps store mem =
     (let limit = nat (bound_of (max_turns deps) 20000 1 200000);
          turns = readTurnWindow (sweep_namespace deps) limit store;
          s = emptySummary\<lparr>turns_read := length turns, sessions := length (remdups (map turn_session_ref turns)),
                missing_session_seq := length (filter (\<lambda>t. turn_session_seq t = None) turns)\<rparr>
      in if turns = [] then (mem, Inr s)
         else let cs = extractExchanges contentHash turns;
                  anchored = length (filter (\<lambda>c. xc_anchor_turn_id c \<noteq> None) cs);
                  s = s\<lparr>exchanges := length cs, operator_anchored := anchored,
                        auq_anchored := length (filter (\<lambda>c. xc_anchor_kind c = Askuserquestion) cs), orphans := length cs - anchored\<rparr>;
                  embeddings = (if skip_embeddings deps then (\<lambda>_. None) else fst (resolveEmbeddings (sweep_embed deps) cs))
              in case persist newId embeddings None cs mem s of Inl e \<Rightarrow> (mem, Inl e) | Inr (mem', s) \<Rightarrow> (mem', Inr s))"

subsection \<open>Backfill\<close>

fun backfill_rows :: "(string \<Rightarrow> 'v option) \<Rightarrow> 'v candidate_row list \<Rightarrow> 'v candidate_table \<Rightarrow> nat \<Rightarrow> nat \<Rightarrow> 'v candidate_table \<times> nat \<times> nat" where
  "backfill_rows embedFn [] mem filled failed = (mem, filled, failed)"
| "backfill_rows embedFn (r # rs) mem filled failed =
     (case embedFn (xc_content (row_candidate r)) of
        None \<Rightarrow> backfill_rows embedFn rs mem filled (failed + 1)
      | Some v \<Rightarrow> backfill_rows embedFn rs (setCandidateEmbedding (row_id r) (xc_namespace (row_candidate r)) v mem) (filled + 1) failed)"

definition backfillExchangeEmbeddings :: "(string \<Rightarrow> 'v option) \<Rightarrow> string option \<Rightarrow> int option \<Rightarrow> 'v candidate_table \<Rightarrow>
    'v candidate_table \<times> nat \<times> nat \<times> nat" where
  "backfillExchangeEmbeddings embedFn ns limit mem =
     (let rows = readUnembeddedCandidates ns (nat (bound_of limit 1000 1 10000)) mem;
          (mem', filled, failed) = backfill_rows embedFn rows mem 0 0
      in (mem', length rows, filled, failed))"

subsection \<open>Links\<close>

definition fresh_ids :: "('v candidate_table \<Rightarrow> string) \<Rightarrow> bool" where
  "fresh_ids newId \<longleftrightarrow> (\<forall>mem. newId mem \<notin> row_id ` set mem)"

definition heads :: "'v candidate_row \<Rightarrow> exchange_candidate \<Rightarrow> bool" where
  "heads q c \<longleftrightarrow> row_parent q = None \<and> xc_namespace (row_candidate q) = xc_namespace c \<and>
     xc_source_turn_ids (row_candidate q) = xc_source_turn_ids c"

text \<open>Ids and keys are unique; a part, and only a part, points at a head of its namespace that names the same turns.\<close>

definition table_ok :: "'v candidate_table \<Rightarrow> bool" where
  "table_ok mem \<longleftrightarrow> distinct (map row_id mem) \<and> distinct (map row_key mem) \<and>
     (\<forall>r \<in> set mem. (row_parent r = None) = (xc_chunk_index (row_candidate r) = None) \<and>
        (\<forall>p. row_parent r = Some p \<longrightarrow> (\<exists>q \<in> set mem. row_id q = p \<and> heads q (row_candidate r))))"

definition exchange_row :: "string \<Rightarrow> exchange_candidate \<Rightarrow> 'v option \<Rightarrow> string option \<Rightarrow> 'v candidate_row" where
  "exchange_row i c vector parent = \<lparr>row_id = i, row_is_exchange = True, row_candidate = c, row_vector = vector, row_parent = parent\<rparr>"

lemma exchange_row_simps [simp]:
  "row_id (exchange_row i c vector parent) = i" "row_candidate (exchange_row i c vector parent) = c" "row_parent (exchange_row i c vector parent) = parent"
  by (simp_all add: exchange_row_def)

lemma table_ok_add:
  assumes "table_ok mem" "i \<notin> row_id ` set mem" "key_of c \<notin> row_key ` set mem" "(parent = None) = (xc_chunk_index c = None)"
    "\<And>p. parent = Some p \<Longrightarrow> \<exists>q \<in> set mem. row_id q = p \<and> heads q c"
  shows "table_ok (mem @ [exchange_row i c vector parent])"
  using assms unfolding table_ok_def by (auto; blast)

text \<open>What the current head stands for: the last head of the list, written by this run.\<close>

definition head_ok :: "'v candidate_table \<Rightarrow> string option \<Rightarrow> exchange_candidate option \<Rightarrow> bool" where
  "head_ok mem head k \<longleftrightarrow> (case head of None \<Rightarrow> True
     | Some i \<Rightarrow> (case k of None \<Rightarrow> False | Some c \<Rightarrow> \<exists>q \<in> set mem. row_id q = i \<and> heads q c))"

fun well_cut :: "exchange_candidate option \<Rightarrow> exchange_candidate list \<Rightarrow> bool" where
  "well_cut k [] = True"
| "well_cut k (c # cs) = (passes_checks c \<and>
     (if xc_chunk_index c = None then well_cut (Some c) cs
      else (case k of None \<Rightarrow> False | Some h \<Rightarrow> xc_namespace c = xc_namespace h \<and> xc_source_turn_ids c = xc_source_turn_ids h) \<and> well_cut k cs))"

lemma insertCandidate_ok:
  assumes "passes_checks c" "(parent = None) = (xc_chunk_index c = None)" "parent \<noteq> None \<Longrightarrow> the parent \<in> row_id ` set mem"
  shows "insertCandidate newId mem c vector parent =
    Inr (if key_of c \<in> row_key ` set mem then (mem, None) else (mem @ [exchange_row (newId mem) c vector parent], Some (newId mem)))"
  using assms by (cases parent) (simp_all add: insertCandidate_def exchange_row_def)

text \<open>One candidate: what it leaves, written or not.\<close>

lemma persistOne_step:
  assumes "table_ok mem" "fresh_ids newId" "head_ok mem head k" "well_cut k (c # cs)"
  obtains mem' s' head' where "persistOne newId c vector head mem s = Inr (mem', s', head')"
    "table_ok mem'" "head_ok mem' head' (if xc_chunk_index c = None then Some c else k)"
    "(mem' = mem \<and> s' = s\<lparr>duplicate := duplicate s + 1\<rparr>) \<or>
     (key_of c \<notin> row_key ` set mem \<and> (\<exists>p. mem' = mem @ [exchange_row (newId mem) c vector p]) \<and> s' = countWritten c vector s)"
    "xc_chunk_index c = None \<Longrightarrow> key_of c \<in> row_key ` set mem'"
proof (cases "xc_chunk_index c = None")
  case True
  have pc: "passes_checks c" using assms(4) by simp
  have ins: "insertCandidate newId mem c vector None =
      Inr (if key_of c \<in> row_key ` set mem then (mem, None) else (mem @ [exchange_row (newId mem) c vector None], Some (newId mem)))"
    by (rule insertCandidate_ok) (use True pc in simp_all)
  show thesis
  proof (cases "key_of c \<in> row_key ` set mem")
    case known: True
    show thesis by (rule that [of mem "s\<lparr>duplicate := duplicate s + 1\<rparr>" None])
      (use True known ins assms(1) in \<open>simp_all add: persistOne_def Let_def head_ok_def\<close>)
  next
    case new: False
    have "table_ok (mem @ [exchange_row (newId mem) c vector None])"
      by (rule table_ok_add) (use assms(1,2) new True in \<open>simp_all add: fresh_ids_def\<close>)
    moreover have "heads (exchange_row (newId mem) c vector None) c" by (simp add: heads_def)
    ultimately show thesis
      by (intro that [of "mem @ [exchange_row (newId mem) c vector None]" "countWritten c vector s" "Some (newId mem)"])
        (use True new ins in \<open>auto simp: persistOne_def Let_def head_ok_def\<close>)
  qed
next
  case False
  show thesis
  proof (cases head)
    case None
    show thesis by (rule that [of mem "s\<lparr>duplicate := duplicate s + 1\<rparr>" None])
      (use False None assms(1) in \<open>simp_all add: persistOne_def Let_def head_ok_def\<close>)
  next
    case (Some i)
    then obtain h q where h: "k = Some h" "q \<in> set mem" "row_id q = i" "heads q h" using assms(3) by (auto simp: head_ok_def split: option.splits)
    then have q: "heads q c" using assms(4) False by (simp add: heads_def)
    have ins: "insertCandidate newId mem c vector head =
        Inr (if key_of c \<in> row_key ` set mem then (mem, None) else (mem @ [exchange_row (newId mem) c vector head], Some (newId mem)))"
      by (rule insertCandidate_ok) (use False Some h assms(4) in auto)
    show thesis
    proof (cases "key_of c \<in> row_key ` set mem")
      case known: True
      show thesis by (rule that [of mem "s\<lparr>duplicate := duplicate s + 1\<rparr>" head])
        (use False Some known ins assms(1,3) in \<open>auto simp: persistOne_def Let_def\<close>)
    next
      case new: False
      have "table_ok (mem @ [exchange_row (newId mem) c vector head])"
        by (rule table_ok_add) (use assms(1,2) new False Some h q in \<open>auto simp: fresh_ids_def\<close>)
      moreover have "head_ok (mem @ [exchange_row (newId mem) c vector head]) head k" using Some h by (auto simp: head_ok_def)
      ultimately show thesis
        by (intro that [of "mem @ [exchange_row (newId mem) c vector head]" "countWritten c vector s" head])
          (use False Some new ins in \<open>auto simp: persistOne_def Let_def\<close>)
    qed
  qed
qed

lemma countWritten_counts [simp]:
  "written (countWritten c v s) = written s + 1" "duplicate (countWritten c v s) = duplicate s" "exchanges (countWritten c v s) = exchanges s"
  by (simp_all add: countWritten_def)

lemma persist_all:
  assumes "table_ok mem" "fresh_ids newId" "head_ok mem head k" "well_cut k cs"
  shows "\<exists>ext s'. persist newId embeddings head cs mem s = Inr (mem @ ext, s') \<and> table_ok (mem @ ext) \<and>
    written s' + duplicate s' = written s + duplicate s + length cs \<and> written s' = written s + length ext \<and> exchanges s' = exchanges s \<and>
    key_of ` set (filter (\<lambda>c. xc_chunk_index c = None) cs) \<subseteq> row_key ` set (mem @ ext) \<and>
    set (map row_candidate ext) \<subseteq> set cs"
  using assms(1,3,4)
proof (induction cs arbitrary: mem head k s)
  case (Cons c cs)
  obtain mem' s' head' where one: "persistOne newId c (vector_for embeddings c) head mem s = Inr (mem', s', head')"
      "table_ok mem'" "head_ok mem' head' (if xc_chunk_index c = None then Some c else k)"
      "(mem' = mem \<and> s' = s\<lparr>duplicate := duplicate s + 1\<rparr>) \<or>
       (key_of c \<notin> row_key ` set mem \<and> (\<exists>p. mem' = mem @ [exchange_row (newId mem) c (vector_for embeddings c) p]) \<and> s' = countWritten c (vector_for embeddings c) s)"
      "xc_chunk_index c = None \<Longrightarrow> key_of c \<in> row_key ` set mem'"
    by (rule persistOne_step [where vector = "vector_for embeddings c" and s = s, OF Cons.prems(1) assms(2) Cons.prems(2,3)]) (rule that)
  have "well_cut (if xc_chunk_index c = None then Some c else k) cs" using Cons.prems(3) by (simp split: if_splits)
  from Cons.IH [OF one(2,3) this, of s'] obtain ext s'' where
    IH: "persist newId embeddings head' cs mem' s' = Inr (mem' @ ext, s'')" "table_ok (mem' @ ext)"
      "written s'' + duplicate s'' = written s' + duplicate s' + length cs" "written s'' = written s' + length ext" "exchanges s'' = exchanges s'"
      "key_of ` set (filter (\<lambda>c. xc_chunk_index c = None) cs) \<subseteq> row_key ` set (mem' @ ext)" "set (map row_candidate ext) \<subseteq> set cs"
    by blast
  obtain add where add: "mem' = mem @ add" "set (map row_candidate add) \<subseteq> {c}" "written s' + duplicate s' = written s + duplicate s + 1"
      "written s' = written s + length add" "exchanges s' = exchanges s"
    using one(4) by auto
  show ?case
    by (intro exI [of _ "add @ ext"] exI [of _ s'']) (use one(1,5) IH add in \<open>auto simp: image_subset_iff\<close>)
qed simp

text \<open>The rows of an extraction.\<close>

lemma well_cut_append: "(\<And>k. well_cut k xs) \<Longrightarrow> (\<And>k. well_cut k ys) \<Longrightarrow> well_cut k (xs @ ys)"
proof -
  assume "\<And>k. well_cut k xs" and ys: "\<And>k. well_cut k ys"
  moreover have "well_cut k xs \<Longrightarrow> well_cut k (xs @ ys)" for k by (induction k xs rule: well_cut.induct) (simp_all add: ys split: if_splits)
  ultimately show ?thesis by blast
qed

lemma well_cut_rows:
  assumes "renderable x"
  shows "well_cut k (written_rows h (effectiveExchange x))"
proof -
  let ?rs = "written_rows h (effectiveExchange x)"
  have "map xc_chunk_index ?rs = None # map Some [1 ..< length (renderExchangeParts (effectiveExchange x))]" by (rule written_rows_columns(3))
  then obtain c ps where cp: "?rs = c # ps" "xc_chunk_index c = None" "map xc_chunk_index ps = map Some [1 ..< length (renderExchangeParts (effectiveExchange x))]"
    by (cases ?rs) auto
  have index: "xc_chunk_index p \<noteq> None" if "p \<in> set ps" for p
  proof -
    have "xc_chunk_index p \<in> set (map xc_chunk_index ps)" using that by simp
    then show ?thesis unfolding cp(3) by auto
  qed
  have same: "passes_checks p \<and> xc_namespace p = xc_namespace c \<and> xc_source_turn_ids p = xc_source_turn_ids c" if p: "p \<in> set ?rs" for p
  proof -
    have "c \<in> set ?rs" unfolding cp(1) by simp
    from written_rows_columns(5) [OF this] written_rows_columns(5) [OF p] written_row_passes [OF assms p] show ?thesis by argo
  qed
  have "well_cut (Some c) qs" if "set qs \<subseteq> set ps" for qs
    using that
  proof (induction qs)
    case (Cons q qs)
    then have q: "q \<in> set ps" "set qs \<subseteq> set ps" by simp_all
    then have "q \<in> set ?rs" unfolding cp(1) by simp
    from same [OF this] index [OF q(1)] Cons.IH [OF q(2)] show ?case by auto
  qed simp
  moreover have "passes_checks c" using same [of c] unfolding cp(1) by simp
  ultimately show ?thesis using cp(2) unfolding cp(1) by simp
qed

lemma concat_well_cut: "well_cut k (concat (map (prepareExchange h) xs))"
  by (induction xs arbitrary: k) (auto intro!: well_cut_append simp: prepareExchange_renderable well_cut_rows)

lemma extraction_well_cut: "well_cut k (extractExchanges h turns)"
  by (simp add: extractExchanges_def concat_well_cut)

lemma sweep_result:
  assumes "table_ok mem" "fresh_ids newId"
  shows "\<exists>ext s. runExchangeSweep newId h deps store mem = (mem @ ext, Inr s) \<and> table_ok (mem @ ext) \<and>
    written s + duplicate s = exchanges s \<and> written s = length ext \<and>
    (let cs = extractExchanges h (readTurnWindow (sweep_namespace deps) (nat (bound_of (max_turns deps) 20000 1 200000)) store)
     in key_of ` set (filter (\<lambda>c. xc_chunk_index c = None) cs) \<subseteq> row_key ` set (mem @ ext) \<and> set (map row_candidate ext) \<subseteq> set cs)"
proof -
  let ?turns = "readTurnWindow (sweep_namespace deps) (nat (bound_of (max_turns deps) 20000 1 200000)) store"
  let ?cs = "extractExchanges h ?turns"
  show ?thesis
  proof (cases "?turns = []")
    case True
    then show ?thesis using assms(1)
      by (simp add: runExchangeSweep_def Let_def emptySummary_def extractExchanges_def buildExchanges_def flush_def)
  next
    case False
    have hd: "head_ok mem None None" by (simp add: head_ok_def)
    let ?e = "if skip_embeddings deps then (\<lambda>_. None) else fst (resolveEmbeddings (sweep_embed deps) ?cs)"
    let ?s = "emptySummary\<lparr>turns_read := length ?turns, sessions := length (remdups (map turn_session_ref ?turns)),
        missing_session_seq := length (filter (\<lambda>t. turn_session_seq t = None) ?turns), exchanges := length ?cs,
        operator_anchored := length (filter (\<lambda>c. xc_anchor_turn_id c \<noteq> None) ?cs),
        auq_anchored := length (filter (\<lambda>c. xc_anchor_kind c = Askuserquestion) ?cs),
        orphans := length ?cs - length (filter (\<lambda>c. xc_anchor_turn_id c \<noteq> None) ?cs)\<rparr>"
    have run: "runExchangeSweep newId h deps store mem =
        (case persist newId ?e None ?cs mem ?s of Inl e \<Rightarrow> (mem, Inl e) | Inr (mem', s) \<Rightarrow> (mem', Inr s))"
      using False by (simp add: runExchangeSweep_def Let_def)
    have start: "written ?s = 0" "duplicate ?s = 0" "exchanges ?s = length ?cs" by (simp_all add: emptySummary_def)
    obtain ext s' where p: "persist newId ?e None ?cs mem ?s = Inr (mem @ ext, s')" "table_ok (mem @ ext)"
        "written s' + duplicate s' = written ?s + duplicate ?s + length ?cs" "written s' = written ?s + length ext" "exchanges s' = exchanges ?s"
        "key_of ` set (filter (\<lambda>c. xc_chunk_index c = None) ?cs) \<subseteq> row_key ` set (mem @ ext)" "set (map row_candidate ext) \<subseteq> set ?cs"
      using persist_all [OF assms hd extraction_well_cut] by meson
    show ?thesis unfolding run p(1) Let_def by (intro exI [of _ ext] exI [of _ s']) (use p(2-7) start in simp)
  qed
qed

lemma sweep_commits:
  assumes "table_ok mem" "fresh_ids newId"
  shows "\<exists>mem' s. runExchangeSweep newId h deps store mem = (mem', Inr s)"
  using sweep_result [OF assms, of h deps store] by blast

text \<open>C36: a sweep never fails on its own rows and never tears an exchange. It only adds rows, all from the exchanges it cut;
  ids and keys stay unique, and every part it writes points at the first row of its own exchange - same namespace, same
  turns; and what it reports adds up.\<close>

theorem sweep_links_every_part:
  assumes "table_ok mem" "fresh_ids newId"
  shows "\<exists>ext s. runExchangeSweep newId h deps store mem = (mem @ ext, Inr s) \<and> table_ok (mem @ ext) \<and>
    set (map row_candidate ext) \<subseteq>
      set (extractExchanges h (readTurnWindow (sweep_namespace deps) (nat (bound_of (max_turns deps) 20000 1 200000)) store)) \<and>
    written s = length ext \<and> written s + duplicate s = exchanges s"
  using sweep_result [OF assms, of h deps store] by (auto simp: Let_def)

definition long_id :: "'v candidate_table \<Rightarrow> string" where
  "long_id mem = replicate (Suc (sum_list (map (\<lambda>r. length (row_id r)) mem))) (CHR ''i'')"

lemma long_id_fresh: "fresh_ids long_id"
proof -
  have "length (row_id r) \<le> sum_list (map (\<lambda>r. length (row_id r)) mem)" if "r \<in> set mem" for mem :: "'v candidate_table" and r
    using that by (intro member_le_sum_list) auto
  then have "length (row_id r) < length (long_id mem)" if "r \<in> set mem" for mem :: "'v candidate_table" and r
    unfolding long_id_def length_replicate using that by (metis less_Suc_eq_le)
  then show ?thesis unfolding fresh_ids_def by fastforce
qed

abbreviation all_turns :: "nat sweep_deps" where
  "all_turns \<equiv> \<lparr>sweep_namespace = None, sweep_embed = (\<lambda>t. Some (length t)), skip_embeddings = False, max_turns = None\<rparr>"

lemma sweep_links_every_part_witness:
  "\<exists>ext s. runExchangeSweep long_id rev all_turns [claim_sample ''t1'' ''user'' 1] [] = (ext, Inr s) \<and> table_ok ext \<and> written s = length ext"
proof -
  have "table_ok ([] :: nat candidate_table)" by (simp add: table_ok_def)
  from sweep_links_every_part [OF this long_id_fresh, of rev all_turns "[claim_sample ''t1'' ''user'' 1]"] show ?thesis by auto
qed

lemma persist_known:
  assumes "well_cut k cs" "key_of ` set (filter (\<lambda>c. xc_chunk_index c = None) cs) \<subseteq> row_key ` set mem"
  shows "persist newId embeddings None cs mem s = Inr (mem, s\<lparr>duplicate := duplicate s + length cs\<rparr>)"
  using assms
proof (induction cs arbitrary: k s)
  case (Cons c cs)
  let ?s = "s\<lparr>duplicate := duplicate s + 1\<rparr>"
  have "persistOne newId c (vector_for embeddings c) None mem s = Inr (mem, ?s, None)"
  proof (cases "xc_chunk_index c = None")
    case True
    then have "key_of c \<in> row_key ` set mem" "passes_checks c" using Cons.prems by auto
    then show ?thesis using True by (simp add: persistOne_def Let_def insertCandidate_def)
  qed (simp add: persistOne_def Let_def)
  moreover have "well_cut (if xc_chunk_index c = None then Some c else k) cs" using Cons.prems(1) by (simp split: if_splits)
  moreover have "key_of ` set (filter (\<lambda>c. xc_chunk_index c = None) cs) \<subseteq> row_key ` set mem" using Cons.prems(2) by (auto split: if_splits)
  ultimately show ?case using Cons.IH by simp
qed simp

text \<open>C37: a sweep repeated on the same turns writes nothing, whichever ids and embeddings the second run has.\<close>

theorem second_sweep_writes_nothing:
  assumes "table_ok mem" "fresh_ids newId" "runExchangeSweep newId h deps store mem = (mem', res)"
    "deps' = deps\<lparr>sweep_embed := embed'\<rparr>"
  shows "\<exists>s. runExchangeSweep newId' h deps' store mem' = (mem', Inr s) \<and> written s = 0 \<and> duplicate s = exchanges s"
proof -
  let ?turns = "readTurnWindow (sweep_namespace deps) (nat (bound_of (max_turns deps) 20000 1 200000)) store"
  let ?cs = "extractExchanges h ?turns"
  have known: "key_of ` set (filter (\<lambda>c. xc_chunk_index c = None) ?cs) \<subseteq> row_key ` set mem'"
    using sweep_result [OF assms(1,2), of h deps store] assms(3) by (auto simp: Let_def)
  show ?thesis
  proof (cases "?turns = []")
    case True
    then show ?thesis using assms(4) by (simp add: runExchangeSweep_def Let_def emptySummary_def)
  next
    case False
    then show ?thesis
      using persist_known [OF extraction_well_cut known] assms(4) by (simp add: runExchangeSweep_def Let_def emptySummary_def)
  qed
qed

lemma second_sweep_writes_nothing_witness:
  "\<exists>s. runExchangeSweep long_id rev all_turns [claim_sample ''t1'' ''user'' 1]
      (fst (runExchangeSweep long_id rev all_turns [claim_sample ''t1'' ''user'' 1] [])) =
    (fst (runExchangeSweep long_id rev all_turns [claim_sample ''t1'' ''user'' 1] []), Inr s) \<and> written s = 0"
proof -
  let ?run = "runExchangeSweep long_id rev all_turns [claim_sample ''t1'' ''user'' 1] []"
  have "table_ok ([] :: nat candidate_table)" by (simp add: table_ok_def)
  from second_sweep_writes_nothing [OF this long_id_fresh, of rev all_turns "[claim_sample ''t1'' ''user'' 1]" "fst ?run" "snd ?run" all_turns
      "sweep_embed all_turns" long_id]
  show ?thesis by auto
qed

subsection \<open>A part without its head\<close>

lemma normalize_letters:
  assumes "c \<noteq> nl" "\<not> js_ws c" "0 < n"
  shows "normalizeWhitespace (replicate n c) = replicate n c"
proof -
  have "c \<noteq> CHR '' ''" "c \<noteq> tab" using assms(2) by (auto simp: js_ws_def tab_def)
  then have b: "collapse_blanks inside (replicate n c) = replicate n c" for inside by (induction n arbitrary: inside) auto
  have l: "collapse_lines k (replicate n c) = replicate n c" for k using assms(1) by (induction n arbitrary: k) auto
  have w: "dropWhile js_ws (replicate n c) = replicate n c" using assms(2) by (cases n) auto
  show ?thesis using assms(2) by (simp add: normalizeWhitespace_def b l trim_def trim_start_def w)
qed

definition reply_of :: "string \<Rightarrow> string \<Rightarrow> char \<Rightarrow> distill_turn" where
  "reply_of i session c = (sample_turn i ''ana'' False (replicate 2000 c))\<lparr>turn_session_ref := Some session\<rparr>"

definition prompt_of :: "string \<Rightarrow> string \<Rightarrow> distill_turn" where
  "prompt_of i session = (sample_turn i ''ana'' True ''go'')\<lparr>turn_session_ref := Some session\<rparr>"

definition two_sessions :: "distill_turn list" where
  "two_sessions = [prompt_of ''t1'' ''s1'', reply_of ''t2'' ''s1'' CHR ''x'', reply_of ''t3'' ''s1'' CHR ''y'',
                   prompt_of ''t4'' ''s2'', reply_of ''t5'' ''s2'' CHR ''x'', reply_of ''t6'' ''s2'' CHR ''z'']"

definition two_replies :: "string \<Rightarrow> string \<Rightarrow> string \<Rightarrow> string \<Rightarrow> char \<Rightarrow> exchange" where
  "two_replies i j k session c = \<lparr>exch_anchor = Some (prompt_of i session), exch_body = [reply_of j session CHR ''x'', reply_of k session c],
     exch_session_ref = Some session, exch_anchor_kind = Typed\<rparr>"

lemma two_sessions_cut: "buildExchanges two_sessions = [two_replies ''t1'' ''t2'' ''t3'' ''s1'' CHR ''y'', two_replies ''t4'' ''t5'' ''t6'' ''s2'' CHR ''z'']"
  by (simp add: buildExchanges_def two_sessions_def two_replies_def cut_step flush_def isOperatorTurn_def isAskUserQuestionAnswer_def
      prompt_of_def reply_of_def sample_turn_def anchorKindOf_def)

lemma prompt_words: "operatorTextOf (prompt_of i session) = ''go''"
  by (simp add: prompt_of_def sample_turn_def text_simps)

lemma two_replies_parts:
  assumes "c = CHR ''y'' \<or> c = CHR ''z''"
  shows "effectiveExchange (two_replies i j k session c) = two_replies i j k session c"
    "renderable (two_replies i j k session c)"
    "renderExchangeParts (two_replies i j k session c) =
      [''OPERATOR: go'' @ [nl, nl] @ ''[part 1 of 2]'' @ [nl] @ ''agent: '' @ replicate 2000 CHR ''x'',
       ''OPERATOR: go'' @ [nl, nl] @ ''[part 2 of 2]'' @ [nl] @ ''agent: '' @ replicate 2000 c]"
proof -
  let ?x = "two_replies i j k session c"
  have "\<not> isHarnessNoise ''go''" by (simp add: isHarnessNoise_def starts_with_def text_simps)
  then show e: "effectiveExchange ?x = ?x" by (simp add: effectiveExchange_def two_replies_def prompt_words Let_def)
  then show "renderable ?x" by (simp add: renderable_def two_replies_def)
  have c: "c \<noteq> nl" "\<not> js_ws c" using assms by (auto simp: nl_def js_ws_def)
  have x: "CHR ''x'' \<noteq> nl" "\<not> js_ws CHR ''x''" by (simp_all add: nl_def js_ws_def)
  have body: "bodyLinesOf ?x = [''agent: '' @ replicate 2000 CHR ''x'', ''agent: '' @ replicate 2000 c]"
    using normalize_letters [OF c, of 2000] normalize_letters [OF x, of 2000]
    by (simp add: bodyLinesOf_def two_replies_def reply_of_def sample_turn_def bodyLabel_def)
  have head: "headLineOf ?x = ''OPERATOR: go''" by (simp add: headLineOf_def two_replies_def prompt_words)
  have "part_groups ?x = [[''agent: '' @ replicate 2000 CHR ''x''], [''agent: '' @ replicate 2000 c]]"
    by (simp add: part_groups_def body part_budget_def continuation_head_def head Let_def HEAD_PACKING_ESTIMATE_def CANDIDATE_PART_CHARS_def
        MARKER_RESERVE_def)
  moreover have "bodyLinesOf ?x \<noteq> []" using body by simp
  moreover have markers: "part_marker 0 (Suc (Suc 0)) = ''[part 1 of 2]''" "part_marker (Suc 0) (Suc (Suc 0)) = ''[part 2 of 2]''" by code_simp+
  ultimately show "renderExchangeParts ?x =
      [''OPERATOR: go'' @ [nl, nl] @ ''[part 1 of 2]'' @ [nl] @ ''agent: '' @ replicate 2000 CHR ''x'',
       ''OPERATOR: go'' @ [nl, nl] @ ''[part 2 of 2]'' @ [nl] @ ''agent: '' @ replicate 2000 c]"
    using parts_are_groups(1) [of ?x]
    by (simp add: part_text_def head markers continuation_head_def Let_def HEAD_PACKING_ESTIMATE_def upt_rec)
qed

lemma two_rows:
  assumes "renderExchangeParts e = [a, b]"
  obtains r q where "written_rows h e = [r, q]" "key_of r = (turn_namespace (hd (turns_of e)), h a)"
    "key_of q = (turn_namespace (hd (turns_of e)), h b)" "xc_chunk_index r = None"
proof -
  have "length (written_rows h e) = 2" using written_rows_columns(4) [of h e] assms by simp
  then obtain r q where rq: "written_rows h e = [r, q]" by (metis length_0_conv length_Suc_conv numeral_2_eq_2)
  have content: "xc_content r = a" "xc_content q = b" using written_rows_columns(1) [of h e] assms rq by simp_all
  have index: "xc_chunk_index r = None" using written_rows_columns(3) [of h e] rq by simp
  have "r \<in> set (written_rows h e)" "q \<in> set (written_rows h e)" using rq by simp_all
  from this [THEN written_rows_columns(5)] content have "key_of r = (turn_namespace (hd (turns_of e)), h a)"
    "key_of q = (turn_namespace (hd (turns_of e)), h b)" by (simp_all add: key_of_def)
  with that rq index show thesis by blast
qed

lemma persist_append:
  "persist newId embeddings head (cs @ ds) mem s = Inr (mem', s') \<Longrightarrow>
   \<exists>mem1 s1 head1. persist newId embeddings head cs mem s = Inr (mem1, s1) \<and> persist newId embeddings head1 ds mem1 s1 = Inr (mem', s')"
proof (induction cs arbitrary: head mem s)
  case (Cons c cs)
  obtain mem1 s1 head1 where one: "persistOne newId c (vector_for embeddings c) head mem s = Inr (mem1, s1, head1)"
    using Cons.prems by (auto split: sum.splits)
  with Cons.prems have "persist newId embeddings head1 (cs @ ds) mem1 s1 = Inr (mem', s')" by simp
  from Cons.IH [OF this] one show ?case by auto
qed auto

text \<open>Behind a head that was a duplicate, parts are skipped one after the other, unseen.\<close>

lemma parts_skipped:
  "\<forall>c \<in> set cs. xc_chunk_index c \<noteq> None \<Longrightarrow>
   persist newId embeddings None (cs @ ds) mem s = persist newId embeddings None ds mem (s\<lparr>duplicate := duplicate s + length cs\<rparr>)"
  by (induction cs arbitrary: s) (simp_all add: persistOne_def Let_def)

lemma known_head_skips:
  assumes "passes_checks r" "xc_chunk_index r = None" "key_of r \<in> row_key ` set mem" "\<forall>c \<in> set qs. xc_chunk_index c \<noteq> None"
  shows "persist newId embeddings head (r # qs @ ds) mem s =
    persist newId embeddings None ds mem (s\<lparr>duplicate := duplicate s + 1 + length qs\<rparr>)"
  using assms(1-3) by (simp add: persistOne_def Let_def insertCandidate_def parts_skipped [OF assms(4)])

lemma prepared_shape:
  assumes "prepareExchange h x = r # qs"
  shows "passes_checks r" "xc_chunk_index r = None" "\<forall>c \<in> set qs. xc_chunk_index c \<noteq> None"
proof -
  have "renderable x" using assms by (auto simp: prepareExchange_renderable split: if_splits)
  then have rows: "written_rows h (effectiveExchange x) = r # qs" using assms by (simp add: prepareExchange_renderable)
  have "well_cut None (r # qs)" using well_cut_rows [OF \<open>renderable x\<close>, of None h] unfolding rows .
  then show "passes_checks r" by simp
  have index: "xc_chunk_index r = None" "map xc_chunk_index qs = map Some [1 ..< length (renderExchangeParts (effectiveExchange x))]"
    using written_rows_columns(3) [of h "effectiveExchange x"] unfolding rows by simp_all
  show "xc_chunk_index r = None" by (rule index(1))
  show "\<forall>c \<in> set qs. xc_chunk_index c \<noteq> None"
  proof
    fix c assume "c \<in> set qs"
    then have "xc_chunk_index c \<in> set (map xc_chunk_index qs)" by simp
    then show "xc_chunk_index c \<noteq> None" unfolding index(2) by auto
  qed
qed

abbreviation sweep_turns :: "'v sweep_deps \<Rightarrow> raw_turn list \<Rightarrow> distill_turn list" where
  "sweep_turns deps store \<equiv> readTurnWindow (sweep_namespace deps) (nat (bound_of (max_turns deps) 20000 1 200000)) store"

lemma sweep_persists:
  assumes "runExchangeSweep newId h deps store mem = (mem', Inr s)" "sweep_turns deps store \<noteq> []"
  obtains embeddings s0 where
    "persist newId embeddings None (concat (map (prepareExchange h) (buildExchanges (sweep_turns deps store)))) mem s0 = Inr (mem', s)"
proof -
  have "\<exists>embeddings s0. persist newId embeddings None (extractExchanges h (sweep_turns deps store)) mem s0 = Inr (mem', s)"
    using assms unfolding runExchangeSweep_def Let_def by (auto split: sum.splits prod.splits if_splits)
  then show thesis using that by (auto simp: extractExchanges_def)
qed

text \<open>C38: what the dedupe of heads costs. Take any exchange of a sweep that is split into parts and whose first part is a
  duplicate: a row of the table has its namespace and hash, or an earlier exchange of the same sweep opens with the same
  text. Then its later parts are skipped without a look at their text: a part whose own text is new, in the table and in
  the other exchanges of the sweep, is in no row of the table after the sweep.\<close>

theorem part_of_a_known_head_is_lost:
  assumes "table_ok mem" "fresh_ids newId" "buildExchanges (sweep_turns deps store) = before @ x # later"
    and "prepareExchange h x = r # qs"
    and "key_of r \<in> row_key ` set mem \<union>
      key_of ` set (filter (\<lambda>c. xc_chunk_index c = None) (concat (map (prepareExchange h) before)))"
    and "q \<in> set qs" "key_of q \<notin> row_key ` set mem \<union> key_of ` set (concat (map (prepareExchange h) (before @ later)))"
  shows "key_of q \<notin> row_key ` set (fst (runExchangeSweep newId h deps store mem))"
proof -
  let ?pre = "concat (map (prepareExchange h) before)" and ?post = "concat (map (prepareExchange h) later)"
  note shape = prepared_shape [OF assms(4)]
  have cs: "concat (map (prepareExchange h) (buildExchanges (sweep_turns deps store))) = ?pre @ (r # qs @ ?post)"
    using assms(3,4) by simp
  have nonempty: "sweep_turns deps store \<noteq> []"
  proof
    assume "sweep_turns deps store = []"
    then have "concat (map (prepareExchange h) (buildExchanges (sweep_turns deps store))) = []"
      by (simp add: buildExchanges_def flush_def)
    then show False unfolding cs by simp
  qed
  obtain mem' s where run: "runExchangeSweep newId h deps store mem = (mem', Inr s)"
    using sweep_commits [OF assms(1,2), of h deps store] by blast
  obtain E s0 where "persist newId E None (?pre @ (r # qs @ ?post)) mem s0 = Inr (mem', s)"
    using sweep_persists [OF run nonempty] unfolding cs by blast
  from persist_append [OF this] obtain mem1 s1 head1 where
    p: "persist newId E None ?pre mem s0 = Inr (mem1, s1)" "persist newId E head1 (r # qs @ ?post) mem1 s1 = Inr (mem', s)" by blast
  have no_head: "head_ok m None None" for m :: "'a candidate_table" by (simp add: head_ok_def)
  obtain e1 where e1: "mem1 = mem @ e1" "table_ok mem1" "set (map row_candidate e1) \<subseteq> set ?pre"
    "key_of ` set (filter (\<lambda>c. xc_chunk_index c = None) ?pre) \<subseteq> row_key ` set mem1"
    using persist_all [OF assms(1,2) no_head concat_well_cut [of None h before], of E s0] p(1) by auto
  have known: "key_of r \<in> row_key ` set mem1" using assms(5) e1(1,4) by auto
  have "persist newId E None ?post mem1 (s1\<lparr>duplicate := duplicate s1 + 1 + length qs\<rparr>) = Inr (mem', s)"
    using p(2) unfolding known_head_skips [OF shape(1,2) known shape(3)] .
  then obtain e2 where e2: "mem' = mem1 @ e2" "set (map row_candidate e2) \<subseteq> set ?post"
    using persist_all [OF e1(2) assms(2) no_head concat_well_cut [of None h later], of E "s1\<lparr>duplicate := duplicate s1 + 1 + length qs\<rparr>"] by auto
  have mem': "row_key ` set mem' = row_key ` set mem \<union> key_of ` set (map row_candidate e1) \<union> key_of ` set (map row_candidate e2)"
    by (simp add: e1(1) e2(1) image_Un image_image Un_assoc)
  have "key_of ` set (map row_candidate e1) \<subseteq> key_of ` set ?pre" "key_of ` set (map row_candidate e2) \<subseteq> key_of ` set ?post"
    by (rule image_mono, rule e1(3), rule image_mono, rule e2(2))
  moreover have "key_of q \<notin> row_key ` set mem" "key_of q \<notin> key_of ` set ?pre" "key_of q \<notin> key_of ` set ?post"
    using assms(7) by (simp_all only: map_append concat_append set_append image_Un Un_iff) simp_all
  ultimately have "key_of q \<notin> row_key ` set mem'" unfolding mem' by blast
  then show ?thesis unfolding run by simp
qed

definition stored_turns :: "raw_turn list" where
  "stored_turns = map (\<lambda>t. \<lparr>raw_of = t, raw_live = True, raw_lane = None, raw_distilled = None\<rparr>) two_sessions"

lemma stored_turns_read: "readTurnWindow None 20000 stored_turns = two_sessions"
proof -
  have "sorted_wrt turn_le stored_turns"
    by (simp add: stored_turns_def two_sessions_def prompt_of_def reply_of_def sample_turn_def turn_le_def lex_le_def text_or_empty_def)
  then have "sort_by turn_le stored_turns = stored_turns" by (rule turn_order.sort_by_sorted)
  moreover have "filter raw_live stored_turns = stored_turns" by (simp add: stored_turns_def two_sessions_def)
  moreover have "length stored_turns = 6" by (simp add: stored_turns_def two_sessions_def)
  ultimately show ?thesis by (simp add: readTurnWindow_def) (simp add: stored_turns_def two_sessions_def)
qed

text \<open>Two sessions that open with the same prompt and the same long reply: the second one's last reply is in no row.\<close>

lemma part_of_a_known_head_is_lost_witness:
  "(''ana'', rev (''OPERATOR: go'' @ [nl, nl] @ ''[part 2 of 2]'' @ [nl] @ ''agent: '' @ replicate 2000 CHR ''z'')) \<notin>
     row_key ` set (fst (runExchangeSweep long_id rev all_turns stored_turns []))"
proof -
  let ?x = "two_replies ''t1'' ''t2'' ''t3'' ''s1'' CHR ''y''" and ?y = "two_replies ''t4'' ''t5'' ''t6'' ''s2'' CHR ''z''"
  let ?head = "''OPERATOR: go'' @ [nl, nl] @ ''[part 1 of 2]'' @ [nl] @ ''agent: '' @ replicate 2000 CHR ''x''"
  let ?part = "\<lambda>c. ''OPERATOR: go'' @ [nl, nl] @ ''[part 2 of 2]'' @ [nl] @ ''agent: '' @ replicate 2000 c"
  note px = two_replies_parts [of "CHR ''y''" "''t1''" "''t2''" "''t3''" "''s1''", simplified]
  note py = two_replies_parts [of "CHR ''z''" "''t4''" "''t5''" "''t6''" "''s2''", simplified]
  have ana: "turn_namespace (hd (turns_of (two_replies i j k session c))) = ''ana''" for i j k session c
    by (simp add: two_replies_def turns_of_def prompt_of_def sample_turn_def)
  obtain r q where a: "written_rows rev ?x = [r, q]" "key_of r = (''ana'', rev ?head)" "key_of q = (''ana'', rev (?part CHR ''y''))" "xc_chunk_index r = None"
    by (rule two_rows [OF two_replies_parts(3) [of "CHR ''y''" "''t1''" "''t2''" "''t3''" "''s1''"], of rev, unfolded ana]) simp_all
  obtain r' q' where b: "written_rows rev ?y = [r', q']" "key_of r' = (''ana'', rev ?head)" "key_of q' = (''ana'', rev (?part CHR ''z''))"
    by (rule two_rows [OF two_replies_parts(3) [of "CHR ''z''" "''t4''" "''t5''" "''t6''" "''s2''"], of rev, unfolded ana]) simp_all
  have prep: "prepareExchange rev ?x = [r, q]" "prepareExchange rev ?y = [r', q']"
    using px(1,2) py(1,2) a(1) b(1) by (simp_all add: prepareExchange_renderable)
  have cut: "buildExchanges (sweep_turns all_turns stored_turns) = [?x] @ ?y # []"
    by (simp add: bound_of_def stored_turns_read two_sessions_cut)
  have empty: "table_ok ([] :: nat candidate_table)" by (simp add: table_ok_def)
  have new: "key_of q' \<notin> key_of ` {r, q}"
  proof -
    have "CHR ''z'' \<in> set (?part CHR ''z'')" by simp
    moreover have "CHR ''z'' \<notin> set ?head" "CHR ''z'' \<notin> set (?part CHR ''y'')" by (simp_all add: nl_def)
    ultimately have "?part CHR ''z'' \<noteq> ?head" "?part CHR ''z'' \<noteq> ?part CHR ''y''" by metis+
    then show ?thesis unfolding image_insert image_empty a(2,3) b(3) by simp
  qed
  have "key_of r' = key_of r" using a(2) b(2) by simp
  then have known: "key_of r' \<in> row_key ` set ([] :: nat candidate_table) \<union>
      key_of ` set (filter (\<lambda>c. xc_chunk_index c = None) (concat (map (prepareExchange rev) [?x])))"
    using prep(1) a(4) by simp
  have "key_of q' \<notin> row_key ` set ([] :: nat candidate_table) \<union> key_of ` set (concat (map (prepareExchange rev) ([?x] @ [])))"
    using new prep(1) by simp
  from part_of_a_known_head_is_lost [OF empty long_id_fresh cut prep(2) known _ this] show ?thesis unfolding b(3) by simp
qed

subsection \<open>Backfill\<close>

lemma set_embedding_map:
  assumes "distinct (map row_id mem)" "r \<in> set mem" "row_vector r = None"
  shows "setCandidateEmbedding (row_id r) (xc_namespace (row_candidate r)) v mem = map (\<lambda>q. if q = r then q\<lparr>row_vector := Some v\<rparr> else q) mem"
proof -
  have "q = r" if "q \<in> set mem" "row_id q = row_id r" for q using assms(1,2) that by (auto simp: distinct_map dest: inj_onD)
  then show ?thesis unfolding setCandidateEmbedding_def using assms(3) by (intro map_cong refl if_cong) auto
qed

definition filled_row :: "(string \<Rightarrow> 'v option) \<Rightarrow> 'v candidate_row list \<Rightarrow> 'v candidate_row \<Rightarrow> 'v candidate_row" where
  "filled_row embedFn rows q = (if q \<in> set rows then q\<lparr>row_vector := embedFn (xc_content (row_candidate q))\<rparr> else q)"

lemma backfill_rows_map:
  assumes "distinct (map row_id mem)" "distinct rows" "set rows \<subseteq> set mem" "\<forall>r \<in> set rows. row_vector r = None"
  shows "\<exists>good bad. backfill_rows embedFn rows mem filled failed = (map (filled_row embedFn rows) mem, filled + good, failed + bad) \<and>
    good = length (filter (\<lambda>r. embedFn (xc_content (row_candidate r)) \<noteq> None) rows) \<and> good + bad = length rows"
  using assms
proof (induction rows arbitrary: mem filled failed)
  case Nil
  show ?case by (simp add: filled_row_def)
next
  case (Cons r rows)
  show ?case
  proof (cases "embedFn (xc_content (row_candidate r))")
    case None
    have "filled_row embedFn (r # rows) q = filled_row embedFn rows q" if "q \<in> set mem" for q
      using Cons.prems(2,4) None by (auto simp: filled_row_def)
    then have "map (filled_row embedFn (r # rows)) mem = map (filled_row embedFn rows) mem" by simp
    then show ?thesis using Cons.IH [of mem filled "failed + 1"] Cons.prems None by auto
  next
    case (Some v)
    let ?mem = "map (\<lambda>q. if q = r then q\<lparr>row_vector := Some v\<rparr> else q) mem"
    have set1: "setCandidateEmbedding (row_id r) (xc_namespace (row_candidate r)) v mem = ?mem"
      by (rule set_embedding_map) (use Cons.prems in auto)
    have ids: "map row_id ?mem = map row_id mem" by (induction mem) auto
    have sub: "set rows \<subseteq> set ?mem" using Cons.prems(2,3) by force
    have "filled_row embedFn (r # rows) q = filled_row embedFn rows (if q = r then q\<lparr>row_vector := Some v\<rparr> else q)" if "q \<in> set mem" for q
    proof (cases "q = r")
      case True
      have "r\<lparr>row_vector := Some v\<rparr> \<notin> set rows" using Cons.prems(4) by auto
      then show ?thesis using True Some by (simp add: filled_row_def)
    qed (simp add: filled_row_def)
    then have eq: "map (filled_row embedFn (r # rows)) mem = map (filled_row embedFn rows) ?mem" by simp
    have d: "distinct (map row_id ?mem)" unfolding ids by (rule Cons.prems(1))
    have rest: "distinct rows" "\<forall>r \<in> set rows. row_vector r = None" using Cons.prems by simp_all
    obtain good bad where IH: "backfill_rows embedFn rows ?mem (filled + 1) failed = (map (filled_row embedFn rows) ?mem, filled + 1 + good, failed + bad)"
        "good = length (filter (\<lambda>r. embedFn (xc_content (row_candidate r)) \<noteq> None) rows)" "good + bad = length rows"
      using Cons.IH [OF d rest(1) sub rest(2), of "filled + 1" failed] by blast
    have "backfill_rows embedFn (r # rows) mem filled failed = (map (filled_row embedFn (r # rows)) mem, filled + (good + 1), failed + bad)"
      unfolding backfill_rows.simps Some option.case set1 IH(1) eq by simp
    then show ?thesis using IH(2,3) Some by (intro exI [of _ "good + 1"] exI [of _ bad]) simp
  qed
qed

text \<open>The backfill embeds, in the order of writing, the exchange rows without a vector up to its limit, each with the
  provider's answer for its own text, and touches nothing else; the counts add up.\<close>

theorem backfill_fills_the_oldest:
  assumes "table_ok mem" "backfillExchangeEmbeddings embedFn ns limit mem = (mem', n, filled, failed)"
  shows "mem' = map (filled_row embedFn (readUnembeddedCandidates ns (nat (bound_of limit 1000 1 10000)) mem)) mem \<and>
    n = filled + failed \<and> n \<le> nat (bound_of limit 1000 1 10000) \<and>
    filled = length (filter (\<lambda>r. embedFn (xc_content (row_candidate r)) \<noteq> None) (readUnembeddedCandidates ns (nat (bound_of limit 1000 1 10000)) mem))"
proof -
  let ?rows = "readUnembeddedCandidates ns (nat (bound_of limit 1000 1 10000)) mem"
  have ids: "distinct (map row_id mem)" using assms(1) by (simp add: table_ok_def)
  then have "distinct mem" by (simp add: distinct_map)
  then have "distinct ?rows" by (simp add: readUnembeddedCandidates_def)
  moreover have "set ?rows \<subseteq> set mem" "\<forall>r \<in> set ?rows. row_vector r = None"
    by (auto simp: readUnembeddedCandidates_def dest!: in_set_takeD)
  ultimately obtain good bad where "backfill_rows embedFn ?rows mem 0 0 = (map (filled_row embedFn ?rows) mem, good, bad)"
      "good = length (filter (\<lambda>r. embedFn (xc_content (row_candidate r)) \<noteq> None) ?rows)" "good + bad = length ?rows"
    using backfill_rows_map [OF ids, of ?rows embedFn 0 0] by auto
  moreover have "length ?rows \<le> nat (bound_of limit 1000 1 10000)" by (simp add: readUnembeddedCandidates_def)
  ultimately show ?thesis using assms(2) by (auto simp: backfillExchangeEmbeddings_def Let_def)
qed

lemma backfill_fills_the_oldest_witness:
  "fst (backfillExchangeEmbeddings (\<lambda>t. Some (length t)) None None ([] :: nat candidate_table)) = []"
  using backfill_fills_the_oldest [of "[] :: nat candidate_table" "\<lambda>t. Some (length t)" None None "[]" 0 0 0]
  by (simp add: table_ok_def backfillExchangeEmbeddings_def readUnembeddedCandidates_def)

end
