(* ===== verification/Distiller.thy ===== *)
theory Distiller
  imports DistillExchange JevBatches
begin

text \<open>
  The distillation of single turns (\<open>server/domain/distiller.ts\<close>): the rules that classify a turn, the guards around an
  extractor; and the retyping of its candidates by the classifier (\<open>retypeCandidatesWithJev\<close> of
  \<open>maintenance/distill-jev-type.ts\<close>).

  The markers of an operator's turn and the white space are those of \<open>DistillExchange\<close>, which the source repeats word for
  word. The ellipsis is its ASCII form. The content hash and the rendering of a number are arguments; an extractor is a
  function that may throw.
\<close>

subsection \<open>The rules\<close>

text \<open>\<open>/^\[word[^\]]*\]$/i\<close>: the bracket closes at the end and nowhere before.\<close>

definition bracketed :: "string \<Rightarrow> string \<Rightarrow> bool" where
  "bracketed word s =
     (starts_with word (map js_lower s) \<and>
      (let rest = drop (length word) s in takeWhile (\<lambda>c. c \<noteq> CHR '']'') rest @ '']'' = rest))"

definition NO_CLAIM_PATTERNS :: "string list" where
  "NO_CLAIM_PATTERNS = [''[tool_use:'', ''[tool_result'', ''[image'', ''[attachment'', ''[file'']"

definition carriesNoClaim :: "string \<Rightarrow> bool" where
  "carriesNoClaim s = list_ex (\<lambda>word. bracketed word (trim s)) NO_CLAIM_PATTERNS"

definition RESULT_RE :: markers where
  "RESULT_RE = closed_markers
     [''pass'', ''passed'', ''passing'', ''passes'', ''fail'', ''failed'', ''failing'', ''fails'', ''confirmed'', ''verified'', ''committed'',
      ''landed'', ''work'', ''works'', ''working'', ''fixed'', ''done'', ''complete'', ''green'', ''clean'', ''found'', ''resolved'', ''reproduc'',
      ''root cause'', ''turns out'', ''the answer is'', ''the reason is'', ''the cause is'', ''the bug is'', ''measured'', ''zero '', ''0 fail'']"

definition NARRATION_RE :: "string \<Rightarrow> bool" where
  "NARRATION_RE s = marker_here (closed_markers
     [''let me'', ''i'll'', ''ill'', ''i am going to'', ''i'm going to'', ''im going to'', ''now '', ''next '', ''next, '', ''checking'', ''running'',
      ''testing'', ''looking'', ''reading'', ''trying'', ''writing'', ''building'', ''starting'', ''verifying'']) (map js_lower s)"

definition ellipsis :: string where "ellipsis = ''...''"

fun nearest_speech :: "distill_turn list \<Rightarrow> string option" where
  "nearest_speech [] = None"
| "nearest_speech (t # ts) =
     (if turn_role t \<noteq> ''user'' \<and> turn_role t \<noteq> ''assistant'' then nearest_speech ts
      else let words = normalizeWhitespace (turn_content t)
           in if words = [] \<or> carriesNoClaim words then nearest_speech ts
              else Some (if length words > 300 then trim_end (take 300 words) @ ellipsis else words))"

definition nearestSpeechContext :: "distill_turn list \<Rightarrow> string option" where
  "nearestSpeechContext context = nearest_speech (rev context)"

record rule_class =
  rule_type :: candidateType
  rule_content :: string
  rule_reason :: "string option"

definition classifyOperatorTurn :: "string \<Rightarrow> distill_turn list \<Rightarrow> rule_class" where
  "classifyOperatorTurn words context =
     (if ACK_RE words then
        (case nearestSpeechContext context of
           Some prior \<Rightarrow> \<lparr>rule_type = Decision,
             rule_content = ''Operator approved: '' @ [DistillExchange.quote] @ words @ [DistillExchange.quote, nl, nl] @ ''In response to: '' @ prior,
             rule_reason = Some ''short acknowledgement -- reads as authorization of the preceding turn, but assent and doubt are the same string and only the reviewer can tell which''\<rparr>
         | None \<Rightarrow> \<lparr>rule_type = Decision, rule_content = ''Operator said: '' @ [DistillExchange.quote] @ words @ [DistillExchange.quote],
             rule_reason = Some ''short acknowledgement with no preceding speech turn in the window -- what it responds to is unknown''\<rparr>)
      else if test_markers CORRECTION_RE words then \<lparr>rule_type = Correction, rule_content = words,
             rule_reason = Some ''matched a correction marker -- the turn is arguing with something, but a rule cannot tell what was corrected or whether the correction stuck''\<rparr>
      else if test_markers PREFERENCE_RE words then \<lparr>rule_type = Preference, rule_content = words, rule_reason = None\<rparr>
      else if test_markers DECISION_RE words then \<lparr>rule_type = Decision, rule_content = words, rule_reason = None\<rparr>
      else \<lparr>rule_type = Decision, rule_content = words,
             rule_reason = Some ''operator turn with no decision, correction, or preference marker -- captured because operator speech is authoritative, but the kind of claim is unresolved''\<rparr>)"

definition classifyAssistantTurn :: "string \<Rightarrow> rule_class" where
  "classifyAssistantTurn words =
     (if NARRATION_RE words \<and> \<not> test_markers RESULT_RE words then \<lparr>rule_type = Fact, rule_content = words,
        rule_reason = Some ''assistant narration -- states intent rather than an outcome, so whether it happened is not established by this turn''\<rparr>
      else if test_markers CORRECTION_RE words then \<lparr>rule_type = Correction, rule_content = words,
        rule_reason = Some ''assistant turn matched a correction marker -- may be self-correction, may be restating the operator's correction (mem0's asymmetry rule: an assistant turn confirming what the operator already said is not a new claim)''\<rparr>
      else if test_markers RESULT_RE words then \<lparr>rule_type = Fact, rule_content = words, rule_reason = None\<rparr>
      else \<lparr>rule_type = Fact, rule_content = words,
        rule_reason = Some ''assistant turn with no clear outcome marker -- captured, but whether it states anything durable is unresolved''\<rparr>)"

subsection \<open>Extractors\<close>

text \<open>What an extractor given: nothing of it is trusted, not even its type.\<close>

record distill_candidate =
  dc_type :: string
  dc_content :: "string option"
  dc_source_turn_ids :: "string list"
  dc_uncertain :: bool
  dc_reason :: "string option"

record distill_model =
  model_name :: string
  extract_of :: "distill_turn \<Rightarrow> distill_turn list \<Rightarrow> distill_candidate list option"

fun candidate_type_name :: "candidateType \<Rightarrow> string" where
  "candidate_type_name Decision = ''decision''"
| "candidate_type_name Correction = ''correction''"
| "candidate_type_name Fact = ''fact''"
| "candidate_type_name Preference = ''preference''"

definition ALL_CANDIDATE_TYPES :: "candidateType list" where
  "ALL_CANDIDATE_TYPES = [Decision, Correction, Fact, Preference]"

definition type_of_name :: "string \<Rightarrow> candidateType option" where
  "type_of_name s = List.find (\<lambda>t. candidate_type_name t = s) ALL_CANDIDATE_TYPES"

definition claims_something :: "distill_turn \<Rightarrow> bool" where
  "claims_something t =
     (let words = normalizeWhitespace (turn_content t) in words \<noteq> [] \<and> \<not> isHarnessNoise words \<and> \<not> carriesNoClaim words)"

definition ruleBasedDistiller :: distill_model where
  "ruleBasedDistiller =
     \<lparr>model_name = ''rule-based-distiller/v1'',
      extract_of = (\<lambda>current context.
        if \<not> claims_something current then Some []
        else let words = normalizeWhitespace (turn_content current);
                 cls = (if turn_role current = ''user'' then classifyOperatorTurn words context else classifyAssistantTurn words)
             in Some [\<lparr>dc_type = candidate_type_name (rule_type cls), dc_content = Some (rule_content cls), dc_source_turn_ids = [turn_id current],
                      dc_uncertain = (rule_reason cls \<noteq> None), dc_reason = rule_reason cls\<rparr>])\<rparr>"

record prepared_candidate =
  pc_namespace :: string
  pc_type :: candidateType
  pc_content :: string
  pc_content_hash :: string
  pc_source_turn_ids :: "string list"
  pc_uncertain :: bool
  pc_reason :: "string option"
  pc_model :: string

definition prepare_candidate :: "(string \<Rightarrow> string) \<Rightarrow> string \<Rightarrow> distill_turn \<Rightarrow> distill_candidate \<Rightarrow> prepared_candidate option" where
  "prepare_candidate normalizedContentHash model current c =
     (let content = normalizeWhitespace (case dc_content c of None \<Rightarrow> [] | Some s \<Rightarrow> s)
      in if content = [] then None
         else Some \<lparr>pc_namespace = turn_namespace current,
                pc_type = (case type_of_name (dc_type c) of Some t \<Rightarrow> t | None \<Rightarrow> if turn_role current = ''user'' then Decision else Fact),
                pc_content = content, pc_content_hash = normalizedContentHash content, pc_source_turn_ids = [turn_id current],
                pc_uncertain = dc_uncertain c, pc_reason = Option.bind (dc_reason c) or_null, pc_model = model\<rparr>)"

definition runDistillUnit :: "(string \<Rightarrow> string) \<Rightarrow> distill_model \<Rightarrow> distill_unit \<Rightarrow> prepared_candidate list option" where
  "runDistillUnit normalizedContentHash model u =
     map_option (List.map_filter (prepare_candidate normalizedContentHash (model_name model) (unit_current u)))
       (extract_of model (unit_current u) (unit_context u))"

subsection \<open>Retyping\<close>

definition DISTILL_JEV_FLOOR :: rat where "DISTILL_JEV_FLOOR = 5 / 10"
definition DISTILL_JEV_BAR :: rat where "DISTILL_JEV_BAR = 9 / 10"

definition JEV_DISTILL_TYPE_QUESTION :: jev_question where
  "JEV_DISTILL_TYPE_QUESTION =
     ChoiceQ (Plain ''Classify the target operator or agent statement as exactly one memory type. Context turns are evidence only.'')
       [(''decision'', Some (Plain ''a choice was made or ratified'')),
        (''correction'', Some (Plain ''the speaker corrected the agent or the record'')),
        (''fact'', Some (Plain ''a statement of how things are, with no choice or correction'')),
        (''preference'', Some (Plain ''a durable preference about how work should be done''))]"

definition DISTILL_TYPE_CLASSIFIER_SET :: classifier_set where
  "DISTILL_TYPE_CLASSIFIER_SET =
     \<lparr>set_name = ''distill-candidate-type'', set_version = ''distill-candidate-type-v1'',
      classifiers = [(''candidate_type'', JEV_DISTILL_TYPE_QUESTION)]\<rparr>"

fun type_choices :: "jev_outcome \<Rightarrow> nat \<Rightarrow> prepared_candidate list \<Rightarrow> jev_error + (candidateType \<times> rat) list" where
  "type_choices out i [] = Inr []"
| "type_choices out i (c # cs) =
     (case answer_of out (show_nat i) ''candidate_type'' of
        Some (ChoiceA choice ps confidence) \<Rightarrow>
          (case type_of_name choice of
             Some t \<Rightarrow> res_bind (type_choices out (i + 1) cs) (\<lambda>rest. Inr ((t, confidence) # rest))
           | None \<Rightarrow> Inl (js_error ''Jev returned an invalid distill candidate type''))
      | _ \<Rightarrow> Inl (js_error ''Jev returned an invalid distill candidate type''))"

definition with_note :: "string \<Rightarrow> string option \<Rightarrow> string option" where
  "with_note n reason = Some (case Option.bind reason or_null of Some r \<Rightarrow> r @ ''; '' @ n | None \<Rightarrow> n)"

definition retype_one :: "(rat \<Rightarrow> string) \<Rightarrow> prepared_candidate \<Rightarrow> candidateType \<times> rat \<Rightarrow> prepared_candidate" where
  "retype_one showNumber c choice =
     (case choice of (t, confidence) \<Rightarrow>
        if confidence \<ge> DISTILL_JEV_BAR then c\<lparr>pc_type := t\<rparr>
        else let reason = with_note (''jev typed '' @ candidate_type_name t @ '' at '' @ showNumber confidence @ '', rule said '' @ candidate_type_name (pc_type c)) (pc_reason c)
             in if confidence \<ge> DISTILL_JEV_FLOOR then c\<lparr>pc_type := t, pc_uncertain := True, pc_reason := reason\<rparr>
                else c\<lparr>pc_uncertain := True, pc_reason := reason\<rparr>)"

definition type_records :: "prepared_candidate list \<Rightarrow> classifier_record list" where
  "type_records cs = map (\<lambda>(i, c). \<lparr>rec_key = show_nat i, rec_content = pc_content c, rec_fields = None\<rparr>) (List.enumerate 0 cs)"

definition retypeCandidatesWithJev :: "(rat \<Rightarrow> string) \<Rightarrow> jev_env \<Rightarrow> jev_config \<Rightarrow> prepared_candidate list \<Rightarrow> prepared_candidate list" where
  "retypeCandidatesWithJev showNumber env config cs =
     (if \<not> enabled config \<or> cs = [] then cs
      else case res_bind (buildJevBatchPlan [] (type_records cs) DISTILL_TYPE_CLASSIFIER_SET config)
             (\<lambda>plan. res_bind (executeJevBatchPlan env config plan) (\<lambda>out. type_choices out 0 cs)) of
             Inl e \<Rightarrow> cs
           | Inr choices \<Rightarrow> map (\<lambda>(c, choice). retype_one showNumber c choice) (zip cs choices))"

subsection \<open>What the guards keep\<close>

lemma type_of_candidate_name: "type_of_name (candidate_type_name t) = Some t"
  by (cases t) (simp_all add: type_of_name_def ALL_CANDIDATE_TYPES_def)

lemma prepared_facts:
  assumes "prepare_candidate h model t c = Some p"
  shows "pc_namespace p = turn_namespace t \<and> pc_source_turn_ids p = [turn_id t] \<and> pc_content_hash p = h (pc_content p) \<and>
    pc_content p \<noteq> [] \<and> trim (pc_content p) = pc_content p \<and> pc_model p = model \<and> pc_reason p \<noteq> Some []"
  using assms by (auto simp: prepare_candidate_def Let_def normalizeWhitespace_def or_null_def bind_eq_Some_conv split: if_splits)

text \<open>C29: provenance is forced. Whatever an extractor given - turns of the context as its sources, an unknown type, an empty
  reason - what is prepared of a unit names the current turn and nothing else, lies in its namespace and carries trimmed
  words; only given without words are left out, the others keep their order.\<close>

theorem unit_names_the_current_turn:
  assumes "extract_of model (unit_current u) (unit_context u) = Some given" "runDistillUnit h model u = Some out"
  shows "map pc_content out = filter (\<lambda>s. s \<noteq> []) (map (\<lambda>c. normalizeWhitespace (case dc_content c of None \<Rightarrow> [] | Some s \<Rightarrow> s)) given) \<and>
    map pc_source_turn_ids out = replicate (length out) [turn_id (unit_current u)] \<and>
    map pc_namespace out = replicate (length out) (turn_namespace (unit_current u)) \<and>
    map pc_content_hash out = map h (map pc_content out) \<and> list_all (\<lambda>p. trim (pc_content p) = pc_content p) out"
proof -
  let ?p = "prepare_candidate h (model_name model) (unit_current u)"
  have out: "out = List.map_filter ?p given" using assms by (simp add: runDistillUnit_def)
  have content: "map pc_content (List.map_filter ?p cs) =
      filter (\<lambda>s. s \<noteq> []) (map (\<lambda>c. normalizeWhitespace (case dc_content c of None \<Rightarrow> [] | Some s \<Rightarrow> s)) cs)" for cs
    by (induction cs) (simp_all add: map_filter_simps prepare_candidate_def Let_def)
  have facts: "pc_namespace p = turn_namespace (unit_current u) \<and> pc_source_turn_ids p = [turn_id (unit_current u)] \<and>
      pc_content_hash p = h (pc_content p) \<and> trim (pc_content p) = pc_content p" if mem: "p \<in> set out" for p
  proof -
    obtain c where "?p c = Some p" using mem unfolding out by (auto simp: map_filter_def)
    from prepared_facts [OF this] show ?thesis by simp
  qed
  have "map pc_source_turn_ids out = replicate (length out) [turn_id (unit_current u)]"
    "map pc_namespace out = replicate (length out) (turn_namespace (unit_current u))"
    using facts by (auto intro!: replicate_eqI)
  moreover have "map pc_content_hash out = map h (map pc_content out)" using facts by simp
  moreover have "list_all (\<lambda>p. trim (pc_content p) = pc_content p) out" using facts by (simp add: list_all_iff)
  ultimately show ?thesis using content unfolding out by blast
qed

definition liar :: distill_model where
  "liar = \<lparr>model_name = ''m'', extract_of = (\<lambda>current context. Some
     [\<lparr>dc_type = ''guess'', dc_content = Some ''a claim'', dc_source_turn_ids = map turn_id context, dc_uncertain = False, dc_reason = Some []\<rparr>,
      \<lparr>dc_type = ''fact'', dc_content = None, dc_source_turn_ids = [], dc_uncertain = False, dc_reason = None\<rparr>])\<rparr>"

definition sample_unit :: distill_unit where
  "sample_unit = \<lparr>unit_current = sample_turn ''t2'' ''ana'' False ''built it'', unit_context = [sample_turn ''t1'' ''ana'' True ''go'']\<rparr>"

lemma unit_names_the_current_turn_witness:
  "map pc_source_turn_ids (the (runDistillUnit rev liar sample_unit)) = [[''t2'']]"
proof -
  let ?out = "the (runDistillUnit rev liar sample_unit)"
  obtain given where a: "extract_of liar (unit_current sample_unit) (unit_context sample_unit) = Some given" by (simp add: liar_def)
  then have r: "runDistillUnit rev liar sample_unit = Some ?out" by (simp add: runDistillUnit_def)
  have "length ?out = 1"
    by (simp add: runDistillUnit_def liar_def map_filter_simps prepare_candidate_def text_simps)
  then show ?thesis using unit_names_the_current_turn [OF a r] by (simp add: sample_unit_def sample_turn_def)
qed

subsection \<open>What the rules emit\<close>

lemma collapse_lines_keeps: "c \<noteq> nl \<Longrightarrow> c \<in> set s \<Longrightarrow> c \<in> set (collapse_lines n s)"
  by (induction s arbitrary: n) auto

lemma collapse_blanks_keeps: "c \<noteq> CHR '' '' \<Longrightarrow> c \<noteq> tab \<Longrightarrow> c \<in> set s \<Longrightarrow> c \<in> set (collapse_blanks b s)"
  by (induction s arbitrary: b) auto

lemma nonblank_normalized:
  assumes "c \<in> set s" "\<not> js_ws c"
  shows "normalizeWhitespace s \<noteq> []"
proof -
  have "c \<noteq> CHR '' ''" "c \<noteq> tab" "c \<noteq> nl" using assms(2) by (auto simp: js_ws_def tab_def nl_def)
  then have "c \<in> set (collapse_lines 0 (collapse_blanks False s))" using assms(1) by (intro collapse_lines_keeps collapse_blanks_keeps)
  then show ?thesis using assms(2) by (auto simp: normalizeWhitespace_def trim_eq_Nil_iff)
qed

lemma operator_content_not_blank:
  assumes "c \<in> set words"
  shows "c \<in> set (rule_content (classifyOperatorTurn words context))"
  using assms by (auto simp: classifyOperatorTurn_def split: option.splits)

lemma rules_emit_one:
  "map_option length (runDistillUnit h ruleBasedDistiller u) = Some (if claims_something (unit_current u) then 1 else 0)"
proof (cases "claims_something (unit_current u)")
  case True
  let ?words = "normalizeWhitespace (turn_content (unit_current u))"
  let ?cls = "if turn_role (unit_current u) = ''user'' then classifyOperatorTurn ?words (unit_context u) else classifyAssistantTurn ?words"
  have w: "trim ?words = ?words" "?words \<noteq> []" using True by (simp_all add: claims_something_def Let_def normalizeWhitespace_def)
  then obtain d where d: "d \<in> set ?words" "\<not> js_ws d" using trimmed_has_char by blast
  then have "d \<in> set (rule_content ?cls)" using operator_content_not_blank [OF d(1)] by (simp add: classifyAssistantTurn_def)
  then have "normalizeWhitespace (rule_content ?cls) \<noteq> []" using d(2) by (rule nonblank_normalized)
  then show ?thesis using True by (simp add: runDistillUnit_def ruleBasedDistiller_def Let_def map_filter_simps prepare_candidate_def)
qed (simp add: runDistillUnit_def ruleBasedDistiller_def map_filter_simps)

text \<open>The rules drop nothing that speaks. A unit whose current turn has words, is no harness noise and no stub of a tool
  call gives exactly one candidate; any other gives none.\<close>

theorem rules_emit_one_candidate:
  "map_option length (runDistillUnit h ruleBasedDistiller u) = Some (if claims_something (unit_current u) then 1 else 0)"
  by (rule rules_emit_one)

subsection \<open>What retyping keeps\<close>

lemma type_choices_length: "type_choices out i cs = Inr choices \<Longrightarrow> length choices = length cs"
  by (induction cs arbitrary: i choices) (auto simp: res_bind_Inr split: option.splits jev_answer.splits)

text \<open>What an answer may change of a candidate.\<close>

definition unchanged_but_type :: "prepared_candidate \<Rightarrow> prepared_candidate \<Rightarrow> bool" where
  "unchanged_but_type c r \<longleftrightarrow> pc_content r = pc_content c \<and> pc_content_hash r = pc_content_hash c \<and> pc_namespace r = pc_namespace c \<and>
     pc_source_turn_ids r = pc_source_turn_ids c \<and> pc_model r = pc_model c"

definition retyped_well :: "(rat \<Rightarrow> string) \<Rightarrow> prepared_candidate \<Rightarrow> prepared_candidate \<Rightarrow> bool" where
  "retyped_well showNumber c r \<longleftrightarrow> unchanged_but_type c r \<and> (pc_uncertain c \<longrightarrow> pc_uncertain r) \<and>
     (r = c \<or> (\<exists>t confidence. r = retype_one showNumber c (t, confidence) \<and>
        (pc_type r \<noteq> pc_type c \<longrightarrow> pc_type r = t \<and> DISTILL_JEV_FLOOR \<le> confidence \<and> (DISTILL_JEV_BAR \<le> confidence \<or> pc_uncertain r))))"

lemma retype_one_well: "retyped_well showNumber c (retype_one showNumber c ch)"
proof (cases ch)
  case (Pair t confidence)
  have bars: "DISTILL_JEV_FLOOR \<le> DISTILL_JEV_BAR" by (simp add: DISTILL_JEV_FLOOR_def DISTILL_JEV_BAR_def)
  let ?r = "retype_one showNumber c (t, confidence)"
  have "unchanged_but_type c ?r" "pc_uncertain c \<longrightarrow> pc_uncertain ?r" by (simp_all add: unchanged_but_type_def retype_one_def Let_def)
  moreover have "pc_type ?r \<noteq> pc_type c \<longrightarrow> pc_type ?r = t \<and> DISTILL_JEV_FLOOR \<le> confidence \<and> (DISTILL_JEV_BAR \<le> confidence \<or> pc_uncertain ?r)"
    using bars by (simp add: retype_one_def Let_def)
  ultimately show ?thesis unfolding Pair retyped_well_def by blast
qed

lemma retype_all:
  "list_all2 (retyped_well showNumber) cs (retypeCandidatesWithJev showNumber env config cs)"
proof -
  have "length cs = length chs \<Longrightarrow> list_all2 (retyped_well showNumber) cs (map (\<lambda>(c, ch). retype_one showNumber c ch) (zip cs chs))" for chs
    by (induction cs chs rule: list_induct2) (simp_all add: retype_one_well)
  moreover have "list_all2 (retyped_well showNumber) cs cs" by (simp add: list.rel_refl retyped_well_def unchanged_but_type_def)
  ultimately show ?thesis
    by (auto simp: retypeCandidatesWithJev_def res_bind_Inr dest: type_choices_length split: sum.splits)
qed


end
