(* ===== verification/DistillSweep.thy ===== *)
theory DistillSweep
  imports Distiller MaintenanceSweep
begin

text \<open>
  The distillation job (\<open>server/maintenance/distill-handler.ts\<close>, \<open>distill-claim.ts\<close>, \<open>distill-persist.ts\<close> with the
  statements of \<open>server/db/distill-persist-repository.ts\<close>): claim a batch of turns, extract and retype its candidates, embed
  them, and write them with the stamp of the turns in one transaction; the handler that reads the selection off a job.

  The state is the store of turns and the candidate rows, which other producers fill too. Which statements fail is an
  argument; an integer of a job's payload is its decimal text.
\<close>

subsection \<open>Writing\<close>

record 'v fragment_row =
  fragment_of :: prepared_candidate
  fragment_vector :: "'v option"
  fragment_job :: "string option"

definition fragment_key :: "prepared_candidate \<Rightarrow> string \<times> string" where
  "fragment_key c = (pc_namespace c, pc_content_hash c)"

abbreviation known_keys :: "'v fragment_row list \<Rightarrow> (string \<times> string) set" where
  "known_keys rows \<equiv> (\<lambda>r. fragment_key (fragment_of r)) ` set rows"

record distill_summary =
  sum_units :: nat
  turns_stamped :: nat
  candidates_extracted :: nat
  candidates_written :: nat
  candidates_duplicate :: nat
  candidates_uncertain :: nat
  vectors_missing :: nat
  sum_missing_seq :: nat
  claim_empty_with_backlog :: "nat option"

definition empty_summary :: distill_summary where
  "empty_summary = \<lparr>sum_units = 0, turns_stamped = 0, candidates_extracted = 0, candidates_written = 0, candidates_duplicate = 0,
     candidates_uncertain = 0, vectors_missing = 0, sum_missing_seq = 0, claim_empty_with_backlog = None\<rparr>"

fun resolve_batch :: "(string \<Rightarrow> 'v option) \<Rightarrow> (string \<Rightarrow> 'v option option) \<Rightarrow> prepared_candidate list \<Rightarrow> (string \<Rightarrow> 'v option option)" where
  "resolve_batch embedFn byHash [] = byHash"
| "resolve_batch embedFn byHash (c # cs) =
     (if byHash (pc_content_hash c) \<noteq> None then resolve_batch embedFn byHash cs
      else resolve_batch embedFn (byHash(pc_content_hash c := Some (embedFn (pc_content c)))) cs)"

definition resolveEmbeddingBatch :: "bool \<Rightarrow> (string \<Rightarrow> 'v option) \<Rightarrow> prepared_candidate list \<Rightarrow> (string \<Rightarrow> 'v option option)" where
  "resolveEmbeddingBatch skip embedFn cs = (if skip then (\<lambda>_. None) else resolve_batch embedFn (\<lambda>_. None) cs)"

fun insertCandidates :: "string option \<Rightarrow> (string \<Rightarrow> 'v option option) \<Rightarrow> prepared_candidate list \<Rightarrow> 'v fragment_row list \<Rightarrow> distill_summary \<Rightarrow>
    'v fragment_row list \<times> distill_summary" where
  "insertCandidates job embeddings [] rows s = (rows, s)"
| "insertCandidates job embeddings (c # cs) rows s =
     (let vector = (case embeddings (pc_content_hash c) of None \<Rightarrow> None | Some v \<Rightarrow> v);
          s = (if vector = None then s\<lparr>vectors_missing := vectors_missing s + 1\<rparr> else s)
      in if fragment_key c \<in> known_keys rows
         then insertCandidates job embeddings cs rows (s\<lparr>candidates_duplicate := candidates_duplicate s + 1\<rparr>)
         else insertCandidates job embeddings cs (rows @ [\<lparr>fragment_of = c, fragment_vector = vector, fragment_job = job\<rparr>])
                (s\<lparr>candidates_written := candidates_written s + 1,
                   candidates_uncertain := candidates_uncertain s + (if pc_uncertain c then 1 else 0)\<rparr>))"

definition persist_batch :: "int \<Rightarrow> string option \<Rightarrow> (string \<Rightarrow> 'v option option) \<Rightarrow> prepared_candidate list \<Rightarrow> string list \<Rightarrow>
    raw_turn list \<times> 'v fragment_row list \<Rightarrow> distill_summary \<Rightarrow> (raw_turn list \<times> 'v fragment_row list) \<times> distill_summary" where
  "persist_batch now job embeddings cs ids st s =
     (case insertCandidates job embeddings cs (snd st) s of
        (rows, s) \<Rightarrow>
          if ids = [] then ((fst st, rows), s)
          else (case stampConsumedTurns now ids (fst st) of (store, n) \<Rightarrow> ((store, rows), s\<lparr>turns_stamped := n\<rparr>)))"

subsection \<open>The sweep\<close>

record 'v distill_deps =
  deps_model :: distill_model
  deps_embed :: "string \<Rightarrow> 'v option"
  deps_options :: claim_options
  deps_job :: "string option"
  deps_skip :: bool
  deps_jev :: "(jev_config \<times> jev_env) option"

definition claimBatch :: "'v distill_deps \<Rightarrow> raw_turn list \<Rightarrow> claimed_batch" where
  "claimBatch deps store =
     claimDistillBatch ((deps_options deps)\<lparr>opt_context_window := Some (context_window (deps_options deps))\<rparr>) store"

text \<open>The units one after the other: an extractor that throws ends the sweep.\<close>

fun run_units :: "(string \<Rightarrow> string) \<Rightarrow> distill_model \<Rightarrow> distill_unit list \<Rightarrow> prepared_candidate list option" where
  "run_units h model [] = Some []"
| "run_units h model (u # us) =
     (case runDistillUnit h model u of None \<Rightarrow> None | Some cs \<Rightarrow> map_option ((@) cs) (run_units h model us))"

definition applyJevType :: "(rat \<Rightarrow> string) \<Rightarrow> (jev_config \<times> jev_env) option \<Rightarrow> prepared_candidate list \<Rightarrow> prepared_candidate list" where
  "applyJevType showNumber jev cs =
     (case jev of None \<Rightarrow> cs | Some (config, env) \<Rightarrow> retypeCandidatesWithJev showNumber env config cs)"

record sweep_faults =
  probe_fails :: bool
  write_fails :: bool

definition runDistillSweep :: "(string \<Rightarrow> string) \<Rightarrow> (rat \<Rightarrow> string) \<Rightarrow> sweep_faults \<Rightarrow> int \<Rightarrow> 'v distill_deps \<Rightarrow>
    raw_turn list \<times> 'v fragment_row list \<Rightarrow> (raw_turn list \<times> 'v fragment_row list) \<times> distill_summary result" where
  "runDistillSweep h showNumber faults now deps st =
     (let batch = claimBatch deps (fst st);
          s = empty_summary\<lparr>sum_units := length (batch_units batch), sum_missing_seq := missingSessionSeq batch\<rparr>
      in if consumedTurnIds batch = [] then
           (st, Inr (s\<lparr>claim_empty_with_backlog := reportEmptyClaim (probe_fails faults) (deps_options deps) (fst st)\<rparr>))
         else (case run_units h (deps_model deps) (batch_units batch) of
             None \<Rightarrow> (st, Inl ''extractor failed'')
           | Some cs \<Rightarrow>
               let s = s\<lparr>candidates_extracted := length cs\<rparr>;
                   typed = applyJevType showNumber (deps_jev deps) cs;
                   embeddings = resolveEmbeddingBatch (deps_skip deps) (deps_embed deps) typed
               in if write_fails faults then (st, Inl ''write failed'')
                  else (case persist_batch now (deps_job deps) embeddings typed (consumedTurnIds batch) st s of (st', s) \<Rightarrow> (st', Inr s))))"

subsection \<open>The handler\<close>

definition MEMORY_DISTILL_JOB_VERSION :: int where "MEMORY_DISTILL_JOB_VERSION = 1"

definition payload_member :: "string \<Rightarrow> json \<Rightarrow> json option" where
  "payload_member k j = (case j of JObj kvs \<Rightarrow> map_of kvs k | _ \<Rightarrow> None)"

definition member_number :: "string \<Rightarrow> json \<Rightarrow> int option" where
  "member_number k j = (case payload_member k j of Some (JNum n) \<Rightarrow> parse_int n | _ \<Rightarrow> None)"

record job_selection =
  sel_lane :: "string option option"
  sel_max_sessions :: "int option"
  sel_max_turns :: "int option"

definition readJobSelection :: "json \<Rightarrow> job_selection" where
  "readJobSelection body =
     \<lparr>sel_lane = (case payload_member ''lane_id'' body of Some JNull \<Rightarrow> Some None | Some (JStr l) \<Rightarrow> Some (Some l) | _ \<Rightarrow> None),
      sel_max_sessions = member_number ''max_sessions'' body, sel_max_turns = member_number ''max_turns'' body\<rparr>"

text \<open>The handler's own dependencies are the ones of the sweep; the job gives the selection.\<close>

definition memoryDistillHandler :: "(string \<Rightarrow> string) \<Rightarrow> (rat \<Rightarrow> string) \<Rightarrow> sweep_faults \<Rightarrow> int \<Rightarrow> 'v distill_deps \<Rightarrow> job_row \<Rightarrow>
    raw_turn list \<times> 'v fragment_row list \<Rightarrow> (raw_turn list \<times> 'v fragment_row list) \<times> distill_summary result" where
  "memoryDistillHandler h showNumber faults now deps job st =
     (if job_version job \<noteq> MEMORY_DISTILL_JOB_VERSION
      then (st, Inl ''memory distill job version is not supported by this handler'')
      else let sel = readJobSelection (payload job)
           in runDistillSweep h showNumber faults now
                (deps\<lparr>deps_options := \<lparr>opt_namespace = scope_namespace job, opt_lane = sel_lane sel, opt_max_sessions = sel_max_sessions sel,
                        opt_max_turns = sel_max_turns sel, opt_context_window = None\<rparr>,
                      deps_job := Some (job_id job), deps_skip := False\<rparr>) st)"

subsection \<open>From the producer to the handler\<close>

text \<open>The handler reads back what the producer wrote: the lane, also the absence of one, and both bounds of an enqueued job
  are the selection of the sweep that runs it.\<close>

theorem selection_roundtrip:
  assumes "0 \<le> maxSessions" "0 \<le> maxTurns"
  shows "readJobSelection (in_payload (buildMemoryDistillEnqueue label namespace lane maxSessions maxTurns)) =
    \<lparr>sel_lane = Some lane, sel_max_sessions = Some maxSessions, sel_max_turns = Some maxTurns\<rparr>"
  using assms
  by (cases lane) (simp_all add: readJobSelection_def buildMemoryDistillEnqueue_def job_request_def payload_member_def member_number_def show_int_def parse_int_show_nat)

lemma selection_roundtrip_witness:
  "sel_max_turns (readJobSelection (in_payload (buildMemoryDistillEnqueue ''l'' ''ana'' None 4 1500))) = Some 1500"
  using selection_roundtrip [of 4 1500 "''l''" "''ana''" None] by simp

subsection \<open>Nothing is stamped without its candidates\<close>

lemma insertCandidates_keys:
  assumes "insertCandidates job embeddings cs rows s = (rows', s')"
  shows "\<exists>add. rows' = rows @ add \<and> set (map fragment_of add) \<subseteq> set cs \<and> fragment_key ` set cs \<subseteq> known_keys rows' \<and>
     candidates_written s' = candidates_written s + length add \<and>
     candidates_written s' + candidates_duplicate s' = candidates_written s + candidates_duplicate s + length cs"
  using assms
proof (induction cs arbitrary: rows s)
  case (Cons c cs)
  let ?v = "case embeddings (pc_content_hash c) of None \<Rightarrow> None | Some v \<Rightarrow> v"
  let ?s = "if ?v = None then s\<lparr>vectors_missing := vectors_missing s + 1\<rparr> else s"
  have counts: "candidates_written ?s = candidates_written s" "candidates_duplicate ?s = candidates_duplicate s" by simp_all
  show ?case
  proof (cases "fragment_key c \<in> known_keys rows")
    case True
    then have "insertCandidates job embeddings cs rows (?s\<lparr>candidates_duplicate := candidates_duplicate ?s + 1\<rparr>) = (rows', s')"
      using Cons.prems by (simp add: Let_def)
    from Cons.IH [OF this] obtain add where add: "rows' = rows @ add" "set (map fragment_of add) \<subseteq> set cs" "fragment_key ` set cs \<subseteq> known_keys rows'"
        "candidates_written s' = candidates_written ?s + length add"
        "candidates_written s' + candidates_duplicate s' = candidates_written ?s + (candidates_duplicate ?s + 1) + length cs" by auto
    then show ?thesis using True counts by (intro exI [of _ add]) auto
  next
    case False
    let ?r = "\<lparr>fragment_of = c, fragment_vector = ?v, fragment_job = job\<rparr>"
    have "insertCandidates job embeddings cs (rows @ [?r]) (?s\<lparr>candidates_written := candidates_written ?s + 1,
        candidates_uncertain := candidates_uncertain ?s + (if pc_uncertain c then 1 else 0)\<rparr>) = (rows', s')"
      using Cons.prems False by (simp add: Let_def)
    from Cons.IH [OF this] obtain add where add: "rows' = (rows @ [?r]) @ add" "set (map fragment_of add) \<subseteq> set cs" "fragment_key ` set cs \<subseteq> known_keys rows'"
        "candidates_written s' = candidates_written ?s + 1 + length add"
        "candidates_written s' + candidates_duplicate s' = candidates_written ?s + 1 + candidates_duplicate ?s + length cs" by auto
    then show ?thesis using counts by (intro exI [of _ "?r # add"]) auto
  qed
qed simp

lemma retyped_keys: "list_all2 (retyped_well showNumber) cs rs \<Longrightarrow> map fragment_key rs = map fragment_key cs"
  by (induction cs rs rule: list_all2_induct) (simp_all add: fragment_key_def retyped_well_def unchanged_but_type_def)

lemma applyJevType_keys: "map fragment_key (applyJevType showNumber jev cs) = map fragment_key cs"
  using retyped_keys [OF retype_all] by (simp add: applyJevType_def split: option.splits)

lemma run_units_Some: "run_units h model us = Some cs \<Longrightarrow> u \<in> set us \<Longrightarrow> \<exists>ps. runDistillUnit h model u = Some ps \<and> set ps \<subseteq> set cs"
  by (induction us arbitrary: cs) (fastforce split: option.splits)+

lemma run_units_rules: "\<exists>cs. run_units h ruleBasedDistiller us = Some cs"
proof (induction us)
  case (Cons u us)
  have "\<exists>ps. runDistillUnit h ruleBasedDistiller u = Some ps" by (simp add: runDistillUnit_def ruleBasedDistiller_def Let_def)
  with Cons show ?case by auto
qed simp

abbreviation claim_scope :: "'v distill_deps \<Rightarrow> claim_options" where
  "claim_scope deps \<equiv> (deps_options deps)\<lparr>opt_context_window := Some (context_window (deps_options deps))\<rparr>"

text \<open>A turn's claim is in the table: a candidate prepared of it, in some context, has its key there.\<close>

definition distilled_into :: "(string \<Rightarrow> string) \<Rightarrow> 'v fragment_row list \<Rightarrow> distill_turn \<Rightarrow> bool" where
  "distilled_into h rows t \<longleftrightarrow> (\<exists>u p. unit_current u = t \<and> runDistillUnit h ruleBasedDistiller u = Some [p] \<and> fragment_key p \<in> known_keys rows)"

definition speaks :: "raw_turn \<Rightarrow> bool" where
  "speaks r \<longleftrightarrow> isSpeech (turn_role (raw_of r)) \<and> claims_something (raw_of r)"

lemma sweep_step:
  assumes "store_ok store" "deps_model deps = ruleBasedDistiller" "\<not> write_fails faults"
  obtains rows' s where "runDistillSweep h showNumber faults now deps (store, rows) = ((sweep_store now (claim_scope deps) store, rows'), Inr s)"
    "known_keys rows \<subseteq> known_keys rows'" "\<exists>add. rows' = rows @ add"
    "\<And>r. r \<in> set (consumed_rows (claim_scope deps) store) \<Longrightarrow> speaks r \<Longrightarrow> distilled_into h rows' (raw_of r)"
proof (cases "consumed_rows (claim_scope deps) store = []")
  case True
  then have "consumedTurnIds (claimBatch deps store) = []" by (simp add: claimBatch_def consumed_alt [OF assms(1)])
  moreover have "sweep_store now (claim_scope deps) store = store" unfolding stamp_in_place [OF assms(1)] True by simp
  ultimately show thesis using True by (intro that [of rows]) (simp_all add: runDistillSweep_def Let_def)
next
  case False
  let ?opt = "claim_scope deps"
  let ?batch = "claimBatch deps store"
  have ids: "consumedTurnIds ?batch = map raw_id (consumed_rows ?opt store)" by (simp add: claimBatch_def consumed_alt [OF assms(1)])
  obtain cs where cs: "run_units h ruleBasedDistiller (batch_units ?batch) = Some cs" using run_units_rules by blast
  let ?typed = "applyJevType showNumber (deps_jev deps) cs"
  let ?emb = "resolveEmbeddingBatch (deps_skip deps) (deps_embed deps) ?typed"
  let ?s = "empty_summary\<lparr>sum_units := length (batch_units ?batch), sum_missing_seq := missingSessionSeq ?batch, candidates_extracted := length cs\<rparr>"
  obtain rows' s where ins: "insertCandidates (deps_job deps) ?emb ?typed rows ?s = (rows', s)" by fastforce
  obtain add where add: "rows' = rows @ add" "fragment_key ` set ?typed \<subseteq> known_keys rows'" using insertCandidates_keys [OF ins] by blast
  obtain store' n where st: "stampConsumedTurns now (consumedTurnIds ?batch) store = (store', n)" by fastforce
  then have store': "sweep_store now ?opt store = store'" by (simp add: sweep_store_def claimBatch_def)
  have "persist_batch now (deps_job deps) ?emb ?typed (consumedTurnIds ?batch) (store, rows) ?s = ((store', rows'), s\<lparr>turns_stamped := n\<rparr>)"
    using False st ins by (simp add: persist_batch_def ids)
  then have run: "runDistillSweep h showNumber faults now deps (store, rows) = ((sweep_store now ?opt store, rows'), Inr (s\<lparr>turns_stamped := n\<rparr>))"
    using False assms(2,3) cs unfolding store' by (simp add: runDistillSweep_def Let_def ids)
  have "distilled_into h rows' (raw_of r)" if r: "r \<in> set (consumed_rows ?opt store)" "speaks r" for r
  proof -
    have "raw_of r \<in> set (map unit_current (batch_units ?batch))"
      using r unfolding claimBatch_def batch_units_current [OF assms(1)] by (simp add: speaks_def)
    then obtain u where u: "u \<in> set (batch_units ?batch)" "unit_current u = raw_of r" by auto
    obtain ps where ps: "runDistillUnit h ruleBasedDistiller u = Some ps" "set ps \<subseteq> set cs" using run_units_Some [OF cs u(1)] by blast
    have "length ps = 1" using rules_emit_one [of h u] ps(1) r(2) u(2) by (simp add: speaks_def)
    then obtain p where p: "ps = [p]" by (metis length_0_conv length_Suc_conv One_nat_def)
    then have "fragment_key p \<in> set (map fragment_key cs)" using ps(2) by simp
    then have "fragment_key p \<in> set (map fragment_key ?typed)" unfolding applyJevType_keys .
    then have "fragment_key p \<in> known_keys rows'" using add(2) by auto
    then show ?thesis using u(2) ps(1) p unfolding distilled_into_def by blast
  qed
  then show thesis using run add(1) by (intro that [of rows']) auto
qed

lemma distilled_into_mono: "distilled_into h rows t \<Longrightarrow> known_keys rows \<subseteq> known_keys rows' \<Longrightarrow> distilled_into h rows' t"
  unfolding distilled_into_def by blast

definition sweep_once :: "(string \<Rightarrow> string) \<Rightarrow> (rat \<Rightarrow> string) \<Rightarrow> int \<Rightarrow> 'v distill_deps \<Rightarrow>
    raw_turn list \<times> 'v fragment_row list \<Rightarrow> raw_turn list \<times> 'v fragment_row list" where
  "sweep_once h showNumber now deps st = fst (runDistillSweep h showNumber \<lparr>probe_fails = False, write_fails = False\<rparr> now deps st)"

lemma is_due_scope: "is_due (claim_scope deps) r = is_due (deps_options deps) r"
  by (simp add: is_due_def in_scope_def)

lemma filter_due_scope: "filter (is_due (claim_scope deps)) store = filter (is_due (deps_options deps)) store"
  by (intro filter_cong refl is_due_scope)

lemma sweeps_complete:
  assumes "store_ok store" "deps_model deps = ruleBasedDistiller" "length (filter (is_due (deps_options deps)) store) \<le> n"
  shows "\<exists>store' rows'. (sweep_once h showNumber now deps ^^ n) (store, rows) = (store', rows') \<and>
    filter (is_due (deps_options deps)) store' = [] \<and> known_keys rows \<subseteq> known_keys rows' \<and> (\<exists>add. rows' = rows @ add) \<and>
    (\<forall>r \<in> set (filter (is_due (deps_options deps)) store). speaks r \<longrightarrow> distilled_into h rows' (raw_of r))"
  using assms(1,3)
proof (induction n arbitrary: store rows)
  case 0
  then show ?case by simp
next
  case (Suc n)
  let ?opt = "claim_scope deps" and ?faults = "\<lparr>probe_fails = False, write_fails = False\<rparr>"
  let ?next = "sweep_store now ?opt store"
  have ok: "\<not> write_fails ?faults" by simp
  obtain rows1 s where one: "runDistillSweep h showNumber ?faults now deps (store, rows) = ((?next, rows1), Inr s)"
      "known_keys rows \<subseteq> known_keys rows1" "\<exists>add. rows1 = rows @ add"
      "\<And>r. r \<in> set (consumed_rows ?opt store) \<Longrightarrow> speaks r \<Longrightarrow> distilled_into h rows1 (raw_of r)"
    by (rule sweep_step [OF Suc.prems(1) assms(2) ok, of h showNumber now rows]) (rule that)
  have once: "sweep_once h showNumber now deps (store, rows) = (?next, rows1)" using one(1) by (simp add: sweep_once_def)
  have left: "filter (is_due (deps_options deps)) ?next = filter (\<lambda>r. is_due (deps_options deps) r \<and> r \<notin> set (consumed_rows ?opt store)) store"
    using sweep_due [OF Suc.prems(1), of ?opt now] unfolding filter_due_scope is_due_scope .
  have "length (filter (is_due (deps_options deps)) ?next) \<le> n"
  proof (cases "filter (is_due (deps_options deps)) store = []")
    case True
    then have "filter (is_due (deps_options deps)) ?next = []" unfolding left by (auto simp: filter_empty_conv)
    then show ?thesis by simp
  next
    case False
    have "length (filter (is_due ?opt) ?next) < length (filter (is_due ?opt) store)"
      by (rule sweep_progress [OF Suc.prems(1)]) (use False in \<open>simp add: filter_due_scope\<close>)
    then show ?thesis using Suc.prems(2) unfolding filter_due_scope by linarith
  qed
  from Suc.IH [OF sweep_keeps_ok [OF Suc.prems(1)] this, of rows1] obtain store' rows' where
    IH: "(sweep_once h showNumber now deps ^^ n) (?next, rows1) = (store', rows')" "filter (is_due (deps_options deps)) store' = []"
      "known_keys rows1 \<subseteq> known_keys rows'" "\<exists>add. rows' = rows1 @ add"
      "\<forall>r \<in> set (filter (is_due (deps_options deps)) ?next). speaks r \<longrightarrow> distilled_into h rows' (raw_of r)"
    by blast
  have run: "(sweep_once h showNumber now deps ^^ Suc n) (store, rows) = (store', rows')"
    unfolding funpow_Suc_right comp_def once by (rule IH(1))
  have "distilled_into h rows' (raw_of r)" if r: "r \<in> set (filter (is_due (deps_options deps)) store)" "speaks r" for r
  proof (cases "r \<in> set (consumed_rows ?opt store)")
    case True
    show ?thesis by (rule distilled_into_mono [OF one(4) [OF True r(2)] IH(3)])
  next
    case False
    then have "r \<in> set (filter (is_due (deps_options deps)) ?next)" unfolding left using r(1) by simp
    then show ?thesis using IH(5) r(2) by blast
  qed
  moreover have "\<exists>add. rows' = rows @ add" using one(3) IH(4) by auto
  moreover have "known_keys rows \<subseteq> known_keys rows'" using one(2) IH(3) by blast
  ultimately show ?case using run IH(2) by blast
qed

text \<open>C28: distillation is complete. With the rules as extractor and writes that succeed - whatever the classifier, the
  embedding provider, the bounds and the lane do - as many sweeps as there are due turns leave nothing due, every one of
  those turns that says something has its candidate in the table, and the rows that were there stay.\<close>

theorem distillation_is_complete:
  assumes "store_ok store" "deps_model deps = ruleBasedDistiller" "length (filter (is_due (deps_options deps)) store) \<le> n"
    "(sweep_once h showNumber now deps ^^ n) (store, rows) = (store', rows')"
  shows "filter (is_due (deps_options deps)) store' = [] \<and> take (length rows) rows' = rows \<and>
    raw_of ` set (filter (\<lambda>r. is_due (deps_options deps) r \<and> speaks r) store) \<subseteq> {t. distilled_into h rows' t}"
  using sweeps_complete [OF assms(1-3), of h showNumber now rows] assms(4) by auto

definition rule_deps :: "nat distill_deps" where
  "rule_deps = \<lparr>deps_model = ruleBasedDistiller, deps_embed = (\<lambda>t. None), deps_options = any_options, deps_job = None, deps_skip = False, deps_jev = None\<rparr>"

lemma distillation_is_complete_witness:
  "filter (is_due any_options) (fst ((sweep_once rev (\<lambda>q. []) 9 rule_deps ^^ 2) ([claim_sample ''t2'' ''tool'' 2, claim_sample ''t1'' ''user'' 1], []))) = []"
proof -
  let ?s = "[claim_sample ''t2'' ''tool'' 2, claim_sample ''t1'' ''user'' 1]"
  let ?run = "(sweep_once rev (\<lambda>q. []) 9 rule_deps ^^ 2) (?s, [])"
  have "store_ok ?s" "deps_model rule_deps = ruleBasedDistiller" "length (filter (is_due (deps_options rule_deps)) ?s) \<le> 2"
    by (simp_all add: store_ok_def claim_sample_def rule_deps_def)
  from distillation_is_complete [OF this, of rev "\<lambda>q. []" 9 "[]" "fst ?run" "snd ?run"] show ?thesis by (simp add: rule_deps_def)
qed

subsection \<open>Failures\<close>

text \<open>A failed job leaves no trace. Whatever fails - the version, the extractor, the write - a run that throws changes
  neither a turn nor a row, so its turns stay due.\<close>

theorem failed_distill_leaves_no_trace:
  assumes "memoryDistillHandler h showNumber faults now deps job st = (st', Inl e)"
  shows "st' = st"
  using assms by (auto simp: memoryDistillHandler_def runDistillSweep_def Let_def split: if_splits option.splits prod.splits)

lemma failed_distill_leaves_no_trace_witness:
  "fst (memoryDistillHandler rev (\<lambda>q. []) \<lparr>probe_fails = False, write_fails = False\<rparr> 9 rule_deps (demo_row\<lparr>job_version := 2\<rparr>) ([claim_sample ''t1'' ''user'' 1], [])) =
    ([claim_sample ''t1'' ''user'' 1], [])"
proof -
  have "memoryDistillHandler rev (\<lambda>q. []) \<lparr>probe_fails = False, write_fails = False\<rparr> 9 rule_deps (demo_row\<lparr>job_version := 2\<rparr>) ([claim_sample ''t1'' ''user'' 1], []) =
      (([claim_sample ''t1'' ''user'' 1], []), Inl ''memory distill job version is not supported by this handler'')"
    by (simp add: memoryDistillHandler_def MEMORY_DISTILL_JOB_VERSION_def)
  from failed_distill_leaves_no_trace [OF this] show ?thesis unfolding \<open>_ = (_, Inl _)\<close> by simp
qed

end
