(* ===== verification/Spec2Isabelle.thy ===== *)
theory Spec2Isabelle
  imports ReadScope WorkingSet RecoveryReplay McpSessions RankFusion JevBatches RouteJob MaintenanceRunner DurableMemory Chunking MaintenanceSweep CandidateDedupe ExchangeSweep DistillSweep
begin

text \<open>
  A verification development for the Open Brain server, the TypeScript program under \<open>server/\<close>.

  \<^bold>\<open>The program.\<close> An HTTP server gives agents a shared long-term memory. A request carries a bearer
  token; the boundary turns it into an identity, the policies decide which namespaces the identity
  reads and writes, and a session manager keeps one MCP session per client. Two in-memory stores
  hold what a live session appends: the working set, which expires, and the quarantined recovery
  lanes, whose journal survives a restart. Durable records live in PostgreSQL; search fuses a vector
  and a lexical arm, and the context pack assembles what an agent is given at the start of a turn
  from the stores and the search, within the characters it asked for. In the background a queue
  of durable jobs runs maintenance; its route job asks a classifier, Jev, where each
  candidate record belongs and writes what passes the cutoffs.

  \<^bold>\<open>Theories and sources.\<close> Definitions keep the names of the code.
  \<^item> \<open>Prelude\<close>: the JavaScript runtime the server uses (trimming, decimal rendering, the insertion-ordered
    \<open>Map\<close>, the stable sort), \<open>result\<close> for calls that throw, and the locales of maps and sort orders.
    \<open>Json\<close>: values and \<open>JSON.stringify\<close>. \<open>JsNumber\<close>: \<open>parseInt\<close> and \<open>String\<close> on doubles, for the settings.
  \<^item> \<open>SharedNamespace\<close>: the names of the shared partition (\<open>security/shared-namespace.ts\<close>,
    \<open>tools/shared-namespace.ts\<close>, the group of \<open>config/env-groups.ts\<close>).
  \<^item> \<open>AccessControl\<close>, \<open>ReadScope\<close>: roles, tokens, the middleware and the namespace policies (\<open>auth/\<close>,
    \<open>security/namespace-policy.ts\<close>, \<open>transport/rest-api-helpers.ts\<close>, \<open>domain/read-scope.ts\<close>,
    \<open>domain/read-policy.ts\<close>).
  \<^item> \<open>McpSessions\<close>: the session store and its handlers (\<open>transport/session-store.ts\<close>,
    \<open>session-manager.ts\<close>) as a step relation whose steps are the pieces between two awaits.
  \<^item> \<open>Sessions\<close>, \<open>WorkingSet\<close>, \<open>RecoveryWal\<close>, \<open>RecoveryReplay\<close>: the realtime stores (\<open>realtime/\<close>); the
    state is a record of the session map, the totals and the journal, one function per operation.
  \<^item> \<open>RankFusion\<close>: reciprocal rank fusion (\<open>tools/search-engine-fusion.ts\<close>).
  \<^item> \<open>ContextPackBudget\<close>, \<open>ContextPack\<close>, \<open>DurableMemory\<close>: the fitters, the allocator, the admission of the
    nine sections and their assembly (\<open>tools/context-pack-*.ts\<close>, \<open>agent-context-pack.ts\<close>), and the recall behind
    them with its bursts, the suppression of what the model was given already, and the pointers.
  \<^item> \<open>JevBatches\<close>: the classifier client (\<open>integrations/jev*.ts\<close>): question sets, the batch planner, validation
    and execution. \<open>DreamRoute\<close>, \<open>RouteCohort\<close>, \<open>RouteExecute\<close>, \<open>FakeBackend\<close>, \<open>RouteJob\<close>: the route step
    (\<open>domain/dream-route/\<close>, \<open>maintenance/dream-route.ts\<close> and its repositories) from the matrix of
    destinations to the transaction that writes.
  \<^item> \<open>Chunking\<close>: the chunker of the embedding pipeline (\<open>embedding/chunking.ts\<close>).
  \<^item> \<open>MaintenanceQueue\<close>, \<open>MaintenanceRunner\<close>: the job table with the statements over it, the service that
    validates, enqueues, leases and retries, and the runner with heartbeat, poll loop and shutdown
    (\<open>maintenance/maintenance-*.ts\<close>, \<open>db/maintenance-queue-repository.ts\<close>). \<open>MaintenanceConfig\<close>,
    \<open>MaintenanceSweep\<close>: the settings (\<open>config/maintenance.ts\<close>) and the producers that fill the queue: the sweep,
    the ladder that admits a REM or route pass with its signals, and the recurring loop as a step relation.
  \<^item> \<open>CandidateDedupe\<close>: the merge of near-duplicate candidates (\<open>domain/candidate-dedupe.ts\<close>), from the pairing
    query to the transaction, with the two cascades a deletion sets off (migrations 038 and 044: the reinforcements of the
    row, and the parts of an exchange it heads), over an arbitrary vector index and order of rows.
  \<^item> \<open>DistillWindow\<close>: the store of raw turns, the units with their context, the claim of a batch and its stamp, the report of
    an empty claim (\<open>domain/distill-window.ts\<close>, \<open>maintenance/distill-backlog.ts\<close> and the statements on raw turns).
    \<open>DistillExchange\<close>: turns cut into exchanges, rendered in parts, classified and turned into rows
    (\<open>maintenance/distill-exchange.ts\<close>). \<open>ExchangeSweep\<close>: the transaction that writes them, with its dedupe and the links of the
    parts, and the backfill of embeddings (\<open>maintenance/distill-exchange-run.ts\<close>, \<open>db/distill-exchange-repository.ts\<close>).
    \<open>Distiller\<close>: the rules for single turns, the guards around an extractor and the retyping of candidates
    (\<open>domain/distiller.ts\<close>, \<open>maintenance/distill-jev-type.ts\<close>). \<open>DistillSweep\<close>: the distillation job from the claim to the
    transaction (\<open>maintenance/distill-handler.ts\<close>, \<open>distill-claim.ts\<close>, \<open>distill-persist.ts\<close>).

  \<^bold>\<open>How the parts meet.\<close> \<open>ReadScope\<close> and the stores rest on the identities of \<open>AccessControl\<close>;
  \<open>McpSessions\<close> compares them. \<open>RouteJob\<close> composes classifier, deciders and tables. \<open>MaintenanceRunner\<close> is
  proved over the locale \<open>lease_port\<close>, what a runner relies on of a queue, and \<open>MaintenanceQueue\<close>'s table is
  an interpretation of it, also when single statements fail. The sweep is proved over the locale
  \<open>idempotent_queue\<close>, of which the same table is an interpretation, and reads the REM gap the configuration accepted. \<open>DurableMemory\<close> binds its search by the read scope and
  hands its sections to the allocator of \<open>ContextPack\<close>. \<open>ExchangeSweep\<close> composes the order of \<open>DistillWindow\<close>, the extraction
  of \<open>DistillExchange\<close> and the table; that every extraction is cut at heads is what its links rest on. \<open>DistillSweep\<close> composes claim, extractor, the planner of
  \<open>JevBatches\<close> behind the retyping, table and stamp, and reads back the jobs \<open>MaintenanceSweep\<close> enqueues.

  \<^bold>\<open>What the lemmas show.\<close> Confinement: a request acts as its token's identity, a read reaches its own and the
  shared namespace, a session serves one identity. Budgets: the realtime stores, the session cap, the job attempts, the
  runner's concurrency and the context pack never exceed their bounds, in every reachable state. Refinement: the rows of
  the journal rebuild the unexpired records of every lane, and a start-up on them keeps a tail of each, all of it when
  the rebuilt lanes fit the budgets (runs with restarts in them, a clock that does not run back and caller-supplied ids
  that are new); the runner's outcome is the row's state. Exactness: fusion, the batch plan, a
  claim, suppression and the trimming of a checkpoint return what a short reference says. Progress: dropping records too
  large terminates with the largest plan, every record is answered or accounted for, shutdown strands no lease,
  a sweep with enough memory headroom schedules REM after six hours however busy the server,
  a walk over a recall delivers all of it, distillation drains the store it claims from. Distillation: no turn is stamped without its candidate, none is lost between the store and the rows, parts stay
  linked to their head, a repeated sweep writes nothing. Error paths: failed requests, refused statements, lost leases, the
  parts lost with a duplicate head, at distillation and in the merge. Where
  the code differs from its documentation a theorem states what it does.

  \<^bold>\<open>Bounds and fuel.\<close> Loops are structural recursion or \<open>function\<close> with a measure: the chain walk of the merge by the 32 steps of its query, the cascade by the rows
  left, the parse of an answer by the text behind its cursor, the search for a prefix by its interval, the planner and the drop loop by the records left, chunking by the text that is left. Two loops carry a fuel, \<open>shed_items\<close> and \<open>shed_sessions\<close>
  of \<open>Sessions\<close>: the number of items and sessions, one of which goes at each turn on a well-formed map.
  \<open>shed_items_bound\<close> and \<open>shed_sessions_bound\<close> show that they end by their own condition, \<open>shed_items_enough\<close> and
  \<open>shed_sessions_enough\<close> that more fuel changes nothing. The walk of a caller, whose end is not up to the server, is a partial function in the option
  monad, and that it returns is part of its theorem. Budgets are parameters, or the constants of the code.

  \<^bold>\<open>Idealised.\<close> Strings are lists of 8-bit code units, so surrogates do not occur. Numbers are integers or rationals:
  rounding of floating point is modelled where a setting is parsed and rendered again (\<open>JsNumber\<close>) and nowhere else; text in the database is ordered by its characters, and typographic dashes are their ASCII form; the INTEGER columns of the job table have their bounds. Timers, clocks and random ids are
  arguments or events. A database statement is atomic, and what other sessions do between two statements is an
  argument or a step.

  \<^bold>\<open>Not modelled.\<close> SQL beyond the statements named above, and the section loaders that are one SELECT (lane, guidance,
  repository facts): they are parameters. What the DREAM light, deep and REM passes do, the canon check of corrections, which nothing calls yet, graph derivation, tiering and
  promotion: prompts to a model and SQL around small guards. The embedding provider,
  HTTP, NATS and MCP adapters, tool schemas,
  configuration of other components, tracing, logging and redaction: input and output. Clients, hooks, evaluation and
  operator scripts: other programs, partly in other languages.
\<close>

end
